(* ===== verification/Prelude.thy ===== *)
theory Prelude
  imports Complex_Main "HOL-Library.AList"
begin

text \<open>
  Shared vocabulary of the development: the Python exceptions the modelled code raises, results
  of fallible code, insertion-ordered dictionaries, list slices, and the lemma collections the
  component theories use.

  Conventions.
  \<^item> A raised exception is \<open>Inl e\<close>, a returned value is \<open>Inr v\<close>. The text of a message is not
    modelled, its class is.
  \<^item> A \<open>dict\<close> is an association list in insertion order; assigning to an existing key keeps its
    place, as Python does (\<^const>\<open>AList.update\<close>).
  \<^item> IEEE doubles are modelled as reals, except where the code asks whether a value is finite.
  \<^item> Python integers are \<open>int\<close>, or \<open>nat\<close> where the code keeps them non-negative.
\<close>

named_theorems res_simps \<open>equations that run a fallible computation\<close>
named_theorems dict_simps \<open>lookups in and updates of dictionaries\<close>
named_theorems slice_simps \<open>slices of concatenated blocks\<close>

section \<open>Exceptions and fallible results\<close>

datatype py_error =
    ValueError
  | KeyError
  | IndexError
  | TypeError
  | ZeroDivisionError
  | TimeoutError
  | RuntimeError
  | FileExistsError
  | FileNotFoundError
  | OSError
  | JSONDecodeError
  | AttachAborted
  | SafetyHalt
  | PolicyError
  | RecorderUnavailable
  | FactrError
  | AttributeError
  | OverflowError
  | PolicyUnavailable
  | TimeoutExpired

type_synonym 'a res = "py_error + 'a"

definition rbind :: "'a res \<Rightarrow> ('a \<Rightarrow> 'b res) \<Rightarrow> 'b res" where
  "rbind r f = (case r of Inl e \<Rightarrow> Inl e | Inr x \<Rightarrow> f x)"

lemma rbind_Inl [simp, res_simps]: "rbind (Inl e) f = Inl e"
  by (simp add: rbind_def)

lemma rbind_Inr [simp, res_simps]: "rbind (Inr x) f = f x"
  by (simp add: rbind_def)

lemma rbind_eq_Inr [simp]: "rbind r f = Inr y \<longleftrightarrow> (\<exists>x. r = Inr x \<and> f x = Inr y)"
  by (cases r) auto

lemma rbind_eq_Inl: "rbind r f = Inl e \<longleftrightarrow> r = Inl e \<or> (\<exists>x. r = Inr x \<and> f x = Inl e)"
  by (cases r) auto

lemma rbind_split:
  "P (rbind r f) \<longleftrightarrow> (\<forall>e. r = Inl e \<longrightarrow> P (Inl e)) \<and> (\<forall>x. r = Inr x \<longrightarrow> P (f x))"
  by (cases r) auto

text \<open>A comprehension whose body may raise: the first exception ends it.\<close>

fun mapR :: "('a \<Rightarrow> 'b res) \<Rightarrow> 'a list \<Rightarrow> 'b list res" where
  "mapR f [] = Inr []"
| "mapR f (x # xs) = rbind (f x) (\<lambda>y. rbind (mapR f xs) (\<lambda>ys. Inr (y # ys)))"

lemma mapR_Inr_map: "(\<And>x. x \<in> set xs \<Longrightarrow> f x = Inr (g x)) \<Longrightarrow> mapR f xs = Inr (map g xs)"
  by (induction xs) auto

lemma mapR_length: "mapR f xs = Inr ys \<Longrightarrow> length ys = length xs"
  by (induction xs arbitrary: ys) auto

lemma mapR_nth: "mapR f xs = Inr ys \<Longrightarrow> i < length xs \<Longrightarrow> f (xs ! i) = Inr (ys ! i)"
proof (induction xs arbitrary: ys i)
  case (Cons x xs)
  then show ?case by (cases i) auto
qed simp

lemma mapR_Inl: "mapR f xs = Inl e \<Longrightarrow> \<exists>x \<in> set xs. f x = Inl e"
  by (induction xs) (auto simp: rbind_eq_Inl)

lemma mapR_append:
  "mapR f (xs @ ys) = rbind (mapR f xs) (\<lambda>a. rbind (mapR f ys) (\<lambda>b. Inr (a @ b)))"
proof (induction xs)
  case Nil
  then show ?case by (cases "mapR f ys") auto
next
  case (Cons x xs)
  then show ?case by (cases "f x"; cases "mapR f xs"; cases "mapR f ys") auto
qed

text \<open>A loop over a list that threads a state and may raise.\<close>

fun foldR :: "('a \<Rightarrow> 's \<Rightarrow> 's res) \<Rightarrow> 'a list \<Rightarrow> 's \<Rightarrow> 's res" where
  "foldR f [] s = Inr s"
| "foldR f (x # xs) s = rbind (f x s) (foldR f xs)"

lemma foldR_append: "foldR f (xs @ ys) s = rbind (foldR f xs s) (foldR f ys)"
  by (induction xs arbitrary: s) (auto simp: rbind_def split: sum.splits)

lemma foldR_invariant:
  assumes "foldR f xs s = Inr t" and "P s"
    and "\<And>x s t. x \<in> set xs \<Longrightarrow> P s \<Longrightarrow> f x s = Inr t \<Longrightarrow> P t"
  shows "P t"
  using assms
proof (induction xs arbitrary: s)
  case (Cons x xs)
  then obtain u where u: "f x s = Inr u" "foldR f xs u = Inr t" by auto
  have "P u" using Cons.prems u(1) by auto
  then show ?case using Cons.IH[OF u(2)] Cons.prems(3) by auto
qed simp

text \<open>The same for operations that keep the state they reached when they raise.\<close>

fun foldE :: "('a \<Rightarrow> 's \<Rightarrow> unit res \<times> 's) \<Rightarrow> 'a list \<Rightarrow> 's \<Rightarrow> unit res \<times> 's" where
  "foldE f [] s = (Inr (), s)"
| "foldE f (x # xs) s = (case f x s of (Inl e, s') \<Rightarrow> (Inl e, s') | (Inr u, s') \<Rightarrow> foldE f xs s')"

lemma foldE_append:
  "foldE f (xs @ ys) s = (case foldE f xs s of (Inl e, s') \<Rightarrow> (Inl e, s') | (Inr u, s') \<Rightarrow> foldE f ys s')"
  by (induction xs arbitrary: s) (auto split: sum.splits prod.splits)

lemma foldE_invariant:
  assumes "foldE f xs s = (r, t)" "P s" "\<And>x s q t. x \<in> set xs \<Longrightarrow> P s \<Longrightarrow> f x s = (q, t) \<Longrightarrow> P t"
  shows "P t"
  using assms
proof (induction xs arbitrary: s)
  case (Cons x xs)
  obtain q u where u: "f x s = (q, u)" by fastforce
  have "P u" using Cons.prems(2,3) u by auto
  then show ?case using Cons.IH[of u] Cons.prems(1,3) u by (auto split: sum.splits)
qed simp

text \<open>However such a loop ends, it has completed a prefix of its list.\<close>

lemma foldE_prefix:
  assumes "foldE f xs s = (r, t)" "Q ys s"
    and "\<And>ys x s u t. x \<in> set xs \<Longrightarrow> Q ys s \<Longrightarrow> f x s = (Inr u, t) \<Longrightarrow> Q (ys @ [x]) t"
    and "\<And>ys x s e t. x \<in> set xs \<Longrightarrow> Q ys s \<Longrightarrow> f x s = (Inl e, t) \<Longrightarrow> Q ys t"
  shows "\<exists>k. Q (ys @ take k xs) t"
  using assms
proof (induction xs arbitrary: s ys)
  case Nil
  then show ?case by auto
next
  case (Cons x xs)
  obtain q u where u: "f x s = (q, u)" by fastforce
  show ?case
  proof (cases q)
    case (Inl e)
    then have "Q ys t" using Cons.prems(1,2) u Cons.prems(4)[of x ys s e u] by auto
    then show ?thesis by (intro exI[of _ 0]) simp
  next
    case (Inr v)
    have "Q (ys @ [x]) u" using Cons.prems(2) Cons.prems(3)[of x ys s v u] u Inr by auto
    moreover have "foldE f xs u = (r, t)" using Cons.prems(1) u Inr by simp
    moreover have "\<And>ys y s v t. y \<in> set xs \<Longrightarrow> Q ys s \<Longrightarrow> f y s = (Inr v, t) \<Longrightarrow> Q (ys @ [y]) t"
      by (rule Cons.prems(3)) auto
    moreover have "\<And>ys y s e t. y \<in> set xs \<Longrightarrow> Q ys s \<Longrightarrow> f y s = (Inl e, t) \<Longrightarrow> Q ys t"
      by (rule Cons.prems(4)) auto
    ultimately obtain k where "Q ((ys @ [x]) @ take k xs) t"
      using Cons.IH[of u "ys @ [x]"] by blast
    then show ?thesis by (intro exI[of _ "Suc k"]) simp
  qed
qed

lemma foldE_all:
  assumes "foldE f xs s = (Inr (), t)" "Q ys s"
    and "\<And>ys x s u t. x \<in> set xs \<Longrightarrow> Q ys s \<Longrightarrow> f x s = (Inr u, t) \<Longrightarrow> Q (ys @ [x]) t"
  shows "Q (ys @ xs) t"
  using assms
proof (induction xs arbitrary: s ys)
  case (Cons x xs)
  obtain u s' where u: "f x s = (Inr u, s')" "foldE f xs s' = (Inr (), t)"
    using Cons.prems(1) by (auto split: sum.splits prod.splits)
  have "Q (ys @ [x]) s'" using Cons.prems(2) Cons.prems(3)[of x ys s u s'] u(1) by simp
  moreover have "\<And>ys y s v t. y \<in> set xs \<Longrightarrow> Q ys s \<Longrightarrow> f y s = (Inr v, t) \<Longrightarrow> Q (ys @ [y]) t"
    by (rule Cons.prems(3)) auto
  ultimately have "Q ((ys @ [x]) @ xs) t" using Cons.IH[of s' "ys @ [x]"] u(2) by blast
  then show ?case by simp
qed simp

section \<open>Insertion-ordered dictionaries\<close>

type_synonym ('k, 'v) dict = "('k \<times> 'v) list"

abbreviation dget :: "('k, 'v) dict \<Rightarrow> 'k \<Rightarrow> 'v option" where
  "dget \<equiv> map_of"

abbreviation dput :: "'k \<Rightarrow> 'v \<Rightarrow> ('k, 'v) dict \<Rightarrow> ('k, 'v) dict" where
  "dput \<equiv> AList.update"

abbreviation dkeys :: "('k, 'v) dict \<Rightarrow> 'k list" where
  "dkeys d \<equiv> map fst d"

definition ditem :: "('k, 'v) dict \<Rightarrow> 'k \<Rightarrow> 'v res" where
  "ditem d k = (case dget d k of None \<Rightarrow> Inl KeyError | Some v \<Rightarrow> Inr v)"

definition ddel :: "'k \<Rightarrow> ('k, 'v) dict \<Rightarrow> ('k, 'v) dict" where
  "ddel k d = filter (\<lambda>p. fst p \<noteq> k) d"

lemma dget_dput [simp, dict_simps]: "dget (dput k v d) k' = (if k' = k then Some v else dget d k')"
  by (auto simp: update_conv')

lemma ditem_dput [simp, dict_simps]: "ditem (dput k v d) k' = (if k' = k then Inr v else ditem d k')"
  by (simp add: ditem_def)

lemma ditem_Inr [dict_simps]: "ditem d k = Inr v \<longleftrightarrow> dget d k = Some v"
  by (simp add: ditem_def split: option.splits)

lemma ditem_Inl [dict_simps]: "ditem d k = Inl e \<longleftrightarrow> e = KeyError \<and> dget d k = None"
  by (auto simp: ditem_def split: option.splits)

lemma dget_ddel [simp, dict_simps]: "dget (ddel k d) k' = (if k' = k then None else dget d k')"
  by (induction d) (auto simp: ddel_def)

lemma dkeys_dput: "set (dkeys (dput k v d)) = insert k (set (dkeys d))"
  by (induction d) auto

lemma dkeys_dput_new: "k \<notin> set (dkeys d) \<Longrightarrow> dkeys (dput k v d) = dkeys d @ [k]"
  by (induction d) auto

lemma distinct_dput: "distinct (dkeys d) \<Longrightarrow> distinct (dkeys (dput k v d))"
  by (rule distinct_update)

lemma dget_mem: "dget d k = Some v \<Longrightarrow> (k, v) \<in> set d"
  by (rule map_of_SomeD)

lemma dget_None_keys: "dget d k = None \<longleftrightarrow> k \<notin> set (dkeys d)"
  by (simp add: map_of_eq_None_iff)

lemma dget_Some_keys: "(\<exists>v. dget d k = Some v) \<longleftrightarrow> k \<in> set (dkeys d)"
  using dget_None_keys[of d k] by auto

lemma dget_map_pair: "k \<in> set ks \<Longrightarrow> dget (map (\<lambda>k. (k, f k)) ks) k = Some (f k)"
  by (induction ks) auto

lemma dget_map_pair_None: "k \<notin> set ks \<Longrightarrow> dget (map (\<lambda>k. (k, f k)) ks) k = None"
  by (induction ks) auto

section \<open>Slices of lists\<close>

lemma in_take_append: "x \<in> set (take m (xs @ ys)) \<Longrightarrow> x \<in> set xs \<or> x \<in> set (take (m - length xs) ys)"
  by (auto dest: in_set_takeD)

lemma take_append_right: "x \<in> set (take (m - length xs) ys) \<Longrightarrow> x \<in> set (take m (xs @ ys))"
  by auto

definition slice :: "nat \<Rightarrow> nat \<Rightarrow> 'a list \<Rightarrow> 'a list" where
  "slice s e xs = take (e - s) (drop s xs)"

lemma slice_length [simp]: "length (slice s e xs) = min (e - s) (length xs - s)"
  by (simp add: slice_def min.commute)

lemma slice_middle [slice_simps]:
  "length as = s \<Longrightarrow> e = s + length bs \<Longrightarrow> slice s e (as @ bs @ cs) = bs"
  by (simp add: slice_def)

lemma slice_nth: "i < e - s \<Longrightarrow> s + i < length xs \<Longrightarrow> slice s e xs ! i = xs ! (s + i)"
  by (simp add: slice_def)

definition put_slice :: "nat \<Rightarrow> 'a list \<Rightarrow> 'a list \<Rightarrow> 'a list" where
  "put_slice s vs xs = take s xs @ vs @ drop (s + length vs) xs"

lemma put_slice_length [simp]: "s + length vs \<le> length xs \<Longrightarrow> length (put_slice s vs xs) = length xs"
  by (simp add: put_slice_def)

lemma put_slice_nth:
  assumes "s + length vs \<le> length xs" and "i < length xs"
  shows "put_slice s vs xs ! i = (if s \<le> i \<and> i < s + length vs then vs ! (i - s) else xs ! i)"
  using assms by (auto simp: put_slice_def nth_append)

lemma slice_put_slice_same:
  assumes "s + length vs \<le> length xs"
  shows "slice s (s + length vs) (put_slice s vs xs) = vs"
  using assms by (simp add: slice_def put_slice_def)

lemma slice_put_slice_other:
  assumes le: "s + length vs \<le> length xs" "e \<le> length xs"
    and disj: "e \<le> s \<or> s + length vs \<le> b"
  shows "slice b e (put_slice s vs xs) = slice b e xs"
proof (rule nth_equalityI)
  show "length (slice b e (put_slice s vs xs)) = length (slice b e xs)"
    using le by simp
next
  fix i
  assume i: "i < length (slice b e (put_slice s vs xs))"
  then have ib: "i < e - b" "b + i < length xs" using le by auto
  have out: "\<not> (s \<le> b + i \<and> b + i < s + length vs)"
    using disj ib by auto
  show "slice b e (put_slice s vs xs) ! i = slice b e xs ! i"
    using ib out le by (auto simp: slice_nth put_slice_nth)
qed

lemma nth_put_slice_other:
  assumes "s + length vs \<le> length xs" "i < length xs" "i < s \<or> s + length vs \<le> i"
  shows "put_slice s vs xs ! i = xs ! i"
  using assms by (auto simp: put_slice_nth)

text \<open>Largest absolute value of a vector, \<open>numpy.max (numpy.abs v)\<close> (which raises on an empty one).\<close>

definition linf :: "real list \<Rightarrow> real res" where
  "linf v = (if v = [] then Inl ValueError else Inr (Max ((\<lambda>x. \<bar>x\<bar>) ` set v)))"

lemma linf_le: "linf v = Inr m \<Longrightarrow> x \<in> set v \<Longrightarrow> \<bar>x\<bar> \<le> m"
  by (auto simp: linf_def split: if_splits)

lemma linf_mem: "linf v = Inr m \<Longrightarrow> \<exists>x \<in> set v. m = \<bar>x\<bar>"
proof -
  assume a: "linf v = Inr m"
  then have "m \<in> (\<lambda>x. \<bar>x\<bar>) ` set v"
    using Max_in[of "(\<lambda>x. \<bar>x\<bar>) ` set v"] by (auto simp: linf_def split: if_splits)
  then show ?thesis by auto
qed

text \<open>The decimal text of a number, \<open>str (n)\<close>.\<close>

fun nat_str :: "nat \<Rightarrow> string" where
  "nat_str n = (if n < 10 then [char_of (48 + n)] else nat_str (n div 10) @ [char_of (48 + n mod 10)])"

declare nat_str.simps [simp del]

end
