(* ===== verification/Ring_Buffer.thy ===== *)
theory Ring_Buffer
  imports Prelude
begin

text \<open>
  The shared-memory ring of \<^verbatim>\<open>streams/ring.py\<close> and the stream contract of \<^verbatim>\<open>streams/spec.py\<close>,
  operation by operation, without interference (\<^verbatim>\<open>Seqlock\<close> adds the interleavings).

  A \<open>segment\<close> is the shared memory block: the header words, the per-slot stamps, the per-slot
  timestamps and the payload rows. A \<open>ring_view\<close> is the Python object over it, whose fields are
  decoded from the header once. The abstract value of a ring is the list of every sample ever
  published (\<open>ring_rep\<close>); \<open>ring_append\<close> appends to it and \<open>ring_last\<close> returns its newest
  suffix. The interface \<open>sample_log\<close> states this contract for the clients of a stream.
\<close>

section \<open>Stream specifications\<close>

datatype dtype = Float32 | Float64 | UInt8 | UInt16

fun itemsize :: "dtype \<Rightarrow> nat" where
  "itemsize Float32 = 4"
| "itemsize Float64 = 8"
| "itemsize UInt8 = 1"
| "itemsize UInt16 = 2"

fun dtype_name :: "dtype \<Rightarrow> string" where
  "dtype_name Float32 = ''float32''"
| "dtype_name Float64 = ''float64''"
| "dtype_name UInt8 = ''uint8''"
| "dtype_name UInt16 = ''uint16''"

definition ALLOWED_DTYPES :: "string list" where
  "ALLOWED_DTYPES = [''float32'', ''float64'', ''uint8'', ''uint16'']"

text \<open>\<open>numpy.dtype (s)\<close> restricted to the dtypes a ring supports.\<close>

fun np_dtype :: "string \<Rightarrow> dtype option" where
  "np_dtype s =
     (if s = ''float32'' then Some Float32 else if s = ''float64'' then Some Float64
      else if s = ''uint8'' then Some UInt8 else if s = ''uint16'' then Some UInt16 else None)"

record stream_spec =
  ss_name :: string
  ss_dim :: int
  ss_capacity :: int
  ss_dtype :: string
  ss_rate_hz :: "real option"

text \<open>The constructor with its \<^verbatim>\<open>__post_init__\<close> checks, in the code's order.\<close>

definition mk_stream_spec ::
    "string \<Rightarrow> int \<Rightarrow> int \<Rightarrow> string \<Rightarrow> real option \<Rightarrow> stream_spec res" where
  "mk_stream_spec n d c ty r =
     (if n = '''' then Inl ValueError
      else if d \<le> 0 then Inl ValueError
      else if c \<le> 0 then Inl ValueError
      else if ty \<notin> set ALLOWED_DTYPES then Inl ValueError
      else Inr \<lparr>ss_name = n, ss_dim = d, ss_capacity = c, ss_dtype = ty, ss_rate_hz = r\<rparr>)"

definition spec_ok :: "stream_spec \<Rightarrow> bool" where
  "spec_ok s \<longleftrightarrow> ss_name s \<noteq> '''' \<and> 0 < ss_dim s \<and> 0 < ss_capacity s
     \<and> ss_dtype s \<in> set ALLOWED_DTYPES"

lemma mk_stream_spec_ok: "mk_stream_spec n d c ty r = Inr s \<Longrightarrow> spec_ok s"
  by (auto simp: mk_stream_spec_def spec_ok_def split: if_splits)

lemma allowed_dtype_np: "ty \<in> set ALLOWED_DTYPES \<Longrightarrow> \<exists>d. np_dtype ty = Some d \<and> dtype_name d = ty"
  by (auto simp: ALLOWED_DTYPES_def)

section \<open>Header and memory layout\<close>

abbreviation (input) HEADER_LEN :: nat where "HEADER_LEN \<equiv> 8"
abbreviation (input) H_MAGIC :: nat where "H_MAGIC \<equiv> 0"
abbreviation (input) H_VERSION :: nat where "H_VERSION \<equiv> 1"
abbreviation (input) H_CAPACITY :: nat where "H_CAPACITY \<equiv> 2"
abbreviation (input) H_DIM :: nat where "H_DIM \<equiv> 3"
abbreviation (input) H_DTYPE_CODE :: nat where "H_DTYPE_CODE \<equiv> 4"
abbreviation (input) H_WRITE_COUNT :: nat where "H_WRITE_COUNT \<equiv> 5"

definition MAGIC :: int where
  "MAGIC = 0x4446425252494E47 mod 2 ^ 63"

definition VERSION :: int where
  "VERSION = 1"

fun DTYPE_TO_CODE :: "dtype \<Rightarrow> int" where
  "DTYPE_TO_CODE Float32 = 0"
| "DTYPE_TO_CODE Float64 = 1"
| "DTYPE_TO_CODE UInt8 = 2"
| "DTYPE_TO_CODE UInt16 = 3"

definition CODE_TO_DTYPE :: "int \<Rightarrow> dtype option" where
  "CODE_TO_DTYPE c =
     map_of (map (\<lambda>d. (DTYPE_TO_CODE d, d)) [Float32, Float64, UInt8, UInt16]) c"

lemma CODE_TO_DTYPE_inverse [simp]: "CODE_TO_DTYPE (DTYPE_TO_CODE d) = Some d"
  by (cases d) (simp_all add: CODE_TO_DTYPE_def)

definition shm_size :: "nat \<Rightarrow> nat \<Rightarrow> nat \<Rightarrow> nat" where
  "shm_size capacity dm isz = (HEADER_LEN + 2 * capacity) * 8 + capacity * dm * isz"

definition seq_off :: nat where
  "seq_off = HEADER_LEN * 8"

definition ts_off :: "nat \<Rightarrow> nat" where
  "ts_off capacity = seq_off + capacity * 8"

definition data_off :: "nat \<Rightarrow> nat" where
  "data_off capacity = ts_off capacity + capacity * 8"

lemmas layout_defs = shm_size_def seq_off_def ts_off_def data_off_def

section \<open>The segment and the Python view of it\<close>

record 'v segment =
  header :: "int list"
  seqs :: "int list"
  stamps :: "int list"
  rows :: "'v list list"

record ring_view =
  rv_capacity :: nat
  rv_dim :: nat
  rv_dtype :: dtype
  rv_owner :: bool

definition write_count :: "'v segment \<Rightarrow> int" where
  "write_count g = header g ! H_WRITE_COUNT"

definition ring_init :: "'v segment \<Rightarrow> bool \<Rightarrow> ring_view res" where
  "ring_init g owner =
     (if header g ! H_MAGIC \<noteq> MAGIC then Inl ValueError
      else case CODE_TO_DTYPE (header g ! H_DTYPE_CODE) of
        None \<Rightarrow> Inl KeyError
      | Some dt \<Rightarrow> Inr \<lparr>rv_capacity = nat (header g ! H_CAPACITY), rv_dim = nat (header g ! H_DIM),
                      rv_dtype = dt, rv_owner = owner\<rparr>)"

text \<open>
  \<open>create\<close>: a fresh POSIX segment is zero-filled; the header is written with the magic last,
  and every stamp is \<open>-1\<close>. \<open>z\<close> is the zero of the payload dtype.
\<close>

definition create_header :: "nat \<Rightarrow> nat \<Rightarrow> dtype \<Rightarrow> int list" where
  "create_header capacity dm dt =
     (let h0 = replicate HEADER_LEN 0;
          h1 = h0[H_CAPACITY := int capacity];
          h2 = h1[H_DIM := int dm];
          h3 = h2[H_DTYPE_CODE := DTYPE_TO_CODE dt];
          h4 = h3[H_VERSION := VERSION];
          h5 = h4[H_WRITE_COUNT := 0]
      in h5[H_MAGIC := MAGIC])"

definition ring_create ::
    "'v \<Rightarrow> nat \<Rightarrow> nat \<Rightarrow> string \<Rightarrow> ('v segment \<times> ring_view) res" where
  "ring_create z capacity dm ty =
     (case np_dtype ty of
        None \<Rightarrow> Inl ValueError
      | Some dt \<Rightarrow>
          (let g = \<lparr>header = create_header capacity dm dt, seqs = replicate capacity (-1),
                    stamps = replicate capacity 0, rows = replicate capacity (replicate dm z)\<rparr>
           in rbind (ring_init g True) (\<lambda>v. Inr (g, v))))"

definition ring_attach :: "'v segment \<Rightarrow> ring_view res" where
  "ring_attach g = ring_init g False"

section \<open>Producer: append\<close>

text \<open>
  The five stores of \<open>append\<close> in program order: invalidate the stamp, payload, timestamp,
  publish the stamp, publish the count.
\<close>

definition append_stores :: "nat \<Rightarrow> int \<Rightarrow> 'v list \<Rightarrow> int \<Rightarrow> 'v segment \<Rightarrow> 'v segment" where
  "append_stores slot idx vec t g =
     (let g1 = g\<lparr>seqs := (seqs g)[slot := -1]\<rparr>;
          g2 = g1\<lparr>rows := (rows g1)[slot := vec]\<rparr>;
          g3 = g2\<lparr>stamps := (stamps g2)[slot := t]\<rparr>;
          g4 = g3\<lparr>seqs := (seqs g3)[slot := idx]\<rparr>
      in g4\<lparr>header := (header g4)[H_WRITE_COUNT := idx + 1]\<rparr>)"

definition ring_append ::
    "ring_view \<Rightarrow> 'v list \<Rightarrow> int \<Rightarrow> 'v segment \<Rightarrow> ('v segment \<times> int) res" where
  "ring_append v vec t g =
     (if length vec \<noteq> rv_dim v then Inl ValueError
      else let idx = write_count g in
        if rv_capacity v = 0 then Inl ZeroDivisionError
        else let slot = nat (idx mod int (rv_capacity v))
          in Inr (append_stores slot idx vec t g, idx))"

section \<open>Consumer: last\<close>

record 'v samples =
  sm_data :: "'v list list"
  sm_t_ns :: "int list"
  sm_seq :: "int list"
  sm_overrun :: bool

definition sm_n :: "'v samples \<Rightarrow> nat" where
  "sm_n s = length (sm_data s)"

definition sm_newest :: "'v samples \<Rightarrow> 'v list option" where
  "sm_newest s = (if sm_n s = 0 then None else Some (last (sm_data s)))"

definition sm_newest_t_ns :: "'v samples \<Rightarrow> int option" where
  "sm_newest_t_ns s = (if sm_n s = 0 then None else Some (last (sm_t_ns s)))"

definition empty_samples :: "'v samples" where
  "empty_samples = \<lparr>sm_data = [], sm_t_ns = [], sm_seq = [], sm_overrun = False\<rparr>"

definition READ_RETRIES :: nat where
  "READ_RETRIES = 4"

text \<open>Global indices \<open>wc - n, \<dots>, wc - 1\<close> and the slots that hold them.\<close>

definition window :: "nat \<Rightarrow> int \<Rightarrow> int list" where
  "window n wc = map (\<lambda>i. wc - int n + int i) [0..<n]"

definition slots_of :: "nat \<Rightarrow> int list \<Rightarrow> nat list" where
  "slots_of cap gidx = map (\<lambda>i. nat (i mod int cap)) gidx"

definition newest_run :: "bool list \<Rightarrow> nat" where
  "newest_run ok = length ok - length (takeWhile id (rev ok))"

text \<open>
  What one attempt concludes from its private copies: the whole window when every stamp
  validated twice, else the run after the last bad slot (if any is left) as the fallback.
\<close>

datatype 'v verdict = Whole "'v samples" | Partial "'v samples option"

definition validate ::
    "int list \<Rightarrow> int list \<Rightarrow> 'v list list \<Rightarrow> int list \<Rightarrow> int list \<Rightarrow> 'v verdict" where
  "validate gidx s1 dat ts s2 =
     (let ok = map (\<lambda>(g, a, b). a = g \<and> b = g) (zip gidx (zip s1 s2))
      in if list_all id ok
         then Whole \<lparr>sm_data = dat, sm_t_ns = ts, sm_seq = gidx, sm_overrun = False\<rparr>
         else let start = newest_run ok
              in if start < length gidx
                 then Partial (Some \<lparr>sm_data = drop start dat, sm_t_ns = drop start ts,
                                     sm_seq = drop start gidx, sm_overrun = True\<rparr>)
                 else Partial None)"

text \<open>One attempt over unchanging memory; \<open>None\<close> is the early return on an empty ring.\<close>

definition last_attempt :: "nat \<Rightarrow> nat \<Rightarrow> 'v segment \<Rightarrow> 'v verdict option" where
  "last_attempt cap k g =
     (let wc = write_count g in
      if wc \<le> 0 then None
      else let n = min k (min cap (nat wc));
               gidx = window n wc;
               sl = slots_of cap gidx;
               s1 = map ((!) (seqs g)) sl;
               dat = map ((!) (rows g)) sl;
               ts = map ((!) (stamps g)) sl;
               s2 = map ((!) (seqs g)) sl
           in Some (validate gidx s1 dat ts s2))"

text \<open>The retry loop; the first argument counts the remaining attempts of \<open>range (READ_RETRIES)\<close>.\<close>

primrec last_loop :: "nat \<Rightarrow> nat \<Rightarrow> nat \<Rightarrow> 'v samples option \<Rightarrow> 'v segment \<Rightarrow> 'v samples" where
  "last_loop 0 cap k last_ok g = (case last_ok of Some s \<Rightarrow> s | None \<Rightarrow> empty_samples)"
| "last_loop (Suc fuel) cap k last_ok g =
     (case last_attempt cap k g of
        None \<Rightarrow> empty_samples
      | Some (Whole s) \<Rightarrow> s
      | Some (Partial r) \<Rightarrow>
          last_loop fuel cap k (case r of None \<Rightarrow> last_ok | Some s \<Rightarrow> Some s) g)"

definition ring_last :: "ring_view \<Rightarrow> int \<Rightarrow> 'v segment \<Rightarrow> 'v samples" where
  "ring_last v k g =
     (if k \<le> 0 then empty_samples
      else last_loop READ_RETRIES (rv_capacity v) (nat k) None g)"

definition ring_latest :: "ring_view \<Rightarrow> 'v segment \<Rightarrow> 'v samples" where
  "ring_latest v g = ring_last v 1 g"


section \<open>The abstract value of a ring\<close>

text \<open>
  \<open>ring_rep v g H\<close>: view \<open>v\<close> over segment \<open>g\<close> represents the history \<open>H\<close> of all published
  samples, oldest first. The newest \<open>min cap |H|\<close> of them sit in their slots with their global
  index as stamp; a slot that was never written is stamped \<open>-1\<close>.
\<close>

definition view_ok :: "ring_view \<Rightarrow> 'v segment \<Rightarrow> bool" where
  "view_ok v g \<longleftrightarrow> 0 < rv_capacity v \<and> length (header g) = HEADER_LEN
     \<and> ring_init g (rv_owner v) = Inr v
     \<and> length (seqs g) = rv_capacity v \<and> length (stamps g) = rv_capacity v
     \<and> length (rows g) = rv_capacity v \<and> (\<forall>r \<in> set (rows g). length r = rv_dim v)"

definition slot_holds :: "'v segment \<Rightarrow> nat \<Rightarrow> nat \<Rightarrow> (int \<times> 'v list) \<Rightarrow> bool" where
  "slot_holds g cap i x \<longleftrightarrow> seqs g ! (i mod cap) = int i \<and> stamps g ! (i mod cap) = fst x
     \<and> rows g ! (i mod cap) = snd x"

definition ring_rep :: "ring_view \<Rightarrow> 'v segment \<Rightarrow> (int \<times> 'v list) list \<Rightarrow> bool" where
  "ring_rep v g H \<longleftrightarrow> view_ok v g \<and> write_count g = int (length H)
     \<and> (\<forall>i < length H. length H \<le> i + rv_capacity v \<longrightarrow> slot_holds g (rv_capacity v) i (H ! i))
     \<and> (\<forall>s < rv_capacity v. length H \<le> s \<longrightarrow> seqs g ! s = -1)
     \<and> (\<forall>x \<in> set H. length (snd x) = rv_dim v)"

text \<open>The newest \<open>k\<close> retained entries of a history, as the batch a reader gets.\<close>

definition newest_batch :: "nat \<Rightarrow> nat \<Rightarrow> (int \<times> 'v list) list \<Rightarrow> 'v samples" where
  "newest_batch cap k H =
     (let n = min k (min cap (length H)); r = drop (length H - n) H
      in \<lparr>sm_data = map snd r, sm_t_ns = map fst r,
          sm_seq = map int [length H - n..<length H], sm_overrun = False\<rparr>)"

lemma newest_batch_empty [simp]: "newest_batch cap k [] = empty_samples"
  by (simp add: newest_batch_def empty_samples_def)

lemma newest_batch_0 [simp]: "newest_batch cap 0 H = empty_samples"
  by (simp add: newest_batch_def empty_samples_def)

lemma sm_n_newest_batch [simp]: "sm_n (newest_batch cap k H) = min k (min cap (length H))"
  by (simp add: newest_batch_def sm_n_def Let_def)

lemma newest_batch_newest:
  assumes "0 < k" "0 < cap" "H \<noteq> []"
  shows "sm_newest (newest_batch cap k H) = Some (snd (last H))"
    and "sm_newest_t_ns (newest_batch cap k H) = Some (fst (last H))"
proof -
  let ?n = "min k (min cap (length H))"
  have n: "0 < ?n" "?n \<le> length H" using assms by auto
  have "drop (length H - ?n) H \<noteq> []"
    unfolding drop_eq_Nil not_le using n by linarith
  then have "last (map snd (drop (length H - ?n) H)) = snd (last H)"
    and "last (map fst (drop (length H - ?n) H)) = fst (last H)"
    using n by (simp_all add: last_map last_drop)
  then show "sm_newest (newest_batch cap k H) = Some (snd (last H))"
    and "sm_newest_t_ns (newest_batch cap k H) = Some (fst (last H))"
    using n by (simp_all add: sm_newest_def sm_newest_t_ns_def)
      (simp_all add: newest_batch_def Let_def)
qed

subsection \<open>Creation\<close>

lemma ring_init_cong:
  assumes "header h ! H_MAGIC = header g ! H_MAGIC"
    and "header h ! H_DTYPE_CODE = header g ! H_DTYPE_CODE"
    and "header h ! H_CAPACITY = header g ! H_CAPACITY" and "header h ! H_DIM = header g ! H_DIM"
  shows "ring_init h = ring_init g"
  using assms by (auto simp: ring_init_def fun_eq_iff split: option.splits)

lemma create_header_nth [simp]:
  "length (create_header c d dt) = HEADER_LEN"
  "create_header c d dt ! H_MAGIC = MAGIC"
  "create_header c d dt ! H_CAPACITY = int c"
  "create_header c d dt ! H_DIM = int d"
  "create_header c d dt ! H_DTYPE_CODE = DTYPE_TO_CODE dt"
  "create_header c d dt ! H_WRITE_COUNT = 0"
  by (simp_all add: create_header_def numeral_eq_Suc)

lemma ring_create_rep:
  assumes "np_dtype ty = Some dt" and "0 < c"
  shows "\<exists>g v. ring_create z c d ty = Inr (g, v) \<and> ring_rep v g []
           \<and> rv_capacity v = c \<and> rv_dim v = d \<and> rv_dtype v = dt \<and> rv_owner v"
  using assms
  by (auto simp: ring_create_def Let_def ring_init_def ring_rep_def view_ok_def write_count_def)

lemma ring_attach_view:
  assumes "view_ok v g"
  shows "ring_attach g = Inr (v\<lparr>rv_owner := False\<rparr>)"
proof -
  have "ring_init g (rv_owner v) = Inr v" using assms by (simp add: view_ok_def)
  then show ?thesis
    by (cases v) (auto simp: ring_attach_def ring_init_def split: if_splits option.splits)
qed

subsection \<open>Append\<close>

lemma append_stores_sel [simp]:
  "seqs (append_stores s i vec t g) = (seqs g)[s := i]"
  "stamps (append_stores s i vec t g) = (stamps g)[s := t]"
  "rows (append_stores s i vec t g) = (rows g)[s := vec]"
  "header (append_stores s i vec t g) = (header g)[H_WRITE_COUNT := i + 1]"
  by (simp_all add: append_stores_def Let_def)

lemma write_count_append_stores [simp]:
  "length (header g) = HEADER_LEN \<Longrightarrow> write_count (append_stores s i vec t g) = i + 1"
  by (simp add: write_count_def)

lemma view_ok_append_stores:
  "view_ok v g \<Longrightarrow> length vec = rv_dim v \<Longrightarrow> view_ok v (append_stores s i vec t g)"
  using ring_init_cong[of "append_stores s i vec t g" g] set_update_subset_insert[of "rows g" s vec]
  by (auto simp: view_ok_def)

lemma same_slot_gap:
  fixes i j cap :: nat
  assumes "i < j" "j < i + cap"
  shows "i mod cap \<noteq> j mod cap"
proof
  assume "i mod cap = j mod cap"
  then have "cap dvd j - i"
    using assms mod_eq_dvd_iff_nat[of i j cap] by simp
  then have "cap \<le> j - i" using assms by (auto dest: dvd_imp_le)
  then show False using assms by simp
qed

lemma slot_holds_append_new:
  assumes "view_ok v g"
  shows "slot_holds (append_stores (i mod rv_capacity v) (int i) vec t g) (rv_capacity v) i (t, vec)"
  using assms by (simp add: slot_holds_def view_ok_def)

lemma slot_holds_append_other:
  assumes "slot_holds g cap i x" and "i < j" "j < i + cap"
  shows "slot_holds (append_stores (j mod cap) (int j) vec t g) cap i x"
  using assms same_slot_gap[of i j cap] by (simp add: slot_holds_def)

theorem ring_append_rep:
  assumes rep: "ring_rep v g H" and len: "length vec = rv_dim v"
  shows "\<exists>g'. ring_append v vec t g = Inr (g', int (length H)) \<and> ring_rep v g' (H @ [(t, vec)])"
proof -
  let ?cap = "rv_capacity v" and ?j = "length H"
  let ?g = "append_stores (?j mod ?cap) (int ?j) vec t g"
  have vo: "view_ok v g" and wc: "write_count g = int ?j"
    using rep by (auto simp: ring_rep_def)
  have cap: "0 < ?cap" using vo by (simp add: view_ok_def)
  have run: "ring_append v vec t g = Inr (?g, int ?j)"
    using len cap wc by (simp add: ring_append_def Let_def nat_mod_distrib)
  have hold: "slot_holds ?g ?cap i ((H @ [(t, vec)]) ! i)"
    if "i < Suc ?j" "Suc ?j \<le> i + ?cap" for i
  proof (cases "i = ?j")
    case True
    then show ?thesis using slot_holds_append_new[OF vo] by simp
  next
    case False
    then have "i < ?j" "slot_holds g ?cap i (H ! i)"
      using that rep by (auto simp: ring_rep_def)
    then show ?thesis using slot_holds_append_other[of g ?cap i "H ! i" ?j] that
      by (simp add: nth_append)
  qed
  have unused: "seqs ?g ! s = -1" if "s < ?cap" "Suc ?j \<le> s" for s
  proof -
    have "?j mod ?cap \<noteq> s" using that by auto
    then show ?thesis using rep that by (simp add: ring_rep_def)
  qed
  have "ring_rep v ?g (H @ [(t, vec)])"
    using hold unused rep len vo view_ok_append_stores[OF vo len]
    by (auto simp: ring_rep_def view_ok_def)
  then show ?thesis using run by blast
qed

lemma ring_append_bad_shape:
  "length vec \<noteq> rv_dim v \<Longrightarrow> ring_append v vec t g = Inl ValueError"
  by (simp add: ring_append_def)

subsection \<open>Last\<close>

lemma window_slots:
  assumes "n \<le> m" "0 < cap"
  shows "slots_of cap (window n (int m)) = map (\<lambda>i. i mod cap) [m - n..<m]"
proof (rule nth_equalityI)
  show "length (slots_of cap (window n (int m))) = length (map (\<lambda>i. i mod cap) [m - n..<m])"
    using assms by (simp add: slots_of_def window_def)
next
  fix i assume "i < length (slots_of cap (window n (int m)))"
  then have i: "i < n" by (simp add: slots_of_def window_def)
  have "nat (int m - int n + int i) = m - n + i" using assms by linarith
  then show "slots_of cap (window n (int m)) ! i = map (\<lambda>i. i mod cap) [m - n..<m] ! i"
    using i assms by (simp add: slots_of_def window_def nat_mod_distrib)
qed

lemma window_seq:
  assumes "n \<le> m"
  shows "window n (int m) = map int [m - n..<m]"
  using assms by (auto intro!: nth_equalityI simp: window_def)

lemma map_drop_nth: "n \<le> length H \<Longrightarrow> map ((!) H) [length H - n..<length H] = drop (length H - n) H"
  by (auto intro!: nth_equalityI)

lemma validate_whole:
  assumes "s1 = gidx" "s2 = gidx"
  shows "validate gidx s1 dat ts s2 =
           Whole \<lparr>sm_data = dat, sm_t_ns = ts, sm_seq = gidx, sm_overrun = False\<rparr>"
proof -
  have "list_all id (map (\<lambda>(g, a, b). a = g \<and> b = g) (zip gidx (zip s1 s2)))"
    using assms by (auto simp: list_all_length)
  then show ?thesis by (simp add: validate_def)
qed

lemma last_attempt_rep:
  assumes rep: "ring_rep v g H" and ne: "H \<noteq> []"
  shows "last_attempt (rv_capacity v) k g = Some (Whole (newest_batch (rv_capacity v) k H))"
proof -
  let ?cap = "rv_capacity v" and ?m = "length H"
  let ?n = "min k (min ?cap ?m)"
  have cap: "0 < ?cap" and wc: "write_count g = int ?m"
    using rep by (auto simp: ring_rep_def view_ok_def)
  have n: "?n \<le> ?m" by simp
  have hold: "slot_holds g ?cap i (H ! i)" if "i \<in> set [?m - ?n..<?m]" for i
    using rep that by (auto simp: ring_rep_def)
  have sl: "slots_of ?cap (window ?n (int ?m)) = map (\<lambda>i. i mod ?cap) [?m - ?n..<?m]"
    using window_slots[OF n cap] .
  have seq: "map ((!) (seqs g)) (slots_of ?cap (window ?n (int ?m))) = window ?n (int ?m)"
    unfolding sl unfolding window_seq[OF n] map_map
    using hold by (intro map_cong) (auto simp: slot_holds_def)
  have dat: "map ((!) (rows g)) (slots_of ?cap (window ?n (int ?m))) = map snd (drop (?m - ?n) H)"
    unfolding sl unfolding map_drop_nth[OF n, symmetric] map_map
    using hold by (intro map_cong) (auto simp: slot_holds_def)
  have ts: "map ((!) (stamps g)) (slots_of ?cap (window ?n (int ?m))) = map fst (drop (?m - ?n) H)"
    unfolding sl unfolding map_drop_nth[OF n, symmetric] map_map
    using hold by (intro map_cong) (auto simp: slot_holds_def)
  have "last_attempt ?cap k g = Some (validate (window ?n (int ?m))
      (map ((!) (seqs g)) (slots_of ?cap (window ?n (int ?m))))
      (map ((!) (rows g)) (slots_of ?cap (window ?n (int ?m))))
      (map ((!) (stamps g)) (slots_of ?cap (window ?n (int ?m))))
      (map ((!) (seqs g)) (slots_of ?cap (window ?n (int ?m)))))"
    using ne wc by (simp add: last_attempt_def Let_def)
  also have "\<dots> = Some (Whole (newest_batch ?cap k H))"
    unfolding seq dat ts by (simp add: validate_whole newest_batch_def Let_def window_seq[OF n])
  finally show ?thesis .
qed

theorem last_loop_rep:
  assumes rep: "ring_rep v g H"
  shows "last_loop (Suc fuel) (rv_capacity v) k lo g = newest_batch (rv_capacity v) k H"
proof (cases "H = []")
  case True
  then show ?thesis using rep by (simp add: ring_rep_def last_attempt_def)
next
  case False
  then show ?thesis by (simp add: last_attempt_rep[OF rep])
qed

theorem ring_last_rep:
  assumes "ring_rep v g H"
  shows "ring_last v k g = newest_batch (rv_capacity v) (nat k) H"
  using last_loop_rep[OF assms, of 3] by (simp add: ring_last_def READ_RETRIES_def)

lemma ring_latest_rep:
  assumes "ring_rep v g H" "H \<noteq> []"
  shows "sm_n (ring_latest v g) = 1" and "sm_newest (ring_latest v g) = Some (snd (last H))"
    and "sm_newest_t_ns (ring_latest v g) = Some (fst (last H))"
proof -
  have "0 < rv_capacity v" using assms by (simp add: ring_rep_def view_ok_def)
  then show "sm_n (ring_latest v g) = 1" and "sm_newest (ring_latest v g) = Some (snd (last H))"
    and "sm_newest_t_ns (ring_latest v g) = Some (fst (last H))"
    using assms newest_batch_newest[of 1 "rv_capacity v" H]
    by (auto simp: ring_latest_def ring_last_rep Suc_le_eq)
qed

section \<open>The contract of a stream\<close>

text \<open>
  What the clients of a stream rely on: the store represents the history of everything
  published, publishing appends to it, and a read of \<open>k\<close> returns the newest \<open>min k depth\<close>
  entries in order, each with its global index. Everything the control channel proves about
  its mailboxes and its command queue is proved from these laws.
\<close>

definition indexed :: "(int \<times> 'x) list \<Rightarrow> (int \<times> int \<times> 'x) list" where
  "indexed H = map (\<lambda>i. (int i, H ! i)) [0..<length H]"

lemma length_indexed [simp]: "length (indexed H) = length H"
  by (simp add: indexed_def)

lemma indexed_nth [simp]: "i < length H \<Longrightarrow> indexed H ! i = (int i, H ! i)"
  by (simp add: indexed_def)

lemma indexed_append:
  "indexed (H @ K) = indexed H @ map (\<lambda>i. (int (length H + i), K ! i)) [0..<length K]"
  by (rule nth_equalityI) (auto simp: indexed_def nth_append)

lemma indexed_snoc [simp]: "indexed (H @ [x]) = indexed H @ [(int (length H), x)]"
  by (simp add: indexed_append)

lemma drop_indexed: "drop m (indexed H) = map (\<lambda>i. (int i, H ! i)) [m..<length H]"
  by (simp add: indexed_def drop_map)

lemma snd_drop_indexed: "map snd (drop m (indexed H)) = drop m H"
  by (auto intro!: nth_equalityI)

locale sample_log =
  fixes rep :: "'s \<Rightarrow> (int \<times> 'x) list \<Rightarrow> bool"
    and put :: "int \<Rightarrow> 'x \<Rightarrow> 's \<Rightarrow> 's res"
    and batch :: "nat \<Rightarrow> 's \<Rightarrow> (int \<times> int \<times> 'x) list"
    and depth :: "'s \<Rightarrow> nat"
    and fits :: "'s \<Rightarrow> 'x \<Rightarrow> bool"
  assumes put_ok: "rep s H \<Longrightarrow> fits s x \<Longrightarrow> \<exists>s'. put t x s = Inr s'"
    and put_rep: "rep s H \<Longrightarrow> put t x s = Inr s' \<Longrightarrow> rep s' (H @ [(t, x)])"
    and put_depth: "rep s H \<Longrightarrow> put t x s = Inr s' \<Longrightarrow> depth s' = depth s"
    and put_fits: "rep s H \<Longrightarrow> put t x s = Inr s' \<Longrightarrow> fits s' y = fits s y"
    and batch_rep: "rep s H \<Longrightarrow> batch k s = drop (length H - min k (depth s)) (indexed H)"
    and depth_pos: "rep s H \<Longrightarrow> 0 < depth s"
begin

fun put_all :: "(int \<times> 'x) list \<Rightarrow> 's \<Rightarrow> 's res" where
  "put_all [] s = Inr s"
| "put_all ((t, x) # xs) s = rbind (put t x s) (put_all xs)"

lemma put_all_rep:
  assumes "rep s H" "put_all xs s = Inr s'"
  shows "rep s' (H @ xs)" and "depth s' = depth s"
  using assms
proof (induction xs arbitrary: s H)
  case (Cons p xs)
  obtain t x where p: "p = (t, x)" by (cases p)
  { case 1
    then obtain u where u: "put t x s = Inr u" "put_all xs u = Inr s'" by (auto simp: p)
    show ?case using Cons.IH(1)[OF put_rep[OF 1(1) u(1)] u(2)] by (simp add: p) }
  { case 2
    then obtain u where u: "put t x s = Inr u" "put_all xs u = Inr s'" by (auto simp: p)
    show ?case using Cons.IH(2)[OF put_rep[OF 2(1) u(1)] u(2)] put_depth[OF 2(1) u(1)] by simp }
qed simp_all

lemma put_all_ok:
  assumes "rep s H" "\<And>p. p \<in> set xs \<Longrightarrow> fits s (snd p)"
  shows "\<exists>s'. put_all xs s = Inr s'"
  using assms
proof (induction xs arbitrary: s H)
  case (Cons p xs)
  obtain t x where p: "p = (t, x)" by (cases p)
  have "fits s x" using Cons.prems(2)[of p] by (simp add: p)
  then obtain u where u: "put t x s = Inr u" using put_ok[OF Cons.prems(1)] by blast
  have "\<And>q. q \<in> set xs \<Longrightarrow> fits u (snd q)"
    using put_fits[OF Cons.prems(1) u] Cons.prems(2) by auto
  then show ?case using Cons.IH[OF put_rep[OF Cons.prems(1) u]] u p by auto
qed simp

lemma latest_wins:
  assumes "rep s H" "put t x s = Inr s'"
  shows "batch 1 s' = [(int (length H), t, x)]"
proof -
  have "0 < depth s'" using depth_pos[OF put_rep[OF assms]] .
  then show ?thesis using batch_rep[OF put_rep[OF assms], of 1] by (simp add: min_def)
qed

lemma whole_window:
  assumes "rep s H"
  shows "batch (depth s) s = drop (length H - depth s) (indexed H)"
  using batch_rep[OF assms, of "depth s"] by simp

end

subsection \<open>The ring provides it\<close>

definition sample_list :: "'v samples \<Rightarrow> (int \<times> int \<times> 'v list) list" where
  "sample_list s = zip (sm_seq s) (zip (sm_t_ns s) (sm_data s))"

lemma sample_list_empty [simp]: "sample_list empty_samples = []"
  by (simp add: sample_list_def empty_samples_def)

lemma sample_list_newest:
  "sample_list (newest_batch cap k H) = drop (length H - min k cap) (indexed H)"
proof -
  let ?n = "min k (min cap (length H))"
  have "zip (map fst (drop m H)) (map snd (drop m H)) = drop m H" for m
    by (rule zip_map_fst_snd)
  moreover have "zip (map int [length H - ?n..<length H]) (drop (length H - ?n) H)
      = drop (length H - ?n) (indexed H)"
    by (auto intro!: nth_equalityI)
  moreover have "length H - ?n = length H - min k cap"
    by auto
  ultimately show ?thesis
    by (simp only: sample_list_def newest_batch_def Let_def samples.select_convs)
qed

definition log_rep :: "ring_view \<times> 'v segment \<Rightarrow> (int \<times> 'v list) list \<Rightarrow> bool" where
  "log_rep s H = ring_rep (fst s) (snd s) H"

definition log_put :: "int \<Rightarrow> 'v list \<Rightarrow> ring_view \<times> 'v segment \<Rightarrow> (ring_view \<times> 'v segment) res" where
  "log_put t x s = rbind (ring_append (fst s) x t (snd s)) (\<lambda>(g, i). Inr (fst s, g))"

definition log_batch :: "nat \<Rightarrow> ring_view \<times> 'v segment \<Rightarrow> (int \<times> int \<times> 'v list) list" where
  "log_batch k s = sample_list (ring_last (fst s) (int k) (snd s))"

definition log_depth :: "ring_view \<times> 'v segment \<Rightarrow> nat" where
  "log_depth s = rv_capacity (fst s)"

definition log_fits :: "ring_view \<times> 'v segment \<Rightarrow> 'v list \<Rightarrow> bool" where
  "log_fits s x \<longleftrightarrow> length x = rv_dim (fst s)"

lemmas log_defs = log_rep_def log_put_def log_batch_def log_depth_def log_fits_def

lemma log_put_Inr:
  assumes "log_rep s H" "log_put t x s = Inr s'"
  shows "log_fits s x" and "fst s' = fst s" and "log_rep s' (H @ [(t, x)])"
proof -
  have len: "length x = rv_dim (fst s)"
    using assms by (auto simp: log_put_def ring_append_def split: if_splits)
  then show "log_fits s x" by (simp add: log_fits_def)
  obtain g where g: "ring_append (fst s) x t (snd s) = Inr (g, int (length H))"
      "ring_rep (fst s) g (H @ [(t, x)])"
    using ring_append_rep[of "fst s" "snd s" H x t] assms len by (auto simp: log_rep_def)
  then have "s' = (fst s, g)" using assms by (simp add: log_put_def)
  then show "fst s' = fst s" and "log_rep s' (H @ [(t, x)])" using g by (simp_all add: log_rep_def)
qed

interpretation ring_log: sample_log log_rep log_put log_batch log_depth log_fits
proof (unfold_locales, goal_cases)
  case (1 s H x t)
  then show ?case using ring_append_rep[of "fst s" "snd s" H x t] by (auto simp: log_defs)
next
  case (2 s H t x s')
  then show ?case by (rule log_put_Inr)
next
  case (3 s H t x s')
  then show ?case using log_put_Inr(2)[of s H t x s'] by (simp add: log_depth_def)
next
  case (4 s H t x s' y)
  then show ?case using log_put_Inr(2)[of s H t x s'] by (simp add: log_fits_def)
next
  case (5 s H k)
  then show ?case by (simp add: log_defs ring_last_rep sample_list_newest)
next
  case (6 s H)
  then show ?case by (simp add: log_rep_def log_depth_def ring_rep_def view_ok_def)
qed

section \<open>Properties\<close>

text \<open>
  A ring is a bounded log: appending to a ring with history \<open>H\<close> returns the next global
  index, and reading the newest \<open>k\<close> afterwards gives exactly the last \<open>min k capacity\<close> entries
  of \<open>H\<close> with the new sample at the end, oldest first, with consecutive indices and no overrun.
\<close>

theorem ring_append_last:
  assumes "ring_rep v g H" and "length vec = rv_dim v"
  shows "\<exists>g'. ring_append v vec t g = Inr (g', int (length H)) \<and> ring_rep v g' (H @ [(t, vec)])
     \<and> ring_last v k g' = newest_batch (rv_capacity v) (nat k) (H @ [(t, vec)])"
  using ring_append_rep[OF assms, of t] ring_last_rep by blast

theorem ring_append_last_witness:
  "\<exists>g v g'. ring_create (0::int) 2 1 ''float64'' = Inr (g, v) \<and> ring_append v [7] 100 g = Inr (g', 0)
     \<and> ring_last v 5 g' = newest_batch 2 5 [(100, [7])]"
proof -
  obtain g :: "int segment" and v where gv: "ring_create 0 2 1 ''float64'' = Inr (g, v)"
    "ring_rep v g []" "rv_capacity v = 2" "rv_dim v = 1"
    using ring_create_rep[of "''float64''" Float64 2 0 1] by auto
  then show ?thesis using ring_append_last[OF gv(2), of "[7]" 100 5] by auto
qed

text \<open>
  Attaching decodes what creating encoded: for a supported dtype and a positive capacity,
  \<^verbatim>\<open>SharedRingBuffer.create\<close> succeeds on an empty ring and \<^verbatim>\<open>attach\<close> on that segment gives
  a non-owning view with the same capacity, dimension and dtype.
\<close>

theorem ring_create_attach:
  assumes "mk_stream_spec n d c ty r = Inr sp"
  shows "\<exists>g v w dt. ring_create z (nat (ss_capacity sp)) (nat (ss_dim sp)) (ss_dtype sp) = Inr (g, v)
     \<and> ring_rep v g [] \<and> rv_owner v \<and> ring_attach g = Inr w \<and> \<not> rv_owner w
     \<and> np_dtype ty = Some dt \<and> rv_dtype w = dt \<and> int (rv_capacity w) = c \<and> int (rv_dim w) = d"
proof -
  have sp: "ss_capacity sp = c" "ss_dim sp = d" "ss_dtype sp = ty" "spec_ok sp"
    using assms mk_stream_spec_ok[OF assms] by (auto simp: mk_stream_spec_def split: if_splits)
  then obtain dt where dt: "np_dtype ty = Some dt"
    using allowed_dtype_np by (auto simp: spec_ok_def)
  have pos: "0 < c" "0 < d" using sp by (auto simp: spec_ok_def)
  obtain g v where gv: "ring_create z (nat c) (nat d) ty = Inr (g, v)" "ring_rep v g []"
      "rv_capacity v = nat c" "rv_dim v = nat d" "rv_dtype v = dt" "rv_owner v"
    using ring_create_rep[OF dt, of "nat c" z "nat d"] pos by auto
  have "ring_attach g = Inr (v\<lparr>rv_owner := False\<rparr>)"
    using ring_attach_view[of v g] gv(2) by (simp add: ring_rep_def)
  then show ?thesis using gv dt sp pos by auto
qed

theorem ring_create_attach_witness:
  "\<exists>sp g w. mk_stream_spec ''left/q'' 7 4096 ''float64'' None = Inr sp
     \<and> ring_create (0::int) (nat (ss_capacity sp)) (nat (ss_dim sp)) (ss_dtype sp) = Inr (g, w)
     \<and> ring_rep w g []"
proof -
  have sp: "mk_stream_spec ''left/q'' 7 4096 ''float64'' None =
      Inr \<lparr>ss_name = ''left/q'', ss_dim = 7, ss_capacity = 4096, ss_dtype = ''float64'', ss_rate_hz = None\<rparr>"
    by (simp add: mk_stream_spec_def ALLOWED_DTYPES_def)
  show ?thesis using ring_create_attach[OF sp, of 0] sp by blast
qed

text \<open>
  The four regions of a segment tile it: header, stamps, timestamps and payload follow one
  another without gap or overlap, each starts on an 8-byte boundary, and the payload ends
  exactly at the allocated size.
\<close>

theorem segment_layout:
  "seq_off = 8 * HEADER_LEN \<and> ts_off c = seq_off + 8 * c \<and> data_off c = ts_off c + 8 * c
   \<and> shm_size c d isz = data_off c + c * d * isz
   \<and> 8 dvd seq_off \<and> 8 dvd ts_off c \<and> 8 dvd data_off c"
  by (simp add: layout_defs)

end
