(* ===== verification/Seqlock.thy ===== *)
theory Seqlock
  imports Ring_Buffer
begin

text \<open>
  The seqlock of \<^verbatim>\<open>streams/ring.py\<close> under interference: one producer inside
  \<^verbatim>\<open>SharedRingBuffer.append\<close> and one consumer inside \<^verbatim>\<open>SharedRingBuffer.last\<close>, interleaved at
  single memory accesses. The payload copy is element-wise on both sides, so a torn row is a
  possible intermediate state. Other consumers write nothing and need no place in the state.

  The module relies on x86-TSO: aligned 8-byte accesses are atomic and the producer's stores
  become visible in program order. With a single writer such executions are interleavings of
  the two programs, which is the step relation \<open>seqlock_step\<close> below.

  \<open>pub\<close> is a history variable: every sample whose \<open>append\<close> has started, oldest first.
\<close>

section \<open>The producer\<close>

datatype 'v writer =
    WIdle
  | WData nat "'v list" int nat
  | WStamp nat "'v list" int
  | WSeq nat "'v list" int
  | WCount nat "'v list" int

definition slot :: "ring_view \<Rightarrow> nat \<Rightarrow> nat" where
  "slot v i = i mod rv_capacity v"

text \<open>Entry of \<open>append\<close>: read the count, invalidate the slot.\<close>

definition writer_begin ::
    "ring_view \<Rightarrow> 'v list \<Rightarrow> int \<Rightarrow> 'v segment \<Rightarrow> 'v writer \<times> 'v segment" where
  "writer_begin v vec t g =
     (let idx = nat (write_count g)
      in (WData idx vec t 0, g\<lparr>seqs := (seqs g)[slot v idx := -1]\<rparr>))"

fun writer_step :: "ring_view \<Rightarrow> 'v writer \<times> 'v segment \<Rightarrow> 'v writer \<times> 'v segment" where
  "writer_step v (WIdle, g) = (WIdle, g)"
| "writer_step v (WData i vec t j, g) =
     (if j < length vec
      then (WData i vec t (Suc j),
            g\<lparr>rows := (rows g)[slot v i := (rows g ! slot v i)[j := vec ! j]]\<rparr>)
      else (WStamp i vec t, g))"
| "writer_step v (WStamp i vec t, g) = (WSeq i vec t, g\<lparr>stamps := (stamps g)[slot v i := t]\<rparr>)"
| "writer_step v (WSeq i vec t, g) = (WCount i vec t, g\<lparr>seqs := (seqs g)[slot v i := int i]\<rparr>)"
| "writer_step v (WCount i vec t, g) =
     (WIdle, g\<lparr>header := (header g)[H_WRITE_COUNT := int i + 1]\<rparr>)"

section \<open>The consumer\<close>

datatype reader_pc = RIdle | RCount | RSeq1 | RData | RStamp | RSeq2 | RDone

record 'v reader =
  r_pc :: reader_pc
  r_k :: nat
  r_fuel :: nat
  r_last_ok :: "'v samples option"
  r_gidx :: "int list"
  r_s1 :: "int list"
  r_dat :: "'v list list"
  r_row :: "'v list"
  r_ts :: "int list"
  r_s2 :: "int list"
  r_out :: "'v samples"
  r_start :: nat

text \<open>
  Entry of \<open>last (k)\<close>; \<open>r_start\<close> is a history variable, the number of samples published when
  the call began.
\<close>

definition reader_begin :: "int \<Rightarrow> nat \<Rightarrow> 'v reader" where
  "reader_begin k start =
     \<lparr>r_pc = (if k \<le> 0 then RDone else RCount), r_k = nat k, r_fuel = READ_RETRIES,
      r_last_ok = None, r_gidx = [], r_s1 = [], r_dat = [], r_row = [], r_ts = [], r_s2 = [],
      r_out = empty_samples, r_start = start\<rparr>"

definition slot_at :: "ring_view \<Rightarrow> 'v reader \<Rightarrow> nat \<Rightarrow> nat" where
  "slot_at v r i = nat (r_gidx r ! i mod int (rv_capacity v))"

definition reader_count :: "ring_view \<Rightarrow> 'v segment \<Rightarrow> 'v reader \<Rightarrow> 'v reader" where
  "reader_count v g r =
     (if r_fuel r = 0
      then r\<lparr>r_pc := RDone, r_out := (case r_last_ok r of Some s \<Rightarrow> s | None \<Rightarrow> empty_samples)\<rparr>
      else let wc = write_count g in
        if wc \<le> 0 then r\<lparr>r_pc := RDone, r_out := empty_samples\<rparr>
        else r\<lparr>r_pc := RSeq1, r_fuel := r_fuel r - 1,
               r_gidx := window (min (r_k r) (min (rv_capacity v) (nat wc))) wc,
               r_s1 := [], r_dat := [], r_row := [], r_ts := [], r_s2 := []\<rparr>)"

definition reader_conclude :: "'v reader \<Rightarrow> 'v reader" where
  "reader_conclude r =
     (case validate (r_gidx r) (r_s1 r) (r_dat r) (r_ts r) (r_s2 r) of
        Whole s \<Rightarrow> r\<lparr>r_pc := RDone, r_out := s\<rparr>
      | Partial x \<Rightarrow>
          r\<lparr>r_pc := RCount, r_last_ok := (case x of None \<Rightarrow> r_last_ok r | Some s \<Rightarrow> Some s)\<rparr>)"

definition reader_step :: "ring_view \<Rightarrow> 'v segment \<Rightarrow> 'v reader \<Rightarrow> 'v reader" where
  "reader_step v g r =
     (let n = length (r_gidx r) in case r_pc r of
        RIdle \<Rightarrow> r
      | RDone \<Rightarrow> r
      | RCount \<Rightarrow> reader_count v g r
      | RSeq1 \<Rightarrow>
          if length (r_s1 r) < n
          then r\<lparr>r_s1 := r_s1 r @ [seqs g ! slot_at v r (length (r_s1 r))]\<rparr>
          else r\<lparr>r_pc := RData\<rparr>
      | RData \<Rightarrow>
          if length (r_dat r) < n
          then if length (r_row r) < rv_dim v
            then r\<lparr>r_row := r_row r @ [rows g ! slot_at v r (length (r_dat r)) ! length (r_row r)]\<rparr>
            else r\<lparr>r_dat := r_dat r @ [r_row r], r_row := []\<rparr>
          else r\<lparr>r_pc := RStamp\<rparr>
      | RStamp \<Rightarrow>
          if length (r_ts r) < n
          then r\<lparr>r_ts := r_ts r @ [stamps g ! slot_at v r (length (r_ts r))]\<rparr>
          else r\<lparr>r_pc := RSeq2\<rparr>
      | RSeq2 \<Rightarrow>
          if length (r_s2 r) < n
          then r\<lparr>r_s2 := r_s2 r @ [seqs g ! slot_at v r (length (r_s2 r))]\<rparr>
          else reader_conclude r)"

section \<open>Interleavings\<close>

record 'v seqlock =
  mem :: "'v segment"
  wr :: "'v writer"
  rd :: "'v reader"
  pub :: "(int \<times> 'v list) list"

definition settled :: "'v seqlock \<Rightarrow> nat" where
  "settled s = (if wr s = WIdle then length (pub s) else length (pub s) - 1)"

inductive seqlock_step :: "ring_view \<Rightarrow> 'v seqlock \<Rightarrow> 'v seqlock \<Rightarrow> bool" for v where
  begin_append: "wr s = WIdle \<Longrightarrow> length vec = rv_dim v \<Longrightarrow> writer_begin v vec t (mem s) = (w, g) \<Longrightarrow>
    seqlock_step v s (s\<lparr>wr := w, mem := g, pub := pub s @ [(t, vec)]\<rparr>)"
| store: "wr s \<noteq> WIdle \<Longrightarrow> writer_step v (wr s, mem s) = (w, g) \<Longrightarrow>
    seqlock_step v s (s\<lparr>wr := w, mem := g\<rparr>)"
| begin_last: "r_pc (rd s) = RIdle \<or> r_pc (rd s) = RDone \<Longrightarrow>
    seqlock_step v s (s\<lparr>rd := reader_begin k (settled s)\<rparr>)"
| load: "r_pc (rd s) \<noteq> RIdle \<Longrightarrow> r_pc (rd s) \<noteq> RDone \<Longrightarrow>
    seqlock_step v s (s\<lparr>rd := reader_step v (mem s) (rd s)\<rparr>)"

text \<open>Runs start from any quiescent ring, in particular from a freshly created one.\<close>

inductive seqlock_reach :: "ring_view \<Rightarrow> 'v seqlock \<Rightarrow> bool" for v where
  start: "ring_rep v g H \<Longrightarrow> r_pc r = RIdle \<Longrightarrow> r_last_ok r = None \<Longrightarrow>
    seqlock_reach v \<lparr>mem = g, wr = WIdle, rd = r, pub = H\<rparr>"
| step: "seqlock_reach v s \<Longrightarrow> seqlock_step v s s' \<Longrightarrow> seqlock_reach v s'"

section \<open>Memory invariant\<close>

definition geometry :: "ring_view \<Rightarrow> 'v segment \<Rightarrow> bool" where
  "geometry v g \<longleftrightarrow> 0 < rv_capacity v \<and> length (header g) = HEADER_LEN
     \<and> length (seqs g) = rv_capacity v \<and> length (stamps g) = rv_capacity v
     \<and> length (rows g) = rv_capacity v \<and> (\<forall>r \<in> set (rows g). length r = rv_dim v)"

definition in_flight :: "ring_view \<Rightarrow> (int \<times> 'v list) list \<Rightarrow> nat \<Rightarrow> 'v list \<Rightarrow> int \<Rightarrow> bool" where
  "in_flight v H i vec t \<longleftrightarrow> length H = Suc i \<and> H ! i = (t, vec) \<and> length vec = rv_dim v"

fun writer_ok :: "ring_view \<Rightarrow> 'v segment \<Rightarrow> (int \<times> 'v list) list \<Rightarrow> 'v writer \<Rightarrow> bool" where
  "writer_ok v g H WIdle \<longleftrightarrow> True"
| "writer_ok v g H (WData i vec t j) \<longleftrightarrow> in_flight v H i vec t \<and> j \<le> length vec
     \<and> seqs g ! slot v i = -1 \<and> take j (rows g ! slot v i) = take j vec"
| "writer_ok v g H (WStamp i vec t) \<longleftrightarrow> in_flight v H i vec t
     \<and> seqs g ! slot v i = -1 \<and> rows g ! slot v i = vec"
| "writer_ok v g H (WSeq i vec t) \<longleftrightarrow> in_flight v H i vec t
     \<and> seqs g ! slot v i = -1 \<and> rows g ! slot v i = vec \<and> stamps g ! slot v i = t"
| "writer_ok v g H (WCount i vec t) \<longleftrightarrow> in_flight v H i vec t
     \<and> rows g ! slot v i = vec \<and> stamps g ! slot v i = t"

text \<open>A stamp names a sample that no started \<open>append\<close> has begun to overwrite.\<close>

definition stamps_fresh :: "ring_view \<Rightarrow> 'v segment \<Rightarrow> (int \<times> 'v list) list \<Rightarrow> bool" where
  "stamps_fresh v g H \<longleftrightarrow> (\<forall>s < rv_capacity v. \<forall>i. seqs g ! s = int i \<longrightarrow>
     s = slot v i \<and> i < length H \<and> length H \<le> i + rv_capacity v)"

text \<open>Below the published count, a slot not yet being overwritten holds its sample.\<close>

definition contents_ok :: "ring_view \<Rightarrow> 'v segment \<Rightarrow> (int \<times> 'v list) list \<Rightarrow> nat \<Rightarrow> bool" where
  "contents_ok v g H m \<longleftrightarrow> (\<forall>i < m. length H \<le> i + rv_capacity v \<longrightarrow>
     rows g ! slot v i = snd (H ! i) \<and> stamps g ! slot v i = fst (H ! i))"

definition mem_inv :: "ring_view \<Rightarrow> 'v seqlock \<Rightarrow> bool" where
  "mem_inv v s \<longleftrightarrow> geometry v (mem s) \<and> write_count (mem s) = int (settled s)
     \<and> writer_ok v (mem s) (pub s) (wr s) \<and> stamps_fresh v (mem s) (pub s)
     \<and> contents_ok v (mem s) (pub s) (settled s)
     \<and> (\<forall>x \<in> set (pub s). length (snd x) = rv_dim v)"

lemma slot_less [simp]: "0 < rv_capacity v \<Longrightarrow> slot v i < rv_capacity v"
  by (simp add: slot_def)

lemma slot_neq: "i < j \<Longrightarrow> j < i + rv_capacity v \<Longrightarrow> slot v i \<noteq> slot v j"
  using same_slot_gap by (simp add: slot_def)

lemma mem_inv_start:
  assumes "ring_rep v g H"
  shows "mem_inv v \<lparr>mem = g, wr = WIdle, rd = r, pub = H\<rparr>"
proof -
  have fresh: "s = slot v i \<and> i < length H \<and> length H \<le> i + rv_capacity v"
    if s: "s < rv_capacity v" and eq: "seqs g ! s = int i" for s i
  proof -
    have sH: "s < length H" using assms s eq by (fastforce simp: ring_rep_def)
    define d where "d = (length H - 1 - s) div rv_capacity v"
    define j where "j = s + rv_capacity v * d"
    have "rv_capacity v * d \<le> length H - 1 - s"
      unfolding d_def by (rule times_div_less_eq_dividend)
    then have jl: "j < length H" using sH by (simp add: j_def)
    have "length H - 1 - s < rv_capacity v * d + rv_capacity v"
      unfolding d_def using s dividend_less_times_div[of "rv_capacity v" "length H - 1 - s"] by simp
    then have jr: "length H \<le> j + rv_capacity v" using sH by (simp add: j_def)
    have js: "j mod rv_capacity v = s" using s by (simp add: j_def)
    have "seqs g ! s = int j"
      using assms jl jr js by (auto simp: ring_rep_def slot_holds_def)
    then show ?thesis using eq jl jr js by (simp add: slot_def)
  qed
  show ?thesis
    using assms fresh
    by (auto simp: mem_inv_def ring_rep_def view_ok_def geometry_def settled_def stamps_fresh_def
        contents_ok_def slot_holds_def slot_def)
qed

lemma stamps_fresh_begin:
  assumes fr: "stamps_fresh v g H" and len: "length (seqs g) = rv_capacity v"
  shows "stamps_fresh v (g\<lparr>seqs := (seqs g)[slot v (length H) := -1]\<rparr>) (H @ [x])"
  unfolding stamps_fresh_def
proof (intro allI impI)
  fix s i
  assume s: "s < rv_capacity v"
    and "seqs (g\<lparr>seqs := (seqs g)[slot v (length H) := -1]\<rparr>) ! s = int i"
  then have eq: "(seqs g)[slot v (length H) := -1] ! s = int i" by simp
  have ns: "s \<noteq> slot v (length H)"
  proof
    assume "s = slot v (length H)"
    then have "int i = -1" using eq s len by simp
    then show False by simp
  qed
  then have "seqs g ! s = int i" using eq by simp
  then have *: "s = slot v i" "i < length H" "length H \<le> i + rv_capacity v"
    using fr s by (auto simp: stamps_fresh_def)
  have "length H \<noteq> i + rv_capacity v"
  proof
    assume "length H = i + rv_capacity v"
    then have "slot v (length H) = slot v i" by (simp add: slot_def)
    then show False using ns *(1) by simp
  qed
  then show "s = slot v i \<and> i < length (H @ [x]) \<and> length (H @ [x]) \<le> i + rv_capacity v"
    using * by simp
qed

lemma mem_inv_begin_append:
  assumes inv: "mem_inv v s" and idle: "wr s = WIdle" and len: "length vec = rv_dim v"
    and wb: "writer_begin v vec t (mem s) = (w, g)"
  shows "mem_inv v (s\<lparr>wr := w, mem := g, pub := pub s @ [(t, vec)]\<rparr>)"
proof -
  have wc: "write_count (mem s) = int (length (pub s))"
    using inv idle by (simp add: mem_inv_def settled_def)
  have geo: "geometry v (mem s)" using inv by (simp add: mem_inv_def)
  have w: "w = WData (length (pub s)) vec t 0"
    and g: "g = (mem s)\<lparr>seqs := (seqs (mem s))[slot v (length (pub s)) := -1]\<rparr>"
    using wb wc by (auto simp: writer_begin_def Let_def)
  have fr: "stamps_fresh v g (pub s @ [(t, vec)])"
    using stamps_fresh_begin[of v "mem s" "pub s" "(t, vec)"] inv
    by (auto simp: g mem_inv_def geometry_def)
  have "rows (mem s) ! slot v i = snd (pub s ! i) \<and> stamps (mem s) ! slot v i = fst (pub s ! i)"
    if "i < length (pub s)" "length (pub s) < i + rv_capacity v" for i
    using inv idle that by (simp add: mem_inv_def contents_ok_def settled_def)
  then have "contents_ok v g (pub s @ [(t, vec)]) (length (pub s))"
    by (simp add: contents_ok_def g nth_append)
  then show ?thesis using inv geo len fr wc
    by (auto simp: mem_inv_def geometry_def settled_def in_flight_def write_count_def w g)
qed

lemma contents_ok_other_slot:
  assumes ok: "contents_ok v g H m" and m: "m \<le> i" "length H = Suc i"
    and rows: "\<And>s. s \<noteq> slot v i \<Longrightarrow> rows h ! s = rows g ! s"
    and stamps: "\<And>s. s \<noteq> slot v i \<Longrightarrow> stamps h ! s = stamps g ! s"
  shows "contents_ok v h H m"
  unfolding contents_ok_def
proof (intro allI impI)
  fix j assume j: "j < m" "length H \<le> j + rv_capacity v"
  then have "slot v j \<noteq> slot v i" using m slot_neq[of j i v] by simp
  then show "rows h ! slot v j = snd (H ! j) \<and> stamps h ! slot v j = fst (H ! j)"
    using ok j rows stamps by (simp add: contents_ok_def)
qed

lemma stamps_fresh_publish:
  assumes fr: "stamps_fresh v g H" and H: "length H = Suc i"
    and len: "length (seqs g) = rv_capacity v" "0 < rv_capacity v"
  shows "stamps_fresh v (g\<lparr>seqs := (seqs g)[slot v i := int i]\<rparr>) H"
  unfolding stamps_fresh_def
proof (intro allI impI)
  fix s j assume s: "s < rv_capacity v"
    and eq: "seqs (g\<lparr>seqs := (seqs g)[slot v i := int i]\<rparr>) ! s = int j"
  show "s = slot v j \<and> j < length H \<and> length H \<le> j + rv_capacity v"
  proof (cases "s = slot v i")
    case True
    then show ?thesis using eq s len H by simp
  next
    case False
    then show ?thesis using eq s fr by (simp add: stamps_fresh_def)
  qed
qed

lemma set_list_update_length:
  "(\<forall>r \<in> set xs. length r = d) \<Longrightarrow> length y = d \<Longrightarrow> \<forall>r \<in> set (xs[i := y]). length r = d"
  using set_update_subset_insert[of xs i y] by auto

lemma take_Suc_update:
  "j < length ys \<Longrightarrow> length xs = length ys \<Longrightarrow> take j xs = take j ys \<Longrightarrow>
     take (Suc j) (xs[j := ys ! j]) = take (Suc j) ys"
  by (simp add: take_Suc_conv_app_nth)

lemma mem_inv_store:
  assumes inv: "mem_inv v s" and busy: "wr s \<noteq> WIdle"
    and ws: "writer_step v (wr s, mem s) = (w, g)"
  shows "mem_inv v (s\<lparr>wr := w, mem := g\<rparr>)"
proof -
  have geo: "geometry v (mem s)" and fr: "stamps_fresh v (mem s) (pub s)"
    and co: "contents_ok v (mem s) (pub s) (settled s)"
    and wc: "write_count (mem s) = int (settled s)"
    using inv by (auto simp: mem_inv_def)
  note facts = inv ws
  show ?thesis
  proof (cases "wr s")
    case WIdle
    then show ?thesis using busy by simp
  next
    case (WData i vec t j)
    have ok: "in_flight v (pub s) i vec t" "j \<le> length vec"
        "take j (rows (mem s) ! slot v i) = take j vec"
      using inv WData by (auto simp: mem_inv_def)
    have row: "length (rows (mem s) ! slot v i) = length vec"
      using geo ok by (auto simp: geometry_def in_flight_def)
    have set: "settled s = i" using ok WData by (simp add: settled_def in_flight_def)
    show ?thesis
    proof (cases "j < length vec")
      case True
      let ?row = "(rows (mem s) ! slot v i)[j := vec ! j]"
      have w: "w = WData i vec t (Suc j)"
        and g: "g = (mem s)\<lparr>rows := (rows (mem s))[slot v i := ?row]\<rparr>"
        using ws WData True by auto
      have cap: "slot v i < length (rows (mem s))" using geo by (simp add: geometry_def)
      have "contents_ok v g (pub s) i"
        by (rule contents_ok_other_slot[of v "mem s" "pub s" i i g])
          (use co set ok g in \<open>auto simp: in_flight_def\<close>)
      moreover have "geometry v g"
      proof -
        have "length ?row = rv_dim v" using row ok(1) by (simp add: in_flight_def)
        moreover have "\<forall>r \<in> set (rows (mem s)). length r = rv_dim v"
          using geo unfolding geometry_def by blast
        ultimately have "\<forall>r \<in> set ((rows (mem s))[slot v i := ?row]). length r = rv_dim v"
          by (intro set_list_update_length)
        then show ?thesis using geo by (simp only: geometry_def) (simp add: g)
      qed
      moreover have "writer_ok v g (pub s) w"
        using inv WData True ok row cap take_Suc_update[of j vec "rows (mem s) ! slot v i"]
        by (simp add: mem_inv_def w g)
      moreover have "stamps_fresh v g (pub s)" "write_count g = write_count (mem s)"
        using fr by (simp_all add: stamps_fresh_def g write_count_def)
      ultimately show ?thesis using inv wc set WData
        by (simp add: mem_inv_def settled_def w)
    next
      case False
      then show ?thesis using inv ws WData ok row
        by (auto simp: mem_inv_def settled_def)
    qed
  next
    case (WStamp i vec t)
    then have set: "settled s = i" and fl: "in_flight v (pub s) i vec t"
      using inv by (auto simp: mem_inv_def settled_def in_flight_def)
    have "contents_ok v g (pub s) i"
      using contents_ok_other_slot[of v "mem s" "pub s" i i g] co set fl ws WStamp
      by (auto simp: in_flight_def)
    then show ?thesis using inv ws WStamp set geo
      by (auto simp: mem_inv_def geometry_def settled_def stamps_fresh_def write_count_def)
  next
    case (WSeq i vec t)
    then have set: "settled s = i" and fl: "in_flight v (pub s) i vec t"
      using inv by (auto simp: mem_inv_def settled_def in_flight_def)
    have "stamps_fresh v g (pub s)"
      using stamps_fresh_publish[OF fr, of i] fl geo ws WSeq
      by (auto simp: in_flight_def geometry_def)
    then show ?thesis using inv ws WSeq set geo
      by (auto simp: mem_inv_def geometry_def settled_def contents_ok_def write_count_def)
  next
    case (WCount i vec t)
    then have set: "settled s = i" and fl: "in_flight v (pub s) i vec t"
      using inv by (auto simp: mem_inv_def settled_def in_flight_def)
    have "contents_ok v (mem s) (pub s) (Suc i)"
      using co set fl inv WCount
      by (auto simp: contents_ok_def less_Suc_eq mem_inv_def in_flight_def)
    then have "contents_ok v g (pub s) (Suc i)"
      using ws WCount by (auto simp: contents_ok_def)
    then show ?thesis using inv ws WCount fl geo
      by (auto simp: mem_inv_def geometry_def settled_def stamps_fresh_def write_count_def
          in_flight_def)
  qed
qed

section \<open>Consumer invariant\<close>

text \<open>
  A batch is genuine when it is a gap-free run \<open>a, \<dots>, b - 1\<close> of the history, row by row and
  timestamp by timestamp, and, unless empty, reaches at least to what had been published when
  the call began.
\<close>

definition genuine :: "(int \<times> 'v list) list \<Rightarrow> nat \<Rightarrow> 'v samples \<Rightarrow> bool" where
  "genuine H st s \<longleftrightarrow> (\<exists>a b. b \<le> length H \<and> (a < b \<longrightarrow> st \<le> b)
     \<and> sm_seq s = map int [a..<b] \<and> sm_data s = map (\<lambda>i. snd (H ! i)) [a..<b]
     \<and> sm_t_ns s = map (\<lambda>i. fst (H ! i)) [a..<b])"

text \<open>Copies made so far are right, or their slot is already being overwritten.\<close>

definition copied :: "nat \<Rightarrow> (int \<times> 'v list) list \<Rightarrow> nat \<Rightarrow> ((int \<times> 'v list) \<Rightarrow> 'c) \<Rightarrow> 'c list \<Rightarrow> bool" where
  "copied cap H a f xs \<longleftrightarrow>
     (\<forall>i < length xs. a + i + cap < length H \<or> xs ! i = f (H ! (a + i)))"

definition row_ok :: "nat \<Rightarrow> (int \<times> 'v list) list \<Rightarrow> nat \<Rightarrow> 'v list \<Rightarrow> bool" where
  "row_ok cap H i row \<longleftrightarrow> i + cap < length H \<or> row = take (length row) (snd (H ! i))"

definition checked ::
    "(int \<times> 'v list) list \<Rightarrow> nat \<Rightarrow> int list \<Rightarrow> 'v list list \<Rightarrow> int list \<Rightarrow> bool" where
  "checked H a s2 dat ts \<longleftrightarrow> (\<forall>i < length s2. s2 ! i = int (a + i) \<longrightarrow>
     dat ! i = snd (H ! (a + i)) \<and> ts ! i = fst (H ! (a + i)))"

definition attempt_ok :: "ring_view \<Rightarrow> (int \<times> 'v list) list \<Rightarrow> nat \<Rightarrow> 'v reader \<Rightarrow> nat \<Rightarrow> nat \<Rightarrow> bool" where
  "attempt_ok v H m r a b \<longleftrightarrow> r_gidx r = map int [a..<b] \<and> a \<le> b \<and> b \<le> m \<and> r_start r \<le> b
     \<and> copied (rv_capacity v) H a snd (r_dat r)
     \<and> row_ok (rv_capacity v) H (a + length (r_dat r)) (r_row r)
     \<and> (length (r_dat r) < b - a \<or> r_row r = []) \<and> length (r_row r) \<le> rv_dim v
     \<and> copied (rv_capacity v) H a fst (r_ts r) \<and> checked H a (r_s2 r) (r_dat r) (r_ts r)
     \<and> length (r_s1 r) \<le> b - a \<and> length (r_dat r) \<le> b - a \<and> length (r_ts r) \<le> b - a
     \<and> length (r_s2 r) \<le> b - a
     \<and> (r_pc r = RSeq1 \<longrightarrow> r_dat r = [] \<and> r_row r = [] \<and> r_ts r = [] \<and> r_s2 r = [])
     \<and> (r_pc r = RData \<longrightarrow> length (r_s1 r) = b - a \<and> r_ts r = [] \<and> r_s2 r = [])
     \<and> (r_pc r = RStamp \<longrightarrow> length (r_s1 r) = b - a \<and> length (r_dat r) = b - a \<and> r_s2 r = [])
     \<and> (r_pc r = RSeq2 \<longrightarrow>
          length (r_s1 r) = b - a \<and> length (r_dat r) = b - a \<and> length (r_ts r) = b - a)"

definition copying :: "reader_pc \<Rightarrow> bool" where
  "copying p \<longleftrightarrow> p = RSeq1 \<or> p = RData \<or> p = RStamp \<or> p = RSeq2"

definition reader_inv :: "ring_view \<Rightarrow> (int \<times> 'v list) list \<Rightarrow> nat \<Rightarrow> 'v reader \<Rightarrow> bool" where
  "reader_inv v H m r \<longleftrightarrow> (r_pc r \<noteq> RIdle \<longrightarrow> r_start r \<le> m)
     \<and> (\<forall>s. r_last_ok r = Some s \<longrightarrow> genuine H (r_start r) s)
     \<and> (r_pc r = RDone \<longrightarrow> genuine H (r_start r) (r_out r))
     \<and> (copying (r_pc r) \<longrightarrow> (\<exists>a b. attempt_ok v H m r a b))"

lemma genuine_empty [simp]: "genuine H st empty_samples"
  unfolding genuine_def empty_samples_def by (intro exI[of _ 0] exI[of _ 0]) simp

lemma copied_Nil [simp]: "copied cap H a f []"
  by (simp add: copied_def)

lemma row_ok_Nil [simp]: "row_ok cap H i []"
  by (simp add: row_ok_def)

lemma checked_Nil [simp]: "checked H a [] dat ts"
  by (simp add: checked_def)

subsection \<open>Stability: the history only grows\<close>

lemma genuine_extend: "genuine H st s \<Longrightarrow> genuine (H @ [x]) st s"
  unfolding genuine_def by (elim ex_forward) (auto simp: nth_append)

lemma copied_extend: "copied cap H a f xs \<Longrightarrow> a + length xs \<le> length H \<Longrightarrow> copied cap (H @ [x]) a f xs"
  unfolding copied_def by (auto simp: nth_append)

lemma row_ok_extend:
  "row_ok cap H i row \<Longrightarrow> i < length H \<or> row = [] \<Longrightarrow> row_ok cap (H @ [x]) i row"
  unfolding row_ok_def by (auto simp: nth_append)

lemma checked_extend:
  "checked H a s2 d t \<Longrightarrow> a + length s2 \<le> length H \<Longrightarrow> checked (H @ [x]) a s2 d t"
  unfolding checked_def by (auto simp: nth_append)

lemma attempt_ok_extend:
  assumes "attempt_ok v H m r a b" "m \<le> length H" "m \<le> m'"
  shows "attempt_ok v (H @ [x]) m' r a b"
proof -
  have ab: "a \<le> b" "b \<le> length H" and len: "length (r_dat r) \<le> b - a" "length (r_ts r) \<le> b - a"
      "length (r_s2 r) \<le> b - a" "length (r_dat r) < b - a \<or> r_row r = []"
    using assms by (auto simp: attempt_ok_def)
  have "copied (rv_capacity v) (H @ [x]) a snd (r_dat r)"
    and "copied (rv_capacity v) (H @ [x]) a fst (r_ts r)"
    and "checked (H @ [x]) a (r_s2 r) (r_dat r) (r_ts r)"
    using assms ab len by (auto simp: attempt_ok_def intro!: copied_extend checked_extend)
  moreover have "row_ok (rv_capacity v) (H @ [x]) (a + length (r_dat r)) (r_row r)"
  proof (rule row_ok_extend)
    show "row_ok (rv_capacity v) H (a + length (r_dat r)) (r_row r)"
      using assms by (simp add: attempt_ok_def)
    show "a + length (r_dat r) < length H \<or> r_row r = []"
      using ab len(4) by auto
  qed
  moreover have "b \<le> m'" using assms by (simp add: attempt_ok_def)
  ultimately show ?thesis using assms(1) by (simp add: attempt_ok_def)
qed

lemma reader_inv_extend:
  assumes "reader_inv v H m r" "m \<le> length H" "m \<le> m'"
  shows "reader_inv v (H @ [x]) m' r"
  using assms genuine_extend[of H "r_start r"] attempt_ok_extend[of v H m r]
  unfolding reader_inv_def by (meson order_trans)

lemma attempt_ok_settle: "attempt_ok v H m r a b \<Longrightarrow> m \<le> m' \<Longrightarrow> attempt_ok v H m' r a b"
  by (simp add: attempt_ok_def)

lemma reader_inv_settle: "reader_inv v H m r \<Longrightarrow> m \<le> m' \<Longrightarrow> reader_inv v H m' r"
  unfolding reader_inv_def using attempt_ok_settle by (meson order_trans)

subsection \<open>Loads\<close>

lemma slot_at_window:
  assumes "attempt_ok v H m r a b" "i < b - a"
  shows "slot_at v r i = slot v (a + i)"
  using assms by (simp add: attempt_ok_def slot_at_def slot_def nat_mod_as_int zmod_int)

lemma contents_or_lapped:
  assumes "contents_ok v g H m" "i < m"
  shows "i + rv_capacity v < length H
      \<or> (rows g ! slot v i = snd (H ! i) \<and> stamps g ! slot v i = fst (H ! i))"
  using assms by (auto simp: contents_ok_def not_less)

lemma copied_snoc:
  "copied cap H a f xs \<Longrightarrow> a + length xs + cap < length H \<or> x = f (H ! (a + length xs)) \<Longrightarrow>
     copied cap H a f (xs @ [x])"
  by (auto simp: copied_def nth_append less_Suc_eq)

lemma row_ok_snoc:
  assumes "row_ok cap H i row" "length row < length (snd (H ! i))"
    and "i + cap < length H \<or> x = snd (H ! i) ! length row"
  shows "row_ok cap H i (row @ [x])"
proof (cases "i + cap < length H")
  case False
  then have "row = take (length row) (snd (H ! i))" "x = snd (H ! i) ! length row"
    using assms by (auto simp: row_ok_def)
  then have "row @ [x] = take (length (row @ [x])) (snd (H ! i))"
    using assms(2) take_Suc_conv_app_nth[of "length row" "snd (H ! i)"] by simp
  then show ?thesis unfolding row_ok_def by blast
qed (simp add: row_ok_def)

lemma row_ok_whole:
  "row_ok cap H i row \<Longrightarrow> length row = length (snd (H ! i)) \<Longrightarrow>
     i + cap < length H \<or> row = snd (H ! i)"
  by (auto simp: row_ok_def)

lemma checked_snoc:
  assumes "checked H a s2 dat ts"
    and "x = int (a + length s2) \<Longrightarrow>
      dat ! length s2 = snd (H ! (a + length s2)) \<and> ts ! length s2 = fst (H ! (a + length s2))"
  shows "checked H a (s2 @ [x]) dat ts"
  using assms by (auto simp: checked_def nth_append less_Suc_eq)

lemma checked_current:
  assumes "stamps_fresh v g H" "slot v (a + i) < rv_capacity v"
    and "seqs g ! slot v (a + i) = int (a + i)"
    and "copied (rv_capacity v) H a snd dat" "copied (rv_capacity v) H a fst ts"
    and "i < length dat" "i < length ts"
  shows "dat ! i = snd (H ! (a + i)) \<and> ts ! i = fst (H ! (a + i))"
proof -
  have "length H \<le> a + i + rv_capacity v"
    using assms(1-3) unfolding stamps_fresh_def by blast
  then show ?thesis using assms(4-) unfolding copied_def by (metis not_less)
qed

subsection \<open>Concluding an attempt\<close>

lemma newest_run_ok:
  assumes "newest_run ok \<le> i" "i < length ok"
  shows "ok ! i"
proof -
  let ?t = "takeWhile id (rev ok)"
  have j: "length ok - Suc i < length ?t" using assms by (auto simp: newest_run_def)
  have "?t ! (length ok - Suc i) \<in> set ?t" using j by (rule nth_mem)
  then have "?t ! (length ok - Suc i)" using set_takeWhileD[of _ id "rev ok"] by auto
  moreover have "?t ! (length ok - Suc i) = rev ok ! (length ok - Suc i)"
    using j by (rule takeWhile_nth)
  moreover have "rev ok ! (length ok - Suc i) = ok ! i"
    using assms by (simp add: rev_nth)
  ultimately show ?thesis by simp
qed

lemma genuine_suffix:
  assumes ab: "a \<le> c" "c \<le> b" "b \<le> length H" "st \<le> b"
    and len: "length dat = b - a" "length ts = b - a"
    and good: "\<And>i. c - a \<le> i \<Longrightarrow> i < b - a \<Longrightarrow>
      dat ! i = snd (H ! (a + i)) \<and> ts ! i = fst (H ! (a + i))"
  shows "genuine H st \<lparr>sm_data = drop (c - a) dat, sm_t_ns = drop (c - a) ts,
           sm_seq = drop (c - a) (map int [a..<b]), sm_overrun = ov\<rparr>"
proof -
  have "drop (c - a) dat = map (\<lambda>i. snd (H ! i)) [c..<b]"
    and "drop (c - a) ts = map (\<lambda>i. fst (H ! i)) [c..<b]"
    using ab len good by (auto intro!: nth_equalityI)
  moreover have "drop (c - a) (map int [a..<b]) = map int [c..<b]"
    using ab by (simp add: drop_map)
  ultimately show ?thesis using ab unfolding genuine_def
    by (intro exI[of _ c] exI[of _ b]) simp
qed

lemma validate_genuine:
  assumes ab: "a \<le> b" "b \<le> length H" "st \<le> b"
    and len: "length s1 = b - a" "length s2 = b - a" "length dat = b - a" "length ts = b - a"
    and chk: "checked H a s2 dat ts"
  shows "(\<forall>s. validate (map int [a..<b]) s1 dat ts s2 = Whole s \<longrightarrow> genuine H st s)
       \<and> (\<forall>s. validate (map int [a..<b]) s1 dat ts s2 = Partial (Some s) \<longrightarrow> genuine H st s)"
proof -
  define ok where "ok = map (\<lambda>(g, x, y). x = g \<and> y = g) (zip (map int [a..<b]) (zip s1 s2))"
  have lok: "length ok = b - a" using len by (simp add: ok_def)
  have good: "dat ! i = snd (H ! (a + i)) \<and> ts ! i = fst (H ! (a + i))" if "i < b - a" "ok ! i" for i
    using that chk len by (auto simp: ok_def checked_def)
  have whole: "genuine H st \<lparr>sm_data = dat, sm_t_ns = ts, sm_seq = map int [a..<b], sm_overrun = False\<rparr>"
    if "list_all id ok"
    using genuine_suffix[of a a b H st dat ts False] ab len good that lok
    by (simp add: list_all_length)
  have part: "genuine H st \<lparr>sm_data = drop (newest_run ok) dat, sm_t_ns = drop (newest_run ok) ts,
      sm_seq = drop (newest_run ok) (map int [a..<b]), sm_overrun = True\<rparr>"
    if "newest_run ok < b - a"
    using genuine_suffix[of a "a + newest_run ok" b H st dat ts True] ab len good that lok
      newest_run_ok[of ok] by simp
  show ?thesis
    unfolding validate_def ok_def[symmetric] Let_def using whole part by auto
qed

subsection \<open>Every load keeps the invariant\<close>

lemma reader_inv_count:
  assumes mi: "mem_inv v s" and ri: "reader_inv v (pub s) (settled s) r" and pc: "r_pc r = RCount"
  shows "reader_inv v (pub s) (settled s) (reader_count v (mem s) r)"
proof -
  have wc: "write_count (mem s) = int (settled s)" using mi by (simp add: mem_inv_def)
  have lo: "\<forall>x. r_last_ok r = Some x \<longrightarrow> genuine (pub s) (r_start r) x"
    and st: "r_start r \<le> settled s" using ri pc by (auto simp: reader_inv_def)
  let ?n = "min (r_k r) (min (rv_capacity v) (settled s))"
  have win: "window ?n (int (settled s)) = map int [settled s - ?n..<settled s]"
    by (rule window_seq) simp
  show ?thesis
  proof (cases "r_fuel r = 0 \<or> settled s = 0")
    case True
    then show ?thesis using lo st wc
      by (auto simp: reader_count_def reader_inv_def copying_def split: option.splits)
  next
    case False
    let ?r = "reader_count v (mem s) r"
    have "attempt_ok v (pub s) (settled s) ?r (settled s - ?n) (settled s)"
      using False wc st win
      by (simp add: reader_count_def attempt_ok_def copied_def row_ok_def checked_def)
    moreover have "r_pc ?r = RSeq1" "r_last_ok ?r = r_last_ok r" "r_start ?r = r_start r"
      using False wc by (simp_all add: reader_count_def)
    ultimately show ?thesis using lo st by (auto simp: reader_inv_def)
  qed
qed

lemma reader_inv_conclude:
  assumes mi: "settled s \<le> length (pub s)" and ri: "reader_inv v (pub s) (settled s) r"
    and pc: "r_pc r = RSeq2" and full: "\<not> length (r_s2 r) < length (r_gidx r)"
  shows "reader_inv v (pub s) (settled s) (reader_conclude r)"
proof -
  obtain a b where ab: "attempt_ok v (pub s) (settled s) r a b"
    using ri pc by (auto simp: reader_inv_def copying_def)
  have len: "length (r_s1 r) = b - a" "length (r_s2 r) = b - a" "length (r_dat r) = b - a"
      "length (r_ts r) = b - a"
    using ab pc full by (auto simp: attempt_ok_def)
  have g: "r_gidx r = map int [a..<b]" and le: "a \<le> b" "b \<le> length (pub s)" "r_start r \<le> b"
    and chk: "checked (pub s) a (r_s2 r) (r_dat r) (r_ts r)"
    using ab mi by (auto simp: attempt_ok_def)
  have lo: "\<forall>x. r_last_ok r = Some x \<longrightarrow> genuine (pub s) (r_start r) x"
    and st: "r_start r \<le> settled s" using ri pc by (auto simp: reader_inv_def)
  show ?thesis using validate_genuine[OF le len chk] lo st unfolding reader_conclude_def g
    by (auto simp: reader_inv_def copying_def split: verdict.splits option.splits)
qed

lemma attempt_step_row:
  assumes mi: "mem_inv v s" and ab: "attempt_ok v (pub s) (settled s) r a b"
    and pc: "r_pc r = RData" and more: "length (r_dat r) < b - a" "length (r_row r) < rv_dim v"
  shows "attempt_ok v (pub s) (settled s)
    (r\<lparr>r_row := r_row r @ [rows (mem s) ! slot_at v r (length (r_dat r)) ! length (r_row r)]\<rparr>) a b"
proof -
  let ?i = "a + length (r_dat r)"
  have i: "?i < settled s" using ab more by (auto simp: attempt_ok_def)
  have "contents_ok v (mem s) (pub s) (settled s)" using mi by (simp add: mem_inv_def)
  then have c: "?i + rv_capacity v < length (pub s) \<or> rows (mem s) ! slot v ?i = snd (pub s ! ?i)"
    using contents_or_lapped i by blast
  have sl: "slot_at v r (length (r_dat r)) = slot v ?i" using slot_at_window[OF ab] more by simp
  have "pub s ! ?i \<in> set (pub s)" using i by (simp add: settled_def split: if_splits)
  then have dm: "length (snd (pub s ! ?i)) = rv_dim v" using mi by (simp add: mem_inv_def)
  have "row_ok (rv_capacity v) (pub s) ?i
      (r_row r @ [rows (mem s) ! slot v ?i ! length (r_row r)])"
    using ab c dm more(2) by (intro row_ok_snoc) (auto simp: attempt_ok_def)
  then show ?thesis using ab pc more sl by (auto simp: attempt_ok_def)
qed

lemma attempt_step_row_done:
  assumes mi: "mem_inv v s" and ab: "attempt_ok v (pub s) (settled s) r a b"
    and pc: "r_pc r = RData" and more: "length (r_dat r) < b - a" "\<not> length (r_row r) < rv_dim v"
  shows "attempt_ok v (pub s) (settled s) (r\<lparr>r_dat := r_dat r @ [r_row r], r_row := []\<rparr>) a b"
proof -
  let ?i = "a + length (r_dat r)"
  have i: "?i < settled s" using ab more by (auto simp: attempt_ok_def)
  have "pub s ! ?i \<in> set (pub s)" using i by (simp add: settled_def split: if_splits)
  then have dm: "length (r_row r) = length (snd (pub s ! ?i))"
    using mi ab more by (auto simp: mem_inv_def attempt_ok_def)
  have "?i + rv_capacity v < length (pub s) \<or> r_row r = snd (pub s ! ?i)"
    using ab dm by (intro row_ok_whole) (auto simp: attempt_ok_def)
  then have "copied (rv_capacity v) (pub s) a snd (r_dat r @ [r_row r])"
    using ab by (intro copied_snoc) (auto simp: attempt_ok_def)
  then show ?thesis using ab pc more by (auto simp: attempt_ok_def)
qed

lemma attempt_step_stamp:
  assumes mi: "mem_inv v s" and ab: "attempt_ok v (pub s) (settled s) r a b"
    and pc: "r_pc r = RStamp" and more: "length (r_ts r) < b - a"
  shows "attempt_ok v (pub s) (settled s)
    (r\<lparr>r_ts := r_ts r @ [stamps (mem s) ! slot_at v r (length (r_ts r))]\<rparr>) a b"
proof -
  let ?i = "a + length (r_ts r)"
  have i: "?i < settled s" using ab more by (auto simp: attempt_ok_def)
  have "contents_ok v (mem s) (pub s) (settled s)" using mi by (simp add: mem_inv_def)
  then have c: "?i + rv_capacity v < length (pub s) \<or> stamps (mem s) ! slot v ?i = fst (pub s ! ?i)"
    using contents_or_lapped i by blast
  have sl: "slot_at v r (length (r_ts r)) = slot v ?i" using slot_at_window[OF ab] more by simp
  have "copied (rv_capacity v) (pub s) a fst (r_ts r @ [stamps (mem s) ! slot v ?i])"
    using ab c by (intro copied_snoc) (auto simp: attempt_ok_def)
  then show ?thesis using ab pc more sl by (auto simp: attempt_ok_def)
qed

lemma attempt_step_seq2:
  assumes mi: "mem_inv v s" and ab: "attempt_ok v (pub s) (settled s) r a b"
    and pc: "r_pc r = RSeq2" and more: "length (r_s2 r) < b - a"
  shows "attempt_ok v (pub s) (settled s)
    (r\<lparr>r_s2 := r_s2 r @ [seqs (mem s) ! slot_at v r (length (r_s2 r))]\<rparr>) a b"
proof -
  let ?j = "length (r_s2 r)"
  have sl: "slot_at v r ?j = slot v (a + ?j)" using slot_at_window[OF ab] more by simp
  have fr: "stamps_fresh v (mem s) (pub s)" and cap: "0 < rv_capacity v"
    using mi by (auto simp: mem_inv_def geometry_def)
  have cp: "copied (rv_capacity v) (pub s) a snd (r_dat r)"
      "copied (rv_capacity v) (pub s) a fst (r_ts r)"
    and len: "length (r_dat r) = b - a" "length (r_ts r) = b - a"
    using ab pc by (auto simp: attempt_ok_def)
  have "checked (pub s) a (r_s2 r @ [seqs (mem s) ! slot v (a + ?j)]) (r_dat r) (r_ts r)"
    using ab more len cap by (intro checked_snoc checked_current[OF fr _ _ cp])
      (auto simp: attempt_ok_def)
  then show ?thesis using ab pc more sl by (auto simp: attempt_ok_def)
qed

lemma attempt_step_seq1:
  assumes "attempt_ok v H m r a b" "r_pc r = RSeq1" "length (r_s1 r) < b - a"
  shows "attempt_ok v H m (r\<lparr>r_s1 := r_s1 r @ [x]\<rparr>) a b"
  using assms unfolding attempt_ok_def by simp

lemma attempt_phase:
  assumes "attempt_ok v H m r a b"
  shows "r_pc r = RSeq1 \<Longrightarrow> \<not> length (r_s1 r) < b - a \<Longrightarrow> attempt_ok v H m (r\<lparr>r_pc := RData\<rparr>) a b"
    and "r_pc r = RData \<Longrightarrow> \<not> length (r_dat r) < b - a \<Longrightarrow> attempt_ok v H m (r\<lparr>r_pc := RStamp\<rparr>) a b"
    and "r_pc r = RStamp \<Longrightarrow> \<not> length (r_ts r) < b - a \<Longrightarrow> attempt_ok v H m (r\<lparr>r_pc := RSeq2\<rparr>) a b"
  using assms unfolding attempt_ok_def by auto

lemma reader_inv_load:
  assumes mi: "mem_inv v s" and ri: "reader_inv v (pub s) (settled s) r"
  shows "reader_inv v (pub s) (settled s) (reader_step v (mem s) r)"
proof (cases "copying (r_pc r)")
  case False
  then have "r_pc r = RCount \<or> reader_step v (mem s) r = r"
    by (cases "r_pc r") (simp_all add: reader_step_def copying_def)
  moreover have "r_pc r = RCount \<Longrightarrow> reader_step v (mem s) r = reader_count v (mem s) r"
    by (simp add: reader_step_def)
  ultimately show ?thesis using ri reader_inv_count[OF mi ri] by metis
next
  case True
  then obtain a b where ab: "attempt_ok v (pub s) (settled s) r a b"
    using ri by (auto simp: reader_inv_def)
  have n: "length (r_gidx r) = b - a" using ab by (simp add: attempt_ok_def)
  have st: "r_start r \<le> settled s" and lo: "\<forall>x. r_last_ok r = Some x \<longrightarrow> genuine (pub s) (r_start r) x"
    using ri True by (auto simp: reader_inv_def copying_def)
  have keep: "reader_inv v (pub s) (settled s) r'"
    if "attempt_ok v (pub s) (settled s) r' a b" "copying (r_pc r')"
      "r_last_ok r' = r_last_ok r" "r_start r' = r_start r" for r'
    using that st lo unfolding reader_inv_def by (auto simp: copying_def)
  have le: "settled s \<le> length (pub s)" by (simp add: settled_def)
  show ?thesis
  proof (cases "r_pc r")
    case RSeq1
    show ?thesis unfolding reader_step_def Let_def RSeq1
      using n RSeq1 attempt_step_seq1[OF ab RSeq1] attempt_phase(1)[OF ab RSeq1]
      by (auto intro!: keep simp: copying_def)
  next
    case RData
    show ?thesis unfolding reader_step_def Let_def RData
      using n RData attempt_step_row[OF mi ab RData] attempt_step_row_done[OF mi ab RData]
        attempt_phase(2)[OF ab RData]
      by (auto intro!: keep simp: copying_def)
  next
    case RStamp
    show ?thesis unfolding reader_step_def Let_def RStamp
      using n RStamp attempt_step_stamp[OF mi ab RStamp] attempt_phase(3)[OF ab RStamp]
      by (auto intro!: keep simp: copying_def)
  next
    case RSeq2
    show ?thesis unfolding reader_step_def Let_def RSeq2
      using n RSeq2 attempt_step_seq2[OF mi ab RSeq2] reader_inv_conclude[OF le ri RSeq2]
      by (auto intro!: keep simp: copying_def)
  qed (use True in \<open>auto simp: copying_def\<close>)
qed

section \<open>Every interleaving is safe\<close>

definition seqlock_inv :: "ring_view \<Rightarrow> 'v seqlock \<Rightarrow> bool" where
  "seqlock_inv v s \<longleftrightarrow> mem_inv v s \<and> reader_inv v (pub s) (settled s) (rd s)"

lemma seqlock_inv_start:
  "ring_rep v g H \<Longrightarrow> r_pc r = RIdle \<Longrightarrow> r_last_ok r = None \<Longrightarrow>
     seqlock_inv v \<lparr>mem = g, wr = WIdle, rd = r, pub = H\<rparr>"
  using mem_inv_start[of v g H r] by (simp add: seqlock_inv_def reader_inv_def copying_def)

lemma mem_inv_rd [simp]: "mem_inv v (s\<lparr>rd := r\<rparr>) = mem_inv v s"
  by (simp add: mem_inv_def settled_def)

lemma settled_rd [simp]: "settled (s\<lparr>rd := r\<rparr>) = settled s"
  by (simp add: settled_def)

lemma seqlock_inv_step:
  assumes "seqlock_step v s s'" "seqlock_inv v s"
  shows "seqlock_inv v s'"
  using assms
proof (induction rule: seqlock_step.induct)
  case (begin_append s vec t w g)
  then have "reader_inv v (pub s @ [(t, vec)]) (settled s) (rd s)"
    by (intro reader_inv_extend) (auto simp: seqlock_inv_def settled_def)
  moreover have "settled (s\<lparr>wr := w, mem := g, pub := pub s @ [(t, vec)]\<rparr>) = settled s"
    using begin_append by (auto simp: settled_def writer_begin_def Let_def)
  ultimately show ?case
    using begin_append mem_inv_begin_append[of v s vec t w g] by (simp add: seqlock_inv_def)
next
  case (store s w g)
  have "settled s \<le> settled (s\<lparr>wr := w, mem := g\<rparr>)" by (simp add: settled_def store)
  then show ?case
    using store mem_inv_store[of v s w g] reader_inv_settle[of v "pub s" "settled s" "rd s"]
    by (simp add: seqlock_inv_def)
next
  case (begin_last s k)
  then show ?case by (simp add: seqlock_inv_def reader_inv_def reader_begin_def copying_def)
next
  case (load s)
  then show ?case using reader_inv_load[of v s "rd s"] by (simp add: seqlock_inv_def)
qed

lemma seqlock_reach_inv: "seqlock_reach v s \<Longrightarrow> seqlock_inv v s"
  by (induction rule: seqlock_reach.induct) (auto intro: seqlock_inv_start seqlock_inv_step)

inductive_cases seqlock_stepE: "seqlock_step v s s'"

section \<open>The reader is wait-free\<close>

definition attempt_cost :: "ring_view \<Rightarrow> nat" where
  "attempt_cost v = rv_capacity v * (rv_dim v + 4) + 5"

text \<open>An upper bound on the loads a reader still makes before it returns.\<close>

definition reader_work :: "ring_view \<Rightarrow> 'v reader \<Rightarrow> nat" where
  "reader_work v r =
     (let n = length (r_gidx r) in
      case r_pc r of
        RIdle \<Rightarrow> 0
      | RDone \<Rightarrow> 0
      | RCount \<Rightarrow> r_fuel r * attempt_cost v + 1
      | RSeq1 \<Rightarrow> r_fuel r * attempt_cost v + (n - length (r_s1 r)) + n * (rv_dim v + 1) + 2 * n + 5
      | RData \<Rightarrow> r_fuel r * attempt_cost v
          + ((n - length (r_dat r)) * (rv_dim v + 1) - length (r_row r)) + 2 * n + 4
      | RStamp \<Rightarrow> r_fuel r * attempt_cost v + (n - length (r_ts r)) + n + 3
      | RSeq2 \<Rightarrow> r_fuel r * attempt_cost v + (n - length (r_s2 r)) + 2)"

lemma reader_work_count:
  assumes "r_pc r = RCount"
  shows "reader_work v (reader_count v g r) < reader_work v r"
proof (cases "r_fuel r = 0 \<or> write_count g \<le> 0")
  case True
  then show ?thesis using assms by (auto simp: reader_count_def reader_work_def Let_def)
next
  case False
  then obtain f where f: "r_fuel r = Suc f" by (cases "r_fuel r") auto
  let ?n = "min (r_k r) (min (rv_capacity v) (nat (write_count g)))"
  have "?n * (rv_dim v + 4) \<le> rv_capacity v * (rv_dim v + 4)" by (rule mult_le_mono1) simp
  then have "?n + ?n * (rv_dim v + 1) + 2 * ?n + 5 \<le> attempt_cost v"
    by (simp add: attempt_cost_def distrib_left)
  then show ?thesis using False assms f
    by (simp add: reader_count_def reader_work_def Let_def window_def)
qed

lemma reader_work_row:
  fixes n d k w :: nat
  assumes "d < n" "k \<le> w"
  shows "k < w \<Longrightarrow> (n - d) * (w + 1) - Suc k < (n - d) * (w + 1) - k"
    and "k = w \<Longrightarrow> (n - Suc d) * (w + 1) < (n - d) * (w + 1) - k"
proof -
  have "n - d = Suc (n - Suc d)" using assms by simp
  then have e: "(n - d) * (w + 1) = (n - Suc d) * (w + 1) + (w + 1)" by (simp add: algebra_simps)
  show "k < w \<Longrightarrow> (n - d) * (w + 1) - Suc k < (n - d) * (w + 1) - k"
    and "k = w \<Longrightarrow> (n - Suc d) * (w + 1) < (n - d) * (w + 1) - k"
    using e assms by linarith+
qed

lemma reader_work_step:
  assumes "r_pc r \<noteq> RIdle" "r_pc r \<noteq> RDone"
    and row: "r_pc r = RData \<Longrightarrow> length (r_row r) \<le> rv_dim v"
    and row0: "r_pc r = RSeq1 \<Longrightarrow> r_dat r = [] \<and> r_row r = []"
    and ts0: "r_pc r = RData \<Longrightarrow> r_ts r = [] \<and> r_s2 r = []" "r_pc r = RStamp \<Longrightarrow> r_s2 r = []"
  shows "reader_work v (reader_step v g r) < reader_work v r"
proof (cases "r_pc r")
  case RCount
  then show ?thesis using reader_work_count[OF RCount] by (simp add: reader_step_def)
next
  case RSeq1
  then show ?thesis using row0 by (auto simp: reader_step_def reader_work_def Let_def)
next
  case RData
  let ?n = "length (r_gidx r)" and ?d = "length (r_dat r)" and ?k = "length (r_row r)"
  have k: "?k \<le> rv_dim v" using row RData by simp
  show ?thesis
  proof (cases "?d < ?n")
    case True
    then show ?thesis using RData k reader_work_row[OF True k]
      by (auto simp: reader_step_def reader_work_def Let_def)
  next
    case False
    then show ?thesis using RData ts0 by (auto simp: reader_step_def reader_work_def Let_def)
  qed
next
  case RStamp
  then show ?thesis using ts0 by (auto simp: reader_step_def reader_work_def Let_def)
next
  case RSeq2
  then show ?thesis
    by (auto simp: reader_step_def reader_work_def Let_def reader_conclude_def split: verdict.splits)
qed (use assms in auto)

lemma reader_work_load:
  assumes "seqlock_inv v s" "r_pc (rd s) \<noteq> RIdle" "r_pc (rd s) \<noteq> RDone"
  shows "reader_work v (reader_step v (mem s) (rd s)) < reader_work v (rd s)"
  using assms
  by (intro reader_work_step) (auto simp: seqlock_inv_def reader_inv_def copying_def attempt_ok_def)

text \<open>
  A run during one call of \<open>last\<close>: \<open>m\<close> loads by the consumer, any number of producer steps.
\<close>

inductive read_run :: "ring_view \<Rightarrow> nat \<Rightarrow> 'v seqlock \<Rightarrow> 'v seqlock \<Rightarrow> bool" for v where
  none: "read_run v 0 s s"
| producer: "read_run v m s s' \<Longrightarrow> seqlock_step v s' s'' \<Longrightarrow> rd s'' = rd s' \<Longrightarrow> read_run v m s s''"
| consumer: "read_run v m s s' \<Longrightarrow> r_pc (rd s') \<noteq> RIdle \<Longrightarrow> r_pc (rd s') \<noteq> RDone \<Longrightarrow>
    read_run v (Suc m) s (s'\<lparr>rd := reader_step v (mem s') (rd s')\<rparr>)"

lemma read_run_inv:
  assumes "read_run v m s s'" "seqlock_inv v s"
  shows "seqlock_inv v s' \<and> m + reader_work v (rd s') \<le> reader_work v (rd s)"
  using assms
proof (induction rule: read_run.induct)
  case (none s)
  then show ?case by simp
next
  case (producer m s s' s'')
  then show ?case using seqlock_inv_step by fastforce
next
  case (consumer m s s')
  then have inv: "seqlock_inv v s'" by simp
  have "seqlock_inv v (s'\<lparr>rd := reader_step v (mem s') (rd s')\<rparr>)"
    using seqlock_inv_step[OF seqlock_step.load inv] consumer by simp
  then show ?case using consumer reader_work_load[OF inv] by simp
qed

section \<open>The producer alone performs \<open>append\<close>\<close>

lemma writer_data_run:
  assumes "j \<le> length vec" "length (rows g ! slot v i) = length vec" "slot v i < length (rows g)"
  shows "(writer_step v ^^ j) (WData i vec t 0, g) =
    (WData i vec t j,
     g\<lparr>rows := (rows g)[slot v i := take j vec @ drop j (rows g ! slot v i)]\<rparr>)"
  using assms(1)
proof (induction j)
  case 0
  then show ?case by simp
next
  case (Suc j)
  let ?row = "rows g ! slot v i"
  have "(take j vec @ drop j ?row)[j := vec ! j] = take (Suc j) vec @ drop (Suc j) ?row"
    using Suc.prems assms(2)
    by (simp add: list_update_append take_Suc_conv_app_nth Cons_nth_drop_Suc[symmetric])
  then show ?case using Suc assms(3) by simp
qed

lemma writer_solo:
  assumes "geometry v g" "length vec = rv_dim v" "0 \<le> write_count g"
  shows "(writer_step v ^^ (4 + length vec)) (writer_begin v vec t g) =
    (WIdle, append_stores (slot v (nat (write_count g))) (write_count g) vec t g)"
proof -
  let ?i = "nat (write_count g)"
  let ?g = "g\<lparr>seqs := (seqs g)[slot v ?i := -1]\<rparr>"
  have row: "length (rows ?g ! slot v ?i) = length vec" "slot v ?i < length (rows ?g)"
    using assms by (auto simp: geometry_def)
  have "(writer_step v ^^ (4 + length vec)) (writer_begin v vec t g) =
      (writer_step v ^^ 4) ((writer_step v ^^ length vec) (WData ?i vec t 0, ?g))"
    by (simp only: writer_begin_def Let_def funpow_add comp_def)
  also have "(writer_step v ^^ length vec) (WData ?i vec t 0, ?g) =
      (WData ?i vec t (length vec), ?g\<lparr>rows := (rows ?g)[slot v ?i := vec]\<rparr>)"
    using writer_data_run[of "length vec" vec ?g v ?i t] row by simp
  finally show ?thesis using assms(3)
    by (simp add: append_stores_def Let_def numeral_eq_Suc)
qed

section \<open>Executable schedules\<close>

datatype 'v move = MAppend int "'v list" | MStore | MLast int | MLoad

fun sched_step :: "ring_view \<Rightarrow> 'v move \<Rightarrow> 'v seqlock \<Rightarrow> 'v seqlock" where
  "sched_step v (MAppend t vec) s =
     (if wr s = WIdle \<and> length vec = rv_dim v
      then case writer_begin v vec t (mem s) of (w, g) \<Rightarrow>
        s\<lparr>wr := w, mem := g, pub := pub s @ [(t, vec)]\<rparr>
      else s)"
| "sched_step v MStore s =
     (if wr s = WIdle then s
      else case writer_step v (wr s, mem s) of (w, g) \<Rightarrow> s\<lparr>wr := w, mem := g\<rparr>)"
| "sched_step v (MLast k) s =
     (if r_pc (rd s) = RIdle \<or> r_pc (rd s) = RDone
      then s\<lparr>rd := reader_begin k (settled s)\<rparr> else s)"
| "sched_step v MLoad s =
     (if r_pc (rd s) = RIdle \<or> r_pc (rd s) = RDone then s
      else s\<lparr>rd := reader_step v (mem s) (rd s)\<rparr>)"

lemma sched_step_reach: "seqlock_reach v s \<Longrightarrow> seqlock_reach v (sched_step v m s)"
  by (cases m) (auto split: prod.splits intro: seqlock_reach.step seqlock_step.intros)

lemma sched_reach: "seqlock_reach v s \<Longrightarrow> seqlock_reach v (fold (sched_step v) ms s)"
  by (induction ms arbitrary: s) (auto intro: sched_step_reach)

text \<open>A two-slot ring of scalars with one published sample, an idle reader.\<close>

definition demo_view :: ring_view where
  "demo_view = \<lparr>rv_capacity = 2, rv_dim = 1, rv_dtype = Float64, rv_owner = True\<rparr>"

definition demo_segment :: "int segment" where
  "demo_segment = \<lparr>header = (create_header 2 1 Float64)[H_WRITE_COUNT := 1], seqs = [0, -1],
     stamps = [11, 0], rows = [[5], [0]]\<rparr>"

definition demo_state :: "int seqlock" where
  "demo_state = \<lparr>mem = demo_segment, wr = WIdle, rd = (reader_begin 1 0)\<lparr>r_pc := RIdle\<rparr>,
     pub = [(11, [5])]\<rparr>"

lemma demo_rep: "ring_rep demo_view demo_segment [(11, [5])]"
  by (simp add: ring_rep_def view_ok_def demo_view_def demo_segment_def create_header_def
      write_count_def ring_init_def slot_holds_def CODE_TO_DTYPE_def less_Suc_eq numeral_eq_Suc)

lemma demo_reach: "seqlock_reach demo_view demo_state"
  unfolding demo_state_def
  by (rule seqlock_reach.start[OF demo_rep]) (simp_all add: reader_begin_def)

text \<open>
  The reader snapshots the count, then the producer laps it half way through the copy: the first
  attempt is rejected and the second returns the newer sample.
\<close>

definition demo_moves :: "int move list" where
  "demo_moves = [MLast 2, MLoad, MLoad, MLoad, MAppend 12 [6], MStore, MStore, MStore, MStore, MStore,
     MAppend 13 [7], MStore, MLoad, MLoad, MLoad, MLoad, MLoad, MLoad, MLoad, MStore, MStore, MStore, MStore]
     @ replicate 24 MLoad"

section \<open>Properties\<close>

text \<open>
  C3. No torn reads: whatever a consumer returns from \<^verbatim>\<open>SharedRingBuffer.last\<close>, under every
  interleaving of single loads and stores with the producer, is a gap-free run of samples the
  producer published, each row and timestamp intact, and (unless it is empty) it reaches at
  least to the newest sample that was published when the call began.
\<close>

theorem seqlock_no_torn_read:
  assumes "seqlock_reach v s" and "r_pc (rd s) = RDone"
  shows "genuine (pub s) (r_start (rd s)) (r_out (rd s))"
  using seqlock_reach_inv[OF assms(1)] assms(2) by (simp add: seqlock_inv_def reader_inv_def)

theorem seqlock_no_torn_read_witness:
  "\<exists>s :: int seqlock. seqlock_reach demo_view s \<and> r_pc (rd s) = RDone
     \<and> sm_data (r_out (rd s)) = [[6], [7]] \<and> genuine (pub s) (r_start (rd s)) (r_out (rd s))"
proof -
  let ?s = "fold (sched_step demo_view) demo_moves demo_state"
  have reach: "seqlock_reach demo_view ?s" by (rule sched_reach[OF demo_reach])
  have fin: "r_pc (rd ?s) = RDone" by code_simp
  have data: "sm_data (r_out (rd ?s)) = [[6], [7]]" by code_simp
  show ?thesis using reach fin data seqlock_no_torn_read[OF reach fin] by blast
qed

text \<open>
  Wait-freedom: a call of \<^verbatim>\<open>SharedRingBuffer.last\<close> returns after at most
  \<open>READ_RETRIES\<close> attempts of bounded length, that is after a number of its own loads that
  depends only on the capacity and the dimension, however many samples the producer writes
  meanwhile.
\<close>

theorem seqlock_wait_free:
  assumes reach: "seqlock_reach v s" and idle: "r_pc (rd s) = RIdle \<or> r_pc (rd s) = RDone"
    and run: "read_run v m (s\<lparr>rd := reader_begin k (settled s)\<rparr>) s'"
  shows "m \<le> READ_RETRIES * (rv_capacity v * (rv_dim v + 4) + 5) + 1"
proof -
  let ?s = "s\<lparr>rd := reader_begin k (settled s)\<rparr>"
  have "seqlock_inv v ?s"
    using seqlock_inv_step[OF seqlock_step.begin_last[OF idle] seqlock_reach_inv[OF reach]] .
  then have "m + reader_work v (rd s') \<le> reader_work v (rd ?s)"
    using read_run_inv[OF run] by blast
  also have "\<dots> \<le> READ_RETRIES * (rv_capacity v * (rv_dim v + 4) + 5) + 1"
    by (simp add: reader_work_def reader_begin_def attempt_cost_def)
  finally show ?thesis by simp
qed

theorem seqlock_wait_free_witness:
  "\<exists>s'. read_run demo_view 1 (demo_state\<lparr>rd := reader_begin 1 (settled demo_state)\<rparr>) s'
     \<and> 1 \<le> READ_RETRIES * (rv_capacity demo_view * (rv_dim demo_view + 4) + 5) + 1"
proof -
  let ?s = "demo_state\<lparr>rd := reader_begin 1 (settled demo_state)\<rparr>"
  have idle: "r_pc (rd demo_state) = RIdle \<or> r_pc (rd demo_state) = RDone"
    by (simp add: demo_state_def)
  have "read_run demo_view (Suc 0) ?s (?s\<lparr>rd := reader_step demo_view (mem ?s) (rd ?s)\<rparr>)"
    by (rule read_run.consumer[OF read_run.none]) (simp_all add: reader_begin_def)
  then have run: "read_run demo_view 1 ?s (?s\<lparr>rd := reader_step demo_view (mem ?s) (rd ?s)\<rparr>)"
    by simp
  show ?thesis using seqlock_wait_free[OF demo_reach idle run] run by blast
qed

text \<open>
  The stores of the interleaved producer are \<^verbatim>\<open>SharedRingBuffer.append\<close>: run without
  interruption from its entry it makes exactly the segment that \<open>ring_append\<close> returns.
\<close>

theorem writer_solo_is_append:
  assumes "ring_rep v g H" and "length vec = rv_dim v"
  shows "\<exists>g'. ring_append v vec t g = Inr (g', int (length H))
     \<and> (writer_step v ^^ (4 + length vec)) (writer_begin v vec t g) = (WIdle, g')"
proof -
  have geo: "geometry v g" and wc: "write_count g = int (length H)" and cap: "0 < rv_capacity v"
    using assms(1) by (auto simp: ring_rep_def view_ok_def geometry_def)
  show ?thesis
    using writer_solo[OF geo assms(2), of t] wc cap assms(2)
    by (simp add: ring_append_def Let_def slot_def nat_mod_distrib)
qed

theorem writer_solo_is_append_witness:
  "\<exists>g'. ring_append demo_view [6] 12 demo_segment = Inr (g', 1)
     \<and> (writer_step demo_view ^^ 5) (writer_begin demo_view [6] 12 demo_segment) = (WIdle, g')"
  using writer_solo_is_append[OF demo_rep, of "[6]" 12] by (simp add: demo_view_def)

end
