(* ===== verification/Registry.thy ===== *)
theory Registry
  imports Ring_Buffer
begin

text \<open>
  Stream discovery (\<^verbatim>\<open>streams/registry.py\<close>) and the role-typed ends of a stream
  (\<^verbatim>\<open>streams/stream.py\<close>).

  The state is a \<open>run_store\<close>: the POSIX shared-memory namespace and the manifest directories
  below \<^verbatim>\<open><runtime_dir>/<run_id>\<close>. A directory is a list of files in the (unspecified) order the
  operating system lists them; a file (\<open>manifest\<close>) is a JSON object with scalar values, some other JSON
  document, or text that does not decode. Creating a directory, writing the temporary file and
  the replacing rename are the three file operations of \<open>publish\<close>, and each may fail.
\<close>

section \<open>Names\<close>

definition safe_char :: "char \<Rightarrow> bool" where
  "safe_char c = (let n = (of_char c :: nat) in
     65 \<le> n \<and> n \<le> 90 \<or> 97 \<le> n \<and> n \<le> 122 \<or> 48 \<le> n \<and> n \<le> 57 \<or> n = 95)"

function sanitize :: "string \<Rightarrow> string" where
  "sanitize [] = []"
| "sanitize (c # cs) =
     (if safe_char c then c # sanitize cs
      else CHR ''_'' # sanitize (dropWhile (\<lambda>d. \<not> safe_char d) cs))"
  by pat_completeness auto
termination
  by (relation "measure length") (auto simp: less_Suc_eq_le length_dropWhile_le)

definition shm_name_for :: "string \<Rightarrow> string \<Rightarrow> string" where
  "shm_name_for run_id stream_name = ''dfc_'' @ sanitize run_id @ ''_'' @ sanitize stream_name"

lemma sanitize_safe: "c \<in> set (sanitize s) \<Longrightarrow> safe_char c"
proof (induction s rule: sanitize.induct)
  case (2 d cs)
  then show ?case by (auto simp: safe_char_def split: if_splits)
qed simp

lemma sanitize_id: "(\<And>c. c \<in> set s \<Longrightarrow> safe_char c) \<Longrightarrow> sanitize s = s"
  by (induction s) auto

lemma sanitize_idem [simp]: "sanitize (sanitize s) = sanitize s"
  by (rule sanitize_id) (rule sanitize_safe)

section \<open>Manifest entries\<close>

datatype json = JStr string | JInt int | JFloat real | JNull

datatype manifest = FObj "(string, json) dict" | FOther | FGarbage | FUnreadable

text \<open>Python's \<open>int (x)\<close>; a string is a signed decimal, with blanks around it allowed.\<close>

definition digit :: "char \<Rightarrow> bool" where
  "digit c = (let n = (of_char c :: nat) in 48 \<le> n \<and> n \<le> 57)"

definition py_int_of_string :: "string \<Rightarrow> int res" where
  "py_int_of_string s =
     (let blank = (\<lambda>c. c = CHR '' '' \<or> c = CHR 0x09 \<or> c = CHR 0x0A \<or> c = CHR 0x0D);
          t = rev (dropWhile blank (rev (dropWhile blank s)));
          neg = (t \<noteq> [] \<and> hd t = CHR ''-'');
          ds = (if t \<noteq> [] \<and> (hd t = CHR ''-'' \<or> hd t = CHR ''+'') then tl t else t)
      in if ds = [] \<or> \<not> list_all digit ds then Inl ValueError
         else let n = foldl (\<lambda>a c. a * 10 + (of_char c - 48)) 0 ds in Inr (if neg then - n else n))"

fun py_int :: "json \<Rightarrow> int res" where
  "py_int (JInt n) = Inr n"
| "py_int (JFloat x) = Inr (if 0 \<le> x then \<lfloor>x\<rfloor> else \<lceil>x\<rceil>)"
| "py_int (JStr s) = py_int_of_string s"
| "py_int JNull = Inl TypeError"

record registry_entry =
  re_name :: json
  re_shm_name :: json
  re_dim :: int
  re_capacity :: int
  re_dtype :: json
  re_rate_hz :: json
  re_pid :: int

definition to_json :: "registry_entry \<Rightarrow> (string, json) dict" where
  "to_json e =
     [(''name'', re_name e), (''shm_name'', re_shm_name e), (''dim'', JInt (re_dim e)),
      (''capacity'', JInt (re_capacity e)), (''dtype'', re_dtype e), (''rate_hz'', re_rate_hz e),
      (''pid'', JInt (re_pid e))]"

definition from_json :: "(string, json) dict \<Rightarrow> registry_entry res" where
  "from_json d =
     rbind (ditem d ''name'') (\<lambda>name.
     rbind (ditem d ''shm_name'') (\<lambda>shm_name.
     rbind (rbind (ditem d ''dim'') py_int) (\<lambda>di.
     rbind (rbind (ditem d ''capacity'') py_int) (\<lambda>capacity.
     rbind (ditem d ''dtype'') (\<lambda>dty.
     rbind (ditem d ''rate_hz'') (\<lambda>rate_hz.
     rbind (rbind (ditem d ''pid'') py_int) (\<lambda>pid.
     Inr \<lparr>re_name = name, re_shm_name = shm_name, re_dim = di, re_capacity = capacity,
          re_dtype = dty, re_rate_hz = rate_hz, re_pid = pid\<rparr>)))))))"

text \<open>\<open>RegistryEntry.from_json (json.loads (path.read_text ()))\<close>.\<close>

fun read_entry :: "manifest \<Rightarrow> registry_entry res" where
  "read_entry (FObj d) = from_json d"
| "read_entry FOther = Inl TypeError"
| "read_entry FGarbage = Inl JSONDecodeError"
| "read_entry FUnreadable = Inl OSError"

lemma from_to_json [simp]: "from_json (to_json e) = Inr e"
  by (simp add: from_json_def to_json_def ditem_def)

text \<open>The exceptions the readers of the directory skip.\<close>

definition skipped :: "py_error \<Rightarrow> bool" where
  "skipped e \<longleftrightarrow> e = JSONDecodeError \<or> e = KeyError \<or> e = OSError"

section \<open>The state shared by the processes of a run\<close>

type_synonym directory = "(string, manifest) dict"

record 'v run_store =
  rs_shm :: "(string, 'v segment) dict"
  rs_subs :: "(string, directory) dict"

definition sub_dir :: "'v run_store \<Rightarrow> string \<Rightarrow> directory" where
  "sub_dir w sub = (case dget (rs_subs w) sub of None \<Rightarrow> [] | Some d \<Rightarrow> d)"

definition set_sub :: "string \<Rightarrow> directory \<Rightarrow> 'v run_store \<Rightarrow> 'v run_store" where
  "set_sub sub d w = w\<lparr>rs_subs := dput sub d (rs_subs w)\<rparr>"

lemma sub_dir_set [simp]: "sub_dir (set_sub s d w) s' = (if s' = s then d else sub_dir w s')"
  by (simp add: sub_dir_def set_sub_def)

lemma rs_shm_set_sub [simp]: "rs_shm (set_sub s d w) = rs_shm w"
  by (simp add: set_sub_def)

lemma sub_dir_shm [simp]: "sub_dir (w\<lparr>rs_shm := m\<rparr>) s = sub_dir w s"
  by (simp add: sub_dir_def)

definition manifest_file :: "string \<Rightarrow> string" where
  "manifest_file name = sanitize name @ ''.json''"

definition temp_file :: "string \<Rightarrow> string" where
  "temp_file name = sanitize name @ ''.json.tmp''"

definition is_json :: "string \<Rightarrow> bool" where
  "is_json p \<longleftrightarrow> drop (length p - 5) p = ''.json''"

lemma is_json_manifest [simp]: "is_json (manifest_file n)"
  by (simp add: is_json_def manifest_file_def)

lemma not_json_temp [simp]: "\<not> is_json (temp_file n)"
  by (simp add: is_json_def temp_file_def)

lemma manifest_ne_temp [simp]: "manifest_file n \<noteq> temp_file m"
  using is_json_manifest[of n] not_json_temp[of m] by metis

lemma manifest_file_eq [simp]: "manifest_file n = manifest_file m \<longleftrightarrow> sanitize n = sanitize m"
  by (simp add: manifest_file_def)

section \<open>Producer side\<close>

datatype io_outcome = IoOk | MkdirFails | WriteFails "manifest option" | ReplaceFails

definition spec_entry :: "stream_spec \<Rightarrow> string \<Rightarrow> int \<Rightarrow> registry_entry" where
  "spec_entry spec shm_name pid =
     \<lparr>re_name = JStr (ss_name spec), re_shm_name = JStr shm_name, re_dim = ss_dim spec,
      re_capacity = ss_capacity spec, re_dtype = JStr (ss_dtype spec),
      re_rate_hz = (case ss_rate_hz spec of None \<Rightarrow> JNull | Some r \<Rightarrow> JFloat r), re_pid = pid\<rparr>"

text \<open>The directory after each file operation of \<open>publish\<close>, and where a failure leaves it.\<close>

definition write_tmp :: "string \<Rightarrow> registry_entry \<Rightarrow> directory \<Rightarrow> directory" where
  "write_tmp name e d = dput (temp_file name) (FObj (to_json e)) d"

definition replace_tmp :: "string \<Rightarrow> registry_entry \<Rightarrow> directory \<Rightarrow> directory" where
  "replace_tmp name e d = ddel (temp_file name) (dput (manifest_file name) (FObj (to_json e)) d)"

definition publish ::
    "io_outcome \<Rightarrow> string \<Rightarrow> int \<Rightarrow> stream_spec \<Rightarrow> string \<Rightarrow> 'v run_store
     \<Rightarrow> registry_entry res \<times> 'v run_store" where
  "publish io sub pid spec shm_name w =
     (let e = spec_entry spec shm_name pid; d = sub_dir w sub; n = ss_name spec in
      case io of
        MkdirFails \<Rightarrow> (Inl OSError, w)
      | WriteFails None \<Rightarrow> (Inl OSError, set_sub sub d w)
      | WriteFails (Some partial) \<Rightarrow> (Inl OSError, set_sub sub (dput (temp_file n) partial d) w)
      | ReplaceFails \<Rightarrow> (Inl OSError, set_sub sub (write_tmp n e d) w)
      | IoOk \<Rightarrow> (Inr e, set_sub sub (replace_tmp n e (write_tmp n e d)) w))"

definition remove :: "string \<Rightarrow> string \<Rightarrow> 'v run_store \<Rightarrow> 'v run_store" where
  "remove sub name w =
     (case dget (sub_dir w sub) (manifest_file name) of
        None \<Rightarrow> w
      | Some f \<Rightarrow> set_sub sub (ddel (manifest_file name) (sub_dir w sub)) w)"

section \<open>Consumer side\<close>

fun discover_loop ::
    "directory \<Rightarrow> (json, registry_entry) dict \<Rightarrow> (json, registry_entry) dict res" where
  "discover_loop [] out = Inr out"
| "discover_loop ((p, f) # fs) out =
     (if \<not> is_json p then discover_loop fs out
      else case read_entry f of
        Inl e \<Rightarrow> if skipped e then discover_loop fs out else Inl e
      | Inr en \<Rightarrow> discover_loop fs (dput (re_name en) en out))"

definition discover :: "string \<Rightarrow> 'v run_store \<Rightarrow> (json, registry_entry) dict res" where
  "discover sub w = discover_loop (sub_dir w sub) []"

definition get :: "string \<Rightarrow> string \<Rightarrow> 'v run_store \<Rightarrow> registry_entry option res" where
  "get sub name w = rbind (discover sub w) (\<lambda>out. Inr (dget out (JStr name)))"

text \<open>
  \<open>wait_for\<close> polls; one element of the list is what one poll observes: the store, the state of
  the stop event and the monotonic clock. \<open>None\<close>: still polling after these observations.
\<close>

record 'v poll =
  po_store :: "'v run_store"
  po_stop :: bool
  po_now :: real

definition has_all :: "string list \<Rightarrow> (json, registry_entry) dict \<Rightarrow> bool" where
  "has_all names found \<longleftrightarrow> list_all (\<lambda>n. dget found (JStr n) \<noteq> None) names"

fun wait_loop ::
    "string \<Rightarrow> string list \<Rightarrow> real \<Rightarrow> 'v poll list \<Rightarrow> (string \<times> registry_entry) list res option" where
  "wait_loop sub names deadline [] = None"
| "wait_loop sub names deadline (o1 # os) =
     (case discover sub (po_store o1) of
        Inl e \<Rightarrow> Some (Inl e)
      | Inr found \<Rightarrow>
          if has_all names found
          then Some (mapR (\<lambda>n. rbind (ditem found (JStr n)) (\<lambda>e. Inr (n, e))) names)
          else if po_stop o1 then Some (Inl AttachAborted)
          else if deadline \<le> po_now o1 then Some (Inl TimeoutError)
          else wait_loop sub names deadline os)"

definition wait_for ::
    "string \<Rightarrow> string list \<Rightarrow> real \<Rightarrow> real \<Rightarrow> 'v poll list
     \<Rightarrow> (string \<times> registry_entry) list res option" where
  "wait_for sub names timeout_s t0 os = wait_loop sub names (t0 + timeout_s) os"

section \<open>Crash clean-up\<close>

text \<open>\<open>SharedMemory (name=x, create=False)\<close>: close and unlink it when it exists.\<close>

fun unlink_shm :: "json \<Rightarrow> (string, 'v segment) dict \<Rightarrow> (nat \<times> (string, 'v segment) dict) res" where
  "unlink_shm (JStr n) m = Inr (case dget m n of None \<Rightarrow> (0, m) | Some g \<Rightarrow> (1, ddel n m))"
| "unlink_shm JNull m = Inl ValueError"
| "unlink_shm (JInt i) m = Inl TypeError"
| "unlink_shm (JFloat x) m = Inl TypeError"

text \<open>
  The sweep over one directory listing, threading the count, the shared memory and the files
  that stay (\<open>cleanup_sub\<close> unlinks each manifest it read).
\<close>

fun sweep ::
    "directory \<Rightarrow> nat \<Rightarrow> (string, 'v segment) dict \<Rightarrow> directory
     \<Rightarrow> (nat \<times> (string, 'v segment) dict \<times> directory) res" where
  "sweep [] k m kept = Inr (k, m, kept)"
| "sweep ((p, f) # fs) k m kept =
     (if \<not> is_json p then sweep fs k m (kept @ [(p, f)])
      else case read_entry f of
        Inl e \<Rightarrow> if skipped e then sweep fs k m (kept @ [(p, f)]) else Inl e
      | Inr en \<Rightarrow> rbind (unlink_shm (re_shm_name en) m) (\<lambda>(u, m'). sweep fs (k + u) m' kept))"

definition cleanup_sub :: "string \<Rightarrow> 'v run_store \<Rightarrow> (nat \<times> 'v run_store) res" where
  "cleanup_sub sub w =
     (case dget (rs_subs w) sub of
        None \<Rightarrow> Inr (0, w)
      | Some d \<Rightarrow> rbind (sweep d 0 (rs_shm w) []) (\<lambda>(k, m, kept). Inr (k, set_sub sub kept (w\<lparr>rs_shm := m\<rparr>))))"

definition cleanup_run :: "'v run_store \<Rightarrow> (nat \<times> 'v run_store) res" where
  "cleanup_run w =
     rbind (sweep (concat (map snd (rs_subs w))) 0 (rs_shm w) [])
       (\<lambda>(k, m, kept). Inr (k, \<lparr>rs_shm = m, rs_subs = []\<rparr>))"

section \<open>Writers and readers\<close>

record stream_writer =
  wr_view :: ring_view
  wr_shm_name :: string
  wr_spec :: stream_spec

record stream_reader =
  rd_view :: ring_view
  rd_entry :: registry_entry

definition writer_create ::
    "'v \<Rightarrow> io_outcome \<Rightarrow> string \<Rightarrow> string \<Rightarrow> int \<Rightarrow> stream_spec \<Rightarrow> 'v run_store
     \<Rightarrow> stream_writer res \<times> 'v run_store" where
  "writer_create z io run_id sub pid spec w =
     (let shm_name = shm_name_for run_id (ss_name spec) in
      case ring_create z (nat (ss_capacity spec)) (nat (ss_dim spec)) (ss_dtype spec) of
        Inl e \<Rightarrow> (Inl e, w)
      | Inr (g, v) \<Rightarrow>
          if dget (rs_shm w) shm_name \<noteq> None then (Inl FileExistsError, w)
          else let w1 = w\<lparr>rs_shm := dput shm_name g (rs_shm w)\<rparr> in
            case publish io sub pid spec shm_name w1 of
              (Inl e, w2) \<Rightarrow> (Inl e, w2\<lparr>rs_shm := ddel shm_name (rs_shm w2)\<rparr>)
            | (Inr en, w2) \<Rightarrow> (Inr \<lparr>wr_view = v, wr_shm_name = shm_name, wr_spec = spec\<rparr>, w2))"

text \<open>
  \<open>write\<close>: \<open>t_ns\<close> given, or stamped with the monotonic clock. The writer stores through its own
  mapping of the segment; here the segment is found under its name, which holds as long as
  nobody unlinks it.
\<close>

definition writer_write ::
    "stream_writer \<Rightarrow> 'v list \<Rightarrow> int option \<Rightarrow> int \<Rightarrow> 'v run_store \<Rightarrow> ('v run_store \<times> int) res" where
  "writer_write wr vec t_ns now_ns w =
     (let t = (case t_ns of None \<Rightarrow> now_ns | Some t \<Rightarrow> t) in
      rbind (ditem (rs_shm w) (wr_shm_name wr)) (\<lambda>g.
      rbind (ring_append (wr_view wr) vec t g) (\<lambda>(g', i).
      Inr (w\<lparr>rs_shm := dput (wr_shm_name wr) g' (rs_shm w)\<rparr>, i))))"

definition writer_unlink :: "stream_writer \<Rightarrow> 'v run_store \<Rightarrow> 'v run_store" where
  "writer_unlink wr w = w\<lparr>rs_shm := ddel (wr_shm_name wr) (rs_shm w)\<rparr>"

definition reader_attach :: "registry_entry \<Rightarrow> 'v run_store \<Rightarrow> stream_reader res" where
  "reader_attach en w =
     (case re_shm_name en of
        JStr n \<Rightarrow> (case dget (rs_shm w) n of
           None \<Rightarrow> Inl FileNotFoundError
         | Some g \<Rightarrow> rbind (ring_attach g) (\<lambda>v. Inr \<lparr>rd_view = v, rd_entry = en\<rparr>))
      | JNull \<Rightarrow> Inl ValueError
      | _ \<Rightarrow> Inl TypeError)"

definition reader_last :: "stream_reader \<Rightarrow> int \<Rightarrow> 'v segment \<Rightarrow> 'v samples" where
  "reader_last r k g = ring_last (rd_view r) k g"

definition reader_latest :: "stream_reader \<Rightarrow> 'v segment \<Rightarrow> 'v samples" where
  "reader_latest r g = ring_latest (rd_view r) g"

section \<open>Discovery reads back what was published\<close>

text \<open>
  The invariant of a manifest directory: file names are unique, and every manifest that decodes
  carries the name its file is called after. Files that do not decode are allowed.
\<close>

definition manifest_ok :: "string \<times> manifest \<Rightarrow> bool" where
  "manifest_ok pf \<longleftrightarrow>
     is_json (fst pf) \<longrightarrow>
     (case read_entry (snd pf) of
        Inl e \<Rightarrow> skipped e
      | Inr en \<Rightarrow> (case re_name en of JStr n \<Rightarrow> fst pf = manifest_file n | _ \<Rightarrow> False))"

definition dir_ok :: "directory \<Rightarrow> bool" where
  "dir_ok d \<longleftrightarrow> distinct (dkeys d) \<and> list_all manifest_ok d"

definition entry_of :: "directory \<Rightarrow> string \<Rightarrow> registry_entry option" where
  "entry_of d n =
     (case dget d (manifest_file n) of
        None \<Rightarrow> None
      | Some f \<Rightarrow> (case read_entry f of
          Inl e \<Rightarrow> None
        | Inr en \<Rightarrow> if re_name en = JStr n then Some en else None))"

lemma dir_ok_Nil [simp]: "dir_ok []"
  by (simp add: dir_ok_def)

lemma dir_ok_Cons: "dir_ok (pf # d) \<longleftrightarrow> fst pf \<notin> set (dkeys d) \<and> manifest_ok pf \<and> dir_ok d"
  by (auto simp: dir_ok_def)

lemma dir_ok_dput: "dir_ok d \<Longrightarrow> manifest_ok (p, f) \<Longrightarrow> dir_ok (dput p f d)"
proof (induction d)
  case (Cons q d)
  have "fst ` set (dput p f d) = insert p (fst ` set d)" using dkeys_dput[of p f d] by simp
  then show ?case using Cons by (cases q) (auto simp: dir_ok_Cons)
qed (simp add: dir_ok_Cons)

lemma dir_ok_ddel: "dir_ok d \<Longrightarrow> dir_ok (ddel p d)"
  by (induction d) (auto simp: dir_ok_Cons ddel_def)

lemma manifest_ok_temp [simp]: "manifest_ok (temp_file n, f)"
  by (simp add: manifest_ok_def)

lemma manifest_ok_entry [simp]:
  "manifest_ok (manifest_file (ss_name s), FObj (to_json (spec_entry s m pid)))"
  by (simp add: manifest_ok_def spec_entry_def)

lemma entry_of_Cons_other:
  "p \<noteq> manifest_file n \<Longrightarrow> entry_of ((p, f) # d) n = entry_of d n"
  by (simp add: entry_of_def)

lemma entry_of_absent: "manifest_file n \<notin> set (dkeys d) \<Longrightarrow> entry_of d n = None"
proof -
  assume "manifest_file n \<notin> set (dkeys d)"
  then have "dget d (manifest_file n) = None" by (simp add: map_of_eq_None_iff)
  then show ?thesis by (simp add: entry_of_def)
qed

lemma discover_loop_ok:
  assumes "dir_ok d"
  shows "\<exists>out'. discover_loop d out = Inr out'
     \<and> (\<forall>n. dget out' (JStr n) = (case entry_of d n of None \<Rightarrow> dget out (JStr n) | Some e \<Rightarrow> Some e))"
  using assms
proof (induction d arbitrary: out)
  case Nil
  then show ?case by (simp add: entry_of_def)
next
  case (Cons pf d)
  obtain p f where pf: "pf = (p, f)" by (cases pf)
  have ok: "dir_ok d" "manifest_ok (p, f)" "p \<notin> set (dkeys d)"
    using Cons.prems by (auto simp: dir_ok_Cons pf)
  have skip: "entry_of ((p, f) # d) n = entry_of d n"
    if "\<not> is_json p \<or> (\<exists>e. read_entry f = Inl e)" for n
  proof (cases "p = manifest_file n")
    case True
    then show ?thesis using that entry_of_absent[of n d] ok(3) by (auto simp: entry_of_def)
  qed (simp add: entry_of_Cons_other)
  show ?case
  proof (cases "is_json p")
    case False
    then show ?thesis using Cons.IH[OF ok(1), of out] skip by (simp add: pf)
  next
    case json: True
    show ?thesis
    proof (cases "read_entry f")
      case (Inl e)
      then have "skipped e" using ok(2) json by (simp add: manifest_ok_def)
      then show ?thesis using Cons.IH[OF ok(1), of out] skip json Inl by (simp add: pf)
    next
      case (Inr en)
      then obtain m where m: "re_name en = JStr m" "p = manifest_file m"
        using ok(2) json by (auto simp: manifest_ok_def split: json.splits)
      obtain out' where out': "discover_loop d (dput (re_name en) en out) = Inr out'"
        "\<And>n. dget out' (JStr n) = (case entry_of d n of None \<Rightarrow> dget (dput (re_name en) en out) (JStr n)
                                                 | Some e \<Rightarrow> Some e)"
        using Cons.IH[OF ok(1), of "dput (re_name en) en out"] by blast
      have "dget out' (JStr n) = (case entry_of ((p, f) # d) n of None \<Rightarrow> dget out (JStr n) | Some e \<Rightarrow> Some e)" for n
      proof (cases "p = manifest_file n")
        case True
        then have "entry_of d n = None" using ok(3) entry_of_absent by metis
        then show ?thesis using out'(2)[of n] Inr m True
          by (simp add: entry_of_def)
      next
        case False
        then have "n \<noteq> m" using m by auto
        then show ?thesis using out'(2)[of n] m(1) False
          by (simp add: entry_of_Cons_other split: option.splits)
      qed
      then show ?thesis using out'(1) Inr json by (simp add: pf)
    qed
  qed
qed

lemma get_entry_of: "dir_ok (sub_dir w sub) \<Longrightarrow> get sub n w = Inr (entry_of (sub_dir w sub) n)"
  using discover_loop_ok[of "sub_dir w sub" "[]"]
  by (cases "entry_of (sub_dir w sub) n") (force simp: get_def discover_def)+

lemma dir_ok_publish:
  assumes "dir_ok (sub_dir w sub)"
  shows "dir_ok (sub_dir (snd (publish io sub pid spec m w)) sub)"
  using assms
  by (auto simp: publish_def Let_def write_tmp_def replace_tmp_def dir_ok_dput dir_ok_ddel
      split: io_outcome.splits option.splits)

lemma dir_ok_remove:
  "dir_ok (sub_dir w sub) \<Longrightarrow> dir_ok (sub_dir (remove sub n w) sub)"
  by (auto simp: remove_def dir_ok_ddel split: option.splits)

lemma entry_of_temp [simp]: "entry_of (dput (temp_file m) f d) n = entry_of d n"
  by (simp add: entry_of_def)

lemma entry_of_replace:
  "entry_of (replace_tmp n e (write_tmp n e d)) k =
     (if sanitize k = sanitize n then (if re_name e = JStr k then Some e else None) else entry_of d k)"
  by (auto simp: entry_of_def replace_tmp_def write_tmp_def)

lemma entry_of_remove:
  "entry_of (sub_dir (remove sub n w) sub) k =
     (if sanitize k = sanitize n then None else entry_of (sub_dir w sub) k)"
  by (auto simp: entry_of_def remove_def manifest_file_def split: option.splits)

section \<open>Clean-up releases every listed segment\<close>

text \<open>A manifest that decodes names its segment by a string.\<close>

definition listed :: "string \<times> manifest \<Rightarrow> string option" where
  "listed pf = (if \<not> is_json (fst pf) then None else
     case read_entry (snd pf) of
       Inl e \<Rightarrow> None
     | Inr en \<Rightarrow> (case re_shm_name en of JStr n \<Rightarrow> Some n | _ \<Rightarrow> None))"

definition sweepable :: "string \<times> manifest \<Rightarrow> bool" where
  "sweepable pf \<longleftrightarrow> is_json (fst pf) \<longrightarrow>
     (case read_entry (snd pf) of Inl e \<Rightarrow> skipped e | Inr en \<Rightarrow> (\<exists>n. re_shm_name en = JStr n))"

lemma sweep_ok:
  assumes "list_all sweepable d"
  shows "\<exists>k' m' kept'. sweep d k m kept = Inr (k', m', kept')
     \<and> (\<forall>n. dget m' n = (if Some n \<in> listed ` set d then None else dget m n))
     \<and> kept' = kept @ filter (\<lambda>pf. listed pf = None) d
     \<and> k' = k + card {n. Some n \<in> listed ` set d \<and> dget m n \<noteq> None}"
  using assms
proof (induction d arbitrary: k m kept)
  case Nil
  then show ?case by simp
next
  case (Cons pf d)
  obtain p f where pf: "pf = (p, f)" by (cases pf)
  have ok: "list_all sweepable d" "sweepable (p, f)" using Cons.prems by (auto simp: pf)
  show ?case
  proof (cases "listed (p, f)")
    case None
    have "sweep (pf # d) k m kept = sweep d k m (kept @ [pf])"
      using None ok(2) by (auto simp: pf listed_def sweepable_def split: sum.splits)
    then show ?thesis using Cons.IH[OF ok(1), of k m "kept @ [pf]"] None by (simp add: pf)
  next
    case (Some n)
    then obtain en where en: "is_json p" "read_entry f = Inr en" "re_shm_name en = JStr n"
      by (auto simp: listed_def split: if_splits sum.splits json.splits)
    let ?u = "if dget m n = None then 0 else 1 :: nat"
    let ?m = "ddel n m"
    let ?S = "\<lambda>d m. {n. Some n \<in> listed ` set d \<and> dget m n \<noteq> None}"
    have same: "dget (if dget m n = None then m else ?m) = dget ?m" by auto
    have fin: "finite (?S d ?m)"
      by (rule finite_subset[of _ "set (dkeys ?m)"]) (auto simp: dget_None_keys simp del: dget_ddel)
    have S: "?S (pf # d) m = (if dget m n = None then ?S d ?m else insert n (?S d ?m))"
      using Some by (auto simp: pf)
    have "card (?S (pf # d) m) = ?u + card (?S d ?m)"
      unfolding S using fin by simp
    moreover have "sweep (pf # d) k m kept = sweep d (k + ?u) (if dget m n = None then m else ?m) kept"
      using en by (simp add: pf split: option.splits)
    ultimately show ?thesis
      using Cons.IH[OF ok(1), of "k + ?u" "if dget m n = None then m else ?m" kept] Some
      unfolding same by (auto simp: pf)
  qed
qed

lemma py_int_errors: "py_int j = Inl e \<Longrightarrow> e = TypeError \<or> e = ValueError"
  by (cases j) (auto simp: py_int_of_string_def Let_def split: if_splits)

lemma read_entry_errors:
  "read_entry f = Inl e \<Longrightarrow> skipped e \<or> e = TypeError \<or> e = ValueError"
  by (cases f) (auto simp: from_json_def rbind_eq_Inl ditem_Inl skipped_def dest: py_int_errors)

lemma discover_loop_errors: "discover_loop d out = Inl e \<Longrightarrow> e = TypeError \<or> e = ValueError"
proof (induction d out rule: discover_loop.induct)
  case (2 p f fs out)
  then show ?case using read_entry_errors[of f] by (auto split: if_splits sum.splits)
qed simp

lemma wait_loop_cases:
  assumes "wait_loop sub names dl os = r"
  shows "case r of
      None \<Rightarrow> (\<forall>o1 \<in> set os. \<not> po_stop o1 \<and> po_now o1 < dl)
    | Some (Inr es) \<Rightarrow> (\<exists>o1 \<in> set os. map fst es = names
        \<and> (\<forall>(n, e) \<in> set es. get sub n (po_store o1) = Inr (Some e)))
    | Some (Inl AttachAborted) \<Rightarrow> (\<exists>o1 \<in> set os. po_stop o1)
    | Some (Inl TimeoutError) \<Rightarrow> (\<exists>o1 \<in> set os. dl \<le> po_now o1)
    | Some (Inl e) \<Rightarrow> (\<exists>o1 \<in> set os. discover sub (po_store o1) = Inl e)"
  using assms
proof (induction os arbitrary: r)
  case Nil
  then show ?case by auto
next
  case (Cons o1 os)
  show ?case
  proof (cases "discover sub (po_store o1)")
    case (Inl e)
    then have "e = TypeError \<or> e = ValueError" using discover_loop_errors by (auto simp: discover_def)
    then show ?thesis using Cons.prems Inl by auto
  next
    case (Inr found)
    have get: "get sub n (po_store o1) = Inr (dget found (JStr n))" for n
      using Inr by (simp add: get_def)
    show ?thesis
    proof (cases "has_all names found")
      case True
      let ?e = "\<lambda>n. (n, the (dget found (JStr n)))"
      have "mapR (\<lambda>n. rbind (ditem found (JStr n)) (\<lambda>e. Inr (n, e))) names = Inr (map ?e names)"
        using True by (intro mapR_Inr_map) (auto simp: has_all_def list_all_iff ditem_def)
      then have "r = Some (Inr (map ?e names))" using Cons.prems Inr True by simp
      moreover have "get sub n (po_store o1) = Inr (Some (snd (?e n)))" if "n \<in> set names" for n
        using that True get[of n] by (auto simp: has_all_def list_all_iff)
      ultimately show ?thesis by (auto simp: o_def)
    next
      case False
      show ?thesis
      proof (cases "po_stop o1 \<or> dl \<le> po_now o1")
        case True
        then show ?thesis using Cons.prems Inr False by (cases "po_stop o1") auto
      next
        case going: False
        then have "wait_loop sub names dl os = r" using Cons.prems Inr False by simp
        then show ?thesis using Cons.IH[of r] going
          by (auto split: option.splits sum.splits py_error.splits)
      qed
    qed
  qed
qed

lemma ring_rep_owner: "ring_rep (v\<lparr>rv_owner := b\<rparr>) g H = ring_rep v g H"
proof -
  have "ring_init g b = Inr (v\<lparr>rv_owner := b\<rparr>) \<longleftrightarrow> ring_init g (rv_owner v) = Inr v"
    by (cases v) (auto simp: ring_init_def split: option.splits)
  then show ?thesis unfolding ring_rep_def view_ok_def by simp
qed

lemma writer_create_Inr:
  assumes "writer_create z io run sub pid spec w = (Inr wr, w')" and "spec_ok spec"
  shows "\<exists>g. ring_rep (wr_view wr) g [] \<and> dget (rs_shm w') (wr_shm_name wr) = Some g
     \<and> publish io sub pid spec (wr_shm_name wr) (w\<lparr>rs_shm := dput (wr_shm_name wr) g (rs_shm w)\<rparr>)
        = (Inr (spec_entry spec (wr_shm_name wr) pid), w')
     \<and> io = IoOk \<and> wr_spec wr = spec \<and> int (rv_dim (wr_view wr)) = ss_dim spec"
proof -
  obtain dt where dt: "np_dtype (ss_dtype spec) = Some dt"
    using assms(2) allowed_dtype_np by (auto simp: spec_ok_def)
  have cap: "0 < nat (ss_capacity spec)" using assms(2) by (simp add: spec_ok_def)
  obtain g v where gv: "ring_create z (nat (ss_capacity spec)) (nat (ss_dim spec)) (ss_dtype spec) = Inr (g, v)"
      "ring_rep v g []" "rv_dim v = nat (ss_dim spec)"
    using ring_create_rep[OF dt cap, of z "nat (ss_dim spec)"] by blast
  show ?thesis
    using assms gv(2,3)
    by (auto simp: writer_create_def gv(1) Let_def publish_def spec_ok_def
        split: if_splits io_outcome.splits option.splits intro!: exI[of _ g])
qed

section \<open>Properties\<close>

text \<open>
  Publishing then discovering: after \<^verbatim>\<open>publish\<close> succeeds on a well-formed manifest
  directory, looking the stream up returns exactly the entry that was published, every stream
  with a different file name is found as before, and after \<^verbatim>\<open>remove\<close> it is gone again; the
  directory stays well formed throughout.
\<close>

theorem publish_discover:
  assumes ok: "dir_ok (sub_dir w sub)" and pub: "publish IoOk sub pid spec m w = (r, w')"
  shows "r = Inr (spec_entry spec m pid)
    \<and> get sub (ss_name spec) w' = Inr (Some (spec_entry spec m pid))
    \<and> (\<forall>k. sanitize k \<noteq> sanitize (ss_name spec) \<longrightarrow> get sub k w' = get sub k w)
    \<and> get sub (ss_name spec) (remove sub (ss_name spec) w') = Inr None
    \<and> dir_ok (sub_dir w' sub) \<and> dir_ok (sub_dir (remove sub (ss_name spec) w') sub)"
proof -
  let ?e = "spec_entry spec m pid"
  have w': "r = Inr ?e" "sub_dir w' sub = replace_tmp (ss_name spec) ?e (write_tmp (ss_name spec) ?e (sub_dir w sub))"
    using pub by (auto simp: publish_def Let_def)
  have ok': "dir_ok (sub_dir w' sub)" using dir_ok_publish[OF ok, of IoOk pid spec m] pub by simp
  have ok'': "dir_ok (sub_dir (remove sub (ss_name spec) w') sub)" by (rule dir_ok_remove[OF ok'])
  have "re_name ?e = JStr (ss_name spec)" by (simp add: spec_entry_def)
  then show ?thesis
    using w' ok' ok'' ok by (simp add: get_entry_of entry_of_replace entry_of_remove)
qed

theorem publish_discover_witness:
  "let w = \<lparr>rs_shm = [], rs_subs = []\<rparr> :: int run_store;
       sp = \<lparr>ss_name = ''left/q'', ss_dim = 7, ss_capacity = 16, ss_dtype = ''float64'', ss_rate_hz = None\<rparr>
   in get ''streams'' ''left/q'' (snd (publish IoOk ''streams'' 42 sp ''dfc_r_left_q'' w))
      = Inr (Some (spec_entry sp ''dfc_r_left_q'' 42))"
proof -
  let ?w = "\<lparr>rs_shm = [], rs_subs = []\<rparr> :: int run_store"
  let ?sp = "\<lparr>ss_name = ''left/q'', ss_dim = 7, ss_capacity = 16, ss_dtype = ''float64'', ss_rate_hz = None\<rparr>"
  have ok: "dir_ok (sub_dir ?w ''streams'')" by (simp add: sub_dir_def)
  show ?thesis
    using publish_discover[OF ok surjective_pairing, of 42 ?sp "''dfc_r_left_q''"] by (simp add: Let_def)
qed

text \<open>
  Publication is all or nothing: whichever file operation of \<^verbatim>\<open>publish\<close> fails, also when it
  leaves a partial temporary file behind, every lookup answers as before the call; no consumer
  ever sees a half-written entry.
\<close>

theorem publish_failure_invisible:
  assumes "dir_ok (sub_dir w sub)" and "io \<noteq> IoOk"
  shows "fst (publish io sub pid spec m w) = Inl OSError
    \<and> get sub k (snd (publish io sub pid spec m w)) = get sub k w"
proof -
  have "dir_ok (sub_dir (snd (publish io sub pid spec m w)) sub)" by (rule dir_ok_publish[OF assms(1)])
  then show ?thesis using assms
    by (auto simp: get_entry_of publish_def Let_def write_tmp_def split: io_outcome.splits option.splits)
qed

theorem publish_failure_invisible_witness:
  "get ''streams'' ''left/q'' (snd (publish (WriteFails (Some FGarbage)) ''streams'' 42
       \<lparr>ss_name = ''left/q'', ss_dim = 7, ss_capacity = 16, ss_dtype = ''float64'', ss_rate_hz = None\<rparr>
       ''dfc_r_left_q'' (\<lparr>rs_shm = [], rs_subs = []\<rparr> :: int run_store))) = Inr None"
proof -
  have ok: "dir_ok (sub_dir (\<lparr>rs_shm = [], rs_subs = []\<rparr> :: int run_store) ''streams'')"
    by (simp add: sub_dir_def)
  show ?thesis
    by (subst publish_failure_invisible[OF ok, THEN conjunct2])
      (simp_all add: get_entry_of[OF ok], simp add: sub_dir_def entry_of_def)
qed

text \<open>
  \<^verbatim>\<open>wait_for\<close> ends for a reason: if it returns, every requested stream is present with that
  entry in one and the same poll; \<^verbatim>\<open>AttachAborted\<close> means a poll saw the stop event,
  \<^verbatim>\<open>TimeoutError\<close> that a poll was past the deadline; and it never polls on past a stop request
  or past the deadline.
\<close>

theorem wait_for_outcome:
  "case wait_for sub names timeout start os of
     None \<Rightarrow> (\<forall>o1 \<in> set os. \<not> po_stop o1 \<and> po_now o1 < start + timeout)
   | Some (Inr es) \<Rightarrow> (\<exists>o1 \<in> set os. map fst es = names
        \<and> (\<forall>(n, e) \<in> set es. get sub n (po_store o1) = Inr (Some e)))
   | Some (Inl AttachAborted) \<Rightarrow> (\<exists>o1 \<in> set os. po_stop o1)
   | Some (Inl TimeoutError) \<Rightarrow> (\<exists>o1 \<in> set os. start + timeout \<le> po_now o1)
   | Some (Inl e) \<Rightarrow> (\<exists>o1 \<in> set os. discover sub (po_store o1) = Inl e)"
  unfolding wait_for_def by (rule wait_loop_cases[OF refl])

theorem wait_for_outcome_witness:
  "case wait_for ''streams'' [''left/q''] 5 1
      [\<lparr>po_store = \<lparr>rs_shm = [], rs_subs = []\<rparr> :: int run_store, po_stop = False, po_now = 2\<rparr>,
       \<lparr>po_store = \<lparr>rs_shm = [], rs_subs = []\<rparr>, po_stop = True, po_now = 3\<rparr>] of
     Some (Inl AttachAborted) \<Rightarrow> True | _ \<Rightarrow> False"
  using wait_for_outcome[where sub = "''streams''" and names = "[''left/q'']" and timeout = 5 and start = 1
      and os = "[\<lparr>po_store = \<lparr>rs_shm = [], rs_subs = []\<rparr> :: int run_store, po_stop = False, po_now = 2\<rparr>,
        \<lparr>po_store = \<lparr>rs_shm = [], rs_subs = []\<rparr>, po_stop = True, po_now = 3\<rparr>]"]
  by (simp add: wait_for_def discover_def sub_dir_def has_all_def)

text \<open>
  \<^verbatim>\<open>cleanup_sub\<close> reclaims what a killed brain left: it returns the number of segments it
  unlinked, afterwards no segment listed by a readable manifest of that category exists and no
  readable manifest is left, so nobody attaches a dead channel; every other segment and every
  other category is untouched.
\<close>

theorem cleanup_sub_reclaims:
  assumes "dget (rs_subs w) sub = Some d" and "list_all sweepable d"
  shows "\<exists>k w'. cleanup_sub sub w = Inr (k, w')
    \<and> k = card {n. Some n \<in> listed ` set d \<and> dget (rs_shm w) n \<noteq> None}
    \<and> (\<forall>n. dget (rs_shm w') n = (if Some n \<in> listed ` set d then None else dget (rs_shm w) n))
    \<and> (\<forall>pf \<in> set (sub_dir w' sub). listed pf = None)
    \<and> (\<forall>sub'. sub' \<noteq> sub \<longrightarrow> sub_dir w' sub' = sub_dir w sub')"
  using sweep_ok[OF assms(2), of 0 "rs_shm w" "[]"] assms(1)
  by (auto simp: cleanup_sub_def)

theorem cleanup_sub_reclaims_witness:
  "\<exists>k w'. cleanup_sub ''control'' (snd (publish IoOk ''control'' 42
       \<lparr>ss_name = ''cmd/left/setpoint'', ss_dim = 7, ss_capacity = 16, ss_dtype = ''float64'', ss_rate_hz = None\<rparr>
       ''dfc_r_s'' \<lparr>rs_shm = [(''dfc_r_s'', \<lparr>header = [], seqs = [], stamps = [], rows = [[0::int]]\<rparr>)],
                   rs_subs = []\<rparr>)) = Inr (k, w')
     \<and> dget (rs_shm w') ''dfc_r_s'' = None"
proof -
  let ?sp = "\<lparr>ss_name = ''cmd/left/setpoint'', ss_dim = 7, ss_capacity = 16, ss_dtype = ''float64'', ss_rate_hz = None\<rparr>"
  let ?w0 = "\<lparr>rs_shm = [(''dfc_r_s'', \<lparr>header = [], seqs = [], stamps = [], rows = [[0::int]]\<rparr>)], rs_subs = []\<rparr>"
  let ?w = "snd (publish IoOk ''control'' 42 ?sp ''dfc_r_s'' ?w0)"
  let ?d = "[(manifest_file ''cmd/left/setpoint'', FObj (to_json (spec_entry ?sp ''dfc_r_s'' 42)))]"
  have d: "dget (rs_subs ?w) ''control'' = Some ?d"
    by (simp add: publish_def Let_def set_sub_def replace_tmp_def write_tmp_def ddel_def sub_dir_def
        manifest_ne_temp[symmetric])
  have l: "listed (hd ?d) = Some ''dfc_r_s''" by (simp add: listed_def spec_entry_def)
  have sw: "list_all sweepable ?d" by (simp add: sweepable_def spec_entry_def)
  show ?thesis using cleanup_sub_reclaims[OF d sw] l by auto
qed

text \<open>
  Creating a stream leaks nothing and works end to end: when \<^verbatim>\<open>StreamWriter.create\<close> raises,
  the shared-memory namespace is as before; when it succeeds, a consumer that looks the stream
  up and attaches gets a reader of the writer's dimension, and the writer's first sample is what
  its \<^verbatim>\<open>latest\<close> returns.
\<close>

theorem stream_end_to_end:
  assumes ok: "dir_ok (sub_dir w sub)" and sp: "spec_ok spec" and len: "int (length vec) = ss_dim spec"
  shows "case writer_create z io run sub pid spec w of
      (Inl e, w') \<Rightarrow> \<forall>n. dget (rs_shm w') n = dget (rs_shm w) n
    | (Inr wr, w') \<Rightarrow> \<exists>en rdr w'' g.
        get sub (ss_name spec) w' = Inr (Some en) \<and> reader_attach en w' = Inr rdr
        \<and> writer_write wr vec (Some t) now w' = Inr (w'', 0)
        \<and> dget (rs_shm w'') (wr_shm_name wr) = Some g
        \<and> reader_latest rdr g = newest_batch (nat (ss_capacity spec)) 1 [(t, vec)]"
proof (cases "writer_create z io run sub pid spec w")
  case (Pair r w')
  show ?thesis
  proof (cases r)
    case (Inl e)
    have "\<forall>n. dget (rs_shm w') n = dget (rs_shm w) n"
      using Pair Inl
      by (auto simp: writer_create_def Let_def publish_def split: sum.splits prod.splits if_splits io_outcome.splits option.splits)
    then show ?thesis using Pair Inl by simp
  next
    case (Inr wr)
    obtain g where g: "ring_rep (wr_view wr) g []" "dget (rs_shm w') (wr_shm_name wr) = Some g"
      "publish io sub pid spec (wr_shm_name wr) (w\<lparr>rs_shm := dput (wr_shm_name wr) g (rs_shm w)\<rparr>)
        = (Inr (spec_entry spec (wr_shm_name wr) pid), w')" "io = IoOk"
      "int (rv_dim (wr_view wr)) = ss_dim spec"
      using writer_create_Inr[of z io run sub pid spec w wr w'] Pair Inr sp by auto
    let ?en = "spec_entry spec (wr_shm_name wr) pid"
    have ok': "dir_ok (sub_dir (w\<lparr>rs_shm := dput (wr_shm_name wr) g (rs_shm w)\<rparr>) sub)" using ok by simp
    have get: "get sub (ss_name spec) w' = Inr (Some ?en)"
      using g(3,4) get_entry_of[OF dir_ok_publish[OF ok', of io pid spec "wr_shm_name wr"], of "ss_name spec"]
      by (auto simp: publish_def Let_def entry_of_replace spec_entry_def)
    have view: "ring_attach g = Inr ((wr_view wr)\<lparr>rv_owner := False\<rparr>)"
      using ring_attach_view[of "wr_view wr" g] g(1) by (simp add: ring_rep_def)
    have dm: "length vec = rv_dim (wr_view wr)" using len g(5) by simp
    have cap: "rv_capacity (wr_view wr) = nat (ss_capacity spec)"
      using Pair Inr by (auto simp: writer_create_def ring_create_def ring_init_def create_header_def Let_def
          split: option.splits sum.splits prod.splits if_splits)
    obtain g' where g': "ring_append (wr_view wr) vec t g = Inr (g', 0)"
        "ring_rep (wr_view wr) g' [(t, vec)]"
      using ring_append_rep[OF g(1) dm, of t] by auto
    have "ring_rep ((wr_view wr)\<lparr>rv_owner := False\<rparr>) g' [(t, vec)]"
      using g'(2) by (simp add: ring_rep_owner)
    then have "ring_latest ((wr_view wr)\<lparr>rv_owner := False\<rparr>) g' = newest_batch (nat (ss_capacity spec)) 1 [(t, vec)]"
      using ring_last_rep[of "(wr_view wr)\<lparr>rv_owner := False\<rparr>" g' "[(t, vec)]" 1] cap
      by (simp add: ring_latest_def)
    then show ?thesis
      using Pair Inr get view g(2) g'(1)
      by (auto simp: reader_attach_def spec_entry_def writer_write_def ditem_def reader_latest_def)
  qed
qed

theorem stream_end_to_end_witness:
  "\<exists>wr w'. writer_create (0::int) IoOk ''run'' ''streams'' 42
     \<lparr>ss_name = ''left/q'', ss_dim = 1, ss_capacity = 4, ss_dtype = ''float64'', ss_rate_hz = None\<rparr>
     \<lparr>rs_shm = [], rs_subs = []\<rparr> = (Inr wr, w')
   \<and> (\<exists>en rdr w'' g. get ''streams'' ''left/q'' w' = Inr (Some en) \<and> reader_attach en w' = Inr rdr
        \<and> writer_write wr [5] (Some 9) 0 w' = Inr (w'', 0)
        \<and> dget (rs_shm w'') (wr_shm_name wr) = Some g
        \<and> reader_latest rdr g = newest_batch 4 1 [(9, [5])])"
proof -
  let ?sp = "\<lparr>ss_name = ''left/q'', ss_dim = 1, ss_capacity = 4, ss_dtype = ''float64'', ss_rate_hz = None\<rparr>"
  let ?w = "\<lparr>rs_shm = [], rs_subs = []\<rparr> :: int run_store"
  have ok: "dir_ok (sub_dir ?w ''streams'')" "spec_ok ?sp" "int (length [5::int]) = ss_dim ?sp"
    by (simp_all add: sub_dir_def spec_ok_def ALLOWED_DTYPES_def)
  obtain g :: "int segment" and v where gv: "ring_create 0 4 1 ''float64'' = Inr (g, v)"
    using ring_create_rep[of "''float64''" Float64 4 0 1] by auto
  obtain wr w' where c: "writer_create (0::int) IoOk ''run'' ''streams'' 42 ?sp ?w = (Inr wr, w')"
    using gv by (simp add: writer_create_def Let_def publish_def)
  then show ?thesis using stream_end_to_end[OF ok, where z = 0 and io = IoOk and run = "''run''" and pid = 42 and t = 9 and now = 0] by auto
qed

end
