(* ===== verification/Control_Channel.thy ===== *)
theory Control_Channel
  imports Registry
begin

text \<open>
  The brain-to-arm control channels: the discrete command encoding (\<^verbatim>\<open>control/message.py\<close>), the
  setpoint vector layout, the per-kind action space, the chunk trajectory estimate, the channel
  specifications and the reliable command cursor (\<^verbatim>\<open>control/channel.py\<close>).

  Field dimensions are \<open>nat\<close> (the configuration holds non-negative integers). The cursor works on
  the batches that \<open>ring_last\<close> returns; that it delivers every command once and in order is
  proved for every \<open>sample_log\<close> and used here for the ring.
\<close>

section \<open>Discrete commands\<close>

datatype command_kind = NONE | HOME | STOP | SWITCH_MODE | SERVO_ON

fun kind_code :: "command_kind \<Rightarrow> int" where
  "kind_code NONE = 0"
| "kind_code HOME = 1"
| "kind_code STOP = 2"
| "kind_code SWITCH_MODE = 3"
| "kind_code SERVO_ON = 4"

definition kind_of :: "int \<Rightarrow> command_kind res" where
  "kind_of c =
     (if c = 0 then Inr NONE else if c = 1 then Inr HOME else if c = 2 then Inr STOP
      else if c = 3 then Inr SWITCH_MODE else if c = 4 then Inr SERVO_ON else Inl ValueError)"

record control_command =
  cmd_kind :: command_kind
  cmd_args :: "real list"

abbreviation (input) CMD_KIND_IDX :: nat where "CMD_KIND_IDX \<equiv> 0"
abbreviation (input) CMD_ARG0_IDX :: nat where "CMD_ARG0_IDX \<equiv> 1"

definition encode :: "control_command \<Rightarrow> nat \<Rightarrow> real list res" where
  "encode c dm =
     (if CMD_ARG0_IDX + length (cmd_args c) > dm then Inl ValueError
      else let v = (replicate dm 0)[CMD_KIND_IDX := real_of_int (kind_code (cmd_kind c))]
        in Inr (if cmd_args c \<noteq> [] then put_slice CMD_ARG0_IDX (cmd_args c) v else v))"

text \<open>Python's \<open>round\<close>: to the nearest integer, ties to the even one.\<close>

definition py_round :: "real \<Rightarrow> int" where
  "py_round x = (let f = \<lfloor>x\<rfloor>; d = x - of_int f in
     if d < 1/2 then f else if d > 1/2 then f + 1 else if even f then f else f + 1)"

definition decode :: "real list \<Rightarrow> control_command res" where
  "decode vec =
     (if length vec \<le> CMD_KIND_IDX then Inl IndexError
      else rbind (kind_of (py_round (vec ! CMD_KIND_IDX))) (\<lambda>k.
        Inr \<lparr>cmd_kind = k, cmd_args = drop CMD_ARG0_IDX vec\<rparr>))"

lemma py_round_of_int [simp]: "py_round (of_int n) = n"
  by (simp add: py_round_def)

lemma kind_of_code [simp]: "kind_of (kind_code k) = Inr k"
  by (cases k) (simp_all add: kind_of_def)

section \<open>Channel names and configuration\<close>

definition SETPOINT :: string where "SETPOINT = ''setpoint''"
definition COMMAND :: string where "COMMAND = ''command''"
definition GRIPPER :: string where "GRIPPER = ''gripper''"

definition control_channel_name :: "string \<Rightarrow> string \<Rightarrow> string" where
  "control_channel_name side leaf = ''cmd/'' @ side @ ''/'' @ leaf"

definition gripper_channel_name :: "string \<Rightarrow> string" where
  "gripper_channel_name side = control_channel_name side GRIPPER"

record channel_cfg =
  cc_setpoint_capacity :: int
  cc_command_capacity :: int
  cc_command_dim :: int
  cc_dtype :: string
  cc_rate_hz :: real
  cc_deadman_ms :: real
  cc_deadman_hard_ms :: real

text \<open>\<^verbatim>\<open>ControlChannelCfg.__post_init__\<close>.\<close>

definition check_channel_cfg :: "channel_cfg \<Rightarrow> channel_cfg res" where
  "check_channel_cfg ch =
     (if \<not> cc_deadman_ms ch > 0 then Inl ValueError
      else if \<not> cc_deadman_ms ch < cc_deadman_hard_ms ch then Inl ValueError
      else Inr ch)"

record joint_impedance_cfg =
  ji_K_q :: "real list"
  ji_Z_q :: "real list"
  ji_K_q_fraction :: "real option"

record cartesian_impedance_cfg =
  ci_K_x :: "real list"
  ci_Z_x :: "real list"

record force_frame_cfg =
  ff_root_coord :: string
  ff_T_in_root :: "real list"

record control_cfg =
  ct_kind :: string
  ct_mode :: string
  ct_command :: "(string, nat) dict"
  ct_streamed :: "string list"
  ct_channel :: channel_cfg
  ct_joint_impedance :: "joint_impedance_cfg option"
  ct_cartesian_impedance :: "cartesian_impedance_cfg option"
  ct_force_axes :: "bool list option"
  ct_force_frame :: "force_frame_cfg option"
  ct_force_max_vel :: "real list option"

definition gripper_spec :: "string \<Rightarrow> channel_cfg \<Rightarrow> stream_spec res" where
  "gripper_spec side ch =
     mk_stream_spec (gripper_channel_name side) 1 (cc_setpoint_capacity ch) (cc_dtype ch) (Some (cc_rate_hz ch))"

section \<open>The setpoint vector\<close>

definition setpoint_dim :: "control_cfg \<Rightarrow> nat res" where
  "setpoint_dim cfg = rbind (mapR (ditem (ct_command cfg)) (ct_streamed cfg)) (\<lambda>ds. Inr (sum_list ds))"

fun layout_loop :: "(string, nat) dict \<Rightarrow> nat \<Rightarrow> string list \<Rightarrow> (string \<times> nat \<times> nat) list res" where
  "layout_loop command off [] = Inr []"
| "layout_loop command off (f # fs) =
     rbind (ditem command f) (\<lambda>d.
     rbind (layout_loop command (off + d) fs) (\<lambda>out. Inr ((f, off, off + d) # out)))"

definition streamed_layout :: "control_cfg \<Rightarrow> (string \<times> nat \<times> nat) list res" where
  "streamed_layout cfg = layout_loop (ct_command cfg) 0 (ct_streamed cfg)"

definition pack_streamed :: "control_cfg \<Rightarrow> (string, real list) dict \<Rightarrow> real list res" where
  "pack_streamed cfg flds = rbind (mapR (ditem flds) (ct_streamed cfg)) (\<lambda>parts. Inr (concat parts))"

definition slice_streamed :: "control_cfg \<Rightarrow> real list \<Rightarrow> (string, real list) dict res" where
  "slice_streamed cfg vec =
     rbind (streamed_layout cfg) (\<lambda>l. Inr (foldl (\<lambda>d (f, s, e). dput f (slice s e vec) d) [] l))"

section \<open>The action space of a control kind\<close>

definition ACTION_PRIMARY :: "(string, string) dict" where
  "ACTION_PRIMARY =
     [(''qpos'', ''q_d''), (''qvel'', ''dq_d''), (''end_effector'', ''pose_d''),
      (''eef_vel'', ''twist_d''), (''force'', ''wrench_d'')]"

definition ABSOLUTE_FIELDS :: "string list" where
  "ABSOLUTE_FIELDS = [''q_d'', ''pose_d'']"

definition action_field :: "control_cfg \<Rightarrow> string res" where
  "action_field cfg =
     (case dget ACTION_PRIMARY (ct_kind cfg) of None \<Rightarrow> Inl ValueError | Some f \<Rightarrow> Inr f)"

definition action_dim :: "control_cfg \<Rightarrow> nat res" where
  "action_dim cfg = rbind (action_field cfg) (ditem (ct_command cfg))"

definition action_hold_fields :: "control_cfg \<Rightarrow> string list res" where
  "action_hold_fields cfg = rbind (action_field cfg) (\<lambda>primary.
     Inr (filter (\<lambda>f. f \<noteq> primary \<and> f \<in> set ABSOLUTE_FIELDS) (ct_streamed cfg)))"

text \<open>The value \<open>pack_action\<close> gives to one streamed field.\<close>

definition action_value ::
    "control_cfg \<Rightarrow> string \<Rightarrow> real list \<Rightarrow> (string, real list) dict \<Rightarrow> string \<Rightarrow> real list res" where
  "action_value cfg primary primary_value held f =
     (if f = primary then Inr primary_value
      else if f \<in> set ABSOLUTE_FIELDS
      then (case dget held f of None \<Rightarrow> Inl ValueError | Some v \<Rightarrow> Inr v)
      else rbind (ditem (ct_command cfg) f) (\<lambda>d. Inr (replicate d 0)))"

definition pack_action ::
    "control_cfg \<Rightarrow> real list \<Rightarrow> (string, real list) dict option \<Rightarrow> real list res" where
  "pack_action cfg primary_value held_opt =
     rbind (action_field cfg) (\<lambda>primary.
     let held = (case held_opt of None \<Rightarrow> [] | Some h \<Rightarrow> h) in
     rbind (foldR (\<lambda>f flds. rbind (action_value cfg primary primary_value held f) (\<lambda>v. Inr (dput f v flds)))
              (ct_streamed cfg) [])
       (pack_streamed cfg))"

section \<open>Chunk trajectory estimate\<close>

definition HORIZON_KIND :: "(string, string) dict" where
  "HORIZON_KIND = [(''qpos'', ''q''), (''qvel'', ''q''), (''end_effector'', ''eef''), (''eef_vel'', ''eef'')]"

definition HORIZON_BASE :: "(string, string) dict" where
  "HORIZON_BASE = [(''qvel'', ''q''), (''eef_vel'', ''eef'')]"

definition horizon_kind :: "control_cfg \<Rightarrow> string option" where
  "horizon_kind cfg = dget HORIZON_KIND (ct_kind cfg)"

definition horizon_signals :: "control_cfg \<Rightarrow> string list" where
  "horizon_signals cfg = (case dget HORIZON_BASE (ct_kind cfg) of None \<Rightarrow> [] | Some s \<Rightarrow> [s])"

text \<open>
  A numpy array of one or two dimensions (the rows of a two-dimensional one have equal length),
  element-wise addition of two vectors with numpy's broadcasting, and running sums of rows.
\<close>

datatype ndarray = A1 "real list" | A2 "real list list" | ANd

definition np_add :: "real list \<Rightarrow> real list \<Rightarrow> real list res" where
  "np_add a b =
     (if length a = length b then Inr (map2 (+) a b)
      else if length a = 1 then Inr (map (\<lambda>y. hd a + y) b)
      else if length b = 1 then Inr (map (\<lambda>x. x + hd b) a)
      else Inl ValueError)"

fun cumsum_from :: "real list \<Rightarrow> real list list \<Rightarrow> real list list" where
  "cumsum_from acc [] = []"
| "cumsum_from acc (r # rs) = map2 (+) acc r # cumsum_from (map2 (+) acc r) rs"

definition cumsum :: "real list list \<Rightarrow> real list list" where
  "cumsum rs = (case rs of [] \<Rightarrow> [] | r # rs' \<Rightarrow> r # cumsum_from r rs')"

definition integrate :: "real list \<Rightarrow> real \<Rightarrow> real list list \<Rightarrow> real list list res" where
  "integrate base dt chunk = mapR (\<lambda>r. np_add base (map (\<lambda>x. x * dt) r)) (cumsum chunk)"

definition estimate_chunk_trajectory ::
    "control_cfg \<Rightarrow> ndarray \<Rightarrow> real \<Rightarrow> (string, real list) dict option
     \<Rightarrow> (string \<times> real list list) option res" where
  "estimate_chunk_trajectory cfg primary_chunk dt measured_opt =
     (case horizon_kind cfg of
        None \<Rightarrow> Inr None
      | Some k \<Rightarrow>
         (let chunk = (case primary_chunk of A1 r \<Rightarrow> [r] | A2 rs \<Rightarrow> rs | ANd \<Rightarrow> []);
              measured = (case measured_opt of None \<Rightarrow> [] | Some m \<Rightarrow> m)
          in if chunk = [] then Inl ValueError
          else if ct_kind cfg = ''qpos'' then Inr (Some (''q'', chunk))
          else if ct_kind cfg = ''qvel'' then
            (case dget measured ''q'' of
               None \<Rightarrow> Inr None
             | Some q0 \<Rightarrow> rbind (integrate q0 dt chunk) (\<lambda>p. Inr (Some (''q'', p))))
          else if ct_kind cfg = ''end_effector'' then Inr (Some (''eef'', map (take 3) chunk))
          else (case dget measured ''eef'' of
               None \<Rightarrow> Inr None
             | Some pose \<Rightarrow>
                 rbind (integrate (take 3 pose) dt (map (take 3) chunk)) (\<lambda>p. Inr (Some (''eef'', p))))))"

definition estimate_chunk_end ::
    "control_cfg \<Rightarrow> ndarray \<Rightarrow> real \<Rightarrow> (string, real list) dict option
     \<Rightarrow> (string \<times> real list) option res" where
  "estimate_chunk_end cfg primary_chunk dt measured_opt =
     rbind (estimate_chunk_trajectory cfg primary_chunk dt measured_opt) (\<lambda>e.
       case e of None \<Rightarrow> Inr None
       | Some (k, path) \<Rightarrow> if path = [] then Inl IndexError else Inr (Some (k, last path)))"

section \<open>Channel specifications\<close>

definition control_specs :: "string \<Rightarrow> control_cfg \<Rightarrow> (string, stream_spec) dict res" where
  "control_specs side cfg =
     (let ch = ct_channel cfg in
      rbind (setpoint_dim cfg) (\<lambda>sd.
      rbind (mk_stream_spec (control_channel_name side SETPOINT) (int sd) (cc_setpoint_capacity ch)
               (cc_dtype ch) (Some (cc_rate_hz ch))) (\<lambda>s.
      rbind (mk_stream_spec (control_channel_name side COMMAND) (cc_command_dim ch) (cc_command_capacity ch)
               (cc_dtype ch) (Some (cc_rate_hz ch))) (\<lambda>c.
      Inr [(SETPOINT, s), (COMMAND, c)]))))"

section \<open>The command cursor\<close>

text \<open>
  The cursor state is \<^verbatim>\<open>_last_seq\<close>. \<open>drain_new\<close> returns the number of lost commands it logs
  (if any), the new rows and the new state.
\<close>

definition cursor_init :: "'v samples \<Rightarrow> int" where
  "cursor_init hd_batch = (if sm_n hd_batch \<noteq> 0 then last (sm_seq hd_batch) else -1)"

definition drain_new :: "'v samples \<Rightarrow> int \<Rightarrow> int option \<times> 'v list list \<times> int" where
  "drain_new batch last_seq =
     (if sm_n batch = 0 then (None, [], last_seq)
      else let first = hd (sm_seq batch); la = last (sm_seq batch);
               lost = (if last_seq \<ge> 0 \<and> first > last_seq + 1 then Some (first - last_seq - 1) else None);
               rows = map (\<lambda>i. sm_data batch ! i) (filter (\<lambda>i. sm_seq batch ! i > last_seq) [0..<sm_n batch])
        in (lost, rows, la))"

section \<open>Layout lemmas\<close>

lemma put_slice_one: "put_slice (Suc 0) vs (x # xs) = x # vs @ drop (length vs) xs"
  by (simp add: put_slice_def)

lemma encode_shape:
  assumes "encode c dm = Inr v"
  shows "v = real_of_int (kind_code (cmd_kind c)) # cmd_args c @ replicate (dm - 1 - length (cmd_args c)) 0"
proof -
  have fit: "1 + length (cmd_args c) \<le> dm" using assms by (auto simp: encode_def split: if_splits)
  then obtain k where dm: "dm = Suc k" by (cases dm) auto
  show ?thesis using assms fit
    by (auto simp: encode_def Let_def dm put_slice_one split: if_splits)
qed

lemma layout_loop_widths:
  "layout_loop command off fs = Inr l \<Longrightarrow>
     \<exists>ds. mapR (ditem command) fs = Inr ds \<and> map fst l = fs \<and> length ds = length fs
       \<and> (\<forall>i < length fs. snd (l ! i) = (off + sum_list (take i ds), off + sum_list (take (Suc i) ds)))"
proof (induction command off fs arbitrary: l rule: layout_loop.induct)
  case (2 command off f fs)
  then obtain d out where d: "ditem command f = Inr d" "layout_loop command (off + d) fs = Inr out"
    "l = (f, off, off + d) # out" by auto
  obtain ds where ds: "mapR (ditem command) fs = Inr ds" "map fst out = fs" "length ds = length fs"
    "\<forall>i < length fs. snd (out ! i) = (off + d + sum_list (take i ds), off + d + sum_list (take (Suc i) ds))"
    using 2(1)[OF d(2)] by blast
  have "snd (l ! i) = (off + sum_list (take i (d # ds)), off + sum_list (take (Suc i) (d # ds)))"
    if "i < length (f # fs)" for i
  proof (cases i)
    case (Suc j)
    then show ?thesis using that ds(4) d(3) by (auto simp: add.assoc)
  qed (simp add: d(3))
  then show ?case using d ds by (intro exI[of _ "d # ds"]) auto
qed simp

lemma layout_loop_total: "mapR (ditem command) fs = Inr ds \<Longrightarrow> \<exists>l. layout_loop command off fs = Inr l"
  by (induction fs arbitrary: off ds) fastforce+

text \<open>A slice of a concatenation is the block at that place.\<close>

lemma slice_concat:
  assumes "i < length parts"
  shows "slice (sum_list (take i (map length parts))) (sum_list (take (Suc i) (map length parts))) (concat parts)
     = parts ! i"
proof -
  have l: "length (concat (take j parts)) = sum_list (take j (map length parts))" for j
    by (simp add: length_concat take_map)
  have e: "sum_list (take (Suc i) (map length parts)) = sum_list (take i (map length parts)) + length (parts ! i)"
    using assms by (simp add: take_Suc_conv_app_nth)
  have c: "concat parts = concat (take i parts) @ parts ! i @ concat (drop (Suc i) parts)"
    using id_take_nth_drop[OF assms] by (metis concat.simps(2) concat_append)
  show ?thesis unfolding c e by (rule slice_middle) (simp_all add: l)
qed

lemma foldl_dput_get:
  assumes "distinct (map fst l)"
  shows "dget (foldl (\<lambda>d (f, s, e). dput f (g s e) d) d0 l) k =
     (case dget l k of None \<Rightarrow> dget d0 k | Some (s, e) \<Rightarrow> Some (g s e))"
  using assms
proof (induction l arbitrary: d0)
  case (Cons p l)
  obtain f s e where p: "p = (f, s, e)" by (cases p) auto
  have "dget l f = None" using Cons.prems by (simp add: p dget_None_keys)
  then show ?case using Cons by (auto simp: p split: option.splits)
qed simp

lemma map_of_nth:
  "distinct (map fst l) \<Longrightarrow> i < length l \<Longrightarrow> dget l (fst (l ! i)) = Some (snd (l ! i))"
  by (rule map_of_is_SomeI) simp_all

text \<open>Slicing a packed setpoint vector recovers each field.\<close>

lemma slice_pack_streamed:
  assumes dist: "distinct (ct_streamed cfg)"
    and parts: "mapR (ditem flds) (ct_streamed cfg) = Inr parts"
    and dims: "mapR (ditem (ct_command cfg)) (ct_streamed cfg) = Inr (map length parts)"
  shows "\<exists>v out. pack_streamed cfg flds = Inr v \<and> setpoint_dim cfg = Inr (length v)
    \<and> slice_streamed cfg v = Inr out \<and> (\<forall>f \<in> set (ct_streamed cfg). dget out f = dget flds f)"
proof -
  let ?fs = "ct_streamed cfg"
  obtain l where l: "streamed_layout cfg = Inr l"
    using layout_loop_total[OF dims] by (auto simp: streamed_layout_def)
  obtain ds where ds: "mapR (ditem (ct_command cfg)) ?fs = Inr ds" "map fst l = ?fs" "length ds = length ?fs"
    "\<forall>i < length ?fs. snd (l ! i) = (0 + sum_list (take i ds), 0 + sum_list (take (Suc i) ds))"
    using layout_loop_widths[OF l[unfolded streamed_layout_def]] by blast
  have eq: "ds = map length parts" using ds(1) dims by simp
  have lw: "map fst l = ?fs" "length parts = length ?fs"
    using ds(2,3) unfolding eq by simp_all
  have off: "snd (l ! i) = (sum_list (take i (map length parts)), sum_list (take (Suc i) (map length parts)))"
    if "i < length ?fs" for i
    using ds(4)[rule_format, OF that] by (simp only: eq add_0)
  let ?v = "concat parts"
  let ?out = "foldl (\<lambda>d (f, s, e). dput f (slice s e ?v) d) [] l"
  have "dget ?out f = dget flds f" if mem: "f \<in> set ?fs" for f
  proof -
    obtain i where i: "i < length ?fs" "f = ?fs ! i" using mem by (metis in_set_conv_nth)
    have li: "i < length l" "fst (l ! i) = f"
      using i lw(1) by (metis length_map, metis length_map nth_map)
    have "dget l f = Some (snd (l ! i))" using map_of_nth[of l i] li dist lw(1) by simp
    then have "dget ?out f = Some (slice (fst (snd (l ! i))) (snd (snd (l ! i))) ?v)"
      using foldl_dput_get[of l "\<lambda>s e. slice s e ?v" "[]" f] dist lw(1) by (simp split: prod.splits)
    also have "\<dots> = Some (parts ! i)" using lw(2) i slice_concat[of i parts] off[OF i(1)] by simp
    also have "\<dots> = dget flds f" using mapR_nth[OF parts i(1)] i(2) by (simp add: ditem_Inr)
    finally show ?thesis .
  qed
  then show ?thesis using l parts dims
    by (auto simp: pack_streamed_def setpoint_dim_def slice_streamed_def length_concat)
qed

text \<open>Packing an action: what each streamed field of the vector holds.\<close>

lemma foldR_dput:
  assumes "foldR (\<lambda>f d. rbind (val f) (\<lambda>v. Inr (dput f v d))) fs d0 = Inr d"
  shows "\<exists>vs. mapR val fs = Inr vs
    \<and> (\<forall>k. dget d k = (if k \<in> set fs then (case val k of Inr v \<Rightarrow> Some v | Inl e \<Rightarrow> None) else dget d0 k))"
  using assms
proof (induction fs arbitrary: d0)
  case (Cons f fs)
  then obtain v where v: "val f = Inr v"
    and rest: "foldR (\<lambda>f d. rbind (val f) (\<lambda>v. Inr (dput f v d))) fs (dput f v d0) = Inr d" by auto
  then show ?case using Cons.IH[OF rest] by auto
qed simp

lemma foldR_dput_ok:
  "mapR val fs = Inr vs \<Longrightarrow> \<exists>d. foldR (\<lambda>f d. rbind (val f) (\<lambda>v. Inr (dput f v d))) fs d0 = Inr d"
  by (induction fs arbitrary: d0 vs) auto

lemma mapR_cong_Inr:
  "(\<And>x. x \<in> set xs \<Longrightarrow> f x = g x) \<Longrightarrow> mapR f xs = mapR g xs"
  by (induction xs) auto

lemma pack_action_slices:
  assumes fld: "action_field cfg = Inr primary" and dist: "distinct (ct_streamed cfg)"
    and dims: "mapR (ditem (ct_command cfg)) (ct_streamed cfg) = Inr ds"
    and ok: "\<And>f d. f \<in> set (ct_streamed cfg) \<Longrightarrow> ditem (ct_command cfg) f = Inr d \<Longrightarrow>
       \<exists>x. action_value cfg primary value (case held of None \<Rightarrow> [] | Some h \<Rightarrow> h) f = Inr x \<and> length x = d"
  shows "\<exists>v out. pack_action cfg value held = Inr v \<and> setpoint_dim cfg = Inr (length v)
    \<and> slice_streamed cfg v = Inr out
    \<and> (\<forall>f \<in> set (ct_streamed cfg). \<exists>x. dget out f = Some x
         \<and> action_value cfg primary value (case held of None \<Rightarrow> [] | Some h \<Rightarrow> h) f = Inr x)"
proof -
  let ?fs = "ct_streamed cfg"
  let ?val = "action_value cfg primary value (case held of None \<Rightarrow> [] | Some h \<Rightarrow> h)"
  have dims': "\<exists>d. ditem (ct_command cfg) f = Inr d" if "f \<in> set ?fs" for f
    using that mapR_nth[OF dims] by (metis in_set_conv_nth)
  define x where "x = (\<lambda>f. projr (?val f))"
  have x: "?val f = Inr (x f)" if "f \<in> set ?fs" for f
    using ok[OF that] dims'[OF that] by (auto simp: x_def)
  have xl: "ditem (ct_command cfg) f = Inr (length (x f))" if "f \<in> set ?fs" for f
    using ok[OF that] dims'[OF that] x[OF that] by auto
  have vals: "mapR ?val ?fs = Inr (map x ?fs)" using x by (rule mapR_Inr_map)
  obtain d where d: "foldR (\<lambda>f d. rbind (?val f) (\<lambda>v. Inr (dput f v d))) ?fs [] = Inr d"
    using foldR_dput_ok[OF vals] by blast
  have dx: "dget d f = Some (x f)" if "f \<in> set ?fs" for f
    using foldR_dput[OF d] that x[OF that] by auto
  have parts: "mapR (ditem d) ?fs = Inr (map x ?fs)"
    using dx by (intro mapR_Inr_map) (simp add: ditem_def)
  have "mapR (ditem (ct_command cfg)) ?fs = Inr (map length (map x ?fs))"
    using xl mapR_Inr_map[of ?fs "ditem (ct_command cfg)" "\<lambda>f. length (x f)"] by (simp add: o_def)
  from slice_pack_streamed[OF dist parts this] d fld x dx show ?thesis
    by (auto simp: pack_action_def Let_def)
qed

section \<open>Integrating a velocity chunk\<close>

lemma cumsum_from_length [simp]: "length (cumsum_from acc rs) = length rs"
  by (induction rs arbitrary: acc) auto

lemma cumsum_length [simp]: "length (cumsum rs) = length rs"
  by (cases rs) (auto simp: cumsum_def)

lemma cumsum_from_nth:
  assumes "\<forall>r \<in> set rs. length r = n" "length acc = n" "i < length rs" "j < n"
  shows "cumsum_from acc rs ! i ! j = acc ! j + (\<Sum>k \<le> i. rs ! k ! j) \<and> length (cumsum_from acc rs ! i) = n"
  using assms
proof (induction rs arbitrary: acc i)
  case (Cons r rs)
  then have len: "length (map2 (+) acc r) = n" by simp
  show ?case
  proof (cases i)
    case 0
    then show ?thesis using Cons.prems len by simp
  next
    case (Suc m)
    then have "cumsum_from (map2 (+) acc r) rs ! m ! j = map2 (+) acc r ! j + (\<Sum>k \<le> m. rs ! k ! j)
      \<and> length (cumsum_from (map2 (+) acc r) rs ! m) = n"
      using Cons.IH[of "map2 (+) acc r" m] Cons.prems len by auto
    then show ?thesis using Suc Cons.prems by (simp add: sum.atMost_Suc_shift del: sum.atMost_Suc)
  qed
qed simp

lemma cumsum_nth:
  assumes "\<forall>r \<in> set rs. length r = n" "i < length rs" "j < n"
  shows "cumsum rs ! i ! j = (\<Sum>k \<le> i. rs ! k ! j) \<and> length (cumsum rs ! i) = n"
proof (cases rs)
  case (Cons r rs')
  show ?thesis
  proof (cases i)
    case 0
    then show ?thesis using assms Cons by (simp add: cumsum_def)
  next
    case (Suc m)
    then show ?thesis using assms Cons cumsum_from_nth[of rs' n r m j]
      by (simp add: cumsum_def sum.atMost_Suc_shift del: sum.atMost_Suc)
  qed
qed (use assms in simp)

lemma integrate_nth:
  assumes "\<forall>r \<in> set chunk. length r = length base" "integrate base dt chunk = Inr path"
  shows "length path = length chunk"
    and "i < length chunk \<Longrightarrow> j < length base \<Longrightarrow> path ! i ! j = base ! j + (\<Sum>k \<le> i. chunk ! k ! j) * dt"
proof -
  show "length path = length chunk"
    using mapR_length[OF assms(2)[unfolded integrate_def]] by simp
  assume i: "i < length chunk" and j: "j < length base"
  note c = cumsum_nth[OF assms(1) i j]
  have "np_add base (map (\<lambda>x. x * dt) (cumsum chunk ! i)) = Inr (path ! i)"
    using mapR_nth[OF assms(2)[unfolded integrate_def], of i] i by simp
  then have "path ! i = map2 (+) base (map (\<lambda>x. x * dt) (cumsum chunk ! i))"
    using c by (simp add: np_add_def)
  then show "path ! i ! j = base ! j + (\<Sum>k \<le> i. chunk ! k ! j) * dt"
    using c j by simp
qed

lemma integrate_ok:
  assumes "\<forall>r \<in> set chunk. length r = length base" "base \<noteq> []"
  shows "\<exists>path. integrate base dt chunk = Inr path"
proof -
  have "length (cumsum chunk ! i) = length base" if "i < length chunk" for i
    using cumsum_nth[OF assms(1) that, of 0] assms(2) by auto
  then have "\<forall>r \<in> set (cumsum chunk). length r = length base"
    by (metis cumsum_length in_set_conv_nth)
  then have "mapR (\<lambda>r. np_add base (map (\<lambda>x. x * dt) r)) (cumsum chunk)
      = Inr (map (\<lambda>r. map2 (+) base (map (\<lambda>x. x * dt) r)) (cumsum chunk))"
    by (intro mapR_Inr_map) (simp add: np_add_def)
  then show ?thesis by (simp add: integrate_def)
qed

section \<open>The cursor over any sample log\<close>

lemma filter_drop_indexed:
  "filter (\<lambda>p. int n - 1 < fst p) (drop m (indexed L)) = drop (max m n) (indexed L)"
proof -
  have "filter (\<lambda>i. n \<le> i) [m..<k] = [max m n..<k]" for k
    by (induction k) (auto simp: max_def)
  moreover have "filter (\<lambda>p. int n - 1 < fst p) (drop m (indexed L))
      = map (\<lambda>i. (int i, L ! i)) (filter (\<lambda>i. n \<le> i) [m..<length L])"
    unfolding drop_indexed filter_map by (rule arg_cong[of _ _ "map _"], rule filter_cong) auto
  ultimately show ?thesis by (simp add: drop_indexed)
qed

context sample_log
begin

definition fresh :: "int \<Rightarrow> 's \<Rightarrow> 'x list" where
  "fresh c s = map (\<lambda>p. snd (snd p)) (filter (\<lambda>p. c < fst p) (batch (depth s) s))"

definition head_seq :: "int \<Rightarrow> 's \<Rightarrow> int" where
  "head_seq c s = (if batch (depth s) s = [] then c else fst (last (batch (depth s) s)))"

lemma fresh_rep:
  assumes "rep s L"
  shows "fresh (int n - 1) s = map snd (drop (max (length L - depth s) n) L)"
proof -
  have "fresh (int n - 1) s = map snd (map snd (drop (max (length L - depth s) n) (indexed L)))"
    unfolding fresh_def whole_window[OF assms] filter_drop_indexed by simp
  then show ?thesis by (simp add: snd_drop_indexed)
qed

lemma fresh_all:
  assumes "rep s (H @ K)" "length K \<le> depth s"
  shows "fresh (int (length H) - 1) s = map snd K"
proof -
  have "max (length (H @ K) - depth s) (length H) = length H" using assms(2) by simp
  then show ?thesis using fresh_rep[OF assms(1), of "length H"] by simp
qed

lemma head_rep:
  assumes "rep s L" "int (length H) - 1 = c" "L = H @ K"
  shows "head_seq c s = int (length L) - 1"
proof (cases "L = []")
  case True
  then show ?thesis using assms whole_window[OF assms(1)] by (auto simp: head_seq_def indexed_def)
next
  case False
  have "length L - depth s < length L" using False depth_pos[OF assms(1)] by simp
  then show ?thesis using whole_window[OF assms(1)] False
    by (simp add: head_seq_def last_conv_nth)
qed

end

subsection \<open>Draining a ring\<close>

definition batch_ok :: "'v samples \<Rightarrow> bool" where
  "batch_ok s \<longleftrightarrow> length (sm_t_ns s) = length (sm_data s) \<and> length (sm_seq s) = length (sm_data s)"

lemma batch_ok_newest [simp]: "batch_ok (newest_batch cap k H)"
  by (simp add: batch_ok_def newest_batch_def Let_def)

lemma sample_list_map:
  "batch_ok s \<Longrightarrow> sample_list s = map (\<lambda>i. (sm_seq s ! i, sm_t_ns s ! i, sm_data s ! i)) [0..<sm_n s]"
  by (auto simp: sample_list_def batch_ok_def sm_n_def intro!: nth_equalityI)

lemma drain_new_rows:
  assumes "batch_ok s"
  shows "fst (snd (drain_new s c)) = map (\<lambda>p. snd (snd p)) (filter (\<lambda>p. c < fst p) (sample_list s))"
  unfolding sample_list_map[OF assms] filter_map
  by (simp add: drain_new_def Let_def o_def)

lemma drain_new_head:
  assumes "batch_ok s"
  shows "snd (snd (drain_new s c)) = (if sample_list s = [] then c else fst (last (sample_list s)))"
proof (cases "sm_n s = 0")
  case True
  then show ?thesis using sample_list_map[OF assms] by (simp add: drain_new_def)
next
  case False
  then have "sm_seq s \<noteq> []" "length (sm_seq s) = sm_n s" using assms by (auto simp: batch_ok_def sm_n_def)
  then show ?thesis using False sample_list_map[OF assms]
    by (simp add: drain_new_def Let_def last_map last_conv_nth)
qed

definition drain_ring :: "ring_view \<Rightarrow> 'v segment \<Rightarrow> int \<Rightarrow> int option \<times> 'v list list \<times> int" where
  "drain_ring v g c = drain_new (ring_last v (int (rv_capacity v)) g) c"

lemma drain_ring_log:
  assumes "ring_rep v g L"
  shows "fst (snd (drain_ring v g c)) = ring_log.fresh c (v, g)"
    and "snd (snd (drain_ring v g c)) = ring_log.head_seq c (v, g)"
proof -
  have b: "log_batch (log_depth (v, g)) (v, g) = sample_list (ring_last v (int (rv_capacity v)) g)"
    by (simp add: log_batch_def log_depth_def)
  have ok: "batch_ok (ring_last v (int (rv_capacity v)) g)" by (simp add: ring_last_rep[OF assms])
  show "fst (snd (drain_ring v g c)) = ring_log.fresh c (v, g)"
    unfolding ring_log.fresh_def b drain_ring_def by (rule drain_new_rows[OF ok])
  show "snd (snd (drain_ring v g c)) = ring_log.head_seq c (v, g)"
    unfolding ring_log.head_seq_def b drain_ring_def by (rule drain_new_head[OF ok])
qed

text \<open>What a drain of a ring with history \<open>H @ K\<close> returns when the cursor stands at the end of \<open>H\<close>.\<close>

lemma drain_ring_rep:
  assumes "ring_rep v g (H @ K)"
  shows "drain_ring v g (int (length H) - 1) =
     (if H \<noteq> [] \<and> rv_capacity v < length K then Some (int (length K) - int (rv_capacity v)) else None,
      map snd (drop (length K - rv_capacity v) K), int (length (H @ K)) - 1)"
proof -
  let ?c = "int (length H) - 1"
  have rep: "log_rep (v, g) (H @ K)" using assms by (simp add: log_rep_def)
  have dm: "max (length (H @ K) - rv_capacity v) (length H) = length H + (length K - rv_capacity v)" by simp
  have rows: "fst (snd (drain_ring v g ?c)) = map snd (drop (length K - rv_capacity v) K)"
    unfolding drain_ring_log(1)[OF assms] ring_log.fresh_rep[OF rep] log_depth_def fst_conv dm by simp
  have la: "snd (snd (drain_ring v g ?c)) = int (length (H @ K)) - 1"
    unfolding drain_ring_log(2)[OF assms] by (rule ring_log.head_rep[OF rep refl refl])
  have cap: "0 < rv_capacity v" using assms by (simp add: ring_rep_def view_ok_def)
  let ?n = "min (rv_capacity v) (length (H @ K))"
  have seqs: "sm_seq (ring_last v (int (rv_capacity v)) g) = map int [length (H @ K) - ?n..<length (H @ K)]"
    "sm_n (ring_last v (int (rv_capacity v)) g) = ?n"
    by (simp_all add: ring_last_rep[OF assms] newest_batch_def Let_def sm_n_def)
  have "fst (drain_ring v g ?c) =
      (if H \<noteq> [] \<and> rv_capacity v < length K then Some (int (length K) - int (rv_capacity v)) else None)"
  proof (cases "?n = 0")
    case True
    then show ?thesis using cap seqs(2) by (auto simp: drain_ring_def drain_new_def)
  next
    case False
    then have hd: "hd (sm_seq (ring_last v (int (rv_capacity v)) g)) = int (length H + length K - rv_capacity v)"
      unfolding seqs(1) by (subst hd_map) (auto simp: upt_conv_Cons min_def)
    have "?c \<ge> 0 \<longleftrightarrow> H \<noteq> []" "?c + 1 = int (length H)" by (cases H; simp)+
    moreover have "int (length H + length K - rv_capacity v) > int (length H) \<longleftrightarrow> rv_capacity v < length K"
      by linarith
    moreover have "rv_capacity v < length K \<Longrightarrow>
        int (length H + length K - rv_capacity v) - ?c - 1 = int (length K) - int (rv_capacity v)"
      by simp
    ultimately show ?thesis using False
      by (simp add: drain_ring_def drain_new_def Let_def seqs(2) hd del: of_nat_diff)
  qed
  then show ?thesis using rows la by (intro prod_eqI) (simp_all only: fst_conv snd_conv)
qed

text \<open>A brain that posts and an arm that drains, batch after batch.\<close>

fun post_all :: "ring_view \<Rightarrow> (int \<times> 'v list) list \<Rightarrow> 'v segment \<Rightarrow> 'v segment res" where
  "post_all v [] g = Inr g"
| "post_all v ((t, x) # xs) g = rbind (ring_append v x t g) (\<lambda>(g', i). post_all v xs g')"

fun command_session ::
    "ring_view \<Rightarrow> (int \<times> 'v list) list list \<Rightarrow> int \<Rightarrow> 'v segment
     \<Rightarrow> ('v list list \<times> int option list \<times> int \<times> 'v segment) res" where
  "command_session v [] c g = Inr ([], [], c, g)"
| "command_session v (b # bs) c g =
     rbind (post_all v b g) (\<lambda>g'.
       case drain_ring v g' c of (lost, new, c') \<Rightarrow>
         rbind (command_session v bs c' g') (\<lambda>(rs, ls, c'', g'').
           Inr (new @ rs, lost # ls, c'', g'')))"

lemma post_all_put_all: "ring_log.put_all xs (v, g) = rbind (post_all v xs g) (\<lambda>g'. Inr (v, g'))"
proof (induction v xs g rule: post_all.induct)
  case (2 v t x xs g)
  have "log_put t x (v, g) = rbind (ring_append v x t g) (\<lambda>(g', i). Inr (v, g'))"
    by (simp add: log_put_def)
  then show ?case using 2 by (cases "ring_append v x t g") auto
qed simp

lemma post_all_ok:
  assumes "ring_rep v g H" "\<forall>p \<in> set xs. length (snd p) = rv_dim v"
  shows "\<exists>g'. post_all v xs g = Inr g' \<and> ring_rep v g' (H @ xs)"
proof -
  have rep: "log_rep (v, g) H" using assms(1) by (simp add: log_rep_def)
  obtain s' where s': "ring_log.put_all xs (v, g) = Inr s'"
    using ring_log.put_all_ok[OF rep, of xs] assms(2) by (auto simp: log_fits_def)
  then obtain g' where "post_all v xs g = Inr g'" "s' = (v, g')"
    unfolding post_all_put_all by auto
  then show ?thesis using ring_log.put_all_rep(1)[OF rep s'] by (auto simp: log_rep_def)
qed

lemma command_session_rep:
  assumes "ring_rep v g H" "\<forall>b \<in> set bs. length b \<le> rv_capacity v \<and> (\<forall>p \<in> set b. length (snd p) = rv_dim v)"
  shows "\<exists>c' g'. command_session v bs (int (length H) - 1) g
      = Inr (map snd (concat bs), replicate (length bs) None, c', g')"
  using assms
proof (induction bs arbitrary: H g)
  case (Cons b bs)
  have b: "length b \<le> rv_capacity v" "\<forall>p \<in> set b. length (snd p) = rv_dim v" using Cons.prems(2) by auto
  obtain g1 where g1: "post_all v b g = Inr g1" "ring_rep v g1 (H @ b)"
    using post_all_ok[OF Cons.prems(1) b(2)] by blast
  obtain c' g' where rest: "command_session v bs (int (length (H @ b)) - 1) g1
      = Inr (map snd (concat bs), replicate (length bs) None, c', g')"
    using Cons.IH[OF g1(2)] Cons.prems(2) by fastforce
  then show ?case using drain_ring_rep[OF g1(2)] g1(1) b(1) by simp
qed simp

lemma cursor_init_rep: "ring_rep v g H \<Longrightarrow> cursor_init (ring_latest v g) = int (length H) - 1"
proof -
  assume rep: "ring_rep v g H"
  have cap: "0 < rv_capacity v" using rep by (simp add: ring_rep_def view_ok_def)
  show ?thesis
  proof (cases "H = []")
    case True
    then show ?thesis using ring_last_rep[OF rep, of 1]
      by (simp add: cursor_init_def ring_latest_def sm_n_def empty_samples_def)
  next
    case False
    have "length H \<ge> 1" using False by (cases H) auto
    then have "min 1 (min (rv_capacity v) (length H)) = 1" using cap by simp
    then show ?thesis using ring_last_rep[OF rep, of 1] False
      by (simp add: cursor_init_def ring_latest_def newest_batch_def Let_def sm_n_def last_map)
  qed
qed

section \<open>Sample configurations\<close>

definition demo_channel :: channel_cfg where
  "demo_channel = \<lparr>cc_setpoint_capacity = 8, cc_command_capacity = 64, cc_command_dim = 8,
     cc_dtype = ''float64'', cc_rate_hz = 50, cc_deadman_ms = 100, cc_deadman_hard_ms = 500\<rparr>"

definition demo_cfg :: "string \<Rightarrow> string \<Rightarrow> (string, nat) dict \<Rightarrow> string list \<Rightarrow> control_cfg" where
  "demo_cfg kind mode command streamed =
     \<lparr>ct_kind = kind, ct_mode = mode, ct_command = command, ct_streamed = streamed, ct_channel = demo_channel,
      ct_joint_impedance = None, ct_cartesian_impedance = None, ct_force_axes = None,
      ct_force_frame = None, ct_force_max_vel = None\<rparr>"

section \<open>Properties\<close>

text \<open>
  Commands survive the wire: decoding an encoded command gives back its kind and its
  arguments, followed by the zeros that pad the vector to the channel width; a command whose
  arguments do not fit is refused, and a never-written (all-zero) slot decodes to \<open>NONE\<close>.
\<close>

theorem command_round_trip:
  "(case encode c dm of
      Inr v \<Rightarrow> length v = dm \<and> decode v = Inr \<lparr>cmd_kind = cmd_kind c,
          cmd_args = cmd_args c @ replicate (dm - 1 - length (cmd_args c)) 0\<rparr>
    | Inl e \<Rightarrow> e = ValueError \<and> dm < 1 + length (cmd_args c))
   \<and> decode (replicate (Suc n) 0) = Inr \<lparr>cmd_kind = NONE, cmd_args = replicate n 0\<rparr>"
proof -
  have "py_round 0 = 0" using py_round_of_int[of 0] by simp
  then have zero: "decode (replicate (Suc n) 0) = Inr \<lparr>cmd_kind = NONE, cmd_args = replicate n 0\<rparr>"
    by (simp add: decode_def kind_of_def)
  show ?thesis
  proof (cases "encode c dm")
    case (Inl e)
    then show ?thesis using zero by (auto simp: encode_def Let_def split: if_splits)
  next
    case (Inr v)
    have "1 + length (cmd_args c) \<le> dm" using Inr by (auto simp: encode_def split: if_splits)
    then show ?thesis using encode_shape[OF Inr] zero Inr by (simp add: decode_def)
  qed
qed

text \<open>
  A policy action becomes one setpoint vector the arm can take apart: for a control kind
  with an action space, the vector has the channel's width, and splitting it on the arm side
  gives the policy's value in the primary field, the measured value in every other absolute
  field, and zeros in every feed-forward field.
\<close>

theorem action_setpoint_split:
  assumes fld: "action_field cfg = Inr primary" and dist: "distinct (ct_streamed cfg)"
    and dims: "mapR (ditem (ct_command cfg)) (ct_streamed cfg) = Inr ds"
    and val: "ditem (ct_command cfg) primary = Inr (length value)"
    and held: "\<And>f. f \<in> set (ct_streamed cfg) \<Longrightarrow> f \<noteq> primary \<Longrightarrow> f \<in> set ABSOLUTE_FIELDS \<Longrightarrow>
        \<exists>x. dget held f = Some x \<and> ditem (ct_command cfg) f = Inr (length x)"
  shows "\<exists>v out. pack_action cfg value (Some held) = Inr v \<and> setpoint_dim cfg = Inr (length v)
    \<and> slice_streamed cfg v = Inr out
    \<and> (\<forall>f \<in> set (ct_streamed cfg). dget out f =
         (if f = primary then Some value
          else if f \<in> set ABSOLUTE_FIELDS then dget held f
          else map_option (\<lambda>d. replicate d 0) (dget (ct_command cfg) f)))"
proof -
  have "\<exists>x. action_value cfg primary value (case Some held of None \<Rightarrow> [] | Some h \<Rightarrow> h) f = Inr x \<and> length x = d"
    if "f \<in> set (ct_streamed cfg)" "ditem (ct_command cfg) f = Inr d" for f d
    using that val held[of f] by (auto simp: action_value_def)
  from pack_action_slices[OF fld dist dims this]
  obtain v out where vo: "pack_action cfg value (Some held) = Inr v" "setpoint_dim cfg = Inr (length v)"
    "slice_streamed cfg v = Inr out"
    "\<And>f. f \<in> set (ct_streamed cfg) \<Longrightarrow>
       \<exists>x. dget out f = Some x \<and> action_value cfg primary value held f = Inr x"
    by auto
  have "dget out f = (if f = primary then Some value else if f \<in> set ABSOLUTE_FIELDS then dget held f
          else map_option (\<lambda>d. replicate d 0) (dget (ct_command cfg) f))"
    if "f \<in> set (ct_streamed cfg)" for f
    using vo(4)[OF that] by (auto simp: action_value_def ditem_Inr split: if_splits option.splits)
  then show ?thesis using vo(1-3) by blast
qed

theorem action_setpoint_split_witness:
  "let cfg = (demo_cfg ''qpos'' ''NRT_JOINT_POSITION'' [(''q_d'', 2), (''dq_d'', 2)] [''q_d'', ''dq_d''])
   in \<exists>v. pack_action cfg [1, 2] (Some []) = Inr v \<and> setpoint_dim cfg = Inr (length v) \<and> length v = 4"
proof -
  let ?cfg = "(demo_cfg ''qpos'' ''NRT_JOINT_POSITION'' [(''q_d'', 2), (''dq_d'', 2)] [''q_d'', ''dq_d''])"
  have h: "action_field ?cfg = Inr ''q_d''" "distinct (ct_streamed ?cfg)"
    "mapR (ditem (ct_command ?cfg)) (ct_streamed ?cfg) = Inr [2, 2]"
    "ditem (ct_command ?cfg) ''q_d'' = Inr (length [1, 2 :: real])"
    by (simp_all add: demo_cfg_def action_field_def ACTION_PRIMARY_def ditem_def)
  have "setpoint_dim ?cfg = Inr 4" using h(3) by (simp add: setpoint_dim_def)
  moreover have "\<exists>v. pack_action ?cfg [1, 2] (Some []) = Inr v \<and> setpoint_dim ?cfg = Inr (length v)"
    using action_setpoint_split[OF h(1,2,3,4), of "[]"] by (auto simp: demo_cfg_def ABSOLUTE_FIELDS_def)
  ultimately show ?thesis by (auto simp: Let_def)
qed

text \<open>
  The predicted path of a velocity chunk is its Euler integral: for joint-velocity control,
  with a measured configuration of the chunk's width, the estimate has one row per policy step,
  joint \<open>j\<close> of row \<open>i\<close> is the measured angle plus the sum of the first \<open>i + 1\<close> commanded
  velocities times the step, and the end estimate is the last row.
\<close>

theorem velocity_chunk_estimate:
  assumes "ct_kind cfg = ''qvel''" "chunk \<noteq> []" "q0 \<noteq> []" "\<forall>r \<in> set chunk. length r = length q0"
    and "dget measured ''q'' = Some q0"
  shows "\<exists>path. estimate_chunk_trajectory cfg (A2 chunk) dt (Some measured) = Inr (Some (''q'', path))
    \<and> length path = length chunk
    \<and> (\<forall>i < length chunk. \<forall>j < length q0. path ! i ! j = q0 ! j + (\<Sum>k \<le> i. chunk ! k ! j) * dt)
    \<and> estimate_chunk_end cfg (A2 chunk) dt (Some measured) = Inr (Some (''q'', last path))"
proof -
  obtain path where p: "integrate q0 dt chunk = Inr path" using integrate_ok[OF assms(4,3)] by blast
  have e: "estimate_chunk_trajectory cfg (A2 chunk) dt (Some measured) = Inr (Some (''q'', path))"
    using assms p by (simp add: estimate_chunk_trajectory_def horizon_kind_def HORIZON_KIND_def)
  have ne: "path \<noteq> []" using integrate_nth(1)[OF assms(4) p] assms(2) by auto
  then show ?thesis using e integrate_nth[OF assms(4) p]
    by (auto simp: estimate_chunk_end_def)
qed

theorem velocity_chunk_estimate_witness:
  "\<exists>path. estimate_chunk_trajectory
     (demo_cfg ''qvel'' '''' [] [])
     (A2 [[1], [2]]) 2 (Some [(''q'', [5])]) = Inr (Some (''q'', path)) \<and> length path = 2 \<and> path ! 1 ! 0 = 11"
proof -
  let ?cfg = "(demo_cfg ''qvel'' '''' [] [])"
  have h: "ct_kind ?cfg = ''qvel''" "[[1], [2]] \<noteq> ([] :: real list list)" "[5] \<noteq> ([] :: real list)"
    "\<forall>r \<in> set [[1], [2]]. length r = length [5 :: real]" "dget [(''q'', [5 :: real])] ''q'' = Some [5]"
    by (simp_all add: demo_cfg_def)
  obtain path where p: "estimate_chunk_trajectory ?cfg (A2 [[1], [2]]) 2 (Some [(''q'', [5])]) = Inr (Some (''q'', path))"
      "length path = length [[1], [2 :: real]]"
      "\<forall>i < length [[1], [2 :: real]]. \<forall>j < length [5 :: real]. path ! i ! j = [5] ! j + (\<Sum>k \<le> i. [[1], [2]] ! k ! j) * 2"
    using velocity_chunk_estimate[OF h, of 2] by blast
  have "path ! 1 ! 0 = [5] ! 0 + (\<Sum>k \<le> 1. [[1], [2]] ! k ! 0) * (2 :: real)" using p(3) by simp
  then show ?thesis using p(1,2) by simp
qed

text \<open>
  C26. Discrete commands arrive exactly once and in order: an arm whose cursor was created on the
  current ring, and which drains at least every \<open>capacity\<close> commands, receives exactly the
  commands posted after its creation, each once, in the order of posting, with no loss logged;
  nothing posted before is replayed.
\<close>

theorem command_exactly_once:
  assumes "ring_rep v g H"
    and "\<forall>b \<in> set bs. length b \<le> rv_capacity v \<and> (\<forall>p \<in> set b. length (snd p) = rv_dim v)"
  shows "\<exists>c' g'. command_session v bs (cursor_init (ring_latest v g)) g
      = Inr (map snd (concat bs), replicate (length bs) None, c', g')"
  using command_session_rep[OF assms] cursor_init_rep[OF assms(1)] by simp

theorem command_exactly_once_witness:
  "\<exists>g v c' g'. ring_create (0::int) 2 1 ''float64'' = Inr (g, v)
     \<and> command_session v [[(1, [2])], [(2, [3]), (3, [4])]] (cursor_init (ring_latest v g)) g
        = Inr ([[2], [3], [4]], [None, None], c', g')"
proof -
  obtain g :: "int segment" and v where gv: "ring_create 0 2 1 ''float64'' = Inr (g, v)"
    "ring_rep v g []" "rv_capacity v = 2" "rv_dim v = 1"
    using ring_create_rep[of "''float64''" Float64 2 0 1] by auto
  have "\<exists>c' g'. command_session v [[(1, [2])], [(2, [3]), (3, [4])]] (cursor_init (ring_latest v g)) g
        = Inr ([[2], [3], [4]], [None, None], c', g')"
    using command_exactly_once[OF gv(2), of "[[(1, [2])], [(2, [3]), (3, [4])]]"] gv(3,4)
    by (simp add: numeral_2_eq_2)
  then show ?thesis using gv(1) by blast
qed

text \<open>
  When the arm falls behind: after more than \<open>capacity\<close> commands since the last drain, the
  drain returns exactly the newest \<open>capacity\<close> of them and reports how many were lost, provided
  the ring was not empty when the cursor was created; with a cursor created on an empty ring the
  same loss goes unreported.
\<close>

theorem command_loss:
  assumes "ring_rep v g (H @ K)" and "rv_capacity v < length K"
  shows "drain_ring v g (int (length H) - 1) =
     (if H \<noteq> [] then Some (int (length K) - int (rv_capacity v)) else None,
      map snd (drop (length K - rv_capacity v) K), int (length (H @ K)) - 1)"
  using drain_ring_rep[OF assms(1)] assms(2) by simp

theorem command_loss_witness:
  "\<exists>g v g'. ring_create (0::int) 1 1 ''float64'' = Inr (g, v)
     \<and> post_all v [(1, [2]), (2, [3]), (3, [4])] g = Inr g'
     \<and> drain_ring v g' 0 = (Some 1, [[4]], 2) \<and> drain_ring v g' (-1) = (None, [[4]], 2)"
proof -
  obtain g :: "int segment" and v where gv: "ring_create 0 1 1 ''float64'' = Inr (g, v)"
    "ring_rep v g []" "rv_capacity v = 1" "rv_dim v = 1"
    using ring_create_rep[of "''float64''" Float64 1 0 1] by auto
  let ?K = "[(1, [2]), (2, [3]), (3, [4])] :: (int \<times> int list) list"
  obtain g' where g': "post_all v ?K g = Inr g'" "ring_rep v g' ?K"
    using post_all_ok[OF gv(2), of ?K] gv(4) by auto
  have "drain_ring v g' 0 = (Some 1, [[4]], 2)"
    using command_loss[of v g' "[(1, [2])]" "[(2, [3]), (3, [4])]"] g'(2) gv(3) by simp
  moreover have "drain_ring v g' (-1) = (None, [[4]], 2)"
    using command_loss[of v g' "[]" ?K] g'(2) gv(3) by simp
  ultimately show ?thesis using gv(1) g'(1) by blast
qed

end
