(* ===== verification/Convention.thy ===== *)
theory Convention
  imports Control_Channel
begin

text \<open>
  The leader-to-follower joint convention of \<^verbatim>\<open>control/convention.py\<close>: drop the gripper value, add
  the calibrated offsets in degrees, flip the sign of selected joints, wrap to the canonical turn,
  and return radians. Python's \<open>%\<close> on floats is \<open>fmod_py\<close>; indices may be negative.
\<close>

record joint_convention =
  jc_offsets_deg :: "real list"
  jc_sign_flip_joints :: "int list"
  jc_drop_trailing :: int
  jc_gripper_open :: "real option"
  jc_gripper_closed :: "real option"

definition degrees :: "real \<Rightarrow> real" where
  "degrees x = x * (180 / pi)"

definition radians :: "real \<Rightarrow> real" where
  "radians x = x * (pi / 180)"

definition fmod_py :: "real \<Rightarrow> real \<Rightarrow> real" where
  "fmod_py x m = x - m * of_int \<lfloor>x / m\<rfloor>"

definition wrap_deg :: "real \<Rightarrow> real" where
  "wrap_deg d = fmod_py (d + 180) 360 - 180"

text \<open>\<open>xs[:k]\<close> with Python's treatment of negative bounds, and index resolution for \<open>xs[j]\<close>.\<close>

definition py_take :: "int \<Rightarrow> 'a list \<Rightarrow> 'a list" where
  "py_take k xs = (if 0 \<le> k then take (nat k) xs else take (nat (int (length xs) + k)) xs)"

definition py_index :: "int \<Rightarrow> 'a list \<Rightarrow> nat res" where
  "py_index j xs =
     (if 0 \<le> j \<and> j < int (length xs) then Inr (nat j)
      else if - int (length xs) \<le> j \<and> j < 0 then Inr (nat (int (length xs) + j))
      else Inl IndexError)"

definition drop_gripper :: "joint_convention \<Rightarrow> real list \<Rightarrow> real list" where
  "drop_gripper conv q =
     (if jc_drop_trailing conv \<noteq> 0 then py_take (int (length q) - jc_drop_trailing conv) q else q)"

definition flip_joint :: "int \<Rightarrow> real list \<Rightarrow> real list res" where
  "flip_joint j deg = rbind (py_index j deg) (\<lambda>i. Inr (deg[i := - (deg ! i)]))"

definition convert_factr_to_rizon :: "joint_convention \<Rightarrow> real list \<Rightarrow> real list res" where
  "convert_factr_to_rizon conv q_leader =
     (let q = drop_gripper conv q_leader in
      rbind (np_add (map degrees q) (take (length q) (jc_offsets_deg conv))) (\<lambda>deg.
      rbind (foldR flip_joint (jc_sign_flip_joints conv) deg) (\<lambda>deg'.
      Inr (map (\<lambda>d. radians (wrap_deg d)) deg'))))"

definition offsets_from_straight_pose :: "joint_convention \<Rightarrow> real list \<Rightarrow> real list" where
  "offsets_from_straight_pose conv q_leader = map (\<lambda>x. wrap_deg (- degrees x)) (drop_gripper conv q_leader)"

definition normalize_gripper :: "joint_convention \<Rightarrow> real \<Rightarrow> real" where
  "normalize_gripper conv raw =
     (case (jc_gripper_open conv, jc_gripper_closed conv) of
        (Some lo, Some hi) \<Rightarrow> if lo = hi then raw else min 1 (max 0 ((raw - lo) / (hi - lo)))
      | _ \<Rightarrow> raw)"

section \<open>Angles\<close>

lemma fmod_py_bounds: "0 < m \<Longrightarrow> 0 \<le> fmod_py x m \<and> fmod_py x m < m"
proof -
  assume m: "0 < m"
  have "of_int \<lfloor>x / m\<rfloor> \<le> x / m" "x / m < of_int \<lfloor>x / m\<rfloor> + 1" by linarith+
  then have "of_int \<lfloor>x / m\<rfloor> * m \<le> x" "x < (of_int \<lfloor>x / m\<rfloor> + 1) * m"
    using m by (simp_all only: pos_le_divide_eq pos_divide_less_eq)
  then show ?thesis by (simp add: fmod_py_def algebra_simps)
qed

lemma wrap_deg_bounds: "-180 \<le> wrap_deg d \<and> wrap_deg d < 180"
  using fmod_py_bounds[of 360 "d + 180"] by (simp add: wrap_deg_def)

lemma wrap_deg_turns: "\<exists>k :: int. wrap_deg d = d - 360 * of_int k"
  by (rule exI[of _ "\<lfloor>(d + 180) / 360\<rfloor>"]) (simp add: wrap_deg_def fmod_py_def)

lemma wrap_deg_unique:
  assumes "-180 \<le> x" "x < 180" "x = d - 360 * of_int k"
  shows "wrap_deg d = x"
proof -
  have "\<lfloor>(d + 180) / 360\<rfloor> = k" using assms by (intro floor_unique) (auto simp: field_simps)
  then show ?thesis using assms(3) by (simp add: wrap_deg_def fmod_py_def)
qed

lemma radians_degrees [simp]: "radians (degrees x) = x"
  by (simp add: radians_def degrees_def)

lemma degrees_radians [simp]: "degrees (radians x) = x"
  by (simp add: radians_def degrees_def)

section \<open>Flips\<close>

definition flips :: "joint_convention \<Rightarrow> nat \<Rightarrow> nat \<Rightarrow> nat" where
  "flips conv n j = length (filter (\<lambda>k. k = int j \<or> int n + k = int j) (jc_sign_flip_joints conv))"

lemma flip_joint_Inr:
  assumes "flip_joint k deg = Inr deg'"
  shows "length deg' = length deg \<and> (\<forall>j < length deg. deg' ! j =
     (if k = int j \<or> int (length deg) + k = int j then - (deg ! j) else deg ! j))"
  using assms
  by (auto simp: flip_joint_def py_index_def nth_list_update split: if_splits)

lemma fold_flips:
  assumes "foldR flip_joint ks deg = Inr deg'"
  shows "length deg' = length deg \<and> (\<forall>j < length deg. deg' ! j =
     (-1) ^ length (filter (\<lambda>k. k = int j \<or> int (length deg) + k = int j) ks) * deg ! j)"
  using assms
proof (induction ks arbitrary: deg)
  case (Cons k ks)
  then obtain d1 where d1: "flip_joint k deg = Inr d1" "foldR flip_joint ks d1 = Inr deg'" by auto
  show ?case using Cons.IH[OF d1(2)] flip_joint_Inr[OF d1(1)] by auto
qed simp

lemma flips_ok:
  assumes "\<forall>k \<in> set ks. - int (length deg) \<le> k \<and> k < int (length deg)"
  shows "\<exists>deg'. foldR flip_joint ks deg = Inr deg'"
  using assms
proof (induction ks arbitrary: deg)
  case (Cons k ks)
  then have "- int (length deg) \<le> k \<and> k < int (length deg)" by simp
  then obtain i where i: "py_index k deg = Inr i"
    by (cases "0 \<le> k") (simp_all add: py_index_def)
  have "\<exists>deg'. foldR flip_joint ks (deg[i := - (deg ! i)]) = Inr deg'"
    using Cons.prems by (intro Cons.IH) auto
  moreover have "flip_joint k deg = Inr (deg[i := - (deg ! i)])" using i by (simp add: flip_joint_def)
  ultimately show ?case by simp
qed simp

section \<open>Properties\<close>

text \<open>
  The commanded joint angle is canonical and faithful: for a leader sample whose arm part
  matches the calibrated offsets, every converted joint lies in \<open>[-pi, pi)\<close> and differs from the
  leader angle plus its offset (negated for a flipped joint) by whole turns, so an encoder's
  multi-turn branch is never commanded as extra revolutions.
\<close>

theorem convert_canonical:
  assumes len: "length (drop_gripper conv q) = n" "n \<le> length (jc_offsets_deg conv)"
    and idx: "\<forall>k \<in> set (jc_sign_flip_joints conv). - int n \<le> k \<and> k < int n"
  shows "\<exists>out. convert_factr_to_rizon conv q = Inr out \<and> length out = n
    \<and> (\<forall>j < n. - pi \<le> out ! j \<and> out ! j < pi
        \<and> (\<exists>m :: int. out ! j = (-1) ^ flips conv n j
              * (drop_gripper conv q ! j + radians (jc_offsets_deg conv ! j)) - 2 * pi * of_int m))"
proof -
  let ?q = "drop_gripper conv q" and ?off = "take n (jc_offsets_deg conv)"
  let ?deg = "map2 (+) (map degrees ?q) ?off"
  have add: "np_add (map degrees ?q) ?off = Inr ?deg" using len by (simp add: np_add_def)
  have ld: "length ?deg = n" using len by simp
  obtain deg' where f: "foldR flip_joint (jc_sign_flip_joints conv) ?deg = Inr deg'"
    using flips_ok[of "jc_sign_flip_joints conv" ?deg] idx ld by auto
  have deg': "length deg' = n" "\<And>j. j < n \<Longrightarrow> deg' ! j = (-1) ^ flips conv n j * ?deg ! j"
    using fold_flips[OF f] unfolding ld flips_def by auto
  let ?out = "map (\<lambda>d. radians (wrap_deg d)) deg'"
  have "convert_factr_to_rizon conv q = Inr ?out"
    using add f len by (simp add: convert_factr_to_rizon_def)
  moreover have "- pi \<le> ?out ! j \<and> ?out ! j < pi \<and> (\<exists>m :: int. ?out ! j = (-1) ^ flips conv n j
              * (?q ! j + radians (jc_offsets_deg conv ! j)) - 2 * pi * of_int m)" if j: "j < n" for j
  proof -
    obtain m :: int where m: "wrap_deg (deg' ! j) = deg' ! j - 360 * of_int m" using wrap_deg_turns by blast
    have dj: "?deg ! j = degrees (?q ! j) + jc_offsets_deg conv ! j" using j len by simp
    have "?out ! j = radians (wrap_deg (deg' ! j))" using j deg'(1) by simp
    moreover have "radians (wrap_deg (deg' ! j)) = radians (deg' ! j) - 2 * pi * of_int m"
      by (simp add: m radians_def algebra_simps)
    moreover have "radians (deg' ! j) = (-1) ^ flips conv n j * (?q ! j + radians (jc_offsets_deg conv ! j))"
      by (simp add: deg'(2)[OF j] dj radians_def degrees_def field_simps)
    moreover have "- pi \<le> radians (wrap_deg (deg' ! j)) \<and> radians (wrap_deg (deg' ! j)) < pi"
    proof -
      have "-180 * (pi / 180) \<le> wrap_deg (deg' ! j) * (pi / 180)"
        "wrap_deg (deg' ! j) * (pi / 180) < 180 * (pi / 180)"
        using wrap_deg_bounds[of "deg' ! j"] pi_gt_zero by (simp_all only: mult_right_mono mult_strict_right_mono)
      then show ?thesis by (simp add: radians_def)
    qed
    ultimately show ?thesis by metis
  qed
  ultimately show ?thesis using deg'(1) by auto
qed

theorem convert_canonical_witness:
  "\<exists>out. convert_factr_to_rizon \<lparr>jc_offsets_deg = [90], jc_sign_flip_joints = [-1], jc_drop_trailing = 1,
       jc_gripper_open = None, jc_gripper_closed = None\<rparr> [2 * pi, 0] = Inr out
     \<and> length out = 1 \<and> - pi \<le> out ! 0 \<and> out ! 0 < pi"
proof -
  let ?c = "\<lparr>jc_offsets_deg = [90], jc_sign_flip_joints = [-1], jc_drop_trailing = 1,
       jc_gripper_open = None, jc_gripper_closed = None\<rparr>"
  have h: "length (drop_gripper ?c [2 * pi, 0]) = 1" "1 \<le> length (jc_offsets_deg ?c)"
    "\<forall>k \<in> set (jc_sign_flip_joints ?c). - int 1 \<le> k \<and> k < int 1"
    by (simp_all add: drop_gripper_def py_take_def)
  then show ?thesis using convert_canonical[OF h] by auto
qed

text \<open>
  Calibration inverts conversion: with the offsets computed from a captured straight pose,
  converting that same pose gives zero for every joint, whichever joints are flipped.
\<close>

theorem straight_pose_is_zero:
  assumes off: "jc_offsets_deg conv = offsets_from_straight_pose conv q"
    and idx: "\<forall>k \<in> set (jc_sign_flip_joints conv).
        - int (length (drop_gripper conv q)) \<le> k \<and> k < int (length (drop_gripper conv q))"
  shows "convert_factr_to_rizon conv q = Inr (replicate (length (drop_gripper conv q)) 0)"
proof -
  let ?q = "drop_gripper conv q" and ?n = "length (drop_gripper conv q)"
  have o: "length (jc_offsets_deg conv) = ?n" by (simp add: off offsets_from_straight_pose_def)
  let ?deg = "map2 (+) (map degrees ?q) (jc_offsets_deg conv)"
  have ld: "length ?deg = ?n" using o by simp
  obtain deg' where f: "foldR flip_joint (jc_sign_flip_joints conv) ?deg = Inr deg'"
    using flips_ok[of "jc_sign_flip_joints conv" ?deg] idx ld by auto
  have deg': "length deg' = ?n" "\<And>j. j < ?n \<Longrightarrow> deg' ! j = (-1) ^ flips conv ?n j * ?deg ! j"
    using fold_flips[OF f] unfolding ld flips_def by auto
  have "radians (wrap_deg (deg' ! j)) = 0" if j: "j < ?n" for j
  proof -
    obtain m :: int where m: "wrap_deg (- degrees (?q ! j)) = - degrees (?q ! j) - 360 * of_int m"
      using wrap_deg_turns by blast
    have "?deg ! j = - 360 * of_int m"
      using j o m by (simp add: off offsets_from_straight_pose_def)
    then have "deg' ! j = - 360 * of_int m \<or> deg' ! j = 360 * of_int m"
      using deg'(2)[OF j] by (cases "even (flips conv ?n j)") auto
    then have "wrap_deg (deg' ! j) = 0"
      using wrap_deg_unique[of 0 "deg' ! j" "- m"] wrap_deg_unique[of 0 "deg' ! j" m] by auto
    then show ?thesis by (simp add: radians_def)
  qed
  then have "map (\<lambda>d. radians (wrap_deg d)) deg' = replicate ?n 0"
    using deg'(1) by (intro nth_equalityI) auto
  moreover have "np_add (map degrees ?q) (take ?n (jc_offsets_deg conv)) = Inr ?deg"
    using o by (simp add: np_add_def)
  ultimately show ?thesis using f by (simp add: convert_factr_to_rizon_def)
qed

theorem straight_pose_is_zero_witness:
  "convert_factr_to_rizon \<lparr>jc_offsets_deg = offsets_from_straight_pose \<lparr>jc_offsets_deg = [],
       jc_sign_flip_joints = [1], jc_drop_trailing = 1, jc_gripper_open = None, jc_gripper_closed = None\<rparr> [1, 2, 3],
     jc_sign_flip_joints = [1], jc_drop_trailing = 1, jc_gripper_open = None, jc_gripper_closed = None\<rparr> [1, 2, 3]
   = Inr [0, 0]"
proof -
  let ?c0 = "\<lparr>jc_offsets_deg = [], jc_sign_flip_joints = [1], jc_drop_trailing = 1,
     jc_gripper_open = None, jc_gripper_closed = None\<rparr>"
  let ?c = "?c0\<lparr>jc_offsets_deg := offsets_from_straight_pose ?c0 [1, 2, 3]\<rparr>"
  have d: "drop_gripper c [1, 2, 3] = [1, 2]" if "jc_drop_trailing c = 1" for c
    using that by (simp add: drop_gripper_def py_take_def)
  have h: "jc_offsets_deg ?c = offsets_from_straight_pose ?c [1, 2, 3]"
    "\<forall>k \<in> set (jc_sign_flip_joints ?c). - int (length (drop_gripper ?c [1, 2, 3])) \<le> k
       \<and> k < int (length (drop_gripper ?c [1, 2, 3]))"
    by (simp_all add: offsets_from_straight_pose_def d)
  show ?thesis using straight_pose_is_zero[OF h] d[of ?c] by (simp add: numeral_2_eq_2)
qed

text \<open>
  The calibrated gripper value is a fraction: with two different endpoints it lies in
  \<open>[0, 1]\<close>, is 0 at the open and 1 at the closed reading in whichever order these are, and moves
  monotonically from open to closed.
\<close>

theorem gripper_fraction:
  assumes "jc_gripper_open conv = Some lo" "jc_gripper_closed conv = Some hi" "lo \<noteq> hi"
  shows "0 \<le> normalize_gripper conv raw \<and> normalize_gripper conv raw \<le> 1
    \<and> normalize_gripper conv lo = 0 \<and> normalize_gripper conv hi = 1
    \<and> ((raw - lo) * (hi - lo) \<le> (raw' - lo) * (hi - lo)
        \<longrightarrow> normalize_gripper conv raw \<le> normalize_gripper conv raw')"
proof -
  have "(raw - lo) / (hi - lo) \<le> (raw' - lo) / (hi - lo)"
    if "(raw - lo) * (hi - lo) \<le> (raw' - lo) * (hi - lo)"
    using that assms(3) by (cases "lo < hi") (auto simp: divide_right_mono mult_le_cancel_right divide_right_mono_neg)
  then show ?thesis using assms by (auto simp: normalize_gripper_def)
qed

theorem gripper_fraction_witness:
  "0 \<le> normalize_gripper \<lparr>jc_offsets_deg = [], jc_sign_flip_joints = [], jc_drop_trailing = 1,
     jc_gripper_open = Some 3, jc_gripper_closed = Some 1\<rparr> 7
   \<and> normalize_gripper \<lparr>jc_offsets_deg = [], jc_sign_flip_joints = [], jc_drop_trailing = 1,
     jc_gripper_open = Some 3, jc_gripper_closed = Some 1\<rparr> 1 = 1"
proof -
  let ?c = "\<lparr>jc_offsets_deg = [], jc_sign_flip_joints = [], jc_drop_trailing = 1,
     jc_gripper_open = Some 3, jc_gripper_closed = Some 1\<rparr>"
  have h: "jc_gripper_open ?c = Some 3" "jc_gripper_closed ?c = Some 1" "(3::real) \<noteq> 1" by simp_all
  show ?thesis using gripper_fraction[OF h, of 7 1] by auto
qed

end
