(* ===== verification/State_Layout.thy ===== *)
theory State_Layout
  imports Convention "HOL-Library.List_Lexorder" "HOL-Library.Product_Lexorder" "HOL-Library.Char_ord"
begin

text \<open>
  The canonical state and action vectors (\<^verbatim>\<open>layout.py\<close>) and the stream specifications of arms and
  cameras (\<^verbatim>\<open>proprio.py\<close>, \<^verbatim>\<open>cameras.py\<close>).

  A Python \<open>slice (a, b)\<close> is the pair \<open>(a, b)\<close>. Vectors are lists of reals; the rounding of the
  \<open>float32\<close> conversion is not modelled. The layout object is the record \<open>dfc_layout\<close>, built by the
  two loops of the constructor; \<open>tiles\<close> is the invariant both loops keep.
\<close>

section \<open>Arms, cameras and their streams\<close>

record stream_cfg =
  sc_dim :: int
  sc_dtype :: string
  sc_capacity :: int
  sc_rate_hz :: real
  sc_dummy :: bool

record arm_cfg =
  ar_streams :: "(string, stream_cfg) dict"
  ar_control :: control_cfg

definition PROPRIO_SIGNALS :: "string list" where
  "PROPRIO_SIGNALS = [''q'', ''dq'', ''tau'', ''tau_ext'', ''wrench'', ''eef'', ''eef_vel'']"

definition stream_name :: "string \<Rightarrow> string \<Rightarrow> string" where
  "stream_name side sig = side @ ''/'' @ sig"

definition proprio_stream_names :: "string \<Rightarrow> string list" where
  "proprio_stream_names side = map (stream_name side) PROPRIO_SIGNALS"

definition streams_to_specs :: "string \<Rightarrow> (string, stream_cfg) dict \<Rightarrow> stream_spec list res" where
  "streams_to_specs pre cfgs =
     mapR (\<lambda>(leaf, c). mk_stream_spec (pre @ ''/'' @ leaf) (sc_dim c) (sc_capacity c) (sc_dtype c)
             (Some (sc_rate_hz c))) cfgs"

record camera_cfg =
  cam_width :: nat
  cam_height :: nat
  cam_fps :: real
  cam_views :: "string list"
  cam_capacity :: int

definition RGB_VIEWS :: "string list" where
  "RGB_VIEWS = [''left'', ''right'', ''color'']"

definition view_channels :: "string \<Rightarrow> nat res" where
  "view_channels view =
     (if view \<in> set RGB_VIEWS then Inr 3 else if view = ''depth'' then Inr 1 else Inl ValueError)"

definition view_dtype :: "string \<Rightarrow> string res" where
  "view_dtype view =
     (if view \<in> set RGB_VIEWS then Inr ''uint8'' else if view = ''depth'' then Inr ''float32'' else Inl ValueError)"

definition view_shape :: "camera_cfg \<Rightarrow> string \<Rightarrow> nat list res" where
  "view_shape cam view =
     (if view = ''depth'' then Inr [cam_height cam, cam_width cam]
      else rbind (view_channels view) (\<lambda>c. Inr [cam_height cam, cam_width cam, c]))"

definition camera_prefix :: "string \<Rightarrow> string" where
  "camera_prefix name = ''cam/'' @ name"

definition camera_stream_name :: "string \<Rightarrow> string \<Rightarrow> string" where
  "camera_stream_name name view = camera_prefix name @ ''/'' @ view"

definition camera_streams_to_specs :: "string \<Rightarrow> camera_cfg \<Rightarrow> stream_spec list res" where
  "camera_streams_to_specs name cam =
     mapR (\<lambda>view. rbind (view_channels view) (\<lambda>c. rbind (view_dtype view) (\<lambda>ty.
       mk_stream_spec (camera_stream_name name view) (int (cam_height cam * cam_width cam * c))
         (cam_capacity cam) ty (Some (cam_fps cam))))) (cam_views cam)"

definition camera_stream_names :: "(string, camera_cfg) dict \<Rightarrow> string list" where
  "camera_stream_names cams = concat (map (\<lambda>(name, cam). map (camera_stream_name name) (cam_views cam)) cams)"

text \<open>\<open>numpy.reshape\<close> to two or three axes, in row-major order.\<close>

fun chunks :: "nat \<Rightarrow> nat \<Rightarrow> 'a list \<Rightarrow> 'a list list" where
  "chunks 0 k xs = []"
| "chunks (Suc n) k xs = take k xs # chunks n k (drop k xs)"

datatype 'a frame = Gray "'a list list" | Color "'a list list list"

definition reshape_frame :: "'a list \<Rightarrow> camera_cfg \<Rightarrow> string \<Rightarrow> 'a frame res" where
  "reshape_frame vec cam view =
     rbind (view_shape cam view) (\<lambda>sh.
       if length vec \<noteq> prod_list sh then Inl ValueError
       else case sh of
         [h, w] \<Rightarrow> Inr (Gray (chunks h w vec))
       | [h, w, c] \<Rightarrow> Inr (Color (map (chunks w c) (chunks h (w * c) vec)))
       | _ \<Rightarrow> Inl ValueError)"

section \<open>The layout\<close>

definition side_order :: "string \<Rightarrow> nat" where
  "side_order side = (if side = ''left'' then 0 else if side = ''right'' then 1 else 99)"

definition sorted_sides :: "string list \<Rightarrow> string list" where
  "sorted_sides ks = sort_key (\<lambda>side. (side_order side, side)) ks"

record state_block =
  sb_side :: string
  sb_signal :: string
  sb_stream :: string
  sb_slice :: "nat \<times> nat"

record dfc_layout =
  ly_state_signals :: "string list"
  ly_state_sides :: "string list"
  ly_sides :: "string list"
  ly_state_names :: "string list"
  ly_action_names :: "string list"
  ly_state_blocks :: "state_block list"
  ly_state :: "(string \<times> string, nat \<times> nat) dict"
  ly_field :: "(string, string) dict"
  ly_primary :: "(string, nat \<times> nat) dict"
  ly_gripper :: "(string, nat) dict"
  ly_state_dim :: nat
  ly_action_dim :: nat

definition indexed_names :: "string \<Rightarrow> string \<Rightarrow> nat \<Rightarrow> string list" where
  "indexed_names side x n = map (\<lambda>i. side @ ''.'' @ x @ ''.'' @ nat_str i) [0..<n]"

text \<open>One iteration of the state loop; \<open>ly_state_dim\<close> is the running \<open>offset\<close>.\<close>

definition add_state_block ::
    "(string, arm_cfg) dict \<Rightarrow> string \<times> string \<Rightarrow> dfc_layout \<Rightarrow> dfc_layout res" where
  "add_state_block arms p ly =
     (case p of (side, sig) \<Rightarrow>
      rbind (ditem arms side) (\<lambda>arm.
      case dget (ar_streams arm) sig of
        None \<Rightarrow> Inl ValueError
      | Some sc \<Rightarrow>
          (let off = ly_state_dim ly; dm = nat (sc_dim sc); sl = (off, off + dm)
           in Inr (ly\<lparr>ly_state := dput (side, sig) sl (ly_state ly),
                     ly_state_blocks := ly_state_blocks ly
                       @ [\<lparr>sb_side = side, sb_signal = sig, sb_stream = side @ ''/'' @ sig, sb_slice = sl\<rparr>],
                     ly_state_names := ly_state_names ly @ indexed_names side sig dm,
                     ly_state_dim := off + dm\<rparr>))))"

definition add_action_side :: "(string, arm_cfg) dict \<Rightarrow> string \<Rightarrow> dfc_layout \<Rightarrow> dfc_layout res" where
  "add_action_side arms side ly =
     rbind (ditem arms side) (\<lambda>arm.
     rbind (action_field (ar_control arm)) (\<lambda>fld.
     rbind (action_dim (ar_control arm)) (\<lambda>dm.
     let off = ly_action_dim ly in
     Inr (ly\<lparr>ly_field := dput side fld (ly_field ly),
            ly_primary := dput side (off, off + dm) (ly_primary ly),
            ly_gripper := dput side (off + dm) (ly_gripper ly),
            ly_action_names := ly_action_names ly @ indexed_names side fld dm @ [side @ ''.gripper''],
            ly_action_dim := off + dm + 1\<rparr>))))"

definition empty_layout :: "string list \<Rightarrow> string list \<Rightarrow> string list \<Rightarrow> dfc_layout" where
  "empty_layout signals state_sides sides =
     \<lparr>ly_state_signals = signals, ly_state_sides = state_sides, ly_sides = sides, ly_state_names = [],
      ly_action_names = [], ly_state_blocks = [], ly_state = [], ly_field = [], ly_primary = [],
      ly_gripper = [], ly_state_dim = 0, ly_action_dim = 0\<rparr>"

definition mk_layout :: "(string, arm_cfg) dict \<Rightarrow> string list \<Rightarrow> string list \<Rightarrow> dfc_layout res" where
  "mk_layout arms state_signals action_sides =
     (if \<not> list_all (\<lambda>s. s \<in> set (dkeys arms)) action_sides then Inl ValueError
      else let state_sides = sorted_sides (dkeys arms);
               sides = filter (\<lambda>s. s \<in> set action_sides) state_sides
        in rbind (foldR (add_state_block arms) (List.product state_sides state_signals)
                    (empty_layout state_signals state_sides sides))
             (foldR (add_action_side arms) sides))"

definition bimanual_qpos :: dfc_layout where
  "bimanual_qpos =
     \<lparr>ly_state_signals = [''q''], ly_state_sides = [''left'', ''right''], ly_sides = [''left'', ''right''],
      ly_state_names = indexed_names ''left'' ''q'' 7 @ indexed_names ''right'' ''q'' 7,
      ly_action_names = indexed_names ''left'' ''q_d'' 7 @ [''left.gripper'']
        @ indexed_names ''right'' ''q_d'' 7 @ [''right.gripper''],
      ly_state_blocks =
        [\<lparr>sb_side = ''left'', sb_signal = ''q'', sb_stream = ''left/q'', sb_slice = (0, 7)\<rparr>,
         \<lparr>sb_side = ''right'', sb_signal = ''q'', sb_stream = ''right/q'', sb_slice = (7, 14)\<rparr>],
      ly_state = [((''left'', ''q''), (0, 7)), ((''right'', ''q''), (7, 14))],
      ly_field = [(''left'', ''q_d''), (''right'', ''q_d'')],
      ly_primary = [(''left'', (0, 7)), (''right'', (8, 15))],
      ly_gripper = [(''left'', 7), (''right'', 15)],
      ly_state_dim = 14, ly_action_dim = 16\<rparr>"

definition state_stream_names :: "dfc_layout \<Rightarrow> string list" where
  "state_stream_names ly = map sb_stream (ly_state_blocks ly)"

definition state_slice :: "dfc_layout \<Rightarrow> string \<Rightarrow> string \<Rightarrow> (nat \<times> nat) res" where
  "state_slice ly side sig = ditem (ly_state ly) (side, sig)"

definition action_dof :: "dfc_layout \<Rightarrow> string \<Rightarrow> nat res" where
  "action_dof ly side = rbind (ditem (ly_primary ly) side) (\<lambda>(a, b). Inr (b - a))"

definition state_to_action_joint_slices :: "dfc_layout \<Rightarrow> ((nat \<times> nat) \<times> (nat \<times> nat)) list res" where
  "state_to_action_joint_slices ly =
     rbind (mapR (\<lambda>side.
       case dget (ly_state ly) (side, ''q'') of
         None \<Rightarrow> Inr []
       | Some s \<Rightarrow> rbind (ditem (ly_field ly) side) (\<lambda>f.
           if f = ''q_d'' then rbind (ditem (ly_primary ly) side) (\<lambda>p. Inr [(s, p)]) else Inr [])) (ly_sides ly))
       (\<lambda>ps. Inr (concat ps))"

definition pack_state :: "dfc_layout \<Rightarrow> (string \<times> string, real list) dict \<Rightarrow> real list res" where
  "pack_state ly vals =
     foldR (\<lambda>(key, a, b) st. rbind (ditem vals key) (\<lambda>x.
              if length x \<noteq> b - a then Inl ValueError else Inr (put_slice a x st)))
       (ly_state ly) (replicate (ly_state_dim ly) 0)"

definition pack_action_step ::
    "dfc_layout \<Rightarrow> (string, real list) dict \<Rightarrow> (string, real) dict \<Rightarrow> string \<Rightarrow> real list \<Rightarrow> real list res" where
  "pack_action_step ly primary gripper side act =
     rbind (ditem primary side) (\<lambda>x.
     rbind (ditem (ly_primary ly) side) (\<lambda>(a, b).
     if length x \<noteq> b - a then Inl ValueError
     else rbind (ditem (ly_gripper ly) side) (\<lambda>g.
       Inr ((put_slice a x act)[g := (case dget gripper side of None \<Rightarrow> 0 | Some v \<Rightarrow> v)]))))"

definition layout_pack_action ::
    "dfc_layout \<Rightarrow> (string, real list) dict \<Rightarrow> (string, real) dict \<Rightarrow> real list res" where
  "layout_pack_action ly primary gripper =
     foldR (pack_action_step ly primary gripper) (ly_sides ly) (replicate (ly_action_dim ly) 0)"

text \<open>
  One side of a split action: the primary field under its name and the gripper fraction. (The
  code builds one dictionary; the name of the primary field is never \<open>gripper\<close>.)
\<close>

record side_action =
  sa_field :: string
  sa_value :: "real list"
  sa_gripper :: real

definition layout_split :: "dfc_layout \<Rightarrow> real list \<Rightarrow> (string \<times> side_action) list res" where
  "layout_split ly act =
     (if length act \<noteq> ly_action_dim ly then Inl ValueError
      else mapR (\<lambda>side.
        rbind (ditem (ly_field ly) side) (\<lambda>f.
        rbind (ditem (ly_primary ly) side) (\<lambda>(a, b).
        rbind (ditem (ly_gripper ly) side) (\<lambda>g.
        if g < length act then Inr (side, \<lparr>sa_field = f, sa_value = slice a b act, sa_gripper = act ! g\<rparr>)
        else Inl IndexError)))) (ly_sides ly))"

section \<open>Blocks that tile a vector\<close>

fun tiles :: "nat \<Rightarrow> ('k \<times> nat \<times> nat) list \<Rightarrow> nat \<Rightarrow> bool" where
  "tiles off [] n \<longleftrightarrow> off = n"
| "tiles off ((k, a, b) # r) n \<longleftrightarrow> a = off \<and> a \<le> b \<and> tiles b r n"

lemma tiles_snoc: "tiles off (xs @ [(k, a, b)]) n \<longleftrightarrow> tiles off xs a \<and> a \<le> b \<and> b = n"
  by (induction off xs a rule: tiles.induct) auto

lemma tiles_le: "tiles off xs n \<Longrightarrow> off \<le> n"
  by (induction off xs n rule: tiles.induct) auto

lemma tiles_bounds: "tiles off xs n \<Longrightarrow> (k, a, b) \<in> set xs \<Longrightarrow> off \<le> a \<and> a \<le> b \<and> b \<le> n"
proof (induction off xs n rule: tiles.induct)
  case (2 off k' a' b' r n)
  then show ?case using tiles_le[of b' r n] by auto
qed simp

text \<open>Writing every block in order leaves each of them in its place.\<close>

lemma pack_tiles:
  assumes "tiles off spans n" "length vec = n"
    and "\<And>k a b. (k, a, b) \<in> set spans \<Longrightarrow> length (x k) = b - a"
  shows "length (foldl (\<lambda>v (k, a, b). put_slice a (x k) v) vec spans) = n
    \<and> (\<forall>i < off. foldl (\<lambda>v (k, a, b). put_slice a (x k) v) vec spans ! i = vec ! i)
    \<and> (\<forall>(k, a, b) \<in> set spans. slice a b (foldl (\<lambda>v (k, a, b). put_slice a (x k) v) vec spans) = x k)"
  using assms
proof (induction spans arbitrary: off vec)
  case (Cons p spans)
  obtain k a b where p: "p = (k, a, b)" by (cases p) auto
  let ?F = "foldl (\<lambda>v (k, a, b). put_slice a (x k) v)"
  have t: "a = off" "a \<le> b" "tiles b spans n" using Cons.prems(1) by (auto simp: p)
  have bn: "b \<le> n" using tiles_le[OF t(3)] .
  have lx: "length (x k) = b - a" using Cons.prems(3)[of k a b] by (simp add: p)
  let ?v = "put_slice a (x k) vec"
  have lv: "length ?v = n" using lx t bn Cons.prems(2) by simp
  have ih: "length (?F ?v spans) = n" "\<And>i. i < b \<Longrightarrow> ?F ?v spans ! i = ?v ! i"
    "\<And>k a b. (k, a, b) \<in> set spans \<Longrightarrow> slice a b (?F ?v spans) = x k"
    using Cons.IH[OF t(3) lv] Cons.prems(3) by auto
  have "slice a b (?F ?v spans) = slice a b ?v"
    using ih(1,2) lv t(2) bn by (intro nth_equalityI) (auto simp: slice_nth)
  also have "\<dots> = x k"
    using slice_put_slice_same[of a "x k" vec] lx t bn Cons.prems(2) by simp
  finally have blk: "slice a b (?F ?v spans) = x k" .
  have low: "?F ?v spans ! i = vec ! i" if "i < off" for i
    using ih(2)[of i] that t lx bn Cons.prems(2) by (simp add: put_slice_nth)
  have F: "?F vec (p # spans) = ?F ?v spans" by (simp add: p)
  show ?case unfolding F using ih(1,3) blk low by (auto simp: p)
qed simp

lemma foldR_put_slices:
  assumes "\<And>k a b v. (k, a, b) \<in> set spans \<Longrightarrow> step (k, a, b) v = Inr (put_slice a (x k) v)"
  shows "foldR step spans vec = Inr (foldl (\<lambda>v (k, a, b). put_slice a (x k) v) vec spans)"
  using assms by (induction spans arbitrary: vec) auto

section \<open>What the constructor builds\<close>

lemma length_indexed_names [simp]: "length (indexed_names s f n) = n"
  by (simp add: indexed_names_def)

definition action_spans :: "dfc_layout \<Rightarrow> string list \<Rightarrow> (string \<times> nat \<times> nat) list" where
  "action_spans ly sides = map (\<lambda>s. (s, fst (the (dget (ly_primary ly) s)), the (dget (ly_gripper ly) s) + 1)) sides"

definition action_ok :: "dfc_layout \<Rightarrow> string list \<Rightarrow> bool" where
  "action_ok ly sides \<longleftrightarrow> tiles 0 (action_spans ly sides) (ly_action_dim ly)
     \<and> length (ly_action_names ly) = ly_action_dim ly
     \<and> (\<forall>s \<in> set sides. (\<exists>f a b. dget (ly_field ly) s = Some f \<and> dget (ly_primary ly) s = Some (a, b)
          \<and> dget (ly_gripper ly) s = Some b \<and> a \<le> b))"

definition state_ok :: "dfc_layout \<Rightarrow> (string \<times> string) list \<Rightarrow> bool" where
  "state_ok ly keys \<longleftrightarrow> tiles 0 (ly_state ly) (ly_state_dim ly) \<and> dkeys (ly_state ly) = keys
     \<and> length (ly_state_names ly) = ly_state_dim ly
     \<and> map (\<lambda>b. ((sb_side b, sb_signal b), sb_slice b)) (ly_state_blocks ly) = ly_state ly
     \<and> state_stream_names ly = map (\<lambda>(s, g). stream_name s g) keys"

lemma dput_new: "k \<notin> set (dkeys d) \<Longrightarrow> dput k v d = d @ [(k, v)]"
  by (induction d) auto

lemma add_state_block_ok:
  assumes "add_state_block arms (s, g) ly = Inr ly'" "state_ok ly keys" "(s, g) \<notin> set keys"
  shows "state_ok ly' (keys @ [(s, g)]) \<and> ly_sides ly' = ly_sides ly \<and> ly_action_dim ly' = ly_action_dim ly
    \<and> ly_action_names ly' = ly_action_names ly"
proof -
  have "(s, g) \<notin> set (dkeys (ly_state ly))" using assms(2,3) by (simp add: state_ok_def)
  note new = dput_new[OF this]
  obtain arm sc where a: "ditem arms s = Inr arm" "dget (ar_streams arm) g = Some sc"
    using assms(1) by (auto simp: add_state_block_def split: option.splits)
  show ?thesis using assms(1,2)
    by (auto simp: add_state_block_def a Let_def new state_ok_def tiles_snoc state_stream_names_def stream_name_def)
qed

lemma add_state_blocks_ok:
  assumes "foldR (add_state_block arms) ps ly = Inr ly'" "state_ok ly keys" "distinct (keys @ ps)"
  shows "state_ok ly' (keys @ ps) \<and> ly_sides ly' = ly_sides ly \<and> ly_action_dim ly' = ly_action_dim ly
    \<and> ly_action_names ly' = ly_action_names ly"
  using assms
proof (induction ps arbitrary: ly keys)
  case (Cons p ps)
  obtain s g where p: "p = (s, g)" by (cases p)
  obtain l1 where l1: "add_state_block arms (s, g) ly = Inr l1" "foldR (add_state_block arms) ps l1 = Inr ly'"
    using Cons.prems(1) by (auto simp: p)
  have "state_ok l1 (keys @ [(s, g)]) \<and> ly_sides l1 = ly_sides ly \<and> ly_action_dim l1 = ly_action_dim ly
    \<and> ly_action_names l1 = ly_action_names ly"
    using add_state_block_ok[OF l1(1) Cons.prems(2)] Cons.prems(3) by (simp add: p)
  then show ?case using Cons.IH[OF l1(2), of "keys @ [(s, g)]"] Cons.prems(3) by (simp add: p)
qed simp

lemma add_action_side_ok:
  assumes "add_action_side arms s ly = Inr ly'" "action_ok ly done_sides" "s \<notin> set done_sides"
  shows "action_ok ly' (done_sides @ [s]) \<and> ly_sides ly' = ly_sides ly \<and> ly_state ly' = ly_state ly
    \<and> ly_state_dim ly' = ly_state_dim ly \<and> ly_state_names ly' = ly_state_names ly
    \<and> ly_state_blocks ly' = ly_state_blocks ly"
proof -
  have keep: "action_spans (ly\<lparr>ly_field := dput s f (ly_field ly), ly_primary := dput s p (ly_primary ly),
      ly_gripper := dput s g (ly_gripper ly), ly_action_names := nm, ly_action_dim := d\<rparr>) done_sides
      = action_spans ly done_sides" for f p g nm d
    using assms(3) unfolding action_spans_def by (intro map_cong) auto
  obtain arm f dm where a: "ditem arms s = Inr arm" "action_field (ar_control arm) = Inr f"
      "action_dim (ar_control arm) = Inr dm"
    using assms(1) by (auto simp: add_action_side_def)
  have spans: "action_spans l (done_sides @ [s]) = action_spans l done_sides
      @ [(s, fst (the (dget (ly_primary l) s)), the (dget (ly_gripper l) s) + 1)]" for l
    by (simp add: action_spans_def)
  show ?thesis using assms
    by (auto simp: add_action_side_def a Let_def action_ok_def spans keep tiles_snoc)
qed

lemma add_action_sides_ok:
  assumes "foldR (add_action_side arms) ss ly = Inr ly'" "action_ok ly done_sides" "distinct (done_sides @ ss)"
  shows "action_ok ly' (done_sides @ ss) \<and> ly_sides ly' = ly_sides ly \<and> ly_state ly' = ly_state ly
    \<and> ly_state_dim ly' = ly_state_dim ly \<and> ly_state_names ly' = ly_state_names ly
    \<and> ly_state_blocks ly' = ly_state_blocks ly"
  using assms
proof (induction ss arbitrary: ly done_sides)
  case (Cons s ss)
  obtain l1 where l1: "add_action_side arms s ly = Inr l1" "foldR (add_action_side arms) ss l1 = Inr ly'"
    using Cons.prems(1) by auto
  show ?case
    using Cons.IH[OF l1(2), of "done_sides @ [s]"] add_action_side_ok[OF l1(1) Cons.prems(2)] Cons.prems(3) by simp
qed simp

lemma set_sorted_sides [simp]: "set (sorted_sides ks) = set ks"
  by (simp add: sorted_sides_def)

lemma distinct_sorted_sides [simp]: "distinct (sorted_sides ks) = distinct ks"
  by (simp add: sorted_sides_def)

lemma mk_layout_ok:
  assumes "mk_layout arms signals action_sides = Inr ly" "distinct (dkeys arms)" "distinct signals"
  shows "state_ok ly (List.product (sorted_sides (dkeys arms)) signals)"
    and "action_ok ly (ly_sides ly)"
    and "ly_sides ly = filter (\<lambda>s. s \<in> set action_sides) (sorted_sides (dkeys arms))"
proof -
  let ?ss = "sorted_sides (dkeys arms)"
  let ?as = "filter (\<lambda>s. s \<in> set action_sides) ?ss"
  let ?e = "empty_layout signals ?ss ?as"
  obtain l1 where l1: "foldR (add_state_block arms) (List.product ?ss signals) ?e = Inr l1"
      "foldR (add_action_side arms) ?as l1 = Inr ly"
    using assms(1) by (auto simp: mk_layout_def Let_def split: if_splits)
  have e: "state_ok ?e []" by (simp add: state_ok_def empty_layout_def state_stream_names_def)
  have s1: "state_ok l1 (List.product ?ss signals)" "ly_sides l1 = ?as" "ly_action_dim l1 = 0" "ly_action_names l1 = []"
    using add_state_blocks_ok[OF l1(1) e] assms(2,3) by (auto simp: distinct_product empty_layout_def)
  have "action_ok l1 []" using s1 by (simp add: action_ok_def action_spans_def)
  from add_action_sides_ok[OF l1(2) this] assms(2) s1
  have a: "action_ok ly ?as" "ly_sides ly = ?as" "ly_state ly = ly_state l1" "ly_state_dim ly = ly_state_dim l1"
      "ly_state_names ly = ly_state_names l1" "ly_state_blocks ly = ly_state_blocks l1"
    by auto
  show "state_ok ly (List.product ?ss signals)" using s1(1) a by (simp add: state_ok_def state_stream_names_def)
  show "action_ok ly (ly_sides ly)" "ly_sides ly = ?as" using a by auto
qed

section \<open>Packing\<close>

lemma action_ok_at:
  assumes "action_ok ly sides" "s \<in> set sides"
  obtains f a b where "dget (ly_field ly) s = Some f" "dget (ly_primary ly) s = Some (a, b)"
    "dget (ly_gripper ly) s = Some b" "a \<le> b" "b < ly_action_dim ly" "(s, a, b + 1) \<in> set (action_spans ly sides)"
proof -
  obtain f a b where fab: "dget (ly_field ly) s = Some f" "dget (ly_primary ly) s = Some (a, b)"
      "dget (ly_gripper ly) s = Some b" "a \<le> b"
    using assms unfolding action_ok_def by blast
  have m: "(s, a, b + 1) \<in> set (action_spans ly sides)" using assms(2) fab by (force simp: action_spans_def)
  have "b + 1 \<le> ly_action_dim ly" using assms(1) tiles_bounds[OF _ m] by (auto simp: action_ok_def)
  then show ?thesis using that fab m by auto
qed

lemma put_slice_then_next:
  assumes "a + length x < length v"
  shows "(put_slice a x v)[a + length x := g] = put_slice a (x @ [g]) v"
  using assms by (intro nth_equalityI) (auto simp: put_slice_nth nth_list_update nth_append)

lemma layout_pack_action_slices:
  assumes ok: "action_ok ly (ly_sides ly)"
    and val: "\<And>s. s \<in> set (ly_sides ly) \<Longrightarrow> \<exists>x a b. dget primary s = Some x
        \<and> dget (ly_primary ly) s = Some (a, b) \<and> length x = b - a"
  shows "\<exists>v. layout_pack_action ly primary gripper = Inr v \<and> length v = ly_action_dim ly
    \<and> (\<forall>(s, a, b) \<in> set (action_spans ly (ly_sides ly)).
         slice a b v = the (dget primary s) @ [case dget gripper s of None \<Rightarrow> 0 | Some g \<Rightarrow> g])"
proof -
  let ?n = "ly_action_dim ly" and ?S = "action_spans ly (ly_sides ly)"
  let ?g = "\<lambda>s. case dget gripper s of None \<Rightarrow> 0 | Some g \<Rightarrow> g"
  let ?x = "\<lambda>s. the (dget primary s) @ [?g s]"
  have step: "pack_action_step ly primary gripper s v = Inr (put_slice a (?x s) v)"
    if s: "s \<in> set (ly_sides ly)" and m: "dget (ly_primary ly) s = Some (a, b)" and v: "length v = ?n" for s a b v
  proof -
    obtain f a' b' where i: "dget (ly_primary ly) s = Some (a', b')" "dget (ly_gripper ly) s = Some b'"
      "a' \<le> b'" "b' < ?n" using action_ok_at[OF ok s] by metis
    then have ab: "a' = a" "b' = b" using m by auto
    obtain x where x: "dget primary s = Some x" "length x = b - a" using val[OF s] m by auto
    have "(put_slice a x v)[b := ?g s] = put_slice a (x @ [?g s]) v"
      using put_slice_then_next[of a x v "?g s"] x(2) i ab v by simp
    then show ?thesis using i x ab by (simp add: pack_action_step_def ditem_def)
  qed
  have loop: "foldR (pack_action_step ly primary gripper) ss v
      = Inr (foldl (\<lambda>v (k, a, b). put_slice a (?x k) v) v (action_spans ly ss))"
    if "set ss \<subseteq> set (ly_sides ly)" "length v = ?n" for ss v
    using that
  proof (induction ss arbitrary: v)
    case (Cons s ss)
    then have s: "s \<in> set (ly_sides ly)" by simp
    obtain f a b where i: "dget (ly_primary ly) s = Some (a, b)" "dget (ly_gripper ly) s = Some b" "a \<le> b" "b < ?n"
      using action_ok_at[OF ok s] by metis
    have lx: "length (the (dget primary s)) = b - a" using val[OF s] i(1) by auto
    have "length (put_slice a (?x s) v) = ?n" using lx i Cons.prems(2) by simp
    then show ?case using Cons.IH[of "put_slice a (?x s) v"] Cons.prems step[OF s i(1) Cons.prems(2)] i
      by (simp add: action_spans_def)
  qed (simp add: action_spans_def)
  have t: "tiles 0 ?S ?n" using ok by (simp add: action_ok_def)
  have w: "length (?x k) = b - a" if mem: "(k, a, b) \<in> set ?S" for k a b
  proof -
    have k: "k \<in> set (ly_sides ly)" using mem by (auto simp: action_spans_def)
    obtain f a' b' where i: "dget (ly_primary ly) k = Some (a', b')" "dget (ly_gripper ly) k = Some b'" "a' \<le> b'"
      using action_ok_at[OF ok k] by metis
    have "a = a'" "b = b' + 1" using mem i by (auto simp: action_spans_def)
    then show ?thesis using val[OF k] i by auto
  qed
  show ?thesis
    using loop[of "ly_sides ly" "replicate ?n 0"] pack_tiles[OF t _ w, of "replicate ?n 0"]
    by (simp add: layout_pack_action_def)
qed

text \<open>Splitting a vector whose blocks are known.\<close>

lemma split_slices:
  assumes ok: "action_ok ly (ly_sides ly)" and len: "length v = ly_action_dim ly"
    and blk: "\<And>s a b. (s, a, b) \<in> set (action_spans ly (ly_sides ly)) \<Longrightarrow> slice a b v = X s @ [G s]"
  shows "layout_split ly v = Inr (map (\<lambda>s. (s, \<lparr>sa_field = the (dget (ly_field ly) s), sa_value = X s, sa_gripper = G s\<rparr>)) (ly_sides ly))"
proof -
  let ?one = "\<lambda>s. (s, \<lparr>sa_field = the (dget (ly_field ly) s), sa_value = X s, sa_gripper = G s\<rparr>)"
  have "rbind (ditem (ly_field ly) s) (\<lambda>f. rbind (ditem (ly_primary ly) s) (\<lambda>(a, b).
        rbind (ditem (ly_gripper ly) s) (\<lambda>g.
        if g < length v then Inr (s, \<lparr>sa_field = f, sa_value = slice a b v, sa_gripper = v ! g\<rparr>)
        else Inl IndexError))) = Inr (?one s)" if s: "s \<in> set (ly_sides ly)" for s
  proof -
    obtain f a b where i: "dget (ly_field ly) s = Some f" "dget (ly_primary ly) s = Some (a, b)"
      "dget (ly_gripper ly) s = Some b" "a \<le> b" "b < length v" "slice a (b + 1) v = X s @ [G s]"
      using action_ok_at[OF ok s] len blk by metis
    have "slice a (b + 1) v = slice a b v @ [v ! b]"
      using i(4,5) by (simp add: slice_def Suc_diff_le take_Suc_conv_app_nth)
    then show ?thesis using i by (simp add: ditem_def)
  qed
  then show ?thesis using len mapR_Inr_map[of "ly_sides ly" _ ?one] by (simp add: layout_split_def)
qed

lemma mk_stream_spec_dim: "mk_stream_spec n d c ty r = Inr sp \<Longrightarrow> ss_dim sp = d"
  by (auto simp: mk_stream_spec_def split: if_splits)

lemma chunks_concat: "length xs = n * k \<Longrightarrow> concat (chunks n k xs) = xs"
  by (induction n arbitrary: xs) auto

lemma chunks_length: "length (chunks n k xs) = n"
  by (induction n arbitrary: xs) auto

lemma chunks_rows: "length xs = n * k \<Longrightarrow> r \<in> set (chunks n k xs) \<Longrightarrow> length r = k"
proof (induction n arbitrary: xs)
  case (Suc n)
  then show ?case using Suc.IH[of "drop k xs"] by auto
qed simp

section \<open>Properties\<close>

text \<open>
  The layout tiles its vectors: for distinct arms and signals the state blocks follow one
  another without gap or overlap, sides in canonical order and signals in the given order, and
  cover exactly the state dimension, with one name per element; likewise the action blocks, each
  a primary block followed by its gripper element.
\<close>

theorem layout_tiles:
  assumes "mk_layout arms signals action_sides = Inr ly" "distinct (dkeys arms)" "distinct signals"
  shows "tiles 0 (ly_state ly) (ly_state_dim ly)
    \<and> dkeys (ly_state ly) = List.product (sorted_sides (dkeys arms)) signals
    \<and> length (ly_state_names ly) = ly_state_dim ly
    \<and> state_stream_names ly = map (\<lambda>(s, g). stream_name s g) (dkeys (ly_state ly))
    \<and> tiles 0 (action_spans ly (ly_sides ly)) (ly_action_dim ly)
    \<and> length (ly_action_names ly) = ly_action_dim ly"
  using mk_layout_ok[OF assms] by (simp add: state_ok_def action_ok_def)

definition demo_arm :: arm_cfg where
  "demo_arm =
     \<lparr>ar_streams = [(''q'', \<lparr>sc_dim = 7, sc_dtype = ''float64'', sc_capacity = 4096, sc_rate_hz = 1000, sc_dummy = False\<rparr>)],
      ar_control = demo_cfg ''qpos'' ''NRT_JOINT_POSITION'' [(''q_d'', 7), (''dq_d'', 7)] [''q_d'', ''dq_d'']\<rparr>"

text \<open>Two Rizon arms under joint position control give the deployed layout.\<close>

lemma mk_layout_two_arms:
  "mk_layout [(''right'', demo_arm), (''left'', demo_arm)] [''q''] [''left'', ''right''] = Inr bimanual_qpos"
  by (simp add: mk_layout_def sorted_sides_def side_order_def empty_layout_def add_state_block_def
      add_action_side_def demo_arm_def demo_cfg_def action_field_def action_dim_def ACTION_PRIMARY_def ditem_def
      bimanual_qpos_def Let_def)

theorem layout_tiles_witness:
  "tiles 0 (ly_state bimanual_qpos) 14 \<and> tiles 0 (action_spans bimanual_qpos [''left'', ''right'']) 16"
  using layout_tiles[OF mk_layout_two_arms] by (simp add: bimanual_qpos_def)

text \<open>
  Splitting undoes packing: for a layout built from the configuration, packing a primary
  value of the right width for every action side and the gripper fractions, and splitting the
  vector again, gives for each side in canonical order exactly its field name, its value and its
  gripper fraction (0 when none was given).
\<close>

theorem split_pack_action:
  assumes "mk_layout arms signals action_sides = Inr ly" "distinct (dkeys arms)" "distinct signals"
    and val: "\<And>s. s \<in> set (ly_sides ly) \<Longrightarrow> \<exists>x. dget primary s = Some x \<and> action_dof ly s = Inr (length x)"
  shows "\<exists>v. layout_pack_action ly primary gripper = Inr v \<and> length v = ly_action_dim ly
    \<and> layout_split ly v = Inr (map (\<lambda>s. (s, \<lparr>sa_field = the (dget (ly_field ly) s), sa_value = the (dget primary s),
         sa_gripper = (case dget gripper s of None \<Rightarrow> 0 | Some g \<Rightarrow> g)\<rparr>)) (ly_sides ly))"
proof -
  have ok: "action_ok ly (ly_sides ly)" by (rule mk_layout_ok[OF assms(1-3)])
  have "\<exists>x a b. dget primary s = Some x \<and> dget (ly_primary ly) s = Some (a, b) \<and> length x = b - a"
    if "s \<in> set (ly_sides ly)" for s
    using val[OF that] by (auto simp: action_dof_def ditem_Inr)
  from layout_pack_action_slices[OF ok this] obtain v where v: "layout_pack_action ly primary gripper = Inr v"
      "length v = ly_action_dim ly"
      "\<And>s a b. (s, a, b) \<in> set (action_spans ly (ly_sides ly)) \<Longrightarrow>
         slice a b v = the (dget primary s) @ [case dget gripper s of None \<Rightarrow> 0 | Some g \<Rightarrow> g]"
    by blast
  show ?thesis
    using split_slices[OF ok v(2), where X = "\<lambda>s. the (dget primary s)" and G = "\<lambda>s. case dget gripper s of None \<Rightarrow> 0 | Some g \<Rightarrow> g"] v by blast
qed

theorem split_pack_action_witness:
  "\<exists>v. layout_pack_action bimanual_qpos [(''left'', replicate 7 1), (''right'', replicate 7 2)] [(''left'', 1)] = Inr v
    \<and> layout_split bimanual_qpos v = Inr
        [(''left'', \<lparr>sa_field = ''q_d'', sa_value = replicate 7 1, sa_gripper = 1\<rparr>),
         (''right'', \<lparr>sa_field = ''q_d'', sa_value = replicate 7 2, sa_gripper = 0\<rparr>)]"
proof -
  have d: "distinct (dkeys [(''right'', demo_arm), (''left'', demo_arm)])" "distinct [''q'']" by simp_all
  have sides: "ly_sides bimanual_qpos = [''left'', ''right'']"
    "dget (ly_field bimanual_qpos) ''left'' = Some ''q_d''" "dget (ly_field bimanual_qpos) ''right'' = Some ''q_d''"
    by (simp_all add: bimanual_qpos_def)
  have dof: "\<exists>x. dget [(''left'', replicate 7 1), (''right'', replicate 7 2)] s = Some x
      \<and> action_dof bimanual_qpos s = Inr (length x)" if "s \<in> set (ly_sides bimanual_qpos)" for s
    using that by (auto simp: bimanual_qpos_def action_dof_def ditem_def)
  show ?thesis
    using split_pack_action[OF mk_layout_two_arms d dof, of "[(''left'', 1)]"] by (auto simp: sides)
qed

text \<open>
  State vectors hold their signals: packing a value of the right width for every block of a
  layout built from the configuration succeeds, and every block of the vector, read back through
  \<^verbatim>\<open>state_slice\<close>, is the value given for it.
\<close>

theorem pack_state_slices:
  assumes "mk_layout arms signals action_sides = Inr ly" "distinct (dkeys arms)" "distinct signals"
    and val: "\<And>k a b. (k, a, b) \<in> set (ly_state ly) \<Longrightarrow> \<exists>x. dget vals k = Some x \<and> length x = b - a"
  shows "\<exists>v. pack_state ly vals = Inr v \<and> length v = ly_state_dim ly
    \<and> (\<forall>side sig a b. state_slice ly side sig = Inr (a, b) \<longrightarrow> Some (slice a b v) = dget vals (side, sig))"
proof -
  have ok: "tiles 0 (ly_state ly) (ly_state_dim ly)" using mk_layout_ok(1)[OF assms(1-3)] by (simp add: state_ok_def)
  let ?x = "\<lambda>k. the (dget vals k)"
  have w: "length (?x k) = b - a" if "(k, a, b) \<in> set (ly_state ly)" for k a b using val[OF that] by auto
  have "pack_state ly vals = Inr (foldl (\<lambda>v (k, a, b). put_slice a (?x k) v) (replicate (ly_state_dim ly) 0) (ly_state ly))"
    unfolding pack_state_def using val by (intro foldR_put_slices) (fastforce simp: ditem_def)
  moreover have "Some (?x k) = dget vals k" if "(k, a, b) \<in> set (ly_state ly)" for k a b
    using val[OF that] by auto
  ultimately show ?thesis
    using pack_tiles[OF ok _ w, of "replicate (ly_state_dim ly) 0"]
    by (fastforce simp: state_slice_def ditem_Inr dest!: dget_mem)
qed

theorem pack_state_slices_witness:
  "\<exists>v. pack_state bimanual_qpos [((''left'', ''q''), replicate 7 1), ((''right'', ''q''), replicate 7 2)] = Inr v
    \<and> slice 7 14 v = replicate 7 2"
proof -
  have d: "distinct (dkeys [(''right'', demo_arm), (''left'', demo_arm)])" "distinct [''q'']" by simp_all
  have "\<exists>v. pack_state bimanual_qpos [((''left'', ''q''), replicate 7 1), ((''right'', ''q''), replicate 7 2)] = Inr v
    \<and> length v = ly_state_dim bimanual_qpos
    \<and> (\<forall>side sig a b. state_slice bimanual_qpos side sig = Inr (a, b) \<longrightarrow>
         Some (slice a b v) = dget [((''left'', ''q''), replicate 7 1), ((''right'', ''q''), replicate 7 2)] (side, sig))"
    by (rule pack_state_slices[OF mk_layout_two_arms d]) (auto simp: bimanual_qpos_def)
  moreover have "state_slice bimanual_qpos ''right'' ''q'' = Inr (7, 14)"
    by (simp add: state_slice_def bimanual_qpos_def ditem_def)
  ultimately show ?thesis by fastforce
qed

text \<open>
  The hand-written deployment layout is the computed one: for any two arms whose only state
  signal \<open>q\<close> has seven elements and whose control kind is \<open>qpos\<close> with a seven-element \<open>q_d\<close>, the
  constructor gives exactly \<^verbatim>\<open>bimanual_qpos()\<close>, in whichever order the arms are configured.
\<close>

theorem bimanual_qpos_is_layout:
  assumes "\<And>a. a = l \<or> a = r \<Longrightarrow> (\<exists>sc. dget (ar_streams a) ''q'' = Some sc \<and> sc_dim sc = 7)
      \<and> ct_kind (ar_control a) = ''qpos'' \<and> dget (ct_command (ar_control a)) ''q_d'' = Some 7"
  shows "mk_layout [(''left'', l), (''right'', r)] [''q''] [''left'', ''right''] = Inr bimanual_qpos
    \<and> mk_layout [(''right'', r), (''left'', l)] [''q''] [''right'', ''left''] = Inr bimanual_qpos"
  using assms[of l] assms[of r]
  by (auto simp: mk_layout_def sorted_sides_def side_order_def empty_layout_def add_state_block_def
      add_action_side_def action_field_def action_dim_def ACTION_PRIMARY_def ditem_def
      bimanual_qpos_def Let_def)

theorem bimanual_qpos_is_layout_witness:
  "mk_layout [(''left'', demo_arm), (''right'', demo_arm)] [''q''] [''left'', ''right''] = Inr bimanual_qpos"
  using bimanual_qpos_is_layout[of demo_arm demo_arm] by (simp add: demo_arm_def demo_cfg_def)

text \<open>
  Image frames survive the flat stream: for every canonical view, the stream specification's
  dimension is the number of elements of the view's shape, a sample of that size reshapes to
  height-many rows of the camera's width, and flattening it again gives the sample.
\<close>

theorem frame_round_trip:
  assumes "camera_streams_to_specs name cam = Inr specs" "i < length (cam_views cam)"
    and "int (length vec) = ss_dim (specs ! i)"
  shows "case reshape_frame vec cam (cam_views cam ! i) of
      Inr (Gray m) \<Rightarrow> length m = cam_height cam \<and> (\<forall>r \<in> set m. length r = cam_width cam) \<and> concat m = vec
    | Inr (Color m) \<Rightarrow> length m = cam_height cam \<and> (\<forall>r \<in> set m. length r = cam_width cam)
        \<and> concat (map concat m) = vec
    | Inl e \<Rightarrow> False"
proof -
  let ?h = "cam_height cam" and ?w = "cam_width cam" and ?v = "cam_views cam ! i"
  obtain c ty where sp: "view_channels ?v = Inr c"
      "mk_stream_spec (camera_stream_name name ?v) (int (?h * ?w * c)) (cam_capacity cam) ty (Some (cam_fps cam))
        = Inr (specs ! i)"
    using mapR_nth[OF assms(1)[unfolded camera_streams_to_specs_def] assms(2)] by auto
  have "ss_dim (specs ! i) = int (?h * ?w * c)"
    by (rule mk_stream_spec_dim[OF sp(2)])
  then have c: "view_channels ?v = Inr c" "length vec = ?h * ?w * c" using sp(1) assms(3) by linarith+
  show ?thesis
  proof (cases "?v = ''depth''")
    case True
    then have "c = 1" using c(1) by (simp add: view_channels_def RGB_VIEWS_def)
    then show ?thesis using c True chunks_concat[of vec ?h ?w] chunks_length[of ?h ?w vec] chunks_rows[of vec ?h ?w]
      by (simp add: reshape_frame_def view_shape_def)
  next
    case False
    then have "c = 3" using c(1) by (auto simp: view_channels_def split: if_splits)
    then have r: "reshape_frame vec cam ?v = Inr (Color (map (chunks ?w 3) (chunks ?h (?w * 3) vec)))"
      using c False by (simp add: reshape_frame_def view_shape_def)
    have l: "length vec = ?h * (?w * 3)" using c \<open>c = 3\<close> by simp
    have "map (concat \<circ> chunks ?w 3) (chunks ?h (?w * 3) vec) = chunks ?h (?w * 3) vec"
      using chunks_rows[OF l] by (intro map_idI) (simp add: chunks_concat)
    then show ?thesis using r l chunks_concat[OF l] by (auto simp: chunks_length)
  qed
qed

theorem frame_round_trip_witness:
  "case reshape_frame [1, 2, 3, 4, 5, 6 :: int]
      \<lparr>cam_width = 2, cam_height = 1, cam_fps = 30, cam_views = [''left''], cam_capacity = 16\<rparr> ''left'' of
     Inr (Color m) \<Rightarrow> concat (map concat m) = [1, 2, 3, 4, 5, 6] | _ \<Rightarrow> False"
proof -
  let ?c = "\<lparr>cam_width = 2, cam_height = 1, cam_fps = 30, cam_views = [''left''], cam_capacity = 16\<rparr>"
  let ?s = "\<lparr>ss_name = camera_stream_name ''wrist'' ''left'', ss_dim = 6, ss_capacity = 16, ss_dtype = ''uint8'', ss_rate_hz = Some 30\<rparr>"
  have h: "camera_streams_to_specs ''wrist'' ?c = Inr [?s]" "0 < length (cam_views ?c)"
    by (simp_all add: camera_streams_to_specs_def view_channels_def view_dtype_def RGB_VIEWS_def
        mk_stream_spec_def ALLOWED_DTYPES_def camera_stream_name_def camera_prefix_def)
  have "reshape_frame [1, 2, 3, 4, 5, 6 :: int] ?c ''left'' = Inr (Color [[[1, 2, 3], [4, 5, 6]]])"
    by (simp add: reshape_frame_def view_shape_def view_channels_def RGB_VIEWS_def numeral_2_eq_2)
  then show ?thesis using frame_round_trip[OF h, of "[1, 2, 3, 4, 5, 6 :: int]"] by simp
qed

end
