(* ===== verification/Arm_Source.thy ===== *)
theory Arm_Source
  imports State_Layout
begin

text \<open>
  The data and command sources of one arm: the wrapper of the robot connection
  \<open>FlexivSource\<close>, the simulated \<open>FakeFlexivSource\<close> (\<^verbatim>\<open>interfaces/flexiv/source.py\<close>) and the
  mapping of robot states to signals (\<^verbatim>\<open>interfaces/flexiv/states.py\<close>).

  The robot SDK is not part of the repository. Its answers (fault flag, operational flag, states,
  gripper parameters) are arguments; every command sent to it is appended to \<open>src_calls\<close>, in
  order. Polling loops take the list of observations their iterations make; the value \<open>None\<close>
  means still waiting. The SDK accepts the calls it is sent, except for the gripper set-up,
  whose failure the code handles.
\<close>

section \<open>Robot states\<close>

record robot_states =
  rs_q :: "real list"
  rs_dq :: "real list"
  rs_tau :: "real list"
  rs_tau_ext :: "real list"
  rs_tcp_pose :: "real list"
  rs_tcp_vel :: "real list"
  rs_wrench_tcp :: "real list"
  rs_wrench_world :: "real list"

definition map_states :: "robot_states \<Rightarrow> string \<Rightarrow> (string, real list) dict res" where
  "map_states rs wrench_frame =
     rbind (ditem [(''local'', rs_wrench_tcp), (''world'', rs_wrench_world)] wrench_frame) (\<lambda>attr.
     Inr [(''q'', rs_q rs), (''dq'', rs_dq rs), (''tau'', rs_tau rs), (''tau_ext'', rs_tau_ext rs),
          (''wrench'', attr rs), (''eef'', rs_tcp_pose rs), (''eef_vel'', rs_tcp_vel rs)])"

section \<open>Configuration and SDK calls\<close>

record coeffs_cfg =
  co_max_contact_wrench :: "real list option"
  co_null_space_posture :: "real list option"
  co_joint_stiffness_scale :: real
  co_max_joint_vel :: real
  co_max_joint_acc :: real
  co_max_linear_vel :: real
  co_max_angular_vel :: real
  co_max_linear_acc :: real
  co_max_angular_acc :: real

record gripper_cfg =
  gc_enabled :: bool
  gc_name :: string
  gc_velocity :: real
  gc_force :: real
  gc_move_rate_hz :: real
  gc_deadband :: real
  gc_init_on_start :: bool
  gc_open_width :: "real option"
  gc_closed_width :: "real option"

record gripper_params =
  gp_min_width :: real
  gp_max_width :: real
  gp_min_vel :: real
  gp_max_vel :: real
  gp_min_force :: real
  gp_max_force :: real

datatype rdk_call =
    ClearFault
  | Enable
  | Stop
  | SwitchMode string
  | MoveJ "real list"
  | SendJointPosition "real list" "real list" "real list" "real list"
  | SendCartesianMotionForce "real list" "real list" "real list" real real real real
  | SetCartesianImpedance "real list" "real list"
  | SetMaxContactWrench "real list"
  | SetNullSpacePosture "real list"
  | SetForceControlAxis "bool list" "real list"
  | SetForceControlFrame string "real list"
  | SetJointImpedance "real list" "real list"
  | GripperEnable string
  | GripperInit
  | GripperMove real real real
  | GripperStop

record gripper_state =
  gr_open_w :: real
  gr_closed_w :: real
  gr_vel :: real
  gr_force :: real
  gr_min_period_ns :: int
  gr_deadband :: real
  gr_last_val :: "real option"
  gr_last_send_ns :: int

record flexiv_source =
  src_dof :: nat
  src_connected :: bool
  src_control_target :: "real list option"
  src_gripper :: "gripper_state option"
  src_calls :: "rdk_call list"

definition emit :: "rdk_call list \<Rightarrow> flexiv_source \<Rightarrow> flexiv_source" where
  "emit cs s = s\<lparr>src_calls := src_calls s @ cs\<rparr>"

section \<open>Pose integration\<close>

definition quat_mult :: "real list \<Rightarrow> real list \<Rightarrow> real list" where
  "quat_mult a b =
     (let aw = a ! 0; ax = a ! 1; ay = a ! 2; az = a ! 3; bw = b ! 0; bx = b ! 1; bY = b ! 2; bz = b ! 3
      in [aw * bw - ax * bx - ay * bY - az * bz,
          aw * bx + ax * bw + ay * bz - az * bY,
          aw * bY - ax * bz + ay * bw + az * bx,
          aw * bz + ax * bY - ay * bx + az * bw])"

definition norm2 :: "real list \<Rightarrow> real" where
  "norm2 v = sqrt (\<Sum>x \<leftarrow> v. x * x)"

text \<open>For a pose of seven and a twist of six elements; numpy raises on other shapes.\<close>

definition integrate_pose :: "real list \<Rightarrow> real list \<Rightarrow> real \<Rightarrow> real list res" where
  "integrate_pose pose twist dt =
     (if length pose \<noteq> 7 \<or> length twist \<noteq> 6 then Inl ValueError
      else let pos = map2 (\<lambda>p v. p + v * dt) (take 3 pose) (take 3 twist);
               q = slice 3 7 pose; w = slice 3 6 twist;
               qdot = map (\<lambda>x. x / 2) (quat_mult [0, w ! 0, w ! 1, w ! 2] q);
               qn = map2 (\<lambda>x y. x + y * dt) q qdot;
               n = norm2 qn
        in Inr (pos @ (if n > 1 / 10 ^ 9 then map (\<lambda>x. x / n) qn else q)))"

section \<open>Connecting and enabling\<close>

text \<open>A poll of a flag with a deadline; one observation is the flag and the monotonic clock.\<close>

fun await_flag :: "real \<Rightarrow> (bool \<times> real) list \<Rightarrow> unit res option" where
  "await_flag deadline [] = None"
| "await_flag deadline ((flag, now) # os) =
     (if flag then Some (Inr ())
      else if now > deadline then Some (Inl TimeoutError)
      else await_flag deadline os)"

definition clear_fault :: "bool \<Rightarrow> bool \<Rightarrow> flexiv_source \<Rightarrow> unit res \<times> flexiv_source" where
  "clear_fault fault cleared s =
     (if fault then (if cleared then Inr () else Inl RuntimeError, emit [ClearFault] s) else (Inr (), s))"

definition source_open ::
    "bool \<Rightarrow> real \<Rightarrow> bool \<Rightarrow> bool \<Rightarrow> real \<Rightarrow> (bool \<times> real) list \<Rightarrow> bool \<Rightarrow> (bool \<times> real) list
     \<Rightarrow> flexiv_source \<Rightarrow> (unit res \<times> flexiv_source) option" where
  "source_open require_operational timeout fault cleared start conn operational oper s =
     (case clear_fault fault cleared s of
        (Inl e, s1) \<Rightarrow> Some (Inl e, s1)
      | (Inr u, s1) \<Rightarrow>
         (case await_flag (start + timeout) conn of
            None \<Rightarrow> None
          | Some (Inl e) \<Rightarrow> Some (Inl e, s1)
          | Some (Inr u) \<Rightarrow>
              if require_operational \<and> \<not> operational
              then (case await_flag (start + timeout) oper of
                      None \<Rightarrow> None
                    | Some (Inl e) \<Rightarrow> Some (Inl e, emit [Enable] s1)
                    | Some (Inr u) \<Rightarrow> Some (Inr (), (emit [Enable] s1)\<lparr>src_connected := True\<rparr>))
              else Some (Inr (), s1\<lparr>src_connected := True\<rparr>)))"

definition enter_control ::
    "real \<Rightarrow> bool \<Rightarrow> bool \<Rightarrow> real \<Rightarrow> (bool \<times> real) list \<Rightarrow> flexiv_source
     \<Rightarrow> (unit res \<times> flexiv_source) option" where
  "enter_control timeout fault cleared start oper s =
     (case clear_fault fault cleared s of
        (Inl e, s1) \<Rightarrow> Some (Inl e, s1)
      | (Inr u, s1) \<Rightarrow>
          (case await_flag (start + timeout) oper of
             None \<Rightarrow> None
           | Some r \<Rightarrow> Some (r, emit [Enable] s1)))"

definition source_stop :: "flexiv_source \<Rightarrow> flexiv_source" where
  "source_stop s = (if src_connected s then emit [Stop] s else s)"

text \<open>\<open>read_status\<close> from the SDK's answers.\<close>

definition read_status :: "int \<Rightarrow> bool \<Rightarrow> bool \<Rightarrow> int \<Rightarrow> real list" where
  "read_status operational_status estop_released operational mode =
     [of_int operational_status, of_bool (\<not> estop_released), of_bool operational, of_int mode]"

section \<open>Starting control\<close>

text \<open>One poll of the MoveJ bootstrap: the abort predicate and the \<open>reachedTarget\<close> state.\<close>

fun bootstrap_wait :: "(bool \<times> int option) list \<Rightarrow> bool option" where
  "bootstrap_wait [] = None"
| "bootstrap_wait ((abort, reached) # os) =
     (if abort then Some False
      else if (case reached of None \<Rightarrow> 0 | Some r \<Rightarrow> r) = 1 then Some True
      else bootstrap_wait os)"

definition bootstrap_calls :: "real list \<Rightarrow> rdk_call list" where
  "bootstrap_calls q_d = [SwitchMode ''NRT_PRIMITIVE_EXECUTION'', MoveJ (map degrees q_d)]"

text \<open>\<open>K_q_nom\<close>: the robot's nominal joint stiffness, from \<open>robot.info ()\<close>.\<close>

definition apply_coeffs :: "control_cfg \<Rightarrow> coeffs_cfg \<Rightarrow> real list \<Rightarrow> rdk_call list res" where
  "apply_coeffs cfg co K_q_nom =
     (if ct_mode cfg = ''NRT_CARTESIAN_MOTION_FORCE'' then
        Inr ((case ct_cartesian_impedance cfg of None \<Rightarrow> [] | Some i \<Rightarrow> [SetCartesianImpedance (ci_K_x i) (ci_Z_x i)])
           @ (case co_max_contact_wrench co of None \<Rightarrow> [] | Some w \<Rightarrow> [SetMaxContactWrench w])
           @ (case co_null_space_posture co of None \<Rightarrow> [] | Some p \<Rightarrow> [SetNullSpacePosture p])
           @ (case ct_force_axes cfg of None \<Rightarrow> [] | Some ax \<Rightarrow>
                [SetForceControlAxis ax (case ct_force_max_vel cfg of
                    None \<Rightarrow> [1, 1, 1] | Some v \<Rightarrow> if v = [] then [1, 1, 1] else v)])
           @ (case ct_force_frame cfg of None \<Rightarrow> [] | Some f \<Rightarrow> [SetForceControlFrame (ff_root_coord f) (ff_T_in_root f)]))
      else if ct_mode cfg = ''NRT_JOINT_IMPEDANCE'' then
        (case ct_joint_impedance cfg of
           None \<Rightarrow> Inr []
         | Some imp \<Rightarrow>
             (let scale = co_joint_stiffness_scale co in
              if \<not> (0 < scale \<and> scale \<le> 1) then Inl ValueError
              else let K_q = (case ji_K_q_fraction imp of
                                Some fr \<Rightarrow> map (\<lambda>k. scale * fr * k) K_q_nom
                              | None \<Rightarrow> map (\<lambda>k. scale * k) (ji_K_q imp))
                in Inr [SetJointImpedance K_q (ji_Z_q imp)]))
      else Inr [])"

text \<open>\<open>boots\<close> are the polls of the bootstrap; only joint-position control makes them.\<close>

definition start_control ::
    "control_cfg \<Rightarrow> coeffs_cfg \<Rightarrow> real list \<Rightarrow> (string, real list) dict \<Rightarrow> robot_states
     \<Rightarrow> (bool \<times> int option) list \<Rightarrow> flexiv_source \<Rightarrow> (bool res \<times> flexiv_source) option" where
  "start_control cfg co K_q_nom first_fields rs boots s =
     (let finish = (\<lambda>s1. case apply_coeffs cfg co K_q_nom of
                        Inl e \<Rightarrow> Some (Inl e, s1) | Inr cs \<Rightarrow> Some (Inr True, emit cs s1)) in
      if ct_kind cfg = ''qpos'' then
        (case ditem first_fields ''q_d'' of
           Inl e \<Rightarrow> Some (Inl e, s)
         | Inr q_d \<Rightarrow>
            (case bootstrap_wait boots of
               None \<Rightarrow> None
             | Some reached \<Rightarrow>
                 if \<not> reached then Some (Inr False, emit (bootstrap_calls q_d) s)
                 else finish (emit (bootstrap_calls q_d @ [SwitchMode (ct_mode cfg)]) s)))
      else if ct_kind cfg = ''qvel'' then
        finish ((emit [SwitchMode (ct_mode cfg)] s)\<lparr>src_control_target := Some (rs_q rs)\<rparr>)
      else if ct_kind cfg \<in> {''end_effector'', ''eef_vel'', ''force''} then
        finish ((emit [SwitchMode ''NRT_CARTESIAN_MOTION_FORCE''] s)\<lparr>src_control_target := Some (rs_tcp_pose rs)\<rparr>)
      else Some (Inl ValueError, s))"

section \<open>Sending one command\<close>

definition np_sub :: "real list \<Rightarrow> real list \<Rightarrow> real list res" where
  "np_sub a b = np_add a (map uminus b)"

text \<open>The safety gate: largest joint error of the commanded against the measured position.\<close>

definition safety_gate :: "bool \<Rightarrow> real \<Rightarrow> real list \<Rightarrow> real list \<Rightarrow> unit res" where
  "safety_gate safety_check tolerance q_d q =
     (if \<not> safety_check then Inr ()
      else rbind (np_sub q_d q) (\<lambda>d. rbind (linf d) (\<lambda>err.
        if err > tolerance then Inl SafetyHalt else Inr ())))"

definition joint_targets ::
    "control_cfg \<Rightarrow> (string, real list) dict \<Rightarrow> real \<Rightarrow> flexiv_source \<Rightarrow> (real list \<times> real list) res" where
  "joint_targets cfg flds dt s =
     (if ct_kind cfg = ''qpos'' then
        rbind (ditem flds ''q_d'') (\<lambda>q_d.
        Inr (q_d, case dget flds ''dq_d'' of None \<Rightarrow> replicate (src_dof s) 0 | Some v \<Rightarrow> v))
      else
        rbind (ditem flds ''dq_d'') (\<lambda>dq_d.
        case src_control_target s of
          None \<Rightarrow> Inl TypeError
        | Some tgt \<Rightarrow> rbind (np_add tgt (map (\<lambda>x. x * dt) dq_d)) (\<lambda>q_d. Inr (q_d, dq_d))))"

definition send_joint ::
    "control_cfg \<Rightarrow> coeffs_cfg \<Rightarrow> (string, real list) dict \<Rightarrow> robot_states \<Rightarrow> real \<Rightarrow> bool \<Rightarrow> real
     \<Rightarrow> flexiv_source \<Rightarrow> flexiv_source res" where
  "send_joint cfg co flds rs dt safety_check tolerance s =
     rbind (joint_targets cfg flds dt s) (\<lambda>(q_d, dq_d).
     rbind (safety_gate safety_check tolerance q_d (rs_q rs)) (\<lambda>u.
     let s1 = (if ct_kind cfg = ''qvel'' then s\<lparr>src_control_target := Some q_d\<rparr> else s)
     in Inr (emit [SendJointPosition q_d dq_d (replicate (src_dof s) (co_max_joint_vel co))
                    (replicate (src_dof s) (co_max_joint_acc co))] s1)))"

definition send_cartesian ::
    "control_cfg \<Rightarrow> coeffs_cfg \<Rightarrow> (string, real list) dict \<Rightarrow> real \<Rightarrow> flexiv_source \<Rightarrow> flexiv_source res" where
  "send_cartesian cfg co flds dt s =
     (let send = (\<lambda>pose wrench twist s1.
        emit [SendCartesianMotionForce pose wrench twist (co_max_linear_vel co) (co_max_angular_vel co)
                (co_max_linear_acc co) (co_max_angular_acc co)] s1)
      in if ct_kind cfg = ''eef_vel'' then
        rbind (ditem flds ''twist_d'') (\<lambda>twist.
        case src_control_target s of
          None \<Rightarrow> Inl TypeError
        | Some tgt \<Rightarrow> rbind (integrate_pose tgt twist dt) (\<lambda>p.
            Inr (send p (replicate 6 0) twist (s\<lparr>src_control_target := Some p\<rparr>))))
      else if ct_kind cfg = ''end_effector'' then
        rbind (ditem flds ''pose_d'') (\<lambda>p.
        Inr (send p (replicate 6 0) (case dget flds ''twist_d'' of None \<Rightarrow> replicate 6 0 | Some v \<Rightarrow> v) s))
      else
        rbind (case dget flds ''pose_d'' of
                 Some p \<Rightarrow> Inr p
               | None \<Rightarrow> (case src_control_target s of None \<Rightarrow> Inl TypeError | Some t \<Rightarrow> Inr t)) (\<lambda>p.
        rbind (ditem flds ''wrench_d'') (\<lambda>w. Inr (send p w (replicate 6 0) s))))"

definition send_control ::
    "control_cfg \<Rightarrow> coeffs_cfg \<Rightarrow> (string, real list) dict \<Rightarrow> robot_states \<Rightarrow> real \<Rightarrow> bool \<Rightarrow> real
     \<Rightarrow> flexiv_source \<Rightarrow> flexiv_source res" where
  "send_control cfg co flds rs dt safety_check tolerance s =
     (if ct_kind cfg \<in> {''qpos'', ''qvel''} then send_joint cfg co flds rs dt safety_check tolerance s
      else send_cartesian cfg co flds dt s)"

section \<open>Gripper\<close>

definition clip :: "real \<Rightarrow> real \<Rightarrow> real \<Rightarrow> real" where
  "clip x lo hi = min hi (max lo x)"

text \<open>\<open>answer\<close>: the gripper's parameters, or \<open>None\<close> when enabling, homing or reading them raised.\<close>

definition setup_gripper :: "gripper_cfg \<Rightarrow> gripper_params option \<Rightarrow> flexiv_source \<Rightarrow> bool \<times> flexiv_source" where
  "setup_gripper cfg answer s =
     (if src_gripper s \<noteq> None then (True, s)
      else if \<not> gc_enabled cfg \<or> gc_name cfg = '''' then (False, s)
      else let s1 = emit (GripperEnable (gc_name cfg) # (if gc_init_on_start cfg then [GripperInit] else [])) s
        in case answer of
          None \<Rightarrow> (False, s1)
        | Some p \<Rightarrow> (True, s1\<lparr>src_gripper := Some
            \<lparr>gr_open_w = (case gc_open_width cfg of Some w \<Rightarrow> w | None \<Rightarrow> gp_max_width p),
             gr_closed_w = (case gc_closed_width cfg of Some w \<Rightarrow> w | None \<Rightarrow> gp_min_width p),
             gr_vel = clip (gc_velocity cfg) (gp_min_vel p) (gp_max_vel p),
             gr_force = clip (gc_force cfg) (gp_min_force p) (gp_max_force p),
             gr_min_period_ns = \<lfloor>10 ^ 9 / max (1 / 10 ^ 3) (gc_move_rate_hz cfg)\<rfloor>,
             gr_deadband = gc_deadband cfg,
             gr_last_val = None,
             gr_last_send_ns = 0\<rparr>\<rparr>))"

definition gripper_due :: "gripper_state \<Rightarrow> real \<Rightarrow> int \<Rightarrow> bool" where
  "gripper_due g v now_ns \<longleftrightarrow>
     (case gr_last_val g of
        None \<Rightarrow> True
      | Some lv \<Rightarrow> \<not> (now_ns - gr_last_send_ns g < gr_min_period_ns g) \<and> \<not> \<bar>v - lv\<bar> < gr_deadband g)"

definition send_gripper :: "real \<Rightarrow> int \<Rightarrow> flexiv_source \<Rightarrow> flexiv_source" where
  "send_gripper value now_ns s =
     (case src_gripper s of
        None \<Rightarrow> s
      | Some g \<Rightarrow>
         (let v = clip value 0 1 in
          if \<not> gripper_due g v now_ns then s
          else let width = gr_open_w g + v * (gr_closed_w g - gr_open_w g)
            in (emit [GripperMove width (gr_vel g) (gr_force g)] s)
                 \<lparr>src_gripper := Some (g\<lparr>gr_last_val := Some v, gr_last_send_ns := now_ns\<rparr>)\<rparr>))"

definition stop_gripper :: "flexiv_source \<Rightarrow> flexiv_source" where
  "stop_gripper s =
     (case src_gripper s of None \<Rightarrow> s | Some g \<Rightarrow> (emit [GripperStop] s)\<lparr>src_gripper := None\<rparr>)"

definition source_close :: "flexiv_source \<Rightarrow> flexiv_source" where
  "source_close s = (stop_gripper s)\<lparr>src_connected := False, src_control_target := None\<rparr>"

section \<open>The simulated source\<close>

definition SIM_MODE_CODES :: "(string, real) dict" where
  "SIM_MODE_CODES = [(''IDLE'', 1), (''NRT_JOINT_IMPEDANCE'', 4), (''NRT_JOINT_POSITION'', 6),
     (''NRT_CARTESIAN_MOTION_FORCE'', 10)]"

text \<open>The mode code without the SDK installed; with it, \<open>sdk\<close> is its own table.\<close>

definition rdk_mode_code :: "(string, real) dict \<Rightarrow> string \<Rightarrow> real" where
  "rdk_mode_code sdk name =
     (case dget sdk name of Some c \<Rightarrow> c
      | None \<Rightarrow> (case dget SIM_MODE_CODES name of Some c \<Rightarrow> c | None \<Rightarrow> 0))"

record fake_source =
  fk_dof :: nat
  fk_phase :: "real list"
  fk_sdk_modes :: "(string, real) dict"
  fk_ctrl :: bool
  fk_mode_code :: real
  fk_tracked_q :: "real list option"
  fk_tracked_pose :: "real list option"
  fk_control_target :: "real list option"
  fk_gripper_ready :: bool
  fk_last_gripper :: "real option"

text \<open>\<open>t\<close>: seconds since \<open>open\<close>.\<close>

definition fake_read :: "real \<Rightarrow> fake_source \<Rightarrow> robot_states res" where
  "fake_read t s =
     (case (if fk_ctrl s then fk_tracked_q s else None) of
        Some tq \<Rightarrow>
          rbind (np_add tq (map (\<lambda>p. 1 / 10 ^ 4 * sin (t + p)) (fk_phase s))) (\<lambda>q.
          Inr \<lparr>rs_q = q, rs_dq = replicate (fk_dof s) 0, rs_tau = replicate (fk_dof s) 0,
               rs_tau_ext = replicate (fk_dof s) 0,
               rs_tcp_pose = (case fk_tracked_pose s of Some p \<Rightarrow> p | None \<Rightarrow> [1/2, 0, 4/10, 1, 0, 0, 0]),
               rs_tcp_vel = replicate 6 0, rs_wrench_tcp = replicate 6 0, rs_wrench_world = replicate 6 0\<rparr>)
      | None \<Rightarrow>
          (let w = [sin t, cos t, 1/2 * sin (2 * t), 0, 0, 0] in
           Inr \<lparr>rs_q = map (\<lambda>p. 1/2 * sin (t + p)) (fk_phase s),
                rs_dq = map (\<lambda>p. 1/2 * cos (t + p)) (fk_phase s),
                rs_tau = map (\<lambda>p. 2 * sin (1/2 * t + p)) (fk_phase s),
                rs_tau_ext = map (\<lambda>p. 3/4 * sin (8/10 * t + p)) (fk_phase s),
                rs_tcp_pose = [1/2 + 5/100 * sin t, 5/100 * cos t, 4/10, 1, 0, 0, 0],
                rs_tcp_vel = [5/100 * cos t, - (5/100) * sin t, 0, 0, 0, 0],
                rs_wrench_tcp = w, rs_wrench_world = w\<rparr>))"

definition fake_read_status :: "fake_source \<Rightarrow> real list" where
  "fake_read_status s = [1, 0, 1, 1][3 := fk_mode_code s]"

definition fake_stop :: "fake_source \<Rightarrow> fake_source" where
  "fake_stop s = s\<lparr>fk_ctrl := False, fk_mode_code := rdk_mode_code (fk_sdk_modes s) ''IDLE''\<rparr>"

definition fake_start_control ::
    "control_cfg \<Rightarrow> (string, real list) dict \<Rightarrow> robot_states \<Rightarrow> fake_source \<Rightarrow> bool res \<times> fake_source" where
  "fake_start_control cfg first_fields rs s =
     (let s0 = s\<lparr>fk_ctrl := True\<rparr>;
          switch = (\<lambda>s1. s1\<lparr>fk_mode_code := rdk_mode_code (fk_sdk_modes s)
            (if ct_kind cfg \<in> {''qpos'', ''qvel''} then ct_mode cfg else ''NRT_CARTESIAN_MOTION_FORCE'')\<rparr>)
      in if ct_kind cfg = ''qpos'' then
           (case ditem first_fields ''q_d'' of
              Inl e \<Rightarrow> (Inl e, s0) | Inr q \<Rightarrow> (Inr True, switch (s0\<lparr>fk_tracked_q := Some q\<rparr>)))
         else if ct_kind cfg = ''qvel'' then
           (Inr True, switch (s0\<lparr>fk_control_target := Some (rs_q rs), fk_tracked_q := Some (rs_q rs)\<rparr>))
         else (Inr True, switch (s0\<lparr>fk_control_target := Some (rs_tcp_pose rs), fk_tracked_pose := Some (rs_tcp_pose rs),
                            fk_tracked_q := Some (rs_q rs)\<rparr>)))"

definition fake_send_control ::
    "control_cfg \<Rightarrow> (string, real list) dict \<Rightarrow> real \<Rightarrow> fake_source \<Rightarrow> fake_source res" where
  "fake_send_control cfg flds dt s =
     (if ct_kind cfg = ''qpos'' then
        rbind (ditem flds ''q_d'') (\<lambda>q. Inr (s\<lparr>fk_tracked_q := Some q\<rparr>))
      else if ct_kind cfg = ''qvel'' then
        (case fk_control_target s of
           None \<Rightarrow> Inl TypeError
         | Some tgt \<Rightarrow> rbind (ditem flds ''dq_d'') (\<lambda>dq. rbind (np_add tgt (map (\<lambda>x. x * dt) dq)) (\<lambda>q.
             Inr (s\<lparr>fk_control_target := Some q, fk_tracked_q := Some q\<rparr>))))
      else if ct_kind cfg = ''eef_vel'' then
        (case fk_control_target s of
           None \<Rightarrow> Inl TypeError
         | Some tgt \<Rightarrow> rbind (ditem flds ''twist_d'') (\<lambda>tw. rbind (integrate_pose tgt tw dt) (\<lambda>p.
             Inr (s\<lparr>fk_control_target := Some p, fk_tracked_pose := Some p\<rparr>))))
      else if ct_kind cfg = ''end_effector'' then
        rbind (ditem flds ''pose_d'') (\<lambda>p. Inr (s\<lparr>fk_tracked_pose := Some p\<rparr>))
      else (case dget flds ''pose_d'' of None \<Rightarrow> Inr s | Some p \<Rightarrow> Inr (s\<lparr>fk_tracked_pose := Some p\<rparr>)))"

definition fake_setup_gripper :: "gripper_cfg \<Rightarrow> fake_source \<Rightarrow> bool \<times> fake_source" where
  "fake_setup_gripper cfg s =
     (if \<not> gc_enabled cfg \<or> gc_name cfg = '''' then (False, s) else (True, s\<lparr>fk_gripper_ready := True\<rparr>))"

definition fake_send_gripper :: "real \<Rightarrow> fake_source \<Rightarrow> fake_source" where
  "fake_send_gripper value s = (if fk_gripper_ready s then s\<lparr>fk_last_gripper := Some (clip value 0 1)\<rparr> else s)"

definition fake_stop_gripper :: "fake_source \<Rightarrow> fake_source" where
  "fake_stop_gripper s = s\<lparr>fk_gripper_ready := False\<rparr>"

section \<open>The gate\<close>

lemma np_sub_same_length: "length a = length b \<Longrightarrow> np_sub a b = Inr (map2 (-) a b)"
proof -
  assume l: "length a = length b"
  have "map2 (+) a (map uminus b) = map2 (-) a b"
    using l by (intro nth_equalityI) auto
  then show ?thesis using l by (simp add: np_sub_def np_add_def)
qed

lemma safety_gate_Inr:
  assumes "safety_gate True tol q_d q = Inr ()" "length q_d = length q" "j < length q"
  shows "\<bar>q_d ! j - q ! j\<bar> \<le> tol"
proof -
  obtain m where m: "linf (map2 (-) q_d q) = Inr m" "m \<le> tol"
    using assms(1) np_sub_same_length[OF assms(2)] by (auto simp: safety_gate_def split: if_splits)
  have "map2 (-) q_d q ! j \<in> set (map2 (-) q_d q)" using assms(2,3) by (intro nth_mem) simp
  from linf_le[OF m(1) this] show ?thesis using assms(2,3) m(2) by simp
qed

lemma safety_gate_halt:
  assumes "safety_gate chk tol q_d q = Inl SafetyHalt" "length q_d = length q"
  shows "chk \<and> (\<exists>j < length q. \<bar>q_d ! j - q ! j\<bar> > tol)"
proof -
  obtain m where c: chk and m: "linf (map2 (-) q_d q) = Inr m" "m > tol"
    using assms(1) np_sub_same_length[OF assms(2)]
    by (auto simp: safety_gate_def rbind_eq_Inl linf_def split: if_splits)
  obtain x where "x \<in> set (map2 (-) q_d q)" "m = \<bar>x\<bar>" using linf_mem[OF m(1)] by blast
  then obtain j where "j < length (map2 (-) q_d q)" "\<bar>map2 (-) q_d q ! j\<bar> = m"
    by (metis in_set_conv_nth)
  then show ?thesis using m(2) c assms(2) by auto
qed

lemma safety_gate_lenient [simp]: "safety_gate False tol q_d q = Inr ()"
  by (simp add: safety_gate_def)

section \<open>Velocity control integrates\<close>

text \<open>
  What the control session relies on for velocity kinds: an accepted command advances the joint
  target by velocity times step. Both sources provide it.
\<close>

locale velocity_plant =
  fixes target :: "'s \<Rightarrow> real list option"
    and vsend :: "real list \<Rightarrow> real \<Rightarrow> 's \<Rightarrow> 's res"
  assumes vsend_target: "target s = Some q \<Longrightarrow> length dq = length q \<Longrightarrow> vsend dq dt s = Inr s'
      \<Longrightarrow> target s' = Some (map2 (\<lambda>a b. a + b * dt) q dq)"
begin

fun vrun :: "(real list \<times> real) list \<Rightarrow> 's \<Rightarrow> 's res" where
  "vrun [] s = Inr s"
| "vrun ((dq, dt) # cs) s = rbind (vsend dq dt s) (vrun cs)"

lemma vrun_target:
  assumes "target s = Some q" "\<forall>c \<in> set cs. length (fst c) = length q" "vrun cs s = Inr s'"
  shows "\<exists>q'. target s' = Some q' \<and> length q' = length q
    \<and> (\<forall>j < length q. q' ! j = q ! j + (\<Sum>c \<leftarrow> cs. fst c ! j * snd c))"
  using assms
proof (induction cs arbitrary: s q)
  case (Cons c cs)
  obtain dq dt where c: "c = (dq, dt)" by (cases c)
  obtain s1 where s1: "vsend dq dt s = Inr s1" "vrun cs s1 = Inr s'" using Cons.prems(3) by (auto simp: c)
  let ?q = "map2 (\<lambda>a b. a + b * dt) q dq"
  have l: "length dq = length q" "length ?q = length q" using Cons.prems(2) by (auto simp: c)
  have "target s1 = Some ?q" using vsend_target[OF Cons.prems(1) l(1) s1(1)] .
  from Cons.IH[OF this _ s1(2)] show ?case using Cons.prems(2) l by (auto simp: c)
qed simp

end

lemma np_add_scaled:
  "length dq = length q \<Longrightarrow> np_add q (map (\<lambda>x. x * dt) dq) = Inr (map2 (\<lambda>a b. a + b * dt) q dq)"
proof -
  assume l: "length dq = length q"
  have "map2 (+) q (map (\<lambda>x. x * dt) dq) = map2 (\<lambda>a b. a + b * dt) q dq"
    using l by (intro nth_equalityI) auto
  then show ?thesis using l by (simp add: np_add_def)
qed

definition send_velocity ::
    "control_cfg \<Rightarrow> coeffs_cfg \<Rightarrow> robot_states \<Rightarrow> real \<Rightarrow> real list \<Rightarrow> real \<Rightarrow> flexiv_source \<Rightarrow> flexiv_source res" where
  "send_velocity cfg co rs tol dq dt s =
     send_control (cfg\<lparr>ct_kind := ''qvel''\<rparr>) co [(''dq_d'', dq)] rs dt True tol s"

definition fake_send_velocity :: "control_cfg \<Rightarrow> real list \<Rightarrow> real \<Rightarrow> fake_source \<Rightarrow> fake_source res" where
  "fake_send_velocity cfg dq dt s = fake_send_control (cfg\<lparr>ct_kind := ''qvel''\<rparr>) [(''dq_d'', dq)] dt s"

lemma emit_simps [simp]:
  "src_control_target (emit cs s) = src_control_target s" "src_calls (emit cs s) = src_calls s @ cs"
  "src_gripper (emit cs s) = src_gripper s" "src_dof (emit cs s) = src_dof s"
  "src_connected (emit cs s) = src_connected s"
  by (simp_all add: emit_def)

interpretation real_plant: velocity_plant src_control_target "send_velocity cfg co rs tol" for cfg co rs tol
  by unfold_locales
    (auto simp: send_velocity_def send_control_def send_joint_def joint_targets_def Let_def ditem_def np_add_scaled)

interpretation fake_plant: velocity_plant fk_control_target "fake_send_velocity cfg" for cfg
  by unfold_locales (auto simp: fake_send_velocity_def fake_send_control_def ditem_def np_add_scaled)

fun send_velocities ::
    "control_cfg \<Rightarrow> coeffs_cfg \<Rightarrow> robot_states \<Rightarrow> real \<Rightarrow> (real list \<times> real) list \<Rightarrow> flexiv_source \<Rightarrow> flexiv_source res" where
  "send_velocities cfg co rs tol [] s = Inr s"
| "send_velocities cfg co rs tol ((dq, dt) # cs) s =
     rbind (send_velocity cfg co rs tol dq dt s) (send_velocities cfg co rs tol cs)"

lemma send_velocities_vrun: "send_velocities cfg co rs tol cs s = real_plant.vrun cfg co rs tol cs s"
  by (induction cs arbitrary: s) (auto simp: rbind_def split: sum.splits)

section \<open>Gripper commands\<close>

lemma send_gripper_cases:
  assumes "src_gripper s = Some g"
  shows "send_gripper x t s = s \<and> \<not> gripper_due g (clip x 0 1) t
    \<or> gripper_due g (clip x 0 1) t
      \<and> src_gripper (send_gripper x t s) = Some (g\<lparr>gr_last_val := Some (clip x 0 1), gr_last_send_ns := t\<rparr>)
      \<and> src_calls (send_gripper x t s) = src_calls s
          @ [GripperMove (gr_open_w g + clip x 0 1 * (gr_closed_w g - gr_open_w g)) (gr_vel g) (gr_force g)]"
  using assms by (auto simp: send_gripper_def Let_def)

text \<open>The moves a run of gripper targets \<open>(time, value)\<close> makes, with their times.\<close>

fun gripper_run :: "(int \<times> real) list \<Rightarrow> flexiv_source \<Rightarrow> (int \<times> real) list" where
  "gripper_run [] s = []"
| "gripper_run ((t, x) # ts) s =
     (case src_gripper s of
        None \<Rightarrow> gripper_run ts s
      | Some g \<Rightarrow> (if gripper_due g (clip x 0 1) t then [(t, clip x 0 1)] else []) @ gripper_run ts (send_gripper x t s))"

fun spaced :: "int \<Rightarrow> real \<Rightarrow> (int \<times> real) list \<Rightarrow> bool" where
  "spaced per band ((t, v) # (t', v') # ms) \<longleftrightarrow> t' - t \<ge> per \<and> \<bar>v' - v\<bar> \<ge> band \<and> spaced per band ((t', v') # ms)"
| "spaced per band ms \<longleftrightarrow> True"

lemma gripper_run_spaced:
  assumes "src_gripper s = Some g"
  shows "spaced (gr_min_period_ns g) (gr_deadband g)
     ((case gr_last_val g of None \<Rightarrow> [] | Some v \<Rightarrow> [(gr_last_send_ns g, v)]) @ gripper_run ts s)"
  using assms
proof (induction ts arbitrary: s g)
  case Nil
  then show ?case by (cases "gr_last_val g") auto
next
  case (Cons p ts)
  obtain t x where p: "p = (t, x)" by (cases p)
  let ?v = "clip x 0 1"
  show ?case
  proof (cases "gripper_due g ?v t")
    case False
    then have "send_gripper x t s = s" using send_gripper_cases[OF Cons.prems, of x t] by auto
    then show ?thesis using Cons.IH[OF Cons.prems] False Cons.prems by (simp add: p)
  next
    case True
    let ?g = "g\<lparr>gr_last_val := Some ?v, gr_last_send_ns := t\<rparr>"
    have "src_gripper (send_gripper x t s) = Some ?g" using send_gripper_cases[OF Cons.prems, of x t] True by auto
    from Cons.IH[OF this] True Cons.prems show ?thesis
      by (auto simp: p gripper_due_def split: option.splits)
  qed
qed

lemma clip_unit: "0 \<le> clip x 0 1 \<and> clip x 0 1 \<le> 1"
  by (simp add: clip_def)

lemma clip_range: "lo \<le> hi \<Longrightarrow> lo \<le> clip x lo hi \<and> clip x lo hi \<le> hi"
  by (auto simp: clip_def)

section \<open>Properties\<close>


definition demo_states :: "real list \<Rightarrow> robot_states" where
  "demo_states q = \<lparr>rs_q = q, rs_dq = [], rs_tau = [], rs_tau_ext = [], rs_tcp_pose = [1/2, 0, 4/10, 1, 0, 0, 0],
     rs_tcp_vel = [], rs_wrench_tcp = [], rs_wrench_world = []\<rparr>"

definition demo_coeffs :: coeffs_cfg where
  "demo_coeffs = \<lparr>co_max_contact_wrench = None, co_null_space_posture = None, co_joint_stiffness_scale = 1 / 3,
     co_max_joint_vel = 2, co_max_joint_acc = 3, co_max_linear_vel = 1, co_max_angular_vel = 1,
     co_max_linear_acc = 2, co_max_angular_acc = 5\<rparr>"

definition demo_source :: "real list \<Rightarrow> flexiv_source" where
  "demo_source q = \<lparr>src_dof = length q, src_connected = True, src_control_target = Some q,
     src_gripper = None, src_calls = []\<rparr>"


text \<open>
  The simulated arm follows the real one: whenever the real source accepts a command, the
  simulated source with the same integrated target accepts it too and both end with the same
  target, for every control kind; and under joint control the simulated measured position is
  then within \<open>10\<^sup>-\<^sup>4\<close> of the commanded one, so a gate of that tolerance passes.
\<close>

theorem fake_simulates_real:
  assumes "src_control_target s = fk_control_target f" "fk_ctrl f"
    and "send_control cfg co flds rs dt chk tol s = Inr s'"
  shows "\<exists>f'. fake_send_control cfg flds dt f = Inr f' \<and> src_control_target s' = fk_control_target f' \<and> fk_ctrl f'
    \<and> (ct_kind cfg \<in> {''qpos'', ''qvel''} \<longrightarrow>
        (\<forall>q_d dq_d now. joint_targets cfg flds dt s = Inr (q_d, dq_d) \<longrightarrow> length q_d = length (fk_phase f) \<longrightarrow>
          (\<exists>rs'. fake_read now f' = Inr rs' \<and> length (rs_q rs') = length q_d
             \<and> (\<forall>j < length q_d. \<bar>q_d ! j - rs_q rs' ! j\<bar> \<le> 1 / 10 ^ 4))))"
proof -
  have track: "\<exists>rs'. fake_read now f' = Inr rs' \<and> length (rs_q rs') = length q_d
      \<and> (\<forall>j < length q_d. \<bar>q_d ! j - rs_q rs' ! j\<bar> \<le> 1 / 10 ^ 4)"
    if "fk_tracked_q f' = Some q_d" "fk_ctrl f'" "length q_d = length (fk_phase f')" for f' q_d now
    using that by (auto simp: fake_read_def np_add_def abs_mult)
  show ?thesis
  proof (cases "ct_kind cfg \<in> {''qpos'', ''qvel''}")
    case True
    then obtain q_d dq_d where t: "joint_targets cfg flds dt s = Inr (q_d, dq_d)"
        "src_control_target s' = (if ct_kind cfg = ''qvel'' then Some q_d else src_control_target s)"
      using assms(3) by (auto simp: send_control_def send_joint_def Let_def split: if_splits)
    then have "\<exists>f'. fake_send_control cfg flds dt f = Inr f' \<and> fk_tracked_q f' = Some q_d
        \<and> fk_ctrl f' \<and> fk_phase f' = fk_phase f \<and> src_control_target s' = fk_control_target f'"
      using True assms(1,2)
      by (auto simp: joint_targets_def fake_send_control_def split: option.splits if_splits)
    then show ?thesis using track t(1) by fastforce
  next
    case False
    then show ?thesis using assms
      by (auto simp: send_control_def send_cartesian_def fake_send_control_def Let_def split: if_splits option.splits)
  qed
qed

theorem fake_simulates_real_witness:
  "\<exists>s' f'. send_control (demo_cfg ''qpos'' '''' [] []) demo_coeffs [(''q_d'', [1])] (demo_states [1]) 1 True 1 (demo_source [0]) = Inr s'
     \<and> fake_send_control (demo_cfg ''qpos'' '''' [] []) [(''q_d'', [1])] 1
        \<lparr>fk_dof = 1, fk_phase = [0], fk_sdk_modes = [], fk_ctrl = True, fk_mode_code = 6, fk_tracked_q = None,
         fk_tracked_pose = None, fk_control_target = Some [0], fk_gripper_ready = False, fk_last_gripper = None\<rparr> = Inr f'
     \<and> src_control_target s' = fk_control_target f'"
proof -
  let ?f = "\<lparr>fk_dof = 1, fk_phase = [0], fk_sdk_modes = [], fk_ctrl = True, fk_mode_code = 6, fk_tracked_q = None,
         fk_tracked_pose = None, fk_control_target = Some [0], fk_gripper_ready = False, fk_last_gripper = None\<rparr>"
  have h: "src_control_target (demo_source [0]) = fk_control_target ?f" "fk_ctrl ?f" by (simp_all add: demo_source_def)
  obtain s' where s': "send_control (demo_cfg ''qpos'' '''' [] []) demo_coeffs [(''q_d'', [1])] (demo_states [1]) 1 True 1
      (demo_source [0]) = Inr s'"
    by (simp add: send_control_def send_joint_def joint_targets_def demo_cfg_def ditem_def safety_gate_def
        np_sub_def np_add_def linf_def demo_states_def Let_def)
  show ?thesis using fake_simulates_real[OF h s'] s' by blast
qed

text \<open>
  Velocity control is exact integration: after any sequence of accepted joint-velocity
  commands the target that was sent to the real robot is the starting position plus the sum of
  velocity times step, joint by joint.
\<close>

theorem velocity_integrates:
  assumes "src_control_target s = Some q" "\<forall>c \<in> set cs. length (fst c) = length q"
    and "send_velocities cfg co rs tol cs s = Inr s'"
  shows "\<exists>q'. src_control_target s' = Some q' \<and> length q' = length q
    \<and> (\<forall>j < length q. q' ! j = q ! j + (\<Sum>c \<leftarrow> cs. fst c ! j * snd c))"
  using real_plant.vrun_target[OF assms[unfolded send_velocities_vrun]] .

theorem velocity_integrates_witness:
  "\<exists>s' q'. send_velocities (demo_cfg '''' '''' [] []) demo_coeffs (demo_states [0]) 10 [([1], 2), ([3], 1)] (demo_source [0]) = Inr s'
     \<and> src_control_target s' = Some q' \<and> q' ! 0 = 5"
proof -
  have h: "src_control_target (demo_source [0]) = Some [0]"
    "\<forall>c \<in> set [([1 :: real], 2 :: real), ([3], 1)]. length (fst c) = length [0 :: real]"
    by (simp_all add: demo_source_def)
  obtain s' where s': "send_velocities (demo_cfg '''' '''' [] []) demo_coeffs (demo_states [0]) 10 [([1], 2), ([3], 1)]
      (demo_source [0]) = Inr s'"
    by (simp add: send_velocity_def send_control_def send_joint_def joint_targets_def ditem_def safety_gate_def
        np_sub_def np_add_def linf_def demo_states_def demo_source_def Let_def)
  show ?thesis using velocity_integrates[OF h s'] s' by auto
qed

text \<open>
  The gripper is never flooded: over any run of targets, consecutive \<^verbatim>\<open>Move\<close> commands are at
  least the configured period apart and differ by at least the dead band, every commanded value
  is in \<open>[0, 1]\<close>, and the first target after set-up is always sent.
\<close>

theorem gripper_rate_limited:
  assumes "setup_gripper cfg (Some p) s = (True, s')" "src_gripper s = None"
  shows "\<exists>g. src_gripper s' = Some g \<and> gr_min_period_ns g = \<lfloor>10 ^ 9 / max (1 / 10 ^ 3) (gc_move_rate_hz cfg)\<rfloor>
    \<and> spaced (gr_min_period_ns g) (gc_deadband cfg) (gripper_run ts s')
    \<and> (\<forall>(t, v) \<in> set (gripper_run ts s'). 0 \<le> v \<and> v \<le> 1)
    \<and> (\<forall>t x ts'. ts = (t, x) # ts' \<longrightarrow> hd (gripper_run ts s') = (t, clip x 0 1))"
proof -
  obtain g where g: "src_gripper s' = Some g" "gr_last_val g = None" "gr_deadband g = gc_deadband cfg"
      "gr_min_period_ns g = \<lfloor>10 ^ 9 / max (1 / 10 ^ 3) (gc_move_rate_hz cfg)\<rfloor>"
    using assms by (auto simp: setup_gripper_def Let_def split: if_splits)
  have unit: "\<forall>(t, v) \<in> set (gripper_run ts u). 0 \<le> v \<and> v \<le> 1" for u
    by (induction ts u rule: gripper_run.induct) (auto split: option.splits simp: clip_unit)
  have first: "hd (gripper_run ((t, x) # ts') s') = (t, clip x 0 1)" for t x ts'
    using g by (simp add: gripper_due_def)
  show ?thesis using gripper_run_spaced[OF g(1), of ts] g unit first by auto
qed

theorem gripper_rate_limited_witness:
  "\<exists>s' g. setup_gripper \<lparr>gc_enabled = True, gc_name = ''grav'', gc_velocity = 1, gc_force = 20, gc_move_rate_hz = 10,
       gc_deadband = 1 / 50, gc_init_on_start = True, gc_open_width = None, gc_closed_width = None\<rparr>
     (Some \<lparr>gp_min_width = 0, gp_max_width = 1, gp_min_vel = 0, gp_max_vel = 1, gp_min_force = 0, gp_max_force = 40\<rparr>)
     (demo_source [0]) = (True, s')
   \<and> src_gripper s' = Some g \<and> spaced (gr_min_period_ns g) (1 / 50) (gripper_run [(0, 1), (1, 0), (200000000, 0)] s')"
proof -
  let ?c = "\<lparr>gc_enabled = True, gc_name = ''grav'', gc_velocity = 1, gc_force = 20, gc_move_rate_hz = 10,
       gc_deadband = 1 / 50, gc_init_on_start = True, gc_open_width = None, gc_closed_width = None\<rparr>"
  let ?p = "\<lparr>gp_min_width = 0, gp_max_width = 1, gp_min_vel = 0, gp_max_vel = 1, gp_min_force = 0, gp_max_force = 40\<rparr>"
  have h: "src_gripper (demo_source [0]) = None" by (simp add: demo_source_def)
  obtain s' where s': "setup_gripper ?c (Some ?p) (demo_source [0]) = (True, s')"
    using h by (simp add: setup_gripper_def Let_def)
  have "\<exists>g. src_gripper s' = Some g \<and> spaced (gr_min_period_ns g) (1 / 50) (gripper_run [(0, 1), (1, 0), (200000000, 0)] s')"
    using gripper_rate_limited[OF s' h, of "[(0, 1), (1, 0), (200000000, 0)]"] by auto
  then show ?thesis using s' by blast
qed

text \<open>
  A phase can only soften the joints: when a joint-impedance mode is started, the stiffness
  sent is positive and never above the configured one (or the configured fraction of the robot's
  nominal one), and a scale outside \<open>(0, 1]\<close> is refused before any call.
\<close>

theorem stiffness_never_raised:
  assumes mode: "ct_mode cfg = ''NRT_JOINT_IMPEDANCE''" and imp: "ct_joint_impedance cfg = Some imp"
    and base: "base = (case ji_K_q_fraction imp of Some fr \<Rightarrow> map (\<lambda>k. fr * k) K_nom | None \<Rightarrow> ji_K_q imp)"
    and pos: "\<forall>k \<in> set base. 0 < k"
  shows "if 0 < co_joint_stiffness_scale co \<and> co_joint_stiffness_scale co \<le> 1
    then \<exists>K. apply_coeffs cfg co K_nom = Inr [SetJointImpedance K (ji_Z_q imp)] \<and> length K = length base
      \<and> (\<forall>j < length base. 0 < K ! j \<and> K ! j \<le> base ! j)
    else apply_coeffs cfg co K_nom = Inl ValueError"
proof -
  let ?sc = "co_joint_stiffness_scale co"
  have "apply_coeffs cfg co K_nom = (if 0 < ?sc \<and> ?sc \<le> 1
      then Inr [SetJointImpedance (map (\<lambda>k. ?sc * k) base) (ji_Z_q imp)] else Inl ValueError)"
    using mode imp base by (simp add: apply_coeffs_def Let_def mult.assoc split: option.splits)
  moreover have "0 < ?sc * base ! j \<and> ?sc * base ! j \<le> base ! j" if "0 < ?sc" "?sc \<le> 1" "j < length base" for j
    using that pos nth_mem[OF that(3)] mult_right_mono[of ?sc 1 "base ! j"] by fastforce
  ultimately show ?thesis by auto
qed

theorem stiffness_never_raised_witness:
  "\<exists>K. apply_coeffs ((demo_cfg ''qpos'' ''NRT_JOINT_IMPEDANCE'' [] [])\<lparr>ct_joint_impedance :=
       Some \<lparr>ji_K_q = [600], ji_Z_q = [1/2], ji_K_q_fraction = None\<rparr>\<rparr>) demo_coeffs [] = Inr [SetJointImpedance K [1/2]]
     \<and> length K = 1 \<and> K ! 0 \<le> 600"
proof -
  let ?i = "\<lparr>ji_K_q = [600], ji_Z_q = [1/2], ji_K_q_fraction = None\<rparr>"
  let ?c = "(demo_cfg ''qpos'' ''NRT_JOINT_IMPEDANCE'' [] [])\<lparr>ct_joint_impedance := Some ?i\<rparr>"
  have h: "ct_mode ?c = ''NRT_JOINT_IMPEDANCE''" "ct_joint_impedance ?c = Some ?i"
    "[600] = (case ji_K_q_fraction ?i of Some fr \<Rightarrow> map (\<lambda>k. fr * k) [] | None \<Rightarrow> ji_K_q ?i)"
    "\<forall>k \<in> set [600 :: real]. 0 < k"
    by (simp_all add: demo_cfg_def)
  show ?thesis using stiffness_never_raised[OF h, of demo_coeffs] by (auto simp: demo_coeffs_def)
qed

end
