(* ===== verification/Arm_Session.thy ===== *)
theory Arm_Session
  imports Arm_Source
begin

text \<open>
  The arm process of \<^verbatim>\<open>interfaces/flexiv/interface.py\<close>: one control session (attach the channels,
  servo on, wait for the first setpoint, preflight, bootstrap, merged loop, clean-up) and the
  idle/control loop around it.

  The process state is an \<open>arm_node\<close>. What the world supplies is an argument: a polling loop takes
  the list of the observations of its iterations and an operation of the robot its answers. A
  phase returns \<open>None\<close> when the observations run out while it is still waiting, otherwise the
  value or exception it ends with and the node, whose source holds every call sent to the robot.
  The outcome of handing the robot to the native real-time controller is an argument here
  (\<open>sw_native\<close>); \<open>Native_Rt\<close> models the hand-over and shows that it implements this phase.
\<close>

section \<open>The source of an arm: real or simulated\<close>

datatype arm_source = Real flexiv_source | Sim fake_source

record enter_obs =
  eo_fault :: bool
  eo_cleared :: bool
  eo_start :: real
  eo_oper :: "(bool \<times> real) list"

definition CONNECT_TIMEOUT :: real where
  "CONNECT_TIMEOUT = 30"

fun as_enter_control :: "enter_obs \<Rightarrow> arm_source \<Rightarrow> (unit res \<times> arm_source) option" where
  "as_enter_control o1 (Real s) =
     map_option (\<lambda>(r, s'). (r, Real s'))
       (enter_control CONNECT_TIMEOUT (eo_fault o1) (eo_cleared o1) (eo_start o1) (eo_oper o1) s)"
| "as_enter_control o1 (Sim s) = Some (Inr (), Sim s)"

fun as_start_control ::
    "control_cfg \<Rightarrow> coeffs_cfg \<Rightarrow> real list \<Rightarrow> (string, real list) dict \<Rightarrow> robot_states
     \<Rightarrow> (bool \<times> int option) list \<Rightarrow> arm_source \<Rightarrow> (bool res \<times> arm_source) option" where
  "as_start_control cfg co K flds rs boots (Real s) =
     map_option (\<lambda>(r, s'). (r, Real s')) (start_control cfg co K flds rs boots s)"
| "as_start_control cfg co K flds rs boots (Sim s) =
     (case fake_start_control cfg flds rs s of (r, s') \<Rightarrow> Some (r, Sim s'))"

fun as_send_control ::
    "control_cfg \<Rightarrow> coeffs_cfg \<Rightarrow> (string, real list) dict \<Rightarrow> robot_states \<Rightarrow> real \<Rightarrow> bool \<Rightarrow> real
     \<Rightarrow> arm_source \<Rightarrow> arm_source res" where
  "as_send_control cfg co flds rs dt chk tol (Real s) =
     rbind (send_control cfg co flds rs dt chk tol s) (\<lambda>s'. Inr (Real s'))"
| "as_send_control cfg co flds rs dt chk tol (Sim s) =
     rbind (fake_send_control cfg flds dt s) (\<lambda>s'. Inr (Sim s'))"

fun as_setup_gripper :: "gripper_cfg \<Rightarrow> gripper_params option \<Rightarrow> arm_source \<Rightarrow> bool \<times> arm_source" where
  "as_setup_gripper cfg ans (Real s) = (case setup_gripper cfg ans s of (b, s') \<Rightarrow> (b, Real s'))"
| "as_setup_gripper cfg ans (Sim s) = (case fake_setup_gripper cfg s of (b, s') \<Rightarrow> (b, Sim s'))"

fun as_send_gripper :: "real \<Rightarrow> int \<Rightarrow> arm_source \<Rightarrow> arm_source" where
  "as_send_gripper x t (Real s) = Real (send_gripper x t s)"
| "as_send_gripper x t (Sim s) = Sim (fake_send_gripper x s)"

fun as_stop_gripper :: "arm_source \<Rightarrow> arm_source" where
  "as_stop_gripper (Real s) = Real (stop_gripper s)"
| "as_stop_gripper (Sim s) = Sim (fake_stop_gripper s)"

fun as_stop :: "arm_source \<Rightarrow> arm_source" where
  "as_stop (Real s) = Real (source_stop s)"
| "as_stop (Sim s) = Sim (fake_stop s)"

section \<open>Configuration, node and observations\<close>

record arm_node_cfg =
  ac_side :: string
  ac_streams :: "(string, stream_cfg) dict"
  ac_control :: control_cfg
  ac_wrench_frame :: string
  ac_sim :: bool
  ac_rt_streaming :: bool
  ac_eager_enable :: bool
  ac_safety_check :: bool
  ac_tolerance :: real
  ac_attach_timeout_s :: real
  ac_control_rate_hz :: real
  ac_gripper :: gripper_cfg

record arm_node =
  an_source :: arm_source
  an_control_active :: bool
  an_status_cache :: "real list option"
  an_status_next_ns :: int
  an_published :: "(string \<times> int \<times> real list) list"
  an_readers :: "string list"

text \<open>What one telemetry tick reads: the clock, the states, and the status (\<open>None\<close>: the read raised).\<close>

record tel =
  tl_t_ns :: int
  tl_rs :: robot_states
  tl_status :: "real list option"

definition STATUS_SIGNAL :: string where
  "STATUS_SIGNAL = ''status''"

definition STATUS_PERIOD_NS :: int where
  "STATUS_PERIOD_NS = 100000000"

definition declare_streams :: "arm_node_cfg \<Rightarrow> stream_spec list res" where
  "declare_streams cfg =
     rbind (streams_to_specs (ac_side cfg) (ac_streams cfg)) (\<lambda>specs.
     rbind (mk_stream_spec (ac_side cfg @ ''/'' @ STATUS_SIGNAL) 5 64 ''float64'' (Some 10)) (\<lambda>st.
     Inr (specs @ [st])))"

text \<open>Fabricate the arm when simulating or when every stream is a dummy.\<close>

definition use_fake_source :: "arm_node_cfg \<Rightarrow> bool" where
  "use_fake_source cfg \<longleftrightarrow> ac_sim cfg \<or> (ac_streams cfg \<noteq> [] \<and> list_all (\<lambda>(k, c). sc_dummy c) (ac_streams cfg))"

definition status_signal :: "int \<Rightarrow> real list option \<Rightarrow> arm_node \<Rightarrow> real list \<times> arm_node" where
  "status_signal now_ns answer n =
     (let n1 = (if an_status_cache n = None \<or> now_ns \<ge> an_status_next_ns n
                then n\<lparr>an_status_cache := (case answer of
                          Some st \<Rightarrow> Some st
                        | None \<Rightarrow> (case an_status_cache n of None \<Rightarrow> Some (replicate 4 0) | c \<Rightarrow> c)),
                       an_status_next_ns := now_ns + STATUS_PERIOD_NS\<rparr>
                else n);
          c = (case an_status_cache n1 of None \<Rightarrow> [] | Some c \<Rightarrow> c)
      in (take 2 c @ [of_bool (an_control_active n)] @ slice 2 4 c, n1))"

definition write_telemetry :: "arm_node_cfg \<Rightarrow> tel \<Rightarrow> arm_node \<Rightarrow> unit res \<times> arm_node" where
  "write_telemetry cfg t n =
     (case map_states (tl_rs t) (ac_wrench_frame cfg) of
        Inl e \<Rightarrow> (Inl e, n)
      | Inr sigs \<Rightarrow>
          (case status_signal (tl_t_ns t) (tl_status t) n of
             (st, n1) \<Rightarrow> (Inr (), n1\<lparr>an_published := an_published n1
                 @ map (\<lambda>(sig, vec). (ac_side cfg @ ''/'' @ sig, tl_t_ns t, vec)) sigs
                 @ [(ac_side cfg @ ''/'' @ STATUS_SIGNAL, tl_t_ns t, st)]\<rparr>)))"

section \<open>Commands and waits\<close>

text \<open>\<open>_drain_commands\<close> on the rows the cursor returned: was a STOP requested?\<close>

fun drain_commands :: "real list list \<Rightarrow> bool res" where
  "drain_commands [] = Inr False"
| "drain_commands (row # rest) =
     rbind (decode row) (\<lambda>cmd. if cmd_kind cmd = STOP then Inr True else drain_commands rest)"

record channel_poll =
  cp_stop :: bool
  cp_found :: bool
  cp_now :: real
  cp_tel :: tel

text \<open>\<open>Some (Inr b)\<close>: \<open>b\<close> tells whether the channels were found (as opposed to a shutdown).\<close>

fun await_channels ::
    "arm_node_cfg \<Rightarrow> real \<Rightarrow> channel_poll list \<Rightarrow> arm_node \<Rightarrow> (bool res \<times> arm_node) option" where
  "await_channels cfg deadline [] n = None"
| "await_channels cfg deadline (p # ps) n =
     (if cp_stop p then Some (Inr False, n)
      else if cp_found p then Some (Inr True, n)
      else if cp_now p > deadline then Some (Inl TimeoutError, n)
      else case write_telemetry cfg (cp_tel p) n of
        (Inl e, n') \<Rightarrow> Some (Inl e, n')
      | (Inr u, n') \<Rightarrow> await_channels cfg deadline ps n')"

record setpoint_poll =
  sp_stop :: bool
  sp_rows :: "real list list"
  sp_latest :: "real samples"
  sp_now :: real
  sp_tel :: tel

fun await_first_setpoint ::
    "arm_node_cfg \<Rightarrow> real \<Rightarrow> setpoint_poll list \<Rightarrow> arm_node \<Rightarrow> (real list option res \<times> arm_node) option" where
  "await_first_setpoint cfg deadline [] n = None"
| "await_first_setpoint cfg deadline (p # ps) n =
     (if sp_stop p then Some (Inr None, n)
      else case drain_commands (sp_rows p) of
        Inl e \<Rightarrow> Some (Inl e, n)
      | Inr stop \<Rightarrow>
          if stop then Some (Inr None, n)
          else if sm_n (sp_latest p) > 0 then Some (Inr (sm_newest (sp_latest p)), n)
          else if sp_now p > deadline then Some (Inr None, n)
          else case write_telemetry cfg (sp_tel p) n of
            (Inl e, n') \<Rightarrow> Some (Inl e, n')
          | (Inr u, n') \<Rightarrow> await_first_setpoint cfg deadline ps n')"

text \<open>The abort predicate of the bootstrap: telemetry, then shutdown or STOP.\<close>

record abort_poll =
  ab_tel :: tel
  ab_stop :: bool
  ab_rows :: "real list list"
  ab_reached :: "int option"

fun bootstrap_polls ::
    "arm_node_cfg \<Rightarrow> abort_poll list \<Rightarrow> arm_node \<Rightarrow> (bool \<times> int option) list res \<times> arm_node" where
  "bootstrap_polls cfg [] n = (Inr [], n)"
| "bootstrap_polls cfg (p # ps) n =
     (case write_telemetry cfg (ab_tel p) n of
        (Inl e, n') \<Rightarrow> (Inl e, n')
      | (Inr u, n') \<Rightarrow>
          (case (if ab_stop p then Inr True else drain_commands (ab_rows p)) of
             Inl e \<Rightarrow> (Inl e, n')
           | Inr ab \<Rightarrow>
               if ab \<or> ab_reached p = Some 1 then (Inr [(ab, ab_reached p)], n')
               else (case bootstrap_polls cfg ps n' of
                       (Inl e, n'') \<Rightarrow> (Inl e, n'')
                     | (Inr os, n'') \<Rightarrow> (Inr ((ab, ab_reached p) # os), n''))))"

section \<open>The merged control loop\<close>

record tick =
  ti_stop :: bool
  ti_tel :: tel
  ti_fault :: bool
  ti_rows :: "real list list"
  ti_setpoint :: "real samples"
  ti_gripper :: "real samples"
  ti_grip_raises :: bool

datatype verdict = Continue | Break | Raise py_error

definition deadman_ns :: "control_cfg \<Rightarrow> int" where
  "deadman_ns ctrl = \<lfloor>cc_deadman_ms (ct_channel ctrl) * 10 ^ 6\<rfloor>"

definition deadman_hard_ns :: "control_cfg \<Rightarrow> int" where
  "deadman_hard_ns ctrl = \<lfloor>cc_deadman_hard_ms (ct_channel ctrl) * 10 ^ 6\<rfloor>"

definition GRIP :: string where "GRIP = ''gripper''"

text \<open>Step (f): the gripper follows its own mailbox; its failure disables it for the session.\<close>

definition gripper_tick :: "tick \<Rightarrow> arm_node \<Rightarrow> arm_node" where
  "gripper_tick ti n =
     (if GRIP \<notin> set (an_readers n) \<or> sm_n (ti_gripper ti) = 0 then n
      else if ti_grip_raises ti
      then n\<lparr>an_source := as_stop_gripper (an_source n), an_readers := removeAll GRIP (an_readers n)\<rparr>
      else n\<lparr>an_source := as_send_gripper (hd (last (sm_data (ti_gripper ti)))) (tl_t_ns (ti_tel ti)) (an_source n)\<rparr>)"

text \<open>Steps (d) and (e): the newest setpoint, its age, and the command it makes.\<close>

definition actuate ::
    "arm_node_cfg \<Rightarrow> control_cfg \<Rightarrow> coeffs_cfg \<Rightarrow> tick \<Rightarrow> arm_node \<Rightarrow> verdict \<times> arm_node" where
  "actuate cfg ctrl co ti n =
     (case (sm_newest (ti_setpoint ti), sm_newest_t_ns (ti_setpoint ti)) of
        (Some vec, Some t) \<Rightarrow>
          (let age = tl_t_ns (ti_tel ti) - t in
           if age > deadman_hard_ns ctrl then (Break, n)
           else if age > deadman_ns ctrl then (Continue, n)
           else case slice_streamed ctrl vec of
             Inl e \<Rightarrow> (Raise e, n)
           | Inr flds \<Rightarrow>
              (case as_send_control ctrl co flds (tl_rs (ti_tel ti)) (1 / ac_control_rate_hz cfg)
                     (ac_safety_check cfg) (ac_tolerance cfg) (an_source n) of
                 Inl SafetyHalt \<Rightarrow> (Break, n)
               | Inl e \<Rightarrow> (Raise e, n)
               | Inr src \<Rightarrow> (Continue, gripper_tick ti (n\<lparr>an_source := src\<rparr>))))
      | _ \<Rightarrow> (Continue, n))"

definition control_tick ::
    "arm_node_cfg \<Rightarrow> control_cfg \<Rightarrow> coeffs_cfg \<Rightarrow> tick \<Rightarrow> arm_node \<Rightarrow> verdict \<times> arm_node" where
  "control_tick cfg ctrl co ti n =
     (if ti_stop ti then (Break, n)
      else case write_telemetry cfg (ti_tel ti) n of
        (Inl e, n1) \<Rightarrow> (Raise e, n1)
      | (Inr u, n1) \<Rightarrow>
          if ti_fault ti then (Break, n1)
          else case drain_commands (ti_rows ti) of
            Inl e \<Rightarrow> (Raise e, n1)
          | Inr stop \<Rightarrow> if stop then (Break, n1) else actuate cfg ctrl co ti n1)"

fun control_loop ::
    "arm_node_cfg \<Rightarrow> control_cfg \<Rightarrow> coeffs_cfg \<Rightarrow> tick list \<Rightarrow> arm_node \<Rightarrow> (unit res \<times> arm_node) option" where
  "control_loop cfg ctrl co [] n = None"
| "control_loop cfg ctrl co (ti # tis) n =
     (case control_tick cfg ctrl co ti n of
        (Continue, n') \<Rightarrow> control_loop cfg ctrl co tis n'
      | (Break, n') \<Rightarrow> Some (Inr (), n')
      | (Raise e, n') \<Rightarrow> Some (Inl e, n'))"

section \<open>One control session\<close>

record session_world =
  sw_enter :: enter_obs
  sw_chan_start :: real
  sw_channels :: "channel_poll list"
  sw_attach :: "unit res"
  sw_gripper_channel :: bool
  sw_native_find :: "unit res"
  sw_native :: "unit res"
  sw_native_reopen :: "(unit res \<times> arm_source) option"
  sw_first_start :: real
  sw_first :: "setpoint_poll list"
  sw_rs :: robot_states
  sw_boot :: "abort_poll list"
  sw_K_q_nom :: "real list"
  sw_gripper_params :: "gripper_params option"
  sw_ticks :: "tick list"

definition uses_native_rt :: "arm_node_cfg \<Rightarrow> control_cfg \<Rightarrow> arm_source \<Rightarrow> bool" where
  "uses_native_rt cfg ctrl src \<longleftrightarrow> ac_rt_streaming cfg \<and> \<not> ac_sim cfg
     \<and> (case src of Real s \<Rightarrow> True | Sim s \<Rightarrow> False)
     \<and> ct_kind ctrl = ''qpos'' \<and> ct_mode ctrl = ''NRT_JOINT_POSITION''"

text \<open>Sequencing of phases: an exception or an exhausted wait ends the session body.\<close>

definition then_phase ::
    "('a res \<times> arm_node) option \<Rightarrow> ('a \<Rightarrow> arm_node \<Rightarrow> ('b res \<times> arm_node) option) \<Rightarrow> ('b res \<times> arm_node) option" where
  "then_phase m k = (case m of
       None \<Rightarrow> None
     | Some (Inl e, n) \<Rightarrow> Some (Inl e, n)
     | Some (Inr x, n) \<Rightarrow> k x n)"

definition enter_phase :: "session_world \<Rightarrow> bool \<Rightarrow> arm_node \<Rightarrow> (unit res \<times> arm_node) option" where
  "enter_phase w due n =
     (if \<not> due then Some (Inr (), n)
      else map_option (\<lambda>(r, s). (r, n\<lparr>an_source := s\<rparr>)) (as_enter_control (sw_enter w) (an_source n)))"

definition attach_phase :: "arm_node_cfg \<Rightarrow> session_world \<Rightarrow> bool \<Rightarrow> arm_node \<Rightarrow> (unit res \<times> arm_node) option" where
  "attach_phase cfg w native n =
     (case sw_attach w of
        Inl e \<Rightarrow> Some (Inl e, n)
      | Inr u \<Rightarrow> Some (Inr (), n\<lparr>an_readers := [SETPOINT, COMMAND]
          @ (if gc_enabled (ac_gripper cfg) \<and> sw_gripper_channel w \<and> \<not> native then [GRIP] else [])\<rparr>))"

text \<open>
  Handing the robot to the native controller: its executable is looked up, the Python client is closed, the controller runs,
  and the source is opened again whatever happened; a failed reopening leaves no source.
\<close>

definition native_phase :: "session_world \<Rightarrow> arm_node \<Rightarrow> (unit res \<times> arm_node) option" where
  "native_phase w n =
     (case sw_native_find w of Inl e \<Rightarrow> Some (Inl e, n) | Inr u \<Rightarrow>
      case sw_native_reopen w of
        None \<Rightarrow> None
      | Some (Inl e, s) \<Rightarrow> Some (Inl e, n\<lparr>an_source := s\<rparr>)
      | Some (Inr u, s) \<Rightarrow> Some (sw_native w, n\<lparr>an_source := s\<rparr>))"

definition preflight :: "arm_node_cfg \<Rightarrow> control_cfg \<Rightarrow> (string, real list) dict \<Rightarrow> robot_states \<Rightarrow> unit res" where
  "preflight cfg ctrl flds rs =
     (if ct_kind ctrl \<noteq> ''qpos'' then Inr ()
      else rbind (ditem flds ''q_d'') (\<lambda>q. rbind (np_sub q (rs_q rs)) (\<lambda>d. rbind (linf d) (\<lambda>worst.
        if ac_safety_check cfg \<and> worst > ac_tolerance cfg then Inl RuntimeError else Inr ()))))"

definition boot_phase ::
    "arm_node_cfg \<Rightarrow> control_cfg \<Rightarrow> coeffs_cfg \<Rightarrow> session_world \<Rightarrow> (string, real list) dict \<Rightarrow> arm_node
     \<Rightarrow> (bool res \<times> arm_node) option" where
  "boot_phase cfg ctrl co w flds n =
     (let polls = (case an_source n of
                     Real s \<Rightarrow> if ct_kind ctrl = ''qpos'' then bootstrap_polls cfg (sw_boot w) n else (Inr [], n)
                   | Sim s \<Rightarrow> (Inr [], n))
      in case polls of
        (Inl e, n1) \<Rightarrow> Some (Inl e, n1)
      | (Inr boots, n1) \<Rightarrow>
          map_option (\<lambda>(r, s). (r, n1\<lparr>an_source := s\<rparr>))
            (as_start_control ctrl co (sw_K_q_nom w) flds (sw_rs w) boots (an_source n1)))"

definition gripper_phase :: "arm_node_cfg \<Rightarrow> session_world \<Rightarrow> arm_node \<Rightarrow> arm_node" where
  "gripper_phase cfg w n =
     (if GRIP \<notin> set (an_readers n) then n
      else case as_setup_gripper (ac_gripper cfg) (sw_gripper_params w) (an_source n) of
        (ok, s) \<Rightarrow> n\<lparr>an_source := s, an_readers := (if ok then an_readers n else removeAll GRIP (an_readers n))\<rparr>)"

definition drive_phase ::
    "arm_node_cfg \<Rightarrow> control_cfg \<Rightarrow> coeffs_cfg \<Rightarrow> session_world \<Rightarrow> arm_node \<Rightarrow> (unit res \<times> arm_node) option" where
  "drive_phase cfg ctrl co w n =
     then_phase (await_first_setpoint cfg (sw_first_start w + ac_attach_timeout_s cfg) (sw_first w) n) (\<lambda>first n1.
     case first of
       None \<Rightarrow> Some (Inr (), n1)
     | Some vec \<Rightarrow>
       (case rbind (slice_streamed ctrl vec) (\<lambda>flds. rbind (preflight cfg ctrl flds (sw_rs w)) (\<lambda>u. Inr flds)) of
          Inl e \<Rightarrow> Some (Inl e, n1)
        | Inr flds \<Rightarrow>
            then_phase (boot_phase cfg ctrl co w flds n1) (\<lambda>started n2.
            if \<not> started then Some (Inr (), n2)
            else control_loop cfg ctrl co (sw_ticks w) (gripper_phase cfg w n2))))"

definition native_drive :: "arm_node_cfg \<Rightarrow> session_world \<Rightarrow> arm_node \<Rightarrow> (unit res \<times> arm_node) option" where
  "native_drive cfg w n =
     then_phase (await_first_setpoint cfg (sw_first_start w + ac_attach_timeout_s cfg) (sw_first w) n) (\<lambda>first n1.
     case first of None \<Rightarrow> Some (Inr (), n1) | Some vec \<Rightarrow> native_phase w n1)"

definition session_body ::
    "arm_node_cfg \<Rightarrow> control_cfg \<Rightarrow> coeffs_cfg \<Rightarrow> session_world \<Rightarrow> arm_node \<Rightarrow> (unit res \<times> arm_node) option" where
  "session_body cfg ctrl co w n =
     (let native = uses_native_rt cfg ctrl (an_source n) in
      then_phase (enter_phase w (ac_eager_enable cfg \<and> \<not> native) n) (\<lambda>u n1.
      then_phase (await_channels cfg (sw_chan_start w + ac_attach_timeout_s cfg) (sw_channels w) n1) (\<lambda>found n2.
      if \<not> found then Some (Inr (), n2)
      else then_phase (attach_phase cfg w native n2) (\<lambda>u n3.
        if native then native_drive cfg w n3
        else then_phase (enter_phase w (\<not> ac_eager_enable cfg) n3) (\<lambda>u n4. drive_phase cfg ctrl co w n4)))))"

text \<open>The \<open>finally\<close> clause: stop the gripper, stop the robot, close the readers.\<close>

definition session_cleanup :: "arm_node \<Rightarrow> arm_node" where
  "session_cleanup n = n\<lparr>an_control_active := False, an_source := as_stop (as_stop_gripper (an_source n)), an_readers := []\<rparr>"

definition control_session ::
    "arm_node_cfg \<Rightarrow> coeffs_cfg \<Rightarrow> control_cfg option \<Rightarrow> session_world \<Rightarrow> arm_node \<Rightarrow> (unit res \<times> arm_node) option" where
  "control_session cfg co control w n =
     (let ctrl = (case control of Some c \<Rightarrow> c | None \<Rightarrow> ac_control cfg) in
      map_option (\<lambda>(r, n'). (r, session_cleanup n'))
        (session_body cfg ctrl co w (n\<lparr>an_control_active := True\<rparr>)))"

section \<open>The idle/control loop\<close>

datatype session_msg = EnterControl coeffs_cfg "control_cfg option" | UnknownMsg

record idle_iter =
  ii_stop :: bool
  ii_msg :: "session_msg option"
  ii_tel :: tel
  ii_world :: session_world

fun run_session_loop :: "arm_node_cfg \<Rightarrow> idle_iter list \<Rightarrow> arm_node \<Rightarrow> (unit res \<times> arm_node) option" where
  "run_session_loop cfg [] n = None"
| "run_session_loop cfg (i # is) n =
     (if ii_stop i then Some (Inr (), n)
      else case ii_msg i of
        Some (EnterControl co control) \<Rightarrow>
          (case control_session cfg co control (ii_world i) n of
             None \<Rightarrow> None
           | Some (Inl e, n') \<Rightarrow> if e = TimeoutError then run_session_loop cfg is n' else Some (Inl e, n')
           | Some (Inr u, n') \<Rightarrow> run_session_loop cfg is n')
      | _ \<Rightarrow>
          (case write_telemetry cfg (ii_tel i) n of
             (Inl e, n') \<Rightarrow> Some (Inl e, n')
           | (Inr u, n') \<Rightarrow> run_session_loop cfg is n'))"

section \<open>What each part does to the robot\<close>

text \<open>Calls that make the robot move or hold a commanded target.\<close>

fun motion :: "rdk_call \<Rightarrow> bool" where
  "motion (MoveJ q) = True"
| "motion (SendJointPosition q dq v a) = True"
| "motion (SendCartesianMotionForce p w t a b c d) = True"
| "motion (SwitchMode m) = True"
| "motion (GripperMove w v f) = True"
| "motion Enable = True"
| "motion c = False"

definition parked_calls :: "rdk_call list \<Rightarrow> bool" where
  "parked_calls cs \<longleftrightarrow> list_all (\<lambda>c. \<not> motion c) (takeWhile (\<lambda>c. c \<noteq> Stop) (rev cs))"

text \<open>
  A parked arm: no motion call since the last Stop, the gripper released; in simulation, out of
  control and in mode IDLE.
\<close>

fun parked :: "arm_source \<Rightarrow> bool" where
  "parked (Real s) \<longleftrightarrow> src_connected s \<and> src_gripper s = None \<and> parked_calls (src_calls s)"
| "parked (Sim s) \<longleftrightarrow> \<not> fk_ctrl s \<and> fk_mode_code s = rdk_mode_code (fk_sdk_modes s) ''IDLE'' \<and> \<not> fk_gripper_ready s"

fun connected :: "arm_source \<Rightarrow> bool" where
  "connected (Real s) \<longleftrightarrow> src_connected s"
| "connected (Sim s) \<longleftrightarrow> True"

lemma parked_connected: "parked s \<Longrightarrow> connected s"
  by (cases s) auto

lemma parked_stop: "connected s \<Longrightarrow> parked (as_stop (as_stop_gripper s))"
  by (cases s) (auto simp: source_stop_def stop_gripper_def parked_calls_def fake_stop_def fake_stop_gripper_def
      split: option.splits)

text \<open>
  The contract a control session relies on: every operation keeps the connection, and stopping
  a connected source parks it.
\<close>

locale stoppable_source =
  fixes conn :: "'s \<Rightarrow> bool" and idle :: "'s \<Rightarrow> bool"
    and stop_all :: "'s \<Rightarrow> 's"
    and op :: "'s \<Rightarrow> 's \<Rightarrow> bool"
  assumes idle_conn: "idle s \<Longrightarrow> conn s"
    and op_conn: "op s s' \<Longrightarrow> conn s \<Longrightarrow> conn s'"
    and stop_idle: "conn s \<Longrightarrow> idle (stop_all s)"
begin

inductive ops :: "'s \<Rightarrow> 's \<Rightarrow> bool" where
  none: "ops s s"
| more: "ops s u \<Longrightarrow> op u v \<Longrightarrow> ops s v"

lemma ops_conn: "ops s s' \<Longrightarrow> conn s \<Longrightarrow> conn s'"
  by (induction rule: ops.induct) (auto intro: op_conn)

lemma ops_trans: "ops u v \<Longrightarrow> ops s u \<Longrightarrow> ops s v"
  by (induction rule: ops.induct) (auto intro: ops.intros)

lemma stop_after_ops: "ops s s' \<Longrightarrow> idle s \<Longrightarrow> idle (stop_all s')"
  by (blast intro: stop_idle ops_conn idle_conn)

end

text \<open>One operation of a source, as the session performs them.\<close>

inductive source_op :: "arm_source \<Rightarrow> arm_source \<Rightarrow> bool" where
  enter: "as_enter_control o1 s = Some (r, s') \<Longrightarrow> source_op s s'"
| start: "as_start_control c co K f rs b s = Some (r', s') \<Longrightarrow> source_op s s'"
| send: "as_send_control c co f rs dt chk tol s = Inr s' \<Longrightarrow> source_op s s'"
| ready: "as_setup_gripper g p s = (ok, s') \<Longrightarrow> source_op s s'"
| grip: "source_op s (as_send_gripper x t s)"
| release: "source_op s (as_stop_gripper s)"

lemma send_control_connected:
  "send_control c co f rs dt chk tol s = Inr s' \<Longrightarrow> src_connected s' = src_connected s"
  by (auto simp: send_control_def send_joint_def send_cartesian_def Let_def split: if_splits option.splits)

lemma start_control_connected:
  "start_control c co K f rs b s = Some (r, s') \<Longrightarrow> src_connected s' = src_connected s"
  by (auto simp: start_control_def Let_def split: if_splits option.splits sum.splits)

lemma enter_control_connected:
  "enter_control t a b c d s = Some (r, s') \<Longrightarrow> src_connected s' = src_connected s"
  by (auto simp: enter_control_def clear_fault_def split: if_splits option.splits)

lemma source_op_connected: "source_op s s' \<Longrightarrow> connected s \<Longrightarrow> connected s'"
proof (induction rule: source_op.induct)
  case (enter o1 s r s')
  then show ?case by (cases s) (auto dest: enter_control_connected)
next
  case (start c co K f rs b s r' s')
  then show ?case by (cases s) (auto dest: start_control_connected split: prod.splits)
next
  case (send c co f rs dt chk tol s s')
  then show ?case by (cases s) (auto dest: send_control_connected)
next
  case (ready g p s ok s')
  then show ?case by (cases s) (auto simp: setup_gripper_def Let_def split: prod.splits if_splits option.splits)
next
  case (grip s x t)
  then show ?case by (cases s) (auto simp: send_gripper_def Let_def split: option.splits)
next
  case (release s)
  then show ?case by (cases s) (auto simp: stop_gripper_def split: option.splits)
qed

interpretation arm_ops: stoppable_source connected parked "\<lambda>s. as_stop (as_stop_gripper s)" source_op
  by unfold_locales (auto intro: parked_connected parked_stop source_op_connected)

section \<open>Source histories of the phases\<close>

abbreviation reaches :: "arm_source \<Rightarrow> arm_source \<Rightarrow> bool" where
  "reaches \<equiv> arm_ops.ops"

lemma reaches_op: "source_op s s' \<Longrightarrow> reaches s s'"
  by (rule arm_ops.ops.more[OF arm_ops.ops.none])

lemma reaches_trans: "reaches s u \<Longrightarrow> reaches u v \<Longrightarrow> reaches s v"
  by (rule arm_ops.ops_trans)

lemmas reaches_none [simp] = arm_ops.ops.none

lemma write_telemetry_keeps:
  assumes "write_telemetry cfg t n = (r, n')"
  shows "an_source n' = an_source n" and "an_control_active n' = an_control_active n"
    and "an_readers n' = an_readers n"
  using assms by (auto simp: write_telemetry_def status_signal_def Let_def split: sum.splits if_splits)

lemma await_channels_keeps:
  "await_channels cfg dl ps n = Some (r, n') \<Longrightarrow> an_source n' = an_source n"
proof (induction cfg dl ps n rule: await_channels.induct)
  case (2 cfg dl p ps n)
  then show ?case
    by (auto simp: write_telemetry_keeps(1) split: if_splits prod.splits sum.splits)
qed simp

lemma await_first_setpoint_keeps:
  "await_first_setpoint cfg dl ps n = Some (r, n') \<Longrightarrow> an_source n' = an_source n"
proof (induction cfg dl ps n rule: await_first_setpoint.induct)
  case (2 cfg dl p ps n)
  then show ?case
    by (auto simp: write_telemetry_keeps(1) split: if_splits prod.splits sum.splits)
qed simp

lemma bootstrap_polls_keeps:
  "bootstrap_polls cfg ps n = (r, n') \<Longrightarrow> an_source n' = an_source n"
proof (induction cfg ps n arbitrary: r n' rule: bootstrap_polls.induct)
  case (2 cfg p ps n)
  then show ?case
    by (fastforce simp: write_telemetry_keeps(1) split: if_splits prod.splits sum.splits)
qed simp

lemma gripper_tick_reaches: "reaches (an_source n) (an_source (gripper_tick ti n))"
  by (auto simp: gripper_tick_def intro: reaches_op source_op.intros)

lemma actuate_reaches: "actuate cfg ctrl co ti n = (v, n') \<Longrightarrow> reaches (an_source n) (an_source n')"
  using gripper_tick_reaches[of "n\<lparr>an_source := s\<rparr>" ti for s]
  by (auto simp: actuate_def Let_def intro: reaches_trans[OF reaches_op[OF source_op.send]]
      split: option.splits if_splits sum.splits py_error.splits)

lemma control_tick_reaches:
  "control_tick cfg ctrl co ti n = (v, n') \<Longrightarrow> reaches (an_source n) (an_source n')"
  using actuate_reaches write_telemetry_keeps(1)
  by (fastforce simp: control_tick_def split: if_splits prod.splits sum.splits)

lemma control_loop_reaches:
  "control_loop cfg ctrl co tis n = Some (r, n') \<Longrightarrow> reaches (an_source n) (an_source n')"
proof (induction cfg ctrl co tis n rule: control_loop.induct)
  case (2 cfg ctrl co ti tis n)
  obtain v n1 where v: "control_tick cfg ctrl co ti n = (v, n1)" by fastforce
  show ?case using 2 v control_tick_reaches[OF v]
    by (cases v) (auto intro: reaches_trans)
qed simp

lemma then_phase_Some:
  "then_phase m k = Some (r, n) \<longleftrightarrow> (\<exists>e. m = Some (Inl e, n) \<and> r = Inl e) \<or> (\<exists>x n1. m = Some (Inr x, n1) \<and> k x n1 = Some (r, n))"
  by (auto simp: then_phase_def split: option.splits sum.splits)

lemma enter_phase_reaches: "enter_phase w due n = Some (r, n') \<Longrightarrow> reaches (an_source n) (an_source n')"
  using reaches_op[OF source_op.enter] by (fastforce simp: enter_phase_def split: if_splits)

lemma boot_phase_reaches: "boot_phase cfg ctrl co w flds n = Some (r, n') \<Longrightarrow> reaches (an_source n) (an_source n')"
proof -
  assume a: "boot_phase cfg ctrl co w flds n = Some (r, n')"
  let ?p = "case an_source n of Real s \<Rightarrow> if ct_kind ctrl = ''qpos'' then bootstrap_polls cfg (sw_boot w) n else (Inr [], n)
                   | Sim s \<Rightarrow> (Inr [], n)"
  obtain q n1 where p: "?p = (q, n1)" by fastforce
  have k: "an_source n1 = an_source n"
    using p bootstrap_polls_keeps by (auto split: arm_source.splits if_splits)
  show ?thesis
  proof (cases q)
    case (Inl e)
    then show ?thesis using a k unfolding boot_phase_def Let_def p by auto
  next
    case (Inr boots)
    then obtain s where "as_start_control ctrl co (sw_K_q_nom w) flds (sw_rs w) boots (an_source n) = Some (r, s)"
        "an_source n' = s"
      using a k unfolding boot_phase_def Let_def p by auto
    then show ?thesis using reaches_op[OF source_op.start] by simp
  qed
qed

lemma gripper_phase_reaches: "reaches (an_source n) (an_source (gripper_phase cfg w n))"
  by (auto simp: gripper_phase_def intro: reaches_op source_op.ready split: prod.splits)

lemma drive_phase_reaches: "drive_phase cfg ctrl co w n = Some (r, n') \<Longrightarrow> reaches (an_source n) (an_source n')"
proof -
  assume a: "drive_phase cfg ctrl co w n = Some (r, n')"
  let ?await = "await_first_setpoint cfg (sw_first_start w + ac_attach_timeout_s cfg) (sw_first w) n"
  obtain f n1 where f: "?await = Some (f, n1)" using a by (auto simp: drive_phase_def then_phase_Some)
  have k: "an_source n1 = an_source n" using await_first_setpoint_keeps[OF f] .
  show ?thesis
  proof (cases "n' = n1")
    case False
    then obtain vec flds where v: "f = Inr (Some vec)"
        and b: "then_phase (boot_phase cfg ctrl co w flds n1) (\<lambda>started n2. if \<not> started then Some (Inr (), n2)
            else control_loop cfg ctrl co (sw_ticks w) (gripper_phase cfg w n2)) = Some (r, n')"
      using a f by (auto simp: drive_phase_def then_phase_def split: option.splits sum.splits)
    then obtain q n2 where q: "boot_phase cfg ctrl co w flds n1 = Some (q, n2)"
        and rest: "n' = n2 \<or> control_loop cfg ctrl co (sw_ticks w) (gripper_phase cfg w n2) = Some (r, n')"
      by (auto simp: then_phase_Some split: if_splits)
    have r1: "reaches (an_source n) (an_source n2)" using boot_phase_reaches[OF q] k by simp
    show ?thesis
      using rest r1 control_loop_reaches[of cfg ctrl co "sw_ticks w" "gripper_phase cfg w n2" r n']
        reaches_trans[OF r1 reaches_trans[OF gripper_phase_reaches]] by blast
  qed (simp add: k)
qed

text \<open>The robot handed back by the native controller is connected, or the reopening failed.\<close>

definition native_ok :: "session_world \<Rightarrow> bool" where
  "native_ok w \<longleftrightarrow> (case sw_native_reopen w of None \<Rightarrow> True | Some (r, s) \<Rightarrow> connected s)"

lemma session_body_connected:
  assumes "session_body cfg ctrl co w n = Some (r, n')" "native_ok w" "connected (an_source n)"
  shows "connected (an_source n')"
proof -
  have seq: "connected (an_source b)"
    if "then_phase m k = Some (q, b)" "\<And>p a. m = Some (p, a) \<Longrightarrow> connected (an_source a)"
      "\<And>x a. m = Some (Inr x, a) \<Longrightarrow> connected (an_source a) \<Longrightarrow> k x a = Some (q, b) \<Longrightarrow> connected (an_source b)"
    for m :: "('x res \<times> arm_node) option" and k and q :: "'y res" and b
    using that by (auto simp: then_phase_Some)
  have enter: "connected (an_source b)" if "enter_phase w due a = Some (q, b)" "connected (an_source a)" for due a q b
    using arm_ops.ops_conn[OF enter_phase_reaches[OF that(1)] that(2)] .
  have native: "connected (an_source b)" if "native_drive cfg w a = Some (q, b)" "connected (an_source a)" for a q b
    using that assms(2) unfolding native_drive_def
    by (elim seq) (auto simp: native_phase_def native_ok_def await_first_setpoint_keeps
        split: option.splits sum.splits)
  have drive: "connected (an_source b)" if "drive_phase cfg ctrl co w a = Some (q, b)" "connected (an_source a)" for a q b
    using arm_ops.ops_conn[OF drive_phase_reaches[OF that(1)] that(2)] .
  show ?thesis
    using assms(1,3) unfolding session_body_def Let_def
    apply (elim seq)
      apply (blast intro: enter)
     apply (simp add: await_channels_keeps)
    apply (simp split: if_splits)
    apply (elim seq)
     apply (auto simp: attach_phase_def split: sum.splits)[1]
    apply (simp split: if_splits)
     apply (blast intro: native)
    apply (elim seq)
     apply (blast intro: enter)
    apply (blast intro: drive)
    done
qed

lemma control_session_parked:
  assumes "control_session cfg co control w n = Some (r, n')" "native_ok w" "connected (an_source n)"
  shows "parked (an_source n')" and "\<not> an_control_active n'" and "an_readers n' = []"
proof -
  obtain ctrl b where b: "session_body cfg ctrl co w (n\<lparr>an_control_active := True\<rparr>) = Some (r, b)" "n' = session_cleanup b"
    using assms(1) by (auto simp: control_session_def Let_def)
  have "connected (an_source b)" using session_body_connected[OF b(1) assms(2)] assms(3) by simp
  then show "parked (an_source n')" "\<not> an_control_active n'" "an_readers n' = []"
    using b(2) by (simp_all add: session_cleanup_def parked_stop)
qed

section \<open>What one tick sends\<close>

fun is_gripper_call :: "rdk_call \<Rightarrow> bool" where
  "is_gripper_call (GripperMove w v f) = True"
| "is_gripper_call GripperStop = True"
| "is_gripper_call c = False"

lemma gripper_tick_calls:
  assumes "an_source n = Real s"
  shows "\<exists>s' gs. an_source (gripper_tick ti n) = Real s' \<and> src_calls s' = src_calls s @ gs \<and> list_all is_gripper_call gs"
  using assms
  by (auto simp: gripper_tick_def send_gripper_def stop_gripper_def Let_def split: option.splits)

text \<open>The guards of a tick that commands the robot.\<close>

definition tick_clear :: "tick \<Rightarrow> bool" where
  "tick_clear ti \<longleftrightarrow> \<not> ti_stop ti \<and> \<not> ti_fault ti \<and> drain_commands (ti_rows ti) = Inr False"

definition tick_age :: "tick \<Rightarrow> int option" where
  "tick_age ti = map_option (\<lambda>t. tl_t_ns (ti_tel ti) - t) (sm_newest_t_ns (ti_setpoint ti))"

lemma newest_both: "sm_newest_t_ns s = Some t \<Longrightarrow> \<exists>v. sm_newest s = Some v"
  by (auto simp: sm_newest_t_ns_def sm_newest_def split: if_splits)

lemma actuate_calls:
  assumes "actuate cfg ctrl co ti n = (v, n')" "an_source n = Real s"
  shows "an_source n' = Real s \<or>
    (\<exists>vec age flds s1 s' gs. sm_newest (ti_setpoint ti) = Some vec \<and> tick_age ti = Some age \<and> age \<le> deadman_ns ctrl
       \<and> slice_streamed ctrl vec = Inr flds
       \<and> send_control ctrl co flds (tl_rs (ti_tel ti)) (1 / ac_control_rate_hz cfg) (ac_safety_check cfg) (ac_tolerance cfg) s
           = Inr s1
       \<and> an_source n' = Real s' \<and> src_calls s' = src_calls s1 @ gs \<and> list_all is_gripper_call gs)"
proof (cases "\<exists>vec t flds s1. sm_newest (ti_setpoint ti) = Some vec \<and> sm_newest_t_ns (ti_setpoint ti) = Some t
    \<and> tl_t_ns (ti_tel ti) - t \<le> deadman_ns ctrl \<and> slice_streamed ctrl vec = Inr flds
    \<and> send_control ctrl co flds (tl_rs (ti_tel ti)) (1 / ac_control_rate_hz cfg) (ac_safety_check cfg) (ac_tolerance cfg) s = Inr s1
    \<and> tl_t_ns (ti_tel ti) - t \<le> deadman_hard_ns ctrl")
  case True
  then obtain vec t flds s1 where a: "sm_newest (ti_setpoint ti) = Some vec" "sm_newest_t_ns (ti_setpoint ti) = Some t"
    "tl_t_ns (ti_tel ti) - t \<le> deadman_ns ctrl" "slice_streamed ctrl vec = Inr flds"
    "send_control ctrl co flds (tl_rs (ti_tel ti)) (1 / ac_control_rate_hz cfg) (ac_safety_check cfg) (ac_tolerance cfg) s = Inr s1"
    "tl_t_ns (ti_tel ti) - t \<le> deadman_hard_ns ctrl" by blast
  have "n' = gripper_tick ti (n\<lparr>an_source := Real s1\<rparr>)"
    using assms a by (simp add: actuate_def Let_def)
  then obtain s' gs where "an_source n' = Real s'" "src_calls s' = src_calls s1 @ gs" "list_all is_gripper_call gs"
    using gripper_tick_calls[of "n\<lparr>an_source := Real s1\<rparr>" s1 ti] by auto
  then show ?thesis using a by (auto simp: tick_age_def)
next
  case False
  then have "an_source n' = Real s"
    using assms by (auto simp: actuate_def Let_def not_less split: option.splits if_splits sum.splits py_error.splits)
  then show ?thesis by simp
qed

lemma control_tick_cases:
  assumes "control_tick cfg ctrl co ti n = (v, n')"
  shows "an_source n' = an_source n \<or> (tick_clear ti \<and> (\<exists>n1. an_source n1 = an_source n \<and> actuate cfg ctrl co ti n1 = (v, n')))"
proof (cases "ti_stop ti")
  case True
  then show ?thesis using assms by (simp add: control_tick_def)
next
  case False
  obtain r n1 where t: "write_telemetry cfg (ti_tel ti) n = (r, n1)" by fastforce
  show ?thesis using assms False t write_telemetry_keeps(1)[OF t]
    by (auto simp: control_tick_def tick_clear_def split: sum.splits if_splits)
qed

section \<open>Ticks that end the loop\<close>

definition ending_tick :: "control_cfg \<Rightarrow> tick \<Rightarrow> bool" where
  "ending_tick ctrl ti \<longleftrightarrow> ti_stop ti \<or> ti_fault ti \<or> drain_commands (ti_rows ti) = Inr True
     \<or> (\<exists>age. tick_age ti = Some age \<and> age > deadman_hard_ns ctrl)"

lemma ending_tick_ends:
  assumes "ending_tick ctrl ti" "control_tick cfg ctrl co ti n = (v, n')"
  shows "v \<noteq> Continue" and "an_source n' = an_source n"
proof -
  obtain r n1 where t: "write_telemetry cfg (ti_tel ti) n = (r, n1)" by fastforce
  have old: "actuate cfg ctrl co ti n1 = (Break, n1)" if "tick_age ti = Some age" "age > deadman_hard_ns ctrl" for age
    using that newest_both by (fastforce simp: actuate_def tick_age_def Let_def)
  have "v \<noteq> Continue \<and> an_source n' = an_source n"
    using assms t write_telemetry_keeps(1)[OF t] old
    by (auto simp: control_tick_def ending_tick_def split: sum.splits if_splits)
  then show "v \<noteq> Continue" "an_source n' = an_source n" by auto
qed

lemma control_loop_ends:
  assumes "i < length tis" "ending_tick ctrl (tis ! i)"
  shows "\<exists>r n'. control_loop cfg ctrl co tis n = Some (r, n') \<and> control_loop cfg ctrl co (take (Suc i) tis) n = Some (r, n')"
  using assms
proof (induction tis arbitrary: i n)
  case (Cons ti tis)
  obtain v n1 where v: "control_tick cfg ctrl co ti n = (v, n1)" by fastforce
  show ?case
  proof (cases "v = Continue")
    case False
    then show ?thesis using v by (cases v) auto
  next
    case True
    then obtain j where "i = Suc j" using Cons.prems(2) ending_tick_ends(1)[OF _ v] by (cases i) auto
    then show ?thesis using Cons.IH[of j n1] Cons.prems v True by simp
  qed
qed simp

section \<open>Properties\<close>



text \<open>
  C27. The loop is bounded by its watchdogs: the first tick that sees the shutdown event, a robot
  fault, a STOP command or a setpoint older than the hard dead man ends the control loop at that
  tick or earlier, and that tick sends nothing to the robot.
\<close>

theorem control_loop_stops:
  assumes "i < length tis" "ending_tick ctrl (tis ! i)"
  shows "(\<exists>r n'. control_loop cfg ctrl co tis n = Some (r, n') \<and> control_loop cfg ctrl co (take (Suc i) tis) n = Some (r, n'))
    \<and> (\<forall>m v m'. control_tick cfg ctrl co (tis ! i) m = (v, m') \<longrightarrow> an_source m' = an_source m)"
  using control_loop_ends[OF assms] ending_tick_ends(2)[OF assms(2)] by blast

text \<open>
  Servo-on precedes the wait for the channels: with eager enabling on a healthy real arm whose
  control runs in this process, a session whose channels never appear ends with
  \<^verbatim>\<open>TimeoutError\<close> after the robot was enabled (and then stopped).
\<close>

theorem eager_enable_before_timeout:
  assumes "ac_eager_enable cfg" "an_source n = Real s" "src_connected s"
    and "\<not> uses_native_rt cfg (ac_control cfg) (Real s)"
    and "\<not> eo_fault (sw_enter w)" "eo_oper (sw_enter w) = (True, now) # os"
    and "await_channels cfg (sw_chan_start w + ac_attach_timeout_s cfg) (sw_channels w)
           (n\<lparr>an_control_active := True, an_source := Real (emit [Enable] s)\<rparr>) = Some (Inl TimeoutError, m)"
  shows "\<exists>n' s'. control_session cfg co None w n = Some (Inl TimeoutError, n') \<and> an_source n' = Real s'
    \<and> (\<exists>cs. src_calls s' = src_calls s @ [Enable] @ cs \<and> last cs = Stop)"
proof -
  have src: "an_source m = Real (emit [Enable] s)" using await_channels_keeps[OF assms(7)] by simp
  have ent: "enter_phase w True (n\<lparr>an_control_active := True\<rparr>)
      = Some (Inr (), n\<lparr>an_control_active := True, an_source := Real (emit [Enable] s)\<rparr>)"
    using assms by (simp add: enter_phase_def enter_control_def clear_fault_def)
  have "session_body cfg (ac_control cfg) co w (n\<lparr>an_control_active := True\<rparr>) = Some (Inl TimeoutError, m)"
    using assms ent by (simp add: session_body_def then_phase_def)
  then have "control_session cfg co None w n = Some (Inl TimeoutError, session_cleanup m)"
    by (simp add: control_session_def)
  moreover have "\<exists>s'. an_source (session_cleanup m) = Real s' \<and> (\<exists>cs. src_calls s' = src_calls s @ [Enable] @ cs \<and> last cs = Stop)"
    using src assms(3) by (auto simp: session_cleanup_def source_stop_def stop_gripper_def split: option.splits)
  ultimately show ?thesis by blast
qed

section \<open>Witnesses\<close>

definition demo_node_cfg :: arm_node_cfg where
  "demo_node_cfg = \<lparr>ac_side = ''left'', ac_streams = [],
     ac_control = demo_cfg ''qpos'' ''NRT_JOINT_POSITION'' [(''q_d'', 1)] [''q_d''],
     ac_wrench_frame = ''local'', ac_sim = False, ac_rt_streaming = False, ac_eager_enable = True,
     ac_safety_check = True, ac_tolerance = 1 / 2, ac_attach_timeout_s = 10, ac_control_rate_hz = 200,
     ac_gripper = \<lparr>gc_enabled = False, gc_name = '''', gc_velocity = 1, gc_force = 20, gc_move_rate_hz = 10,
       gc_deadband = 1 / 50, gc_init_on_start = True, gc_open_width = None, gc_closed_width = None\<rparr>\<rparr>"

definition demo_node :: arm_node where
  "demo_node = \<lparr>an_source = Real (demo_source [0]), an_control_active = False, an_status_cache = None,
     an_status_next_ns = 0, an_published = [], an_readers = []\<rparr>"

definition demo_tel :: tel where
  "demo_tel = \<lparr>tl_t_ns = 1000, tl_rs = demo_states [0], tl_status = None\<rparr>"

definition one_sample :: "real list \<Rightarrow> int \<Rightarrow> real samples" where
  "one_sample x t = \<lparr>sm_data = [x], sm_t_ns = [t], sm_seq = [0], sm_overrun = False\<rparr>"

definition demo_tick :: "int \<Rightarrow> tick" where
  "demo_tick stamp = \<lparr>ti_stop = False, ti_tel = demo_tel, ti_fault = False, ti_rows = [],
     ti_setpoint = one_sample [1 / 4] stamp, ti_gripper = empty_samples, ti_grip_raises = False\<rparr>"

definition demo_world :: session_world where
  "demo_world = \<lparr>sw_enter = \<lparr>eo_fault = False, eo_cleared = True, eo_start = 0, eo_oper = [(True, 0)]\<rparr>,
     sw_chan_start = 0, sw_channels = [\<lparr>cp_stop = False, cp_found = False, cp_now = 11, cp_tel = demo_tel\<rparr>],
     sw_attach = Inr (), sw_gripper_channel = False, sw_native_find = Inr (), sw_native = Inr (),
     sw_native_reopen = None, sw_first_start = 0, sw_first = [], sw_rs = demo_states [0], sw_boot = [],
     sw_K_q_nom = [], sw_gripper_params = None, sw_ticks = []\<rparr>"

lemmas demo_node_defs = demo_node_cfg_def demo_node_def demo_tel_def demo_tick_def one_sample_def demo_cfg_def
  demo_channel_def demo_source_def demo_states_def

lemma demo_parked: "parked (an_source demo_node)" "\<not> an_control_active demo_node"
  by (simp_all add: demo_node_defs parked_calls_def)

theorem eager_enable_before_timeout_witness:
  "\<exists>n' s'. control_session demo_node_cfg demo_coeffs None demo_world demo_node = Some (Inl TimeoutError, n')
     \<and> an_source n' = Real s' \<and> (\<exists>cs. src_calls s' = [Enable] @ cs \<and> last cs = Stop)"
proof -
  have h: "ac_eager_enable demo_node_cfg" "an_source demo_node = Real (demo_source [0])" "src_connected (demo_source [0])"
    "\<not> uses_native_rt demo_node_cfg (ac_control demo_node_cfg) (Real (demo_source [0]))"
    "\<not> eo_fault (sw_enter demo_world)" "eo_oper (sw_enter demo_world) = (True, 0) # []"
    "await_channels demo_node_cfg (sw_chan_start demo_world + ac_attach_timeout_s demo_node_cfg) (sw_channels demo_world)
       (demo_node\<lparr>an_control_active := True, an_source := Real (emit [Enable] (demo_source [0]))\<rparr>)
     = Some (Inl TimeoutError, demo_node\<lparr>an_control_active := True, an_source := Real (emit [Enable] (demo_source [0]))\<rparr>)"
    by (simp_all add: demo_node_defs demo_world_def uses_native_rt_def)
  have "src_calls (demo_source [0]) = []" by (simp add: demo_source_def)
  then show ?thesis using eager_enable_before_timeout[OF h, of demo_coeffs] by simp
qed



theorem control_loop_stops_witness:
  "\<exists>r n'. control_loop demo_node_cfg (ac_control demo_node_cfg) demo_coeffs [demo_tick 900, demo_tick (-600000000)] demo_node
     = Some (r, n')"
proof -
  have h: "1 < length [demo_tick 900, demo_tick (-600000000)]"
    "ending_tick (ac_control demo_node_cfg) ([demo_tick 900, demo_tick (-600000000)] ! 1)"
    by (simp_all add: ending_tick_def tick_age_def sm_newest_t_ns_def sm_n_def deadman_hard_ns_def demo_node_defs)
  show ?thesis using control_loop_stops[OF h, of demo_node_cfg demo_coeffs demo_node] by blast
qed

end
