(* ===== verification/Brain.thy ===== *)
theory Brain
  imports Arm_Session
begin

text \<open>
  The brain (\<^verbatim>\<open>brain/brain.py\<close>): it attaches read-only to telemetry streams and owns the control
  channels of the arms it commands. Its state is the record \<open>brain\<close> beside the \<open>run_store\<close> that all
  processes share. Every stream creation takes the outcome of its file operations; opening the
  channels keeps what it had created when one of them raises.
\<close>

record brain =
  br_readers :: "(string, stream_reader) dict"
  br_setpoint :: "(string, stream_writer) dict"
  br_command :: "(string, stream_writer) dict"
  br_gripper :: "(string, stream_writer) dict"

type_synonym brain_state = "brain \<times> real run_store"

definition empty_brain :: brain where
  "empty_brain = \<lparr>br_readers = [], br_setpoint = [], br_command = [], br_gripper = []\<rparr>"

definition default_stream_names :: "(string, arm_cfg) dict \<Rightarrow> string list" where
  "default_stream_names arms = concat (map (\<lambda>(side, arm). map (\<lambda>sig. side @ ''/'' @ sig) (dkeys (ar_streams arm))) arms)"

definition brain_attach ::
    "string list \<Rightarrow> real \<Rightarrow> real \<Rightarrow> real poll list \<Rightarrow> brain_state \<Rightarrow> (unit res \<times> brain_state) option" where
  "brain_attach names timeout start polls bs =
     (case wait_for ''streams'' names timeout start polls of
        None \<Rightarrow> None
      | Some (Inl e) \<Rightarrow> Some (Inl e, bs)
      | Some (Inr entries) \<Rightarrow>
          Some (foldE (\<lambda>name (b, w).
            case rbind (ditem entries name) (\<lambda>en. reader_attach en w) of
              Inl e \<Rightarrow> (Inl e, (b, w))
            | Inr r \<Rightarrow> (Inr (), (b\<lparr>br_readers := dput name r (br_readers b)\<rparr>, w))) names bs))"

text \<open>The segment a reader has mapped; here found under its name.\<close>

definition reader_segment :: "stream_reader \<Rightarrow> real run_store \<Rightarrow> real segment res" where
  "reader_segment r w = (case re_shm_name (rd_entry r) of JStr n \<Rightarrow> ditem (rs_shm w) n | _ \<Rightarrow> Inl TypeError)"

definition brain_last :: "string \<Rightarrow> int \<Rightarrow> brain_state \<Rightarrow> real samples res" where
  "brain_last name k bs =
     rbind (ditem (br_readers (fst bs)) name) (\<lambda>r. rbind (reader_segment r (snd bs)) (\<lambda>g. Inr (reader_last r k g)))"

definition brain_latest :: "string \<Rightarrow> brain_state \<Rightarrow> real samples res" where
  "brain_latest name bs =
     rbind (ditem (br_readers (fst bs)) name) (\<lambda>r. rbind (reader_segment r (snd bs)) (\<lambda>g. Inr (reader_latest r g)))"

definition brain_observe :: "brain_state \<Rightarrow> (string \<times> real samples) list res" where
  "brain_observe bs = mapR (\<lambda>name. rbind (brain_latest name bs) (\<lambda>s. Inr (name, s))) (dkeys (br_readers (fst bs)))"

section \<open>Control channels\<close>

datatype leaf = LGripper | LSetpoint | LCommand

fun leaf_name :: "leaf \<Rightarrow> string" where
  "leaf_name LGripper = GRIPPER"
| "leaf_name LSetpoint = SETPOINT"
| "leaf_name LCommand = COMMAND"

fun put_writer :: "leaf \<Rightarrow> string \<Rightarrow> stream_writer \<Rightarrow> brain \<Rightarrow> brain" where
  "put_writer LGripper side wr b = b\<lparr>br_gripper := dput side wr (br_gripper b)\<rparr>"
| "put_writer LSetpoint side wr b = b\<lparr>br_setpoint := dput side wr (br_setpoint b)\<rparr>"
| "put_writer LCommand side wr b = b\<lparr>br_command := dput side wr (br_command b)\<rparr>"

text \<open>The order of creation: per side, the gripper mailbox first when it is configured.\<close>

definition open_order :: "(string, (string, stream_spec) dict) dict \<Rightarrow> (string \<times> leaf) list" where
  "open_order specs_by_side =
     concat (map (\<lambda>(side, specs).
       (if dget specs GRIPPER \<noteq> None then [(side, LGripper)] else []) @ [(side, LSetpoint), (side, LCommand)])
       specs_by_side)"

definition open_one ::
    "(string \<Rightarrow> leaf \<Rightarrow> io_outcome) \<Rightarrow> string \<Rightarrow> int \<Rightarrow> (string, (string, stream_spec) dict) dict
     \<Rightarrow> string \<times> leaf \<Rightarrow> brain_state \<Rightarrow> unit res \<times> brain_state" where
  "open_one io run_id pid specs_by_side p bs =
     (case p of (side, lf) \<Rightarrow> case bs of (b, w) \<Rightarrow>
      case rbind (ditem specs_by_side side) (\<lambda>specs. ditem specs (leaf_name lf)) of
        Inl e \<Rightarrow> (Inl e, bs)
      | Inr spec \<Rightarrow>
          (case writer_create 0 (io side lf) run_id ''control'' pid spec w of
             (Inl e, w') \<Rightarrow> (Inl e, (b, w'))
           | (Inr wr, w') \<Rightarrow> (Inr (), (put_writer lf side wr b, w'))))"

definition open_control ::
    "(string \<Rightarrow> leaf \<Rightarrow> io_outcome) \<Rightarrow> string \<Rightarrow> int \<Rightarrow> (string, (string, stream_spec) dict) dict
     \<Rightarrow> brain_state \<Rightarrow> unit res \<times> brain_state" where
  "open_control io run_id pid specs_by_side bs =
     foldE (open_one io run_id pid specs_by_side) (open_order specs_by_side) bs"

definition write_via :: "stream_writer \<Rightarrow> real list \<Rightarrow> int \<Rightarrow> brain_state \<Rightarrow> unit res \<times> brain_state" where
  "write_via wr vec now_ns bs =
     (case writer_write wr vec None now_ns (snd bs) of
        Inl e \<Rightarrow> (Inl e, bs)
      | Inr (w', i) \<Rightarrow> (Inr (), (fst bs, w')))"

definition command :: "string \<Rightarrow> real list \<Rightarrow> int \<Rightarrow> brain_state \<Rightarrow> unit res \<times> brain_state" where
  "command side setpoint now_ns bs =
     (case ditem (br_setpoint (fst bs)) side of
        Inl e \<Rightarrow> (Inl e, bs)
      | Inr wr \<Rightarrow> write_via wr setpoint now_ns bs)"

definition send_command :: "string \<Rightarrow> control_command \<Rightarrow> int \<Rightarrow> brain_state \<Rightarrow> unit res \<times> brain_state" where
  "send_command side cmd now_ns bs =
     (case rbind (ditem (br_command (fst bs)) side) (\<lambda>wr.
             rbind (encode cmd (nat (ss_dim (wr_spec wr)))) (\<lambda>v. Inr (wr, v))) of
        Inl e \<Rightarrow> (Inl e, bs)
      | Inr (wr, v) \<Rightarrow> write_via wr v now_ns bs)"

definition command_gripper :: "string \<Rightarrow> real \<Rightarrow> int \<Rightarrow> brain_state \<Rightarrow> unit res \<times> brain_state" where
  "command_gripper side value now_ns bs =
     (case dget (br_gripper (fst bs)) side of
        None \<Rightarrow> (Inr (), bs)
      | Some wr \<Rightarrow> write_via wr [value] now_ns bs)"

text \<open>STOP to every commanded arm; a failing channel is skipped.\<close>

definition stop_one :: "int \<Rightarrow> stream_writer \<Rightarrow> brain_state \<Rightarrow> brain_state" where
  "stop_one now_ns wr bs =
     (case encode \<lparr>cmd_kind = STOP, cmd_args = []\<rparr> (nat (ss_dim (wr_spec wr))) of
        Inl e \<Rightarrow> bs
      | Inr v \<Rightarrow> snd (write_via wr v now_ns bs))"

definition stop_arms :: "int \<Rightarrow> brain_state \<Rightarrow> brain_state" where
  "stop_arms now_ns bs = foldl (\<lambda>s (side, wr). stop_one now_ns wr s) bs (br_command (fst bs))"

definition brain_close :: "brain_state \<Rightarrow> brain_state" where
  "brain_close bs =
     (case bs of (b, w) \<Rightarrow>
        (empty_brain, foldl (\<lambda>w (side, wr). writer_unlink wr w) w (br_setpoint b @ br_command b @ br_gripper b)))"

section \<open>Teleoperation in the brain process\<close>

text \<open>The channels of the control-enabled arms, with a gripper mailbox where one is attached.\<close>

record teleop_arm =
  ta_control :: control_cfg
  ta_control_enabled :: bool
  ta_gripper_enabled :: bool
  ta_dof :: nat

definition specs_for :: "(string \<times> teleop_arm) \<Rightarrow> (string \<times> (string, stream_spec) dict) res" where
  "specs_for p =
     (case p of (side, arm) \<Rightarrow>
      rbind (control_specs side (ta_control arm)) (\<lambda>specs.
      if ta_gripper_enabled arm
      then rbind (gripper_spec side (ct_channel (ta_control arm))) (\<lambda>g. Inr (side, dput GRIPPER g specs))
      else Inr (side, specs)))"

definition specs_by_side :: "(string, teleop_arm) dict \<Rightarrow> (string, (string, stream_spec) dict) dict res" where
  "specs_by_side arms = mapR specs_for (filter (\<lambda>(side, arm). ta_control_enabled arm) arms)"

text \<open>One side of \<open>process\<close>: post the leader's joints and its gripper value.\<close>

definition teleop_side ::
    "(string, real list) dict \<Rightarrow> int \<Rightarrow> string \<times> teleop_arm \<Rightarrow> brain_state \<Rightarrow> unit res \<times> brain_state" where
  "teleop_side leaders now_ns p bs =
     (case p of (side, arm) \<Rightarrow>
      case dget leaders side of
        None \<Rightarrow> (Inr (), bs)
      | Some q_leader \<Rightarrow>
         if ct_kind (ta_control arm) \<noteq> ''qpos'' then (Inr (), bs)
         else let q_d = take (ta_dof arm) q_leader in
           case pack_streamed (ta_control arm) [(''q_d'', q_d), (''dq_d'', replicate (length q_d) 0)] of
             Inl e \<Rightarrow> (Inl e, bs)
           | Inr setpoint \<Rightarrow>
               (case command side setpoint now_ns bs of
                  (Inl e, bs') \<Rightarrow> (Inl e, bs')
                | (Inr u, bs') \<Rightarrow>
                    if q_leader = [] then (Inr (), bs') else command_gripper side (last q_leader) now_ns bs'))"

definition brain_process ::
    "bool \<Rightarrow> (string, teleop_arm) dict \<Rightarrow> (string, real list) dict \<Rightarrow> int \<Rightarrow> brain_state \<Rightarrow> unit res \<times> brain_state" where
  "brain_process has_servers teleop leaders now_ns bs =
     (if teleop = [] \<or> \<not> has_servers then (Inr (), bs) else foldE (teleop_side leaders now_ns) teleop bs)"

section \<open>Channel discovery while the channels are being opened\<close>

lemma publish_get:
  assumes "dir_ok (sub_dir w sub)" "publish io sub pid spec m w = (r, w')"
  shows "dir_ok (sub_dir w' sub)"
    and "get sub n w' = (if io = IoOk \<and> sanitize n = sanitize (ss_name spec)
         then Inr (if n = ss_name spec then Some (spec_entry spec m pid) else None) else get sub n w)"
    and "rs_shm w' = rs_shm w" and "(\<exists>e. r = Inl e) \<longleftrightarrow> io \<noteq> IoOk"
proof -
  show ok: "dir_ok (sub_dir w' sub)" using dir_ok_publish[OF assms(1), of io pid spec m] assms(2) by simp
  show "rs_shm w' = rs_shm w" "(\<exists>e. r = Inl e) \<longleftrightarrow> io \<noteq> IoOk"
    using assms(2) by (auto simp: publish_def Let_def split: io_outcome.splits option.splits)
  have nm: "re_name (spec_entry spec m pid) = JStr (ss_name spec)" by (simp add: spec_entry_def)
  show "get sub n w' = (if io = IoOk \<and> sanitize n = sanitize (ss_name spec)
         then Inr (if n = ss_name spec then Some (spec_entry spec m pid) else None) else get sub n w)"
  proof (cases "io = IoOk")
    case True
    then show ?thesis unfolding get_entry_of[OF ok] get_entry_of[OF assms(1)]
      using assms(2) nm by (auto simp: publish_def Let_def entry_of_replace)
  next
    case False
    then show ?thesis unfolding get_entry_of[OF ok] get_entry_of[OF assms(1)]
      using assms(2) by (auto simp: publish_def Let_def write_tmp_def split: io_outcome.splits option.splits)
  qed
qed

lemma get_shm_irrelevant [simp]: "get sub n (w\<lparr>rs_shm := m\<rparr>) = get sub n w"
  by (simp add: get_def discover_def)

lemma writer_create_get:
  assumes ok: "dir_ok (sub_dir w sub)" and c: "writer_create z io run sub pid spec w = (r, w')"
  shows "dir_ok (sub_dir w' sub)"
    and "(\<exists>e. r = Inl e) \<Longrightarrow> get sub n w' = get sub n w"
    and "(\<exists>x. r = Inr x) \<Longrightarrow> get sub n w' = (if sanitize n = sanitize (ss_name spec)
         then Inr (if n = ss_name spec then Some (spec_entry spec (shm_name_for run (ss_name spec)) pid) else None)
         else get sub n w)"
proof -
  let ?m = "shm_name_for run (ss_name spec)"
  have "dir_ok (sub_dir w' sub) \<and> ((\<exists>e. r = Inl e) \<longrightarrow> get sub n w' = get sub n w)
    \<and> ((\<exists>x. r = Inr x) \<longrightarrow> get sub n w' = (if sanitize n = sanitize (ss_name spec)
         then Inr (if n = ss_name spec then Some (spec_entry spec ?m pid) else None) else get sub n w))"
  proof (cases "ring_create z (nat (ss_capacity spec)) (nat (ss_dim spec)) (ss_dtype spec)")
    case (Inl e)
    then show ?thesis using c ok by (auto simp: writer_create_def Let_def)
  next
    case (Inr gv)
    obtain g v where gv: "gv = (g, v)" by (cases gv)
    let ?w1 = "w\<lparr>rs_shm := dput ?m g (rs_shm w)\<rparr>"
    have ok1: "dir_ok (sub_dir ?w1 sub)" using ok by simp
    obtain q w2 where q: "publish io sub pid spec ?m ?w1 = (q, w2)" by fastforce
    note p = publish_get[OF ok1 q]
    show ?thesis
    proof (cases "dget (rs_shm w) ?m = None")
      case False
      then show ?thesis using c ok Inr gv by (auto simp: writer_create_def Let_def)
    next
      case True
      then have "r = Inr \<lparr>wr_view = v, wr_shm_name = ?m, wr_spec = spec\<rparr> \<and> w' = w2 \<and> io = IoOk
          \<or> (\<exists>e. r = Inl e \<and> w' = w2\<lparr>rs_shm := ddel ?m (rs_shm w2)\<rparr> \<and> io \<noteq> IoOk)"
        using c Inr gv q p(4) by (auto simp: writer_create_def Let_def split: sum.splits)
      then show ?thesis using p(1) p(2)[of n] by auto
    qed
  qed
  then show "dir_ok (sub_dir w' sub)" "(\<exists>e. r = Inl e) \<Longrightarrow> get sub n w' = get sub n w"
    "(\<exists>x. r = Inr x) \<Longrightarrow> get sub n w' = (if sanitize n = sanitize (ss_name spec)
         then Inr (if n = ss_name spec then Some (spec_entry spec ?m pid) else None) else get sub n w)"
    by blast+
qed

definition channel :: "string \<times> leaf \<Rightarrow> string" where
  "channel p = control_channel_name (fst p) (leaf_name (snd p))"

definition published :: "brain_state \<Rightarrow> string \<times> leaf \<Rightarrow> bool" where
  "published bs p \<longleftrightarrow> (\<exists>e. get ''control'' (channel p) (snd bs) = Inr (Some e))"

definition names_ok :: "(string, (string, stream_spec) dict) dict \<Rightarrow> bool" where
  "names_ok specs \<longleftrightarrow> (\<forall>p \<in> set (open_order specs). \<forall>d sp. dget specs (fst p) = Some d \<longrightarrow>
       dget d (leaf_name (snd p)) = Some sp \<longrightarrow> ss_name sp = channel p)
     \<and> inj_on (\<lambda>p. sanitize (channel p)) (set (open_order specs))"

text \<open>Exactly the channels \<open>ys\<close> are published, of those to be opened.\<close>

definition opened ::
    "(string, (string, stream_spec) dict) dict \<Rightarrow> (string \<times> leaf) list \<Rightarrow> brain_state \<Rightarrow> bool" where
  "opened specs ys bs \<longleftrightarrow> dir_ok (sub_dir (snd bs) ''control'')
     \<and> (\<forall>p \<in> set (open_order specs). published bs p \<longleftrightarrow> p \<in> set ys)"

lemma open_one_opened:
  assumes names: "names_ok specs" and p: "p \<in> set (open_order specs)" and o: "opened specs ys bs"
    and run: "open_one io run pid specs p bs = (r, bs')"
  shows "opened specs (if \<exists>u. r = Inr u then ys @ [p] else ys) bs'"
proof -
  obtain side lf b w where p': "p = (side, lf)" "bs = (b, w)" by (cases p; cases bs)
  have ok: "dir_ok (sub_dir w ''control'')" using o by (simp add: opened_def p')
  show ?thesis
  proof (cases "rbind (ditem specs side) (\<lambda>d. ditem d (leaf_name lf))")
    case (Inl e)
    then show ?thesis using run o by (auto simp: open_one_def p')
  next
    case (Inr spec)
    then obtain d where d: "dget specs side = Some d" "dget d (leaf_name lf) = Some spec" by (auto simp: ditem_Inr)
    have nm: "ss_name spec = channel p" using names p d by (auto simp: names_ok_def p')
    obtain q w' where q: "writer_create 0 (io side lf) run ''control'' pid spec w = (q, w')" by fastforce
    note wc = writer_create_get[OF ok q]
    have snd': "snd bs' = w'" and rq: "(\<exists>u. r = Inr u) \<longleftrightarrow> (\<exists>x. q = Inr x)"
      using run Inr q by (auto simp: open_one_def p' split: sum.splits)
    have "published bs' p2 \<longleftrightarrow> p2 \<in> set (if \<exists>u. r = Inr u then ys @ [p] else ys)" if p2: "p2 \<in> set (open_order specs)" for p2
    proof (cases "\<exists>x. q = Inr x")
      case False
      then have "\<exists>e. q = Inl e" by (cases q) auto
      then show ?thesis using wc(2) o p2 rq False by (auto simp: published_def snd' opened_def p')
    next
      case True
      have "sanitize (channel p2) = sanitize (channel p) \<longleftrightarrow> p2 = p"
        using names p p2 by (auto simp: names_ok_def inj_on_def)
      then show ?thesis using wc(3)[OF True, of "channel p2"] o p2 rq True
        by (auto simp: published_def snd' nm opened_def p')
    qed
    then show ?thesis using wc(1) by (simp add: opened_def snd')
  qed
qed

lemma open_prefix:
  assumes "names_ok specs" "opened specs [] bs"
    and "foldE (open_one io run pid specs) (take k (open_order specs)) bs = (r, bs')"
  shows "\<exists>m. opened specs (take m (open_order specs)) bs'"
proof -
  have "\<exists>j. opened specs ([] @ take j (take k (open_order specs))) bs'"
  proof (rule foldE_prefix[OF assms(3), where Q = "opened specs"])
    show "opened specs [] bs" by (rule assms(2))
  next
    fix ys x s u t
    assume x: "x \<in> set (take k (open_order specs))" and o: "opened specs ys s"
      and st: "open_one io run pid specs x s = (Inr u, t)"
    show "opened specs (ys @ [x]) t"
      using open_one_opened[OF assms(1) in_set_takeD[OF x] o st] by simp
  next
    fix ys x s e t
    assume x: "x \<in> set (take k (open_order specs))" and o: "opened specs ys s"
      and st: "open_one io run pid specs x s = (Inl e, t)"
    show "opened specs ys t"
      using open_one_opened[OF assms(1) in_set_takeD[OF x] o st] by simp
  qed
  then show ?thesis by (auto simp: take_take)
qed

text \<open>In the order of creation a gripper mailbox comes before its side's other channels.\<close>

lemma gripper_first:
  assumes "distinct (dkeys specs)" "dget specs side = Some d" "dget d GRIPPER \<noteq> None"
    and "lf \<noteq> LGripper" "(side, lf) \<in> set (take m (open_order specs))"
  shows "(side, LGripper) \<in> set (take m (open_order specs))"
  using assms(1,2,5)
proof (induction specs arbitrary: m)
  case (Cons p specs)
  obtain s e where p: "p = (s, e)" by (cases p)
  let ?blk = "(if dget e GRIPPER \<noteq> None then [(s, LGripper)] else []) @ [(s, LSetpoint), (s, LCommand)]"
  have o: "open_order (p # specs) = ?blk @ open_order specs" by (simp add: open_order_def p)
  show ?case
  proof (cases "s = side")
    case True
    then have e: "e = d" using Cons.prems(2) by (simp add: p)
    have "m \<noteq> 0" using Cons.prems(3) by (cases m) auto
    then show ?thesis using assms(3) e True unfolding o by (cases m) auto
  next
    case False
    then have i: "dget specs side = Some d" using Cons.prems(2) by (simp add: p)
    have nb: "(side, lf) \<notin> set ?blk" using False by auto
    have "(side, lf) \<in> set (take (m - length ?blk) (open_order specs))"
      using in_take_append[OF Cons.prems(3)[unfolded o]] nb by blast
    from Cons.IH[OF _ i this] Cons.prems(1) show ?thesis
      unfolding o by (intro take_append_right) (simp add: p)
  qed
qed simp

section \<open>STOP on the way out\<close>

lemma stop_one_other:
  assumes "wr_shm_name wr \<noteq> n"
  shows "dget (rs_shm (snd (stop_one t wr bs))) n = dget (rs_shm (snd bs)) n"
  using assms
  by (auto simp: stop_one_def write_via_def writer_write_def Let_def split: sum.splits prod.splits)

lemma stop_one_posts:
  assumes "dget (rs_shm (snd bs)) (wr_shm_name wr) = Some g" "ring_rep (wr_view wr) g H"
    and "rv_dim (wr_view wr) = nat (ss_dim (wr_spec wr))" "0 < rv_dim (wr_view wr)"
  shows "\<exists>g' v cmd. dget (rs_shm (snd (stop_one t wr bs))) (wr_shm_name wr) = Some g'
     \<and> ring_rep (wr_view wr) g' (H @ [(t, v)]) \<and> decode v = Inr cmd \<and> cmd_kind cmd = STOP"
proof -
  let ?d = "nat (ss_dim (wr_spec wr))"
  obtain v where v: "encode \<lparr>cmd_kind = STOP, cmd_args = []\<rparr> ?d = Inr v"
    using assms(3,4) by (simp add: encode_def Let_def)
  have sh: "v = 2 # replicate (?d - 1) 0" using encode_shape[OF v] by simp
  have len: "length v = rv_dim (wr_view wr)" using sh assms(3,4) by simp
  have "py_round 2 = 2" using py_round_of_int[of 2] by simp
  then have dec: "decode v = Inr \<lparr>cmd_kind = STOP, cmd_args = replicate (?d - 1) 0\<rparr>"
    by (simp add: sh decode_def kind_of_def)
  obtain g' where g': "ring_append (wr_view wr) v t g = Inr (g', int (length H))" "ring_rep (wr_view wr) g' (H @ [(t, v)])"
    using ring_append_rep[OF assms(2) len, of t] by blast
  show ?thesis using assms(1) v g' dec
    by (auto simp: stop_one_def write_via_def writer_write_def ditem_def)
qed

lemma stop_fold_other:
  assumes "\<forall>p \<in> set wrs. wr_shm_name (snd p) \<noteq> n"
  shows "dget (rs_shm (snd (foldl (\<lambda>s (side, wr). stop_one t wr s) bs wrs))) n = dget (rs_shm (snd bs)) n"
  using assms by (induction wrs arbitrary: bs) (auto simp: stop_one_other)

lemma unlink_fold:
  "rs_subs (foldl (\<lambda>w (side, wr). writer_unlink wr w) w wrs) = rs_subs w
   \<and> (\<forall>n. dget (rs_shm (foldl (\<lambda>w (side, wr). writer_unlink wr w) w wrs)) n
        = (if \<exists>p \<in> set wrs. wr_shm_name (snd p) = n then None else dget (rs_shm w) n))"
  by (induction wrs arbitrary: w) (auto simp: writer_unlink_def)

section \<open>What the configuration gives\<close>

lemma mk_stream_spec_name: "mk_stream_spec n d c ty r = Inr sp \<Longrightarrow> ss_name sp = n"
  by (auto simp: mk_stream_spec_def split: if_splits)

lemma writer_create_ok:
  assumes "spec_ok spec" "dget (rs_shm w) (shm_name_for run (ss_name spec)) = None"
  shows "\<exists>wr g w'. writer_create z IoOk run sub pid spec w = (Inr wr, w')
    \<and> wr_shm_name wr = shm_name_for run (ss_name spec) \<and> rs_shm w' = dput (wr_shm_name wr) g (rs_shm w)"
proof -
  let ?m = "shm_name_for run (ss_name spec)"
  obtain dt where dt: "np_dtype (ss_dtype spec) = Some dt"
    using assms(1) allowed_dtype_np by (auto simp: spec_ok_def)
  have cap: "0 < nat (ss_capacity spec)" using assms(1) by (simp add: spec_ok_def)
  obtain g v where gv: "ring_create z (nat (ss_capacity spec)) (nat (ss_dim spec)) (ss_dtype spec) = Inr (g, v)"
    using ring_create_rep[OF dt cap, of z "nat (ss_dim spec)"] by blast
  let ?w1 = "w\<lparr>rs_shm := dput ?m g (rs_shm w)\<rparr>"
  obtain w2 where p: "publish IoOk sub pid spec ?m ?w1 = (Inr (spec_entry spec ?m pid), w2)"
    "rs_shm w2 = dput ?m g (rs_shm w)"
    by (simp add: publish_def Let_def)
  have "writer_create z IoOk run sub pid spec w = (Inr \<lparr>wr_view = v, wr_shm_name = ?m, wr_spec = spec\<rparr>, w2)"
    unfolding writer_create_def Let_def gv using assms(2) p(1) by simp
  then show ?thesis using p(2) by auto
qed

lemma leaf_names_distinct [simp]:
  "GRIPPER \<noteq> SETPOINT" "SETPOINT \<noteq> GRIPPER" "GRIPPER \<noteq> COMMAND" "COMMAND \<noteq> GRIPPER" "SETPOINT \<noteq> COMMAND" "COMMAND \<noteq> SETPOINT"
  by (simp_all add: GRIPPER_def SETPOINT_def COMMAND_def)

lemma specs_for_names:
  assumes "specs_for (side, arm) = Inr (s, d)" "dget d (leaf_name lf) = Some sp"
  shows "s = side \<and> ss_name sp = channel (side, lf)"
  using assms
  by (cases lf) (auto simp: specs_for_def control_specs_def gripper_spec_def Let_def channel_def
      gripper_channel_name_def split: if_splits dest!: mk_stream_spec_name)

lemma mapR_mem: "mapR f xs = Inr ys \<Longrightarrow> y \<in> set ys \<Longrightarrow> \<exists>x \<in> set xs. f x = Inr y"
  by (induction xs arbitrary: ys) auto

lemma specs_by_side_names:
  assumes "specs_by_side arms = Inr specs" "dget specs side = Some d" "dget d (leaf_name lf) = Some sp"
  shows "ss_name sp = channel (side, lf)"
proof -
  obtain x where "specs_for x = Inr (side, d)"
    using mapR_mem[OF assms(1)[unfolded specs_by_side_def] dget_mem[OF assms(2)]] by blast
  then show ?thesis using specs_for_names assms(3) by (cases x) metis
qed

lemma specs_for_fst: "specs_for x = Inr y \<Longrightarrow> fst y = fst x"
  by (auto simp: specs_for_def split: prod.splits if_splits)

lemma specs_by_side_keys:
  assumes "specs_by_side arms = Inr specs" "distinct (dkeys arms)"
  shows "distinct (dkeys specs)"
proof -
  have "map fst specs = map fst xs" if "mapR specs_for xs = Inr specs" for xs specs
    using that by (induction xs arbitrary: specs) (auto dest: specs_for_fst)
  from this[OF assms(1)[unfolded specs_by_side_def]] assms(2) show ?thesis
    by (simp add: distinct_map_filter)
qed

section \<open>Properties\<close>

text \<open>
  No race on the gripper mailbox: at every moment while the brain opens the control channels
  of its arms, also when the opening is cut short by a failure, an arm that discovers its
  setpoint or command channel also discovers its gripper mailbox if one is configured, so its
  single lookup never misses it.
\<close>

theorem gripper_channel_no_race:
  assumes specs: "specs_by_side arms = Inr specs" "distinct (dkeys arms)"
    and inj: "inj_on (\<lambda>p. sanitize (channel p)) (set (open_order specs))"
    and start: "dir_ok (sub_dir w ''control'')" "\<forall>p \<in> set (open_order specs). \<not> published (b, w) p"
    and open_k: "foldE (open_one io run pid specs) (take k (open_order specs)) (b, w) = (r, bs')"
    and grip: "dget specs side = Some d" "dget d GRIPPER \<noteq> None"
    and seen: "published bs' (side, LSetpoint) \<or> published bs' (side, LCommand)"
  shows "published bs' (side, LGripper)"
proof -
  have names: "names_ok specs" using specs_by_side_names[OF specs(1)] inj by (auto simp: names_ok_def)
  have "opened specs [] (b, w)" using start by (simp add: opened_def)
  from open_prefix[OF names this open_k] obtain m where m: "opened specs (take m (open_order specs)) bs'" by blast
  have blk: "set ((if dget d GRIPPER \<noteq> None then [(side, LGripper)] else []) @ [(side, LSetpoint), (side, LCommand)])
      \<subseteq> set (open_order specs)"
    using dget_mem[OF grip(1)] by (force simp: open_order_def)
  then have mem: "(side, LGripper) \<in> set (open_order specs)" "(side, LSetpoint) \<in> set (open_order specs)"
      "(side, LCommand) \<in> set (open_order specs)"
    using grip(2) by auto
  have "\<exists>lf. lf \<noteq> LGripper \<and> (side, lf) \<in> set (take m (open_order specs))"
    using seen m mem(2,3) unfolding opened_def by blast
  then have "(side, LGripper) \<in> set (take m (open_order specs))"
    using gripper_first[OF specs_by_side_keys[OF specs] grip] by blast
  then show ?thesis using m mem(1) unfolding opened_def by blast
qed

definition demo_teleop :: teleop_arm where
  "demo_teleop = \<lparr>ta_control = demo_cfg ''qpos'' ''NRT_JOINT_POSITION'' [(''q_d'', 1)] [''q_d''],
     ta_control_enabled = True, ta_gripper_enabled = True, ta_dof = 1\<rparr>"

definition demo_spec :: "leaf \<Rightarrow> stream_spec" where
  "demo_spec lf = \<lparr>ss_name = channel (''left'', lf), ss_dim = (if lf = LCommand then 8 else 1),
     ss_capacity = (if lf = LCommand then 64 else 8), ss_dtype = ''float64'', ss_rate_hz = Some 50\<rparr>"

definition demo_specs :: "(string, (string, stream_spec) dict) dict" where
  "demo_specs = [(''left'', [(SETPOINT, demo_spec LSetpoint), (COMMAND, demo_spec LCommand), (GRIPPER, demo_spec LGripper)])]"

definition demo_store :: "real run_store" where
  "demo_store = \<lparr>rs_shm = [], rs_subs = []\<rparr>"

lemma demo_specs_by_side: "specs_by_side [(''left'', demo_teleop)] = Inr demo_specs"
  by (simp add: specs_by_side_def specs_for_def demo_teleop_def control_specs_def setpoint_dim_def demo_cfg_def
      demo_channel_def ditem_def mk_stream_spec_def ALLOWED_DTYPES_def gripper_spec_def demo_specs_def demo_spec_def
      channel_def control_channel_name_def gripper_channel_name_def Let_def)

lemma demo_open_order: "open_order demo_specs = [(''left'', LGripper), (''left'', LSetpoint), (''left'', LCommand)]"
  by (simp add: open_order_def demo_specs_def)

lemma demo_spec_ok: "spec_ok (demo_spec lf)"
  by (cases lf) (simp_all add: spec_ok_def demo_spec_def ALLOWED_DTYPES_def channel_def control_channel_name_def)

lemma demo_names: "inj_on (\<lambda>p. sanitize (channel p)) {(''left'', LGripper), (''left'', LSetpoint), (''left'', LCommand)}"
  by (simp add: channel_def control_channel_name_def GRIPPER_def SETPOINT_def COMMAND_def safe_char_def inj_on_def)

lemma demo_shm_names:
  "lf \<noteq> lf' \<Longrightarrow> shm_name_for ''run'' (ss_name (demo_spec lf)) \<noteq> shm_name_for ''run'' (ss_name (demo_spec lf'))"
  by (cases lf; cases lf') (simp_all add: shm_name_for_def demo_spec_def channel_def control_channel_name_def
      SETPOINT_def COMMAND_def GRIPPER_def safe_char_def)

text \<open>Opening two of the channels on a fresh store.\<close>

lemma demo_open_two:
  assumes "lf1 \<noteq> lf2"
  shows "\<exists>wr1 wr2 w1 w2. writer_create 0 IoOk ''run'' ''control'' 7 (demo_spec lf1) demo_store = (Inr wr1, w1)
     \<and> writer_create 0 IoOk ''run'' ''control'' 7 (demo_spec lf2) w1 = (Inr wr2, w2)
     \<and> wr_shm_name wr2 = shm_name_for ''run'' (ss_name (demo_spec lf2))
     \<and> get ''control'' (channel (''left'', lf2)) w2
         = Inr (Some (spec_entry (demo_spec lf2) (shm_name_for ''run'' (ss_name (demo_spec lf2))) 7))"
proof -
  obtain wr1 g1 w1 where a: "writer_create 0 IoOk ''run'' ''control'' 7 (demo_spec lf1) demo_store = (Inr wr1, w1)"
      "wr_shm_name wr1 = shm_name_for ''run'' (ss_name (demo_spec lf1))" "rs_shm w1 = dput (wr_shm_name wr1) g1 (rs_shm demo_store)"
    using writer_create_ok[OF demo_spec_ok[of lf1], of demo_store "''run''" 0 "''control''" 7] by (auto simp: demo_store_def)
  have free: "dget (rs_shm w1) (shm_name_for ''run'' (ss_name (demo_spec lf2))) = None"
    using a(2,3) demo_shm_names[OF assms] by (simp add: demo_store_def)
  obtain wr2 g2 w2 where b: "writer_create 0 IoOk ''run'' ''control'' 7 (demo_spec lf2) w1 = (Inr wr2, w2)"
      "wr_shm_name wr2 = shm_name_for ''run'' (ss_name (demo_spec lf2))"
    using writer_create_ok[OF demo_spec_ok free, of 0 "''control''" 7] by blast
  have ok0: "dir_ok (sub_dir demo_store ''control'')" by (simp add: demo_store_def sub_dir_def)
  have "ss_name (demo_spec lf2) = channel (''left'', lf2)" by (simp add: demo_spec_def)
  then show ?thesis
    using a(1) b writer_create_get(3)[OF writer_create_get(1)[OF ok0 a(1)] b(1), of "channel (''left'', lf2)"] by auto
qed

theorem gripper_channel_no_race_witness:
  "\<exists>r bs'. foldE (open_one (\<lambda>s l. IoOk) ''run'' 7 demo_specs) (take 2 (open_order demo_specs)) (empty_brain, demo_store) = (r, bs')
     \<and> published bs' (''left'', LSetpoint) \<and> published bs' (''left'', LGripper)"
proof -
  have inj: "inj_on (\<lambda>p. sanitize (channel p)) (set (open_order demo_specs))" using demo_names by (simp add: demo_open_order)
  have st: "dir_ok (sub_dir demo_store ''control'')"
    "\<forall>p \<in> set (open_order demo_specs). \<not> published (empty_brain, demo_store) p"
    by (simp_all add: demo_store_def sub_dir_def published_def get_def discover_def)
  have d: "distinct (dkeys [(''left'', demo_teleop)])" by simp
  have g: "dget demo_specs ''left'' = Some [(SETPOINT, demo_spec LSetpoint), (COMMAND, demo_spec LCommand), (GRIPPER, demo_spec LGripper)]"
    "dget [(SETPOINT, demo_spec LSetpoint), (COMMAND, demo_spec LCommand), (GRIPPER, demo_spec LGripper)] GRIPPER \<noteq> None"
    by (simp_all add: demo_specs_def)
  obtain wr1 wr2 w1 w2 where two: "writer_create 0 IoOk ''run'' ''control'' 7 (demo_spec LGripper) demo_store = (Inr wr1, w1)"
      "writer_create 0 IoOk ''run'' ''control'' 7 (demo_spec LSetpoint) w1 = (Inr wr2, w2)"
      "\<exists>e. get ''control'' (channel (''left'', LSetpoint)) w2 = Inr (Some e)"
    using demo_open_two[of LGripper LSetpoint] by auto
  let ?b = "put_writer LSetpoint ''left'' wr2 (put_writer LGripper ''left'' wr1 empty_brain)"
  have run: "foldE (open_one (\<lambda>s l. IoOk) ''run'' 7 demo_specs) (take 2 (open_order demo_specs)) (empty_brain, demo_store)
      = (Inr (), (?b, w2))"
    using two(1,2) g(1) by (simp add: demo_open_order numeral_2_eq_2 open_one_def ditem_def)
  have seen: "published (?b, w2) (''left'', LSetpoint) \<or> published (?b, w2) (''left'', LCommand)"
    using two(3) by (simp add: published_def)
  show ?thesis
    using gripper_channel_no_race[OF demo_specs_by_side d inj st run g seen] run two(3) by (auto simp: published_def)
qed

text \<open>
  The farewell reaches the arm: \<^verbatim>\<open>stop_arms\<close> appends one command to the channel of every
  commanded arm whose segment is intact, also when the channels of other arms are gone, and an
  arm whose cursor stood at the end of that channel reads a STOP on its next drain.
\<close>

theorem stop_arms_stops:
  assumes mem: "(side, wr) \<in> set (br_command b)" and dist: "distinct (map (\<lambda>p. wr_shm_name (snd p)) (br_command b))"
    and seg: "dget (rs_shm w) (wr_shm_name wr) = Some g" "ring_rep (wr_view wr) g H"
    and dm: "rv_dim (wr_view wr) = nat (ss_dim (wr_spec wr))" "0 < rv_dim (wr_view wr)"
  shows "\<exists>g' v. dget (rs_shm (snd (stop_arms t (b, w)))) (wr_shm_name wr) = Some g'
    \<and> ring_rep (wr_view wr) g' (H @ [(t, v)])
    \<and> drain_commands (fst (snd (drain_ring (wr_view wr) g' (int (length H) - 1)))) = Inr True"
proof -
  obtain xs ys where split: "br_command b = xs @ (side, wr) # ys" using mem by (meson split_list)
  let ?F = "foldl (\<lambda>s (side, wr). stop_one t wr s)"
  let ?n = "wr_shm_name wr"
  have xs: "\<forall>p \<in> set xs. wr_shm_name (snd p) \<noteq> ?n" and ys: "\<forall>p \<in> set ys. wr_shm_name (snd p) \<noteq> ?n"
    using dist unfolding split by (fastforce simp: image_iff)+
  let ?s = "?F (b, w) xs"
  have "dget (rs_shm (snd ?s)) ?n = Some g" using stop_fold_other[OF xs, of t "(b, w)"] seg(1) by simp
  from stop_one_posts[OF this seg(2) dm, of t] obtain g' v cmd where
    p: "dget (rs_shm (snd (stop_one t wr ?s))) ?n = Some g'" "ring_rep (wr_view wr) g' (H @ [(t, v)])"
      "decode v = Inr cmd" "cmd_kind cmd = STOP" by blast
  have "stop_arms t (b, w) = ?F (stop_one t wr ?s) ys" by (simp add: stop_arms_def split)
  then have "dget (rs_shm (snd (stop_arms t (b, w)))) ?n = Some g'" using stop_fold_other[OF ys] p(1) by simp
  moreover have "0 < rv_capacity (wr_view wr)" using p(2) by (simp add: ring_rep_def view_ok_def)
  then have "fst (snd (drain_ring (wr_view wr) g' (int (length H) - 1))) = [v]"
    using drain_ring_rep[OF p(2)] by simp
  ultimately show ?thesis using p by auto
qed

theorem stop_arms_stops_witness:
  "\<exists>wr g g' v. drain_commands (fst (snd (drain_ring wr g' (-1)))) = Inr True \<and> ring_create (0::real) 4 2 ''float64'' = Inr (g, wr)
     \<and> ring_rep wr g' [(5, v)]"
proof -
  obtain g :: "real segment" and v where gv: "ring_create 0 4 2 ''float64'' = Inr (g, v)" "ring_rep v g []" "rv_dim v = 2"
    using ring_create_rep[of "''float64''" Float64 4 0 2] by auto
  let ?wr = "\<lparr>wr_view = v, wr_shm_name = ''c'', wr_spec = (demo_spec LCommand)\<lparr>ss_dim := 2\<rparr>\<rparr>"
  let ?b = "empty_brain\<lparr>br_command := [(''right'', ?wr\<lparr>wr_shm_name := ''gone''\<rparr>), (''left'', ?wr)]\<rparr>"
  have h: "(''left'', ?wr) \<in> set (br_command ?b)" "distinct (map (\<lambda>p. wr_shm_name (snd p)) (br_command ?b))"
    "dget (rs_shm \<lparr>rs_shm = [(''c'', g)], rs_subs = []\<rparr>) (wr_shm_name ?wr) = Some g"
    "ring_rep (wr_view ?wr) g []" "rv_dim (wr_view ?wr) = nat (ss_dim (wr_spec ?wr))" "0 < rv_dim (wr_view ?wr)"
    using gv by simp_all
  show ?thesis using stop_arms_stops[OF h, of 5] gv(1) by auto
qed

text \<open>
  Closing the brain releases every control segment it owns and nothing else, but leaves the
  manifests of the control channels in place: until they are swept, a lookup still returns their
  entries, and attaching to one raises \<^verbatim>\<open>FileNotFoundError\<close>.
\<close>

theorem brain_close_releases:
  assumes "bs = (b, w)" "p \<in> set (br_setpoint b @ br_command b @ br_gripper b)"
    and "get ''control'' n w = Inr (Some en)" "re_shm_name en = JStr (wr_shm_name (snd p))"
  shows "(\<forall>m. dget (rs_shm (snd (brain_close bs))) m
        = (if \<exists>p \<in> set (br_setpoint b @ br_command b @ br_gripper b). wr_shm_name (snd p) = m then None else dget (rs_shm w) m))
    \<and> get ''control'' n (snd (brain_close bs)) = Inr (Some en)
    \<and> reader_attach en (snd (brain_close bs)) = Inl FileNotFoundError"
proof -
  let ?ws = "br_setpoint b @ br_command b @ br_gripper b"
  have s: "snd (brain_close bs) = foldl (\<lambda>w (side, wr). writer_unlink wr w) w ?ws"
    by (simp add: brain_close_def assms(1))
  have subs: "rs_subs (snd (brain_close bs)) = rs_subs w"
    and shm: "\<forall>m. dget (rs_shm (snd (brain_close bs))) m
        = (if \<exists>p \<in> set ?ws. wr_shm_name (snd p) = m then None else dget (rs_shm w) m)"
    using unlink_fold[of w ?ws] unfolding s by blast+
  have "get ''control'' n (snd (brain_close bs)) = get ''control'' n w"
    by (simp add: get_def discover_def sub_dir_def subs)
  moreover have "dget (rs_shm (snd (brain_close bs))) (wr_shm_name (snd p)) = None" using shm assms(2) by auto
  ultimately show ?thesis using shm assms(3,4) by (simp add: reader_attach_def)
qed

theorem brain_close_releases_witness:
  "\<exists>b w en. open_control (\<lambda>s l. IoOk) ''run'' 7 [(''left'', [(SETPOINT, demo_spec LSetpoint), (COMMAND, demo_spec LCommand)])]
       (empty_brain, demo_store) = (Inr (), (b, w))
     \<and> get ''control'' (channel (''left'', LCommand)) (snd (brain_close (b, w))) = Inr (Some en)
     \<and> reader_attach en (snd (brain_close (b, w))) = Inl FileNotFoundError"
proof -
  let ?specs = "[(''left'', [(SETPOINT, demo_spec LSetpoint), (COMMAND, demo_spec LCommand)])]"
  let ?en = "spec_entry (demo_spec LCommand) (shm_name_for ''run'' (ss_name (demo_spec LCommand))) 7"
  obtain wr1 wr2 w1 w2 where two: "writer_create 0 IoOk ''run'' ''control'' 7 (demo_spec LSetpoint) demo_store = (Inr wr1, w1)"
      "writer_create 0 IoOk ''run'' ''control'' 7 (demo_spec LCommand) w1 = (Inr wr2, w2)"
      "wr_shm_name wr2 = shm_name_for ''run'' (ss_name (demo_spec LCommand))"
      "get ''control'' (channel (''left'', LCommand)) w2 = Inr (Some ?en)"
    using demo_open_two[of LSetpoint LCommand] by auto
  let ?b = "put_writer LCommand ''left'' wr2 (put_writer LSetpoint ''left'' wr1 empty_brain)"
  have op: "open_control (\<lambda>s l. IoOk) ''run'' 7 ?specs (empty_brain, demo_store) = (Inr (), (?b, w2))"
    using two(1,2) by (simp add: open_control_def open_order_def open_one_def ditem_def)
  have m: "(''left'', wr2) \<in> set (br_setpoint ?b @ br_command ?b @ br_gripper ?b)" by (simp add: empty_brain_def)
  have e: "re_shm_name ?en = JStr (wr_shm_name (snd (''left'', wr2)))" using two(3) by (simp add: spec_entry_def)
  show ?thesis using brain_close_releases[OF refl m two(4) e] op by blast
qed

end
