(* ===== verification/Producer.thy ===== *)
theory Producer
  imports Registry
begin

text \<open>
  The life of a process (\<^verbatim>\<open>process.py\<close>): the rate limiter that paces every loop, the run loop of
  a stream producer with its teardown, and the process entry point \<^verbatim>\<open>run_node\<close>.

  Time is what the code reads: each reading of \<^verbatim>\<open>perf_counter\<close> is an element of an observation
  record. What a subclass contributes (its streams, its source, its samples) is the argument
  \<open>producer_world\<close>, and so is whether a clean-up call fails.
\<close>

section \<open>Rate limiting\<close>

record rate_limiter =
  rl_period :: real
  rl_spin_margin :: real
  rl_next :: "real option"

definition mk_rate_limiter :: "real \<Rightarrow> real \<Rightarrow> rate_limiter res" where
  "mk_rate_limiter hz spin_margin_s =
     (if hz \<le> 0 then Inl ValueError
      else Inr \<lparr>rl_period = 1 / hz, rl_spin_margin = spin_margin_s, rl_next = None\<rparr>)"

definition rate_reset :: "real \<Rightarrow> rate_limiter \<Rightarrow> rate_limiter" where
  "rate_reset now rl = rl\<lparr>rl_next := Some (now + rl_period rl)\<rparr>"

text \<open>
  The readings of one call of \<open>sleep\<close>: at the reset (used by a first call only), for the remaining
  time, in the spin loop, and after it.
\<close>

record sleep_obs =
  so_reset :: real
  so_before :: real
  so_spin :: "real list"
  so_now :: real

text \<open>The spin loop ends at the first reading that is not before the target.\<close>

fun spin_until :: "real \<Rightarrow> real list \<Rightarrow> real option" where
  "spin_until target [] = None"
| "spin_until target (t # ts) = (if t < target then spin_until target ts else Some t)"

text \<open>The length of the call of \<^verbatim>\<open>time.sleep\<close>, if there is one.\<close>

definition nap :: "real \<Rightarrow> real \<Rightarrow> real \<Rightarrow> real option" where
  "nap target margin before =
     (if target - before > margin then Some (target - before - margin) else None)"

text \<open>One call of \<open>sleep\<close>; \<open>None\<close>: still spinning after these readings.\<close>

definition rate_sleep :: "sleep_obs \<Rightarrow> rate_limiter \<Rightarrow> rate_limiter option" where
  "rate_sleep ob rl =
     (let rl1 = (if rl_next rl = None then rate_reset (so_reset ob) rl else rl);
          target = (case rl_next rl1 of Some t \<Rightarrow> t | None \<Rightarrow> 0);
          nxt = target + rl_period rl1
      in if rl_spin_margin rl1 > 0 \<and> spin_until target (so_spin ob) = None then None
         else Some (rl1\<lparr>rl_next := Some (if nxt < so_now ob then so_now ob + rl_period rl1 else nxt)\<rparr>))"

text \<open>Successive calls: the final readings, which are the times the calls return.\<close>

fun rate_sleeps :: "sleep_obs list \<Rightarrow> rate_limiter \<Rightarrow> (real list \<times> rate_limiter) option" where
  "rate_sleeps [] rl = Some ([], rl)"
| "rate_sleeps (ob # obs) rl =
     (case rate_sleep ob rl of
        None \<Rightarrow> None
      | Some rl' \<Rightarrow> map_option (\<lambda>(ts, rl''). (so_now ob # ts, rl'')) (rate_sleeps obs rl'))"

text \<open>
  The target of the next call, and what the operating system promises of one call: the clock does
  not go back, and \<^verbatim>\<open>time.sleep\<close> sleeps at least as long as asked.
\<close>

definition rate_target :: "sleep_obs \<Rightarrow> rate_limiter \<Rightarrow> real" where
  "rate_target ob rl = (case rl_next rl of Some t \<Rightarrow> t | None \<Rightarrow> so_reset ob + rl_period rl)"

definition clock_ok :: "sleep_obs \<Rightarrow> rate_limiter \<Rightarrow> bool" where
  "clock_ok ob rl \<longleftrightarrow>
     so_before ob + (case nap (rate_target ob rl) (rl_spin_margin rl) (so_before ob) of Some d \<Rightarrow> d | None \<Rightarrow> 0)
       \<le> so_now ob
     \<and> list_all (\<lambda>t. t \<le> so_now ob) (so_spin ob)"

fun clocks_ok :: "sleep_obs list \<Rightarrow> rate_limiter \<Rightarrow> bool" where
  "clocks_ok [] rl = True"
| "clocks_ok (ob # obs) rl \<longleftrightarrow> clock_ok ob rl
     \<and> (case rate_sleep ob rl of None \<Rightarrow> True | Some rl' \<Rightarrow> clocks_ok obs rl')"

section \<open>A stream producer\<close>

text \<open>One iteration of the loop: the stop event, what \<open>poll\<close> returns, the clock.\<close>

record 'v producer_tick =
  pt_stop :: bool
  pt_poll :: "(string, 'v list) dict option res"
  pt_t_ns :: int

record 'v producer_world =
  pw_zero :: 'v
  pw_pid :: int
  pw_io :: "string \<Rightarrow> io_outcome"
  pw_specs :: "stream_spec list res"
  pw_open :: "unit res"
  pw_ticks :: "'v producer_tick list"
  pw_close_fails :: "string \<Rightarrow> bool"

definition STREAMS :: string where "STREAMS = ''streams''"

type_synonym 'v producer = "(string, stream_writer) dict \<times> 'v run_store"

definition add_stream ::
    "'v producer_world \<Rightarrow> string \<Rightarrow> stream_spec \<Rightarrow> 'v producer \<Rightarrow> unit res \<times> 'v producer" where
  "add_stream pw run_id spec p =
     (case writer_create (pw_zero pw) (pw_io pw (ss_name spec)) run_id STREAMS (pw_pid pw) spec (snd p) of
        (Inl e, w) \<Rightarrow> (Inl e, (fst p, w))
      | (Inr wr, w) \<Rightarrow> (Inr (), (dput (ss_name spec) wr (fst p), w)))"

definition write_vec :: "int \<Rightarrow> string \<times> 'v list \<Rightarrow> 'v producer \<Rightarrow> unit res \<times> 'v producer" where
  "write_vec t_ns nv p =
     (case rbind (ditem (fst p) (fst nv)) (\<lambda>wr. writer_write wr (snd nv) (Some t_ns) t_ns (snd p)) of
        Inl e \<Rightarrow> (Inl e, p)
      | Inr (w, i) \<Rightarrow> (Inr (), (fst p, w)))"

definition write_sample :: "int \<Rightarrow> (string, 'v list) dict \<Rightarrow> 'v producer \<Rightarrow> unit res \<times> 'v producer" where
  "write_sample t_ns sample p = foldE (write_vec t_ns) sample p"

text \<open>The loop; \<open>None\<close>: still producing after these ticks. An empty sample writes nothing.\<close>

fun produce :: "'v producer_tick list \<Rightarrow> 'v producer \<Rightarrow> (unit res \<times> 'v producer) option" where
  "produce [] p = None"
| "produce (k # ks) p =
     (if pt_stop k then Some (Inr (), p)
      else case pt_poll k of
        Inl e \<Rightarrow> Some (Inl e, p)
      | Inr sample \<Rightarrow>
          (case write_sample (pt_t_ns k) (case sample of None \<Rightarrow> [] | Some s \<Rightarrow> s) p of
             (Inl e, p') \<Rightarrow> Some (Inl e, p')
           | (Inr u, p') \<Rightarrow> produce ks p'))"

text \<open>
  \<open>_teardown\<close>: each writer is closed and unlinked (a failing \<open>close\<close> skips the unlinking and is logged),
  then its manifest is removed.
\<close>

definition release_stream ::
    "(string \<Rightarrow> bool) \<Rightarrow> string \<times> stream_writer \<Rightarrow> 'v run_store \<Rightarrow> 'v run_store" where
  "release_stream close_fails nw w =
     remove STREAMS (fst nw) (if close_fails (fst nw) then w else writer_unlink (snd nw) w)"

definition teardown :: "(string \<Rightarrow> bool) \<Rightarrow> 'v producer \<Rightarrow> 'v run_store" where
  "teardown close_fails p = fold (release_stream close_fails) (fst p) (snd p)"

definition producer_body ::
    "'v producer_world \<Rightarrow> string \<Rightarrow> 'v run_store \<Rightarrow> (unit res \<times> 'v producer) option" where
  "producer_body pw run_id w =
     (case pw_specs pw of
        Inl e \<Rightarrow> Some (Inl e, ([], w))
      | Inr specs \<Rightarrow>
          (case foldE (add_stream pw run_id) specs ([], w) of
             (Inl e, p) \<Rightarrow> Some (Inl e, p)
           | (Inr u, p) \<Rightarrow>
               (case pw_open pw of
                  Inl e \<Rightarrow> Some (Inl e, p)
                | Inr u \<Rightarrow> produce (pw_ticks pw) p)))"

definition producer_run ::
    "'v producer_world \<Rightarrow> string \<Rightarrow> 'v run_store \<Rightarrow> (unit res \<times> 'v run_store) option" where
  "producer_run pw run_id w =
     map_option (\<lambda>(r, p). (r, teardown (pw_close_fails pw) p)) (producer_body pw run_id w)"

section \<open>The process entry point\<close>

text \<open>
  \<open>run_node\<close>: what the process does given how \<open>run\<close> ended. The exit code is 1 after a crash, and the
  crash sets the shared stop event.
\<close>

record node_exit =
  ne_code :: nat
  ne_stop_event :: bool

definition run_node :: "(unit res \<times> 's) \<Rightarrow> ('s \<Rightarrow> 's) \<Rightarrow> bool \<Rightarrow> node_exit \<times> 's" where
  "run_node outcome cleanup stop_event =
     (case outcome of
        (Inl e, s) \<Rightarrow> (\<lparr>ne_code = 1, ne_stop_event = True\<rparr>, cleanup s)
      | (Inr u, s) \<Rightarrow> (\<lparr>ne_code = 0, ne_stop_event = stop_event\<rparr>, cleanup s))"

section \<open>Pacing\<close>

lemma spin_until_reached: "spin_until target ts = Some t \<Longrightarrow> target \<le> t \<and> t \<in> set ts"
  by (induction ts) (auto split: if_splits)

lemma rate_sleep_step:
  assumes s: "rate_sleep ob rl = Some rl'" and c: "clock_ok ob rl" and m: "0 \<le> rl_spin_margin rl"
  shows "rl_period rl' = rl_period rl" "rl_spin_margin rl' = rl_spin_margin rl"
    "rate_target ob rl \<le> so_now ob"
    "\<exists>n. rl_next rl' = Some n \<and> rate_target ob rl + rl_period rl \<le> n \<and> n \<le> so_now ob + rl_period rl
       \<and> (0 \<le> rl_period rl \<longrightarrow> so_now ob \<le> n)"
proof -
  let ?t = "rate_target ob rl"
  have rl': "rl' = rl\<lparr>rl_next := Some (if ?t + rl_period rl < so_now ob then so_now ob + rl_period rl else ?t + rl_period rl)\<rparr>"
    and spun: "0 < rl_spin_margin rl \<Longrightarrow> spin_until ?t (so_spin ob) \<noteq> None"
    using s by (auto simp: rate_sleep_def rate_target_def rate_reset_def Let_def split: if_splits option.splits)
  show "rl_period rl' = rl_period rl" "rl_spin_margin rl' = rl_spin_margin rl" by (simp_all add: rl')
  show late: "?t \<le> so_now ob"
  proof (cases "0 < rl_spin_margin rl")
    case True
    then obtain t where "spin_until ?t (so_spin ob) = Some t" using spun by blast
    then have "?t \<le> t" "t \<in> set (so_spin ob)" by (simp_all add: spin_until_reached)
    then show ?thesis using c by (auto simp: clock_ok_def list_all_iff)
  next
    case False
    then have "rl_spin_margin rl = 0" using m by simp
    then show ?thesis using c by (auto simp: clock_ok_def nap_def split: if_splits)
  qed
  show "\<exists>n. rl_next rl' = Some n \<and> ?t + rl_period rl \<le> n \<and> n \<le> so_now ob + rl_period rl
       \<and> (0 \<le> rl_period rl \<longrightarrow> so_now ob \<le> n)"
    using late by (auto simp: rl')
qed

lemma rate_sleeps_pace:
  assumes "rate_sleeps obs rl = Some (ts, rl')" "clocks_ok obs rl" "0 \<le> rl_spin_margin rl"
    "rl_next rl = Some n" "0 \<le> rl_period rl"
  shows "length ts = length obs
    \<and> (\<forall>j < length ts. n + real j * rl_period rl \<le> ts ! j)
    \<and> (\<forall>i j. i < j \<and> j < length ts \<longrightarrow> ts ! i + real (j - i - 1) * rl_period rl \<le> ts ! j)"
  using assms
proof (induction obs arbitrary: rl n ts)
  case (Cons ob obs)
  obtain rl1 ts1 where s: "rate_sleep ob rl = Some rl1" "rate_sleeps obs rl1 = Some (ts1, rl')" "ts = so_now ob # ts1"
    using Cons.prems(1) by (auto split: option.splits)
  have ok: "clock_ok ob rl" "clocks_ok obs rl1" using Cons.prems(2) s(1) by auto
  note st = rate_sleep_step[OF s(1) ok(1) Cons.prems(3)]
  have tgt: "rate_target ob rl = n" using Cons.prems(4) by (simp add: rate_target_def)
  obtain n1 where n1: "rl_next rl1 = Some n1" "n + rl_period rl \<le> n1" "so_now ob \<le> n1"
    using st(4) tgt Cons.prems(5) by auto
  have IH: "length ts1 = length obs" "\<And>j. j < length ts1 \<Longrightarrow> n1 + real j * rl_period rl \<le> ts1 ! j"
    "\<And>i j. i < j \<Longrightarrow> j < length ts1 \<Longrightarrow> ts1 ! i + real (j - i - 1) * rl_period rl \<le> ts1 ! j"
    using Cons.IH[OF s(2) ok(2) _ n1(1)] st(1,2) Cons.prems(3,5) by auto
  have first: "n + real j * rl_period rl \<le> ts ! j" if "j < length ts" for j
  proof (cases j)
    case 0
    then show ?thesis using st(3) tgt s(3) by simp
  next
    case (Suc k)
    then have "n1 + real k * rl_period rl \<le> ts ! j" using IH(2)[of k] that s(3) by simp
    then show ?thesis using n1(2) Suc by (simp add: algebra_simps)
  qed
  have gap: "ts ! i + real (j - i - 1) * rl_period rl \<le> ts ! j" if ij: "i < j" "j < length ts" for i j
  proof (cases i)
    case 0
    obtain k where k: "j = Suc k" using ij(1) by (cases j) auto
    then have "n1 + real k * rl_period rl \<le> ts ! j" using IH(2)[of k] ij(2) s(3) by simp
    then show ?thesis using n1(3) 0 k s(3) by simp
  next
    case (Suc i')
    obtain k where k: "j = Suc k" using ij(1) by (cases j) auto
    show ?thesis using IH(3)[of i' k] ij Suc k s(3) by simp
  qed
  show ?case using first gap s(3) IH(1) by auto
qed simp

section \<open>Nothing is left behind\<close>

text \<open>
  The invariant of a running producer, against the store it started on: every segment it made was
  absent then, every other segment and every manifest of another stream is as it was.
\<close>

definition prod_inv :: "string \<Rightarrow> 'v run_store \<Rightarrow> 'v producer \<Rightarrow> bool" where
  "prod_inv run_id w0 p \<longleftrightarrow> dir_ok (sub_dir (snd p) STREAMS)
     \<and> (\<forall>(n, wr) \<in> set (fst p). wr_shm_name wr = shm_name_for run_id n \<and> dget (rs_shm w0) (wr_shm_name wr) = None)
     \<and> (\<forall>m. m \<notin> shm_name_for run_id ` set (dkeys (fst p)) \<longrightarrow> dget (rs_shm (snd p)) m = dget (rs_shm w0) m)
     \<and> (\<forall>k. sanitize k \<notin> sanitize ` set (dkeys (fst p))
           \<longrightarrow> entry_of (sub_dir (snd p) STREAMS) k = entry_of (sub_dir w0 STREAMS) k)"

lemma dput_subset: "set (dput k v d) \<subseteq> insert (k, v) (set d)"
  by (induction d) auto

lemma sub_dir_publish_fail:
  "publish io sub pid spec m w = (Inl e, w') \<Longrightarrow> entry_of (sub_dir w' sub) k = entry_of (sub_dir w sub) k
   \<and> rs_shm w' = rs_shm w"
  by (auto simp: publish_def Let_def write_tmp_def split: io_outcome.splits option.splits)

lemma writer_create_shapes:
  assumes "writer_create z io run_id sub pid spec w = (r, w')"
  shows "(\<exists>e. r = Inl e \<and> (w' = w \<or> (\<exists>g w2. dget (rs_shm w) (shm_name_for run_id (ss_name spec)) = None
            \<and> publish io sub pid spec (shm_name_for run_id (ss_name spec))
              (w\<lparr>rs_shm := dput (shm_name_for run_id (ss_name spec)) g (rs_shm w)\<rparr>) = (Inl e, w2)
            \<and> w' = w2\<lparr>rs_shm := ddel (shm_name_for run_id (ss_name spec)) (rs_shm w2)\<rparr>)))
    \<or> (\<exists>wr g en. r = Inr wr \<and> wr_shm_name wr = shm_name_for run_id (ss_name spec)
            \<and> dget (rs_shm w) (wr_shm_name wr) = None
            \<and> publish io sub pid spec (wr_shm_name wr) (w\<lparr>rs_shm := dput (wr_shm_name wr) g (rs_shm w)\<rparr>) = (Inr en, w'))"
  using assms
  by (auto simp: writer_create_def Let_def split: sum.splits prod.splits if_splits)

lemma prod_inv_add:
  assumes inv: "prod_inv run_id w0 p" and a: "add_stream pw run_id spec p = (r, p')"
  shows "prod_inv run_id w0 p'
    \<and> (case r of Inl e \<Rightarrow> fst p' = fst p | Inr u \<Rightarrow> set (dkeys (fst p')) = insert (ss_name spec) (set (dkeys (fst p))))"
proof -
  let ?n = "shm_name_for run_id (ss_name spec)" and ?d = "\<lambda>w. sub_dir w STREAMS"
  obtain ws w where p: "p = (ws, w)" by fastforce
  obtain q w' where c: "writer_create (pw_zero pw) (pw_io pw (ss_name spec)) run_id STREAMS (pw_pid pw) spec w = (q, w')"
    by fastforce
  consider (same) e where "q = Inl e" "w' = w"
    | (fail) e g w2 where "q = Inl e" "dget (rs_shm w) ?n = None"
        "publish (pw_io pw (ss_name spec)) STREAMS (pw_pid pw) spec ?n (w\<lparr>rs_shm := dput ?n g (rs_shm w)\<rparr>) = (Inl e, w2)"
        "w' = w2\<lparr>rs_shm := ddel ?n (rs_shm w2)\<rparr>"
    | (done1) wr g en where "q = Inr wr" "wr_shm_name wr = ?n" "dget (rs_shm w) ?n = None"
        "publish (pw_io pw (ss_name spec)) STREAMS (pw_pid pw) spec ?n (w\<lparr>rs_shm := dput ?n g (rs_shm w)\<rparr>) = (Inr en, w')"
    using writer_create_shapes[OF c] by metis
  then show ?thesis
  proof cases
    case same
    then show ?thesis using inv a c by (auto simp: add_stream_def p)
  next
    case fail
    have "dir_ok (?d w2)"
      using dir_ok_publish[of "w\<lparr>rs_shm := dput ?n g (rs_shm w)\<rparr>" STREAMS] inv fail(3)
      by (simp add: prod_inv_def p) (metis snd_conv)
    then have "prod_inv run_id w0 (ws, w')"
      using inv fail(2,4) sub_dir_publish_fail[OF fail(3)] by (auto simp: prod_inv_def p)
    then show ?thesis using a c fail(1) by (auto simp: add_stream_def p)
  next
    case done1
    have ok: "dir_ok (?d w')"
      using dir_ok_publish[of "w\<lparr>rs_shm := dput ?n g (rs_shm w)\<rparr>" STREAMS] inv done1(4)
      by (simp add: prod_inv_def p) (metis snd_conv)
    have pub: "?d w' = replace_tmp (ss_name spec) en (write_tmp (ss_name spec) en (?d w))"
      "rs_shm w' = dput ?n g (rs_shm w)"
      using done1(4) by (auto simp: publish_def Let_def split: io_outcome.splits option.splits)
    have p': "p' = (dput (ss_name spec) wr ws, w')" "r = Inr ()"
      using a c done1(1) by (auto simp: add_stream_def p)
    have absent: "dget (rs_shm w0) ?n = None"
    proof (cases "?n \<in> shm_name_for run_id ` set (dkeys ws)")
      case True
      then show ?thesis using inv by (auto simp: prod_inv_def p)
    next
      case False
      then show ?thesis using inv done1(3) by (auto simp: prod_inv_def p)
    qed
    have keys: "set (dkeys (dput (ss_name spec) wr ws)) = insert (ss_name spec) (set (dkeys ws))"
      by (rule dkeys_dput)
    have "prod_inv run_id w0 p'"
      unfolding prod_inv_def p' fst_conv snd_conv keys
      using inv ok absent done1(2) dput_subset[of "ss_name spec" wr ws] pub
      by (auto simp: prod_inv_def p entry_of_replace)
    then show ?thesis using keys by (simp add: p' p)
  qed
qed

lemma prod_inv_write:
  assumes inv: "prod_inv run_id w0 p" and a: "write_vec t_ns nv p = (r, p')"
  shows "prod_inv run_id w0 p' \<and> fst p' = fst p"
proof (cases "rbind (ditem (fst p) (fst nv)) (\<lambda>wr. writer_write wr (snd nv) (Some t_ns) t_ns (snd p))")
  case (Inl e)
  then show ?thesis using a inv by (simp add: write_vec_def)
next
  case (Inr wi)
  obtain wr g' i where wi: "dget (fst p) (fst nv) = Some wr"
      "wi = ((snd p)\<lparr>rs_shm := dput (wr_shm_name wr) g' (rs_shm (snd p))\<rparr>, i)"
    using Inr by (auto simp: writer_write_def ditem_Inr)
  have w: "dget (fst p) (fst nv) = Some wr"
      "p' = (fst p, (snd p)\<lparr>rs_shm := dput (wr_shm_name wr) g' (rs_shm (snd p))\<rparr>)"
    using a wi(1) unfolding write_vec_def Inr wi(2) by auto
  have "(fst nv, wr) \<in> set (fst p)" using w(1) by (rule dget_mem)
  then have "wr_shm_name wr \<in> shm_name_for run_id ` set (dkeys (fst p))"
    using inv by (force simp: prod_inv_def)
  then show ?thesis using inv unfolding prod_inv_def w(2) by auto
qed

lemma prod_inv_produce:
  assumes "produce ks p = Some (r, p')" "prod_inv run_id w0 p"
  shows "prod_inv run_id w0 p' \<and> fst p' = fst p"
  using assms
proof (induction ks p rule: produce.induct)
  case (2 k ks p)
  have step: "prod_inv run_id w0 q \<and> fst q = fst p" if "write_sample t s p = (x, q)" for t s x q
    using foldE_invariant[of "write_vec t" s p x q "\<lambda>q. prod_inv run_id w0 q \<and> fst q = fst p"] that 2(3)
      prod_inv_write[of run_id w0]
    by (auto simp: write_sample_def)
  show ?case
    using 2(2,3) step 2(1) by (auto split: if_splits sum.splits prod.splits)
qed simp

lemma dget_release_all:
  assumes "\<forall>(n, wr) \<in> set ws. wr_shm_name wr = shm_name_for run_id n"
  shows "dget (rs_shm (fold (release_stream (\<lambda>n. False)) ws w)) m
      = (if m \<in> shm_name_for run_id ` set (dkeys ws) then None else dget (rs_shm w) m)"
    and "entry_of (sub_dir (fold (release_stream (\<lambda>n. False)) ws w) STREAMS) k
      = (if sanitize k \<in> sanitize ` set (dkeys ws) then None else entry_of (sub_dir w STREAMS) k)"
    and "dir_ok (sub_dir w STREAMS) \<Longrightarrow> dir_ok (sub_dir (fold (release_stream (\<lambda>n. False)) ws w) STREAMS)"
  using assms
proof (induction ws arbitrary: w)
  case (Cons nw ws)
  have shm: "rs_shm (remove s n w) = rs_shm w" for s n and w :: "'a run_store"
    by (auto simp: remove_def split: option.splits)
  have ent: "entry_of (sub_dir (release_stream (\<lambda>n. False) nw w) STREAMS) k
      = (if sanitize k = sanitize (fst nw) then None else entry_of (sub_dir w STREAMS) k)" for w :: "'a run_store"
    by (simp add: release_stream_def entry_of_remove writer_unlink_def)
  {
    case 1
    then show ?case using Cons.IH(1)[of "release_stream (\<lambda>n. False) nw w"]
      by (auto simp: release_stream_def shm writer_unlink_def)
  next
    case 2
    then show ?case using Cons.IH(2)[of "release_stream (\<lambda>n. False) nw w"] ent by auto
  next
    case 3
    then show ?case using Cons.IH(3)[of "release_stream (\<lambda>n. False) nw w"]
      by (auto simp: release_stream_def dir_ok_remove writer_unlink_def)
  }
qed simp_all

lemma producer_body_inv:
  assumes "producer_body pw run_id w = Some (r, p)" "dir_ok (sub_dir w STREAMS)"
  shows "prod_inv run_id w p
    \<and> (\<exists>specs m. (case pw_specs pw of Inl e \<Rightarrow> specs = [] | Inr ss \<Rightarrow> specs = ss)
         \<and> set (dkeys (fst p)) = ss_name ` set (take m specs) \<and> (r = Inr () \<longrightarrow> length specs \<le> m))"
proof -
  have start: "prod_inv run_id w ([], w)" using assms(2) by (simp add: prod_inv_def)
  show ?thesis
  proof (cases "pw_specs pw")
    case (Inl e)
    then show ?thesis using assms(1) start by (auto simp: producer_body_def)
  next
    case (Inr specs)
    obtain x q where f: "foldE (add_stream pw run_id) specs ([], w) = (x, q)" by (meson surj_pair)
    let ?Q = "\<lambda>ys q. prod_inv run_id w q \<and> set (dkeys (fst q)) = ss_name ` set ys"
    have nil: "?Q [] ([], w)" using start by simp
    have add: "?Q (ys @ [y]) t" if "?Q ys s" "add_stream pw run_id y s = (Inr u, t)" for ys y s u t
      using prod_inv_add[of run_id w s pw y "Inr u" t] that by auto
    have err: "?Q ys t" if "?Q ys s" "add_stream pw run_id y s = (Inl e, t)" for ys y s e t
      using prod_inv_add[of run_id w s pw y "Inl e" t] that by auto
    have "\<exists>m. ?Q ([] @ take m specs) q"
      by (rule foldE_prefix[where Q = ?Q, OF f nil]; (erule add err); assumption)
    then obtain m where m: "?Q (take m specs) q" by auto
    have full: "?Q specs q" if "x = Inr ()"
    proof -
      have "foldE (add_stream pw run_id) specs ([], w) = (Inr (), q)" using f that by simp
      then have "?Q ([] @ specs) q" by (rule foldE_all[where Q = ?Q, OF _ nil]) (erule add, assumption)
      then show ?thesis by simp
    qed
    show ?thesis
    proof (cases x)
      case Inl
      then show ?thesis using assms(1) Inr f m by (auto simp: producer_body_def)
    next
      case x: (Inr u)
      then have "?Q (take (length specs) specs) q" using full by simp
      moreover have "(case pw_open pw of Inl e \<Rightarrow> Some (Inl e, q) | Inr u \<Rightarrow> produce (pw_ticks pw) q) = Some (r, p)"
        using assms(1) Inr f x by (simp add: producer_body_def)
      then have "p = q \<or> produce (pw_ticks pw) q = Some (r, p)" by (auto split: sum.splits)
      ultimately have "?Q (take (length specs) specs) p"
        using prod_inv_produce[of "pw_ticks pw" q r p run_id w] by metis
      then show ?thesis using Inr by (intro conjI exI[of _ specs] exI[of _ "length specs"]) auto
    qed
  qed
qed

section \<open>Properties\<close>

text \<open>
  A paced loop never bursts: with a clock that does not go back and a \<^verbatim>\<open>time.sleep\<close> that sleeps at
  least as long as asked, any two returns of \<^verbatim>\<open>RateLimiter.sleep\<close> that are \<open>k\<close> calls apart are at least \<open>k - 1\<close>
  periods apart, however late earlier ticks were, and every call returns at or after its target.
\<close>

theorem rate_no_burst:
  assumes mk: "mk_rate_limiter hz margin = Inr rl" "0 \<le> margin"
    and run: "rate_sleeps obs (rate_reset start rl) = Some (ts, rl')" and clk: "clocks_ok obs (rate_reset start rl)"
  shows "length ts = length obs
    \<and> (\<forall>j < length ts. start + real (Suc j) / hz \<le> ts ! j)
    \<and> (\<forall>i j. i < j \<and> j < length ts \<longrightarrow> ts ! i + real (j - i - 1) / hz \<le> ts ! j)"
proof -
  have rl: "0 < hz" "rl_period rl = 1 / hz" "rl_spin_margin rl = margin"
    using mk(1) by (auto simp: mk_rate_limiter_def split: if_splits)
  have r: "rl_period (rate_reset start rl) = 1 / hz" "rl_spin_margin (rate_reset start rl) = margin"
    "rl_next (rate_reset start rl) = Some (start + 1 / hz)"
    using rl by (simp_all add: rate_reset_def)
  have "length ts = length obs" and a: "\<forall>j < length ts. start + 1 / hz + real j * (1 / hz) \<le> ts ! j"
    and b: "\<forall>i j. i < j \<and> j < length ts \<longrightarrow> ts ! i + real (j - i - 1) * (1 / hz) \<le> ts ! j"
    using rate_sleeps_pace[OF run clk _ r(3)] mk(2) rl(1) unfolding r(1,2) by auto
  moreover have "start + real (Suc j) / hz \<le> ts ! j" if "j < length ts" for j
    using a[rule_format, OF that] by (simp add: add_divide_distrib)
  moreover have "ts ! i + real (j - i - 1) / hz \<le> ts ! j" if "i < j" "j < length ts" for i j
    using b[rule_format, of i j] that by (simp only: times_divide_eq_right mult_1_right)
  ultimately show ?thesis by blast
qed

theorem rate_no_burst_witness:
  "\<exists>rl rl'. mk_rate_limiter 10 0 = Inr rl
     \<and> rate_sleeps [\<lparr>so_reset = 0, so_before = 0, so_spin = [], so_now = 1 / 10\<rparr>,
                    \<lparr>so_reset = 0, so_before = 1, so_spin = [], so_now = 1\<rparr>] (rate_reset 0 rl) = Some ([1 / 10, 1], rl')
     \<and> (1 / 10 :: real) + real (1 - 0 - 1) / 10 \<le> 1"
proof -
  let ?rl = "\<lparr>rl_period = 1 / 10, rl_spin_margin = 0, rl_next = None\<rparr>"
  let ?obs = "[\<lparr>so_reset = 0, so_before = 0, so_spin = [], so_now = 1 / 10\<rparr>,
                    \<lparr>so_reset = 0, so_before = 1, so_spin = [], so_now = 1\<rparr>]"
  have mk: "mk_rate_limiter 10 0 = Inr ?rl" by (simp add: mk_rate_limiter_def)
  have s1: "rate_sleep (?obs ! 0) (rate_reset 0 ?rl) = Some (?rl\<lparr>rl_next := Some (1 / 5)\<rparr>)"
    and s2: "rate_sleep (?obs ! 1) (?rl\<lparr>rl_next := Some (1 / 5)\<rparr>) = Some (?rl\<lparr>rl_next := Some (11 / 10)\<rparr>)"
    by (simp_all add: rate_sleep_def rate_reset_def)
  have run: "rate_sleeps ?obs (rate_reset 0 ?rl) = Some ([1 / 10, 1], ?rl\<lparr>rl_next := Some (11 / 10)\<rparr>)"
    using s1 s2 by simp
  have "clock_ok (?obs ! 0) (rate_reset 0 ?rl)" "clock_ok (?obs ! 1) (?rl\<lparr>rl_next := Some (1 / 5)\<rparr>)"
    by (simp_all add: clock_ok_def nap_def rate_target_def rate_reset_def)
  then have "clocks_ok ?obs (rate_reset 0 ?rl)" using s1 s2 by simp
  note all = rate_no_burst[OF mk order_refl run this, THEN conjunct2, THEN conjunct2]
  have "(1 / 10 :: real) + real (1 - 0 - 1) / 10 \<le> 1"
    using all[rule_format, of 0 1] by simp
  then show ?thesis using mk run by blast
qed

text \<open>
  A producer leaves nothing behind: however its run ends (a stream that cannot be created or
  published, a source that does not open, a poll or a write that raises, or the stop event), and as long as closing the
  mappings does not fail, the shared memory is as it was before, the streams it had created are gone from the
  registry and every other lookup answers as before; the process exits with code 1 and sets the stop
  event exactly when the run raised.
\<close>

theorem producer_leaves_nothing:
  assumes run: "producer_run pw run_id w = Some (r, w')" and ok: "dir_ok (sub_dir w STREAMS)"
    and cl: "pw_close_fails pw = (\<lambda>n. False)"
  shows "(\<forall>m. dget (rs_shm w') m = dget (rs_shm w) m) \<and> dir_ok (sub_dir w' STREAMS)
    \<and> (\<exists>specs m. (case pw_specs pw of Inl e \<Rightarrow> specs = [] | Inr ss \<Rightarrow> specs = ss)
         \<and> (r = Inr () \<longrightarrow> length specs \<le> m)
         \<and> (\<forall>k. get STREAMS k w' = (if sanitize k \<in> (sanitize \<circ> ss_name) ` set (take m specs) then Inr None
                                   else get STREAMS k w)))
    \<and> (ne_code (fst (run_node (r, w') id stop)) = 1 \<longleftrightarrow> (\<exists>e. r = Inl e))
    \<and> (ne_stop_event (fst (run_node (r, w') id False)) \<longleftrightarrow> (\<exists>e. r = Inl e))"
proof -
  obtain p where p: "producer_body pw run_id w = Some (r, p)" "w' = teardown (\<lambda>n. False) p"
    using run cl by (auto simp: producer_run_def)
  have inv: "prod_inv run_id w p" using producer_body_inv[OF p(1) ok] by blast
  obtain specs m where sm: "case pw_specs pw of Inl e \<Rightarrow> specs = [] | Inr ss \<Rightarrow> specs = ss"
      "set (dkeys (fst p)) = ss_name ` set (take m specs)" "r = Inr () \<longrightarrow> length specs \<le> m"
    using producer_body_inv[OF p(1) ok] by blast
  have names: "\<forall>(n, wr) \<in> set (fst p). wr_shm_name wr = shm_name_for run_id n"
    using inv by (auto simp: prod_inv_def)
  note rel = dget_release_all[OF names, where w = "snd p"]
  have w': "w' = fold (release_stream (\<lambda>n. False)) (fst p) (snd p)" by (simp add: p(2) teardown_def)
  have absent: "dget (rs_shm w) x = None" if "x \<in> shm_name_for run_id ` set (dkeys (fst p))" for x
    using inv that by (auto simp: prod_inv_def)
  have shm: "dget (rs_shm w') x = dget (rs_shm w) x" for x
    unfolding w' rel(1) using absent[of x] inv by (auto simp: prod_inv_def)
  have dir: "dir_ok (sub_dir w' STREAMS)" unfolding w' using rel(3) inv by (simp add: prod_inv_def)
  have "get STREAMS k w' = (if sanitize k \<in> (sanitize \<circ> ss_name) ` set (take m specs) then Inr None else get STREAMS k w)" for k
  proof -
    have keys: "sanitize ` set (dkeys (fst p)) = (sanitize \<circ> ss_name) ` set (take m specs)"
      by (simp only: sm(2) image_comp)
    have "entry_of (sub_dir w' STREAMS) k
        = (if sanitize k \<in> (sanitize \<circ> ss_name) ` set (take m specs) then None else entry_of (sub_dir w STREAMS) k)"
      unfolding w' rel(2) keys using inv keys by (auto simp: prod_inv_def)
    then show ?thesis by (simp add: get_entry_of[OF dir] get_entry_of[OF ok])
  qed
  then have "\<exists>specs m. (case pw_specs pw of Inl e \<Rightarrow> specs = [] | Inr ss \<Rightarrow> specs = ss) \<and> (r = Inr () \<longrightarrow> length specs \<le> m)
      \<and> (\<forall>k. get STREAMS k w' = (if sanitize k \<in> (sanitize \<circ> ss_name) ` set (take m specs) then Inr None else get STREAMS k w))"
    using sm(1,3) by (intro exI[of _ specs] exI[of _ m]) blast
  moreover have "(ne_code (fst (run_node (r, w') id stop)) = 1 \<longleftrightarrow> (\<exists>e. r = Inl e))
      \<and> (ne_stop_event (fst (run_node (r, w') id False)) \<longleftrightarrow> (\<exists>e. r = Inl e))"
    by (cases r) (simp_all add: run_node_def)
  ultimately show ?thesis using shm dir by blast
qed

definition demo_stream :: stream_spec where
  "demo_stream = \<lparr>ss_name = ''left/q'', ss_dim = 1, ss_capacity = 2, ss_dtype = ''float64'', ss_rate_hz = None\<rparr>"

definition demo_producer :: "int producer_world" where
  "demo_producer = \<lparr>pw_zero = 0, pw_pid = 7, pw_io = (\<lambda>n. IoOk), pw_specs = Inr [demo_stream], pw_open = Inr (),
     pw_ticks = [\<lparr>pt_stop = False, pt_poll = Inr (Some [(''left/q'', [3])]), pt_t_ns = 5\<rparr>,
                 \<lparr>pt_stop = False, pt_poll = Inl OSError, pt_t_ns = 6\<rparr>],
     pw_close_fails = (\<lambda>n. False)\<rparr>"

theorem producer_leaves_nothing_witness:
  "\<exists>w'. producer_run demo_producer ''run'' \<lparr>rs_shm = [], rs_subs = []\<rparr> = Some (Inl OSError, w')
     \<and> dget (rs_shm w') (shm_name_for ''run'' ''left/q'') = None
     \<and> ne_code (fst (run_node (Inl OSError :: unit res, w') id False)) = 1"
proof -
  let ?w = "\<lparr>rs_shm = [], rs_subs = []\<rparr> :: int run_store"
  have "map_option fst (producer_run demo_producer ''run'' ?w) = Some (Inl OSError)" by code_simp
  then obtain w' where run: "producer_run demo_producer ''run'' ?w = Some (Inl OSError, w')" by auto
  have "dir_ok (sub_dir ?w STREAMS)" "pw_close_fails demo_producer = (\<lambda>n. False)"
    by (simp_all add: sub_dir_def demo_producer_def)
  note rls = producer_leaves_nothing[OF run this, of False]
  have "dget (rs_shm w') (shm_name_for ''run'' ''left/q'') = dget (rs_shm ?w) (shm_name_for ''run'' ''left/q'')"
    using rls by blast
  moreover have "ne_code (fst (run_node (Inl OSError :: unit res, w') id False)) = 1" using rls by blast
  ultimately show ?thesis using run by simp
qed

end
