(* ===== verification/Factr.thy ===== *)
theory Factr
  imports Brain Producer
begin

text \<open>
  The teleoperation leaders (\<^verbatim>\<open>interfaces/factr/interface.py\<close>): the node that samples every leader,
  converts its joints once and publishes them, and the two functions through which consumers read
  the published streams.

  The WebSocket client is a parameter: \<open>leader_obs\<close> holds what its calls return for one side in one poll.
  The consumer of the streams is the function \<open>latest\<close>, as in the code, where it is any object
  with such a method. A telemetry value is what \<^verbatim>\<open>json\<close> decoded; \<open>None\<close> as a number stands for a NaN or an
  infinity.
\<close>

section \<open>Names and configuration\<close>

definition factr_stream_name :: "string \<Rightarrow> string" where
  "factr_stream_name side = ''factr/'' @ side"

definition raw_factr_stream_name :: "string \<Rightarrow> string" where
  "raw_factr_stream_name side = ''factr/raw/'' @ side"

definition TELEMETRY_VECTOR_FIELDS :: "string list" where
  "TELEMETRY_VECTOR_FIELDS =
     [''raw_q_rad'', ''model_q_rad'', ''model_dq_rad_s'', ''home_error_rad'', ''joint_offsets_rad'', ''model_signs'',
      ''limit_torque_nm'', ''null_torque_nm'', ''gravity_torque_nm'', ''friction_torque_nm'',
      ''force_feedback_torque_nm'', ''applied_torque_nm'']"

definition TELEMETRY_SCALAR_FIELDS :: "string list" where
  "TELEMETRY_SCALAR_FIELDS =
     [''stamp_monotonic_ns'', ''grav_comp_gain'', ''grav_comp_gain_target'', ''force_feedback_gain'',
      ''force_feedback_gain_target'']"

definition factr_telemetry_stream_name :: "string \<Rightarrow> string \<Rightarrow> string" where
  "factr_telemetry_stream_name side fld = ''factr/telemetry/'' @ side @ ''/'' @ fld"

record factr_cfg =
  fa_servers :: "(string, int) dict"
  fa_leaders :: "(string, joint_convention) dict"
  fa_rate_hz :: real
  fa_max_age_s :: real

definition leader_stream_names :: "factr_cfg \<Rightarrow> string list" where
  "leader_stream_names cfg = map factr_stream_name (dkeys (fa_servers cfg))"

text \<open>Python's \<open>int\<close> on a float truncates.\<close>

definition py_trunc :: "real \<Rightarrow> int" where
  "py_trunc x = (if 0 \<le> x then \<lfloor>x\<rfloor> else \<lceil>x\<rceil>)"

definition max_age_ns :: "factr_cfg \<Rightarrow> int" where
  "max_age_ns cfg = py_trunc (fa_max_age_s cfg * 10 ^ 9)"

section \<open>Reading the leaders\<close>

definition fresh_sample :: "int \<Rightarrow> int \<Rightarrow> real samples \<Rightarrow> real list option" where
  "fresh_sample max_age now_ns s =
     (case (sm_newest s, sm_newest_t_ns s) of
        (Some v, Some t) \<Rightarrow> if now_ns - t > max_age then None else Some v
      | _ \<Rightarrow> None)"

fun fresh_loop ::
    "(string \<Rightarrow> real samples res) \<Rightarrow> int \<Rightarrow> int \<Rightarrow> string list \<Rightarrow> (string, real list) dict \<Rightarrow> (string, real list) dict res" where
  "fresh_loop latest max_age now_ns [] out = Inr out"
| "fresh_loop latest max_age now_ns (side # sides) out =
     (case latest (factr_stream_name side) of
        Inl e \<Rightarrow> if e = KeyError then fresh_loop latest max_age now_ns sides out else Inl e
      | Inr s \<Rightarrow>
          (case fresh_sample max_age now_ns s of
             None \<Rightarrow> fresh_loop latest max_age now_ns sides out
           | Some v \<Rightarrow> fresh_loop latest max_age now_ns sides (dput side v out)))"

definition fresh_leader_positions ::
    "(string \<Rightarrow> real samples res) \<Rightarrow> factr_cfg \<Rightarrow> int \<Rightarrow> (string, real list) dict res" where
  "fresh_leader_positions latest cfg now_ns = fresh_loop latest (max_age_ns cfg) now_ns (dkeys (fa_servers cfg)) []"

text \<open>One round of the preflight: the stop event, the streams, and the two clock readings.\<close>

record leader_poll =
  lp_stop :: bool
  lp_latest :: "string \<Rightarrow> real samples res"
  lp_now_ns :: int
  lp_now :: real

fun leaders_loop :: "factr_cfg \<Rightarrow> real \<Rightarrow> leader_poll list \<Rightarrow> unit res option" where
  "leaders_loop cfg deadline [] = None"
| "leaders_loop cfg deadline (p # ps) =
     (if lp_stop p then Some (Inr ())
      else case fresh_leader_positions (lp_latest p) cfg (lp_now_ns p) of
        Inl e \<Rightarrow> Some (Inl e)
      | Inr found \<Rightarrow>
          if set (dkeys (fa_servers cfg)) - set (dkeys found) = {} then Some (Inr ())
          else if deadline < lp_now p then Some (Inl FactrError)
          else leaders_loop cfg deadline ps)"

definition wait_leaders_fresh :: "factr_cfg \<Rightarrow> real \<Rightarrow> real \<Rightarrow> leader_poll list \<Rightarrow> unit res option" where
  "wait_leaders_fresh cfg timeout_s start ps =
     (if fa_servers cfg = [] then Some (Inr ()) else leaders_loop cfg (start + timeout_s) ps)"

section \<open>The node\<close>

definition leader_specs :: "factr_cfg \<Rightarrow> string \<times> int \<Rightarrow> stream_spec list res" where
  "leader_specs cfg p =
     (case p of (side, dof) \<Rightarrow>
      rbind (mapR (\<lambda>n. mk_stream_spec n dof 4096 ''float64'' (Some (fa_rate_hz cfg)))
               [factr_stream_name side, raw_factr_stream_name side]) (\<lambda>a.
      rbind (mapR (\<lambda>f. mk_stream_spec (factr_telemetry_stream_name side f) (dof - 1) 4096 ''float64'' (Some (fa_rate_hz cfg)))
               TELEMETRY_VECTOR_FIELDS) (\<lambda>b.
      rbind (mapR (\<lambda>f. mk_stream_spec (factr_telemetry_stream_name side f) 1 4096 ''float64'' (Some (fa_rate_hz cfg)))
               TELEMETRY_SCALAR_FIELDS) (\<lambda>c.
      Inr (a @ b @ c)))))"

definition factr_declare_streams :: "factr_cfg \<Rightarrow> stream_spec list res" where
  "factr_declare_streams cfg = rbind (mapR (leader_specs cfg) (fa_servers cfg)) (\<lambda>ls. Inr (concat ls))"

definition validate_convention :: "int \<Rightarrow> joint_convention \<Rightarrow> joint_convention res" where
  "validate_convention dof conv =
     (let dropped = jc_drop_trailing conv; arm_dof = dof - dropped; fs = jc_sign_flip_joints conv in
      if dropped < 1 \<or> arm_dof \<le> 0 \<or> int (length (jc_offsets_deg conv)) \<noteq> arm_dof then Inl RuntimeError
      else if length (remdups fs) \<noteq> length fs \<or> list_ex (\<lambda>i. i < 0 \<or> i \<ge> arm_dof) fs then Inl RuntimeError
      else case (jc_gripper_open conv, jc_gripper_closed conv) of
        (Some lo, Some hi) \<Rightarrow> if lo = hi then Inl RuntimeError else Inr conv
      | _ \<Rightarrow> Inl RuntimeError)"

text \<open>The node's memory. \<open>fn_log\<close> lists the warnings (\<open>True\<close>) and recoveries, \<open>fn_sent\<close> the torques sent.\<close>

record factr_node =
  fn_conventions :: "(string, joint_convention) dict"
  fn_versions :: "(string, int) dict"
  fn_errored :: "string list"
  fn_log :: "(string \<times> bool) list"
  fn_readers :: "string list"
  fn_last_seq :: "(string, int) dict"
  fn_fb_errored :: "string list"
  fn_sent :: "(string \<times> real list) list"

definition empty_factr_node :: factr_node where
  "empty_factr_node = \<lparr>fn_conventions = [], fn_versions = [], fn_errored = [], fn_log = [], fn_readers = [],
     fn_last_seq = [], fn_fb_errored = [], fn_sent = []\<rparr>"

definition open_side :: "factr_cfg \<Rightarrow> string \<times> int \<Rightarrow> factr_node \<Rightarrow> factr_node res" where
  "open_side cfg p n =
     (case p of (side, dof) \<Rightarrow>
      case dget (fa_leaders cfg) side of
        None \<Rightarrow> Inl RuntimeError
      | Some conv \<Rightarrow> rbind (validate_convention dof conv) (\<lambda>c. Inr (n\<lparr>fn_conventions := dput side c (fn_conventions n)\<rparr>)))"

definition factr_open_source :: "factr_cfg \<Rightarrow> factr_node \<Rightarrow> factr_node res" where
  "factr_open_source cfg n = foldR (open_side cfg) (fa_servers cfg) n"

datatype tval = TNum "real option" | TVec "real option list" | TOther

text \<open>What the calls of one side's share of a poll return.\<close>

record leader_obs =
  lo_joints :: "real list res"
  lo_telemetry :: "(int \<times> (string, tval) dict) option"
  lo_entry :: "bool res"
  lo_attach :: "unit res"
  lo_tau :: "real samples res"
  lo_now_ns :: int
  lo_send :: "unit res"

fun vector_field :: "int \<Rightarrow> tval \<Rightarrow> real list res" where
  "vector_field arm_dof (TVec v) =
     (if int (length v) \<noteq> arm_dof \<or> list_ex (\<lambda>x. x = None) v then Inl ValueError else Inr (map the v))"
| "vector_field arm_dof (TNum x) = Inl ValueError"
| "vector_field arm_dof TOther = Inl TypeError"

fun scalar_field :: "tval \<Rightarrow> real list res" where
  "scalar_field (TNum (Some x)) = Inr [x]"
| "scalar_field (TNum None) = Inl ValueError"
| "scalar_field (TVec v) = Inl TypeError"
| "scalar_field TOther = Inl TypeError"

definition parse_telemetry :: "string \<Rightarrow> int \<Rightarrow> (string, tval) dict \<Rightarrow> (string, real list) dict res" where
  "parse_telemetry side arm_dof telemetry =
     rbind (mapR (\<lambda>f. rbind (rbind (ditem telemetry f) (vector_field arm_dof)) (\<lambda>v. Inr (factr_telemetry_stream_name side f, v)))
              TELEMETRY_VECTOR_FIELDS) (\<lambda>vs.
     rbind (mapR (\<lambda>f. rbind (rbind (ditem telemetry f) scalar_field) (\<lambda>v. Inr (factr_telemetry_stream_name side f, v)))
              TELEMETRY_SCALAR_FIELDS) (\<lambda>ss.
     Inr (vs @ ss)))"

definition dupdate :: "('k, 'v) dict \<Rightarrow> ('k, 'v) dict \<Rightarrow> ('k, 'v) dict" where
  "dupdate new d = foldl (\<lambda>d (k, v). dput k v d) d new"

definition append_telemetry ::
    "factr_cfg \<Rightarrow> string \<Rightarrow> leader_obs \<Rightarrow> (string, real list) dict \<Rightarrow> factr_node
     \<Rightarrow> ((string, real list) dict \<times> factr_node) res" where
  "append_telemetry cfg side ob sample n =
     (case lo_telemetry ob of
        None \<Rightarrow> Inr (sample, n)
      | Some (version, telemetry) \<Rightarrow>
          if dget (fn_versions n) side = Some version then Inr (sample, n)
          else rbind (ditem (fa_servers cfg) side) (\<lambda>dof.
            let n' = n\<lparr>fn_versions := dput side version (fn_versions n)\<rparr> in
            case parse_telemetry side (dof - 1) telemetry of
              Inl e \<Rightarrow> Inr (sample, n')
            | Inr parsed \<Rightarrow> Inr (dupdate parsed sample, n')))"

text \<open>Finding the follower's torque stream: a new reader is attached at most once.\<close>

definition feedback_reader :: "string \<Rightarrow> leader_obs \<Rightarrow> factr_node \<Rightarrow> (bool \<times> factr_node) res" where
  "feedback_reader side ob n =
     (if side \<in> set (fn_readers n) then Inr (True, n)
      else rbind (lo_entry ob) (\<lambda>found.
        if \<not> found then Inr (False, n)
        else case lo_attach ob of
          Inl e \<Rightarrow> if e = FileNotFoundError then Inr (False, n) else Inl e
        | Inr u \<Rightarrow> Inr (True, n\<lparr>fn_readers := side # fn_readers n\<rparr>)))"

definition send_feedback :: "string \<Rightarrow> leader_obs \<Rightarrow> int \<Rightarrow> real list \<Rightarrow> factr_node \<Rightarrow> factr_node res" where
  "send_feedback side ob seq tau n =
     (case lo_send ob of
        Inl e \<Rightarrow> if e = FactrError then Inr (n\<lparr>fn_fb_errored := List.insert side (fn_fb_errored n)\<rparr>) else Inl e
      | Inr u \<Rightarrow> Inr (n\<lparr>fn_sent := fn_sent n @ [(side, map uminus tau)],
                        fn_last_seq := dput side seq (fn_last_seq n),
                        fn_fb_errored := removeAll side (fn_fb_errored n)\<rparr>))"

definition forward_force_feedback :: "factr_cfg \<Rightarrow> bool \<Rightarrow> string \<Rightarrow> leader_obs \<Rightarrow> factr_node \<Rightarrow> factr_node res" where
  "forward_force_feedback cfg sim side ob n =
     (if sim then Inr n
      else rbind (feedback_reader side ob n) (\<lambda>(attached, n1).
        if \<not> attached then Inr n1
        else case lo_tau ob of
          Inl e \<Rightarrow> if e = FileNotFoundError \<or> e = ValueError
                   then Inr (n1\<lparr>fn_readers := removeAll side (fn_readers n1), fn_last_seq := ddel side (fn_last_seq n1)\<rparr>)
                   else Inl e
        | Inr s \<Rightarrow>
            (case fresh_sample (max_age_ns cfg) (lo_now_ns ob) s of
               None \<Rightarrow> Inr n1
             | Some tau \<Rightarrow>
                 if dget (fn_last_seq n1) side = Some (last (sm_seq s)) then Inr n1
                 else send_feedback side ob (last (sm_seq s)) tau n1)))"

definition poll_side ::
    "factr_cfg \<Rightarrow> bool \<Rightarrow> string \<times> leader_obs \<Rightarrow> (string, real list) dict \<times> factr_node
     \<Rightarrow> ((string, real list) dict \<times> factr_node) res" where
  "poll_side cfg sim p s =
     (case (p, s) of ((side, ob), (sample, n)) \<Rightarrow>
      case lo_joints ob of
        Inl e \<Rightarrow>
          if e \<noteq> FactrError then Inl e
          else if side \<in> set (fn_errored n) then Inr (sample, n)
          else Inr (sample, n\<lparr>fn_errored := side # fn_errored n, fn_log := fn_log n @ [(side, True)]\<rparr>)
      | Inr jp \<Rightarrow>
          let n1 = (if side \<in> set (fn_errored n)
                    then n\<lparr>fn_errored := removeAll side (fn_errored n), fn_log := fn_log n @ [(side, False)]\<rparr> else n) in
          rbind (ditem (fn_conventions n1) side) (\<lambda>conv.
          rbind (convert_factr_to_rizon conv jp) (\<lambda>q_dfc.
          if jp = [] then Inl IndexError
          else let sample1 = dput (factr_stream_name side) (q_dfc @ [normalize_gripper conv (last jp)])
                              (dput (raw_factr_stream_name side) jp sample) in
            rbind (append_telemetry cfg side ob sample1 n1) (\<lambda>(sample2, n2).
            rbind (forward_force_feedback cfg sim side ob n2) (\<lambda>n3. Inr (sample2, n3))))))"

definition factr_poll ::
    "factr_cfg \<Rightarrow> bool \<Rightarrow> (string \<times> leader_obs) list \<Rightarrow> factr_node
     \<Rightarrow> ((string, real list) dict option \<times> factr_node) res" where
  "factr_poll cfg sim obs n =
     rbind (foldR (poll_side cfg sim) obs ([], n)) (\<lambda>(sample, n').
     Inr (if sample = [] then None else Some sample, n'))"

section \<open>Freshness\<close>

text \<open>What a consumer may rely on: \<open>v\<close> is the newest sample of the leader's stream and young enough.\<close>

definition leader_fresh :: "(string \<Rightarrow> real samples res) \<Rightarrow> factr_cfg \<Rightarrow> int \<Rightarrow> string \<Rightarrow> real list \<Rightarrow> bool" where
  "leader_fresh latest cfg now_ns side v \<longleftrightarrow>
     (\<exists>s t. latest (factr_stream_name side) = Inr s \<and> sm_newest s = Some v \<and> sm_newest_t_ns s = Some t
            \<and> now_ns - t \<le> max_age_ns cfg)"

lemma fresh_sample_Some:
  "fresh_sample a now s = Some v \<longleftrightarrow> (\<exists>t. sm_newest s = Some v \<and> sm_newest_t_ns s = Some t \<and> now - t \<le> a)"
  by (auto simp: fresh_sample_def split: option.splits)

lemma fresh_loop_Inr:
  assumes "fresh_loop latest (max_age_ns cfg) now sides out = Inr out'"
  shows "dget out' side = (if side \<in> set sides \<and> (\<exists>v. leader_fresh latest cfg now side v)
     then Some (THE v. leader_fresh latest cfg now side v) else dget out side)"
  using assms
proof (induction sides arbitrary: out)
  case (Cons s sides)
  have uniq: "(THE v. leader_fresh latest cfg now s v) = v" if "leader_fresh latest cfg now s v" for v
    using that by (intro the_equality) (auto simp: leader_fresh_def)
  show ?case
  proof (cases "\<exists>v. leader_fresh latest cfg now s v")
    case True
    then obtain v where v: "leader_fresh latest cfg now s v" by blast
    then obtain sa where sa: "latest (factr_stream_name s) = Inr sa" "fresh_sample (max_age_ns cfg) now sa = Some v"
      by (auto simp: leader_fresh_def fresh_sample_Some)
    then have "fresh_loop latest (max_age_ns cfg) now sides (dput s v out) = Inr out'" using Cons.prems by simp
    then show ?thesis using Cons.IH[of "dput s v out"] uniq[OF v] v by auto
  next
    case False
    have "fresh_loop latest (max_age_ns cfg) now sides out = Inr out'"
    proof (cases "latest (factr_stream_name s)")
      case (Inl e)
      then show ?thesis using Cons.prems by (auto split: if_splits)
    next
      case (Inr sa)
      then have "fresh_sample (max_age_ns cfg) now sa = None"
        using False by (cases "fresh_sample (max_age_ns cfg) now sa") (auto simp: leader_fresh_def fresh_sample_Some)
      then show ?thesis using Cons.prems Inr by simp
    qed
    then show ?thesis using Cons.IH[of out] False by auto
  qed
qed simp

lemma fresh_leader_positions_dget:
  assumes "fresh_leader_positions latest cfg now = Inr out"
  shows "dget out side = Some v \<longleftrightarrow> side \<in> set (dkeys (fa_servers cfg)) \<and> leader_fresh latest cfg now side v"
proof -
  have "\<And>v v'. leader_fresh latest cfg now side v \<Longrightarrow> leader_fresh latest cfg now side v' \<Longrightarrow> v = v'"
    by (auto simp: leader_fresh_def)
  then show ?thesis
    using fresh_loop_Inr[of latest cfg now "dkeys (fa_servers cfg)" "[]" out side] assms
    by (auto simp: fresh_leader_positions_def intro: theI2 split: if_splits)
qed

lemma leaders_loop_cases:
  assumes "leaders_loop cfg dl ps = r"
  shows "case r of
      None \<Rightarrow> (\<forall>p \<in> set ps. \<not> lp_stop p \<and> lp_now p \<le> dl)
    | Some (Inr u) \<Rightarrow> (\<exists>p \<in> set ps. lp_stop p
        \<or> (\<forall>side \<in> set (dkeys (fa_servers cfg)). \<exists>v. leader_fresh (lp_latest p) cfg (lp_now_ns p) side v))
    | Some (Inl e) \<Rightarrow> (\<exists>p \<in> set ps. fresh_leader_positions (lp_latest p) cfg (lp_now_ns p) = Inl e
        \<or> e = FactrError \<and> dl < lp_now p
          \<and> (\<exists>side \<in> set (dkeys (fa_servers cfg)). \<forall>v. \<not> leader_fresh (lp_latest p) cfg (lp_now_ns p) side v))"
  using assms
proof (induction ps arbitrary: r)
  case (Cons p ps)
  show ?case
  proof (cases "lp_stop p")
    case True
    then show ?thesis using Cons.prems by auto
  next
    case go: False
    show ?thesis
    proof (cases "fresh_leader_positions (lp_latest p) cfg (lp_now_ns p)")
      case (Inl e)
      then show ?thesis using Cons.prems go by auto
    next
      case (Inr found)
      have mem: "side \<in> set (dkeys found) \<longleftrightarrow> side \<in> set (dkeys (fa_servers cfg))
          \<and> (\<exists>v. leader_fresh (lp_latest p) cfg (lp_now_ns p) side v)" for side
        using fresh_leader_positions_dget[OF Inr, of side] dget_Some_keys[of found side] by blast
      show ?thesis
      proof (cases "set (dkeys (fa_servers cfg)) - set (dkeys found) = {}")
        case True
        then have "\<forall>side \<in> set (dkeys (fa_servers cfg)). \<exists>v. leader_fresh (lp_latest p) cfg (lp_now_ns p) side v"
          using mem by blast
        moreover have "r = Some (Inr ())" using Cons.prems go Inr True by auto
        ultimately show ?thesis by auto
      next
        case False
        then obtain side where side: "side \<in> set (dkeys (fa_servers cfg))"
            "\<forall>v. \<not> leader_fresh (lp_latest p) cfg (lp_now_ns p) side v"
          using mem by blast
        show ?thesis
        proof (cases "dl < lp_now p")
          case True
          then have "r = Some (Inl FactrError)" using Cons.prems go Inr False by auto
          then show ?thesis using True side by auto
        next
          case early: False
          then have "leaders_loop cfg dl ps = r" using Cons.prems go Inr False by auto
          then show ?thesis using Cons.IH[of r] go early
            by (auto split: option.splits sum.splits)
        qed
      qed
    qed
  qed
qed auto

section \<open>Published samples fit their streams\<close>

lemma convert_length:
  assumes len: "length (drop_gripper conv q) = n" "n \<le> length (jc_offsets_deg conv)"
    and idx: "\<forall>k \<in> set (jc_sign_flip_joints conv). - int n \<le> k \<and> k < int n"
  shows "\<exists>out. convert_factr_to_rizon conv q = Inr out \<and> length out = n"
proof -
  let ?q = "drop_gripper conv q" and ?off = "take n (jc_offsets_deg conv)"
  let ?deg = "map2 (+) (map degrees ?q) ?off"
  have add: "np_add (map degrees ?q) ?off = Inr ?deg" using len by (simp add: np_add_def)
  have ld: "length ?deg = n" using len by simp
  obtain deg' where f: "foldR flip_joint (jc_sign_flip_joints conv) ?deg = Inr deg'"
    using flips_ok[of "jc_sign_flip_joints conv" ?deg] idx ld by auto
  have "length deg' = n" using fold_flips[OF f] ld by simp
  then show ?thesis using add f len by (simp add: convert_factr_to_rizon_def)
qed

lemma validate_conventionD:
  assumes "validate_convention dof conv = Inr c"
  shows "c = conv \<and> 1 \<le> jc_drop_trailing c \<and> jc_drop_trailing c < dof
    \<and> int (length (jc_offsets_deg c)) = dof - jc_drop_trailing c
    \<and> (\<forall>k \<in> set (jc_sign_flip_joints c). 0 \<le> k \<and> k < dof - jc_drop_trailing c)"
  using assms
  by (auto simp: validate_convention_def Let_def list_ex_iff split: if_splits option.splits)

lemma validated_converts:
  assumes "validate_convention dof conv = Inr c" "int (length jp) = dof"
  shows "\<exists>q. convert_factr_to_rizon c jp = Inr q \<and> int (length q) = dof - jc_drop_trailing c \<and> jp \<noteq> []"
proof -
  note v = validate_conventionD[OF assms(1)]
  let ?n = "nat (dof - jc_drop_trailing c)"
  have "length (drop_gripper c jp) = ?n" using v assms(2) by (auto simp: drop_gripper_def py_take_def)
  moreover have "?n \<le> length (jc_offsets_deg c)" using conjunct1[OF conjunct2[OF conjunct2[OF conjunct2[OF v]]]] by linarith
  moreover have "\<forall>k \<in> set (jc_sign_flip_joints c). - int ?n \<le> k \<and> k < int ?n" using v by fastforce
  ultimately obtain q where "convert_factr_to_rizon c jp = Inr q" "length q = ?n"
    using convert_length[of c jp ?n] by blast
  then show ?thesis using v assms(2) by auto
qed

text \<open>A named vector of one side's share of a sample, of the width its stream was declared with.\<close>

definition fits_tel :: "int \<Rightarrow> string \<Rightarrow> string \<times> real list \<Rightarrow> bool" where
  "fits_tel dof side kv \<longleftrightarrow>
     fst kv \<in> factr_telemetry_stream_name side ` set TELEMETRY_VECTOR_FIELDS \<and> int (length (snd kv)) = dof - 1
   \<or> fst kv \<in> factr_telemetry_stream_name side ` set TELEMETRY_SCALAR_FIELDS \<and> length (snd kv) = 1"

definition fits_side :: "int \<Rightarrow> string \<Rightarrow> string \<times> real list \<Rightarrow> bool" where
  "fits_side dof side kv \<longleftrightarrow>
     fst kv \<in> {factr_stream_name side, raw_factr_stream_name side} \<and> int (length (snd kv)) = dof \<or> fits_tel dof side kv"

lemma mapR_mem_Inr: "mapR f xs = Inr ys \<Longrightarrow> x \<in> set xs \<Longrightarrow> \<exists>y \<in> set ys. f x = Inr y"
  by (induction xs arbitrary: ys) auto

lemma mk_stream_spec_fields: "mk_stream_spec n d c ty r = Inr sp \<Longrightarrow> ss_name sp = n \<and> ss_dim sp = d"
  by (simp add: mk_stream_spec_name mk_stream_spec_dim)

lemma leader_specs_fit:
  assumes "leader_specs cfg (side, dof) = Inr sps" "fits_side dof side kv"
  shows "\<exists>sp \<in> set sps. ss_name sp = fst kv \<and> ss_dim sp = int (length (snd kv))"
proof -
  obtain a b c where abc: "sps = a @ b @ c"
    "mapR (\<lambda>n. mk_stream_spec n dof 4096 ''float64'' (Some (fa_rate_hz cfg))) [factr_stream_name side, raw_factr_stream_name side] = Inr a"
    "mapR (\<lambda>f. mk_stream_spec (factr_telemetry_stream_name side f) (dof - 1) 4096 ''float64'' (Some (fa_rate_hz cfg))) TELEMETRY_VECTOR_FIELDS = Inr b"
    "mapR (\<lambda>f. mk_stream_spec (factr_telemetry_stream_name side f) 1 4096 ''float64'' (Some (fa_rate_hz cfg))) TELEMETRY_SCALAR_FIELDS = Inr c"
    using assms(1) by (auto simp: leader_specs_def simp del: mapR.simps)
  consider "fst kv \<in> set [factr_stream_name side, raw_factr_stream_name side]" "int (length (snd kv)) = dof"
    | f where "f \<in> set TELEMETRY_VECTOR_FIELDS" "fst kv = factr_telemetry_stream_name side f" "int (length (snd kv)) = dof - 1"
    | f where "f \<in> set TELEMETRY_SCALAR_FIELDS" "fst kv = factr_telemetry_stream_name side f" "length (snd kv) = 1"
    using assms(2) by (auto simp: fits_side_def fits_tel_def)
  then show ?thesis
  proof cases
    case 1
    then show ?thesis using mapR_mem_Inr[OF abc(2) 1(1)] abc(1) by (auto dest: mk_stream_spec_fields)
  next
    case 2
    then show ?thesis using mapR_mem_Inr[OF abc(3) 2(1)] abc(1) by (auto dest: mk_stream_spec_fields)
  next
    case 3
    then show ?thesis using mapR_mem_Inr[OF abc(4) 3(1)] abc(1) by (auto dest: mk_stream_spec_fields)
  qed
qed

lemma parse_telemetry_fits:
  assumes "parse_telemetry side (dof - 1) tel = Inr parsed" "kv \<in> set parsed"
  shows "fits_tel dof side kv"
proof -
  obtain vs ss where p: "parsed = vs @ ss"
    "mapR (\<lambda>f. rbind (rbind (ditem tel f) (vector_field (dof - 1))) (\<lambda>v. Inr (factr_telemetry_stream_name side f, v))) TELEMETRY_VECTOR_FIELDS = Inr vs"
    "mapR (\<lambda>f. rbind (rbind (ditem tel f) scalar_field) (\<lambda>v. Inr (factr_telemetry_stream_name side f, v))) TELEMETRY_SCALAR_FIELDS = Inr ss"
    using assms(1) by (auto simp: parse_telemetry_def)
  have vlen: "vector_field d t = Inr v \<Longrightarrow> int (length v) = d" for d t v by (cases t) (auto split: if_splits)
  have slen: "scalar_field t = Inr v \<Longrightarrow> length v = 1" for t v
    by (cases t rule: scalar_field.cases) auto
  show ?thesis
    using assms(2) mapR_mem[OF p(2), of kv] mapR_mem[OF p(3), of kv] vlen slen
    unfolding p(1) fits_tel_def by fastforce
qed

lemma dupdate_mem: "kv \<in> set (dupdate new d) \<Longrightarrow> kv \<in> set new \<or> kv \<in> set d"
proof (induction new arbitrary: d)
  case (Cons p new)
  obtain k v where p: "p = (k, v)" by fastforce
  have "dupdate (p # new) d = dupdate new (dput k v d)" by (simp add: dupdate_def p)
  then show ?case using Cons.IH[of "dput k v d"] Cons.prems dput_subset[of k v d] by (auto simp: p)
qed (simp add: dupdate_def)

lemma dget_dupdate_other: "k \<notin> fst ` set new \<Longrightarrow> dget (dupdate new d) k = dget d k"
proof (induction new arbitrary: d)
  case (Cons p new)
  obtain k' v where p: "p = (k', v)" by fastforce
  have "dupdate (p # new) d = dupdate new (dput k' v d)" by (simp add: dupdate_def p)
  then show ?case using Cons.IH[of "dput k' v d"] Cons.prems by (simp add: p)
qed (simp add: dupdate_def)

text \<open>The memory a call keeps unchanged, and what the other calls of a poll can do.\<close>

lemma append_telemetry_Inr:
  assumes "append_telemetry cfg side ob sample n = Inr (sample', n')"
  shows "fn_conventions n' = fn_conventions n"
    and "\<exists>new. sample' = dupdate new sample \<and> (\<forall>dof. dget (fa_servers cfg) side = Some dof \<longrightarrow> (\<forall>kv \<in> set new. fits_tel dof side kv))"
proof -
  have nil: "sample = dupdate [] sample" by (simp add: dupdate_def)
  have parsed_case: "(case r of Inl (e :: py_error) \<Rightarrow> Inr (sample, m) | Inr p \<Rightarrow> Inr (dupdate p sample, m)) = Inr (sample', n')
      \<longleftrightarrow> n' = m \<and> sample' = (case r of Inl e \<Rightarrow> sample | Inr p \<Rightarrow> dupdate p sample)" for r :: "(string, real list) dict res" and m
    by (cases r) auto
  show "fn_conventions n' = fn_conventions n"
    using assms by (auto simp: append_telemetry_def Let_def parsed_case split: option.splits if_splits)
  show "\<exists>new. sample' = dupdate new sample \<and> (\<forall>dof. dget (fa_servers cfg) side = Some dof \<longrightarrow> (\<forall>kv \<in> set new. fits_tel dof side kv))"
  proof (cases "sample' = sample")
    case True
    then show ?thesis using nil by (intro exI[of _ "[]"]) simp
  next
    case False
    then obtain dof tel where d: "dget (fa_servers cfg) side = Some dof"
        "sample' = (case parse_telemetry side (dof - 1) tel of Inl e \<Rightarrow> sample | Inr p \<Rightarrow> dupdate p sample)"
      using assms by (auto simp: append_telemetry_def Let_def ditem_Inr parsed_case split: option.splits if_splits)
    then obtain parsed where p: "dget (fa_servers cfg) side = Some dof"
        "parse_telemetry side (dof - 1) tel = Inr parsed" "sample' = dupdate parsed sample"
      using False by (cases "parse_telemetry side (dof - 1) tel") auto
    then show ?thesis using parse_telemetry_fits[OF p(2)] by (intro exI[of _ parsed]) auto
  qed
qed

lemma append_telemetry_ok:
  "dget (fa_servers cfg) side = Some dof \<Longrightarrow> \<exists>r. append_telemetry cfg side ob sample n = Inr r"
  by (auto simp: append_telemetry_def Let_def ditem_def split: option.splits sum.splits)

lemma forward_conventions:
  "forward_force_feedback cfg sim side ob n = Inr n' \<Longrightarrow> fn_conventions n' = fn_conventions n"
  by (auto simp: forward_force_feedback_def feedback_reader_def send_feedback_def
      split: if_splits sum.splits option.splits)

text \<open>The documented failures of the calls of a poll: everything else they return normally.\<close>

definition calls_ok :: "int \<Rightarrow> leader_obs \<Rightarrow> bool" where
  "calls_ok dof ob \<longleftrightarrow>
     (case lo_joints ob of Inl e \<Rightarrow> e = FactrError | Inr jp \<Rightarrow> int (length jp) = dof)
     \<and> (\<exists>b. lo_entry ob = Inr b) \<and> lo_attach ob \<in> {Inr (), Inl FileNotFoundError}
     \<and> (case lo_tau ob of Inl e \<Rightarrow> e \<in> {FileNotFoundError, ValueError} | Inr s \<Rightarrow> True)
     \<and> lo_send ob \<in> {Inr (), Inl FactrError}"

lemma feedback_reader_ok: "calls_ok dof ob \<Longrightarrow> \<exists>a n'. feedback_reader side ob n = Inr (a, n')"
proof -
  assume "calls_ok dof ob"
  then obtain b where "lo_entry ob = Inr b" "lo_attach ob = Inr () \<or> lo_attach ob = Inl FileNotFoundError"
    by (auto simp: calls_ok_def)
  then show ?thesis by (cases b) (auto simp: feedback_reader_def)
qed

lemma send_feedback_ok: "calls_ok dof ob \<Longrightarrow> \<exists>n'. send_feedback side ob seq tau n = Inr n'"
  by (auto simp: send_feedback_def calls_ok_def)

lemma forward_ok:
  assumes "calls_ok dof ob"
  shows "\<exists>n'. forward_force_feedback cfg sim side ob n = Inr n'"
proof (cases sim)
  case False
  obtain a n1 where r: "feedback_reader side ob n = Inr (a, n1)" using feedback_reader_ok[OF assms] by blast
  show ?thesis
  proof (cases "lo_tau ob")
    case (Inl e)
    then have "e = FileNotFoundError \<or> e = ValueError" using assms by (auto simp: calls_ok_def)
    then show ?thesis using False r Inl by (simp add: forward_force_feedback_def)
  next
    case (Inr s)
    show ?thesis
    proof (cases "fresh_sample (max_age_ns cfg) (lo_now_ns ob) s")
      case None
      then show ?thesis using False r Inr by (simp add: forward_force_feedback_def)
    next
      case (Some tau)
      obtain n2 where "send_feedback side ob (last (sm_seq s)) tau n1 = Inr n2"
        using send_feedback_ok[OF assms] by blast
      then show ?thesis using False r Inr Some by (simp add: forward_force_feedback_def)
    qed
  qed
qed (simp add: forward_force_feedback_def)

text \<open>What one side's poll adds to the sample.\<close>

definition side_part :: "joint_convention \<Rightarrow> int \<Rightarrow> string \<Rightarrow> leader_obs \<Rightarrow> (string, real list) dict \<Rightarrow> bool" where
  "side_part c dof side ob new \<longleftrightarrow>
     (case lo_joints ob of
        Inl e \<Rightarrow> new = []
      | Inr jp \<Rightarrow> (\<exists>q tel. convert_factr_to_rizon c jp = Inr q \<and> int (length q) = dof - jc_drop_trailing c
           \<and> new = [(raw_factr_stream_name side, jp), (factr_stream_name side, q @ [normalize_gripper c (last jp)])] @ tel
           \<and> (\<forall>kv \<in> set tel. fits_tel dof side kv)))"


lemma poll_side_ok:
  assumes dof: "dget (fa_servers cfg) side = Some dof" and ok: "calls_ok dof ob"
    and conv: "dget (fn_conventions n) side = Some c" "validate_convention dof c0 = Inr c"
  shows "\<exists>sample' n'. poll_side cfg sim (side, ob) (sample, n) = Inr (sample', n') \<and> fn_conventions n' = fn_conventions n
    \<and> (\<exists>new. sample' = dupdate new sample \<and> side_part c dof side ob new)"
proof (cases "lo_joints ob")
  case (Inl e)
  then have e: "e = FactrError" using ok by (simp add: calls_ok_def)
  have nil: "sample = dupdate [] sample" by (simp add: dupdate_def)
  show ?thesis
    using Inl e nil by (cases "side \<in> set (fn_errored n)") (auto simp: poll_side_def side_part_def)
next
  case (Inr jp)
  then have len: "int (length jp) = dof" using ok by (simp add: calls_ok_def)
  obtain q where q: "convert_factr_to_rizon c jp = Inr q" "int (length q) = dof - jc_drop_trailing c" "jp \<noteq> []"
    using validated_converts[OF conv(2) len] by blast
  define n1 where "n1 = (if side \<in> set (fn_errored n)
      then n\<lparr>fn_errored := removeAll side (fn_errored n), fn_log := fn_log n @ [(side, False)]\<rparr> else n)"
  define s1 where "s1 = dput (factr_stream_name side) (q @ [normalize_gripper c (last jp)]) (dput (raw_factr_stream_name side) jp sample)"
  have c1: "fn_conventions n1 = fn_conventions n" by (simp add: n1_def)
  obtain s2 n2 where at: "append_telemetry cfg side ob s1 n1 = Inr (s2, n2)"
    using append_telemetry_ok[OF dof] by (metis surj_pair)
  obtain n3 where ff: "forward_force_feedback cfg sim side ob n2 = Inr n3" using forward_ok[OF ok] by blast
  have run: "poll_side cfg sim (side, ob) (sample, n) = Inr (s2, n3)"
    using Inr q conv(1) c1 at ff by (simp add: poll_side_def n1_def[symmetric] s1_def[symmetric] ditem_def)
  obtain tel where tel: "s2 = dupdate tel s1" "\<forall>kv \<in> set tel. fits_tel dof side kv"
    using append_telemetry_Inr(2)[OF at] dof by auto
  let ?new = "[(raw_factr_stream_name side, jp), (factr_stream_name side, q @ [normalize_gripper c (last jp)])] @ tel"
  have "s2 = dupdate ?new sample" by (simp add: tel(1) s1_def dupdate_def)
  moreover have "side_part c dof side ob ?new" using Inr q tel(2) by (auto simp: side_part_def)
  moreover have "fn_conventions n3 = fn_conventions n"
    using append_telemetry_Inr(1)[OF at] forward_conventions[OF ff] c1 by simp
  ultimately show ?thesis using run by blast
qed

text \<open>Sides without a slash have disjoint stream names.\<close>

definition plain :: "string \<Rightarrow> bool" where
  "plain side \<longleftrightarrow> CHR ''/'' \<notin> set side"

lemma leader_names:
  "plain a \<Longrightarrow> factr_stream_name a \<noteq> raw_factr_stream_name b"
  "plain a \<Longrightarrow> factr_stream_name a \<noteq> factr_telemetry_stream_name b f"
  "plain a \<Longrightarrow> raw_factr_stream_name a \<noteq> factr_telemetry_stream_name b f"
  "factr_stream_name a = factr_stream_name b \<longleftrightarrow> a = b"
  "raw_factr_stream_name a = raw_factr_stream_name b \<longleftrightarrow> a = b"
  by (auto simp: plain_def factr_stream_name_def raw_factr_stream_name_def factr_telemetry_stream_name_def)

lemma dupdate_append: "dupdate (a @ b) d = dupdate b (dupdate a d)"
  by (simp add: dupdate_def)

lemma side_part_dget:
  assumes "side_part c dof side ob new" "plain side"
  shows "(case lo_joints ob of
        Inl e \<Rightarrow> dupdate new d = d
      | Inr jp \<Rightarrow> (\<exists>q. convert_factr_to_rizon c jp = Inr q \<and> dget (dupdate new d) (raw_factr_stream_name side) = Some jp
          \<and> dget (dupdate new d) (factr_stream_name side) = Some (q @ [normalize_gripper c (last jp)])))"
    and "plain other \<Longrightarrow> other \<noteq> side \<Longrightarrow> dget (dupdate new d) (factr_stream_name other) = dget d (factr_stream_name other)
          \<and> dget (dupdate new d) (raw_factr_stream_name other) = dget d (raw_factr_stream_name other)"
proof -
  have tele: "factr_stream_name side \<notin> fst ` set tel" "raw_factr_stream_name side \<notin> fst ` set tel"
    if "\<forall>kv \<in> set tel. fits_tel dof side kv" for tel
    using that leader_names(2,3)[OF assms(2)] by (fastforce simp: fits_tel_def)+
  show "(case lo_joints ob of
        Inl e \<Rightarrow> dupdate new d = d
      | Inr jp \<Rightarrow> (\<exists>q. convert_factr_to_rizon c jp = Inr q \<and> dget (dupdate new d) (raw_factr_stream_name side) = Some jp
          \<and> dget (dupdate new d) (factr_stream_name side) = Some (q @ [normalize_gripper c (last jp)])))"
  proof (cases "lo_joints ob")
    case (Inl e)
    then show ?thesis using assms(1) by (simp add: side_part_def dupdate_def)
  next
    case (Inr jp)
    then obtain q tel where qt: "convert_factr_to_rizon c jp = Inr q"
      "new = [(raw_factr_stream_name side, jp), (factr_stream_name side, q @ [normalize_gripper c (last jp)])] @ tel"
      "\<forall>kv \<in> set tel. fits_tel dof side kv"
      using assms(1) by (auto simp: side_part_def)
    have two: "dupdate [(raw_factr_stream_name side, jp), (factr_stream_name side, q @ [normalize_gripper c (last jp)])] d
        = dput (factr_stream_name side) (q @ [normalize_gripper c (last jp)]) (dput (raw_factr_stream_name side) jp d)"
      by (simp add: dupdate_def)
    show ?thesis
      using Inr qt(1) tele[OF qt(3)] leader_names(1)[OF assms(2), of side]
      by (simp add: qt(2) dupdate_append two dget_dupdate_other del: append.simps)
  qed
  assume o: "plain other" "other \<noteq> side"
  have "factr_stream_name other \<notin> fst ` set new \<and> raw_factr_stream_name other \<notin> fst ` set new"
  proof (cases "lo_joints ob")
    case (Inl e)
    then show ?thesis using assms(1) by (simp add: side_part_def)
  next
    case (Inr jp)
    then obtain q tel where qt:
      "new = [(raw_factr_stream_name side, jp), (factr_stream_name side, q @ [normalize_gripper c (last jp)])] @ tel"
      "\<forall>kv \<in> set tel. fits_tel dof side kv"
      using assms(1) by (auto simp: side_part_def)
    have "factr_stream_name other \<notin> fst ` set tel" "raw_factr_stream_name other \<notin> fst ` set tel"
      using qt(2) leader_names(2,3)[OF o(1)] by (fastforce simp: fits_tel_def)+
    then show ?thesis using o leader_names(1)[OF o(1), of side] leader_names(1)[OF assms(2), of other]
      by (auto simp: qt(1) leader_names(4,5))
  qed
  then show "dget (dupdate new d) (factr_stream_name other) = dget d (factr_stream_name other)
          \<and> dget (dupdate new d) (raw_factr_stream_name other) = dget d (raw_factr_stream_name other)"
    by (simp add: dget_dupdate_other)
qed

text \<open>A node whose source was opened: every server has a validated convention.\<close>

definition node_ready :: "factr_cfg \<Rightarrow> factr_node \<Rightarrow> bool" where
  "node_ready cfg n \<longleftrightarrow> (\<forall>(side, dof) \<in> set (fa_servers cfg). \<exists>c. dget (fn_conventions n) side = Some c
     \<and> dget (fa_leaders cfg) side = Some c \<and> validate_convention dof c = Inr c)"

lemma open_side_Inr:
  assumes "open_side cfg (side, dof) n = Inr n'"
  shows "\<exists>c. dget (fa_leaders cfg) side = Some c \<and> validate_convention dof c = Inr c
     \<and> fn_conventions n' = dput side c (fn_conventions n)"
  using assms validate_conventionD by (fastforce simp: open_side_def split: option.splits)

lemma open_source_ready:
  assumes "foldR (open_side cfg) sds n = Inr n'" "distinct (dkeys sds)"
  shows "(\<forall>(side, dof) \<in> set sds. \<exists>c. dget (fn_conventions n') side = Some c
       \<and> dget (fa_leaders cfg) side = Some c \<and> validate_convention dof c = Inr c)
    \<and> (\<forall>k. k \<notin> set (dkeys sds) \<longrightarrow> dget (fn_conventions n') k = dget (fn_conventions n) k)"
  using assms
proof (induction sds arbitrary: n)
  case (Cons p sds)
  obtain side dof where p: "p = (side, dof)" by fastforce
  obtain n1 where n1: "open_side cfg (side, dof) n = Inr n1" "foldR (open_side cfg) sds n1 = Inr n'"
    using Cons.prems(1) by (auto simp: p)
  obtain c where c: "dget (fa_leaders cfg) side = Some c" "validate_convention dof c = Inr c"
      "fn_conventions n1 = dput side c (fn_conventions n)"
    using open_side_Inr[OF n1(1)] by blast
  note IH = Cons.IH[OF n1(2)]
  have "side \<notin> set (dkeys sds)" using Cons.prems(2) by (simp add: p)
  then have "dget (fn_conventions n') side = Some c" using IH Cons.prems(2) c(3) by simp
  then show ?case using IH Cons.prems(2) c by (auto simp: p)
qed auto

lemma open_ready: "factr_open_source cfg n = Inr n' \<Longrightarrow> distinct (dkeys (fa_servers cfg)) \<Longrightarrow> node_ready cfg n'"
  unfolding node_ready_def factr_open_source_def using open_source_ready by fast

text \<open>The observations of a poll belong to the configured servers.\<close>

definition obs_for :: "(string \<times> int) list \<Rightarrow> (string \<times> leader_obs) list \<Rightarrow> bool" where
  "obs_for sds obs \<longleftrightarrow> list_all2 (\<lambda>(side, dof) (s, ob). s = side \<and> plain side \<and> calls_ok dof ob) sds obs"

lemma obs_for_keys: "obs_for sds obs \<Longrightarrow> fst ` set obs \<subseteq> fst ` set sds \<and> (\<forall>x \<in> set obs. plain (fst x))"
  unfolding obs_for_def by (induction rule: list_all2_induct) auto

lemma poll_fold:
  assumes "obs_for sds obs" "distinct (dkeys sds)" "distinct (dkeys (fa_servers cfg))" "set sds \<subseteq> set (fa_servers cfg)" "node_ready cfg n"
  shows "\<exists>sample' n'. foldR (poll_side cfg sim) obs (sample, n) = Inr (sample', n') \<and> fn_conventions n' = fn_conventions n
    \<and> (\<forall>kv \<in> set sample'. kv \<in> set sample \<or> (\<exists>(side, dof) \<in> set sds. \<exists>c ob new. dget (fn_conventions n) side = Some c
          \<and> side_part c dof side ob new \<and> calls_ok dof ob \<and> kv \<in> set new))
    \<and> (\<forall>other. plain other \<and> other \<notin> set (dkeys sds) \<longrightarrow>
          dget sample' (factr_stream_name other) = dget sample (factr_stream_name other)
        \<and> dget sample' (raw_factr_stream_name other) = dget sample (raw_factr_stream_name other))
    \<and> (\<forall>(side, ob) \<in> set obs. \<exists>c. dget (fn_conventions n) side = Some c \<and>
         (case lo_joints ob of
            Inl e \<Rightarrow> dget sample' (factr_stream_name side) = dget sample (factr_stream_name side)
          | Inr jp \<Rightarrow> (\<exists>q. convert_factr_to_rizon c jp = Inr q \<and> dget sample' (raw_factr_stream_name side) = Some jp
              \<and> dget sample' (factr_stream_name side) = Some (q @ [normalize_gripper c (last jp)]))))"
  using assms
proof (induction sds arbitrary: obs sample n)
  case Nil
  then show ?case by (simp add: obs_for_def)
next
  case (Cons p sds)
  obtain side dof where p: "p = (side, dof)" by fastforce
  obtain ob obs' where obs: "obs = (side, ob) # obs'" "plain side" "calls_ok dof ob" "obs_for sds obs'"
    using Cons.prems(1) by (cases obs) (auto simp: obs_for_def p)
  have srv: "dget (fa_servers cfg) side = Some dof" "(side, dof) \<in> set (fa_servers cfg)"
    using Cons.prems(3,4) by (auto simp: p)
  obtain c where c: "dget (fn_conventions n) side = Some c" "validate_convention dof c = Inr c"
    using Cons.prems(5) srv(2) by (auto simp: node_ready_def)
  obtain s1 n1 new where st: "poll_side cfg sim (side, ob) (sample, n) = Inr (s1, n1)" "fn_conventions n1 = fn_conventions n"
      "s1 = dupdate new sample" "side_part c dof side ob new"
    using poll_side_ok[OF srv(1) obs(3) c, of sim sample] by blast
  have ready: "node_ready cfg n1" using Cons.prems(5) by (simp add: node_ready_def st(2))
  obtain s2 n2 where IH: "foldR (poll_side cfg sim) obs' (s1, n1) = Inr (s2, n2)" "fn_conventions n2 = fn_conventions n1"
    "\<forall>kv \<in> set s2. kv \<in> set s1 \<or> (\<exists>(side, dof) \<in> set sds. \<exists>c ob new. dget (fn_conventions n1) side = Some c
          \<and> side_part c dof side ob new \<and> calls_ok dof ob \<and> kv \<in> set new)"
    "\<And>other. plain other \<Longrightarrow> other \<notin> set (dkeys sds) \<Longrightarrow>
          dget s2 (factr_stream_name other) = dget s1 (factr_stream_name other)
        \<and> dget s2 (raw_factr_stream_name other) = dget s1 (raw_factr_stream_name other)"
    "\<forall>(side, ob) \<in> set obs'. \<exists>c. dget (fn_conventions n1) side = Some c \<and>
         (case lo_joints ob of
            Inl e \<Rightarrow> dget s2 (factr_stream_name side) = dget s1 (factr_stream_name side)
          | Inr jp \<Rightarrow> (\<exists>q. convert_factr_to_rizon c jp = Inr q \<and> dget s2 (raw_factr_stream_name side) = Some jp
              \<and> dget s2 (factr_stream_name side) = Some (q @ [normalize_gripper c (last jp)])))"
    using Cons.IH[OF obs(4) _ Cons.prems(3) _ ready, of s1] Cons.prems(2,4) by auto
  have fresh: "side \<notin> set (dkeys sds)" using Cons.prems(2) by (simp add: p)
  have keys': "fst ` set obs' \<subseteq> set (dkeys sds)" "\<forall>x \<in> set obs'. plain (fst x)"
    using obs_for_keys[OF obs(4)] by auto
  note own = IH(4)[OF obs(2) fresh]
  have mine: "case lo_joints ob of
            Inl e \<Rightarrow> dget s2 (factr_stream_name side) = dget sample (factr_stream_name side)
          | Inr jp \<Rightarrow> (\<exists>q. convert_factr_to_rizon c jp = Inr q \<and> dget s2 (raw_factr_stream_name side) = Some jp
              \<and> dget s2 (factr_stream_name side) = Some (q @ [normalize_gripper c (last jp)]))"
    using side_part_dget(1)[OF st(4) obs(2), of sample] own st(3) by (cases "lo_joints ob") auto
  have others: "dget s1 (factr_stream_name o') = dget sample (factr_stream_name o')
      \<and> dget s1 (raw_factr_stream_name o') = dget sample (raw_factr_stream_name o')" if "plain o'" "o' \<noteq> side" for o'
    using side_part_dget(2)[OF st(4) obs(2) that, of sample] st(3) by simp
  have rest: "\<exists>c. dget (fn_conventions n) sd = Some c \<and>
         (case lo_joints ob of
            Inl e \<Rightarrow> dget s2 (factr_stream_name sd) = dget sample (factr_stream_name sd)
          | Inr jp \<Rightarrow> (\<exists>q. convert_factr_to_rizon c jp = Inr q \<and> dget s2 (raw_factr_stream_name sd) = Some jp
              \<and> dget s2 (factr_stream_name sd) = Some (q @ [normalize_gripper c (last jp)])))" if "(sd, ob) \<in> set obs'" for sd ob
  proof -
    have "plain (fst (sd, ob))" using keys'(2) that by blast
    moreover have "fst (sd, ob) \<in> set (dkeys sds)" using keys'(1) that by (metis imageI subsetD)
    ultimately have "plain sd" "sd \<noteq> side" using fresh by auto
    then show ?thesis using bspec[OF IH(5) that] others[of sd] st(2) by (auto split: sum.splits)
  qed
  have parts: "kv \<in> set sample \<or> (\<exists>(side, dof) \<in> set (p # sds). \<exists>c ob new. dget (fn_conventions n) side = Some c
          \<and> side_part c dof side ob new \<and> calls_ok dof ob \<and> kv \<in> set new)" if "kv \<in> set s2" for kv
    using bspec[OF IH(3) that] dupdate_mem[of kv new sample] st(2,3,4) c(1) obs(3) unfolding p by fastforce
  have fold: "foldR (poll_side cfg sim) obs (sample, n) = Inr (s2, n2)" by (simp add: obs(1) st(1) IH(1))
  have conv: "fn_conventions n2 = fn_conventions n" using IH(2) st(2) by simp
  have away: "dget s2 (factr_stream_name o') = dget sample (factr_stream_name o')
      \<and> dget s2 (raw_factr_stream_name o') = dget sample (raw_factr_stream_name o')"
    if "plain o'" "o' \<notin> set (dkeys (p # sds))" for o'
    using IH(4)[of o'] others[of o'] that by (simp add: p)
  have all: "\<exists>c. dget (fn_conventions n) sd = Some c \<and>
         (case lo_joints ob' of
            Inl e \<Rightarrow> dget s2 (factr_stream_name sd) = dget sample (factr_stream_name sd)
          | Inr jp \<Rightarrow> (\<exists>q. convert_factr_to_rizon c jp = Inr q \<and> dget s2 (raw_factr_stream_name sd) = Some jp
              \<and> dget s2 (factr_stream_name sd) = Some (q @ [normalize_gripper c (last jp)])))" if "(sd, ob') \<in> set obs" for sd ob'
  proof (cases "(sd, ob') \<in> set obs'")
    case True
    then show ?thesis by (rule rest)
  next
    case False
    then have "sd = side" "ob' = ob" using that obs(1) by auto
    then show ?thesis using mine c(1) by blast
  qed
  show ?case using fold conv parts away all by (intro exI[of _ s2] exI[of _ n2]) blast
qed

lemma side_part_fits:
  assumes "side_part c dof side ob new" "calls_ok dof ob" "jc_drop_trailing c = 1" "kv \<in> set new"
  shows "fits_side dof side kv"
  using assms by (cases "lo_joints ob") (auto simp: side_part_def fits_side_def calls_ok_def)

lemma declared_side:
  "factr_declare_streams cfg = Inr specs \<Longrightarrow> p \<in> set (fa_servers cfg)
   \<Longrightarrow> \<exists>sps. leader_specs cfg p = Inr sps \<and> set sps \<subseteq> set specs"
  using mapR_mem_Inr by (fastforce simp: factr_declare_streams_def)

section \<open>Properties\<close>

text \<open>
  Leader outages are isolated and the published vectors fit: on an opened node, a poll whose calls fail only in
  the documented ways never raises; a reachable leader's raw reading and its converted joints followed by the
  gripper fraction are in the sample whatever happens to the other leaders, an unreachable one
  publishes nothing; and if every convention drops exactly one trailing value, every vector
  has the width its stream was declared with. (For a validated convention that drops more than one value the
  converted vector is shorter than its stream.)
\<close>

theorem poll_publishes:
  assumes decl: "factr_declare_streams cfg = Inr specs" and opn: "factr_open_source cfg n0 = Inr n1"
    and later: "fn_conventions n = fn_conventions n1"
    and dist: "distinct (dkeys (fa_servers cfg))" and obs: "obs_for (fa_servers cfg) obs"
  shows "\<exists>sample n'. factr_poll cfg sim obs n = Inr (sample, n') \<and> fn_conventions n' = fn_conventions n
    \<and> (\<forall>(side, ob) \<in> set obs. \<exists>c. dget (fa_leaders cfg) side = Some c \<and>
         (case lo_joints ob of
            Inl e \<Rightarrow> (\<forall>m. sample = Some m \<longrightarrow> dget m (factr_stream_name side) = None)
          | Inr jp \<Rightarrow> (\<exists>m q. sample = Some m \<and> convert_factr_to_rizon c jp = Inr q
              \<and> int (length q) = int (length jp) - jc_drop_trailing c
              \<and> dget m (raw_factr_stream_name side) = Some jp
              \<and> dget m (factr_stream_name side) = Some (q @ [normalize_gripper c (last jp)]))))
    \<and> ((\<forall>(side, dof) \<in> set (fa_servers cfg). \<forall>c. dget (fa_leaders cfg) side = Some c \<longrightarrow> jc_drop_trailing c = 1) \<longrightarrow>
         (\<forall>m. sample = Some m \<longrightarrow> (\<forall>kv \<in> set m. \<exists>sp \<in> set specs. ss_name sp = fst kv \<and> ss_dim sp = int (length (snd kv)))))"
proof -
  have "node_ready cfg n1" using open_ready[OF opn dist] .
  then have ready: "node_ready cfg n" by (simp add: node_ready_def later)
  obtain m n' where f: "foldR (poll_side cfg sim) obs ([], n) = Inr (m, n')" "fn_conventions n' = fn_conventions n"
      and parts: "\<forall>kv \<in> set m. kv \<in> set [] \<or> (\<exists>(side, dof) \<in> set (fa_servers cfg). \<exists>c ob new. dget (fn_conventions n) side = Some c
          \<and> side_part c dof side ob new \<and> calls_ok dof ob \<and> kv \<in> set new)"
      and each: "\<forall>(side, ob) \<in> set obs. \<exists>c. dget (fn_conventions n) side = Some c \<and>
         (case lo_joints ob of
            Inl e \<Rightarrow> dget m (factr_stream_name side) = dget [] (factr_stream_name side)
          | Inr jp \<Rightarrow> (\<exists>q. convert_factr_to_rizon c jp = Inr q \<and> dget m (raw_factr_stream_name side) = Some jp
              \<and> dget m (factr_stream_name side) = Some (q @ [normalize_gripper c (last jp)])))"
    using poll_fold[OF obs dist dist subset_refl ready, of sim "[]"] by blast
  define sample where "sample = (if m = [] then None else Some m)"
  have run: "factr_poll cfg sim obs n = Inr (sample, n')" by (simp add: factr_poll_def f(1) sample_def)
  have same: "dget (fa_leaders cfg) side = Some c \<and> validate_convention dof c = Inr c"
    if srv: "(side, dof) \<in> set (fa_servers cfg)" "dget (fn_conventions n) side = Some c" for side dof c
    using ready that by (fastforce simp: node_ready_def)
  have widths: "\<exists>dof. (side, dof) \<in> set (fa_servers cfg) \<and> calls_ok dof ob" if "(side, ob) \<in> set obs" for side ob
    using obs that unfolding obs_for_def list_all2_conv_all_nth in_set_conv_nth by (fastforce simp: in_set_conv_nth)
  have A: "\<exists>c. dget (fa_leaders cfg) side = Some c \<and>
         (case lo_joints ob of
            Inl e \<Rightarrow> (\<forall>m. sample = Some m \<longrightarrow> dget m (factr_stream_name side) = None)
          | Inr jp \<Rightarrow> (\<exists>m q. sample = Some m \<and> convert_factr_to_rizon c jp = Inr q
              \<and> int (length q) = int (length jp) - jc_drop_trailing c
              \<and> dget m (raw_factr_stream_name side) = Some jp
              \<and> dget m (factr_stream_name side) = Some (q @ [normalize_gripper c (last jp)])))" if mem: "(side, ob) \<in> set obs" for side ob
  proof -
    obtain c where c: "dget (fn_conventions n) side = Some c" "case lo_joints ob of
            Inl e \<Rightarrow> dget m (factr_stream_name side) = dget [] (factr_stream_name side)
          | Inr jp \<Rightarrow> (\<exists>q. convert_factr_to_rizon c jp = Inr q \<and> dget m (raw_factr_stream_name side) = Some jp
              \<and> dget m (factr_stream_name side) = Some (q @ [normalize_gripper c (last jp)]))"
      using bspec[OF each mem] by auto
    obtain dof where dof: "(side, dof) \<in> set (fa_servers cfg)" "calls_ok dof ob" using widths[OF mem] by blast
    note cv = same[OF dof(1) c(1)]
    show ?thesis
    proof (cases "lo_joints ob")
      case (Inl e)
      then show ?thesis using c(2) cv by (auto simp: sample_def split: if_splits)
    next
      case (Inr jp)
      then have len: "int (length jp) = dof" using dof(2) by (simp add: calls_ok_def)
      obtain q where q: "convert_factr_to_rizon c jp = Inr q" "dget m (raw_factr_stream_name side) = Some jp"
        "dget m (factr_stream_name side) = Some (q @ [normalize_gripper c (last jp)])" using c(2) Inr by auto
      have "int (length q) = int (length jp) - jc_drop_trailing c"
        using validated_converts[OF conjunct2[OF cv] len] q(1) len by auto
      moreover have "sample = Some m" using q(2) by (auto simp: sample_def)
      ultimately show ?thesis using Inr q cv by auto
    qed
  qed
  have B: "\<exists>sp \<in> set specs. ss_name sp = fst kv \<and> ss_dim sp = int (length (snd kv))"
    if one: "\<forall>(side, dof) \<in> set (fa_servers cfg). \<forall>c. dget (fa_leaders cfg) side = Some c \<longrightarrow> jc_drop_trailing c = 1"
      and mem: "kv \<in> set m" for kv
  proof -
    obtain side dof c ob new where p: "(side, dof) \<in> set (fa_servers cfg)" "dget (fn_conventions n) side = Some c"
      "side_part c dof side ob new" "calls_ok dof ob" "kv \<in> set new" using bspec[OF parts mem] by auto
    have "jc_drop_trailing c = 1" using same[OF p(1,2)] bspec[OF one p(1)] by auto
    then have "fits_side dof side kv" by (rule side_part_fits[OF p(3,4) _ p(5)])
    then show ?thesis using declared_side[OF decl p(1)] leader_specs_fit by blast
  qed
  show ?thesis
    by (intro exI[of _ sample] exI[of _ n'] conjI run f(2))
      (use A in blast, auto simp: sample_def dest: B split: if_splits)
qed

definition demo_leader :: joint_convention where
  "demo_leader = \<lparr>jc_offsets_deg = [90], jc_sign_flip_joints = [0], jc_drop_trailing = 1,
     jc_gripper_open = Some 0, jc_gripper_closed = Some 1\<rparr>"

definition demo_factr :: factr_cfg where
  "demo_factr = \<lparr>fa_servers = [(''left'', 2), (''right'', 2)], fa_leaders = [(''left'', demo_leader), (''right'', demo_leader)],
     fa_rate_hz = 100, fa_max_age_s = 1 / 2\<rparr>"

definition demo_obs :: "real list res \<Rightarrow> leader_obs" where
  "demo_obs joints = \<lparr>lo_joints = joints, lo_telemetry = None, lo_entry = Inr True, lo_attach = Inr (),
     lo_tau = Inr \<lparr>sm_data = [[3]], sm_t_ns = [5], sm_seq = [8], sm_overrun = False\<rparr>, lo_now_ns = 6, lo_send = Inr ()\<rparr>"

theorem poll_publishes_witness:
  "\<exists>m q n'. factr_poll demo_factr False [(''left'', demo_obs (Inr [1, 1])), (''right'', demo_obs (Inl FactrError))]
       (empty_factr_node\<lparr>fn_conventions := [(''left'', demo_leader), (''right'', demo_leader)]\<rparr>) = Inr (Some m, n')
     \<and> convert_factr_to_rizon demo_leader [1, 1] = Inr q
     \<and> dget m (factr_stream_name ''left'') = Some (q @ [normalize_gripper demo_leader 1])"
proof -
  let ?n = "empty_factr_node\<lparr>fn_conventions := [(''left'', demo_leader), (''right'', demo_leader)]\<rparr>"
  let ?obs = "[(''left'', demo_obs (Inr [1, 1])), (''right'', demo_obs (Inl FactrError))]"
  have "\<exists>specs. factr_declare_streams demo_factr = Inr specs"
    by (simp add: factr_declare_streams_def demo_factr_def leader_specs_def mk_stream_spec_def ALLOWED_DTYPES_def
        TELEMETRY_VECTOR_FIELDS_def TELEMETRY_SCALAR_FIELDS_def factr_stream_name_def raw_factr_stream_name_def
        factr_telemetry_stream_name_def)
  then obtain specs where decl: "factr_declare_streams demo_factr = Inr specs" by blast
  have opn: "factr_open_source demo_factr empty_factr_node = Inr ?n"
    by (simp add: factr_open_source_def demo_factr_def open_side_def validate_convention_def demo_leader_def
        empty_factr_node_def)
  have obs: "obs_for (fa_servers demo_factr) ?obs"
    by (auto simp: obs_for_def demo_factr_def demo_obs_def calls_ok_def plain_def)
  have dist: "distinct (dkeys (fa_servers demo_factr))" by (simp add: demo_factr_def)
  have mem: "(''left'', demo_obs (Inr [1, 1])) \<in> set ?obs" "lo_joints (demo_obs (Inr [1, 1])) = Inr [1, 1]"
    "dget (fa_leaders demo_factr) ''left'' = Some demo_leader"
    by (simp_all add: demo_obs_def demo_factr_def)
  show ?thesis
    using poll_publishes[OF decl opn refl dist obs, of False] mem by fastforce
qed

text \<open>
  The teleoperation preflight judges the streams the run reads: if \<^verbatim>\<open>wait_leaders_fresh\<close> returns, then
  no leader is configured, or some round saw the stop event, or one round found the newest sample of every
  configured leader's stream young enough; it raises \<^verbatim>\<open>FactrError\<close> only in a round past the deadline in
  which some leader had no such sample; and it does not poll on past the stop event or the deadline.
\<close>

theorem leader_preflight:
  assumes "wait_leaders_fresh cfg timeout_s start ps = r" "\<forall>p \<in> set ps. \<forall>e. fresh_leader_positions (lp_latest p) cfg (lp_now_ns p) \<noteq> Inl e"
  shows "case r of
      None \<Rightarrow> (\<forall>p \<in> set ps. \<not> lp_stop p \<and> lp_now p \<le> start + timeout_s)
    | Some (Inr u) \<Rightarrow> fa_servers cfg = [] \<or> (\<exists>p \<in> set ps. lp_stop p
        \<or> (\<forall>side \<in> set (dkeys (fa_servers cfg)). \<exists>v. leader_fresh (lp_latest p) cfg (lp_now_ns p) side v))
    | Some (Inl e) \<Rightarrow> e = FactrError \<and> (\<exists>p \<in> set ps. start + timeout_s < lp_now p
        \<and> (\<exists>side \<in> set (dkeys (fa_servers cfg)). \<forall>v. \<not> leader_fresh (lp_latest p) cfg (lp_now_ns p) side v))"
proof (cases "fa_servers cfg = []")
  case True
  then show ?thesis using assms(1) by (auto simp: wait_leaders_fresh_def)
next
  case False
  then have "leaders_loop cfg (start + timeout_s) ps = r" using assms(1) by (simp add: wait_leaders_fresh_def)
  note c = leaders_loop_cases[OF this]
  show ?thesis
  proof (cases r)
    case None
    then show ?thesis using c by simp
  next
    case (Some q)
    then show ?thesis using c assms(2) by (cases q) fastforce+
  qed
qed

theorem leader_preflight_witness:
  "wait_leaders_fresh demo_factr 10 0
     [\<lparr>lp_stop = False, lp_latest = (\<lambda>n. Inl KeyError), lp_now_ns = 6, lp_now = 11\<rparr>] = Some (Inl FactrError)
   \<and> (\<exists>side \<in> {''left'', ''right''}. \<not> leader_fresh (\<lambda>n. Inl KeyError) demo_factr 6 side [])"
proof -
  let ?ps = "[\<lparr>lp_stop = False, lp_latest = (\<lambda>n. Inl KeyError), lp_now_ns = 6, lp_now = 11\<rparr>]"
  have r: "wait_leaders_fresh demo_factr 10 0 ?ps = Some (Inl FactrError)"
    by (simp add: wait_leaders_fresh_def demo_factr_def fresh_leader_positions_def)
  have "\<forall>p \<in> set ?ps. \<forall>e. fresh_leader_positions (lp_latest p) demo_factr (lp_now_ns p) \<noteq> Inl e"
    by (simp add: demo_factr_def fresh_leader_positions_def)
  then show ?thesis using leader_preflight[OF r] r by (auto simp: demo_factr_def)
qed

text \<open>
  Force feedback is latest-wins and sent once: a call sends at most one torque, namely the negated newest
  sample of the follower's external torque, only if that sample is young enough and was not the last one
  sent; and as long as the stream stays readable the same sample is not sent again by the next call.
\<close>

theorem feedback_latest_once:
  assumes run: "forward_force_feedback cfg sim side ob n = Inr n'"
  shows "(fn_sent n' = fn_sent n
      \<or> (\<exists>s tau t. \<not> sim \<and> lo_tau ob = Inr s \<and> sm_newest s = Some tau \<and> sm_newest_t_ns s = Some t
           \<and> lo_now_ns ob - t \<le> max_age_ns cfg \<and> dget (fn_last_seq n) side \<noteq> Some (last (sm_seq s))
           \<and> dget (fn_last_seq n') side = Some (last (sm_seq s)) \<and> fn_sent n' = fn_sent n @ [(side, map uminus tau)]))
    \<and> (\<forall>ob2 s s2 n2. fn_sent n' \<noteq> fn_sent n \<and> lo_tau ob = Inr s \<and> lo_tau ob2 = Inr s2
         \<and> last (sm_seq s2) = last (sm_seq s) \<and> forward_force_feedback cfg sim side ob2 n' = Inr n2
         \<longrightarrow> fn_sent n2 = fn_sent n')"
proof -
  have rd: "fn_sent m' = fn_sent m \<and> fn_last_seq m' = fn_last_seq m" if "feedback_reader side o' m = Inr (a, m')" for o' m a m'
    using that by (auto simp: feedback_reader_def split: if_splits sum.splits)
  have sent: "fn_sent m' = fn_sent m \<or> (\<exists>s tau. \<not> sim \<and> lo_tau o' = Inr s \<and> fresh_sample (max_age_ns cfg) (lo_now_ns o') s = Some tau
      \<and> dget (fn_last_seq m) side \<noteq> Some (last (sm_seq s)) \<and> dget (fn_last_seq m') side = Some (last (sm_seq s))
      \<and> fn_sent m' = fn_sent m @ [(side, map uminus tau)])" if f: "forward_force_feedback cfg sim side o' m = Inr m'" for o' m m'
  proof (cases sim)
    case True
    then show ?thesis using f by (simp add: forward_force_feedback_def)
  next
    case False
    then obtain a m1 where m1: "feedback_reader side o' m = Inr (a, m1)" using f by (auto simp: forward_force_feedback_def)
    show ?thesis
      using f rd[OF m1] False m1
      by (auto simp: forward_force_feedback_def send_feedback_def split: if_splits sum.splits option.splits)
  qed
  show ?thesis
  proof (intro conjI)
    show "fn_sent n' = fn_sent n
      \<or> (\<exists>s tau t. \<not> sim \<and> lo_tau ob = Inr s \<and> sm_newest s = Some tau \<and> sm_newest_t_ns s = Some t
           \<and> lo_now_ns ob - t \<le> max_age_ns cfg \<and> dget (fn_last_seq n) side \<noteq> Some (last (sm_seq s))
           \<and> dget (fn_last_seq n') side = Some (last (sm_seq s)) \<and> fn_sent n' = fn_sent n @ [(side, map uminus tau)])"
      using sent[OF run] unfolding fresh_sample_Some by blast
    show "\<forall>ob2 s s2 n2. fn_sent n' \<noteq> fn_sent n \<and> lo_tau ob = Inr s \<and> lo_tau ob2 = Inr s2
         \<and> last (sm_seq s2) = last (sm_seq s) \<and> forward_force_feedback cfg sim side ob2 n' = Inr n2
         \<longrightarrow> fn_sent n2 = fn_sent n'"
      using sent[OF run] sent by fastforce
  qed
qed

theorem feedback_latest_once_witness:
  "\<exists>n'. forward_force_feedback demo_factr False ''left'' (demo_obs (Inl FactrError)) empty_factr_node = Inr n'
     \<and> fn_sent n' = [(''left'', [-3])] \<and> dget (fn_last_seq n') ''left'' = Some 8"
proof -
  have trunc: "max_age_ns demo_factr = 500000000" by (simp add: max_age_ns_def demo_factr_def py_trunc_def)
  have "\<exists>n'. forward_force_feedback demo_factr False ''left'' (demo_obs (Inl FactrError)) empty_factr_node = Inr n'
      \<and> fn_sent n' = [(''left'', [-3])]"
    by (simp add: forward_force_feedback_def feedback_reader_def send_feedback_def demo_obs_def empty_factr_node_def
        fresh_sample_def sm_newest_def sm_newest_t_ns_def sm_n_def trunc)
  then obtain n' where n': "forward_force_feedback demo_factr False ''left'' (demo_obs (Inl FactrError)) empty_factr_node = Inr n'"
    "fn_sent n' = [(''left'', [-3])]" by blast
  have "lo_tau (demo_obs (Inl FactrError)) = Inr \<lparr>sm_data = [[3]], sm_t_ns = [5], sm_seq = [8], sm_overrun = False\<rparr>"
    "fn_sent empty_factr_node = []" by (simp_all add: demo_obs_def empty_factr_node_def)
  then have "dget (fn_last_seq n') ''left'' = Some 8" using feedback_latest_once[OF n'(1)] n'(2) by auto
  then show ?thesis using n' by blast
qed

end
