(* ===== verification/Collection.thy ===== *)
theory Collection
  imports Factr
begin

text \<open>
  Data collection: the frame builder (\<^verbatim>\<open>collection/features.py\<close>), the teleoperation and recording loop and its
  process (\<^verbatim>\<open>collection/loop.py\<close>), the operator's keys (\<^verbatim>\<open>collection/keyboard.py\<close>) and the recorder's decision to
  append, refuse or recreate a dataset (\<^verbatim>\<open>collection/recorder.py\<close>).

  The LeRobot dataset behind the recorder is not part of the program: the loop's calls of the recorder are the
  list \<open>cl_calls\<close>, and the function \<open>outcome\<close> says which of them raise, given the calls so far. What the loop
  posts to the arms goes through the brain and is also listed in \<open>cl_posted\<close>.
\<close>

section \<open>Frames and features\<close>

datatype fval = FVec "real list" | FText string | FImage "real frame"

type_synonym lr_frame = "(string, fval) dict"

record feature =
  ft_dtype :: string
  ft_shape :: "nat list"
  ft_names :: "string list"

record image_feature =
  im_key :: string
  im_stream :: string
  im_cam :: camera_cfg
  im_view :: string
  im_shape :: "nat list"

record frame_builder =
  fb_dof :: "(string, nat) dict"
  fb_instruction :: string
  fb_state_signals :: "string list"
  fb_video :: bool
  fb_layout :: dfc_layout
  fb_images :: "image_feature list"

definition camera_images :: "string \<times> camera_cfg \<Rightarrow> image_feature list res" where
  "camera_images nc =
     (case nc of (name, cam) \<Rightarrow>
      let rgb = filter (\<lambda>v. v \<in> set RGB_VIEWS) (cam_views cam) in
      mapR (\<lambda>view. rbind (view_shape cam view) (\<lambda>sh.
        Inr \<lparr>im_key = ''observation.images.'' @ name @ (if length rgb = 1 then '''' else ''_'' @ view),
             im_stream = camera_stream_name name view, im_cam = cam, im_view = view, im_shape = sh\<rparr>)) rgb)"

definition mk_frame_builder ::
    "(string, arm_cfg) dict \<Rightarrow> (string, nat) dict \<Rightarrow> string list \<Rightarrow> (string, camera_cfg) dict \<Rightarrow> string
     \<Rightarrow> string list \<Rightarrow> bool \<Rightarrow> frame_builder res" where
  "mk_frame_builder arms dofs teleop_sides cameras instruction state_signals video =
     rbind (mk_layout arms state_signals teleop_sides) (\<lambda>ly.
     rbind (mapR camera_images cameras) (\<lambda>ims.
     Inr \<lparr>fb_dof = dofs, fb_instruction = instruction, fb_state_signals = state_signals, fb_video = video,
          fb_layout = ly, fb_images = concat ims\<rparr>))"

definition factr_streams :: "frame_builder \<Rightarrow> string list" where
  "factr_streams fb =
     concat (map (\<lambda>side. [factr_stream_name side, raw_factr_stream_name side]) (ly_sides (fb_layout fb)))"

definition fb_stream_names :: "frame_builder \<Rightarrow> string list" where
  "fb_stream_names fb = state_stream_names (fb_layout fb) @ factr_streams fb @ map im_stream (fb_images fb)"

definition has_sample :: "(string, real samples) dict \<Rightarrow> string \<Rightarrow> bool" where
  "has_sample obs name \<longleftrightarrow> (case dget obs name of None \<Rightarrow> False | Some s \<Rightarrow> sm_newest s \<noteq> None)"

definition missing_streams :: "frame_builder \<Rightarrow> (string, real samples) dict \<Rightarrow> string list" where
  "missing_streams fb obs = filter (\<lambda>n. \<not> has_sample obs n) (fb_stream_names fb)"

definition factr_key :: "string \<Rightarrow> string" where "factr_key side = ''observation.factr.'' @ side"
definition factr_raw_key :: "string \<Rightarrow> string" where "factr_raw_key side = ''observation.factr_raw.'' @ side"

definition factr_feature :: "frame_builder \<Rightarrow> string \<Rightarrow> (string, feature) dict \<Rightarrow> (string, feature) dict res" where
  "factr_feature fb side feats =
     rbind (ditem (fb_dof fb) side) (\<lambda>dof.
     let ft = \<lparr>ft_dtype = ''float32'', ft_shape = [dof + 1],
               ft_names = map (\<lambda>j. side @ ''.joint.'' @ nat_str j) [0..<dof] @ [side @ ''.gripper'']\<rparr>
     in Inr (dput (factr_raw_key side) ft (dput (factr_key side) ft feats)))"

definition image_feature_of :: "frame_builder \<Rightarrow> image_feature \<Rightarrow> feature" where
  "image_feature_of fb im =
     \<lparr>ft_dtype = (if fb_video fb then ''video'' else ''image''), ft_shape = im_shape im,
      ft_names = [''height'', ''width'', ''channels'']\<rparr>"

definition base_features :: "dfc_layout \<Rightarrow> (string, feature) dict" where
  "base_features ly =
     [(''observation.state'', \<lparr>ft_dtype = ''float32'', ft_shape = [ly_state_dim ly], ft_names = ly_state_names ly\<rparr>),
      (''action'', \<lparr>ft_dtype = ''float32'', ft_shape = [ly_action_dim ly], ft_names = ly_action_names ly\<rparr>)]"

definition fb_features :: "frame_builder \<Rightarrow> (string, feature) dict res" where
  "fb_features fb =
     rbind (foldR (factr_feature fb) (ly_sides (fb_layout fb)) (base_features (fb_layout fb))) (\<lambda>feats.
     Inr (foldl (\<lambda>d im. dput (im_key im) (image_feature_of fb im) d) feats (fb_images fb)))"

text \<open>Targets and gripper fractions from the converted leader samples.\<close>

definition leader_action ::
    "dfc_layout \<Rightarrow> (string, real list) dict \<Rightarrow> string \<Rightarrow> (string, real list) dict \<times> (string, real) dict
     \<Rightarrow> ((string, real list) dict \<times> (string, real) dict) res" where
  "leader_action ly leaders side acc =
     (case dget leaders side of
        None \<Rightarrow> Inr acc
      | Some raw \<Rightarrow> rbind (action_dof ly side) (\<lambda>dof.
          Inr (dput side (take dof raw) (fst acc), dput side (if raw = [] then 0 else last raw) (snd acc))))"

definition actions_from_leaders ::
    "frame_builder \<Rightarrow> (string, real list) dict \<Rightarrow> ((string, real list) dict \<times> (string, real) dict) res" where
  "actions_from_leaders fb leaders = foldR (leader_action (fb_layout fb) leaders) (ly_sides (fb_layout fb)) ([], [])"

section \<open>Frame assembly\<close>

text \<open>\<open>None\<close> inside the result: the tick is incomplete.\<close>

definition newest_of :: "(string, real samples) dict \<Rightarrow> string \<Rightarrow> real list option" where
  "newest_of obs name = (case dget obs name of None \<Rightarrow> None | Some s \<Rightarrow> sm_newest s)"

fun state_values ::
    "(string, real samples) dict \<Rightarrow> (string \<times> string) list \<Rightarrow> (string \<times> string, real list) dict
     \<Rightarrow> (string \<times> string, real list) dict option" where
  "state_values obs [] vals = Some vals"
| "state_values obs ((side, sig) # ks) vals =
     (case newest_of obs (side @ ''/'' @ sig) of
        None \<Rightarrow> None
      | Some v \<Rightarrow> state_values obs ks (dput (side, sig) v vals))"

fun add_factr :: "(string, real samples) dict \<Rightarrow> string list \<Rightarrow> lr_frame \<Rightarrow> lr_frame option" where
  "add_factr obs [] fr = Some fr"
| "add_factr obs (side # sides) fr =
     (case (newest_of obs (factr_stream_name side), newest_of obs (raw_factr_stream_name side)) of
        (Some c, Some r) \<Rightarrow> add_factr obs sides (dput (factr_raw_key side) (FVec r) (dput (factr_key side) (FVec c) fr))
      | _ \<Rightarrow> None)"

fun add_images :: "(string, real samples) dict \<Rightarrow> image_feature list \<Rightarrow> lr_frame \<Rightarrow> lr_frame option res" where
  "add_images obs [] fr = Inr (Some fr)"
| "add_images obs (im # ims) fr =
     (case newest_of obs (im_stream im) of
        None \<Rightarrow> Inr None
      | Some v \<Rightarrow> rbind (reshape_frame v (im_cam im) (im_view im)) (\<lambda>img. add_images obs ims (dput (im_key im) (FImage img) fr)))"

definition base_frame :: "real list \<Rightarrow> real list \<Rightarrow> string \<Rightarrow> lr_frame" where
  "base_frame st act instruction =
     [(''observation.state'', FVec st), (''action'', FVec act), (''task'', FText instruction)]"

definition build ::
    "frame_builder \<Rightarrow> (string, real samples) dict \<Rightarrow> (string, real list) dict \<Rightarrow> (string, real) dict \<Rightarrow> lr_frame option res" where
  "build fb obs q_d gripper =
     (let ly = fb_layout fb in
      case state_values obs (List.product (ly_state_sides ly) (fb_state_signals fb)) [] of
        None \<Rightarrow> Inr None
      | Some vals \<Rightarrow>
          rbind (pack_state ly vals) (\<lambda>st.
          if \<not> list_all (\<lambda>side. dget q_d side \<noteq> None) (ly_sides ly) then Inr None
          else rbind (layout_pack_action ly q_d gripper) (\<lambda>act.
            case add_factr obs (ly_sides ly) (base_frame st act (fb_instruction fb)) of
              None \<Rightarrow> Inr None
            | Some fr \<Rightarrow> add_images obs (fb_images fb) fr)))"

section \<open>The loop\<close>

datatype key_event = END | DISCARD | STOPK

definition KEYMAP :: "char \<Rightarrow> key_event option" where
  "KEYMAP c =
     (if c \<in> {CHR 0x0A, CHR 0x0D, CHR '' ''} then Some END
      else if c \<in> {CHR ''r'', CHR ''R''} then Some DISCARD
      else if c \<in> {CHR ''q'', CHR ''Q'', CHR 0x1B} then Some STOPK
      else None)"

definition keys_poll :: "string \<Rightarrow> key_event list" where
  "keys_poll typed = List.map_filter KEYMAP typed"

datatype rec_call = AddFrame lr_frame | SaveEpisode | DiscardEpisode | Finalize

record loop_state =
  cl_brain :: brain_state
  cl_last_qd :: "(string, real list) dict"
  cl_last_grip :: "(string, real) dict"
  cl_missing :: "string list"
  cl_done :: nat
  cl_calls :: "(rec_call \<times> bool) list"
  cl_posted :: "(string \<times> real list) list"

definition emit :: "((rec_call \<times> bool) list \<Rightarrow> rec_call \<Rightarrow> unit res) \<Rightarrow> rec_call \<Rightarrow> loop_state \<Rightarrow> unit res \<times> loop_state" where
  "emit outcome c st =
     (let r = outcome (cl_calls st) c in (r, st\<lparr>cl_calls := cl_calls st @ [(c, \<exists>u. r = Inr u)]\<rparr>))"

text \<open>Every recorded side gets a target: this tick's, the last one, or zeros.\<close>

record targets =
  tg_qd :: "(string, real list) dict"
  tg_grip :: "(string, real) dict"
  tg_last_qd :: "(string, real list) dict"
  tg_last_grip :: "(string, real) dict"

definition fill_side :: "dfc_layout \<Rightarrow> string \<Rightarrow> targets \<Rightarrow> targets res" where
  "fill_side ly side tg =
     (case dget (tg_qd tg) side of
        Some q \<Rightarrow> rbind (ditem (tg_grip tg) side) (\<lambda>g.
          Inr (tg\<lparr>tg_last_qd := dput side q (tg_last_qd tg), tg_last_grip := dput side g (tg_last_grip tg)\<rparr>))
      | None \<Rightarrow> rbind (action_dof ly side) (\<lambda>dof.
          Inr (tg\<lparr>tg_qd := dput side (case dget (tg_last_qd tg) side of Some q \<Rightarrow> q | None \<Rightarrow> replicate dof 0) (tg_qd tg),
                  tg_grip := dput side (case dget (tg_last_grip tg) side of Some g \<Rightarrow> g | None \<Rightarrow> 0) (tg_grip tg)\<rparr>)))"

text \<open>An arm whose side has produced a leader sample is commanded; the others are left alone.\<close>

definition command_side ::
    "targets \<Rightarrow> int \<Rightarrow> string \<times> teleop_arm \<Rightarrow> loop_state \<Rightarrow> unit res \<times> loop_state" where
  "command_side tg now_ns p st =
     (case p of (side, arm) \<Rightarrow>
      if dget (tg_last_qd tg) side = None then (Inr (), st)
      else
        let posted =
          (if ct_kind (ta_control arm) = ''qpos''
           then case rbind (ditem (tg_qd tg) side) (\<lambda>q.
                      pack_streamed (ta_control arm) [(''q_d'', q), (''dq_d'', replicate (length q) 0)]) of
                  Inl e \<Rightarrow> (Inl e, st)
                | Inr sp \<Rightarrow>
                    (case command side sp now_ns (cl_brain st) of
                       (Inl e, b) \<Rightarrow> (Inl e, st\<lparr>cl_brain := b\<rparr>)
                     | (Inr u, b) \<Rightarrow> (Inr (), st\<lparr>cl_brain := b, cl_posted := cl_posted st @ [(side, sp)]\<rparr>))
           else (Inr (), st))
        in case posted of
          (Inl e, st1) \<Rightarrow> (Inl e, st1)
        | (Inr u, st1) \<Rightarrow>
            (case ditem (tg_grip tg) side of
               Inl e \<Rightarrow> (Inl e, st1)
             | Inr g \<Rightarrow> (case command_gripper side g now_ns (cl_brain st1) of (r, b) \<Rightarrow> (r, st1\<lparr>cl_brain := b\<rparr>))))"

text \<open>What one tick reads: the fresh leaders, the clock, and the snapshot of the streams.\<close>

record tick_obs =
  tk_leaders :: "(string, real list) dict res"
  tk_now_ns :: int
  tk_observation :: "(string, real samples) dict res"

definition start_targets :: "(string, real list) dict \<times> (string, real) dict \<Rightarrow> loop_state \<Rightarrow> targets" where
  "start_targets acts st = \<lparr>tg_qd = fst acts, tg_grip = snd acts, tg_last_qd = cl_last_qd st, tg_last_grip = cl_last_grip st\<rparr>"

definition tick_targets :: "frame_builder \<Rightarrow> tick_obs \<Rightarrow> loop_state \<Rightarrow> targets res" where
  "tick_targets fb ob st =
     rbind (tk_leaders ob) (\<lambda>leaders.
     rbind (actions_from_leaders fb leaders) (\<lambda>acts.
     foldR (fill_side (fb_layout fb)) (ly_sides (fb_layout fb)) (start_targets acts st)))"

definition record_tick ::
    "((rec_call \<times> bool) list \<Rightarrow> rec_call \<Rightarrow> unit res) \<Rightarrow> frame_builder \<Rightarrow> tick_obs \<Rightarrow> targets \<Rightarrow> loop_state \<Rightarrow> bool res \<times> loop_state" where
  "record_tick outcome fb ob tg st =
     (case tk_observation ob of
        Inl e \<Rightarrow> (Inl e, st)
      | Inr obs \<Rightarrow>
          (case build fb obs (tg_qd tg) (tg_grip tg) of
             Inl e \<Rightarrow> (Inl e, st)
           | Inr None \<Rightarrow> (Inr False, st\<lparr>cl_missing := missing_streams fb obs\<rparr>)
           | Inr (Some fr) \<Rightarrow>
               (case emit outcome (AddFrame fr) st of
                  (Inl e, st') \<Rightarrow> (Inl e, st')
                | (Inr u, st') \<Rightarrow> (Inr True, st'))))"

definition coll_tick ::
    "((rec_call \<times> bool) list \<Rightarrow> rec_call \<Rightarrow> unit res) \<Rightarrow> frame_builder \<Rightarrow> (string, teleop_arm) dict \<Rightarrow> tick_obs
     \<Rightarrow> loop_state \<Rightarrow> bool res \<times> loop_state" where
  "coll_tick outcome fb command_arms ob st =
     (case tick_targets fb ob st of
        Inl e \<Rightarrow> (Inl e, st)
      | Inr tg \<Rightarrow>
          (case foldE (command_side tg (tk_now_ns ob)) command_arms
                  (st\<lparr>cl_last_qd := tg_last_qd tg, cl_last_grip := tg_last_grip tg\<rparr>) of
             (Inl e, st1) \<Rightarrow> (Inl e, st1)
           | (Inr u, st1) \<Rightarrow> record_tick outcome fb ob tg st1))"

record run_tick =
  rt_stop :: bool
  rt_obs :: tick_obs
  rt_events :: "key_event list"

text \<open>The locals of \<open>run\<close> beside the loop object: frames in the episode and the operator's stop request.\<close>

type_synonym run_state = "nat \<times> bool \<times> loop_state"

definition save_frames ::
    "((rec_call \<times> bool) list \<Rightarrow> rec_call \<Rightarrow> unit res) \<Rightarrow> run_state \<Rightarrow> unit res \<times> run_state" where
  "save_frames outcome rs =
     (case rs of (frames, stop, st) \<Rightarrow>
      if frames = 0 then (Inr (), rs)
      else case emit outcome SaveEpisode st of
        (Inl e, st') \<Rightarrow> (Inl e, (frames, stop, st'))
      | (Inr u, st') \<Rightarrow> (Inr (), (0, stop, st'\<lparr>cl_done := cl_done st' + 1\<rparr>)))"

definition handle_event ::
    "((rec_call \<times> bool) list \<Rightarrow> rec_call \<Rightarrow> unit res) \<Rightarrow> key_event \<Rightarrow> run_state \<Rightarrow> unit res \<times> run_state" where
  "handle_event outcome ev rs =
     (case rs of (frames, stop, st) \<Rightarrow>
      case ev of
        END \<Rightarrow> save_frames outcome rs
      | DISCARD \<Rightarrow> (case emit outcome DiscardEpisode st of
            (Inl e, st') \<Rightarrow> (Inl e, (frames, stop, st'))
          | (Inr u, st') \<Rightarrow> (Inr (), (0, stop, st')))
      | STOPK \<Rightarrow> (Inr (), (frames, True, st)))"

definition run_tick_body ::
    "((rec_call \<times> bool) list \<Rightarrow> rec_call \<Rightarrow> unit res) \<Rightarrow> frame_builder \<Rightarrow> (string, teleop_arm) dict \<Rightarrow> run_tick
     \<Rightarrow> run_state \<Rightarrow> unit res \<times> run_state" where
  "run_tick_body outcome fb arms t rs =
     (case rs of (frames, stop, st) \<Rightarrow>
      case coll_tick outcome fb arms (rt_obs t) st of
        (Inl e, st') \<Rightarrow> (Inl e, (frames, stop, st'))
      | (Inr recorded, st') \<Rightarrow>
          foldE (handle_event outcome) (rt_events t) ((if recorded then frames + 1 else frames), stop, st'))"

fun coll_loop ::
    "((rec_call \<times> bool) list \<Rightarrow> rec_call \<Rightarrow> unit res) \<Rightarrow> frame_builder \<Rightarrow> (string, teleop_arm) dict \<Rightarrow> nat \<Rightarrow> run_tick list
     \<Rightarrow> run_state \<Rightarrow> (unit res \<times> run_state) option" where
  "coll_loop outcome fb arms num ts (frames, stop, st) =
     (if stop \<or> num \<le> cl_done st then Some (Inr (), (frames, stop, st))
      else case ts of
        [] \<Rightarrow> None
      | t # ts' \<Rightarrow>
          if rt_stop t then Some (Inr (), (frames, stop, st))
          else (case run_tick_body outcome fb arms t (frames, stop, st) of
            (Inl e, rs) \<Rightarrow> Some (Inl e, rs)
          | (Inr u, rs) \<Rightarrow> coll_loop outcome fb arms num ts' rs))"

declare coll_loop.simps [simp del]

definition coll_finish ::
    "((rec_call \<times> bool) list \<Rightarrow> rec_call \<Rightarrow> unit res) \<Rightarrow> bool \<Rightarrow> run_state \<Rightarrow> unit res \<times> run_state" where
  "coll_finish outcome operator_paced rs =
     (let ended =
        (if \<not> operator_paced then save_frames outcome rs
         else case rs of (frames, stop, st) \<Rightarrow>
           if frames = 0 then (Inr (), rs)
           else case emit outcome DiscardEpisode st of (r, st') \<Rightarrow> (r, (frames, stop, st')))
      in case ended of
        (Inl e, rs') \<Rightarrow> (Inl e, rs')
      | (Inr u, (frames, stop, st)) \<Rightarrow> (case emit outcome Finalize st of (r, st') \<Rightarrow> (r, (frames, stop, st'))))"

text \<open>\<open>num_episodes\<close> is at least 1; without a keyboard no tick has events.\<close>

definition coll_run ::
    "((rec_call \<times> bool) list \<Rightarrow> rec_call \<Rightarrow> unit res) \<Rightarrow> frame_builder \<Rightarrow> (string, teleop_arm) dict \<Rightarrow> int \<Rightarrow> bool
     \<Rightarrow> run_tick list \<Rightarrow> loop_state \<Rightarrow> (unit res \<times> loop_state) option" where
  "coll_run outcome fb arms num_episodes operator_paced ts st =
     (let evs = (if operator_paced then ts else map (\<lambda>t. t\<lparr>rt_events := []\<rparr>) ts) in
      case coll_loop outcome fb arms (nat (max 1 num_episodes)) evs (0, False, st) of
        None \<Rightarrow> None
      | Some (r, rs) \<Rightarrow>
          (case coll_finish outcome operator_paced rs of
             (Inl e, (f, s, st')) \<Rightarrow> Some (Inl e, st')
           | (Inr u, (f, s, st')) \<Rightarrow> Some (r, st')))"

section \<open>Opening the dataset\<close>

record disk_feature =
  df_shape :: "int list"
  df_names :: "string list"

text \<open>The directory a recording goes to: \<open>meta/\<close>, \<open>meta/info.json\<close> (absent, unreadable, or decoded) and \<open>meta/tasks.parquet\<close>.\<close>

datatype info_file = NoInfo | BadInfo | Info int "(string, disk_feature) dict"

record dataset_dir =
  dd_meta :: bool
  dd_info :: info_file
  dd_tasks :: bool

definition disk_features :: "dataset_dir \<Rightarrow> (string, disk_feature) dict" where
  "disk_features d = (case dd_info d of Info episodes feats \<Rightarrow> feats | _ \<Rightarrow> [])"

definition resumable :: "dataset_dir \<Rightarrow> bool" where
  "resumable d =
     (case dd_info d of
        NoInfo \<Rightarrow> False
      | BadInfo \<Rightarrow> False
      | Info episodes feats \<Rightarrow> dd_tasks d \<and> episodes > 0)"

datatype schema_diff = NotOnDisk string | ShapeDiffers string | NamesDiffer string | NotProduced string

definition feature_diff :: "(string, disk_feature) dict \<Rightarrow> string \<times> feature \<Rightarrow> schema_diff list" where
  "feature_diff existing p =
     (case p of (key, spec) \<Rightarrow>
      case dget existing key of
        None \<Rightarrow> [NotOnDisk key]
      | Some have1 \<Rightarrow>
          if df_shape have1 \<noteq> map int (ft_shape spec) then [ShapeDiffers key]
          else if df_names have1 \<noteq> [] \<and> ft_names spec \<noteq> [] \<and> df_names have1 \<noteq> ft_names spec then [NamesDiffer key]
          else [])"

definition is_observation :: "string \<Rightarrow> bool" where
  "is_observation key \<longleftrightarrow> take 12 key = ''observation.''"

definition schema_mismatches :: "(string, disk_feature) dict \<Rightarrow> (string, feature) dict \<Rightarrow> schema_diff list" where
  "schema_mismatches existing expected =
     concat (map (feature_diff existing) expected)
     @ map NotProduced (filter (\<lambda>k. is_observation k \<and> dget expected k = None) (dkeys existing))"

datatype open_action = ResumeDataset | CreateDataset bool

definition recorder_open :: "bool \<Rightarrow> bool \<Rightarrow> dataset_dir \<Rightarrow> (string, feature) dict \<Rightarrow> open_action res" where
  "recorder_open lerobot_installed resume d features =
     (if \<not> lerobot_installed then Inl RecorderUnavailable
      else let whole = dd_meta d \<and> resumable d in
        if resume \<and> whole
        then if schema_mismatches (disk_features d) features \<noteq> [] then Inl RecorderUnavailable else Inr ResumeDataset
        else if whole then Inl RecorderUnavailable
        else Inr (CreateDataset (dd_meta d)))"

section \<open>The collection process\<close>

record coll_world =
  cw_timeout :: real
  cw_attach_start :: real
  cw_attach :: "real poll list"
  cw_leader_start :: real
  cw_leaders :: "leader_poll list"
  cw_io :: "string \<Rightarrow> leaf \<Rightarrow> io_outcome"
  cw_run_id :: string
  cw_pid :: int
  cw_lerobot :: bool
  cw_resume :: bool
  cw_dir :: dataset_dir
  cw_outcome :: "(rec_call \<times> bool) list \<Rightarrow> rec_call \<Rightarrow> unit res"
  cw_num_episodes :: int
  cw_paced :: bool
  cw_ticks :: "run_tick list"
  cw_stop_ns :: int

definition fresh_loop_state :: "brain_state \<Rightarrow> loop_state" where
  "fresh_loop_state bs = \<lparr>cl_brain = bs, cl_last_qd = [], cl_last_grip = [], cl_missing = [], cl_done = 0, cl_calls = [], cl_posted = []\<rparr>"

text \<open>
  From the open channels on: the recorder is constructed outside the \<open>try\<close> whose \<open>finally\<close> stops the arms and
  closes the brain.
\<close>

definition coll_record ::
    "frame_builder \<Rightarrow> (string, teleop_arm) dict \<Rightarrow> coll_world \<Rightarrow> brain_state \<Rightarrow> (unit res \<times> brain_state) option" where
  "coll_record fb arms cw bs =
     (case rbind (fb_features fb) (recorder_open (cw_lerobot cw) (cw_resume cw) (cw_dir cw)) of
        Inl e \<Rightarrow> Some (Inl e, bs)
      | Inr act \<Rightarrow>
          map_option (\<lambda>(r, st). (r, brain_close (stop_arms (cw_stop_ns cw) (cl_brain st))))
            (coll_run (cw_outcome cw) fb (filter (\<lambda>(s, a). ta_control_enabled a) arms) (cw_num_episodes cw) (cw_paced cw)
               (cw_ticks cw) (fresh_loop_state bs)))"

definition coll_node_run ::
    "frame_builder \<Rightarrow> (string, teleop_arm) dict \<Rightarrow> factr_cfg \<Rightarrow> coll_world \<Rightarrow> brain_state \<Rightarrow> (unit res \<times> brain_state) option" where
  "coll_node_run fb arms fcfg cw bs =
     (let subscribe = fb_stream_names fb @ filter (\<lambda>n. n \<notin> set (fb_stream_names fb)) (leader_stream_names fcfg) in
      case brain_attach subscribe (cw_timeout cw) (cw_attach_start cw) (cw_attach cw) bs of
        None \<Rightarrow> None
      | Some (Inl e, b1) \<Rightarrow> if e = AttachAborted then Some (Inr (), brain_close b1) else Some (Inl e, b1)
      | Some (Inr u, b1) \<Rightarrow>
          (case wait_leaders_fresh fcfg (cw_timeout cw) (cw_leader_start cw) (cw_leaders cw) of
             None \<Rightarrow> None
           | Some (Inl e) \<Rightarrow> if e = FactrError then Some (Inl e, brain_close b1) else Some (Inl e, b1)
           | Some (Inr u) \<Rightarrow>
               (case specs_by_side arms of
                  Inl e \<Rightarrow> Some (Inl e, b1)
                | Inr specs \<Rightarrow>
                    (case open_control (cw_io cw) (cw_run_id cw) (cw_pid cw) specs b1 of
                       (Inl e, b2) \<Rightarrow> Some (Inl e, b2)
                     | (Inr u, b2) \<Rightarrow> coll_record fb arms cw b2))))"

section \<open>Held targets\<close>

definition dof_of :: "dfc_layout \<Rightarrow> string \<Rightarrow> nat" where
  "dof_of ly side = (case action_dof ly side of Inr d \<Rightarrow> d | Inl e \<Rightarrow> 0)"

text \<open>The newest leader sample of a side among those the ticks read.\<close>

definition sees :: "tick_obs \<Rightarrow> string \<Rightarrow> real list option" where
  "sees ob side = (case tk_leaders ob of Inl e \<Rightarrow> None | Inr l \<Rightarrow> dget l side)"

definition held :: "tick_obs list \<Rightarrow> string \<Rightarrow> real list option" where
  "held obs side = foldl (\<lambda>h ob. case sees ob side of None \<Rightarrow> h | Some raw \<Rightarrow> Some raw) None obs"

lemma held_snoc: "held (obs @ [ob]) side = (case sees ob side of None \<Rightarrow> held obs side | Some raw \<Rightarrow> Some raw)"
  by (cases "sees ob side") (simp_all add: held_def)

definition last_or_zero :: "real list \<Rightarrow> real" where
  "last_or_zero raw = (if raw = [] then 0 else last raw)"

lemma leader_action_fold:
  assumes "foldR (leader_action ly leaders) sides (a, b) = Inr (a', b')"
  shows "dget a' side = (if side \<in> set sides \<and> dget leaders side \<noteq> None
            then Some (take (dof_of ly side) (the (dget leaders side))) else dget a side)
    \<and> dget b' side = (if side \<in> set sides \<and> dget leaders side \<noteq> None
            then Some (last_or_zero (the (dget leaders side))) else dget b side)"
  using assms
proof (induction sides arbitrary: a b)
  case (Cons s sides)
  show ?case
  proof (cases "dget leaders s")
    case None
    then have "leader_action ly leaders s (a, b) = Inr (a, b)" by (simp add: leader_action_def)
    then have "foldR (leader_action ly leaders) sides (a, b) = Inr (a', b')" using Cons.prems by simp
    then show ?thesis using Cons.IH None by auto
  next
    case (Some raw)
    have "leader_action ly leaders s (a, b)
        = rbind (action_dof ly s) (\<lambda>d. Inr (dput s (take d raw) a, dput s (last_or_zero raw) b))"
      by (simp add: leader_action_def last_or_zero_def Some)
    then obtain d where d: "action_dof ly s = Inr d"
        "foldR (leader_action ly leaders) sides (dput s (take d raw) a, dput s (last_or_zero raw) b) = Inr (a', b')"
      using Cons.prems by auto
    then show ?thesis using Cons.IH[OF d(2)] Some by (auto simp: dof_of_def)
  qed
qed simp

lemma fill_side_other:
  "fill_side ly s tg = Inr tg' \<Longrightarrow> side \<noteq> s \<Longrightarrow>
   dget (tg_qd tg') side = dget (tg_qd tg) side \<and> dget (tg_grip tg') side = dget (tg_grip tg) side
   \<and> dget (tg_last_qd tg') side = dget (tg_last_qd tg) side \<and> dget (tg_last_grip tg') side = dget (tg_last_grip tg) side"
  by (auto simp: fill_side_def split: option.splits)

lemma fill_side_same:
  "fill_side ly s tg = Inr tg' \<Longrightarrow>
   dget (tg_last_qd tg') s = (case dget (tg_qd tg) s of Some q \<Rightarrow> Some q | None \<Rightarrow> dget (tg_last_qd tg) s)
   \<and> dget (tg_qd tg') s = Some (case dget (tg_last_qd tg') s of Some q \<Rightarrow> q | None \<Rightarrow> replicate (dof_of ly s) 0)"
  by (cases "dget (tg_qd tg) s"; cases "dget (tg_last_qd tg) s") (auto simp: fill_side_def dof_of_def)

lemma fill_fold:
  assumes "foldR (fill_side ly) sides tg = Inr tg'" "distinct sides"
  shows "dget (tg_last_qd tg') side = (if side \<in> set sides then
            (case dget (tg_qd tg) side of Some q \<Rightarrow> Some q | None \<Rightarrow> dget (tg_last_qd tg) side) else dget (tg_last_qd tg) side)
    \<and> (side \<in> set sides \<longrightarrow> dget (tg_qd tg') side
         = Some (case dget (tg_last_qd tg') side of Some q \<Rightarrow> q | None \<Rightarrow> replicate (dof_of ly side) 0))
    \<and> (side \<notin> set sides \<longrightarrow> dget (tg_qd tg') side = dget (tg_qd tg) side)"
  using assms
proof (induction sides arbitrary: tg)
  case (Cons s sides)
  obtain t1 where t1: "fill_side ly s tg = Inr t1" "foldR (fill_side ly) sides t1 = Inr tg'" using Cons.prems(1) by auto
  note IH = Cons.IH[OF t1(2)] and same = fill_side_same[OF t1(1)]
  show ?case
  proof (cases "side = s")
    case True
    then show ?thesis using IH same Cons.prems(2) by auto
  next
    case False
    then show ?thesis using IH fill_side_other[OF t1(1) False] Cons.prems(2)
      by (cases "dget (tg_qd tg) side") auto
  qed
qed simp

lemma tick_targets_spec:
  assumes t: "tick_targets fb ob st = Inr tg" and d: "distinct (ly_sides (fb_layout fb))"
  shows "dget (tg_last_qd tg) side = (if side \<in> set (ly_sides (fb_layout fb)) \<and> sees ob side \<noteq> None
            then Some (take (dof_of (fb_layout fb) side) (the (sees ob side))) else dget (cl_last_qd st) side)"
    and "side \<in> set (ly_sides (fb_layout fb)) \<Longrightarrow> dget (tg_qd tg) side
         = Some (case dget (tg_last_qd tg) side of Some q \<Rightarrow> q | None \<Rightarrow> replicate (dof_of (fb_layout fb) side) 0)"
proof -
  obtain leaders qd gr where l: "tk_leaders ob = Inr leaders"
      "foldR (leader_action (fb_layout fb) leaders) (ly_sides (fb_layout fb)) ([], []) = Inr (qd, gr)"
      "foldR (fill_side (fb_layout fb)) (ly_sides (fb_layout fb)) (start_targets (qd, gr) st) = Inr tg"
    using t by (auto simp: tick_targets_def actions_from_leaders_def)
  note a = leader_action_fold[OF l(2), of side] and f = fill_fold[OF l(3) d, of side]
  have sees: "sees ob side = dget leaders side" by (simp add: sees_def l(1))
  show "dget (tg_last_qd tg) side = (if side \<in> set (ly_sides (fb_layout fb)) \<and> sees ob side \<noteq> None
            then Some (take (dof_of (fb_layout fb) side) (the (sees ob side))) else dget (cl_last_qd st) side)"
    using a f by (auto simp: start_targets_def sees split: option.splits if_splits)
  show "dget (tg_qd tg) side
         = Some (case dget (tg_last_qd tg) side of Some q \<Rightarrow> q | None \<Rightarrow> replicate (dof_of (fb_layout fb) side) 0)"
    if "side \<in> set (ly_sides (fb_layout fb))" using f that by blast
qed

section \<open>What a tick posts\<close>

definition setpoint_of :: "teleop_arm \<Rightarrow> real list \<Rightarrow> real list res" where
  "setpoint_of arm q = pack_streamed (ta_control arm) [(''q_d'', q), (''dq_d'', replicate (length q) 0)]"

text \<open>Posting a setpoint that packs the target of a side that has been seen.\<close>

definition posts :: "targets \<Rightarrow> (string, teleop_arm) dict \<Rightarrow> string \<times> real list \<Rightarrow> bool" where
  "posts tg arms p \<longleftrightarrow> (\<exists>arm q. (fst p, arm) \<in> set arms \<and> ct_kind (ta_control arm) = ''qpos''
     \<and> dget (tg_last_qd tg) (fst p) \<noteq> None \<and> dget (tg_qd tg) (fst p) = Some q \<and> setpoint_of arm q = Inr (snd p))"

lemma command_side_keeps:
  assumes "command_side tg now p st = (r, st')"
  shows "cl_last_qd st' = cl_last_qd st \<and> cl_calls st' = cl_calls st \<and> cl_done st' = cl_done st
    \<and> (\<exists>new. cl_posted st' = cl_posted st @ new \<and> (\<forall>x \<in> set new. posts tg [p] x))"
  using assms
  by (auto simp: command_side_def Let_def posts_def setpoint_of_def ditem_Inr
      split: if_splits sum.splits prod.splits)

lemma commands_keep:
  assumes "foldE (command_side tg now) arms st = (r, st')"
  shows "cl_last_qd st' = cl_last_qd st \<and> cl_calls st' = cl_calls st \<and> cl_done st' = cl_done st
    \<and> (\<exists>new. cl_posted st' = cl_posted st @ new \<and> (\<forall>x \<in> set new. posts tg arms x))"
proof -
  let ?P = "\<lambda>s. cl_last_qd s = cl_last_qd st \<and> cl_calls s = cl_calls st \<and> cl_done s = cl_done st
    \<and> (\<exists>new. cl_posted s = cl_posted st @ new \<and> (\<forall>x \<in> set new. posts tg arms x))"
  have step: "?P t" if mem: "p \<in> set arms" and P: "?P s" and c: "command_side tg now p s = (q, t)" for p s q t
  proof -
    obtain old where o: "cl_posted s = cl_posted st @ old" "\<forall>x \<in> set old. posts tg arms x" using P by blast
    obtain new where n: "cl_posted t = cl_posted s @ new" "\<forall>x \<in> set new. posts tg [p] x"
      using command_side_keeps[OF c] by blast
    have "\<forall>x \<in> set new. posts tg arms x" using n(2) mem unfolding posts_def by fastforce
    then have "\<forall>x \<in> set (old @ new). posts tg arms x" using o(2) by auto
    then show ?thesis using P command_side_keeps[OF c] o(1) n(1)
      by (intro conjI exI[of _ "old @ new"]) simp_all
  qed
  have "?P st" by (intro conjI exI[of _ "[]"]) simp_all
  from assms this step show ?thesis by (rule foldE_invariant[where P = ?P])
qed

lemma record_tick_keeps:
  "record_tick outcome fb ob tg st = (r, st') \<Longrightarrow> cl_last_qd st' = cl_last_qd st \<and> cl_posted st' = cl_posted st \<and> cl_done st' = cl_done st"
  by (auto simp: record_tick_def emit_def Let_def split: sum.splits option.splits prod.splits)

lemma emit_keeps:
  "emit outcome c st = (r, st') \<Longrightarrow> cl_last_qd st' = cl_last_qd st \<and> cl_posted st' = cl_posted st \<and> cl_done st' = cl_done st"
  by (auto simp: emit_def Let_def)

definition real_target ::
    "frame_builder \<Rightarrow> (string, teleop_arm) dict \<Rightarrow> tick_obs list \<Rightarrow> string \<times> real list \<Rightarrow> bool" where
  "real_target fb arms obs p \<longleftrightarrow> (\<exists>k raw arm. k < length obs \<and> held (take (Suc k) obs) (fst p) = Some raw
     \<and> (fst p, arm) \<in> set arms \<and> ct_kind (ta_control arm) = ''qpos''
     \<and> setpoint_of arm (take (dof_of (fb_layout fb) (fst p)) raw) = Inr (snd p))"

definition holds_last :: "frame_builder \<Rightarrow> tick_obs list \<Rightarrow> loop_state \<Rightarrow> bool" where
  "holds_last fb obs st \<longleftrightarrow> (\<forall>side. dget (cl_last_qd st) side =
     (if side \<in> set (ly_sides (fb_layout fb)) then map_option (take (dof_of (fb_layout fb) side)) (held obs side) else None))"

lemma real_target_mono: "real_target fb arms obs p \<Longrightarrow> real_target fb arms (obs @ obs2) p"
proof -
  assume "real_target fb arms obs p"
  then obtain k raw arm where k: "k < length obs" "held (take (Suc k) obs) (fst p) = Some raw" "(fst p, arm) \<in> set arms"
      "ct_kind (ta_control arm) = ''qpos''" "setpoint_of arm (take (dof_of (fb_layout fb) (fst p)) raw) = Inr (snd p)"
    by (auto simp: real_target_def)
  then have "held (take (Suc k) (obs @ obs2)) (fst p) = Some raw" by simp
  then show ?thesis unfolding real_target_def using k by (intro exI[of _ k] exI[of _ raw] exI[of _ arm]) simp
qed

lemma tick_posts_real:
  assumes run: "coll_tick outcome fb arms ob st = (r, st')" and d: "distinct (ly_sides (fb_layout fb))"
    and h: "holds_last fb obs st" and p: "\<forall>p \<in> set (cl_posted st). real_target fb arms obs p"
  shows "(\<forall>p \<in> set (cl_posted st'). real_target fb arms (obs @ [ob]) p)
    \<and> ((\<exists>b. r = Inr b) \<longrightarrow> holds_last fb (obs @ [ob]) st') \<and> cl_done st' = cl_done st"
proof (cases "tick_targets fb ob st")
  case (Inl e)
  then show ?thesis using run p by (auto simp: coll_tick_def intro: real_target_mono)
next
  case (Inr tg)
  let ?ly = "fb_layout fb" and ?st0 = "st\<lparr>cl_last_qd := tg_last_qd tg, cl_last_grip := tg_last_grip tg\<rparr>"
  note spec = tick_targets_spec[OF Inr d]
  obtain q st1 where f: "foldE (command_side tg (tk_now_ns ob)) arms ?st0 = (q, st1)" by (meson surj_pair)
  note ck = commands_keep[OF f]
  have keep: "cl_last_qd st' = tg_last_qd tg \<and> cl_posted st' = cl_posted st1 \<and> cl_done st' = cl_done st"
    using run Inr f ck record_tick_keeps[of outcome fb ob tg st1]
    by (auto simp: coll_tick_def split: sum.splits)
  have now: "dget (tg_last_qd tg) side = (if side \<in> set (ly_sides ?ly)
      then map_option (take (dof_of ?ly side)) (held (obs @ [ob]) side) else None)" for side
    using spec(1)[of side] h unfolding holds_last_def by (auto simp: held_snoc split: option.splits)
  have new: "real_target fb arms (obs @ [ob]) x" if x: "posts tg arms x" for x
  proof -
    obtain arm qd where a: "(fst x, arm) \<in> set arms" "ct_kind (ta_control arm) = ''qpos''"
        "dget (tg_last_qd tg) (fst x) \<noteq> None" "dget (tg_qd tg) (fst x) = Some qd" "setpoint_of arm qd = Inr (snd x)"
      using x by (auto simp: posts_def)
    have s: "fst x \<in> set (ly_sides ?ly)" using a(3) now[of "fst x"] by (auto split: if_splits)
    obtain raw where raw: "held (obs @ [ob]) (fst x) = Some raw" "dget (tg_last_qd tg) (fst x) = Some (take (dof_of ?ly (fst x)) raw)"
      using a(3) now[of "fst x"] s by auto
    have "qd = take (dof_of ?ly (fst x)) raw" using spec(2)[OF s] raw(2) a(4) by simp
    then show ?thesis unfolding real_target_def
      using a(1,2,5) raw(1) by (intro exI[of _ "length obs"] exI[of _ raw] exI[of _ arm]) simp
  qed
  obtain posted where po: "cl_posted st1 = cl_posted st @ posted" "\<forall>x \<in> set posted. posts tg arms x" using ck by auto
  have "\<forall>x \<in> set (cl_posted st'). real_target fb arms (obs @ [ob]) x"
    using keep po new p real_target_mono by auto
  moreover have "holds_last fb (obs @ [ob]) st'" using now keep by (simp add: holds_last_def)
  ultimately show ?thesis using keep by blast
qed

lemma handle_event_keeps:
  assumes "handle_event outcome ev (f, s, st) = (r, (f', s', st'))"
  shows "cl_last_qd st' = cl_last_qd st \<and> cl_posted st' = cl_posted st"
  using assms emit_keeps
  by (cases ev) (fastforce simp: handle_event_def save_frames_def split: if_splits sum.splits prod.splits)+

lemma handle_events_keep:
  assumes "foldE (handle_event outcome) evs (f, s, st) = (r, (f', s', st'))"
  shows "cl_last_qd st' = cl_last_qd st \<and> cl_posted st' = cl_posted st"
proof -
  let ?P = "\<lambda>x :: run_state. cl_last_qd (snd (snd x)) = cl_last_qd st \<and> cl_posted (snd (snd x)) = cl_posted st"
  have "?P (f', s', st')"
    by (rule foldE_invariant[OF assms, where P = ?P]) (auto dest: handle_event_keeps)
  then show ?thesis by simp
qed

lemma coll_loop_posts:
  assumes "coll_loop outcome fb arms num ts (f, s, st) = Some (r, (f', s', st'))"
    and d: "distinct (ly_sides (fb_layout fb))"
    and "holds_last fb obs st" "\<forall>p \<in> set (cl_posted st). real_target fb arms obs p"
  shows "\<forall>p \<in> set (cl_posted st'). real_target fb arms (obs @ map rt_obs ts) p"
  using assms
proof (induction ts arbitrary: f s st obs)
  case Nil
  then show ?case by (auto simp: coll_loop.simps split: if_splits)
next
  case (Cons t ts)
  show ?case
  proof (cases "s \<or> num \<le> cl_done st \<or> rt_stop t")
    case True
    then show ?thesis using Cons.prems(1,4) by (auto simp: coll_loop.simps intro: real_target_mono split: if_splits)
  next
    case False
    obtain q st1 where tk: "coll_tick outcome fb arms (rt_obs t) st = (q, st1)" by (meson surj_pair)
    note ti = tick_posts_real[OF tk d Cons.prems(3,4)]
    have more: "obs @ map rt_obs (t # ts) = (obs @ [rt_obs t]) @ map rt_obs ts" by simp
    show ?thesis
    proof (cases q)
      case (Inl e)
      then have "st' = st1" using Cons.prems(1) False tk by (simp add: coll_loop.simps[of _ _ _ _ "t # ts"] run_tick_body_def)
      then show ?thesis unfolding more using ti real_target_mono by blast
    next
      case (Inr b)
      obtain x f2 s2 st2 where ev: "foldE (handle_event outcome) (rt_events t) ((if b then f + 1 else f), s, st1) = (x, (f2, s2, st2))"
        by (metis surj_pair)
      note hk = handle_events_keep[OF ev]
      have h2: "holds_last fb (obs @ [rt_obs t]) st2" "\<forall>p \<in> set (cl_posted st2). real_target fb arms (obs @ [rt_obs t]) p"
        using ti Inr hk by (auto simp: holds_last_def)
      show ?thesis
      proof (cases x)
        case Inl': (Inl e)
        then have "st' = st2" using Cons.prems(1) False tk Inr ev by (simp add: coll_loop.simps[of _ _ _ _ "t # ts"] run_tick_body_def)
        then show ?thesis unfolding more using h2(2) real_target_mono by blast
      next
        case (Inr u)
        then have "coll_loop outcome fb arms num ts (f2, s2, st2) = Some (r, (f', s', st'))"
          using Cons.prems(1) False tk \<open>q = Inr b\<close> ev by (simp add: coll_loop.simps[of _ _ _ _ "t # ts"] run_tick_body_def)
        then show ?thesis unfolding more by (rule Cons.IH[OF _ d h2])
      qed
    qed
  qed
qed

lemma coll_finish_posts: "coll_finish outcome paced (f, s, st) = (r, (f', s', st')) \<Longrightarrow> cl_posted st' = cl_posted st"
  using emit_keeps
  by (fastforce simp: coll_finish_def save_frames_def Let_def split: if_splits sum.splits prod.splits)

section \<open>Complete frames\<close>

lemma mk_layout_state_sides:
  assumes "mk_layout arms signals action_sides = Inr ly"
  shows "ly_state_sides ly = sorted_sides (dkeys arms)"
proof -
  let ?ss = "sorted_sides (dkeys arms)"
  let ?as = "filter (\<lambda>s. s \<in> set action_sides) ?ss"
  obtain l1 where l1: "foldR (add_state_block arms) (List.product ?ss signals) (empty_layout signals ?ss ?as) = Inr l1"
      "foldR (add_action_side arms) ?as l1 = Inr ly"
    using assms by (auto simp: mk_layout_def Let_def split: if_splits)
  have "ly_state_sides l1 = ?ss"
    by (rule foldR_invariant[OF l1(1)]) (auto simp: empty_layout_def add_state_block_def Let_def split: option.splits)
  then show ?thesis
    by (intro foldR_invariant[OF l1(2), where P = "\<lambda>l. ly_state_sides l = ?ss"]) (auto simp: add_action_side_def Let_def)
qed

lemma pack_state_length:
  assumes "tiles 0 (ly_state ly) (ly_state_dim ly)" "pack_state ly vals = Inr v"
  shows "length v = ly_state_dim ly"
proof (rule foldR_invariant[OF assms(2)[unfolded pack_state_def], where P = "\<lambda>v. length v = ly_state_dim ly"])
  fix x s t
  assume x: "x \<in> set (ly_state ly)" and s: "length s = ly_state_dim ly"
    and st: "(case x of (key, a, b) \<Rightarrow> \<lambda>st. rbind (ditem vals key) (\<lambda>x. if length x \<noteq> b - a then Inl ValueError
         else Inr (put_slice a x st))) s = Inr t"
  obtain k a b where k: "x = (k, a, b)" by (cases x) auto
  have "a \<le> b \<and> b \<le> ly_state_dim ly" using tiles_bounds[OF assms(1)] x k by blast
  then show "length t = ly_state_dim ly" using st s k by (auto split: if_splits)
qed simp

lemma pack_action_length:
  assumes ok: "action_ok ly (ly_sides ly)" and p: "layout_pack_action ly q g = Inr v"
  shows "length v = ly_action_dim ly"
proof (rule foldR_invariant[OF p[unfolded layout_pack_action_def], where P = "\<lambda>v. length v = ly_action_dim ly"])
  fix side s t
  assume x: "side \<in> set (ly_sides ly)" and s: "length s = ly_action_dim ly" and st: "pack_action_step ly q g side s = Inr t"
  obtain f a b where i: "dget (ly_primary ly) side = Some (a, b)" "a \<le> b" "b < ly_action_dim ly"
    using action_ok_at[OF ok x] by metis
  then show "length t = ly_action_dim ly" using st s by (auto simp: pack_action_step_def ditem_Inr split: if_splits)
qed simp

lemma has_sample_newest: "has_sample obs n \<longleftrightarrow> newest_of obs n \<noteq> None"
  by (simp add: has_sample_def newest_of_def split: option.splits)

lemma state_values_None:
  "state_values obs ks vals = None \<longleftrightarrow> (\<exists>(s, g) \<in> set ks. \<not> has_sample obs (stream_name s g))"
  by (induction obs ks vals rule: state_values.induct)
    (auto simp: has_sample_newest stream_name_def split: option.splits)

lemma add_factr_None:
  "add_factr obs sides fr = None \<longleftrightarrow>
     (\<exists>s \<in> set sides. \<not> has_sample obs (factr_stream_name s) \<or> \<not> has_sample obs (raw_factr_stream_name s))"
  by (induction obs sides fr rule: add_factr.induct) (auto simp: has_sample_newest split: option.splits)

lemma add_images_present:
  "add_images obs ims fr = Inr r \<Longrightarrow> r = None \<longleftrightarrow> (\<exists>im \<in> set ims. \<not> has_sample obs (im_stream im))"
  by (induction obs ims fr arbitrary: r rule: add_images.induct) (auto simp: has_sample_newest split: option.splits)

text \<open>Which streams a frame needs, for a builder made from the configuration.\<close>

definition builder_ok :: "frame_builder \<Rightarrow> bool" where
  "builder_ok fb \<longleftrightarrow> (let ly = fb_layout fb; keys = List.product (ly_state_sides ly) (fb_state_signals fb) in
     state_ok ly keys \<and> action_ok ly (ly_sides ly) \<and> distinct (ly_sides ly)
     \<and> (\<forall>im \<in> set (fb_images fb). view_shape (im_cam im) (im_view im) = Inr (im_shape im)))"

lemma camera_images_shape: "camera_images nc = Inr ims \<Longrightarrow> im \<in> set ims \<Longrightarrow> view_shape (im_cam im) (im_view im) = Inr (im_shape im)"
  by (cases nc) (auto simp: camera_images_def Let_def dest!: mapR_mem)

lemma mk_frame_builder_ok:
  assumes "mk_frame_builder arms dofs sides cams instr signals video = Inr fb" "distinct (dkeys arms)" "distinct signals"
  shows "builder_ok fb"
proof -
  obtain ly ims where l: "mk_layout arms signals sides = Inr ly" "mapR camera_images cams = Inr ims"
      "fb = \<lparr>fb_dof = dofs, fb_instruction = instr, fb_state_signals = signals, fb_video = video, fb_layout = ly, fb_images = concat ims\<rparr>"
    using assms(1) by (auto simp: mk_frame_builder_def)
  note ok = mk_layout_ok[OF l(1) assms(2,3)]
  have "\<forall>im \<in> set (concat ims). view_shape (im_cam im) (im_view im) = Inr (im_shape im)"
    using mapR_mem[OF l(2)] camera_images_shape by fastforce
  then show ?thesis using ok mk_layout_state_sides[OF l(1)] assms(2) by (simp add: builder_ok_def l(3))
qed

lemma builder_streams:
  "builder_ok fb \<Longrightarrow> fb_stream_names fb = map (\<lambda>(s, g). stream_name s g) (List.product (ly_state_sides (fb_layout fb)) (fb_state_signals fb))
     @ factr_streams fb @ map im_stream (fb_images fb)"
  by (simp add: builder_ok_def Let_def state_ok_def fb_stream_names_def)

lemma missing_iff:
  assumes "builder_ok fb"
  shows "missing_streams fb obs = [] \<longleftrightarrow>
     (\<forall>(s, g) \<in> set (List.product (ly_state_sides (fb_layout fb)) (fb_state_signals fb)). has_sample obs (stream_name s g))
   \<and> (\<forall>s \<in> set (ly_sides (fb_layout fb)). has_sample obs (factr_stream_name s) \<and> has_sample obs (raw_factr_stream_name s))
   \<and> (\<forall>im \<in> set (fb_images fb). has_sample obs (im_stream im))"
  unfolding missing_streams_def filter_empty_conv builder_streams[OF assms] factr_streams_def by auto

lemma build_present:
  assumes ok: "builder_ok fb" and b: "build fb obs q_d gr = Inr r"
    and q: "\<forall>side \<in> set (ly_sides (fb_layout fb)). dget q_d side \<noteq> None"
  shows "r = None \<longleftrightarrow> missing_streams fb obs \<noteq> []"
proof (cases "state_values obs (List.product (ly_state_sides (fb_layout fb)) (fb_state_signals fb)) []")
  case None
  then show ?thesis using b missing_iff[OF ok, of obs] state_values_None by (fastforce simp: build_def Let_def)
next
  case (Some vals)
  then have states: "\<forall>(s, g) \<in> set (List.product (ly_state_sides (fb_layout fb)) (fb_state_signals fb)). has_sample obs (stream_name s g)"
    using state_values_None[of obs _ "[]"] by (metis (mono_tags, lifting) case_prodI2 case_prod_conv option.distinct(1))
  obtain st act where sa: "pack_state (fb_layout fb) vals = Inr st" "layout_pack_action (fb_layout fb) q_d gr = Inr act"
    "(case add_factr obs (ly_sides (fb_layout fb)) (base_frame st act (fb_instruction fb)) of
              None \<Rightarrow> Inr None | Some fr \<Rightarrow> add_images obs (fb_images fb) fr) = Inr r"
    using b Some q by (auto simp: build_def Let_def list_all_iff split: if_splits)
  show ?thesis
  proof (cases "add_factr obs (ly_sides (fb_layout fb)) (base_frame st act (fb_instruction fb))")
    case None
    then show ?thesis using sa(3) missing_iff[OF ok, of obs] add_factr_None by fastforce
  next
    case (Some fr)
    then have "add_images obs (fb_images fb) fr = Inr r" using sa(3) by simp
    note im = add_images_present[OF this]
    have "\<forall>s \<in> set (ly_sides (fb_layout fb)). has_sample obs (factr_stream_name s) \<and> has_sample obs (raw_factr_stream_name s)"
      using Some add_factr_None[of obs "ly_sides (fb_layout fb)" "base_frame st act (fb_instruction fb)"] by auto
    then show ?thesis using im states missing_iff[OF ok, of obs] by blast
  qed
qed

text \<open>The value of a frame has the shape its feature declares.\<close>

fun has_shape :: "fval \<Rightarrow> nat list \<Rightarrow> bool" where
  "has_shape (FVec v) sh \<longleftrightarrow> sh = [length v]"
| "has_shape (FImage (Gray g)) sh \<longleftrightarrow> (\<exists>h w. sh = [h, w] \<and> length g = h \<and> (\<forall>r \<in> set g. length r = w))"
| "has_shape (FImage (Color g)) sh \<longleftrightarrow>
     (\<exists>h w c. sh = [h, w, c] \<and> length g = h \<and> (\<forall>r \<in> set g. length r = w \<and> (\<forall>px \<in> set r. length px = c)))"
| "has_shape (FText t) sh \<longleftrightarrow> False"

definition frame_fits :: "lr_frame \<Rightarrow> (string, feature) dict \<Rightarrow> bool" where
  "frame_fits fr feats \<longleftrightarrow> set (dkeys fr) = insert ''task'' (set (dkeys feats))
     \<and> (\<forall>k ft. dget feats k = Some ft \<longrightarrow> (\<exists>v. dget fr k = Some v \<and> has_shape v (ft_shape ft)))"

lemma frame_fits_dput:
  "frame_fits fr feats \<Longrightarrow> has_shape v (ft_shape ft) \<Longrightarrow> frame_fits (dput k v fr) (dput k ft feats)"
  unfolding frame_fits_def dkeys_dput by auto

lemma reshape_shape:
  assumes "reshape_frame v cam view = Inr img" "view_shape cam view = Inr sh"
  shows "has_shape (FImage img) sh"
proof -
  have len: "length v = prod_list sh" using assms by (auto simp: reshape_frame_def split: if_splits)
  have "(\<exists>h w. sh = [h, w]) \<or> (\<exists>h w c. sh = [h, w, c])" using assms(2) by (auto simp: view_shape_def split: if_splits)
  then show ?thesis
  proof (elim disjE exE)
    fix h w assume sh: "sh = [h, w]"
    then have "img = Gray (chunks h w v)" using assms len by (simp add: reshape_frame_def)
    then show ?thesis using sh len chunks_rows[of v h w] by (auto simp: chunks_length)
  next
    fix h w c assume sh: "sh = [h, w, c]"
    then have img: "img = Color (map (chunks w c) (chunks h (w * c) v))" using assms len by (simp add: reshape_frame_def)
    have rows: "length r = w * c" if "r \<in> set (chunks h (w * c) v)" for r
      using chunks_rows[of v h "w * c"] that len sh by (simp add: mult.assoc)
    show ?thesis using sh rows chunks_rows[of _ w c] by (auto simp: img chunks_length)
  qed
qed

text \<open>The leader streams carry the arm's joints and one gripper value.\<close>

definition factr_widths :: "frame_builder \<Rightarrow> (string, real samples) dict \<Rightarrow> bool" where
  "factr_widths fb obs \<longleftrightarrow> (\<forall>side \<in> set (ly_sides (fb_layout fb)). \<forall>n \<in> {factr_stream_name side, raw_factr_stream_name side}.
     \<forall>v d. newest_of obs n = Some v \<longrightarrow> dget (fb_dof fb) side = Some d \<longrightarrow> length v = d + 1)"

lemma add_factr_fits:
  assumes "add_factr obs sides fr = Some fr'" "foldR (factr_feature fb) sides feats = Inr feats'" "frame_fits fr feats"
    and w: "set sides \<subseteq> set (ly_sides (fb_layout fb))" "factr_widths fb obs"
  shows "frame_fits fr' feats'"
  using assms
proof (induction sides arbitrary: fr feats)
  case (Cons s sides)
  obtain c r where n: "newest_of obs (factr_stream_name s) = Some c" "newest_of obs (raw_factr_stream_name s) = Some r"
      "add_factr obs sides (dput (factr_raw_key s) (FVec r) (dput (factr_key s) (FVec c) fr)) = Some fr'"
    using Cons.prems(1) by (auto split: option.splits)
  obtain dof where dof: "dget (fb_dof fb) s = Some dof" using Cons.prems(2) by (auto simp: factr_feature_def ditem_Inr)
  let ?ft = "\<lparr>ft_dtype = ''float32'', ft_shape = [dof + 1],
               ft_names = map (\<lambda>j. s @ ''.joint.'' @ nat_str j) [0..<dof] @ [s @ ''.gripper'']\<rparr>"
  have "factr_feature fb s feats = Inr (dput (factr_raw_key s) ?ft (dput (factr_key s) ?ft feats))"
    by (simp add: factr_feature_def ditem_def dof Let_def)
  then have f: "foldR (factr_feature fb) sides (dput (factr_raw_key s) ?ft (dput (factr_key s) ?ft feats)) = Inr feats'"
    using Cons.prems(2) by simp
  have "length c = dof + 1" "length r = dof + 1"
    using Cons.prems(4,5) n(1,2) dof by (auto simp: factr_widths_def)
  then have "frame_fits (dput (factr_raw_key s) (FVec r) (dput (factr_key s) (FVec c) fr)) (dput (factr_raw_key s) ?ft (dput (factr_key s) ?ft feats))"
    by (intro frame_fits_dput Cons.prems(3)) simp_all
  then show ?case using Cons.IH[OF n(3) f] Cons.prems(4,5) by simp
qed simp

lemma add_images_fits:
  assumes "add_images obs ims fr = Inr (Some fr')" "frame_fits fr feats"
    and "\<forall>im \<in> set ims. view_shape (im_cam im) (im_view im) = Inr (im_shape im)"
  shows "frame_fits fr' (foldl (\<lambda>d im. dput (im_key im) (image_feature_of fb im) d) feats ims)"
  using assms
proof (induction ims arbitrary: fr feats)
  case (Cons im ims)
  obtain v img where v: "reshape_frame v (im_cam im) (im_view im) = Inr img"
      "add_images obs ims (dput (im_key im) (FImage img) fr) = Inr (Some fr')"
    using Cons.prems(1) by (auto split: option.splits)
  have "has_shape (FImage img) (ft_shape (image_feature_of fb im))"
    using reshape_shape[OF v(1)] Cons.prems(3) by (simp add: image_feature_of_def)
  then have "frame_fits (dput (im_key im) (FImage img) fr) (dput (im_key im) (image_feature_of fb im) feats)"
    by (intro frame_fits_dput Cons.prems(2))
  then show ?case using Cons.IH[OF v(2)] Cons.prems(3) by simp
qed simp

lemma build_fits:
  assumes ok: "builder_ok fb" and b: "build fb obs q_d gr = Inr (Some fr)" and f: "fb_features fb = Inr feats"
    and w: "factr_widths fb obs"
  shows "frame_fits fr feats"
proof -
  let ?ly = "fb_layout fb"
  obtain vals st act fr1 where p: "pack_state ?ly vals = Inr st" "layout_pack_action ?ly q_d gr = Inr act"
      "add_factr obs (ly_sides ?ly) (base_frame st act (fb_instruction fb)) = Some fr1" "add_images obs (fb_images fb) fr1 = Inr (Some fr)"
    using b by (auto simp: build_def Let_def split: option.splits if_splits)
  obtain feats1 where f1: "foldR (factr_feature fb) (ly_sides ?ly) (base_features ?ly) = Inr feats1"
      "feats = foldl (\<lambda>d im. dput (im_key im) (image_feature_of fb im) d) feats1 (fb_images fb)"
    using f by (auto simp: fb_features_def)
  have "length st = ly_state_dim ?ly" "length act = ly_action_dim ?ly"
    using ok pack_state_length[OF _ p(1)] pack_action_length[OF _ p(2)] by (auto simp: builder_ok_def Let_def state_ok_def)
  then have "frame_fits (base_frame st act (fb_instruction fb)) (base_features ?ly)"
    by (auto simp: frame_fits_def base_frame_def base_features_def)
  from add_factr_fits[OF p(3) f1(1) this subset_refl w] have "frame_fits fr1 feats1" .
  then show ?thesis unfolding f1(2) using add_images_fits[OF p(4)] ok by (simp add: builder_ok_def Let_def)
qed

section \<open>Episodes\<close>

text \<open>The dataset the successful calls of the recorder make: the episode in progress and the saved ones.\<close>

fun dataset_step :: "rec_call \<times> bool \<Rightarrow> lr_frame list \<times> lr_frame list list \<Rightarrow> lr_frame list \<times> lr_frame list list" where
  "dataset_step (AddFrame f, True) (buf, eps) = (buf @ [f], eps)"
| "dataset_step (SaveEpisode, True) (buf, eps) = ([], eps @ [buf])"
| "dataset_step (DiscardEpisode, True) (buf, eps) = ([], eps)"
| "dataset_step (c, ok) d = d"

definition dataset :: "(rec_call \<times> bool) list \<Rightarrow> lr_frame list \<times> lr_frame list list" where
  "dataset calls = foldl (\<lambda>d c. dataset_step c d) ([], []) calls"

lemma dataset_snoc: "dataset (cs @ [c]) = dataset_step c (dataset cs)"
  by (simp add: dataset_def)

definition never_fails :: "(rec_call \<times> bool) list \<Rightarrow> rec_call \<Rightarrow> unit res" where
  "never_fails calls c = Inr ()"

text \<open>
  The invariant: the loop's frame counter is the length of the episode in progress, the episode counter the
  number of saved ones, none of them is empty, and there is room for the one in progress.
\<close>

definition episodes_inv :: "nat \<Rightarrow> run_state \<Rightarrow> bool" where
  "episodes_inv num rs \<longleftrightarrow> (case rs of (f, s, st) \<Rightarrow>
     f = length (fst (dataset (cl_calls st))) \<and> cl_done st = length (snd (dataset (cl_calls st)))
     \<and> [] \<notin> set (snd (dataset (cl_calls st))) \<and> cl_done st + (if f = 0 then 0 else 1) \<le> num
     \<and> Finalize \<notin> fst ` set (cl_calls st))"

lemma emit_never_fails: "emit never_fails c st = (Inr (), st\<lparr>cl_calls := cl_calls st @ [(c, True)]\<rparr>)"
  by (simp add: emit_def never_fails_def)

lemma record_tick_calls:
  assumes "record_tick never_fails fb ob tg st = (r, st')"
  shows "(\<exists>fr obs. r = Inr True \<and> cl_calls st' = cl_calls st @ [(AddFrame fr, True)]
        \<and> tk_observation ob = Inr obs \<and> build fb obs (tg_qd tg) (tg_grip tg) = Inr (Some fr))
    \<or> cl_calls st' = cl_calls st \<and> (r = Inr False \<or> (\<exists>e. r = Inl e))"
  using assms by (auto simp: record_tick_def emit_never_fails split: sum.splits option.splits)

lemma tick_calls:
  assumes "coll_tick never_fails fb arms ob st = (r, st')"
  shows "cl_done st' = cl_done st \<and> ((\<exists>fr. r = Inr True \<and> cl_calls st' = cl_calls st @ [(AddFrame fr, True)])
    \<or> cl_calls st' = cl_calls st \<and> (r = Inr False \<or> (\<exists>e. r = Inl e)))"
proof (cases "tick_targets fb ob st")
  case (Inl e)
  then show ?thesis using assms by (auto simp: coll_tick_def)
next
  case (Inr tg)
  obtain q st1 where f: "foldE (command_side tg (tk_now_ns ob)) arms (st\<lparr>cl_last_qd := tg_last_qd tg, cl_last_grip := tg_last_grip tg\<rparr>) = (q, st1)"
    by (meson surj_pair)
  note ck = commands_keep[OF f]
  show ?thesis
  proof (cases q)
    case (Inl e)
    then show ?thesis using assms Inr f ck by (auto simp: coll_tick_def)
  next
    case q: (Inr u)
    then have rt: "record_tick never_fails fb ob tg st1 = (r, st')" using assms Inr f by (simp add: coll_tick_def)
    show ?thesis using record_tick_calls[OF rt] record_tick_keeps[OF rt] ck by auto
  qed
qed

lemma dataset_add: "dataset (cs @ [(AddFrame fr, True)]) = (fst (dataset cs) @ [fr], snd (dataset cs))"
  by (cases "dataset cs") (simp add: dataset_snoc)

lemma dataset_save: "dataset (cs @ [(SaveEpisode, True)]) = ([], snd (dataset cs) @ [fst (dataset cs)])"
  by (cases "dataset cs") (simp add: dataset_snoc)

lemma dataset_discard: "dataset (cs @ [(DiscardEpisode, True)]) = ([], snd (dataset cs))"
  by (cases "dataset cs") (simp add: dataset_snoc)

lemma dataset_finalize: "dataset (cs @ [(Finalize, True)]) = dataset cs"
  by (cases "dataset cs") (simp add: dataset_snoc)

lemmas dataset_calls = dataset_add dataset_save dataset_discard dataset_finalize

lemma save_frames_inv:
  assumes "episodes_inv num rs"
  shows "\<exists>rs'. save_frames never_fails rs = (Inr (), rs') \<and> episodes_inv num rs' \<and> fst rs' = 0
    \<and> snd (dataset (cl_calls (snd (snd rs')))) = snd (dataset (cl_calls (snd (snd rs))))
        @ (if fst rs = 0 then [] else [fst (dataset (cl_calls (snd (snd rs))))])"
  using assms
  by (cases rs) (auto simp: save_frames_def emit_never_fails episodes_inv_def dataset_calls)

lemma handle_event_inv:
  assumes "episodes_inv num rs"
  shows "\<exists>rs'. handle_event never_fails ev rs = (Inr (), rs') \<and> episodes_inv num rs'"
proof (cases ev)
  case END
  then show ?thesis using save_frames_inv[OF assms] by (cases rs) (auto simp: handle_event_def)
next
  case DISCARD
  then show ?thesis using assms
    by (cases rs) (auto simp: handle_event_def emit_never_fails episodes_inv_def dataset_calls split: if_splits)
next
  case STOPK
  then show ?thesis using assms by (cases rs) (auto simp: handle_event_def episodes_inv_def)
qed

lemma handle_events_inv:
  assumes "episodes_inv num rs"
  shows "\<exists>rs'. foldE (handle_event never_fails) evs rs = (Inr (), rs') \<and> episodes_inv num rs'"
  using assms
proof (induction evs arbitrary: rs)
  case (Cons ev evs)
  obtain rs1 where "handle_event never_fails ev rs = (Inr (), rs1)" "episodes_inv num rs1"
    using handle_event_inv[OF Cons.prems] by blast
  then show ?case using Cons.IH[of rs1] by simp
qed simp

text \<open>Whatever a tick and each of its events keep, the loop keeps.\<close>

lemma coll_loop_invariant:
  assumes "coll_loop outcome fb arms num ts rs = Some (r, rs')" "P rs"
    and tick: "\<And>t f s st q st1. t \<in> set ts \<Longrightarrow> P (f, s, st) \<Longrightarrow> cl_done st < num \<Longrightarrow> coll_tick outcome fb arms (rt_obs t) st = (q, st1)
       \<Longrightarrow> (case q of Inl e \<Rightarrow> P (f, s, st1) | Inr b \<Rightarrow> P ((if b then f + 1 else f), s, st1))"
    and event: "\<And>t ev rs q rs1. t \<in> set ts \<Longrightarrow> ev \<in> set (rt_events t) \<Longrightarrow> P rs \<Longrightarrow> handle_event outcome ev rs = (q, rs1) \<Longrightarrow> P rs1"
  shows "P rs'"
  using assms
proof (induction ts arbitrary: rs)
  case Nil
  then show ?case by (cases rs) (auto simp: coll_loop.simps split: if_splits)
next
  case (Cons t ts)
  obtain f s st where rs: "rs = (f, s, st)" by (cases rs)
  show ?case
  proof (cases "s \<or> num \<le> cl_done st \<or> rt_stop t")
    case True
    then show ?thesis using Cons.prems(1,2) by (auto simp: rs coll_loop.simps[of _ _ _ _ "t # ts"] split: if_splits)
  next
    case False
    obtain q st1 where tk: "coll_tick outcome fb arms (rt_obs t) st = (q, st1)" by (meson surj_pair)
    have st1: "case q of Inl e \<Rightarrow> P (f, s, st1) | Inr b \<Rightarrow> P ((if b then f + 1 else f), s, st1)"
      using Cons.prems(2) False by (intro Cons.prems(3)[OF _ _ _ tk]) (auto simp: rs)
    show ?thesis
    proof (cases q)
      case (Inl e)
      then show ?thesis using Cons.prems(1) False tk st1 by (simp add: rs coll_loop.simps[of _ _ _ _ "t # ts"] run_tick_body_def)
    next
      case (Inr b)
      obtain x rs2 where ev: "foldE (handle_event outcome) (rt_events t) ((if b then f + 1 else f), s, st1) = (x, rs2)"
        by (meson surj_pair)
      have P1: "P ((if b then f + 1 else f), s, st1)" using st1 unfolding Inr sum.case .
      have step: "P u" if "e \<in> set (rt_events t)" "P v" "handle_event outcome e v = (w, u)" for e v w u
        using Cons.prems(4)[of t e v w u] that by simp
      have P2: "P rs2" using ev P1 step by (rule foldE_invariant)
      show ?thesis
      proof (cases x)
        case (Inl e)
        then show ?thesis using Cons.prems(1) False tk Inr ev \<open>q = Inr b\<close> P2
          by (simp add: rs coll_loop.simps[of _ _ _ _ "t # ts"] run_tick_body_def)
      next
        case (Inr u)
        then have "coll_loop outcome fb arms num ts rs2 = Some (r, rs')"
          using Cons.prems(1) False tk \<open>q = Inr b\<close> ev by (simp add: rs coll_loop.simps[of _ _ _ _ "t # ts"] run_tick_body_def)
        then show ?thesis
        proof (rule Cons.IH[OF _ P2])
          show "case q of Inl e \<Rightarrow> P (f, s, st1) | Inr b \<Rightarrow> P ((if b then f + 1 else f), s, st1)"
            if "u \<in> set ts" "P (f, s, st)" "cl_done st < num" "coll_tick outcome fb arms (rt_obs u) st = (q, st1)" for u f s st q st1
            using Cons.prems(3)[of u f s st q st1] that by simp
          show "P rs1" if "u \<in> set ts" "ev \<in> set (rt_events u)" "P rs" "handle_event outcome ev rs = (q, rs1)" for u ev rs q rs1
            using Cons.prems(4)[of u ev rs q rs1] that by simp
        qed
      qed
    qed
  qed
qed

lemma coll_loop_inv:
  assumes "coll_loop never_fails fb arms num ts rs = Some (r, rs')" "episodes_inv num rs"
  shows "episodes_inv num rs'"
proof (rule coll_loop_invariant[where P = "episodes_inv num", OF assms])
  fix t f s st q st1
  assume i: "episodes_inv num (f, s, st)" "cl_done st < num" and tk: "coll_tick never_fails fb arms (rt_obs t) st = (q, st1)"
  show "case q of Inl e \<Rightarrow> episodes_inv num (f, s, st1) | Inr b \<Rightarrow> episodes_inv num ((if b then f + 1 else f), s, st1)"
    using i tick_calls[OF tk] by (auto simp: episodes_inv_def dataset_calls split: sum.splits)
next
  fix t ev rs q rs1
  assume "episodes_inv num rs" "handle_event never_fails ev rs = (q, rs1)"
  then show "episodes_inv num rs1" using handle_event_inv[of num rs ev] by auto
qed

text \<open>Only \<open>END\<close> saves and only \<open>DISCARD\<close> discards inside the loop.\<close>

fun event_calls :: "key_event \<Rightarrow> rec_call set" where
  "event_calls END = {SaveEpisode}"
| "event_calls DISCARD = {DiscardEpisode}"
| "event_calls STOPK = {}"

lemma coll_loop_calls:
  assumes "coll_loop never_fails fb arms num ts (f, s, st) = Some (r, (f', s', st'))" "cl_calls st = []"
  shows "fst ` set (cl_calls st') \<subseteq> range AddFrame \<union> (\<Union>t \<in> set ts. \<Union>ev \<in> set (rt_events t). event_calls ev)
    \<and> (\<forall>c \<in> set (cl_calls st'). snd c)"
proof -
  define A where "A = range AddFrame \<union> (\<Union>t \<in> set ts. \<Union>ev \<in> set (rt_events t). event_calls ev)"
  have adds: "AddFrame fr \<in> A" for fr by (simp add: A_def)
  let ?P = "\<lambda>x :: run_state. \<forall>c \<in> set (cl_calls (snd (snd x))). fst c \<in> A \<and> snd c"
  have "?P (f', s', st')"
  proof (rule coll_loop_invariant[OF assms(1), where P = ?P])
    show "?P (f, s, st)" using assms(2) by simp
  next
    fix t f s st q st1
    assume i: "?P (f, s, st)" and tk: "coll_tick never_fails fb arms (rt_obs t) st = (q, st1)"
    show "case q of Inl e \<Rightarrow> ?P (f, s, st1) | Inr b \<Rightarrow> ?P ((if b then f + 1 else f), s, st1)"
      using i tick_calls[OF tk] adds by (auto split: sum.splits)
  next
    fix t ev rs q rs1
    assume m: "t \<in> set ts" "ev \<in> set (rt_events t)" and i: "?P rs" and h: "handle_event never_fails ev rs = (q, rs1)"
    have "event_calls ev \<subseteq> A" using m unfolding A_def by blast
    moreover have "cl_calls (snd (snd rs1)) = cl_calls (snd (snd rs))
        \<or> (\<exists>c \<in> event_calls ev. cl_calls (snd (snd rs1)) = cl_calls (snd (snd rs)) @ [(c, True)])"
      using h by (cases rs; cases ev) (auto simp: handle_event_def save_frames_def emit_never_fails split: if_splits)
    ultimately show "?P rs1" using i by fastforce
  qed
  then have "\<forall>c \<in> set (cl_calls st'). fst c \<in> A \<and> snd c" by simp
  then show ?thesis unfolding A_def[symmetric] by blast
qed

lemma dataset_no_save: "(SaveEpisode, True) \<notin> set cs \<Longrightarrow> snd (dataset cs) = []"
proof (induction cs rule: rev_induct)
  case (snoc c cs)
  obtain k ok where c: "c = (k, ok)" by fastforce
  then show ?case using snoc by (cases "dataset cs"; cases k; cases ok) (auto simp: dataset_snoc)
qed (simp add: dataset_def)

lemma coll_loop_no_save:
  assumes "coll_loop never_fails fb arms num ts (f, s, st) = Some (r, (f', s', st'))" "cl_calls st = []"
    and "\<forall>t \<in> set ts. END \<notin> set (rt_events t)"
  shows "snd (dataset (cl_calls st')) = []"
proof (rule dataset_no_save)
  have "SaveEpisode \<in> event_calls ev \<Longrightarrow> ev = END" for ev by (cases ev) auto
  then have "SaveEpisode \<notin> fst ` set (cl_calls st')" using coll_loop_calls[OF assms(1,2)] assms(3) by blast
  then show "(SaveEpisode, True) \<notin> set (cl_calls st')" by force
qed

text \<open>The frames the recorder accepted, in order.\<close>

definition frames_of :: "(rec_call \<times> bool) list \<Rightarrow> lr_frame list" where
  "frames_of calls = List.map_filter (\<lambda>c. case c of (AddFrame f, True) \<Rightarrow> Some f | _ \<Rightarrow> None) calls"

lemma frames_of_snoc: "frames_of (cs @ [c]) = frames_of cs @ (case c of (AddFrame f, True) \<Rightarrow> [f] | _ \<Rightarrow> [])"
  by (auto simp: frames_of_def map_filter_def split: rec_call.splits bool.splits prod.splits)

lemma frames_of_append: "frames_of (a @ b) = frames_of a @ frames_of b"
  by (simp add: frames_of_def map_filter_def)

lemma frames_of_others: "frames_of [] = []" "frames_of [(SaveEpisode, ok)] = []" "frames_of [(Finalize, ok)] = []"
  by (simp_all add: frames_of_def map_filter_def)

lemma dataset_only_adds:
  assumes "fst ` set cs \<subseteq> range AddFrame" "\<forall>c \<in> set cs. snd c"
  shows "dataset cs = (frames_of cs, [])"
  using assms
proof (induction cs rule: rev_induct)
  case Nil
  then show ?case by (simp add: dataset_def frames_of_def map_filter_def)
next
  case (snoc c cs)
  then obtain f where "c = (AddFrame f, True)" by (cases c) auto
  then show ?case using snoc by (simp add: dataset_add frames_of_snoc)
qed

section \<open>Properties\<close>



text \<open>
  C34. Episodes are kept or dropped as a whole: with every recorder call succeeding, at the end of a run, however it ended,
  nothing is left in the episode buffer, the recorder was finalized exactly once and last, the saved
  episodes are as many as the loop counts, none is empty, and there are never more than asked for. Without a
  keyboard all recorded frames are in one episode; an operator-paced run in which the operator never
  ended an episode saves none.
\<close>

theorem episodes_kept:
  assumes run: "coll_run never_fails fb arms num paced ts (fresh_loop_state bs) = Some (r, st)"
  shows "fst (dataset (cl_calls st)) = [] \<and> length (snd (dataset (cl_calls st))) = cl_done st
    \<and> [] \<notin> set (snd (dataset (cl_calls st))) \<and> int (cl_done st) \<le> max 1 num
    \<and> (\<exists>cs. cl_calls st = cs @ [(Finalize, True)] \<and> Finalize \<notin> fst ` set cs)
    \<and> (\<not> paced \<longrightarrow> concat (snd (dataset (cl_calls st))) = frames_of (cl_calls st) \<and> cl_done st \<le> 1)
    \<and> (paced \<and> (\<forall>t \<in> set ts. END \<notin> set (rt_events t)) \<longrightarrow> cl_done st = 0)"
proof -
  let ?ts = "if paced then ts else map (\<lambda>t. t\<lparr>rt_events := []\<rparr>) ts" and ?n = "nat (max 1 num)"
  obtain q f s st1 where l: "coll_loop never_fails fb arms ?n ?ts (0, False, fresh_loop_state bs) = Some (q, (f, s, st1))"
      "\<exists>x f' s'. coll_finish never_fails paced (f, s, st1) = (x, (f', s', st))"
    using run by (fastforce simp: coll_run_def Let_def split: option.splits prod.splits sum.splits)
  have "episodes_inv ?n (0, False, fresh_loop_state bs)"
    by (simp add: episodes_inv_def fresh_loop_state_def dataset_def)
  then have inv: "episodes_inv ?n (f, s, st1)" by (rule coll_loop_inv[OF l(1)])
  have fresh: "cl_calls (fresh_loop_state bs) = []" by (simp add: fresh_loop_state_def)
  have max: "int ?n = max 1 num" by simp
  show ?thesis
  proof (cases paced)
    case True
    have none: "snd (dataset (cl_calls st1)) = []" if "\<forall>t \<in> set ts. END \<notin> set (rt_events t)"
      using coll_loop_no_save[OF l(1) fresh] that True by simp
    let ?cs = "cl_calls st1 @ (if f = 0 then [] else [(DiscardEpisode, True)])"
    have st: "cl_calls st = ?cs @ [(Finalize, True)]" "cl_done st = cl_done st1"
      using l(2) True by (auto simp: coll_finish_def emit_never_fails Let_def split: if_splits)
    have ds: "dataset ?cs = ([], snd (dataset (cl_calls st1)))"
      using inv by (cases "dataset (cl_calls st1)") (auto simp: dataset_calls episodes_inv_def)
    have fin: "Finalize \<notin> fst ` set ?cs" using inv by (auto simp: episodes_inv_def)
    show ?thesis
      unfolding st dataset_finalize ds using inv none fin True max
      by (auto simp: episodes_inv_def split: if_splits)
  next
    case False
    obtain rs' where sv: "save_frames never_fails (f, s, st1) = (Inr (), rs')" "episodes_inv ?n rs'" "fst rs' = 0"
      "snd (dataset (cl_calls (snd (snd rs')))) = snd (dataset (cl_calls st1)) @ (if f = 0 then [] else [fst (dataset (cl_calls st1))])"
      using save_frames_inv[OF inv] by auto
    obtain s' st2 where rs': "rs' = (0, s', st2)" using sv(3) by (cases rs') auto
    have st: "cl_calls st = cl_calls st2 @ [(Finalize, True)]" "cl_done st = cl_done st2"
      using l(2) False sv(1) rs' by (auto simp: coll_finish_def emit_never_fails)
    have adds: "fst ` set (cl_calls st1) \<subseteq> range AddFrame" "\<forall>c \<in> set (cl_calls st1). snd c"
      using coll_loop_calls[OF l(1) fresh] False by auto
    note d1 = dataset_only_adds[OF adds]
    have c2: "cl_calls st2 = cl_calls st1 @ (if f = 0 then [] else [(SaveEpisode, True)])"
      using sv(1) rs' by (auto simp: save_frames_def emit_never_fails split: if_splits)
    have fr: "frames_of (cl_calls st) = frames_of (cl_calls st1)" unfolding st(1) c2 by (simp only: frames_of_append frames_of_others append_Nil2 split: if_split) simp
    have f0: "f = 0 \<Longrightarrow> frames_of (cl_calls st1) = []" using inv d1 by (simp add: episodes_inv_def)
    show ?thesis
      using sv(2,4) d1 False max fr f0 unfolding rs' st dataset_finalize
      by (auto simp: episodes_inv_def split: if_splits)
  qed
qed

text \<open>A small rig: one joint, one camera pixel, one leader.\<close>

definition coll_arm :: arm_cfg where
  "coll_arm = \<lparr>ar_streams = [(''q'', \<lparr>sc_dim = 1, sc_dtype = ''float64'', sc_capacity = 8, sc_rate_hz = 100, sc_dummy = False\<rparr>)],
     ar_control = ta_control demo_teleop\<rparr>"

definition coll_builder :: "frame_builder res" where
  "coll_builder = mk_frame_builder [(''left'', coll_arm)] [(''left'', 1)] [''left'']
     [(''wrist'', \<lparr>cam_width = 1, cam_height = 1, cam_fps = 30, cam_views = [''left''], cam_capacity = 4\<rparr>)] ''pick'' [''q''] True"

definition coll_fb :: frame_builder where
  "coll_fb = projr coll_builder"

definition one_row :: "real list \<Rightarrow> real samples" where
  "one_row v = \<lparr>sm_data = [v], sm_t_ns = [5], sm_seq = [0], sm_overrun = False\<rparr>"

definition coll_obs :: "(string, real samples) dict" where
  "coll_obs = [(''left/q'', one_row [3]), (''factr/left'', one_row [4, 1]), (''factr/raw/left'', one_row [5, 1]),
     (''cam/wrist/left'', one_row [1, 2, 3])]"

definition coll_tick_obs :: tick_obs where
  "coll_tick_obs = \<lparr>tk_leaders = Inr [(''left'', [4, 1])], tk_now_ns = 9, tk_observation = Inr coll_obs\<rparr>"

definition coll_brain :: brain_state where
  "coll_brain = snd (open_control (\<lambda>s l. IoOk) ''run'' 7 demo_specs (empty_brain, demo_store))"

definition coll_ticks :: "run_tick list" where
  "coll_ticks = [\<lparr>rt_stop = False, rt_obs = coll_tick_obs, rt_events = []\<rparr>, \<lparr>rt_stop = True, rt_obs = coll_tick_obs, rt_events = []\<rparr>]"

definition coll_demo :: "(unit res \<times> loop_state) option" where
  "coll_demo = coll_run never_fails coll_fb [(''left'', demo_teleop)] 1 False coll_ticks (fresh_loop_state coll_brain)"

lemma coll_fb_builder: "coll_builder = Inr coll_fb"
proof -
  have "\<not> isl coll_builder" by code_simp
  then show ?thesis by (simp add: coll_fb_def)
qed

lemma coll_demo_runs: "\<exists>st. coll_demo = Some (Inr (), st) \<and> cl_posted st = [(''left'', [4])] \<and> cl_done st = 1"
proof -
  have "map_option (\<lambda>(r, st). (r, cl_posted st, cl_done st)) coll_demo = Some (Inr (), [(''left'', [4])], 1)" by code_simp
  then show ?thesis by auto
qed



theorem episodes_kept_witness:
  "\<exists>st. coll_demo = Some (Inr (), st) \<and> cl_done st = 1 \<and> length (snd (dataset (cl_calls st))) = 1
     \<and> concat (snd (dataset (cl_calls st))) = frames_of (cl_calls st)"
proof -
  obtain st where st: "coll_demo = Some (Inr (), st)" "cl_done st = 1" using coll_demo_runs by blast
  have "length (snd (dataset (cl_calls st))) = 1 \<and> concat (snd (dataset (cl_calls st))) = frames_of (cl_calls st)"
    using episodes_kept[OF st(1)[unfolded coll_demo_def]] st(2) by simp
  then show ?thesis using st by blast
qed

text \<open>
  C35. A recording that is complete is never overwritten: the recorder appends only to a dataset
  in which every feature of this run is stored with the same shape (and the same element names, when both sides
  name them) and which has no observation this run does not produce; it refuses any other
  complete dataset, and deletes a directory only if that is not a complete dataset. The test of
  completeness requires \<^verbatim>\<open>tasks.parquet\<close>: without that file the directory is deleted whatever number of
  episodes its \<^verbatim>\<open>info.json\<close> records.
\<close>

theorem dataset_never_clobbered:
  assumes "recorder_open True resume d feats = r"
  shows "(r = Inr ResumeDataset \<longrightarrow> resumable d
        \<and> (\<forall>(k, ft) \<in> set feats. \<exists>h. dget (disk_features d) k = Some h \<and> df_shape h = map int (ft_shape ft)
             \<and> (df_names h = [] \<or> ft_names ft = [] \<or> df_names h = ft_names ft))
        \<and> (\<forall>k \<in> set (dkeys (disk_features d)). is_observation k \<longrightarrow> dget feats k \<noteq> None))
    \<and> (dd_meta d \<and> resumable d \<longrightarrow> r = Inr ResumeDataset \<or> r = Inl RecorderUnavailable)
    \<and> (r = Inr (CreateDataset True) \<longrightarrow> dd_meta d \<and> \<not> resumable d)
    \<and> (dd_meta d \<and> \<not> dd_tasks d \<longrightarrow> r = Inr (CreateDataset True))"
proof -
  have diff: "feature_diff ex (k, ft) = [] \<longleftrightarrow> (\<exists>h. dget ex k = Some h \<and> df_shape h = map int (ft_shape ft)
             \<and> (df_names h = [] \<or> ft_names ft = [] \<or> df_names h = ft_names ft))" for ex k ft
    by (auto simp: feature_diff_def split: option.splits)
  have none: "schema_mismatches ex feats = [] \<longleftrightarrow> (\<forall>(k, ft) \<in> set feats. feature_diff ex (k, ft) = [])
      \<and> (\<forall>k \<in> set (dkeys ex). is_observation k \<longrightarrow> dget feats k \<noteq> None)" for ex
    by (auto simp: schema_mismatches_def filter_empty_conv)
  have tasks: "\<not> dd_tasks d \<Longrightarrow> \<not> resumable d" by (auto simp: resumable_def split: info_file.splits)
  show ?thesis
    using assms none[of "disk_features d"] unfolding diff
    by (auto simp: recorder_open_def Let_def dest: tasks split: if_splits)
qed

theorem dataset_never_clobbered_witness:
  "recorder_open True True \<lparr>dd_meta = True, dd_info = Info 12 [], dd_tasks = False\<rparr> [] = Inr (CreateDataset True)"
  using dataset_never_clobbered[OF refl, of True "\<lparr>dd_meta = True, dd_info = Info 12 [], dd_tasks = False\<rparr>" "[]"] by simp

lemma open_control_opens:
  assumes names: "names_ok specs" and start: "opened specs [] bs"
    and run: "open_control io run pid specs bs = (Inr (), bs')"
  shows "\<forall>p \<in> set (open_order specs). published bs' p"
proof -
  have "opened specs ([] @ open_order specs) bs'"
  proof (rule foldE_all[OF run[unfolded open_control_def], where Q = "opened specs"])
    show "opened specs [] bs" by (rule start)
  next
    fix ys x s u t
    assume "x \<in> set (open_order specs)" "opened specs ys s" "open_one io run pid specs x s = (Inr u, t)"
    then show "opened specs (ys @ [x]) t" using open_one_opened[OF names] by fastforce
  qed
  then show ?thesis by (simp add: opened_def)
qed

text \<open>
  A refused dataset leaves the arms' control channels behind. The node opens the channels first and constructs
  the recorder after that, outside the \<^verbatim>\<open>try\<close> whose \<^verbatim>\<open>finally\<close> stops the arms and closes
  the brain: when the recorder refuses (no LeRobot, or a dataset with another schema), the node raises with every
  control channel it opened still published and without one STOP posted.
\<close>

theorem recorder_refusal_keeps_channels:
  assumes attach: "brain_attach (fb_stream_names fb @ filter (\<lambda>n. n \<notin> set (fb_stream_names fb)) (leader_stream_names fcfg))
        (cw_timeout cw) (cw_attach_start cw) (cw_attach cw) bs = Some (Inr (), (b, w))"
    and leaders: "wait_leaders_fresh fcfg (cw_timeout cw) (cw_leader_start cw) (cw_leaders cw) = Some (Inr ())"
    and specs: "specs_by_side arms = Inr specs" "inj_on (\<lambda>p. sanitize (channel p)) (set (open_order specs))"
    and start: "dir_ok (sub_dir w ''control'')" "\<forall>p \<in> set (open_order specs). \<not> published (b, w) p"
    and opn: "open_control (cw_io cw) (cw_run_id cw) (cw_pid cw) specs (b, w) = (Inr (), bs')"
    and refused: "fb_features fb = Inr feats" "recorder_open (cw_lerobot cw) (cw_resume cw) (cw_dir cw) feats = Inl e"
  shows "coll_node_run fb arms fcfg cw bs = Some (Inl e, bs') \<and> (\<forall>p \<in> set (open_order specs). published bs' p)"
proof -
  have names: "names_ok specs" using specs_by_side_names[OF specs(1)] specs(2) by (auto simp: names_ok_def)
  have st: "opened specs [] (b, w)" using start by (simp add: opened_def)
  show ?thesis
    using open_control_opens[OF names st opn]
    by (simp add: coll_node_run_def attach leaders specs(1) opn coll_record_def refused)
qed

text \<open>No observation stream and a dataset recorded with a camera that this run does not have.\<close>

definition bare_fb :: frame_builder where
  "bare_fb = projr (mk_frame_builder [] [] [] [] ''pick'' [] False)"

definition bare_factr :: factr_cfg where
  "bare_factr = demo_factr\<lparr>fa_servers := []\<rparr>"

definition bare_world :: coll_world where
  "bare_world = \<lparr>cw_timeout = 5, cw_attach_start = 0, cw_attach = [\<lparr>po_store = demo_store, po_stop = False, po_now = 1\<rparr>],
     cw_leader_start = 1, cw_leaders = [], cw_io = (\<lambda>s l. IoOk), cw_run_id = ''run'', cw_pid = 7, cw_lerobot = True, cw_resume = True,
     cw_dir = \<lparr>dd_meta = True, dd_info = Info 12 [(''observation.images.wrist'', \<lparr>df_shape = [1, 1, 3], df_names = []\<rparr>)], dd_tasks = True\<rparr>,
     cw_outcome = never_fails, cw_num_episodes = 1, cw_paced = False, cw_ticks = [], cw_stop_ns = 9\<rparr>"

theorem recorder_refusal_keeps_channels_witness:
  "\<exists>bs'. coll_node_run bare_fb [(''left'', demo_teleop)] bare_factr bare_world (empty_brain, demo_store)
     = Some (Inl RecorderUnavailable, bs') \<and> published bs' (''left'', LSetpoint) \<and> published bs' (''left'', LCommand)"
proof -
  have ok: "fst (open_control (cw_io bare_world) (cw_run_id bare_world) (cw_pid bare_world) demo_specs (empty_brain, demo_store)) = Inr ()"
    by code_simp
  obtain bs' where opn: "open_control (cw_io bare_world) (cw_run_id bare_world) (cw_pid bare_world) demo_specs (empty_brain, demo_store) = (Inr (), bs')"
    using ok by (metis prod.collapse)
  have names: "fb_stream_names bare_fb = []" by code_simp
  have attach: "brain_attach (fb_stream_names bare_fb @ filter (\<lambda>n. n \<notin> set (fb_stream_names bare_fb)) (leader_stream_names bare_factr))
        (cw_timeout bare_world) (cw_attach_start bare_world) (cw_attach bare_world) (empty_brain, demo_store) = Some (Inr (), (empty_brain, demo_store))"
    by (simp add: names brain_attach_def leader_stream_names_def bare_factr_def bare_world_def wait_for_def has_all_def
        discover_def sub_dir_def demo_store_def)
  have leaders: "wait_leaders_fresh bare_factr (cw_timeout bare_world) (cw_leader_start bare_world) (cw_leaders bare_world) = Some (Inr ())"
    by (simp add: wait_leaders_fresh_def bare_factr_def)
  have inj: "inj_on (\<lambda>p. sanitize (channel p)) (set (open_order demo_specs))" using demo_names by (simp add: demo_open_order)
  have st: "dir_ok (sub_dir demo_store ''control'')"
    "\<forall>p \<in> set (open_order demo_specs). \<not> published (empty_brain, demo_store) p"
    by (simp_all add: demo_store_def sub_dir_def published_def get_def discover_def)
  have "\<not> isl (fb_features bare_fb)" by code_simp
  then have feats: "fb_features bare_fb = Inr (projr (fb_features bare_fb))" by simp
  have ref: "recorder_open (cw_lerobot bare_world) (cw_resume bare_world) (cw_dir bare_world) (projr (fb_features bare_fb)) = Inl RecorderUnavailable"
    by code_simp
  show ?thesis
    using recorder_refusal_keeps_channels[OF attach leaders demo_specs_by_side inj st opn feats ref] by (auto simp: demo_open_order)
qed
end
