(* ===== verification/Processes.thy ===== *)
theory Processes
  imports Prelude
begin

text \<open>
  Process supervision (\<open>system.py\<close>): the stop escalation \<open>_escalate\<close> (join, SIGTERM, SIGKILL), the two-stage
  \<open>_shutdown\<close> with its long window for the recorder, the supervise loop of \<open>run_system\<close> with its signal handler, and
  the table of operating-system processes that the session daemon's theories share.

  What a process does is not modelled; what the code sees of it is. Every \<open>is_alive ()\<close>, every clock
  reading and every look at the \<open>force\<close> event is an observation, in the order in which the code makes them, and a loop
  whose observations run out has not returned (\<open>None\<close>). The calls that act on processes are recorded in order.
\<close>

section \<open>Stop escalation\<close>

type_synonym pid = nat

datatype pcall = Join pid real | Terminate pid | Kill pid

fun pcall_pid :: "pcall \<Rightarrow> pid" where
  "pcall_pid (Join p t) = p"
| "pcall_pid (Terminate p) = p"
| "pcall_pid (Kill p) = p"

text \<open>One turn of the join loop: \<open>is_alive\<close>, the clock, the \<open>force\<close> event (clear when there is none).\<close>

record wait_obs =
  wo_alive :: bool
  wo_now :: real
  wo_force :: bool

text \<open>What is seen of one process: in the join loop, then once before each of the three later loops.\<close>

record esc_obs =
  eo_waits :: "wait_obs list"
  eo_term :: bool
  eo_join :: bool
  eo_kill :: bool

definition TERM_GRACE_S :: real where "TERM_GRACE_S = 2"
definition HARDWARE_GRACE_S :: real where "HARDWARE_GRACE_S = 5"

fun wait_coop :: "real \<Rightarrow> pid \<Rightarrow> wait_obs list \<Rightarrow> pcall list option" where
  "wait_coop deadline p [] = None"
| "wait_coop deadline p (ob # obs) =
     (if \<not> (wo_alive ob \<and> wo_now ob < deadline) then Some []
      else if wo_force ob then Some []
      else map_option (\<lambda>cs. Join p (1 / 4) # cs) (wait_coop deadline p obs))"

fun wait_all :: "real \<Rightarrow> (pid \<times> esc_obs) list \<Rightarrow> pcall list option" where
  "wait_all deadline [] = Some []"
| "wait_all deadline ((p, ob) # ps) =
     (case wait_coop deadline p (eo_waits ob) of
        None \<Rightarrow> None
      | Some cs \<Rightarrow> map_option (\<lambda>ds. cs @ ds) (wait_all deadline ps))"

definition term_calls :: "(pid \<times> esc_obs) list \<Rightarrow> pcall list" where
  "term_calls ps = map (\<lambda>(p, ob). Terminate p) (filter (\<lambda>(p, ob). eo_term ob) ps)"

definition join_calls :: "(pid \<times> esc_obs) list \<Rightarrow> pcall list" where
  "join_calls ps = map (\<lambda>(p, ob). Join p TERM_GRACE_S) (filter (\<lambda>(p, ob). eo_join ob) ps)"

definition kill_calls :: "(pid \<times> esc_obs) list \<Rightarrow> pcall list" where
  "kill_calls ps = concat (map (\<lambda>(p, ob). if eo_kill ob then [Kill p, Join p 2] else []) ps)"

definition escalate :: "real \<Rightarrow> real \<Rightarrow> (pid \<times> esc_obs) list \<Rightarrow> pcall list option" where
  "escalate start cooperative_s ps =
     map_option (\<lambda>cs. cs @ term_calls ps @ join_calls ps @ kill_calls ps) (wait_all (start + cooperative_s) ps)"

text \<open>
  The named processes of a shutdown, in order; \<open>next (p for p in procs if p.name == "collection")\<close> is the first of
  that name. The two clock readings are those with which the two escalations start.
\<close>

definition RECORDING_NODE :: string where "RECORDING_NODE = ''collection''"

fun split_saver :: "(string \<times> pid \<times> esc_obs) list \<Rightarrow> (pid \<times> esc_obs) list \<times> (pid \<times> esc_obs) option" where
  "split_saver [] = ([], None)"
| "split_saver ((n, p) # ps) =
     (if n = RECORDING_NODE then (map snd ps, Some p)
      else case split_saver ps of (hw, sv) \<Rightarrow> (p # hw, sv))"

definition shutdown :: "real \<Rightarrow> real \<Rightarrow> real \<Rightarrow> (string \<times> pid \<times> esc_obs) list \<Rightarrow> (pcall list \<times> pcall list) option" where
  "shutdown start1 start2 save_grace_s procs =
     (case split_saver procs of (hardware, saver) \<Rightarrow>
      case escalate start1 HARDWARE_GRACE_S hardware of
        None \<Rightarrow> None
      | Some cs \<Rightarrow>
          (case saver of
             None \<Rightarrow> Some (cs, [])
           | Some p \<Rightarrow> map_option (\<lambda>ds. (cs, ds)) (escalate start2 save_grace_s [p])))"

section \<open>The supervise loop of a one-shot run\<close>

text \<open>
  The signal handler counts: the first signal stops, the third abandons the save. The events are
  \<open>(stop_event, force)\<close>.
\<close>

record signal_state =
  sg_count :: nat
  sg_stop :: bool
  sg_force :: bool

definition handle_signal :: "signal_state \<Rightarrow> signal_state" where
  "handle_signal g = g\<lparr>sg_count := sg_count g + 1, sg_stop := True, sg_force := sg_force g \<or> 2 \<le> sg_count g\<rparr>"

text \<open>
  One pass of the loop: the stop event, the clock, and every process with its exit code if it is seen dead (\<open>None\<close> is the
  code of a process that has none yet).
\<close>

record sup_tick =
  sp_stop :: bool
  sp_now :: real
  sp_seen :: "(string \<times> int option option) list"

datatype sup_end = Stopped | DurationElapsed | NodeFinished string | NodeCrashed string int

fun first_dead :: "(string \<times> int option option) list \<Rightarrow> (string \<times> int option) option" where
  "first_dead [] = None"
| "first_dead ((n, None) # ps) = first_dead ps"
| "first_dead ((n, Some code) # ps) = Some (n, code)"

fun node_end :: "string \<times> int option \<Rightarrow> sup_end" where
  "node_end (n, None) = NodeFinished n"
| "node_end (n, Some c) = (if c = 0 then NodeFinished n else NodeCrashed n c)"

fun supervise :: "real option \<Rightarrow> sup_tick list \<Rightarrow> sup_end option" where
  "supervise deadline [] = None"
| "supervise deadline (t # ts) =
     (if sp_stop t then Some Stopped
      else case deadline of
        Some d \<Rightarrow>
          if d \<le> sp_now t then Some DurationElapsed
          else (case first_dead (sp_seen t) of Some q \<Rightarrow> Some (node_end q) | None \<Rightarrow> supervise deadline ts)
      | None \<Rightarrow> (case first_dead (sp_seen t) of Some q \<Rightarrow> Some (node_end q) | None \<Rightarrow> supervise deadline ts))"

text \<open>The run's exit: \<open>SystemExit\<close> (non-zero) names the crashed node; the shutdown has run before either.\<close>

definition run_system ::
    "real option \<Rightarrow> sup_tick list \<Rightarrow> real \<Rightarrow> real \<Rightarrow> real \<Rightarrow> (string \<times> pid \<times> esc_obs) list
     \<Rightarrow> ((string \<times> int) option \<times> pcall list \<times> pcall list) option" where
  "run_system deadline ts start1 start2 save_grace_s procs =
     (case supervise deadline ts of
        None \<Rightarrow> None
      | Some fin \<Rightarrow>
          map_option (\<lambda>calls. (case fin of NodeCrashed n c \<Rightarrow> Some (n, c) | _ \<Rightarrow> None, calls))
            (shutdown start1 start2 save_grace_s procs))"

section \<open>No orphan survives, and nobody is signalled early\<close>

text \<open>A process seen dead stays dead.\<close>

definition stays_dead :: "esc_obs \<Rightarrow> bool" where
  "stays_dead ob \<longleftrightarrow> (eo_kill ob \<longrightarrow> eo_join ob) \<and> (eo_join ob \<longrightarrow> eo_term ob)
     \<and> (eo_term ob \<longrightarrow> (\<forall>w \<in> set (eo_waits ob). wo_alive w))"

text \<open>The join loop has a reason to end: the process has gone, its window is over, or the save is abandoned.\<close>

definition window_over :: "real \<Rightarrow> wait_obs \<Rightarrow> bool" where
  "window_over deadline w \<longleftrightarrow> deadline \<le> wo_now w \<or> wo_force w"

lemma wait_coop_returns:
  "(\<exists>cs. wait_coop deadline p obs = Some cs) \<longleftrightarrow> (\<exists>w \<in> set obs. \<not> wo_alive w \<or> window_over deadline w)"
proof (induction obs)
  case (Cons w obs)
  have "(\<exists>cs. wait_coop deadline p (w # obs) = Some cs)
      \<longleftrightarrow> \<not> wo_alive w \<or> window_over deadline w \<or> (\<exists>cs. wait_coop deadline p obs = Some cs)"
    by (auto simp: window_over_def)
  then show ?case using Cons.IH by simp
qed simp

lemma wait_coop_joins: "wait_coop deadline p obs = Some cs \<Longrightarrow> set cs \<subseteq> {Join p (1 / 4)}"
  by (induction obs arbitrary: cs) (fastforce split: if_splits)+

lemma wait_all_returns:
  "(\<exists>cs. wait_all deadline ps = Some cs) \<longleftrightarrow> (\<forall>(p, ob) \<in> set ps. \<exists>w \<in> set (eo_waits ob). \<not> wo_alive w \<or> window_over deadline w)"
proof (induction ps)
  case (Cons q ps)
  obtain p ob where q: "q = (p, ob)" by (cases q)
  have "(\<exists>cs. wait_all deadline (q # ps) = Some cs)
      \<longleftrightarrow> (\<exists>cs. wait_coop deadline p (eo_waits ob) = Some cs) \<and> (\<exists>cs. wait_all deadline ps = Some cs)"
    by (auto simp: q split: option.splits)
  then show ?case using Cons.IH by (simp add: wait_coop_returns q)
qed simp

lemma wait_all_joins: "wait_all deadline ps = Some cs \<Longrightarrow> c \<in> set cs \<Longrightarrow> \<exists>p \<in> fst ` set ps. c = Join p (1 / 4)"
proof (induction ps arbitrary: cs)
  case (Cons q ps)
  obtain p ob where q: "q = (p, ob)" by (cases q)
  obtain as bs where ab: "wait_coop deadline p (eo_waits ob) = Some as" "wait_all deadline ps = Some bs" "cs = as @ bs"
    using Cons.prems(1) by (auto simp: q split: option.splits)
  show ?case using Cons.prems(2) ab(3) wait_coop_joins[OF ab(1)] Cons.IH[OF ab(2)] by (auto simp: q)
qed simp

lemma member_filter_map:
  assumes "distinct (map fst ps)" "(p, ob) \<in> set ps"
  shows "p \<in> fst ` set (filter (\<lambda>(p, ob). f ob) ps) \<longleftrightarrow> f ob"
  using assms by (auto simp: image_iff dest: eq_key_imp_eq_value)

lemma signal_calls:
  assumes "distinct (map fst ps)" "(p, ob) \<in> set ps"
  shows "Terminate p \<in> set (term_calls ps) \<longleftrightarrow> eo_term ob"
    and "Join p TERM_GRACE_S \<in> set (join_calls ps) \<longleftrightarrow> eo_join ob"
    and "Kill p \<in> set (kill_calls ps) \<longleftrightarrow> eo_kill ob"
  using assms by (auto simp: term_calls_def join_calls_def kill_calls_def image_iff dest: eq_key_imp_eq_value)

lemma escalate_kills:
  assumes run: "escalate start coop ps = Some calls" and d: "distinct (map fst ps)" and mem: "(p, ob) \<in> set ps"
  shows "Kill p \<in> set calls \<longleftrightarrow> eo_kill ob" "Terminate p \<in> set calls \<longleftrightarrow> eo_term ob"
proof -
  obtain cs where cs: "wait_all (start + coop) ps = Some cs" "calls = cs @ term_calls ps @ join_calls ps @ kill_calls ps"
    using run by (auto simp: escalate_def)
  have "Kill p \<notin> set (cs @ term_calls ps @ join_calls ps)" "Terminate p \<notin> set (cs @ join_calls ps @ kill_calls ps)"
    using wait_all_joins[OF cs(1)] by (auto simp: term_calls_def join_calls_def kill_calls_def split: if_splits)
  then show "Kill p \<in> set calls \<longleftrightarrow> eo_kill ob" "Terminate p \<in> set calls \<longleftrightarrow> eo_term ob"
    using signal_calls[OF d mem] cs(2) by auto
qed

lemma escalate_order:
  assumes run: "escalate start coop ps = Some calls" and d: "distinct (map fst ps)" and mem: "(p, ob) \<in> set ps"
    and ok: "stays_dead ob" and kill: "Kill p \<in> set calls"
  shows "\<exists>as bs cs. calls = as @ bs @ cs \<and> Terminate p \<in> set as \<and> Join p TERM_GRACE_S \<in> set bs \<and> Kill p \<in> set cs"
proof -
  have "eo_term ob" "eo_join ob" "eo_kill ob" using escalate_kills[OF run d mem] kill ok by (auto simp: stays_dead_def)
  then have m: "Terminate p \<in> set (term_calls ps)" "Join p TERM_GRACE_S \<in> set (join_calls ps)" "Kill p \<in> set (kill_calls ps)"
    using signal_calls[OF d mem] by auto
  obtain cs where "calls = (cs @ term_calls ps) @ join_calls ps @ kill_calls ps"
    using run by (auto simp: escalate_def)
  then show ?thesis using m
    by (intro exI[of _ "cs @ term_calls ps"] exI[of _ "join_calls ps"] exI[of _ "kill_calls ps"]) simp
qed

lemma escalate_not_early:
  assumes run: "escalate start coop ps = Some calls" and d: "distinct (map fst ps)" and mem: "(p, ob) \<in> set ps"
    and ok: "stays_dead ob" and trm: "Terminate p \<in> set calls"
  shows "\<exists>w \<in> set (eo_waits ob). wo_alive w \<and> window_over (start + coop) w"
proof -
  have "\<exists>cs. wait_all (start + coop) ps = Some cs" using run by (auto simp: escalate_def)
  then have "\<exists>w \<in> set (eo_waits ob). \<not> wo_alive w \<or> window_over (start + coop) w"
    using mem unfolding wait_all_returns by blast
  then show ?thesis using escalate_kills(2)[OF run d mem] trm ok by (auto simp: stays_dead_def)
qed

lemma escalate_pids:
  assumes run: "escalate start coop ps = Some calls" and c: "c \<in> set calls"
  shows "pcall_pid c \<in> fst ` set ps"
proof -
  obtain cs where cs: "wait_all (start + coop) ps = Some cs" "calls = cs @ term_calls ps @ join_calls ps @ kill_calls ps"
    using run by (auto simp: escalate_def)
  have "\<exists>p \<in> fst ` set ps. c = Join p (1 / 4) \<or> c = Terminate p \<or> c = Join p TERM_GRACE_S \<or> c = Kill p \<or> c = Join p 2"
    using c cs(2) wait_all_joins[OF cs(1)]
    by (force simp: term_calls_def join_calls_def kill_calls_def split: if_splits)
  then show ?thesis by (elim bexE disjE) simp_all
qed

lemma split_saver_set: "split_saver procs = (hw, sv) \<Longrightarrow> snd ` set procs = set hw \<union> set_option sv"
  by (induction procs arbitrary: hw sv rule: split_saver.induct) (simp_all split: if_splits prod.splits, force+)

lemma split_saver_name: "split_saver procs = (hw, Some q) \<Longrightarrow> (RECORDING_NODE, q) \<in> set procs"
  by (induction procs arbitrary: hw rule: split_saver.induct) (auto split: if_splits prod.splits)

lemma split_saver_distinct:
  assumes "split_saver procs = (hw, sv)" "distinct (map (fst \<circ> snd) procs)"
  shows "distinct (map fst hw) \<and> (\<forall>q. sv = Some q \<longrightarrow> fst q \<notin> fst ` set hw)"
  using assms
proof (induction procs arbitrary: hw sv)
  case (Cons a procs)
  obtain n q where a: "a = (n, q)" by (cases a)
  obtain hw' sv' where s: "split_saver procs = (hw', sv')" by fastforce
  note ih = Cons.IH[OF s]
  have new: "fst q \<notin> fst ` snd ` set procs" using Cons.prems(2) by (simp add: a image_image)
  show ?case
  proof (cases "n = RECORDING_NODE")
    case True
    then have "hw = map snd procs" "sv = Some q" using Cons.prems(1) by (auto simp: a)
    then show ?thesis using Cons.prems(2) new by (auto simp: a comp_def)
  next
    case False
    then have h: "hw = q # hw'" "sv = sv'" using Cons.prems(1) s by (auto simp: a)
    have "set hw' \<subseteq> snd ` set procs" "set_option sv' \<subseteq> snd ` set procs" using split_saver_set[OF s] by auto
    then have "fst ` set hw' \<subseteq> fst ` snd ` set procs" "fst ` set_option sv' \<subseteq> fst ` snd ` set procs" by (blast intro: image_mono)+
    then have "fst q \<notin> fst ` set hw'" "fst q \<notin> fst ` set_option sv'" using new by blast+
    then have "fst q \<notin> fst ` set hw'" "\<forall>q'. sv' = Some q' \<longrightarrow> fst q' \<noteq> fst q" by auto
    then show ?thesis using ih Cons.prems(2) h by (auto simp: a)
  qed
qed simp

text \<open>
  C33. Shutdown leaves no orphan and never cuts an episode save short. When every process that is seen dead stays dead:
  a process still alive at the last look is sent SIGKILL, and only such a process is, after SIGTERM and a two-second
  join; no process is sent SIGTERM unless it was seen alive with its cooperative window over (five seconds for the
  hardware, the save grace for the recorder) or with the save abandoned by the operator; the hardware is
  dealt with before the recorder is waited for.
\<close>

theorem shutdown_leaves_no_orphan:
  assumes run: "shutdown start1 start2 grace procs = Some (cs, ds)"
    and d: "distinct (map (fst \<circ> snd) procs)" and ok: "\<forall>(n, p, ob) \<in> set procs. stays_dead ob"
    and mem: "(n, p, ob) \<in> set procs"
  shows "(Kill p \<in> set (cs @ ds) \<longleftrightarrow> eo_kill ob)
    \<and> (Kill p \<in> set (cs @ ds) \<longrightarrow> (\<exists>as bs es. cs @ ds = as @ bs @ es
          \<and> Terminate p \<in> set as \<and> Join p TERM_GRACE_S \<in> set bs \<and> Kill p \<in> set es))
    \<and> (Terminate p \<in> set cs \<longrightarrow> (\<exists>w \<in> set (eo_waits ob). wo_alive w \<and> window_over (start1 + HARDWARE_GRACE_S) w))
    \<and> (Terminate p \<in> set ds \<longrightarrow> (\<exists>w \<in> set (eo_waits ob). wo_alive w \<and> window_over (start2 + grace) w))
    \<and> (p \<in> pcall_pid ` set ds \<longrightarrow> p \<notin> pcall_pid ` set cs \<and> (RECORDING_NODE, p, ob) \<in> set procs)"
proof -
  obtain hw sv where s: "split_saver procs = (hw, sv)" by fastforce
  have e1: "escalate start1 HARDWARE_GRACE_S hw = Some cs"
    using run s by (auto simp: shutdown_def split: option.splits)
  have dh: "distinct (map fst hw)" and dsv: "sv = Some q \<Longrightarrow> fst q \<notin> fst ` set hw" for q
    using split_saver_distinct[OF s d] by auto
  have okp: "stays_dead ob" using ok mem by auto
  consider (hw) "(p, ob) \<in> set hw" | (saver) "sv = Some (p, ob)" "p \<notin> fst ` set hw"
  proof (cases "(p, ob) \<in> set hw")
    case False
    then have "sv = Some (p, ob)" using split_saver_set[OF s] mem by (force simp: image_iff)
    then show ?thesis using dsv saver by force
  qed (rule that(1))
  then show ?thesis
  proof cases
    case hw
    have nd: "p \<notin> pcall_pid ` set ds"
    proof (cases sv)
      case (Some q)
      then have e2: "escalate start2 grace [q] = Some ds" using run s e1 by (auto simp: shutdown_def)
      have "fst q \<noteq> p" using dsv[OF Some] hw by (metis fst_conv image_eqI)
      then show ?thesis using escalate_pids[OF e2] by auto
    qed (use run s e1 in \<open>auto simp: shutdown_def\<close>)
    then have "Kill p \<notin> set ds" "Terminate p \<notin> set ds" by force+
    moreover have "\<exists>as bs es. cs @ ds = as @ bs @ es \<and> Terminate p \<in> set as \<and> Join p TERM_GRACE_S \<in> set bs \<and> Kill p \<in> set es"
      if k: "Kill p \<in> set cs"
    proof -
      obtain as bs es where "cs = as @ bs @ es" "Terminate p \<in> set as" "Join p TERM_GRACE_S \<in> set bs" "Kill p \<in> set es"
        using escalate_order[OF e1 dh hw okp k] by blast
      then have "cs @ ds = as @ bs @ (es @ ds) \<and> Terminate p \<in> set as \<and> Join p TERM_GRACE_S \<in> set bs \<and> Kill p \<in> set (es @ ds)"
        by simp
      then show ?thesis by blast
    qed
    ultimately show ?thesis
      using nd escalate_kills(1)[OF e1 dh hw] escalate_not_early[OF e1 dh hw okp] by simp
  next
    case saver
    then have e2: "escalate start2 grace [(p, ob)] = Some ds" using run s e1 by (auto simp: shutdown_def)
    have nc: "p \<notin> pcall_pid ` set cs" using escalate_pids[OF e1] saver(2) by blast
    then have nk: "Kill p \<notin> set cs" "Terminate p \<notin> set cs" by force+
    have "\<exists>as bs es. cs @ ds = as @ bs @ es \<and> Terminate p \<in> set as \<and> Join p TERM_GRACE_S \<in> set bs \<and> Kill p \<in> set es"
      if k: "Kill p \<in> set ds"
    proof -
      obtain as bs es where "ds = as @ bs @ es" "Terminate p \<in> set as" "Join p TERM_GRACE_S \<in> set bs" "Kill p \<in> set es"
        using escalate_order[OF e2 _ _ okp k] by auto
      then have "cs @ ds = (cs @ as) @ bs @ es \<and> Terminate p \<in> set (cs @ as) \<and> Join p TERM_GRACE_S \<in> set bs \<and> Kill p \<in> set es"
        by simp
      then show ?thesis by blast
    qed
    moreover have "(RECORDING_NODE, p, ob) \<in> set procs" using split_saver_name s saver(1) by simp
    ultimately show ?thesis
      using nk nc escalate_kills(1)[OF e2, of p ob] escalate_not_early[OF e2 _ _ okp] by simp
  qed
qed

definition quick_exit :: esc_obs where
  "quick_exit = \<lparr>eo_waits = [\<lparr>wo_alive = False, wo_now = 1, wo_force = False\<rparr>], eo_term = False, eo_join = False, eo_kill = False\<rparr>"

definition wedged_exit :: esc_obs where
  "wedged_exit = \<lparr>eo_waits = [\<lparr>wo_alive = True, wo_now = 1, wo_force = False\<rparr>, \<lparr>wo_alive = True, wo_now = 6, wo_force = False\<rparr>],
     eo_term = True, eo_join = True, eo_kill = True\<rparr>"

theorem shutdown_leaves_no_orphan_witness:
  "shutdown 0 6 300 [(''flexiv:left'', 4, wedged_exit), (''collection'', 5, quick_exit)]
     = Some ([Join 4 (1 / 4), Terminate 4, Join 4 TERM_GRACE_S, Kill 4, Join 4 2], [])
   \<and> (\<exists>w. w \<in> set (eo_waits wedged_exit) \<and> wo_alive w \<and> window_over (0 + HARDWARE_GRACE_S) w)"
proof -
  let ?procs = "[(''flexiv:left'', 4::nat, wedged_exit), (''collection'', 5, quick_exit)]"
  have run: "shutdown 0 6 300 ?procs = Some ([Join 4 (1 / 4), Terminate 4, Join 4 TERM_GRACE_S, Kill 4, Join 4 2], [])"
    by code_simp
  have d: "distinct (map (fst \<circ> snd) ?procs)" by code_simp
  have ok: "\<forall>(n, p, ob) \<in> set ?procs. stays_dead ob" by (simp add: stays_dead_def quick_exit_def wedged_exit_def)
  have mem: "(''flexiv:left'', 4, wedged_exit) \<in> set ?procs" by simp
  have "Terminate 4 \<in> set [Join 4 (1 / 4), Terminate 4, Join 4 TERM_GRACE_S, Kill 4, Join 4 2]" by simp
  then show ?thesis using shutdown_leaves_no_orphan[OF run d ok mem] run by blast
qed

text \<open>
  The exit of a one-shot run tells a crash from a clean end: it names a node and its non-zero code exactly when the
  supervise loop's first dead node had that code, with no stop request and the duration not elapsed until then; the
  loop ends at the first pass that sees a stop request, the deadline passed or a dead node.
\<close>

theorem crash_surfaces:
  assumes run: "run_system deadline ts start1 start2 grace procs = Some (out, calls)"
  shows "\<exists>pre t post. ts = pre @ t # post
      \<and> (\<forall>u \<in> set pre. \<not> sp_stop u \<and> (\<forall>d. deadline = Some d \<longrightarrow> sp_now u < d) \<and> first_dead (sp_seen u) = None)
      \<and> (sp_stop t \<or> (\<exists>d. deadline = Some d \<and> d \<le> sp_now t) \<or> first_dead (sp_seen t) \<noteq> None)
      \<and> (\<forall>n c. out = Some (n, c) \<longleftrightarrow> \<not> sp_stop t \<and> (\<forall>d. deadline = Some d \<longrightarrow> sp_now t < d)
            \<and> first_dead (sp_seen t) = Some (n, Some c) \<and> c \<noteq> 0)"
proof -
  have split: "supervise deadline ts = Some fin \<Longrightarrow> \<exists>pre t post. ts = pre @ t # post
      \<and> (\<forall>u \<in> set pre. \<not> sp_stop u \<and> (\<forall>d. deadline = Some d \<longrightarrow> sp_now u < d) \<and> first_dead (sp_seen u) = None)
      \<and> (sp_stop t \<and> fin = Stopped \<or> \<not> sp_stop t \<and> (\<exists>d. deadline = Some d \<and> d \<le> sp_now t) \<and> fin = DurationElapsed
         \<or> \<not> sp_stop t \<and> (\<forall>d. deadline = Some d \<longrightarrow> sp_now t < d) \<and> (\<exists>q. first_dead (sp_seen t) = Some q \<and> fin = node_end q))" for fin
  proof (induction ts)
    case (Cons t ts)
    show ?case
    proof (cases "sp_stop t \<or> (\<exists>d. deadline = Some d \<and> d \<le> sp_now t) \<or> first_dead (sp_seen t) \<noteq> None")
      case True
      then show ?thesis using Cons.prems
        by (intro exI[of _ "[]"] exI[of _ t] exI[of _ ts]) (auto split: if_splits option.splits simp: not_le)
    next
      case False
      then have go: "supervise deadline ts = Some fin" "\<not> sp_stop t \<and> (\<forall>d. deadline = Some d \<longrightarrow> sp_now t < d) \<and> first_dead (sp_seen t) = None"
        using Cons.prems by (auto split: if_splits option.splits simp: not_le)
      obtain pre t' post where "ts = pre @ t' # post" and rest:
        "(\<forall>u \<in> set pre. \<not> sp_stop u \<and> (\<forall>d. deadline = Some d \<longrightarrow> sp_now u < d) \<and> first_dead (sp_seen u) = None)
      \<and> (sp_stop t' \<and> fin = Stopped \<or> \<not> sp_stop t' \<and> (\<exists>d. deadline = Some d \<and> d \<le> sp_now t') \<and> fin = DurationElapsed
         \<or> \<not> sp_stop t' \<and> (\<forall>d. deadline = Some d \<longrightarrow> sp_now t' < d) \<and> (\<exists>q. first_dead (sp_seen t') = Some q \<and> fin = node_end q))"
        using Cons.IH[OF go(1)] by blast
      then show ?thesis using go(2) by (intro exI[of _ "t # pre"] exI[of _ t'] exI[of _ post]) simp
    qed
  qed simp
  obtain fin where fin: "supervise deadline ts = Some fin" "out = (case fin of NodeCrashed n c \<Rightarrow> Some (n, c) | _ \<Rightarrow> None)"
    using run by (auto simp: run_system_def split: option.splits)
  have ends: "node_end q = NodeCrashed n c \<longleftrightarrow> q = (n, Some c) \<and> c \<noteq> 0" for q n c
    by (cases "(q)" rule: node_end.cases) auto
  have outs: "out = Some (n, c) \<longleftrightarrow> fin = NodeCrashed n c" for n c using fin(2) by (cases fin) auto
  obtain pre t post where ts: "ts = pre @ t # post"
      "\<forall>u \<in> set pre. \<not> sp_stop u \<and> (\<forall>d. deadline = Some d \<longrightarrow> sp_now u < d) \<and> first_dead (sp_seen u) = None"
    and how: "sp_stop t \<and> fin = Stopped \<or> \<not> sp_stop t \<and> (\<exists>d. deadline = Some d \<and> d \<le> sp_now t) \<and> fin = DurationElapsed
         \<or> \<not> sp_stop t \<and> (\<forall>d. deadline = Some d \<longrightarrow> sp_now t < d) \<and> (\<exists>q. first_dead (sp_seen t) = Some q \<and> fin = node_end q)"
    using split[OF fin(1)] by blast
  have why: "sp_stop t \<or> (\<exists>d. deadline = Some d \<and> d \<le> sp_now t) \<or> first_dead (sp_seen t) \<noteq> None" using how by blast
  have "\<forall>n c. out = Some (n, c) \<longleftrightarrow> \<not> sp_stop t \<and> (\<forall>d. deadline = Some d \<longrightarrow> sp_now t < d)
            \<and> first_dead (sp_seen t) = Some (n, Some c) \<and> c \<noteq> 0"
    using how unfolding outs by (elim disjE conjE exE) (auto simp: ends)
  then show ?thesis using ts why by blast
qed

theorem crash_surfaces_witness:
  "run_system (Some 60) [\<lparr>sp_stop = False, sp_now = 1, sp_seen = [(''zed:wrist'', None)]\<rparr>,
       \<lparr>sp_stop = False, sp_now = 2, sp_seen = [(''zed:wrist'', Some (Some 1))]\<rparr>] 0 6 300 [(''zed:wrist'', 4, quick_exit)]
     = Some (Some (''zed:wrist'', 1), [], [])
   \<and> (\<exists>t :: sup_tick. first_dead (sp_seen t) = Some (''zed:wrist'', Some 1))"
proof -
  have run: "run_system (Some 60) [\<lparr>sp_stop = False, sp_now = 1, sp_seen = [(''zed:wrist'', None)]\<rparr>,
       \<lparr>sp_stop = False, sp_now = 2, sp_seen = [(''zed:wrist'', Some (Some 1))]\<rparr>] 0 6 300 [(''zed:wrist'', 4, quick_exit)]
     = Some (Some (''zed:wrist'', 1), [], [])" by code_simp
  have "\<exists>t :: sup_tick. first_dead (sp_seen t) = Some (''zed:wrist'', Some 1)"
    using crash_surfaces[OF run] by (elim exE conjE allE[of _ "''zed:wrist''"] allE[of _ "1::int"]) fast
  then show ?thesis using run by simp
qed

section \<open>Paced respawns\<close>

text \<open>
  What the supervisors of arms, cameras and server processes promise of one beat on one unit: it keeps the unit's
  process, or gives it a new one no earlier than the pace after the last. \<open>ok\<close> is what the unit's own bookkeeping has to
  keep for that.
\<close>

locale paced_respawn =
  fixes beat :: "real \<Rightarrow> 'u \<Rightarrow> 'u \<Rightarrow> bool" and spawned :: "'u \<Rightarrow> real" and proc :: "'u \<Rightarrow> 'p" and ok :: "'u \<Rightarrow> bool" and pace :: real
  assumes pace_nonneg: "0 \<le> pace"
    and keeps: "ok u \<Longrightarrow> spawned u \<le> now \<Longrightarrow> beat now u u'
      \<Longrightarrow> ok u' \<and> (proc u' = proc u \<and> spawned u' = spawned u \<or> spawned u' = now \<and> spawned u + pace \<le> now)"
begin

text \<open>A run of beats at increasing clocks, with the clocks of those that changed the process.\<close>

inductive beats :: "'u \<Rightarrow> real list \<Rightarrow> real \<Rightarrow> 'u \<Rightarrow> bool" for u where
  start: "spawned u \<le> t \<Longrightarrow> beats u [] t u"
| same: "beats u ss t v \<Longrightarrow> t \<le> now \<Longrightarrow> beat now v v' \<Longrightarrow> proc v' = proc v \<Longrightarrow> beats u ss now v'"
| fresh: "beats u ss t v \<Longrightarrow> t \<le> now \<Longrightarrow> beat now v v' \<Longrightarrow> proc v' \<noteq> proc v \<Longrightarrow> beats u (ss @ [now]) now v'"

lemma spaced_snoc:
  assumes "sorted_wrt (\<lambda>a b. a + pace \<le> b) xs" "\<forall>x \<in> set xs. x \<le> l" "l + pace \<le> y"
  shows "sorted_wrt (\<lambda>a b. a + pace \<le> b) (xs @ [y])"
  using assms by (force simp: sorted_wrt_append)

lemma beats_spaced:
  assumes "beats u ss t v" "ok u"
  shows "ok v \<and> spawned v \<le> t \<and> sorted_wrt (\<lambda>a b. a + pace \<le> b) (spawned u # ss) \<and> (\<forall>x \<in> set (spawned u # ss). x \<le> spawned v)"
  using assms
proof (induction rule: beats.induct)
  case (same ss t v now v')
  then have sv: "spawned v \<le> now" by linarith
  note k = keeps[OF _ sv same.hyps(3)]
  show ?case using same k pace_nonneg by fastforce
next
  case (fresh ss t v now v')
  then have ih: "ok v" "spawned v \<le> now" "sorted_wrt (\<lambda>a b. a + pace \<le> b) (spawned u # ss)" "\<forall>x \<in> set (spawned u # ss). x \<le> spawned v"
    by auto
  have k: "ok v'" "spawned v' = now" "spawned v + pace \<le> now" using keeps[OF ih(1,2) fresh.hyps(3)] fresh.hyps(4) by auto
  have "sorted_wrt (\<lambda>a b. a + pace \<le> b) ((spawned u # ss) @ [now])" by (rule spaced_snoc[OF ih(3,4) k(3)])
  then show ?case using k ih(2,4) by auto
qed simp

lemma respawns_spaced: "beats u ss t v \<Longrightarrow> ok u \<Longrightarrow> sorted_wrt (\<lambda>a b. a + pace \<le> b) (spawned u # ss)"
  using beats_spaced by blast

end

end
