(* ===== verification/Leader_Launch.thy ===== *)
theory Leader_Launch
  imports Processes
begin

text \<open>
  The supervisor of the external FACTR server processes (\<open>interfaces/factr/launch.py\<close>): one teleop per leader arm and
  an API relay, taken through OFF, COUNTDOWN, RUNNING and STOPPING by \<open>request_start\<close>, \<open>start_now\<close>, \<open>request_stop\<close>,
  \<open>tend\<close> and the blocking \<open>shutdown\<close>.

  The theory shows that SIGTERM and SIGKILL reach a leader only after a SIGINT, the one stop that de-energizes it, has
  had its grace; that no teleop is respawned without an operator's start; that \<open>shutdown\<close> returns; and what a launch that
  fails half-way leaves behind.
\<close>

section \<open>The process table\<close>

datatype psig = SIGINT | SIGTERM | SIGKILL

text \<open>Live processes, the next identifier, and the signals sent so far with their times.\<close>

record os =
  os_live :: "pid list"
  os_next :: pid
  os_sigs :: "(pid \<times> psig \<times> real) list"

definition os_spawn :: "os \<Rightarrow> pid \<times> os" where
  "os_spawn o1 = (os_next o1, o1\<lparr>os_live := os_next o1 # os_live o1, os_next := Suc (os_next o1)\<rparr>)"

definition os_alive :: "os \<Rightarrow> pid \<Rightarrow> bool" where
  "os_alive o1 p \<longleftrightarrow> p \<in> set (os_live o1)"

definition os_signal :: "psig \<Rightarrow> real \<Rightarrow> pid list \<Rightarrow> os \<Rightarrow> os" where
  "os_signal sg now ps o1 = o1\<lparr>os_sigs := os_sigs o1 @ map (\<lambda>p. (p, sg, now)) ps\<rparr>"

section \<open>Units and supervisor\<close>

datatype unit_kind = Teleop | Api

record server_unit =
  su_name :: string
  su_kind :: unit_kind
  su_module :: string
  su_side :: "string option"
  su_proc :: "pid option"
  su_spawned :: real
  su_announced :: bool

definition unit_alive :: "os \<Rightarrow> server_unit \<Rightarrow> bool" where
  "unit_alive o1 u = (case su_proc u of None \<Rightarrow> False | Some p \<Rightarrow> os_alive o1 p)"

record launch_cfg =
  lc_teleop_modules :: "(string, string) dict"
  lc_api_module :: string
  lc_calib_delay_s :: real
  lc_stop_grace_s :: real

datatype sup_state = OFF | COUNTDOWN | RUNNING | STOPPING

record supervisor =
  sv_cfg :: launch_cfg
  sv_units :: "server_unit list"
  sv_state :: sup_state
  sv_deadline :: "real option"
  sv_ends :: "real option"
  sv_terminated :: bool

type_synonym launcher = "supervisor \<times> os"

definition API_RESPAWN_S :: real where "API_RESPAWN_S = 10"
definition SHUTDOWN_SLACK_S :: real where "SHUTDOWN_SLACK_S = 5"

definition mk_unit :: "string \<Rightarrow> unit_kind \<Rightarrow> string \<Rightarrow> string option \<Rightarrow> server_unit" where
  "mk_unit name kind mdl side =
     \<lparr>su_name = name, su_kind = kind, su_module = mdl, su_side = side, su_proc = None, su_spawned = 0, su_announced = False\<rparr>"

definition mk_supervisor :: "launch_cfg \<Rightarrow> string list \<Rightarrow> string list option \<Rightarrow> supervisor res" where
  "mk_supervisor cfg sides leaders =
     (if leaders \<noteq> None \<and> \<not> set sides \<subseteq> set (the leaders) then Inl ValueError
      else rbind (mapR (\<lambda>side. rbind (ditem (lc_teleop_modules cfg) side)
                    (\<lambda>m. Inr (mk_unit (''teleop:'' @ side) Teleop m (Some side)))) sides)
        (\<lambda>us. Inr \<lparr>sv_cfg = cfg, sv_units = us @ [mk_unit ''api'' Api (lc_api_module cfg) None],
                 sv_state = OFF, sv_deadline = None, sv_ends = None, sv_terminated = False\<rparr>))"

section \<open>Spawning\<close>

text \<open>
  \<open>io\<close> tells for a unit whether its log could be opened and its process started. \<open>now\<close> is the clock of the call; a launch
  reads it once per unit, here once.
\<close>

definition spawn_unit :: "(string \<Rightarrow> bool) \<Rightarrow> real \<Rightarrow> server_unit \<Rightarrow> os \<Rightarrow> (server_unit \<times> os) res" where
  "spawn_unit io now u o1 =
     (if io (su_name u)
      then case os_spawn o1 of (p, o2) \<Rightarrow> Inr (u\<lparr>su_proc := Some p, su_spawned := now, su_announced := False\<rparr>, o2)
      else Inl OSError)"

fun spawn_units :: "(string \<Rightarrow> bool) \<Rightarrow> real \<Rightarrow> server_unit list \<Rightarrow> os \<Rightarrow> unit res \<times> server_unit list \<times> os" where
  "spawn_units io now [] o1 = (Inr (), [], o1)"
| "spawn_units io now (u # us) o1 =
     (case spawn_unit io now u o1 of
        Inl e \<Rightarrow> (Inl e, u # us, o1)
      | Inr (u', o2) \<Rightarrow> (case spawn_units io now us o2 of (r, us', o3) \<Rightarrow> (r, u' # us', o3)))"

definition spawn_all :: "(string \<Rightarrow> bool) \<Rightarrow> real \<Rightarrow> launcher \<Rightarrow> unit res \<times> launcher" where
  "spawn_all io now l =
     (case l of (sv, o1) \<Rightarrow>
      case spawn_units io now (sv_units sv) o1 of
        (Inl e, us, o2) \<Rightarrow> (Inl e, (sv\<lparr>sv_units := us\<rparr>, o2))
      | (Inr u, us, o2) \<Rightarrow> (Inr (), (sv\<lparr>sv_units := us, sv_state := RUNNING, sv_deadline := None, sv_ends := None\<rparr>, o2)))"

definition to_off :: "supervisor \<Rightarrow> supervisor" where
  "to_off sv = sv\<lparr>sv_units := map (\<lambda>u. u\<lparr>su_proc := None, su_announced := False\<rparr>) (sv_units sv),
     sv_state := OFF, sv_deadline := None, sv_ends := None, sv_terminated := False\<rparr>"

section \<open>Commands\<close>

definition request_start :: "real \<Rightarrow> real \<Rightarrow> launcher \<Rightarrow> bool \<times> launcher" where
  "request_start now wall l =
     (case l of (sv, o1) \<Rightarrow>
      if sv_state sv \<noteq> OFF then (False, l)
      else let delay = max 0 (lc_calib_delay_s (sv_cfg sv)) in
        (True, (sv\<lparr>sv_state := COUNTDOWN, sv_deadline := Some (now + delay), sv_ends := Some (wall + delay)\<rparr>, o1)))"

definition start_now :: "(string \<Rightarrow> bool) \<Rightarrow> real \<Rightarrow> launcher \<Rightarrow> bool res \<times> launcher" where
  "start_now io now l =
     (if sv_state (fst l) \<noteq> OFF then (Inr False, l)
      else case spawn_all io now l of (Inl e, l') \<Rightarrow> (Inl e, l') | (Inr u, l') \<Rightarrow> (Inr True, l'))"

definition live_pids :: "launcher \<Rightarrow> pid list" where
  "live_pids l = map (\<lambda>u. the (su_proc u)) (filter (unit_alive (snd l)) (sv_units (fst l)))"

definition request_stop :: "real \<Rightarrow> launcher \<Rightarrow> bool \<times> launcher" where
  "request_stop now l =
     (case l of (sv, o1) \<Rightarrow>
      case sv_state sv of
        COUNTDOWN \<Rightarrow> (True, (to_off sv, o1))
      | OFF \<Rightarrow> (False, l)
      | STOPPING \<Rightarrow> (False, l)
      | RUNNING \<Rightarrow> (True, (sv\<lparr>sv_state := STOPPING, sv_terminated := False,
                              sv_deadline := Some (now + lc_stop_grace_s (sv_cfg sv))\<rparr>,
                          os_signal SIGINT now (live_pids l) o1)))"

section \<open>Supervision\<close>

definition tend_unit :: "(string \<Rightarrow> bool) \<Rightarrow> real \<Rightarrow> server_unit \<Rightarrow> os \<Rightarrow> (server_unit \<times> os) res" where
  "tend_unit io now u o1 =
     (if unit_alive o1 u then Inr (u\<lparr>su_announced := False\<rparr>, o1)
      else if su_kind u = Api \<and> API_RESPAWN_S \<le> now - su_spawned u then spawn_unit io now (u\<lparr>su_announced := True\<rparr>) o1
      else Inr (u\<lparr>su_announced := True\<rparr>, o1))"

text \<open>A respawn that raises leaves its unit announced; the units after it are not looked at.\<close>

fun tend_running :: "(string \<Rightarrow> bool) \<Rightarrow> real \<Rightarrow> server_unit list \<Rightarrow> os \<Rightarrow> unit res \<times> server_unit list \<times> os" where
  "tend_running io now [] o1 = (Inr (), [], o1)"
| "tend_running io now (u # us) o1 =
     (case tend_unit io now u o1 of
        Inl e \<Rightarrow> (Inl e, u\<lparr>su_announced := True\<rparr> # us, o1)
      | Inr (u', o2) \<Rightarrow> (case tend_running io now us o2 of (r, us', o3) \<Rightarrow> (r, u' # us', o3)))"

definition tend_stopping :: "real \<Rightarrow> launcher \<Rightarrow> launcher" where
  "tend_stopping now l =
     (case l of (sv, o1) \<Rightarrow>
      if live_pids l = [] then (to_off sv, o1)
      else case sv_deadline sv of
        None \<Rightarrow> l
      | Some d \<Rightarrow>
          if now < d then l
          else if \<not> sv_terminated sv
          then (sv\<lparr>sv_terminated := True, sv_deadline := Some (now + TERM_GRACE_S)\<rparr>, os_signal SIGTERM now (live_pids l) o1)
          else (to_off sv, os_signal SIGKILL now (live_pids l) o1))"

definition tend :: "(string \<Rightarrow> bool) \<Rightarrow> real \<Rightarrow> launcher \<Rightarrow> unit res \<times> launcher" where
  "tend io now l =
     (case l of (sv, o1) \<Rightarrow>
      case sv_state sv of
        OFF \<Rightarrow> (Inr (), l)
      | COUNTDOWN \<Rightarrow> (case sv_deadline sv of
            None \<Rightarrow> (Inl TypeError, l)
          | Some d \<Rightarrow> if d \<le> now then spawn_all io now l else (Inr (), l))
      | RUNNING \<Rightarrow> (case tend_running io now (sv_units sv) o1 of (r, us, o2) \<Rightarrow> (r, (sv\<lparr>sv_units := us\<rparr>, o2)))
      | STOPPING \<Rightarrow> (Inr (), tend_stopping now l))"

text \<open>
  One turn of the blocking loop: the clock of the loop's test, the clock of \<open>tend\<close>, and the processes that die in the
  sleep. The supervisor stays in STOPPING or goes OFF, where \<open>tend\<close> cannot raise.
\<close>

record stop_tick =
  sk_test :: real
  sk_now :: real
  sk_died :: "pid list"

definition os_die :: "pid list \<Rightarrow> os \<Rightarrow> os" where
  "os_die ps o1 = o1\<lparr>os_live := filter (\<lambda>p. p \<notin> set ps) (os_live o1)\<rparr>"

fun stop_loop :: "real \<Rightarrow> stop_tick list \<Rightarrow> launcher \<Rightarrow> launcher option" where
  "stop_loop cap [] l = None"
| "stop_loop cap (k # ks) l =
     (if sv_state (fst l) \<noteq> STOPPING \<or> cap \<le> sk_test k then Some l
      else case tend_stopping (sk_now k) l of (sv, o1) \<Rightarrow> stop_loop cap ks (sv, os_die (sk_died k) o1))"

definition sup_shutdown :: "real \<Rightarrow> real \<Rightarrow> real \<Rightarrow> stop_tick list \<Rightarrow> launcher \<Rightarrow> launcher option" where
  "sup_shutdown now1 now2 now3 ks l =
     (case sv_state (fst l) of
        COUNTDOWN \<Rightarrow> Some (to_off (fst l), snd l)
      | OFF \<Rightarrow> Some l
      | _ \<Rightarrow>
          (let l1 = (if sv_state (fst l) = RUNNING then snd (request_stop now1 l) else l);
               cap = now2 + lc_stop_grace_s (sv_cfg (fst l)) + TERM_GRACE_S + SHUTDOWN_SLACK_S in
           map_option (\<lambda>l2. if sv_state (fst l2) = STOPPING
                then (to_off (fst l2), os_signal SIGKILL now3 (live_pids l2) (snd l2)) else l2)
             (stop_loop cap ks l1)))"

section \<open>What the dashboard sees\<close>

datatype unit_view = VOff | VCountdown | VStopping | VRunning | VDown

definition unit_state :: "launcher \<Rightarrow> server_unit \<Rightarrow> unit_view" where
  "unit_state l u =
     (case sv_state (fst l) of
        OFF \<Rightarrow> VOff
      | COUNTDOWN \<Rightarrow> VCountdown
      | RUNNING \<Rightarrow> if unit_alive (snd l) u then VRunning else VDown
      | STOPPING \<Rightarrow> if unit_alive (snd l) u then VStopping else VDown)"

record sup_status =
  ss_state :: sup_state
  ss_ends :: "real option"
  ss_total :: real
  ss_units :: "(string, unit_view) dict"
  ss_down :: "string set"

definition sup_status_of :: "launcher \<Rightarrow> sup_status" where
  "sup_status_of l =
     \<lparr>ss_state = sv_state (fst l), ss_ends = (if sv_state (fst l) = COUNTDOWN then sv_ends (fst l) else None),
      ss_total = max 0 (lc_calib_delay_s (sv_cfg (fst l))),
      ss_units = map (\<lambda>u. (su_name u, unit_state l u)) (sv_units (fst l)),
      ss_down = set (map su_name (filter (\<lambda>u. sv_state (fst l) = RUNNING \<and> \<not> unit_alive (snd l) u) (sv_units (fst l))))\<rparr>"

section \<open>Runs of the supervisor\<close>

text \<open>
  Between the supervisor's calls time passes, processes die and other processes start. A shutdown reads the
  clock in order.
\<close>

fun clock_order :: "real \<Rightarrow> stop_tick list \<Rightarrow> real \<Rightarrow> bool" where
  "clock_order t [] t' \<longleftrightarrow> t \<le> t'"
| "clock_order t (k # ks) t' \<longleftrightarrow> t \<le> sk_test k \<and> sk_test k \<le> sk_now k \<and> clock_order (sk_now k) ks t'"

inductive sup_reach :: "launch_cfg \<Rightarrow> real \<Rightarrow> launcher \<Rightarrow> bool" for cfg where
  boot: "mk_supervisor cfg sides leaders = Inr sv \<Longrightarrow> os_sigs o1 = [] \<Longrightarrow> \<forall>p \<in> set (os_live o1). p < os_next o1
    \<Longrightarrow> sup_reach cfg t (sv, o1)"
| elapse: "sup_reach cfg t l \<Longrightarrow> t \<le> t' \<Longrightarrow> sup_reach cfg t' l"
| die: "sup_reach cfg t (sv, o1) \<Longrightarrow> sup_reach cfg t (sv, os_die ps o1)"
| other: "sup_reach cfg t (sv, o1) \<Longrightarrow> sup_reach cfg t (sv, snd (os_spawn o1))"
| start: "sup_reach cfg t l \<Longrightarrow> request_start t wall l = (b, l') \<Longrightarrow> sup_reach cfg t l'"
| now: "sup_reach cfg t l \<Longrightarrow> start_now io t l = (r, l') \<Longrightarrow> sup_reach cfg t l'"
| stop: "sup_reach cfg t l \<Longrightarrow> request_stop t l = (b, l') \<Longrightarrow> sup_reach cfg t l'"
| tend: "sup_reach cfg t l \<Longrightarrow> tend io t l = (r, l') \<Longrightarrow> sup_reach cfg t l'"
| down: "sup_reach cfg t l \<Longrightarrow> t \<le> t1 \<Longrightarrow> t1 \<le> t2 \<Longrightarrow> clock_order t2 ks t3 \<Longrightarrow> sup_shutdown t1 t2 t3 ks l = Some l'
    \<Longrightarrow> sup_reach cfg t3 l'"

definition sigint_by :: "os \<Rightarrow> real \<Rightarrow> pid \<Rightarrow> bool" where
  "sigint_by o1 d p \<longleftrightarrow> (\<exists>s. (p, SIGINT, s) \<in> set (os_sigs o1) \<and> s \<le> d)"

definition graced :: "launch_cfg \<Rightarrow> os \<Rightarrow> bool" where
  "graced cfg o1 \<longleftrightarrow> (\<forall>(p, sg, s) \<in> set (os_sigs o1). sg \<noteq> SIGINT \<longrightarrow> sigint_by o1 (s - lc_stop_grace_s cfg) p)"

definition known_pids :: "launcher \<Rightarrow> bool" where
  "known_pids l \<longleftrightarrow> (\<forall>p \<in> set (os_live (snd l)). p < os_next (snd l))
     \<and> (\<forall>u \<in> set (sv_units (fst l)). \<forall>p. su_proc u = Some p \<longrightarrow> p < os_next (snd l))"

definition stop_inv :: "launch_cfg \<Rightarrow> launcher \<Rightarrow> bool" where
  "stop_inv cfg l \<longleftrightarrow> (sv_state (fst l) = STOPPING \<longrightarrow>
     (\<exists>d. sv_deadline (fst l) = Some d \<and> (\<forall>p \<in> set (live_pids l). sigint_by (snd l) (d - lc_stop_grace_s cfg) p)))"

definition sup_inv :: "launch_cfg \<Rightarrow> real \<Rightarrow> launcher \<Rightarrow> bool" where
  "sup_inv cfg t l \<longleftrightarrow> sv_cfg (fst l) = cfg \<and> (\<forall>(p, sg, s) \<in> set (os_sigs (snd l)). s \<le> t) \<and> graced cfg (snd l)
     \<and> known_pids l \<and> stop_inv cfg l"

lemmas sup_inv_defs = sup_inv_def stop_inv_def known_pids_def

lemma live_pids_mem:
  "p \<in> set (live_pids l) \<longleftrightarrow> (\<exists>u \<in> set (sv_units (fst l)). su_proc u = Some p) \<and> p \<in> set (os_live (snd l))"
  by (force simp: live_pids_def unit_alive_def os_alive_def split: option.splits)

lemma live_pids_cong: "sv_units sv' = sv_units sv \<Longrightarrow> os_live o2 = os_live o1 \<Longrightarrow> live_pids (sv', o2) = live_pids (sv, o1)"
proof -
  assume "sv_units sv' = sv_units sv" "os_live o2 = os_live o1"
  then have "unit_alive o2 = unit_alive o1" "sv_units sv' = sv_units sv"
    by (auto simp: unit_alive_def os_alive_def split: option.splits)
  then show "live_pids (sv', o2) = live_pids (sv, o1)" by (simp add: live_pids_def)
qed

lemma live_pids_to_off [simp]: "live_pids (to_off sv, o1) = []"
  by (simp add: live_pids_def to_off_def unit_alive_def filter_empty_conv)

lemma to_off_simps [simp]: "sv_state (to_off sv) = OFF" "sv_cfg (to_off sv) = sv_cfg sv"
    "\<forall>u \<in> set (sv_units (to_off sv)). su_proc u = None"
  by (auto simp: to_off_def)

lemma os_signal_simps [simp]: "os_live (os_signal sg now ps o1) = os_live o1" "os_next (os_signal sg now ps o1) = os_next o1"
    "set (os_sigs (os_signal sg now ps o1)) = set (os_sigs o1) \<union> (\<lambda>p. (p, sg, now)) ` set ps"
  by (auto simp: os_signal_def)

lemma os_die_simps [simp]: "set (os_live (os_die ps o1)) = set (os_live o1) - set ps" "os_next (os_die ps o1) = os_next o1"
    "os_sigs (os_die ps o1) = os_sigs o1"
  by (auto simp: os_die_def)

lemma sigint_by_mono: "sigint_by o1 d p \<Longrightarrow> d \<le> d' \<Longrightarrow> set (os_sigs o1) \<subseteq> set (os_sigs o2) \<Longrightarrow> sigint_by o2 d' p"
  by (fastforce simp: sigint_by_def)

text \<open>Sending a signal to processes that had their SIGINT in time.\<close>

lemma graced_signal:
  assumes "graced cfg o1" "\<forall>p \<in> set ps. sigint_by o1 (now - lc_stop_grace_s cfg) p \<or> sg = SIGINT"
  shows "graced cfg (os_signal sg now ps o1)"
proof -
  have "sigint_by (os_signal sg now ps o1) (s - lc_stop_grace_s cfg) p"
    if "(p, sg', s) \<in> set (os_sigs (os_signal sg now ps o1))" "sg' \<noteq> SIGINT" for p sg' s
  proof (rule sigint_by_mono[OF _ order_refl])
    show "sigint_by o1 (s - lc_stop_grace_s cfg) p" using that assms by (auto simp: graced_def)
  qed simp
  then show ?thesis by (auto simp: graced_def)
qed

lemma sup_inv_elapse: "sup_inv cfg t l \<Longrightarrow> t \<le> t' \<Longrightarrow> sup_inv cfg t' l"
  by (force simp: sup_inv_def)

lemma sup_inv_fewer:
  assumes inv: "sup_inv cfg t (sv, o1)" and same: "os_sigs o2 = os_sigs o1"
    and sub: "set (live_pids (sv, o2)) \<subseteq> set (live_pids (sv, o1))" and known: "known_pids (sv, o2)"
  shows "sup_inv cfg t (sv, o2)"
proof -
  have g: "graced cfg o2" "sigint_by o2 = sigint_by o1" using inv same by (auto simp: sup_inv_def graced_def sigint_by_def[abs_def])
  have "stop_inv cfg (sv, o2)" using inv sub by (auto simp: sup_inv_def stop_inv_def g(2))
  then show ?thesis using inv g(1) known same by (simp add: sup_inv_def)
qed

lemma sup_inv_off: "sup_inv cfg t (sv, o1) \<Longrightarrow> sup_inv cfg t (to_off sv, o1)"
  by (auto simp: sup_inv_defs)

lemma sup_inv_die: "sup_inv cfg t (sv, o1) \<Longrightarrow> sup_inv cfg t (sv, os_die ps o1)"
  by (rule sup_inv_fewer) (auto simp: live_pids_mem sup_inv_def known_pids_def)

lemma sup_inv_other:
  assumes inv: "sup_inv cfg t (sv, o1)"
  shows "sup_inv cfg t (sv, snd (os_spawn o1))"
proof -
  have known: "\<forall>u \<in> set (sv_units sv). \<forall>p. su_proc u = Some p \<longrightarrow> p < os_next o1" "\<forall>p \<in> set (os_live o1). p < os_next o1"
    using inv by (auto simp: sup_inv_def known_pids_def)
  have "su_proc u \<noteq> Some (os_next o1)" if "u \<in> set (sv_units sv)" for u using known(1) that by blast
  then show ?thesis
    by (intro sup_inv_fewer[OF inv]) (use known in \<open>auto simp: live_pids_mem known_pids_def os_spawn_def intro: less_SucI\<close>)
qed

text \<open>A call that leaves the supervisor out of STOPPING and only starts processes.\<close>

definition only_spawns :: "server_unit list \<times> os \<Rightarrow> server_unit list \<times> os \<Rightarrow> bool" where
  "only_spawns a b \<longleftrightarrow> os_sigs (snd b) = os_sigs (snd a) \<and> os_next (snd a) \<le> os_next (snd b)
     \<and> ((\<forall>p \<in> set (os_live (snd a)). p < os_next (snd a)) \<longrightarrow> (\<forall>p \<in> set (os_live (snd b)). p < os_next (snd b)))
     \<and> ((\<forall>u \<in> set (fst a). \<forall>p. su_proc u = Some p \<longrightarrow> p < os_next (snd a))
          \<longrightarrow> (\<forall>u \<in> set (fst b). \<forall>p. su_proc u = Some p \<longrightarrow> p < os_next (snd b)))"

lemma spawn_unit_only: "spawn_unit io now u o1 = Inr (u', o2) \<Longrightarrow> only_spawns ([u], o1) ([u'], o2)"
  by (auto simp: spawn_unit_def os_spawn_def only_spawns_def less_Suc_eq split: if_splits)

lemma tend_unit_only: "tend_unit io now u o1 = Inr (u', o2) \<Longrightarrow> only_spawns ([u], o1) ([u'], o2)"
  by (auto simp: tend_unit_def dest!: spawn_unit_only split: if_splits) (auto simp: only_spawns_def)

lemma only_spawns_Cons:
  assumes "only_spawns ([u], o1) ([u'], o2)" "only_spawns (us, o2) (us', o3)"
  shows "only_spawns (u # us, o1) (u' # us', o3)"
proof -
  have le: "os_next o1 \<le> os_next o2" "os_next o2 \<le> os_next o3" using assms by (auto simp: only_spawns_def)
  have "\<forall>v \<in> set (u # us). \<forall>p. su_proc v = Some p \<longrightarrow> p < os_next o1 \<Longrightarrow> \<forall>v \<in> set us. \<forall>p. su_proc v = Some p \<longrightarrow> p < os_next o2"
    using le(1) by (force intro: less_le_trans)
  then show ?thesis using assms le unfolding only_spawns_def by (auto intro: less_le_trans)
qed

lemma only_spawns_refl: "only_spawns (us, o1) (us, o1)"
  by (simp add: only_spawns_def)

lemma spawn_units_only: "spawn_units io now us o1 = (r, us', o2) \<Longrightarrow> only_spawns (us, o1) (us', o2)"
proof (induction us arbitrary: o1 r us' o2)
  case (Cons u us)
  show ?case
  proof (cases "spawn_unit io now u o1")
    case (Inl e)
    then show ?thesis using Cons.prems by (simp add: only_spawns_refl)
  next
    case (Inr q)
    obtain u' o3 us2 where q: "q = (u', o3)" "spawn_units io now us o3 = (r, us2, o2)" "us' = u' # us2"
      using Cons.prems Inr by (cases q) (auto split: prod.splits)
    show ?thesis unfolding q(3) using only_spawns_Cons[OF spawn_unit_only Cons.IH] Inr q by simp
  qed
qed (simp add: only_spawns_refl)

lemma tend_running_only: "tend_running io now us o1 = (r, us', o2) \<Longrightarrow> only_spawns (us, o1) (us', o2)"
proof (induction us arbitrary: o1 r us' o2)
  case (Cons u us)
  show ?case
  proof (cases "tend_unit io now u o1")
    case (Inl e)
    then show ?thesis using Cons.prems by (auto simp: only_spawns_def)
  next
    case (Inr q)
    obtain u' o3 us2 where q: "q = (u', o3)" "tend_running io now us o3 = (r, us2, o2)" "us' = u' # us2"
      using Cons.prems Inr by (cases q) (auto split: prod.splits)
    show ?thesis unfolding q(3) using only_spawns_Cons[OF tend_unit_only Cons.IH] Inr q by simp
  qed
qed (simp add: only_spawns_refl)

lemma sup_inv_spawned:
  assumes inv: "sup_inv cfg t (sv, o1)" and sp: "only_spawns (sv_units sv, o1) (sv_units sv', o2)"
    and st: "sv_cfg sv' = sv_cfg sv" "sv_state sv' \<noteq> STOPPING"
  shows "sup_inv cfg t (sv', o2)"
  using assms by (auto simp: sup_inv_defs only_spawns_def graced_def sigint_by_def)

lemma spawn_all_inv:
  assumes inv: "sup_inv cfg t l" and run: "spawn_all io now l = (r, l')" and st: "sv_state (fst l) \<noteq> STOPPING"
  shows "sup_inv cfg t l'"
proof -
  obtain sv o1 where l: "l = (sv, o1)" by (cases l)
  obtain q us o2 where sp: "spawn_units io now (sv_units sv) o1 = (q, us, o2)" by (cases "spawn_units io now (sv_units sv) o1")
  show ?thesis using run sup_inv_spawned[OF inv[unfolded l]] spawn_units_only[OF sp] sp st
    by (auto simp: spawn_all_def l split: sum.splits)
qed

lemma start_now_inv: "sup_inv cfg t l \<Longrightarrow> start_now io now l = (r, l') \<Longrightarrow> sup_inv cfg t l'"
  by (auto simp: start_now_def split: if_splits sum.splits prod.splits dest: spawn_all_inv)

lemma request_start_inv:
  assumes "sup_inv cfg t l" "request_start now wall l = (b, l')"
  shows "sup_inv cfg t l'"
  using assms by (cases l) (auto simp: request_start_def Let_def sup_inv_defs split: if_splits)

lemma request_stop_inv:
  assumes inv: "sup_inv cfg t l" and run: "request_stop now l = (b, l')" and now: "t \<le> now"
  shows "sup_inv cfg now l'"
proof -
  obtain sv o1 where l: "l = (sv, o1)" by (cases l)
  have lp: "live_pids (sv\<lparr>sv_state := STOPPING, sv_terminated := False, sv_deadline := d\<rparr>, os_signal SIGINT now ps o1) = live_pids (sv, o1)" for d ps
    by (rule live_pids_cong) simp_all
  have inv': "sup_inv cfg now (sv, o1)" using sup_inv_elapse[OF inv now] by (simp add: l)
  show ?thesis
  proof (cases "sv_state sv")
    case RUNNING
    then have l': "l' = (sv\<lparr>sv_state := STOPPING, sv_terminated := False, sv_deadline := Some (now + lc_stop_grace_s cfg)\<rparr>,
        os_signal SIGINT now (live_pids (sv, o1)) o1)"
      using run inv by (simp add: request_stop_def l sup_inv_def)
    have "graced cfg (os_signal SIGINT now (live_pids (sv, o1)) o1)" using graced_signal inv' by (simp add: sup_inv_def)
    then show ?thesis using inv' unfolding l' by (auto simp: sup_inv_defs lp sigint_by_def)
  next
    case COUNTDOWN
    then have "l' = (to_off sv, o1)" using run by (simp add: request_stop_def l)
    then show ?thesis using sup_inv_off[OF inv'] by simp
  qed (use run inv' in \<open>auto simp: request_stop_def l\<close>)
qed

lemma tend_stopping_inv:
  assumes inv: "sup_inv cfg t l" and st: "sv_state (fst l) = STOPPING" and now: "t \<le> now"
  shows "sup_inv cfg now (tend_stopping now l)"
proof -
  obtain sv o1 where l: "l = (sv, o1)" by (cases l)
  have inv': "sup_inv cfg now (sv, o1)" using sup_inv_elapse[OF inv now] by (simp add: l)
  obtain d where d: "sv_deadline sv = Some d" "\<forall>p \<in> set (live_pids (sv, o1)). sigint_by o1 (d - lc_stop_grace_s cfg) p"
    using inv' st by (auto simp: sup_inv_defs l)
  note off = sup_inv_off[OF inv']
  show ?thesis
  proof (cases "live_pids (sv, o1) = [] \<or> now < d")
    case True
    then show ?thesis using off inv' d(1) by (auto simp: tend_stopping_def l)
  next
    case False
    have early: "\<forall>p \<in> set (live_pids (sv, o1)). sigint_by o1 (now - lc_stop_grace_s cfg) p"
      using d(2) False by (auto intro: sigint_by_mono)
    then have g: "graced cfg (os_signal sg now (live_pids (sv, o1)) o1)" for sg
      using graced_signal inv' by (simp add: sup_inv_def)
    have lp: "live_pids (sv\<lparr>sv_terminated := True, sv_deadline := e\<rparr>, os_signal SIGTERM now ps o1) = live_pids (sv, o1)" for e ps
      by (rule live_pids_cong) simp_all
    have e2: "sigint_by (os_signal SIGTERM now (live_pids (sv, o1)) o1) (now + TERM_GRACE_S - lc_stop_grace_s cfg) p"
      if "p \<in> set (live_pids (sv, o1))" for p
      by (rule sigint_by_mono[of o1 "now - lc_stop_grace_s cfg"]) (use early that in \<open>simp_all add: TERM_GRACE_S_def\<close>)
    show ?thesis
    proof (cases "sv_terminated sv")
      case True
      then have "tend_stopping now l = (to_off sv, os_signal SIGKILL now (live_pids (sv, o1)) o1)"
        using False d(1) by (simp add: tend_stopping_def l)
      then show ?thesis using g inv' by (auto simp: sup_inv_defs)
    next
      case nt: False
      then have "tend_stopping now l = (sv\<lparr>sv_terminated := True, sv_deadline := Some (now + TERM_GRACE_S)\<rparr>,
          os_signal SIGTERM now (live_pids (sv, o1)) o1)"
        using False d(1) by (simp add: tend_stopping_def l)
      then show ?thesis using g inv' e2 by (auto simp: sup_inv_defs lp)
    qed
  qed
qed

lemma tend_inv:
  assumes inv: "sup_inv cfg t l" and run: "tend io t l = (r, l')"
  shows "sup_inv cfg t l'"
proof -
  obtain sv o1 where l: "l = (sv, o1)" by (cases l)
  show ?thesis
  proof (cases "sv_state sv")
    case RUNNING
    obtain q us o2 where sp: "tend_running io t (sv_units sv) o1 = (q, us, o2)" by (cases "tend_running io t (sv_units sv) o1")
    show ?thesis using run sup_inv_spawned[OF inv[unfolded l]] tend_running_only[OF sp] sp RUNNING by (auto simp: tend_def l)
  next
    case COUNTDOWN
    then show ?thesis using run inv spawn_all_inv[OF inv] by (auto simp: tend_def l split: option.splits if_splits)
  next
    case STOPPING
    then show ?thesis using run tend_stopping_inv[OF inv] by (auto simp: tend_def l)
  qed (use run inv in \<open>auto simp: tend_def l\<close>)
qed

text \<open>The blocking stop. While it waits, the processes left are among those that had their SIGINT by \<open>b\<close>.\<close>

lemma tend_stopping_still:
  assumes "tend_stopping now l = l'" "sv_state (fst l') = STOPPING"
  shows "sv_units (fst l') = sv_units (fst l)" "os_live (snd l') = os_live (snd l)" "set (os_sigs (snd l)) \<subseteq> set (os_sigs (snd l'))"
  using assms by (cases l; auto simp: tend_stopping_def split: if_splits option.splits)+

lemma stop_loop_inv:
  assumes "stop_loop cap ks l = Some l'" "sup_inv cfg t l" "clock_order t ks t'"
    and "sv_state (fst l) = STOPPING \<longrightarrow> (\<forall>p \<in> set (live_pids l). sigint_by (snd l) b p)"
  shows "sup_inv cfg t' l' \<and> (sv_state (fst l') = STOPPING \<longrightarrow>
      cap \<le> t' \<and> (\<forall>p \<in> set (live_pids l'). sigint_by (snd l') b p))"
  using assms
proof (induction ks arbitrary: l t)
  case (Cons k ks)
  have clk: "t \<le> sk_test k" "sk_test k \<le> sk_now k" "clock_order (sk_now k) ks t'" using Cons.prems(3) by auto
  have le: "clock_order u ks t' \<Longrightarrow> u \<le> t'" for u
    by (induction ks arbitrary: u) (auto intro: order_trans)
  show ?case
  proof (cases "sv_state (fst l) \<noteq> STOPPING \<or> cap \<le> sk_test k")
    case True
    then have "l' = l" using Cons.prems(1) by auto
    then show ?thesis
      using Cons.prems(4) True sup_inv_elapse[OF Cons.prems(2), of t'] le[OF clk(3)] clk(1,2) by auto
  next
    case False
    obtain sv o1 where ts: "tend_stopping (sk_now k) l = (sv, o1)" by fastforce
    have inv: "sup_inv cfg (sk_now k) (sv, o1)"
      using tend_stopping_inv[OF Cons.prems(2), of "sk_now k"] False clk(1,2) ts by simp
    let ?l = "(sv, os_die (sk_died k) o1)"
    have run: "stop_loop cap ks ?l = Some l'" using Cons.prems(1) False ts by simp
    have "sigint_by (os_die (sk_died k) o1) b p" if st: "sv_state sv = STOPPING" and p: "p \<in> set (live_pids ?l)" for p
    proof -
      note still = tend_stopping_still[OF ts, unfolded fst_conv snd_conv, OF st]
      have "p \<in> set (live_pids l)" using p still(1,2) by (auto simp: live_pids_mem)
      then have "sigint_by (snd l) b p" using Cons.prems(4) False by blast
      then show ?thesis by (rule sigint_by_mono[OF _ order_refl]) (simp add: still(3))
    qed
    then show ?thesis using Cons.IH[OF run sup_inv_die[OF inv] clk(3)] by simp
  qed
qed simp

lemma sup_shutdown_inv:
  assumes inv: "sup_inv cfg t l" and clk: "t \<le> t1" "t1 \<le> t2" "clock_order t2 ks t3"
    and run: "sup_shutdown t1 t2 t3 ks l = Some l'"
  shows "sup_inv cfg t3 l'"
proof -
  have le: "clock_order u ks t3 \<Longrightarrow> u \<le> t3" for u
    by (induction ks arbitrary: u) (auto intro: order_trans)
  have cfg: "sv_cfg (fst l) = cfg" using inv by (simp add: sup_inv_def)
  have to: "t \<le> t3" using clk le by force
  show ?thesis
  proof (cases "sv_state (fst l) = OFF \<or> sv_state (fst l) = COUNTDOWN")
    case True
    then show ?thesis using run sup_inv_elapse[OF inv to] sup_inv_off[of cfg t3 "fst l" "snd l"] by (auto simp: sup_shutdown_def)
  next
    case False
    define l1 where "l1 = (if sv_state (fst l) = RUNNING then snd (request_stop t1 l) else l)"
    define cap where "cap = t2 + lc_stop_grace_s cfg + TERM_GRACE_S + SHUTDOWN_SLACK_S"
    obtain l2 where l2: "stop_loop cap ks l1 = Some l2"
        "l' = (if sv_state (fst l2) = STOPPING then (to_off (fst l2), os_signal SIGKILL t3 (live_pids l2) (snd l2)) else l2)"
      using run False unfolding sup_shutdown_def l1_def cap_def cfg by (cases "sv_state (fst l)") (auto simp: Let_def)
    have i1: "sup_inv cfg t1 l1"
      using request_stop_inv[OF inv _ clk(1)] sup_inv_elapse[OF inv clk(1)] by (cases "request_stop t1 l") (auto simp: l1_def)
    have by2: "sv_state (fst l1) = STOPPING \<longrightarrow> (\<forall>p \<in> set (live_pids l1). sigint_by (snd l1) t2 p)"
      using i1 clk(2) by (fastforce simp: sup_inv_def stop_inv_def sigint_by_def)
    have i2: "sup_inv cfg t3 l2" "sv_state (fst l2) = STOPPING \<Longrightarrow> cap \<le> t3 \<and> (\<forall>p \<in> set (live_pids l2). sigint_by (snd l2) t2 p)"
      using stop_loop_inv[OF l2(1) sup_inv_elapse[OF i1 clk(2)] clk(3) by2] by auto
    show ?thesis
    proof (cases "sv_state (fst l2) = STOPPING")
      case True
      have "t2 \<le> t3 - lc_stop_grace_s cfg" using i2(2)[OF True] by (simp add: cap_def TERM_GRACE_S_def SHUTDOWN_SLACK_S_def)
      then have "\<forall>p \<in> set (live_pids l2). sigint_by (snd l2) (t3 - lc_stop_grace_s cfg) p"
        using i2(2)[OF True] by (blast intro: sigint_by_mono)
      then have "graced cfg (os_signal SIGKILL t3 (live_pids l2) (snd l2))"
        using graced_signal i2(1) by (simp add: sup_inv_def)
      then show ?thesis using i2(1) True l2(2) by (auto simp: sup_inv_defs)
    qed (use l2(2) i2(1) in simp)
  qed
qed

lemma mk_supervisor_inv:
  assumes "mk_supervisor cfg sides leaders = Inr sv" "os_sigs o1 = []" "\<forall>p \<in> set (os_live o1). p < os_next o1"
  shows "sup_inv cfg t (sv, o1)"
proof -
  obtain us where us: "mapR (\<lambda>side. rbind (ditem (lc_teleop_modules cfg) side)
                    (\<lambda>m. Inr (mk_unit (''teleop:'' @ side) Teleop m (Some side)))) sides = Inr us"
      "sv_units sv = us @ [mk_unit ''api'' Api (lc_api_module cfg) None]" "sv_state sv = OFF" "sv_cfg sv = cfg"
    using assms(1) by (auto simp: mk_supervisor_def split: if_splits)
  have "su_proc u = None" if u: "u \<in> set us" for u
  proof -
    obtain i where i: "i < length sides" "u = us ! i" using u mapR_length[OF us(1)] by (auto simp: in_set_conv_nth)
    obtain m where "mk_unit (''teleop:'' @ sides ! i) Teleop m (Some (sides ! i)) = u"
      using mapR_nth[OF us(1) i(1)] i(2) by auto
    then show ?thesis by (auto simp: mk_unit_def)
  qed
  then show ?thesis using us assms(2,3) by (auto simp: sup_inv_defs graced_def mk_unit_def)
qed

lemma sup_reach_inv: "sup_reach cfg t l \<Longrightarrow> sup_inv cfg t l"
proof (induction rule: sup_reach.induct)
  case (down t l t1 t2 ks t3 l')
  then show ?case by (blast intro: sup_shutdown_inv)
next
  case (tend t l io r l')
  then show ?case by (blast intro: tend_inv)
next
  case (stop t l b l')
  then show ?case by (blast intro: request_stop_inv)
qed (auto intro: mk_supervisor_inv sup_inv_elapse sup_inv_die sup_inv_other request_start_inv start_now_inv)

section \<open>The leaders de-energize\<close>


text \<open>
  Supervision of a running launch, unit by unit.
\<close>

lemma tend_unit_cases:
  assumes "tend_unit io now u o1 = Inr (u', o2)"
  shows "su_name u' = su_name u \<and> su_kind u' = su_kind u \<and> (su_proc u' = su_proc u \<and> su_spawned u' = su_spawned u \<and> o2 = o1
    \<or> su_kind u = Api \<and> \<not> unit_alive o1 u \<and> API_RESPAWN_S \<le> now - su_spawned u \<and> su_spawned u' = now \<and> su_proc u' = Some (os_next o1))"
  using assms by (auto simp: tend_unit_def spawn_unit_def os_spawn_def split: if_splits)

definition unit_kept :: "real \<Rightarrow> server_unit \<Rightarrow> server_unit \<Rightarrow> bool" where
  "unit_kept now u u' \<longleftrightarrow> su_kind u' = su_kind u \<and> (su_proc u' = su_proc u \<and> su_spawned u' = su_spawned u
     \<or> su_kind u = Api \<and> API_RESPAWN_S \<le> now - su_spawned u \<and> su_spawned u' = now)"

lemma tend_running_units: "tend_running io now us o1 = (r, us', o2) \<Longrightarrow> list_all2 (unit_kept now) us us'"
proof (induction us arbitrary: o1 r us' o2)
  case (Cons u us)
  show ?case
  proof (cases "tend_unit io now u o1")
    case (Inl e)
    then have "us' = u\<lparr>su_announced := True\<rparr> # us" using Cons.prems by simp
    then show ?thesis by (auto simp: unit_kept_def list_all2_same)
  next
    case (Inr q)
    obtain u' o3 us2 where q: "q = (u', o3)" "tend_running io now us o3 = (r, us2, o2)" "us' = u' # us2"
      using Cons.prems Inr by (cases q) (auto split: prod.splits)
    have "unit_kept now u u'" using tend_unit_cases[of io now u o1 u' o3] Inr q(1) by (auto simp: unit_kept_def)
    then show ?thesis using Cons.IH[OF q(2)] q(3) by simp
  qed
qed simp

text \<open>
  C32. No leader arm is energized without an operator. A supervision beat starts processes only when a countdown, which
  only a start command arms, has expired, or to replace the API relay, at most every ten seconds; while the
  servers run, a teleop keeps its process even when that is dead, and in the other states a beat starts nothing.
\<close>

theorem no_unattended_energize:
  assumes run: "tend io now (sv, o1) = (r, (sv', o2))"
    and no_countdown: "\<not> (sv_state sv = COUNTDOWN \<and> (\<exists>d. sv_deadline sv = Some d \<and> d \<le> now))"
  shows "(sv_state sv = RUNNING \<longrightarrow> sv_state sv' = RUNNING \<and> list_all2 (unit_kept now) (sv_units sv) (sv_units sv'))
    \<and> (sv_state sv \<noteq> RUNNING \<longrightarrow> os_live o2 = os_live o1 \<and> os_next o2 = os_next o1
         \<and> (\<forall>u' \<in> set (sv_units sv'). su_proc u' = None \<or> u' \<in> set (sv_units sv)))"
proof (cases "sv_state sv")
  case RUNNING
  obtain q us o3 where sp: "tend_running io now (sv_units sv) o1 = (q, us, o3)" by (cases "tend_running io now (sv_units sv) o1")
  then show ?thesis using run RUNNING tend_running_units[OF sp] by (auto simp: tend_def)
next
  case STOPPING
  have off: "su_proc u = None" if "u \<in> set (sv_units (to_off sv))" for u using that by simp
  show ?thesis using run STOPPING off
    by (auto simp: tend_def tend_stopping_def simp del: to_off_simps(3) split: if_splits option.splits)
next
  case COUNTDOWN
  then show ?thesis using run no_countdown by (auto simp: tend_def split: option.splits if_splits)
qed (use run in \<open>auto simp: tend_def\<close>)

lemma stop_loop_returns:
  "\<exists>k \<in> set ks. cap \<le> sk_test k \<Longrightarrow> \<exists>l'. stop_loop cap ks l = Some l'"
proof (induction ks arbitrary: l)
  case (Cons k ks)
  obtain sv o1 where ts: "tend_stopping (sk_now k) l = (sv, o1)" by fastforce
  show ?case
  proof (cases "sv_state (fst l) \<noteq> STOPPING \<or> cap \<le> sk_test k")
    case False
    then show ?thesis using Cons.IH[of "(sv, os_die (sk_died k) o1)"] Cons.prems ts by auto
  qed auto
qed simp

lemma tend_stopping_live: "os_live (snd (tend_stopping now l)) = os_live (snd l)"
  by (cases l) (auto simp: tend_stopping_def split: option.splits)

lemma stop_loop_live: "stop_loop cap ks l = Some l' \<Longrightarrow> set (os_live (snd l')) \<subseteq> set (os_live (snd l))"
proof (induction ks arbitrary: l)
  case (Cons k ks)
  obtain sv o1 where ts: "tend_stopping (sk_now k) l = (sv, o1)" by fastforce
  then have "os_live o1 = os_live (snd l)" using tend_stopping_live[of "sk_now k" l] by simp
  then show ?case using Cons.prems Cons.IH[of "(sv, os_die (sk_died k) o1)"] ts by (auto split: if_splits)
qed simp

lemma tend_stopping_state: "sv_state (fst (tend_stopping now l)) = OFF \<or> sv_state (fst (tend_stopping now l)) = sv_state (fst l)"
  by (cases l) (auto simp: tend_stopping_def split: option.splits)

lemma stop_loop_states:
  "stop_loop cap ks l = Some l' \<Longrightarrow> sv_state (fst l') = OFF \<or> sv_state (fst l') = sv_state (fst l)"
proof (induction ks arbitrary: l)
  case (Cons k ks)
  obtain sv o1 where ts: "tend_stopping (sk_now k) l = (sv, o1)" by fastforce
  then show ?case
    using Cons.prems Cons.IH[of "(sv, os_die (sk_died k) o1)"] tend_stopping_state[of "sk_now k" l] by (auto split: if_splits)
qed simp

lemma stop_loop_leaves:
  assumes "stop_loop cap ks l = Some l'" "sv_state (fst l) = STOPPING" "p \<in> set (live_pids l)" "p \<in> set (os_live (snd l'))"
  shows "(sv_state (fst l') = STOPPING \<and> p \<in> set (live_pids l')) \<or> (\<exists>s. (p, SIGKILL, s) \<in> set (os_sigs (snd l')))"
  using assms
proof (induction ks arbitrary: l)
  case (Cons k ks)
  show ?case
  proof (cases "cap \<le> sk_test k")
    case False
    obtain sv o1 where l: "l = (sv, o1)" by (cases l)
    obtain sv1 o2 where ts: "tend_stopping (sk_now k) l = (sv1, o2)" by fastforce
    let ?l = "(sv1, os_die (sk_died k) o2)"
    have run: "stop_loop cap ks ?l = Some l'" using Cons.prems(1,2) False ts by simp
    have after: "sv_state (fst l2) \<noteq> STOPPING \<Longrightarrow> stop_loop cap ks l2 = Some l' \<Longrightarrow> l' = l2" for l2
      by (cases ks) auto
    show ?thesis
    proof (cases "sv_state sv1 = STOPPING")
      case True
      note still = tend_stopping_still[OF ts, unfolded fst_conv snd_conv, OF True]
      show ?thesis
      proof (cases "p \<in> set (os_live (os_die (sk_died k) o2))")
        case live: True
        then have "p \<in> set (live_pids ?l)" using Cons.prems(3) still(1) by (auto simp: live_pids_mem)
        then show ?thesis using Cons.IH[OF run] True Cons.prems(4) by simp
      next
        case dead: False
        have "set (os_live (snd l')) \<subseteq> set (os_live (snd ?l))" using stop_loop_live[OF run] .
        then show ?thesis using dead Cons.prems(4) by auto
      qed
    next
      case ended: False
      then have "l' = ?l" using after[OF _ run] by simp
      moreover have "o2 = os_signal SIGKILL (sk_now k) (live_pids l) o1"
        using ts ended Cons.prems(2,3) by (auto simp: tend_stopping_def l split: if_splits option.splits)
      ultimately show ?thesis using Cons.prems(3) by auto
    qed
  qed (use Cons.prems in auto)
qed simp

text \<open>
  The blocking shutdown returns and leaves nothing running that it did not kill. If the clock reaches the cap
  (stop grace, plus two, plus five seconds) within the turns of the wait loop, shutdown returns, the supervisor is OFF and
  holds no process, and every unit process that is still alive when it returns was sent SIGKILL.
\<close>

theorem leader_shutdown_returns:
  assumes st: "sv_state (fst l) = RUNNING \<or> sv_state (fst l) = STOPPING"
    and clk: "\<exists>k \<in> set ks. now2 + lc_stop_grace_s (sv_cfg (fst l)) + TERM_GRACE_S + SHUTDOWN_SLACK_S \<le> sk_test k"
  shows "\<exists>l'. sup_shutdown now1 now2 now3 ks l = Some l' \<and> sv_state (fst l') = OFF
    \<and> (\<forall>p \<in> set (live_pids l). p \<in> set (os_live (snd l')) \<longrightarrow> (\<exists>s. (p, SIGKILL, s) \<in> set (os_sigs (snd l'))))"
proof -
  define l1 where "l1 = (if sv_state (fst l) = RUNNING then snd (request_stop now1 l) else l)"
  let ?cap = "now2 + lc_stop_grace_s (sv_cfg (fst l)) + TERM_GRACE_S + SHUTDOWN_SLACK_S"
  obtain l2 where l2: "stop_loop ?cap ks l1 = Some l2" using stop_loop_returns[OF clk] by blast
  obtain sv o1 where l: "l = (sv, o1)" by (cases l)
  have l1s: "sv_state (fst l1) = STOPPING" "set (live_pids l1) = set (live_pids l)"
    using st by (auto simp: l1_def l request_stop_def live_pids_mem)
  define l' where "l' = (if sv_state (fst l2) = STOPPING then (to_off (fst l2), os_signal SIGKILL now3 (live_pids l2) (snd l2)) else l2)"
  have run: "sup_shutdown now1 now2 now3 ks l = Some l'"
    using st l2 unfolding sup_shutdown_def Let_def l1_def[symmetric] l'_def by (elim disjE) simp_all
  have end2: "sv_state (fst l2) = STOPPING \<or> sv_state (fst l2) = OFF"
    using stop_loop_states[OF l2] l1s(1) by auto
  have "\<exists>s. (p, SIGKILL, s) \<in> set (os_sigs (snd l'))" if "p \<in> set (live_pids l)" "p \<in> set (os_live (snd l'))" for p
    using stop_loop_leaves[OF l2 l1s(1), of p] that l1s(2) by (auto simp: l'_def split: if_splits)
  moreover have "sv_state (fst l') = OFF" using end2 by (auto simp: l'_def)
  ultimately show ?thesis using run by blast
qed

section \<open>A launch that fails half-way\<close>

lemma unit_alive_mono: "unit_alive o1 u \<Longrightarrow> set (os_live o1) \<subseteq> set (os_live o2) \<Longrightarrow> unit_alive o2 u"
  by (auto simp: unit_alive_def os_alive_def split: option.splits)

lemma spawn_units_fail:
  assumes "\<forall>a \<in> set as. io (su_name a)" "\<not> io (su_name u)"
  shows "\<exists>as' o2. spawn_units io now (as @ u # bs) o1 = (Inl OSError, as' @ u # bs, o2) \<and> length as' = length as
    \<and> (\<forall>a \<in> set as'. unit_alive o2 a) \<and> os_sigs o2 = os_sigs o1 \<and> set (os_live o1) \<subseteq> set (os_live o2)"
  using assms(1)
proof (induction as arbitrary: o1)
  case Nil
  then show ?case using assms(2) by (simp add: spawn_unit_def)
next
  case (Cons a as)
  obtain a' o2 where a: "spawn_unit io now a o1 = Inr (a', o2)" "unit_alive o2 a'" "os_sigs o2 = os_sigs o1"
      "set (os_live o1) \<subseteq> set (os_live o2)"
    using Cons.prems by (auto simp: spawn_unit_def os_spawn_def unit_alive_def os_alive_def)
  obtain as' o3 where ih: "spawn_units io now (as @ u # bs) o2 = (Inl OSError, as' @ u # bs, o3)" "length as' = length as"
      "\<forall>a \<in> set as'. unit_alive o3 a" "os_sigs o3 = os_sigs o2" "set (os_live o2) \<subseteq> set (os_live o3)"
    using Cons.IH[of o2] Cons.prems by auto
  have "unit_alive o3 a'" using unit_alive_mono[OF a(2) ih(5)] .
  then show ?case using a ih by (intro exI[of _ "a' # as'"] exI[of _ o3]) auto
qed

text \<open>
  A launch that fails half-way leaves live leaders that nothing will stop. When the boot start raises at some unit,
  the teleops before it are running, but the supervisor is still OFF: a stop command answers that the servers are not
  running and the daemon's shutdown returns at once, neither sending any signal.
\<close>

theorem half_launch_unstoppable:
  assumes off: "sv_state sv = OFF" and units: "sv_units sv = as @ u # bs"
    and io: "\<forall>a \<in> set as. io (su_name a)" "\<not> io (su_name u)"
  shows "\<exists>sv' o2. start_now io now (sv, o1) = (Inl OSError, (sv', o2))
    \<and> (\<forall>a \<in> set (take (length as) (sv_units sv')). unit_alive o2 a)
    \<and> request_stop t (sv', o2) = (False, (sv', o2)) \<and> sup_shutdown t1 t2 t3 ks (sv', o2) = Some (sv', o2)
    \<and> os_sigs o2 = os_sigs o1"
proof -
  obtain as' o2 where sp: "spawn_units io now (as @ u # bs) o1 = (Inl OSError, as' @ u # bs, o2)" "length as' = length as"
      "\<forall>a \<in> set as'. unit_alive o2 a" "os_sigs o2 = os_sigs o1"
    using spawn_units_fail[OF io, of now bs o1] by blast
  let ?sv = "sv\<lparr>sv_units := as' @ u # bs\<rparr>"
  have "start_now io now (sv, o1) = (Inl OSError, (?sv, o2))" using off sp(1) by (simp add: start_now_def spawn_all_def units)
  moreover have "take (length as) (sv_units ?sv) = as'" using sp(2) by simp
  moreover have "request_stop t (?sv, o2) = (False, (?sv, o2))" "sup_shutdown t1 t2 t3 ks (?sv, o2) = Some (?sv, o2)"
    using off by (simp_all add: request_stop_def sup_shutdown_def)
  ultimately show ?thesis using sp(3,4) by (metis (no_types, lifting))
qed

section \<open>The relay's respawns\<close>

definition relay_beat :: "real \<Rightarrow> server_unit \<Rightarrow> server_unit \<Rightarrow> bool" where
  "relay_beat now u u' \<longleftrightarrow> (\<exists>io o1 o2. tend_unit io now u o1 = Inr (u', o2))"

interpretation relay: paced_respawn relay_beat su_spawned su_proc "\<lambda>u. True" API_RESPAWN_S
proof unfold_locales
  fix u now u'
  assume "relay_beat now u u'"
  then obtain io o1 o2 where "tend_unit io now u o1 = Inr (u', o2)" by (auto simp: relay_beat_def)
  then show "True \<and> (su_proc u' = su_proc u \<and> su_spawned u' = su_spawned u \<or> su_spawned u' = now \<and> su_spawned u + API_RESPAWN_S \<le> now)"
    using tend_unit_cases by force
qed (simp add: API_RESPAWN_S_def)

section \<open>A one-leader launch\<close>

definition demo_launch :: launch_cfg where
  "demo_launch = \<lparr>lc_teleop_modules = [(''left'', ''teleop_left'')], lc_api_module = ''api'', lc_calib_delay_s = 10, lc_stop_grace_s = 15\<rparr>"

definition demo_sup :: supervisor where
  "demo_sup = projr (mk_supervisor demo_launch [''left''] (Some [''left'']))"

definition demo_os :: os where
  "demo_os = \<lparr>os_live = [], os_next = 40, os_sigs = []\<rparr>"

definition demo_up :: launcher where
  "demo_up = snd (start_now (\<lambda>n. True) 0 (demo_sup, demo_os))"

text \<open>The relay stops at SIGINT, the teleop ignores every signal but SIGKILL.\<close>

definition demo_stopped :: launcher where
  "demo_stopped = (let l1 = snd (request_stop 100 demo_up); l2 = (fst l1, os_die [41] (snd l1));
     l3 = snd (tend (\<lambda>n. True) 115 l2) in snd (tend (\<lambda>n. True) 117 l3))"

lemma demo_sup_ok: "mk_supervisor demo_launch [''left''] (Some [''left'']) = Inr demo_sup"
proof -
  have "\<not> isl (mk_supervisor demo_launch [''left''] (Some [''left'']))" by code_simp
  then show ?thesis by (simp add: demo_sup_def)
qed

lemma demo_up_reach: "sup_reach demo_launch 0 demo_up"
proof -
  have b: "sup_reach demo_launch 0 (demo_sup, demo_os)" by (rule sup_reach.boot[OF demo_sup_ok]) (simp_all add: demo_os_def)
  show ?thesis unfolding demo_up_def by (rule sup_reach.now[OF b]) (rule prod.collapse[symmetric])
qed

lemma demo_stopped_reach: "sup_reach demo_launch 117 demo_stopped"
proof -
  define l1 where "l1 = snd (request_stop 100 demo_up)"
  define l2 where "l2 = (fst l1, os_die [41] (snd l1))"
  define l3 where "l3 = snd (tend (\<lambda>n. True) 115 l2)"
  have "sup_reach demo_launch 100 demo_up" by (rule sup_reach.elapse[OF demo_up_reach]) simp
  then have "sup_reach demo_launch 100 l1" unfolding l1_def by (rule sup_reach.stop) (rule prod.collapse[symmetric])
  then have "sup_reach demo_launch 100 l2" unfolding l2_def by (intro sup_reach.die) simp
  then have "sup_reach demo_launch 115 l2" by (rule sup_reach.elapse) simp
  then have "sup_reach demo_launch 115 l3" unfolding l3_def by (rule sup_reach.tend) (rule prod.collapse[symmetric])
  then have "sup_reach demo_launch 117 l3" by (rule sup_reach.elapse) simp
  then have "sup_reach demo_launch 117 (snd (tend (\<lambda>n. True) 117 l3))" by (rule sup_reach.tend) (rule prod.collapse[symmetric])
  then show ?thesis by (simp add: demo_stopped_def Let_def l1_def l2_def l3_def)
qed


theorem no_unattended_energize_witness:
  "\<exists>sv o1 r sv' o2. tend (\<lambda>n. True) 30 (sv, o1) = (r, (sv', o2)) \<and> map (unit_alive o1) (sv_units sv) = [False, False]
     \<and> map (unit_alive o2) (sv_units sv') = [False, True] \<and> list_all2 (unit_kept 30) (sv_units sv) (sv_units sv')"
proof -
  define l where "l = (fst demo_up, os_die [40, 41] (snd demo_up))"
  have st: "sv_state (fst l) = RUNNING" "map (unit_alive (snd l)) (sv_units (fst l)) = [False, False]" unfolding l_def by code_simp+
  have after: "map (unit_alive (snd (snd (tend (\<lambda>n. True) 30 l)))) (sv_units (fst (snd (tend (\<lambda>n. True) 30 l)))) = [False, True]"
    unfolding l_def by code_simp
  obtain r sv' o2 where run: "tend (\<lambda>n. True) 30 l = (r, (sv', o2))" by (cases "tend (\<lambda>n. True) 30 l") auto
  have run': "tend (\<lambda>n. True) 30 (fst l, snd l) = (r, (sv', o2))" using run by simp
  have "list_all2 (unit_kept 30) (sv_units (fst l)) (sv_units sv')"
    using no_unattended_energize[OF run'] st(1) by simp
  then show ?thesis using run' st(2) after run by (metis fst_conv snd_conv)
qed

theorem leader_shutdown_returns_witness:
  "\<exists>l'. sup_shutdown 100 100 125 [\<lparr>sk_test = 100, sk_now = 100, sk_died = [41]\<rparr>, \<lparr>sk_test = 124, sk_now = 124, sk_died = []\<rparr>] demo_up = Some l'
     \<and> sv_state (fst l') = OFF \<and> (40, SIGKILL, 125) \<in> set (os_sigs (snd l'))"
proof -
  let ?ks = "[\<lparr>sk_test = 100, sk_now = 100, sk_died = [41]\<rparr>, \<lparr>sk_test = 124, sk_now = 124, sk_died = []\<rparr>]"
  have st: "sv_state (fst demo_up) = RUNNING \<or> sv_state (fst demo_up) = STOPPING" by code_simp
  have "lc_stop_grace_s (sv_cfg (fst demo_up)) = 15" by code_simp
  then have clk: "\<exists>k \<in> set ?ks. 100 + lc_stop_grace_s (sv_cfg (fst demo_up)) + TERM_GRACE_S + SHUTDOWN_SLACK_S \<le> sk_test k"
    by (simp add: TERM_GRACE_S_def SHUTDOWN_SLACK_S_def)
  obtain l' where l': "sup_shutdown 100 100 125 ?ks demo_up = Some l'" "sv_state (fst l') = OFF"
    using leader_shutdown_returns[OF st clk, of 100 125] by blast
  have "map_option (\<lambda>l. (40, SIGKILL, 125) \<in> set (os_sigs (snd l))) (sup_shutdown 100 100 125 ?ks demo_up) = Some True" by code_simp
  then show ?thesis using l' by auto
qed

theorem half_launch_unstoppable_witness:
  "\<exists>sv' o2. start_now (\<lambda>n. n \<noteq> ''api'') 0 (demo_sup, demo_os) = (Inl OSError, (sv', o2)) \<and> 40 \<in> set (os_live o2)
     \<and> sup_shutdown 100 100 125 [] (sv', o2) = Some (sv', o2) \<and> os_sigs o2 = []"
proof -
  have off: "sv_state demo_sup = OFF" by code_simp
  have u: "sv_units demo_sup = [mk_unit ''teleop:left'' Teleop ''teleop_left'' (Some ''left'')] @ mk_unit ''api'' Api ''api'' None # []"
    by code_simp
  have io: "\<forall>a \<in> set [mk_unit ''teleop:left'' Teleop ''teleop_left'' (Some ''left'')]. su_name a \<noteq> ''api''"
    "\<not> su_name (mk_unit ''api'' Api ''api'' None) \<noteq> ''api''"
    by (simp_all add: mk_unit_def)
  have live: "os_live (snd (snd (start_now (\<lambda>n. n \<noteq> ''api'') 0 (demo_sup, demo_os)))) = [40]" by code_simp
  obtain sv' o2 where h: "start_now (\<lambda>n. n \<noteq> ''api'') 0 (demo_sup, demo_os) = (Inl OSError, (sv', o2))"
      "sup_shutdown 100 100 125 [] (sv', o2) = Some (sv', o2)" "os_sigs o2 = os_sigs demo_os"
    using half_launch_unstoppable[OF off u io, of 0 demo_os 0 100 100 125 "[]"] by blast
  then show ?thesis using live by (auto simp: demo_os_def)
qed

end
