(* ===== verification/Session.thy ===== *)
theory Session
  imports Factr Leader_Launch
begin

text \<open>
  The session daemon (\<open>session.py\<close>): its protocol helpers, the start gate, the VIEWING / COLLECTION / EVAL / SKILL / SAVING state
  machine with its queued start, the command handlers, and the supervision of arms, cameras, the FACTR producer
  and the FACTR servers. \<open>system.py\<close> contributes the phase's coefficients and the consumer.

  The daemon is one record; a handler maps it and what the handler observes to the daemon afterwards. An observation
  carries the clock, exit codes, the results of network calls and of the two third-party libraries: Hydra's
  composition of a list of overrides into a run's configuration, and \<^verbatim>\<open>flexivrdk\<close>'s names of operational
  states. The process table and the run's shared memory are part of the daemon's record, because the handlers change them.
  Texts shown to the operator are constructors of a datatype.
\<close>

section \<open>Protocol\<close>

definition VIEWING :: string where "VIEWING = ''viewing''"
definition COLLECTION :: string where "COLLECTION = ''collection''"
definition EVAL :: string where "EVAL = ''eval''"
definition SKILL :: string where "SKILL = ''skill''"
definition SAVING :: string where "SAVING = ''saving''"

definition PHASES :: "string list" where "PHASES = [COLLECTION, EVAL, SKILL]"

lemmas mode_defs = VIEWING_def COLLECTION_def EVAL_def SKILL_def SAVING_def PHASES_def

definition CAMERA_RESPAWN_S :: real where "CAMERA_RESPAWN_S = 30"
definition CAMERA_BOOT_GRACE_S :: real where "CAMERA_BOOT_GRACE_S = 20"
definition CAMERA_FRESH_S :: real where "CAMERA_FRESH_S = 5"
definition ARM_RESPAWN_S :: real where "ARM_RESPAWN_S = 20"
definition ARM_BOOT_GRACE_S :: real where "ARM_BOOT_GRACE_S = 45"
definition ARM_FRESH_S :: real where "ARM_FRESH_S = 20"
definition PENDING_WINDDOWN_S :: real where "PENDING_WINDDOWN_S = 20"

text \<open>
  The values of a command: JSON scalars, and any other value with its truth value and its text. An absent key
  and \<open>null\<close> are both \<open>None\<close> to \<open>cmd.get\<close>.
\<close>

datatype cval = CNull | CStr string | CInt int | CBool bool | COther bool string

type_synonym cmd = "(string, cval) dict"

definition cget :: "cmd \<Rightarrow> string \<Rightarrow> cval" where
  "cget c k = (case dget c k of None \<Rightarrow> CNull | Some v \<Rightarrow> v)"

fun truthy :: "cval \<Rightarrow> bool" where
  "truthy CNull = False"
| "truthy (CStr s) = (s \<noteq> [])"
| "truthy (CInt i) = (i \<noteq> 0)"
| "truthy (CBool b) = b"
| "truthy (COther b s) = b"

fun py_str :: "cval \<Rightarrow> string" where
  "py_str CNull = ''None''"
| "py_str (CStr s) = s"
| "py_str (CInt i) = (if i < 0 then ''-'' @ nat_str (nat (- i)) else nat_str (nat i))"
| "py_str (CBool b) = (if b then ''True'' else ''False'')"
| "py_str (COther b s) = s"

text \<open>\<open>c.isalnum () or c in "._-"\<close>, on ASCII.\<close>

definition name_char :: "char \<Rightarrow> bool" where
  "name_char c \<longleftrightarrow> (let n = of_char c :: nat in 48 \<le> n \<and> n \<le> 57 \<or> 65 \<le> n \<and> n \<le> 90 \<or> 97 \<le> n \<and> n \<le> 122)
     \<or> c \<in> set ''._-''"

text \<open>An optional string field that must be a plain name.\<close>

fun name_ok :: "cval \<Rightarrow> bool" where
  "name_ok CNull = True"
| "name_ok (CStr s) = (s \<noteq> [] \<and> list_all name_char s)"
| "name_ok v = False"

text \<open>\<open>isinstance (port, int) and 0 < port < 65536\<close>; \<open>bool\<close> is a subclass of \<open>int\<close>.\<close>

fun port_ok :: "cval \<Rightarrow> bool" where
  "port_ok CNull = True"
| "port_ok (CInt p) = (0 < p \<and> p < 65536)"
| "port_ok (CBool b) = b"
| "port_ok v = False"

definition start_task :: "cmd \<Rightarrow> cval" where
  "start_task c = (if cget c ''phase'' = CStr SKILL \<and> \<not> truthy (cget c ''task'') then CStr ''default'' else cget c ''task'')"

datatype bad_start = BadPhase | BadSkill | NoSkill | BadPort | BadHost | BadPolicy

definition validate_start :: "cmd \<Rightarrow> bad_start option" where
  "validate_start c =
     (if (\<forall>p \<in> set PHASES. cget c ''phase'' \<noteq> CStr p) \<or> \<not> truthy (start_task c) then Some BadPhase
      else if \<not> name_ok (cget c ''skill'') then Some BadSkill
      else if cget c ''phase'' = CStr SKILL \<and> \<not> truthy (cget c ''skill'') then Some NoSkill
      else if \<not> port_ok (cget c ''port'') then Some BadPort
      else if \<not> name_ok (cget c ''host'') then Some BadHost
      else if \<not> name_ok (cget c ''policy'') then Some BadPolicy
      else None)"

section \<open>Overrides and outcomes\<close>

text \<open>\<open>o.split ("=", 1)[0].lstrip ("+~")\<close>.\<close>

definition override_key :: "string \<Rightarrow> string" where
  "override_key o1 = dropWhile (\<lambda>c. c \<in> set ''+~'') (takeWhile (\<lambda>c. c \<noteq> CHR ''='') o1)"

definition run_overrides :: "string list \<Rightarrow> string \<Rightarrow> string \<Rightarrow> string list \<Rightarrow> string list" where
  "run_overrides session_overrides task phase extra =
     (let pinned = set ([''task'', ''runtime.phase''] @ map override_key extra) in
      filter (\<lambda>o1. override_key o1 \<notin> pinned) session_overrides
      @ [''task='' @ task, ''runtime.phase='' @ phase] @ extra)"

datatype outcome = Saved | StoppedOk | Finished | StoppedError | Crashed

definition classify_outcome :: "string \<Rightarrow> int \<Rightarrow> bool \<Rightarrow> outcome" where
  "classify_outcome phase exitcode stopping =
     (if exitcode = 0 then
        if stopping then (if phase = COLLECTION then Saved else StoppedOk) else Finished
      else if stopping then StoppedError else Crashed)"

section \<open>Configurations and consumers\<close>

record run_arm =
  ra_enabled :: bool
  ra_kind :: string

record run_cfg =
  rc_arms :: "(string, run_arm) dict"
  rc_phase :: string
  rc_collection_coeffs :: coeffs_cfg
  rc_eval_coeffs :: coeffs_cfg
  rc_skill_coeffs :: coeffs_cfg
  rc_skill_name :: string
  rc_policy_kind :: string
  rc_policy_host :: string
  rc_policy_port :: int
  rc_control :: string

definition active_coeffs :: "run_cfg \<Rightarrow> coeffs_cfg res" where
  "active_coeffs cfg =
     (if rc_phase cfg = ''skill'' then Inr (rc_skill_coeffs cfg)
      else if rc_phase cfg = ''collection'' then Inr (rc_collection_coeffs cfg)
      else if rc_phase cfg = ''eval'' then Inr (rc_eval_coeffs cfg)
      else Inl ValueError)"

text \<open>What the daemon looks at in a consumer: its name, and the sides a skill drives. \<open>load_skill\<close> gives a skill's sides.\<close>

record consumer =
  cn_name :: string
  cn_drive :: "string list option"

definition drive_sides :: "run_cfg \<Rightarrow> string list \<Rightarrow> string list" where
  "drive_sides cfg sides =
     filter (\<lambda>s. case dget (rc_arms cfg) s of None \<Rightarrow> False | Some a \<Rightarrow> ra_enabled a \<and> ra_kind a = ''qpos'') sides"

definition build_consumer :: "(string \<Rightarrow> string list res) \<Rightarrow> run_cfg \<Rightarrow> consumer res" where
  "build_consumer load_skill cfg =
     rbind (active_coeffs cfg) (\<lambda>co.
     if rc_phase cfg = ''skill''
     then rbind (load_skill (rc_skill_name cfg)) (\<lambda>sides. Inr \<lparr>cn_name = ''skill'', cn_drive = Some (drive_sides cfg sides)\<rparr>)
     else if rc_phase cfg = ''collection'' then Inr \<lparr>cn_name = ''collection'', cn_drive = None\<rparr>
     else Inr \<lparr>cn_name = ''eval'', cn_drive = None\<rparr>)"

section \<open>Status streams\<close>

text \<open>A double as the status stream carries it.\<close>

datatype flt = Fin real | PosInf | NegInf | NaN

fun flt_ge :: "flt \<Rightarrow> real \<Rightarrow> bool" where
  "flt_ge (Fin x) y = (y \<le> x)"
| "flt_ge PosInf y = True"
| "flt_ge NegInf y = False"
| "flt_ge NaN y = False"

text \<open>
  \<open>attach\<close>, \<open>latest\<close>, \<open>close\<close> on a published entry; every exception there is caught and reads as \<open>None\<close>. The registry's own
  read is outside that handler.
\<close>

definition read_latest :: "registry_entry \<Rightarrow> 'v run_store \<Rightarrow> 'v samples option" where
  "read_latest en w =
     (case rbind (reader_attach en w) (\<lambda>r.
        case re_shm_name en of JStr n \<Rightarrow> rbind (ditem (rs_shm w) n) (\<lambda>g. Inr (reader_latest r g)) | _ \<Rightarrow> Inl TypeError) of
        Inl e \<Rightarrow> None
      | Inr s \<Rightarrow> if sm_n s = 0 then None else Some s)"

definition stream_newest :: "string \<Rightarrow> 'v run_store \<Rightarrow> 'v samples option res" where
  "stream_newest name w =
     rbind (get ''streams'' name w) (\<lambda>en. case en of None \<Rightarrow> Inr None | Some e \<Rightarrow> Inr (read_latest e w))"

definition arm_status :: "string \<Rightarrow> flt run_store \<Rightarrow> flt list option res" where
  "arm_status side w =
     rbind (stream_newest (side @ ''/status'') w) (\<lambda>s. Inr (case s of None \<Rightarrow> None | Some b \<Rightarrow> sm_newest b))"

text \<open>\<open>(monotonic_ns () - newest_t_ns) < max_age_s * 1e9\<close>.\<close>

definition stream_fresh :: "string \<Rightarrow> real \<Rightarrow> int \<Rightarrow> 'v run_store \<Rightarrow> bool res" where
  "stream_fresh name max_age_s now_ns w =
     rbind (stream_newest name w) (\<lambda>s. Inr (case s of
        None \<Rightarrow> False
      | Some b \<Rightarrow> (case sm_newest_t_ns b of None \<Rightarrow> False | Some t \<Rightarrow> real_of_int (now_ns - t) < max_age_s * 10 ^ 9)))"

datatype blocker = StatusUnavailable | InvalidStatus | EStop | Unrecognized int | NotReady string

definition follower_control_blocker :: "(int \<Rightarrow> string option) \<Rightarrow> flt list option \<Rightarrow> blocker option" where
  "follower_control_blocker op_name status =
     (case status of
        Some (a # b # rest) \<Rightarrow>
          (case (a, b) of
             (Fin x, Fin y) \<Rightarrow>
               if 1 / 2 \<le> y then Some EStop
               else (case op_name (py_trunc x) of
                       None \<Rightarrow> Some (Unrecognized (py_trunc x))
                     | Some n \<Rightarrow> if n = ''READY'' \<or> n = ''NOT_ENABLED'' then None else Some (NotReady n))
           | _ \<Rightarrow> Some InvalidStatus)
      | _ \<Rightarrow> Some StatusUnavailable)"

section \<open>The daemon's state\<close>

record enter_control =
  ec_coeffs :: coeffs_cfg
  ec_control :: string
  ec_phase :: string

record active_run =
  ar_phase :: string
  ar_task :: cval
  ar_proc :: pid
  ar_sides :: "string list"
  ar_stopping :: bool
  ar_armed :: bool
  ar_active :: "string list"

record pending_start =
  pn_cmd :: cmd
  pn_deadline :: "real option"

record arm_unit =
  au_name :: string
  au_side :: string
  au_streams :: "string list"
  au_proc :: pid
  au_spawned :: real
  au_announced :: bool
  au_reaped :: bool

record camera_unit =
  cu_name :: string
  cu_view :: "string option"
  cu_streams :: "string list"
  cu_proc :: pid
  cu_spawned :: real
  cu_announced :: bool
  cu_stalled :: "real option"

record factr_unit =
  fu_streams :: "string list"
  fu_proc :: pid
  fu_spawned :: real
  fu_announced :: bool

datatype smsg =
    NoMsg
  | MBadStart bad_start
  | MRunActive
  | MQueued "string list"
  | MCamerasStarting "string list" | MCamerasDown "string list"
  | MArmsStarting "string list" | MArmsDown "string list"
  | MStartFailed py_error
  | MPolicyUnreachable
  | MLeadersStale "string list" bool
  | MLeadersLimp "string list"
  | MNoDriveable
  | MDryRun "(string \<times> blocker) list"
  | MSwitchStopping | MSwitchWaiting
  | MAbandoned
  | MCancelled | MNoRun
  | MUnknownArm | MArmBusy | MArmWindingDown | MReconnecting
  | MUnknownCamera | MCameraBusy | MCameraRespawning
  | MNotManaged | MNoLaunchInRun | MNoStopInCollection | MServers bool
  | MGravSim | MGravNone | MGrav "string list" "string list" bool
  | MForce "string list" "string list"
  | MTeleopDied "string list"
  | MDropout string | MArmDied string
  | MUnknownCmd

record last_outcome =
  lo_seq :: nat
  lo_phase :: string
  lo_task :: cval
  lo_outcome :: outcome
  lo_exit :: int

text \<open>What \<open>session.json\<close> carries.\<close>

record session_state =
  st_mode :: string
  st_task :: cval
  st_phase :: "string option"
  st_seq :: nat
  st_started :: "real option"
  st_message :: smsg
  st_outcome :: "last_outcome option"
  st_cameras_down :: "string list"
  st_arms_down :: "string list"
  st_pending :: "(cval \<times> cval \<times> cval) option"
  st_servers :: "sup_status option"

record session_cfg =
  sc_overrides :: "string list"
  sc_run_id :: string
  sc_sim :: bool
  sc_servers :: "string list"
  sc_max_age_s :: real

text \<open>
  The daemon: the session queues of the control-enabled arms, the supervised units, the run in flight, the queued
  start, the published state; the stop events it has set (by process); and what it shares with the system: the process table and
  the run's store.
\<close>

record daemon =
  dm_cfg :: session_cfg
  dm_qs :: "(string, enter_control list) dict"
  dm_arms :: "arm_unit list"
  dm_cameras :: "camera_unit list"
  dm_factr :: "factr_unit option"
  dm_servers :: "supervisor option"
  dm_run :: "active_run option"
  dm_pending :: "pending_start option"
  dm_state :: session_state
  dm_stops :: "pid list"
  dm_os :: os
  dm_store :: "flt run_store"

record obs =
  ob_now :: real
  ob_wall :: real
  ob_exit :: "pid \<Rightarrow> int"
  ob_status :: "string \<Rightarrow> flt list option"
  ob_arm_fresh :: "string \<Rightarrow> bool"
  ob_cam_fresh :: "string \<Rightarrow> bool"
  ob_leader_fresh :: "string \<Rightarrow> bool"
  ob_op_name :: "int \<Rightarrow> string option"
  ob_compose :: "string list \<Rightarrow> run_cfg res"
  ob_skill :: "string \<Rightarrow> string list res"
  ob_tcp :: "string \<Rightarrow> int \<Rightarrow> bool"
  ob_grav :: "string \<Rightarrow> bool option"
  ob_post :: "string \<Rightarrow> bool"
  ob_spawn :: "string \<Rightarrow> bool"

text \<open>
  The readings of the status streams are those of the store at the clock of the observation, with no exception on the
  way.
\<close>

definition obs_of :: "obs \<Rightarrow> int \<Rightarrow> daemon \<Rightarrow> bool" where
  "obs_of w now_ns d \<longleftrightarrow>
     (\<forall>side. arm_status side (dm_store d) = Inr (ob_status w side))
     \<and> (\<forall>side. stream_fresh (side @ ''/status'') ARM_FRESH_S now_ns (dm_store d) = Inr (ob_arm_fresh w side))
     \<and> (\<forall>view. stream_fresh view CAMERA_FRESH_S now_ns (dm_store d) = Inr (ob_cam_fresh w view))
     \<and> (\<forall>side. stream_fresh (factr_stream_name side) (sc_max_age_s (dm_cfg d)) now_ns (dm_store d) = Inr (ob_leader_fresh w side))"

definition say :: "smsg \<Rightarrow> daemon \<Rightarrow> daemon" where
  "say m d = d\<lparr>dm_state := (dm_state d)\<lparr>st_message := m\<rparr>\<rparr>"

definition in_control :: "obs \<Rightarrow> string \<Rightarrow> bool" where
  "in_control w side = (case ob_status w side of Some (a # b # c # rest) \<Rightarrow> flt_ge c (1 / 2) | _ \<Rightarrow> False)"

definition arms_still_in_control :: "obs \<Rightarrow> daemon \<Rightarrow> string list" where
  "arms_still_in_control w d = filter (in_control w) (dkeys (dm_qs d))"

definition down_sides :: "daemon \<Rightarrow> string list" where
  "down_sides d = map au_side (filter (\<lambda>u. au_name u \<in> set (st_arms_down (dm_state d))) (dm_arms d))"

section \<open>The queued start and the stop\<close>

definition set_pending :: "cmd \<Rightarrow> real option \<Rightarrow> daemon \<Rightarrow> daemon" where
  "set_pending c deadline d =
     d\<lparr>dm_pending := Some \<lparr>pn_cmd = c, pn_deadline = deadline\<rparr>,
       dm_state := (dm_state d)\<lparr>st_pending := Some (cget c ''phase'', cget c ''task'', cget c ''skill'')\<rparr>\<rparr>"

definition clear_pending :: "daemon \<Rightarrow> daemon" where
  "clear_pending d = d\<lparr>dm_pending := None, dm_state := (dm_state d)\<lparr>st_pending := None\<rparr>\<rparr>"

definition handle_stop :: "daemon \<Rightarrow> daemon" where
  "handle_stop d =
     (let cancelled = dm_pending d \<noteq> None;
          d1 = (if cancelled then clear_pending d else d) in
      case dm_run d1 of
        None \<Rightarrow> say (if cancelled then MCancelled else MNoRun) d1
      | Some r \<Rightarrow>
          if ar_stopping r then d1
          else d1\<lparr>dm_run := Some (r\<lparr>ar_stopping := True\<rparr>), dm_stops := ar_proc r # dm_stops d1,
                  dm_state := (dm_state d1)\<lparr>st_mode := SAVING\<rparr>\<rparr>)"

section \<open>Starting a run\<close>

record start_plan =
  sp_phase :: string
  sp_label :: cval
  sp_coeffs :: coeffs_cfg
  sp_control :: string
  sp_name :: string
  sp_sides :: "string list"
  sp_note :: smsg

definition extra_overrides :: "cmd \<Rightarrow> string list" where
  "extra_overrides c =
     (if cget c ''policy'' = CNull then [] else [''policy='' @ py_str (cget c ''policy'')])
     @ (if cget c ''host'' = CNull then [] else [''policy.host='' @ py_str (cget c ''host'')])
     @ (if cget c ''port'' = CNull then [] else [''policy.port='' @ py_str (cget c ''port'')])
     @ (if cget c ''phase'' = CStr SKILL then [''skill.name='' @ py_str (cget c ''skill'')] else [])"

definition eval_blockers :: "obs \<Rightarrow> run_cfg \<Rightarrow> (string \<times> blocker) list" where
  "eval_blockers w rc =
     List.map_filter (\<lambda>(side, arm). if ra_enabled arm
         then map_option (\<lambda>b. (side, b)) (follower_control_blocker (ob_op_name w) (ob_status w side)) else None) (rc_arms rc)"

definition inhibit :: "run_cfg \<Rightarrow> run_cfg" where
  "inhibit rc = rc\<lparr>rc_arms := map (\<lambda>(side, arm). (side, arm\<lparr>ra_enabled := False\<rparr>)) (rc_arms rc)\<rparr>"

text \<open>The \<open>try\<close> block of \<open>_handle_start\<close>: the run's configuration, its coefficients, its consumer and a dry-run note.\<close>

definition compose_run :: "obs \<Rightarrow> daemon \<Rightarrow> cmd \<Rightarrow> string \<Rightarrow> (run_cfg \<times> coeffs_cfg \<times> consumer \<times> smsg) res" where
  "compose_run w d c phase =
     rbind (ob_compose w (run_overrides (sc_overrides (dm_cfg d)) (py_str (start_task c)) phase (extra_overrides c))) (\<lambda>rc0.
     let blockers = (if phase = EVAL then eval_blockers w rc0 else []);
         rc = (if blockers = [] then rc0 else inhibit rc0);
         note = (if blockers = [] then NoMsg else MDryRun blockers) in
     rbind (active_coeffs rc) (\<lambda>co.
     rbind (build_consumer (ob_skill w) rc) (\<lambda>cons. Inr (rc, co, cons, note))))"

definition stale_sides :: "obs \<Rightarrow> daemon \<Rightarrow> string list" where
  "stale_sides w d = (if dm_factr d = None then [] else filter (\<lambda>s. \<not> ob_leader_fresh w s) (sc_servers (dm_cfg d)))"

definition limp_sides :: "obs \<Rightarrow> daemon \<Rightarrow> string list" where
  "limp_sides w d = (if sc_sim (dm_cfg d) then [] else filter (\<lambda>s. ob_grav w s \<noteq> Some True) (sc_servers (dm_cfg d)))"

definition preflight_run :: "obs \<Rightarrow> run_cfg \<Rightarrow> string \<Rightarrow> smsg option" where
  "preflight_run w rc phase =
     (if phase = EVAL \<and> rc_policy_kind rc = ''remote'' \<and> \<not> ob_tcp w (rc_policy_host rc) (rc_policy_port rc)
      then Some MPolicyUnreachable else None)"

definition start_refusal :: "obs \<Rightarrow> daemon \<Rightarrow> run_cfg \<Rightarrow> string \<Rightarrow> smsg option" where
  "start_refusal w d rc phase =
     (case preflight_run w rc phase of
        Some m \<Rightarrow> Some m
      | None \<Rightarrow>
          if phase \<noteq> COLLECTION then None
          else if stale_sides w d \<noteq> []
          then Some (MLeadersStale (stale_sides w d) (case dm_servers d of None \<Rightarrow> False | Some sv \<Rightarrow> sv_state sv = OFF))
          else if limp_sides w d \<noteq> [] then Some (MLeadersLimp (limp_sides w d))
          else None)"

definition command_sides :: "daemon \<Rightarrow> run_cfg \<Rightarrow> string list" where
  "command_sides d rc = map fst (filter (\<lambda>(s, a). ra_enabled a \<and> s \<in> set (dkeys (dm_qs d))) (rc_arms rc))"

text \<open>From a well-formed command on an idle session to the plan of the run, or to the message of the refusal.\<close>

definition plan_run :: "obs \<Rightarrow> daemon \<Rightarrow> cmd \<Rightarrow> string \<Rightarrow> smsg + start_plan" where
  "plan_run w d c phase =
     (case compose_run w d c phase of
        Inl e \<Rightarrow> Inl (MStartFailed e)
      | Inr (rc, co, cons, note) \<Rightarrow>
          (case start_refusal w d rc phase of
             Some m \<Rightarrow> Inl m
           | None \<Rightarrow>
               (let sides = (case cn_drive cons of None \<Rightarrow> command_sides d rc
                             | Some ds \<Rightarrow> filter (\<lambda>s. s \<in> set ds) (command_sides d rc));
                    down = filter (\<lambda>s. s \<in> set sides) (down_sides d) in
                if cn_drive cons \<noteq> None \<and> sides = [] then Inl MNoDriveable
                else if down \<noteq> [] then Inl (MArmsDown down)
                else Inr \<lparr>sp_phase = phase, sp_label = (if phase = SKILL then cget c ''skill'' else start_task c),
                          sp_coeffs = co, sp_control = rc_control rc, sp_name = cn_name cons, sp_sides = sides, sp_note = note\<rparr>)))"

definition put_enter :: "enter_control \<Rightarrow> string \<Rightarrow> (string, enter_control list) dict \<Rightarrow> (string, enter_control list) dict" where
  "put_enter m side qs = (case dget qs side of None \<Rightarrow> qs | Some q \<Rightarrow> dput side (q @ [m]) qs)"

text \<open>Hand the arms their control session, spawn the consumer, publish the run.\<close>

definition launch_run :: "obs \<Rightarrow> start_plan \<Rightarrow> daemon \<Rightarrow> daemon" where
  "launch_run w pl d =
     (case os_spawn (dm_os d) of (p, o2) \<Rightarrow>
      let m = \<lparr>ec_coeffs = sp_coeffs pl, ec_control = sp_control pl, ec_phase = sp_phase pl\<rparr> in
      clear_pending (d\<lparr>dm_qs := fold (put_enter m) (sp_sides pl) (dm_qs d), dm_os := o2,
        dm_run := Some \<lparr>ar_phase = sp_phase pl, ar_task = sp_label pl, ar_proc = p, ar_sides = sp_sides pl,
                        ar_stopping = False, ar_armed = False, ar_active = []\<rparr>,
        dm_state := (dm_state d)\<lparr>st_mode := sp_phase pl, st_task := sp_label pl, st_phase := Some (sp_phase pl),
          st_seq := Suc (st_seq (dm_state d)), st_started := Some (ob_wall w), st_message := sp_note pl\<rparr>\<rparr>))"

definition phase_of :: "cmd \<Rightarrow> string" where
  "phase_of c = (case cget c ''phase'' of CStr p \<Rightarrow> p | _ \<Rightarrow> [])"

definition handle_start :: "obs \<Rightarrow> cmd \<Rightarrow> daemon \<Rightarrow> daemon" where
  "handle_start w c d =
     (case validate_start c of
        Some e \<Rightarrow> say (MBadStart e) d
      | None \<Rightarrow>
          if dm_run d \<noteq> None then say MRunActive d
          else if arms_still_in_control w d \<noteq> []
          then say (MQueued (arms_still_in_control w d)) (set_pending c (Some (ob_now w + PENDING_WINDDOWN_S)) d)
          else if st_cameras_down (dm_state d) \<noteq> [] \<and> phase_of c \<noteq> SKILL
          then say ((if \<forall>u \<in> set (dm_cameras d). cu_name u \<in> set (st_cameras_down (dm_state d)) \<longrightarrow> \<not> cu_announced u
                     then MCamerasStarting else MCamerasDown) (st_cameras_down (dm_state d))) d
          else if st_arms_down (dm_state d) \<noteq> [] \<and> phase_of c \<noteq> SKILL
          then say ((if \<forall>u \<in> set (dm_arms d). au_name u \<in> set (st_arms_down (dm_state d)) \<longrightarrow> \<not> au_announced u
                     then MArmsStarting else MArmsDown) (st_arms_down (dm_state d))) d
          else (case plan_run w d c (phase_of c) of Inl m \<Rightarrow> say m d | Inr pl \<Rightarrow> launch_run w pl d))"

definition handle_switch :: "obs \<Rightarrow> cmd \<Rightarrow> daemon \<Rightarrow> daemon" where
  "handle_switch w c d =
     (case validate_start c of
        Some e \<Rightarrow> say (MBadStart e) d
      | None \<Rightarrow>
          if dm_run d = None \<and> arms_still_in_control w d = [] then handle_start w c d
          else if dm_run d \<noteq> None then say MSwitchStopping (set_pending c None (handle_stop d))
          else say MSwitchWaiting (set_pending c (Some (ob_now w + PENDING_WINDDOWN_S)) d))"

definition tend_pending :: "obs \<Rightarrow> daemon \<Rightarrow> bool \<times> daemon" where
  "tend_pending w d =
     (case dm_pending d of
        None \<Rightarrow> (False, d)
      | Some p \<Rightarrow>
          if dm_run d \<noteq> None then (False, d)
          else let dl = (case pn_deadline p of None \<Rightarrow> ob_now w + PENDING_WINDDOWN_S | Some t \<Rightarrow> t);
                   d1 = d\<lparr>dm_pending := Some (p\<lparr>pn_deadline := Some dl\<rparr>)\<rparr> in
            if arms_still_in_control w d1 \<noteq> []
            then (if ob_now w < dl then (False, d1) else (True, say MAbandoned (clear_pending d1)))
            else (True, handle_start w (pn_cmd p) (clear_pending d1)))"

section \<open>The end of a run\<close>

text \<open>
  An exception of the channel sweep leaves the outcome recorded and the run in place.
\<close>

definition reap_consumer :: "obs \<Rightarrow> daemon \<Rightarrow> bool res \<times> daemon" where
  "reap_consumer w d =
     (case dm_run d of
        None \<Rightarrow> (Inr False, d)
      | Some r \<Rightarrow>
          if os_alive (dm_os d) (ar_proc r) then (Inr False, d)
          else let d1 = d\<lparr>dm_state := (dm_state d)\<lparr>st_outcome := Some
                 \<lparr>lo_seq = st_seq (dm_state d), lo_phase = ar_phase r, lo_task = ar_task r,
                  lo_outcome = classify_outcome (ar_phase r) (ob_exit w (ar_proc r)) (ar_stopping r),
                  lo_exit = ob_exit w (ar_proc r)\<rparr>\<rparr>\<rparr> in
            (case cleanup_sub ''control'' (dm_store d) of
               Inl e \<Rightarrow> (Inl e, d1)
             | Inr (n, w') \<Rightarrow>
                 (Inr True, d1\<lparr>dm_store := w', dm_run := None,
                   dm_state := (dm_state d1)\<lparr>st_mode := VIEWING, st_task := CNull, st_phase := None, st_started := None\<rparr>\<rparr>)))"

text \<open>The dropout watchdog. The scan ends at the first commanded side that was active and is not any more.\<close>

fun dropout_scan :: "obs \<Rightarrow> bool \<Rightarrow> string list \<Rightarrow> string list \<Rightarrow> string option \<times> string list" where
  "dropout_scan w armed act [] = (None, act)"
| "dropout_scan w armed act (s # ss) =
     (if in_control w s then dropout_scan w armed (List.insert s act) ss
      else if armed \<and> s \<in> set act then (Some s, act)
      else dropout_scan w armed act ss)"

definition watch_arm_dropout :: "obs \<Rightarrow> daemon \<Rightarrow> daemon" where
  "watch_arm_dropout w d =
     (case dm_run d of
        None \<Rightarrow> d
      | Some r \<Rightarrow>
          if ar_stopping r \<or> ar_sides r = [] then d
          else (case dropout_scan w (ar_armed r) (ar_active r) (ar_sides r) of
             (Some s, act) \<Rightarrow> handle_stop (say (MDropout s) (d\<lparr>dm_run := Some (r\<lparr>ar_active := act\<rparr>)\<rparr>))
           | (None, act) \<Rightarrow>
               d\<lparr>dm_run := Some (r\<lparr>ar_active := act, ar_armed := ar_armed r \<or> set (ar_sides r) \<subseteq> set act\<rparr>)\<rparr>))"

section \<open>Supervised units\<close>

text \<open>\<open>_sweep_node_streams\<close>: unlink each segment that is left over and drop its manifest.\<close>

definition sweep_stream :: "string \<Rightarrow> string \<Rightarrow> 'v run_store \<Rightarrow> 'v run_store" where
  "sweep_stream run_id name w = remove ''streams'' name (w\<lparr>rs_shm := ddel (shm_name_for run_id name) (rs_shm w)\<rparr>)"

definition sweep_node_streams :: "string list \<Rightarrow> daemon \<Rightarrow> daemon" where
  "sweep_node_streams names d = d\<lparr>dm_store := fold (sweep_stream (sc_run_id (dm_cfg d))) names (dm_store d)\<rparr>"

definition drain_session_q :: "string \<Rightarrow> daemon \<Rightarrow> daemon" where
  "drain_session_q side d = (case dget (dm_qs d) side of None \<Rightarrow> d | Some q \<Rightarrow> d\<lparr>dm_qs := dput side [] (dm_qs d)\<rparr>)"

text \<open>
  Setting a unit's stop event and escalating to SIGKILL: when \<open>_escalate\<close> returns the process is gone (the theory of
  the escalation shows that a process it leaves alive was sent SIGKILL).
\<close>

definition kill_unit :: "pid \<Rightarrow> daemon \<Rightarrow> daemon" where
  "kill_unit p d = d\<lparr>dm_stops := p # dm_stops d, dm_os := os_die [p] (dm_os d)\<rparr>"

definition stop_live :: "pid \<Rightarrow> daemon \<Rightarrow> daemon" where
  "stop_live p d = (if os_alive (dm_os d) p then kill_unit p d else d)"

definition respawn_arm :: "real \<Rightarrow> arm_unit \<Rightarrow> daemon \<Rightarrow> arm_unit \<times> daemon" where
  "respawn_arm now u d =
     (case os_spawn (dm_os d) of (p, o2) \<Rightarrow> (u\<lparr>au_proc := p, au_spawned := now, au_reaped := False\<rparr>, d\<lparr>dm_os := o2\<rparr>))"

definition respawn_camera :: "real \<Rightarrow> camera_unit \<Rightarrow> daemon \<Rightarrow> camera_unit \<times> daemon" where
  "respawn_camera now u d =
     (let d1 = sweep_node_streams (cu_streams u) d in
      case os_spawn (dm_os d1) of (p, o2) \<Rightarrow> (u\<lparr>cu_proc := p, cu_spawned := now, cu_stalled := None\<rparr>, d1\<lparr>dm_os := o2\<rparr>))"

fun find_unit :: "('u \<Rightarrow> bool) \<Rightarrow> 'u list \<Rightarrow> ('u list \<times> 'u \<times> 'u list) option" where
  "find_unit P [] = None"
| "find_unit P (u # us) = (if P u then Some ([], u, us) else map_option (\<lambda>(a, v, b). (u # a, v, b)) (find_unit P us))"

subsection \<open>Arms\<close>

definition reap_dead_arm :: "arm_unit \<Rightarrow> daemon \<Rightarrow> arm_unit \<times> daemon" where
  "reap_dead_arm u d =
     (let d1 = drain_session_q (au_side u) (sweep_node_streams (au_streams u) d) in
      (u\<lparr>au_reaped := True\<rparr>,
       case dm_run d1 of
         None \<Rightarrow> d1
       | Some r \<Rightarrow>
           if ar_stopping r then d1
           else if au_side u \<in> set (ar_sides r) \<or> ar_phase r \<noteq> SKILL then handle_stop (say (MArmDied (au_side u)) d1)
           else d1))"

text \<open>One arm in one beat; the flag says whether it is reported down.\<close>

definition tend_arm :: "obs \<Rightarrow> arm_unit \<Rightarrow> daemon \<Rightarrow> bool \<times> arm_unit \<times> daemon" where
  "tend_arm w u d =
     (if os_alive (dm_os d) (au_proc u) then
        let fresh = ob_arm_fresh w (au_side u); in_grace = ob_now w - au_spawned u < ARM_BOOT_GRACE_S in
        if fresh \<or> in_grace
        then (\<not> fresh, (if fresh then u\<lparr>au_announced := False\<rparr> else u), d)
        else (True, u\<lparr>au_announced := True\<rparr>, d)
      else
        case (if au_reaped u then (u, d) else reap_dead_arm (u\<lparr>au_announced := True\<rparr>) d) of (u1, d1) \<Rightarrow>
        if dm_run d1 \<noteq> None \<or> ob_now w - au_spawned u1 < ARM_RESPAWN_S then (True, u1, d1)
        else case respawn_arm (ob_now w) u1 d1 of (u2, d2) \<Rightarrow> (True, u2, d2))"

fun tend_arm_units :: "obs \<Rightarrow> arm_unit list \<Rightarrow> daemon \<Rightarrow> string list \<times> arm_unit list \<times> daemon" where
  "tend_arm_units w [] d = ([], [], d)"
| "tend_arm_units w (u # us) d =
     (case tend_arm w u d of (down, u', d1) \<Rightarrow>
      case tend_arm_units w us d1 of (names, us', d2) \<Rightarrow> ((if down then [au_name u] else []) @ names, u' # us', d2))"

definition tend_arms :: "obs \<Rightarrow> daemon \<Rightarrow> bool \<times> daemon" where
  "tend_arms w d =
     (case tend_arm_units w (dm_arms d) d of (names, us, d1) \<Rightarrow>
      let d2 = d1\<lparr>dm_arms := us\<rparr> in
      if sort names \<noteq> st_arms_down (dm_state d2) then (True, d2\<lparr>dm_state := (dm_state d2)\<lparr>st_arms_down := sort names\<rparr>\<rparr>)
      else (False, d2))"

definition handle_reconnect_arm :: "obs \<Rightarrow> cmd \<Rightarrow> daemon \<Rightarrow> daemon" where
  "handle_reconnect_arm w c d =
     (case find_unit (\<lambda>u. cget c ''side'' = CStr (au_side u)) (dm_arms d) of
        None \<Rightarrow> say MUnknownArm d
      | Some (as, u, bs) \<Rightarrow>
          if dm_run d \<noteq> None \<or> dm_pending d \<noteq> None then say MArmBusy d
          else if au_side u \<in> set (arms_still_in_control w d) then say MArmWindingDown d
          else let d1 = drain_session_q (au_side u) (sweep_node_streams (au_streams u) (stop_live (au_proc u) d)) in
            (case respawn_arm (ob_now w) u d1 of (u', d2) \<Rightarrow> say MReconnecting (d2\<lparr>dm_arms := as @ u' # bs\<rparr>)))"

subsection \<open>Cameras\<close>

definition camera_producing :: "obs \<Rightarrow> camera_unit \<Rightarrow> bool" where
  "camera_producing w u = (case cu_view u of None \<Rightarrow> True | Some v \<Rightarrow> ob_cam_fresh w v)"

definition tend_camera :: "obs \<Rightarrow> camera_unit \<Rightarrow> daemon \<Rightarrow> bool \<times> camera_unit \<times> daemon" where
  "tend_camera w u d =
     (let alive = os_alive (dm_os d) (cu_proc u);
          producing = (alive \<and> camera_producing w u);
          in_grace = (alive \<and> ob_now w - cu_spawned u < CAMERA_BOOT_GRACE_S) in
      if producing \<or> in_grace
      then (\<not> producing, (if producing then u\<lparr>cu_stalled := None, cu_announced := False\<rparr> else u), d)
      else let u1 = u\<lparr>cu_announced := True\<rparr> in
        if alive then
          let since = (case cu_stalled u1 of None \<Rightarrow> ob_now w | Some t \<Rightarrow> t); u2 = u1\<lparr>cu_stalled := Some since\<rparr> in
          if ob_now w - since < CAMERA_RESPAWN_S then (True, u2, d)
          else case respawn_camera (ob_now w) u2 (kill_unit (cu_proc u) d) of (u3, d3) \<Rightarrow> (True, u3, d3)
        else if ob_now w - cu_spawned u < CAMERA_RESPAWN_S then (True, u1, d)
        else case respawn_camera (ob_now w) u1 d of (u3, d3) \<Rightarrow> (True, u3, d3))"

fun tend_camera_units :: "obs \<Rightarrow> camera_unit list \<Rightarrow> daemon \<Rightarrow> string list \<times> camera_unit list \<times> daemon" where
  "tend_camera_units w [] d = ([], [], d)"
| "tend_camera_units w (u # us) d =
     (case tend_camera w u d of (down, u', d1) \<Rightarrow>
      case tend_camera_units w us d1 of (names, us', d2) \<Rightarrow> ((if down then [cu_name u] else []) @ names, u' # us', d2))"

definition tend_cameras :: "obs \<Rightarrow> daemon \<Rightarrow> bool \<times> daemon" where
  "tend_cameras w d =
     (case tend_camera_units w (dm_cameras d) d of (names, us, d1) \<Rightarrow>
      let d2 = d1\<lparr>dm_cameras := us\<rparr> in
      if sort names \<noteq> st_cameras_down (dm_state d2)
      then (True, d2\<lparr>dm_state := (dm_state d2)\<lparr>st_cameras_down := sort names\<rparr>\<rparr>)
      else (False, d2))"

definition handle_respawn_camera :: "obs \<Rightarrow> cmd \<Rightarrow> daemon \<Rightarrow> daemon" where
  "handle_respawn_camera w c d =
     (case find_unit (\<lambda>u. cget c ''name'' = CStr (cu_name u)) (dm_cameras d) of
        None \<Rightarrow> say MUnknownCamera d
      | Some (as, u, bs) \<Rightarrow>
          if (case dm_run d of None \<Rightarrow> False | Some r \<Rightarrow> ar_phase r \<noteq> SKILL) then say MCameraBusy d
          else (case respawn_camera (ob_now w) u (stop_live (cu_proc u) d) of (u', d2) \<Rightarrow>
                  say MCameraRespawning (d2\<lparr>dm_cameras := as @ u' # bs\<rparr>)))"

subsection \<open>The FACTR producer and servers\<close>

definition tend_factr :: "obs \<Rightarrow> daemon \<Rightarrow> daemon" where
  "tend_factr w d =
     (case dm_factr d of
        None \<Rightarrow> d
      | Some u \<Rightarrow>
          if os_alive (dm_os d) (fu_proc u) then d\<lparr>dm_factr := Some (u\<lparr>fu_announced := False\<rparr>)\<rparr>
          else let u1 = u\<lparr>fu_announced := True\<rparr> in
            if ob_now w - fu_spawned u < CAMERA_RESPAWN_S then d\<lparr>dm_factr := Some u1\<rparr>
            else let d1 = sweep_node_streams (fu_streams u) d in
              (case os_spawn (dm_os d1) of (p, o2) \<Rightarrow>
                 d1\<lparr>dm_factr := Some (u1\<lparr>fu_proc := p, fu_spawned := ob_now w\<rparr>), dm_os := o2\<rparr>))"

text \<open>A supervisor call on the daemon's process table; the state file's copy of the supervisor's status is refreshed.\<close>

definition put_servers :: "launcher \<Rightarrow> daemon \<Rightarrow> daemon" where
  "put_servers l d = d\<lparr>dm_servers := Some (fst l), dm_os := snd l,
     dm_state := (dm_state d)\<lparr>st_servers := Some (sup_status_of l)\<rparr>\<rparr>"

definition handle_start_factr :: "obs \<Rightarrow> daemon \<Rightarrow> daemon" where
  "handle_start_factr w d =
     (case dm_servers d of
        None \<Rightarrow> say MNotManaged d
      | Some sv \<Rightarrow>
          if dm_run d \<noteq> None \<or> dm_pending d \<noteq> None then say MNoLaunchInRun d
          else (case request_start (ob_now w) (ob_wall w) (sv, dm_os d) of (ok, l) \<Rightarrow> put_servers l (say (MServers ok) d)))"

definition handle_stop_factr :: "obs \<Rightarrow> daemon \<Rightarrow> daemon" where
  "handle_stop_factr w d =
     (case dm_servers d of
        None \<Rightarrow> say MNotManaged d
      | Some sv \<Rightarrow>
          if (case dm_run d of None \<Rightarrow> False | Some r \<Rightarrow> ar_phase r = COLLECTION) then say MNoStopInCollection d
          else (case request_stop (ob_now w) (sv, dm_os d) of (ok, l) \<Rightarrow> put_servers l (say (MServers ok) d)))"

definition collecting :: "daemon \<Rightarrow> bool" where
  "collecting d = (case dm_run d of None \<Rightarrow> False | Some r \<Rightarrow> ar_phase r = COLLECTION \<and> \<not> ar_stopping r)"

definition is_teleop :: "string \<Rightarrow> bool" where
  "is_teleop n \<longleftrightarrow> take 7 n = ''teleop:''"

definition teleops_died :: "sup_status option \<Rightarrow> sup_status \<Rightarrow> server_unit list \<Rightarrow> string list" where
  "teleops_died prev status us =
     sort (filter (\<lambda>n. is_teleop n \<and> n \<in> ss_down status \<and> n \<notin> (case prev of None \<Rightarrow> {} | Some s \<Rightarrow> ss_down s)) (map su_name us))"

definition tend_factr_servers :: "obs \<Rightarrow> daemon \<Rightarrow> bool res \<times> daemon" where
  "tend_factr_servers w d =
     (case dm_servers d of
        None \<Rightarrow> (Inr False, d)
      | Some sv \<Rightarrow>
          (case tend (ob_spawn w) (ob_now w) (sv, dm_os d) of
             (Inl e, l) \<Rightarrow> (Inl e, d\<lparr>dm_servers := Some (fst l), dm_os := snd l\<rparr>)
           | (Inr u, l) \<Rightarrow>
               (let d1 = d\<lparr>dm_servers := Some (fst l), dm_os := snd l\<rparr>; status = sup_status_of l; prev = st_servers (dm_state d);
                    died = teleops_died prev status (sv_units (fst l)) in
                if Some status = prev then (Inr False, d1)
                else (Inr True, put_servers l (if collecting d \<and> died \<noteq> [] then say (MTeleopDied died) d1 else d1)))))"

text \<open>
  The leaders' force terms: a request goes out to every server; on a disable of gravity compensation a collection run is
  stopped, because its followers would track the sagging leader.
\<close>

definition handle_grav_comp :: "obs \<Rightarrow> bool \<Rightarrow> daemon \<Rightarrow> daemon" where
  "handle_grav_comp w enable d =
     (if sc_sim (dm_cfg d) then say MGravSim d
      else if sc_servers (dm_cfg d) = [] then say MGravNone d
      else let ok = filter (ob_post w) (sc_servers (dm_cfg d)); failed = filter (\<lambda>s. \<not> ob_post w s) (sc_servers (dm_cfg d));
               halted = (\<not> enable \<and> collecting d) in
        say (MGrav ok failed halted) (if halted then handle_stop d else d))"

definition handle_force_feedback :: "obs \<Rightarrow> bool \<Rightarrow> daemon \<Rightarrow> daemon" where
  "handle_force_feedback w enable d =
     (if sc_sim (dm_cfg d) then say MGravSim d
      else if sc_servers (dm_cfg d) = [] then say MGravNone d
      else say (MForce (filter (ob_post w) (sc_servers (dm_cfg d))) (filter (\<lambda>s. \<not> ob_post w s) (sc_servers (dm_cfg d)))) d)"

section \<open>Commands\<close>

text \<open>One command of \<open>_drain_commands\<close>; the flag asks for the shutdown.\<close>

definition handle_command :: "obs \<Rightarrow> cmd \<Rightarrow> daemon \<Rightarrow> bool \<times> daemon" where
  "handle_command w c d =
     (let kind = cget c ''cmd'' in
      if kind = CStr ''shutdown'' then (True, d)
      else (False,
        if kind = CStr ''start'' then handle_start w c d
        else if kind = CStr ''switch'' then handle_switch w c d
        else if kind = CStr ''stop'' then handle_stop d
        else if kind = CStr ''reconnect_arm'' then handle_reconnect_arm w c d
        else if kind = CStr ''respawn_camera'' then handle_respawn_camera w c d
        else if kind = CStr ''start_factr'' then handle_start_factr w d
        else if kind = CStr ''stop_factr'' then handle_stop_factr w d
        else if kind = CStr ''enable_grav_comp'' then handle_grav_comp w True d
        else if kind = CStr ''disable_grav_comp'' then handle_grav_comp w False d
        else if kind = CStr ''enable_force_feedback'' then handle_force_feedback w True d
        else if kind = CStr ''disable_force_feedback'' then handle_force_feedback w False d
        else say MUnknownCmd d))"

fun drain_commands :: "(obs \<times> cmd) list \<Rightarrow> daemon \<Rightarrow> bool \<times> daemon" where
  "drain_commands [] d = (False, d)"
| "drain_commands ((w, c) # cs) d =
     (case handle_command w c d of (True, d') \<Rightarrow> (True, d') | (False, d') \<Rightarrow> drain_commands cs d')"

section \<open>Start and end of the session\<close>

record hw_node =
  hn_name :: string
  hn_side :: "string option"
  hn_view :: "string option"
  hn_streams :: "string list"

definition make_arm_unit :: "real \<Rightarrow> hw_node \<Rightarrow> os \<Rightarrow> arm_unit \<times> os" where
  "make_arm_unit now n o1 =
     (case os_spawn o1 of (p, o2) \<Rightarrow>
        (\<lparr>au_name = hn_name n, au_side = (case hn_side n of None \<Rightarrow> [] | Some s \<Rightarrow> s), au_streams = hn_streams n, au_proc = p,
          au_spawned = now, au_announced = False, au_reaped = False\<rparr>, o2))"

definition make_camera_unit :: "real \<Rightarrow> hw_node \<Rightarrow> os \<Rightarrow> camera_unit \<times> os" where
  "make_camera_unit now n o1 =
     (case os_spawn o1 of (p, o2) \<Rightarrow>
        (\<lparr>cu_name = hn_name n, cu_view = hn_view n, cu_streams = hn_streams n, cu_proc = p, cu_spawned = now,
          cu_announced = False, cu_stalled = None\<rparr>, o2))"

fun make_units :: "(hw_node \<Rightarrow> os \<Rightarrow> 'u \<times> os) \<Rightarrow> hw_node list \<Rightarrow> os \<Rightarrow> 'u list \<times> os" where
  "make_units f [] o1 = ([], o1)"
| "make_units f (n # ns) o1 = (case f n o1 of (u, o2) \<Rightarrow> case make_units f ns o2 of (us, o3) \<Rightarrow> (u # us, o3))"

text \<open>
  \<open>start_hardware\<close> with the nodes of \<open>build_hardware_nodes\<close>: the camera nodes have a \<open>cam_name\<close>, the FACTR producer is the
  node called \<^verbatim>\<open>factr\<close>, the rest are arms.
\<close>

definition start_hardware :: "real \<Rightarrow> hw_node list \<Rightarrow> hw_node list \<Rightarrow> hw_node option \<Rightarrow> daemon \<Rightarrow> daemon" where
  "start_hardware now arms cams factr d =
     (case make_units (make_arm_unit now) arms (dm_os d) of (aus, o1) \<Rightarrow>
      case make_units (make_camera_unit now) cams o1 of (cus, o2) \<Rightarrow>
      case factr of
        None \<Rightarrow> d\<lparr>dm_arms := aus, dm_cameras := cus, dm_factr := None, dm_os := o2\<rparr>
      | Some n \<Rightarrow> (case os_spawn o2 of (p, o3) \<Rightarrow>
          d\<lparr>dm_arms := aus, dm_cameras := cus, dm_os := o3,
            dm_factr := Some \<lparr>fu_streams = hn_streams n, fu_proc = p, fu_spawned = now, fu_announced = False\<rparr>\<rparr>))"

definition fresh_daemon :: "session_cfg \<Rightarrow> string list \<Rightarrow> supervisor option \<Rightarrow> os \<Rightarrow> flt run_store \<Rightarrow> daemon" where
  "fresh_daemon cfg control_sides servers o1 w =
     \<lparr>dm_cfg = cfg, dm_qs = map (\<lambda>s. (s, [])) control_sides, dm_arms = [], dm_cameras = [], dm_factr = None, dm_servers = servers,
      dm_run = None, dm_pending = None,
      dm_state = \<lparr>st_mode = VIEWING, st_task = CNull, st_phase = None, st_seq = 0, st_started = None, st_message = NoMsg,
        st_outcome = None, st_cameras_down = [], st_arms_down = [], st_pending = None,
        st_servers = map_option (\<lambda>sv. sup_status_of (sv, o1)) servers\<rparr>,
      dm_stops = [], dm_os = o1, dm_store = w\<rparr>"

text \<open>The launch of the FACTR servers with the daemon; an exception is logged and the daemon goes on.\<close>

definition auto_start :: "(string \<Rightarrow> bool) \<Rightarrow> real \<Rightarrow> daemon \<Rightarrow> daemon" where
  "auto_start io now d =
     (case dm_servers d of
        None \<Rightarrow> d
      | Some sv \<Rightarrow> (case start_now io now (sv, dm_os d) of (r, l) \<Rightarrow> put_servers l d))"

end
