(* ===== verification/Session_Machine.thy ===== *)
theory Session_Machine
  imports Session
begin

text \<open>
  The session daemon as a state machine: its calls and the environment's moves as an inductive step relation, the
  invariants of every reachable state by rule induction, and the properties of starts, stops, queued starts and respawns.

  The daemon's loop calls its parts in a fixed order and some of them only every half second or every second; the relation allows
  them in any order, so what holds of every reachable state holds of the loop.
\<close>

section \<open>Reachable states\<close>

text \<open>Between two calls processes die, the arms take messages from their queues, and the nodes write the store.\<close>

definition consumed :: "(string, enter_control list) dict \<Rightarrow> (string, enter_control list) dict \<Rightarrow> bool" where
  "consumed qs qs' \<longleftrightarrow> dkeys qs' = dkeys qs \<and> (\<forall>s q. dget qs s = Some q \<longrightarrow> (\<exists>k. dget qs' s = Some (drop k q)))"

inductive env_step :: "daemon \<Rightarrow> daemon \<Rightarrow> bool" where
  "consumed (dm_qs d) qs \<Longrightarrow> env_step d (d\<lparr>dm_qs := qs, dm_os := os_die ps (dm_os d), dm_store := w\<rparr>)"

inductive session_reach :: "daemon \<Rightarrow> bool" where
  boot: "distinct (map hn_name arms) \<Longrightarrow> distinct (map (\<lambda>n. case hn_side n of None \<Rightarrow> [] | Some s \<Rightarrow> s) arms)
    \<Longrightarrow> \<forall>p \<in> set (os_live o1). p < os_next o1
    \<Longrightarrow> session_reach (start_hardware now arms cams factr (fresh_daemon cfg sides servers o1 w))"
| autostart: "session_reach d \<Longrightarrow> session_reach (auto_start io now d)"
| env: "session_reach d \<Longrightarrow> env_step d d' \<Longrightarrow> session_reach d'"
| command: "session_reach d \<Longrightarrow> handle_command w c d = (q, d') \<Longrightarrow> session_reach d'"
| reap: "session_reach d \<Longrightarrow> reap_consumer w d = (r, d') \<Longrightarrow> session_reach d'"
| pending: "session_reach d \<Longrightarrow> tend_pending w d = (b, d') \<Longrightarrow> session_reach d'"
| dropout: "session_reach d \<Longrightarrow> session_reach (watch_arm_dropout w d)"
| cameras: "session_reach d \<Longrightarrow> tend_cameras w d = (b, d') \<Longrightarrow> session_reach d'"
| arms: "session_reach d \<Longrightarrow> tend_arms w d = (b, d') \<Longrightarrow> session_reach d'"
| factr: "session_reach d \<Longrightarrow> session_reach (tend_factr w d)"
| servers: "session_reach d \<Longrightarrow> tend_factr_servers w d = (r, d') \<Longrightarrow> session_reach d'"

section \<open>The mode\<close>

definition mode_inv :: "daemon \<Rightarrow> bool" where
  "mode_inv d \<longleftrightarrow>
     (case dm_run d of
        None \<Rightarrow> st_mode (dm_state d) = VIEWING \<and> st_phase (dm_state d) = None \<and> st_task (dm_state d) = CNull
      | Some r \<Rightarrow> ar_phase r \<in> set PHASES \<and> st_phase (dm_state d) = Some (ar_phase r) \<and> st_task (dm_state d) = ar_task r
          \<and> st_mode (dm_state d) = (if ar_stopping r then SAVING else ar_phase r)
          \<and> (ar_stopping r \<longrightarrow> ar_proc r \<in> set (dm_stops d))
          \<and> (dm_pending d \<noteq> None \<longrightarrow> ar_stopping r))
     \<and> (dm_pending d = None \<longleftrightarrow> st_pending (dm_state d) = None)
     \<and> (\<forall>p. dm_pending d = Some p \<longrightarrow> validate_start (pn_cmd p) = None)"

lemma mode_inv_say [simp]: "mode_inv (say m d) = mode_inv d"
  by (simp add: mode_inv_def say_def split: option.splits)

lemma say_simps [simp]: "dm_run (say m d) = dm_run d" "dm_pending (say m d) = dm_pending d" "dm_qs (say m d) = dm_qs d"
    "dm_os (say m d) = dm_os d" "dm_arms (say m d) = dm_arms d" "st_arms_down (dm_state (say m d)) = st_arms_down (dm_state d)"
    "dm_store (say m d) = dm_store d" "dm_cfg (say m d) = dm_cfg d" "dm_stops (say m d) = dm_stops d"
    "dm_cameras (say m d) = dm_cameras d"
  by (simp_all add: say_def)

lemma pending_simps [simp]:
    "dm_run (set_pending c t d) = dm_run d" "dm_qs (set_pending c t d) = dm_qs d" "dm_os (set_pending c t d) = dm_os d"
    "dm_arms (set_pending c t d) = dm_arms d" "st_arms_down (dm_state (set_pending c t d)) = st_arms_down (dm_state d)"
    "dm_run (clear_pending d) = dm_run d" "dm_qs (clear_pending d) = dm_qs d" "dm_os (clear_pending d) = dm_os d"
    "dm_arms (clear_pending d) = dm_arms d" "st_arms_down (dm_state (clear_pending d)) = st_arms_down (dm_state d)"
    "dm_pending (clear_pending d) = None" "dm_store (clear_pending d) = dm_store d" "dm_cfg (clear_pending d) = dm_cfg d"
    "dm_store (set_pending c t d) = dm_store d"
    "dm_cfg (set_pending c t d) = dm_cfg d"
  by (simp_all add: set_pending_def clear_pending_def)

lemma mode_inv_clear: "mode_inv d \<Longrightarrow> mode_inv (clear_pending d)"
  by (auto simp: mode_inv_def clear_pending_def split: option.splits)

lemma handle_stop_run:
  "dm_run (handle_stop d) = map_option (\<lambda>r. r\<lparr>ar_stopping := True\<rparr>) (dm_run d)" "dm_pending (handle_stop d) = None"
  by (auto simp: handle_stop_def Let_def clear_pending_def split: option.splits)

lemma handle_stop_simps [simp]:
    "dm_qs (handle_stop d) = dm_qs d" "dm_os (handle_stop d) = dm_os d" "dm_arms (handle_stop d) = dm_arms d"
    "st_arms_down (dm_state (handle_stop d)) = st_arms_down (dm_state d)" "dm_store (handle_stop d) = dm_store d"
    "dm_cfg (handle_stop d) = dm_cfg d"
  by (auto simp: handle_stop_def Let_def split: option.splits)

lemma mode_inv_stop: "mode_inv d \<Longrightarrow> mode_inv (handle_stop d)"
  by (auto simp: mode_inv_def handle_stop_def Let_def clear_pending_def say_def split: option.splits if_splits)

lemma mode_inv_set_pending:
  "mode_inv d \<Longrightarrow> (\<forall>r. dm_run d = Some r \<longrightarrow> ar_stopping r) \<Longrightarrow> validate_start c = None \<Longrightarrow> mode_inv (set_pending c t d)"
  by (auto simp: mode_inv_def set_pending_def split: option.splits)

lemma plan_run_phase: "plan_run w d c phase = Inr pl \<Longrightarrow> sp_phase pl = phase"
  by (auto simp: plan_run_def Let_def split: sum.splits prod.splits option.splits if_splits)

lemma validate_start_phase: "validate_start c = None \<Longrightarrow> phase_of c \<in> set PHASES"
  by (auto simp: validate_start_def phase_of_def split: if_splits)

lemma mode_inv_launch: "mode_inv d \<Longrightarrow> sp_phase pl \<in> set PHASES \<Longrightarrow> mode_inv (launch_run w pl d)"
  by (auto simp: mode_inv_def launch_run_def Let_def os_spawn_def clear_pending_def)

lemma mode_inv_start:
  assumes "mode_inv d" shows "mode_inv (handle_start w c d)"
proof (cases "validate_start c")
  case None
  have "mode_inv (launch_run w pl d)" if "plan_run w d c (phase_of c) = Inr pl" for pl
    using mode_inv_launch[OF assms] plan_run_phase[OF that] validate_start_phase[OF None] by simp
  then show ?thesis using assms None mode_inv_set_pending[OF assms _ None] by (auto simp: handle_start_def split: sum.splits)
qed (simp add: handle_start_def assms)

lemma mode_inv_switch: "mode_inv d \<Longrightarrow> mode_inv (handle_switch w c d)"
proof (cases "validate_start c")
  case None
  assume inv: "mode_inv d"
  have "mode_inv (set_pending c None (handle_stop d))"
    by (intro mode_inv_set_pending mode_inv_stop inv None) (auto simp: handle_stop_run)
  then show ?thesis using inv None mode_inv_start[OF inv] mode_inv_set_pending[OF inv _ None]
    by (auto simp: handle_switch_def)
qed (simp add: handle_switch_def)

lemma mode_inv_tend_pending:
  assumes inv: "mode_inv d" and run: "tend_pending w d = (b, d')"
  shows "mode_inv d'"
proof (cases "dm_pending d")
  case (Some p)
  let ?d1 = "\<lambda>t. d\<lparr>dm_pending := Some (p\<lparr>pn_deadline := Some t\<rparr>)\<rparr>"
  have i1: "mode_inv (?d1 t)" for t using inv Some by (auto simp: mode_inv_def split: option.splits)
  show ?thesis
    using run Some inv i1 mode_inv_clear[OF i1] mode_inv_start[OF mode_inv_clear[OF i1]]
    by (auto simp: tend_pending_def Let_def split: if_splits option.splits)
qed (use assms in \<open>auto simp: tend_pending_def\<close>)

lemma mode_inv_reap: "mode_inv d \<Longrightarrow> reap_consumer w d = (r, d') \<Longrightarrow> mode_inv d'"
  by (auto simp: reap_consumer_def mode_inv_def Let_def split: option.splits if_splits sum.splits prod.splits)

lemma mode_inv_dropout: "mode_inv d \<Longrightarrow> mode_inv (watch_arm_dropout w d)"
proof (cases "dm_run d")
  case (Some r)
  assume inv: "mode_inv d"
  have "mode_inv (d\<lparr>dm_run := Some (r\<lparr>ar_active := act\<rparr>)\<rparr>)" "mode_inv (d\<lparr>dm_run := Some (r\<lparr>ar_active := act, ar_armed := b\<rparr>)\<rparr>)" for act b
    using inv Some by (auto simp: mode_inv_def)
  then show ?thesis using inv Some mode_inv_stop[of "say (MDropout s) d1" for s d1]
    by (auto simp: watch_arm_dropout_def split: prod.splits option.splits)
qed (simp add: watch_arm_dropout_def)

text \<open>The other calls leave what the mode invariant is about alone, or stop the run.\<close>

definition mode_view :: "daemon \<Rightarrow> active_run option \<times> pending_start option \<times> string \<times> string option \<times> cval \<times> (cval \<times> cval \<times> cval) option" where
  "mode_view d = (dm_run d, dm_pending d, st_mode (dm_state d), st_phase (dm_state d), st_task (dm_state d), st_pending (dm_state d))"

definition mode_kept :: "daemon \<Rightarrow> daemon \<Rightarrow> bool" where
  "mode_kept d d' \<longleftrightarrow> mode_view d' = mode_view d \<and> set (dm_stops d) \<subseteq> set (dm_stops d')"

lemma mode_kept_inv: "mode_kept d d' \<Longrightarrow> mode_inv d \<Longrightarrow> mode_inv d'"
  by (auto simp: mode_kept_def mode_view_def mode_inv_def split: option.splits)

lemma mode_kept_refl [simp]: "mode_kept d d"
  by (simp add: mode_kept_def)

lemma mode_kept_trans: "mode_kept d d1 \<Longrightarrow> mode_kept d1 d2 \<Longrightarrow> mode_kept d d2"
  by (auto simp: mode_kept_def)

lemma mode_kept_simps [simp]:
    "mode_kept d (d\<lparr>dm_qs := a\<rparr>)" "mode_kept d (d\<lparr>dm_os := b\<rparr>)" "mode_kept d (d\<lparr>dm_arms := us\<rparr>)" "mode_kept d (d\<lparr>dm_cameras := cs\<rparr>)"
    "mode_kept d (d\<lparr>dm_store := st\<rparr>)" "mode_kept d (d\<lparr>dm_factr := f\<rparr>)" "mode_kept d (say m d)"
    "mode_kept d (drain_session_q side d)" "mode_kept d (sweep_node_streams ns d)" "mode_kept d (kill_unit p d)"
    "mode_kept d (stop_live p d)" "mode_kept d (put_servers l d)" "mode_kept d (d\<lparr>dm_servers := sv, dm_os := b\<rparr>)"
    "mode_kept d (d\<lparr>dm_state := (dm_state d)\<lparr>st_arms_down := ns\<rparr>\<rparr>)" "mode_kept d (d\<lparr>dm_state := (dm_state d)\<lparr>st_cameras_down := ns\<rparr>\<rparr>)"
  by (auto simp: mode_kept_def mode_view_def say_def drain_session_q_def sweep_node_streams_def kill_unit_def stop_live_def
      put_servers_def split: option.splits)

lemma mode_kept_respawn:
    "respawn_arm now u d = (u', d') \<Longrightarrow> mode_kept d d'" "respawn_camera now cu d = (cu', d') \<Longrightarrow> mode_kept d d'"
  by (auto simp: respawn_arm_def respawn_camera_def os_spawn_def Let_def mode_kept_def mode_view_def sweep_node_streams_def)

lemma mode_inv_reap_arm: "mode_inv d \<Longrightarrow> reap_dead_arm u d = (u', d') \<Longrightarrow> mode_inv d'"
proof -
  assume inv: "mode_inv d" and run: "reap_dead_arm u d = (u', d')"
  define d1 where "d1 = drain_session_q (au_side u) (sweep_node_streams (au_streams u) d)"
  have "mode_kept d d1" unfolding d1_def by (rule mode_kept_trans[of _ "sweep_node_streams (au_streams u) d"]) simp_all
  then have "mode_inv d1" using inv mode_kept_inv by blast
  moreover have "d' = d1 \<or> d' = handle_stop (say (MArmDied (au_side u)) d1)"
    using run by (auto simp: reap_dead_arm_def d1_def[symmetric] Let_def split: option.splits if_splits)
  ultimately show "mode_inv d'" using mode_inv_stop by auto
qed

lemma mode_inv_tend_arm: "mode_inv d \<Longrightarrow> tend_arm w u d = (b, u', d') \<Longrightarrow> mode_inv d'"
  by (auto simp: tend_arm_def Let_def split: if_splits prod.splits
      intro: mode_inv_reap_arm mode_kept_inv[OF mode_kept_respawn(1)])

lemma mode_inv_tend_arm_units: "mode_inv d \<Longrightarrow> tend_arm_units w us d = (ns, us', d') \<Longrightarrow> mode_inv d'"
  by (induction us arbitrary: d ns us') (auto split: prod.splits dest: mode_inv_tend_arm)

lemma mode_inv_tend_arms: "mode_inv d \<Longrightarrow> tend_arms w d = (b, d') \<Longrightarrow> mode_inv d'"
proof -
  assume inv: "mode_inv d" and run: "tend_arms w d = (b, d')"
  obtain ns us d1 where u: "tend_arm_units w (dm_arms d) d = (ns, us, d1)" by (cases "tend_arm_units w (dm_arms d) d")
  have "mode_inv (d1\<lparr>dm_arms := us\<rparr>)" using mode_inv_tend_arm_units[OF inv u] mode_kept_inv mode_kept_simps(3) by blast
  moreover have "mode_kept (d1\<lparr>dm_arms := us\<rparr>) d'"
    using run u by (auto simp: tend_arms_def Let_def mode_kept_def mode_view_def split: if_splits)
  ultimately show "mode_inv d'" using mode_kept_inv by blast
qed

lemma mode_kept_tend_camera: "tend_camera w u d = (b, u', d') \<Longrightarrow> mode_kept d d'"
  by (auto simp: tend_camera_def Let_def split: if_splits prod.splits option.splits
      intro: mode_kept_respawn(2) mode_kept_trans[OF mode_kept_simps(10) mode_kept_respawn(2)])

lemma mode_kept_tend_camera_units: "tend_camera_units w us d = (ns, us', d') \<Longrightarrow> mode_kept d d'"
  by (induction us arbitrary: d ns us') (auto split: prod.splits dest!: mode_kept_tend_camera intro: mode_kept_trans)

lemma mode_inv_tend_cameras: "mode_inv d \<Longrightarrow> tend_cameras w d = (b, d') \<Longrightarrow> mode_inv d'"
proof -
  assume inv: "mode_inv d" and run: "tend_cameras w d = (b, d')"
  obtain ns us d1 where u: "tend_camera_units w (dm_cameras d) d = (ns, us, d1)" by (cases "tend_camera_units w (dm_cameras d) d")
  have "mode_kept d (d1\<lparr>dm_cameras := us\<rparr>)" using mode_kept_trans[OF mode_kept_tend_camera_units[OF u]] by simp
  moreover have "mode_kept (d1\<lparr>dm_cameras := us\<rparr>) d'"
    using run u by (auto simp: tend_cameras_def Let_def mode_kept_def mode_view_def split: if_splits)
  ultimately show "mode_inv d'" using inv mode_kept_inv mode_kept_trans by blast
qed

lemma mode_kept_tend_factr: "mode_kept d (tend_factr w d)"
  by (auto simp: tend_factr_def Let_def os_spawn_def mode_kept_def mode_view_def sweep_node_streams_def split: option.splits)

lemma mode_kept_servers: "tend_factr_servers w d = (r, d') \<Longrightarrow> mode_kept d d'"
  by (auto simp: tend_factr_servers_def Let_def mode_kept_def mode_view_def put_servers_def say_def split: option.splits sum.splits prod.splits if_splits)

lemma mode_kept_start_factr: "mode_kept d (handle_start_factr w d)" "mode_kept d (handle_stop_factr w d)"
    "mode_kept d (handle_force_feedback w e d)"
  by (auto simp: handle_start_factr_def handle_stop_factr_def handle_force_feedback_def mode_kept_def mode_view_def put_servers_def say_def
      split: option.splits prod.splits)

lemma mode_kept_reconnect: "mode_kept d (handle_reconnect_arm w c d)" "mode_kept d (handle_respawn_camera w c d)"
proof -
  show "mode_kept d (handle_reconnect_arm w c d)"
    by (auto simp: handle_reconnect_arm_def Let_def respawn_arm_def os_spawn_def split: option.splits)
      (auto simp: mode_kept_def mode_view_def say_def drain_session_q_def sweep_node_streams_def kill_unit_def stop_live_def split: option.splits)
  show "mode_kept d (handle_respawn_camera w c d)"
    by (auto simp: handle_respawn_camera_def Let_def respawn_camera_def os_spawn_def split: option.splits)
      (auto simp: mode_kept_def mode_view_def say_def sweep_node_streams_def kill_unit_def stop_live_def split: option.splits)
qed

lemma mode_inv_grav: "mode_inv d \<Longrightarrow> mode_inv (handle_grav_comp w e d)"
  by (auto simp: handle_grav_comp_def Let_def intro: mode_inv_stop)

lemma handle_command_rule:
  assumes "handle_command w c d = (q, d')"
    and "P d" "P (handle_start w c d)" "P (handle_switch w c d)" "P (handle_stop d)"
    and "P (handle_reconnect_arm w c d)" "P (handle_respawn_camera w c d)" "P (handle_start_factr w d)"
    and "P (handle_stop_factr w d)" "\<And>e. P (handle_grav_comp w e d)" "\<And>e. P (handle_force_feedback w e d)"
    and "P (say MUnknownCmd d)"
  shows "P d'"
proof -
  have "P (snd (handle_command w c d))"
    unfolding handle_command_def Let_def by (simp only: assms(2-) if_distrib[of snd] if_distrib[of P] snd_conv if_cancel)
  then show ?thesis by (simp add: assms(1))
qed

lemma mode_inv_command:
  assumes inv: "mode_inv d" and run: "handle_command w c d = (q, d')"
  shows "mode_inv d'"
  by (rule handle_command_rule[OF run, where P = mode_inv])
    (simp_all add: inv mode_inv_start mode_inv_switch mode_inv_stop mode_inv_grav mode_kept_inv[OF mode_kept_reconnect(1)]
      mode_kept_inv[OF mode_kept_reconnect(2)] mode_kept_inv[OF mode_kept_start_factr(1)] mode_kept_inv[OF mode_kept_start_factr(2)]
      mode_kept_inv[OF mode_kept_start_factr(3)])

lemma mode_inv_boot: "mode_inv (start_hardware now arms cams factr (fresh_daemon cfg sides servers o1 w))"
  by (auto simp: start_hardware_def fresh_daemon_def mode_inv_def os_spawn_def split: prod.splits option.splits)

lemma mode_kept_auto_start: "mode_kept d (auto_start io now d)"
  by (auto simp: auto_start_def mode_kept_def mode_view_def put_servers_def split: option.splits prod.splits)

lemma session_reach_mode: "session_reach d \<Longrightarrow> mode_inv d"
proof (induction rule: session_reach.induct)
  case (autostart d io now)
  then show ?case using mode_kept_inv[OF mode_kept_auto_start] by blast
next
  case (env d d')
  then show ?case by (auto elim!: env_step.cases simp: mode_inv_def split: option.splits)
next
  case (servers d w r d')
  then show ?case using mode_kept_inv[OF mode_kept_servers] by blast
next
  case (factr d w)
  then show ?case using mode_kept_inv[OF mode_kept_tend_factr] by blast
qed (blast intro: mode_inv_boot mode_inv_command mode_inv_reap mode_inv_tend_pending mode_inv_dropout mode_inv_tend_cameras mode_inv_tend_arms)+

section \<open>Respawned arms\<close>

definition idle_q :: "daemon \<Rightarrow> string \<Rightarrow> bool" where
  "idle_q d side \<longleftrightarrow> dget (dm_qs d) side = None \<or> dget (dm_qs d) side = Some []"

text \<open>A dead arm that was cleaned up has nothing waiting in its session queue.\<close>

definition arm_ok :: "daemon \<Rightarrow> arm_unit \<Rightarrow> bool" where
  "arm_ok d u \<longleftrightarrow> au_proc u < os_next (dm_os d) \<and> (au_reaped u \<longrightarrow> \<not> os_alive (dm_os d) (au_proc u) \<and> idle_q d (au_side u))"

definition procs_ok :: "daemon \<Rightarrow> bool" where
  "procs_ok d \<longleftrightarrow> (\<forall>p \<in> set (os_live (dm_os d)). p < os_next (dm_os d))"

definition arm_inv :: "daemon \<Rightarrow> bool" where
  "arm_inv d \<longleftrightarrow> procs_ok d \<and> distinct (map au_side (dm_arms d)) \<and> distinct (map au_name (dm_arms d))
     \<and> (\<forall>u \<in> set (dm_arms d). arm_ok d u \<and> (au_reaped u \<longrightarrow> au_name u \<in> set (st_arms_down (dm_state d))))"

text \<open>What a call that starts processes, and may drain queues, keeps of a unit.\<close>

definition later :: "daemon \<Rightarrow> daemon \<Rightarrow> bool" where
  "later d d' \<longleftrightarrow> os_next (dm_os d) \<le> os_next (dm_os d') \<and> (\<forall>p < os_next (dm_os d). os_alive (dm_os d') p \<longrightarrow> os_alive (dm_os d) p)
     \<and> (\<forall>s. idle_q d s \<longrightarrow> idle_q d' s) \<and> (procs_ok d \<longrightarrow> procs_ok d')"

lemma later_refl [simp]: "later d d"
  by (simp add: later_def)

lemma later_trans: "later d d1 \<Longrightarrow> later d1 d2 \<Longrightarrow> later d d2"
  by (fastforce simp: later_def)

lemma arm_ok_later: "arm_ok d u \<Longrightarrow> later d d' \<Longrightarrow> arm_ok d' u"
  by (auto simp: arm_ok_def later_def)

lemma later_same: "dm_qs d' = dm_qs d \<Longrightarrow> dm_os d' = dm_os d \<Longrightarrow> later d d'"
  by (simp add: later_def idle_q_def procs_ok_def)

lemma later_spawn: "later d (d\<lparr>dm_os := snd (os_spawn (dm_os d))\<rparr>)"
  by (auto simp: later_def idle_q_def procs_ok_def os_spawn_def os_alive_def less_Suc_eq)

lemma later_drain: "later d (drain_session_q side d)"
  by (auto simp: later_def idle_q_def procs_ok_def drain_session_q_def update_conv' split: option.splits)

lemma later_die: "later d (d\<lparr>dm_os := os_die ps (dm_os d)\<rparr>)"
  by (auto simp: later_def idle_q_def procs_ok_def os_alive_def)

lemma idle_drained: "idle_q (drain_session_q side d) side"
  by (auto simp: idle_q_def drain_session_q_def update_conv' split: option.splits)

text \<open>One arm in one beat.\<close>

definition arm_beat :: "obs \<Rightarrow> daemon \<Rightarrow> daemon \<Rightarrow> arm_unit \<Rightarrow> arm_unit \<Rightarrow> bool" where
  "arm_beat w d d' u u' \<longleftrightarrow> au_name u' = au_name u \<and> au_side u' = au_side u \<and> arm_ok d' u'
     \<and> (au_proc u' \<noteq> au_proc u \<longrightarrow> \<not> os_alive (dm_os d) (au_proc u) \<and> idle_q d' (au_side u) \<and> dm_run d' = None
          \<and> \<not> au_reaped u' \<and> ARM_RESPAWN_S \<le> ob_now w - au_spawned u)"

definition beat_frame :: "daemon \<Rightarrow> daemon \<Rightarrow> bool" where
  "beat_frame d d' \<longleftrightarrow> later d d' \<and> dm_arms d' = dm_arms d \<and> st_arms_down (dm_state d') = st_arms_down (dm_state d)
     \<and> (\<forall>p. os_alive (dm_os d) p \<longrightarrow> os_alive (dm_os d') p) \<and> (dm_run d = None \<longrightarrow> dm_run d' = None)"

lemma beat_frame_refl [simp]: "beat_frame d d"
  by (simp add: beat_frame_def)

lemma beat_frame_trans: "beat_frame d d1 \<Longrightarrow> beat_frame d1 d2 \<Longrightarrow> beat_frame d d2"
  by (auto simp: beat_frame_def intro: later_trans)

lemma reap_dead_arm_step:
  assumes "reap_dead_arm u d = (u', d')"
  shows "beat_frame d d' \<and> idle_q d' (au_side u) \<and> dm_os d' = dm_os d \<and> u' = u\<lparr>au_reaped := True\<rparr>"
proof -
  define d1 where "d1 = drain_session_q (au_side u) (sweep_node_streams (au_streams u) d)"
  have "later d (sweep_node_streams (au_streams u) d)" by (rule later_same) (simp_all add: sweep_node_streams_def)
  then have l1: "later d d1" unfolding d1_def using later_drain later_trans by blast
  have i1: "idle_q d1 (au_side u)" unfolding d1_def by (rule idle_drained)
  have d1: "dm_os d1 = dm_os d" "dm_arms d1 = dm_arms d" "dm_run d1 = dm_run d" "st_arms_down (dm_state d1) = st_arms_down (dm_state d)"
    unfolding d1_def by (auto simp: sweep_node_streams_def drain_session_q_def split: option.splits)
  have st: "u' = u\<lparr>au_reaped := True\<rparr>" "d' = d1 \<or> d' = handle_stop (say (MArmDied (au_side u)) d1)"
    using assms by (auto simp: reap_dead_arm_def d1_def[symmetric] Let_def split: option.splits if_splits)
  have "later d1 d'" using st(2) by (auto intro: later_same)
  then have "later d d'" using l1 later_trans by blast
  then show ?thesis using st d1 i1 by (auto simp: beat_frame_def idle_q_def handle_stop_run)
qed

lemma respawn_arm_step:
  assumes "respawn_arm now u d = (u', d')"
  shows "beat_frame d d' \<and> u' = u\<lparr>au_proc := os_next (dm_os d), au_spawned := now, au_reaped := False\<rparr>
    \<and> os_next (dm_os d') = Suc (os_next (dm_os d)) \<and> dm_qs d' = dm_qs d \<and> dm_run d' = dm_run d"
proof -
  have d': "d' = d\<lparr>dm_os := snd (os_spawn (dm_os d))\<rparr>" "u' = u\<lparr>au_proc := os_next (dm_os d), au_spawned := now, au_reaped := False\<rparr>"
    using assms by (auto simp: respawn_arm_def os_spawn_def)
  then show ?thesis using later_spawn[of d] by (auto simp: beat_frame_def os_spawn_def os_alive_def)
qed

lemma tend_arm_step:
  assumes ok: "arm_ok d u" and run: "tend_arm w u d = (down, u', d')"
  shows "beat_frame d d' \<and> arm_beat w d d' u u' \<and> (au_reaped u' \<longrightarrow> down)"
proof (cases "os_alive (dm_os d) (au_proc u)")
  case True
  have nr: "\<not> au_reaped u" using ok True by (simp add: arm_ok_def)
  have "d' = d" "au_proc u' = au_proc u" "au_side u' = au_side u" "au_name u' = au_name u" "\<not> au_reaped u'"
    using run True nr by (auto simp: tend_arm_def Let_def split: if_splits)
  then show ?thesis using ok by (simp add: arm_beat_def arm_ok_def)
next
  case dead: False
  obtain u1 d1 where r: "(if au_reaped u then (u, d) else reap_dead_arm (u\<lparr>au_announced := True\<rparr>) d) = (u1, d1)" by fastforce
  have b1: "beat_frame d d1" "idle_q d1 (au_side u)" "dm_os d1 = dm_os d" "au_reaped u1" "au_proc u1 = au_proc u"
      "au_side u1 = au_side u" "au_name u1 = au_name u" "au_spawned u1 = au_spawned u"
    using r ok reap_dead_arm_step[of "u\<lparr>au_announced := True\<rparr>" d u1 d1] by (auto simp: arm_ok_def split: if_splits)
  have ok1: "arm_ok d1 u1" using ok dead b1 by (simp add: arm_ok_def)
  show ?thesis
  proof (cases "dm_run d1 \<noteq> None \<or> ob_now w - au_spawned u1 < ARM_RESPAWN_S")
    case True
    then have "u' = u1" "d' = d1" "down" using run dead r by (auto simp: tend_arm_def split: if_splits)
    then show ?thesis using b1 ok1 by (simp add: arm_beat_def)
  next
    case False
    obtain u2 d2 where rs: "respawn_arm (ob_now w) u1 d1 = (u2, d2)" by fastforce
    have fin: "u' = u2" "d' = d2" "down" using run dead r rs False by (auto simp: tend_arm_def split: if_splits)
    note st = respawn_arm_step[OF rs]
    have "beat_frame d d2" using beat_frame_trans[OF b1(1)] st by blast
    moreover have "idle_q d2 (au_side u)" "dm_run d2 = None" using st b1(2) False by (auto simp: idle_q_def)
    ultimately show ?thesis using st b1 dead False fin by (auto simp: arm_beat_def arm_ok_def)
  qed
qed

lemma arm_beat_frame:
  assumes "arm_beat w d d1 u u'" "beat_frame d1 d2"
  shows "arm_beat w d d2 u u'"
proof -
  have "arm_ok d2 u'" using arm_ok_later assms by (auto simp: arm_beat_def beat_frame_def)
  then show ?thesis using assms unfolding arm_beat_def beat_frame_def later_def by blast
qed

lemma arm_beat_start:
  assumes "beat_frame d d1" "arm_beat w d1 d2 u u'"
  shows "arm_beat w d d2 u u'"
  using assms by (auto simp: arm_beat_def beat_frame_def)

lemma tend_arm_units_step:
  assumes "\<forall>u \<in> set us. arm_ok d u" "tend_arm_units w us d = (names, us', d')"
  shows "beat_frame d d' \<and> list_all2 (arm_beat w d d') us us' \<and> (\<forall>u' \<in> set us'. au_reaped u' \<longrightarrow> au_name u' \<in> set names)"
  using assms
proof (induction us arbitrary: d names us' d')
  case (Cons u us)
  obtain down u1 d1 where h: "tend_arm w u d = (down, u1, d1)" by (cases "tend_arm w u d")
  obtain ns us1 d2 where t: "tend_arm_units w us d1 = (ns, us1, d2)" by (cases "tend_arm_units w us d1")
  have res: "names = (if down then [au_name u] else []) @ ns" "us' = u1 # us1" "d' = d2" using Cons.prems(2) h t by auto
  have s1: "beat_frame d d1" "arm_beat w d d1 u u1" "au_reaped u1 \<longrightarrow> down" using tend_arm_step[OF _ h] Cons.prems(1) by auto
  have "\<forall>v \<in> set us. arm_ok d1 v" using Cons.prems(1) s1(1) arm_ok_later by (auto simp: beat_frame_def)
  from Cons.IH[OF this t] have ih: "beat_frame d1 d2" "list_all2 (arm_beat w d1 d2) us us1"
      "\<forall>u' \<in> set us1. au_reaped u' \<longrightarrow> au_name u' \<in> set ns" by auto
  have "list_all2 (arm_beat w d d2) us us1" using ih(2) arm_beat_start[OF s1(1)] by (auto elim!: list_all2_mono)
  moreover have "arm_beat w d d2 u u1" using arm_beat_frame[OF s1(2) ih(1)] .
  moreover have "au_name u1 = au_name u" using s1(2) by (simp add: arm_beat_def)
  ultimately show ?case using res beat_frame_trans[OF s1(1) ih(1)] s1(3) ih(3) by auto
qed simp

lemma tend_arms_step:
  assumes inv: "arm_inv d" and run: "tend_arms w d = (b, d')"
  shows "arm_inv d' \<and> list_all2 (arm_beat w d d') (dm_arms d) (dm_arms d')"
proof -
  obtain ns us d1 where u: "tend_arm_units w (dm_arms d) d = (ns, us, d1)" by (cases "tend_arm_units w (dm_arms d) d")
  have st: "beat_frame d d1" "list_all2 (arm_beat w d d1) (dm_arms d) us" "\<forall>u' \<in> set us. au_reaped u' \<longrightarrow> au_name u' \<in> set ns"
    using tend_arm_units_step[OF _ u] inv by (auto simp: arm_inv_def)
  have d': "dm_qs d' = dm_qs d1" "dm_os d' = dm_os d1" "dm_run d' = dm_run d1" "dm_arms d' = us" "set (st_arms_down (dm_state d')) = set ns"
    using run u by (auto simp: tend_arms_def Let_def split: if_splits) (metis set_sort)+
  have same: "arm_ok d' = arm_ok d1" "idle_q d' = idle_q d1" "procs_ok d' = procs_ok d1"
    using d' by (auto simp: arm_ok_def[abs_def] idle_q_def[abs_def] procs_ok_def)
  have beats: "list_all2 (arm_beat w d d') (dm_arms d) us" using st(2) d'(3) same by (auto simp: arm_beat_def elim!: list_all2_mono)
  have "map au_side us = map au_side (dm_arms d)" "map au_name us = map au_name (dm_arms d)"
    using beats by (auto simp: list_all2_conv_all_nth arm_beat_def intro!: nth_equalityI)
  moreover have "\<forall>u' \<in> set us. arm_ok d' u'" using beats by (auto simp: list_all2_conv_all_nth arm_beat_def in_set_conv_nth)
  moreover have "procs_ok d'" using st(1) inv same by (auto simp: beat_frame_def later_def arm_inv_def)
  ultimately show ?thesis using beats d' st(3) inv by (auto simp: arm_inv_def)
qed

text \<open>The other calls.\<close>

lemma arm_inv_kept:
  assumes "arm_inv d" "later d d'" "dm_arms d' = dm_arms d" "st_arms_down (dm_state d') = st_arms_down (dm_state d)"
  shows "arm_inv d'"
  using assms arm_ok_later[OF _ assms(2)] by (auto simp: arm_inv_def later_def)

definition os_later :: "os \<Rightarrow> os \<Rightarrow> bool" where
  "os_later o1 o2 \<longleftrightarrow> os_next o1 \<le> os_next o2 \<and> (\<forall>p < os_next o1. p \<in> set (os_live o2) \<longrightarrow> p \<in> set (os_live o1))
     \<and> ((\<forall>p \<in> set (os_live o1). p < os_next o1) \<longrightarrow> (\<forall>p \<in> set (os_live o2). p < os_next o2))"

lemma os_later_refl [simp]: "os_later o1 o1"
  by (simp add: os_later_def)

lemma os_later_trans: "os_later o1 o2 \<Longrightarrow> os_later o2 o3 \<Longrightarrow> os_later o1 o3"
  by (fastforce simp: os_later_def)

lemma os_later_spawn: "os_later o1 (snd (os_spawn o1))"
  by (auto simp: os_later_def os_spawn_def less_Suc_eq)

lemma os_later_die [simp]: "os_later o1 (os_die ps o1)"
  by (auto simp: os_later_def)

lemma os_later_signal [simp]: "os_later o1 (os_signal sg now ps o1)"
  by (auto simp: os_later_def)

lemma later_os: "os_later (dm_os d) (dm_os d') \<Longrightarrow> dm_qs d' = dm_qs d \<Longrightarrow> later d d'"
  by (auto simp: later_def os_later_def idle_q_def procs_ok_def os_alive_def)

lemma os_later_spawn_unit: "spawn_unit io now u o1 = Inr (u', o2) \<Longrightarrow> os_later o1 o2"
  using os_later_spawn[of o1] by (auto simp: spawn_unit_def os_spawn_def split: if_splits)

lemma os_later_spawn_units: "spawn_units io now us o1 = (r, us', o2) \<Longrightarrow> os_later o1 o2"
  by (induction us arbitrary: o1 r us') (auto split: sum.splits prod.splits dest: os_later_spawn_unit intro: os_later_trans)

lemma os_later_tend_unit: "tend_unit io now u o1 = Inr (u', o2) \<Longrightarrow> os_later o1 o2"
  by (auto simp: tend_unit_def dest: os_later_spawn_unit split: if_splits)

lemma os_later_tend_running: "tend_running io now us o1 = (r, us', o2) \<Longrightarrow> os_later o1 o2"
  by (induction us arbitrary: o1 r us') (auto split: sum.splits prod.splits dest: os_later_tend_unit intro: os_later_trans)

lemma os_later_tend: "tend io now (sv, o1) = (r, l) \<Longrightarrow> os_later o1 (snd l)"
  by (auto simp: tend_def spawn_all_def tend_stopping_def split: sup_state.splits option.splits prod.splits sum.splits if_splits
      dest: os_later_spawn_units os_later_tend_running)

lemma later_servers: "tend_factr_servers w d = (r, d') \<Longrightarrow> later d d' \<and> dm_arms d' = dm_arms d \<and> st_arms_down (dm_state d') = st_arms_down (dm_state d)"
  by (auto simp: tend_factr_servers_def Let_def put_servers_def split: option.splits sum.splits prod.splits if_splits
      dest!: os_later_tend intro!: later_os)

lemma later_auto_start:
  "later d (auto_start io now d) \<and> dm_arms (auto_start io now d) = dm_arms d \<and> st_arms_down (dm_state (auto_start io now d)) = st_arms_down (dm_state d)"
  by (auto simp: auto_start_def put_servers_def start_now_def spawn_all_def split: option.splits sum.splits prod.splits
      dest!: os_later_spawn_units intro!: later_os)

lemma later_factr_cmds:
  "later d (handle_start_factr w d) \<and> dm_arms (handle_start_factr w d) = dm_arms d
     \<and> st_arms_down (dm_state (handle_start_factr w d)) = st_arms_down (dm_state d)"
  "later d (handle_stop_factr w d) \<and> dm_arms (handle_stop_factr w d) = dm_arms d
     \<and> st_arms_down (dm_state (handle_stop_factr w d)) = st_arms_down (dm_state d)"
  by (auto simp: handle_start_factr_def handle_stop_factr_def put_servers_def request_start_def request_stop_def Let_def
      split: option.splits prod.splits if_splits sup_state.splits intro!: later_os)

lemma later_tend_factr: "later d (tend_factr w d)" "dm_arms (tend_factr w d) = dm_arms d"
    "st_arms_down (dm_state (tend_factr w d)) = st_arms_down (dm_state d)"
proof -
  have "os_later (dm_os d) (dm_os (tend_factr w d))" "dm_qs (tend_factr w d) = dm_qs d"
    using os_later_spawn[of "dm_os d"] by (auto simp: tend_factr_def Let_def sweep_node_streams_def os_spawn_def split: option.splits)
  then show "later d (tend_factr w d)" by (rule later_os)
qed (auto simp: tend_factr_def Let_def sweep_node_streams_def os_spawn_def split: option.splits)

definition cam_frame :: "daemon \<Rightarrow> daemon \<Rightarrow> bool" where
  "cam_frame d d' \<longleftrightarrow> os_later (dm_os d) (dm_os d') \<and> dm_qs d' = dm_qs d \<and> dm_arms d' = dm_arms d
     \<and> st_arms_down (dm_state d') = st_arms_down (dm_state d)"

lemma cam_frame_inv: "arm_inv d \<Longrightarrow> cam_frame d d' \<Longrightarrow> arm_inv d'"
  using arm_inv_kept later_os by (auto simp: cam_frame_def)

lemma cam_frame_trans: "cam_frame d d1 \<Longrightarrow> cam_frame d1 d2 \<Longrightarrow> cam_frame d d2"
  by (auto simp: cam_frame_def intro: os_later_trans)

lemma cam_frame_respawn: "respawn_camera now u d = (u', d') \<Longrightarrow> cam_frame d d'"
  using os_later_spawn[of "dm_os d"] by (auto simp: respawn_camera_def cam_frame_def Let_def sweep_node_streams_def os_spawn_def)

lemma cam_frame_kill [simp]: "cam_frame d (kill_unit p d)" "cam_frame d (stop_live p d)" "cam_frame d d"
  by (simp_all add: cam_frame_def kill_unit_def stop_live_def)

lemma cam_frame_tend: "tend_camera w u d = (b, u', d') \<Longrightarrow> cam_frame d d'"
  by (auto simp: tend_camera_def Let_def split: if_splits prod.splits option.splits
      intro: cam_frame_respawn cam_frame_trans[OF cam_frame_kill(1) cam_frame_respawn])

lemma cam_frame_units: "tend_camera_units w us d = (ns, us', d') \<Longrightarrow> cam_frame d d'"
  by (induction us arbitrary: d ns us') (auto split: prod.splits dest!: cam_frame_tend intro: cam_frame_trans)

lemma arm_inv_tend_cameras: "arm_inv d \<Longrightarrow> tend_cameras w d = (b, d') \<Longrightarrow> arm_inv d'"
proof -
  assume inv: "arm_inv d" and run: "tend_cameras w d = (b, d')"
  obtain ns us d1 where u: "tend_camera_units w (dm_cameras d) d = (ns, us, d1)" by (cases "tend_camera_units w (dm_cameras d) d")
  have "cam_frame d1 d'" using run u by (auto simp: tend_cameras_def Let_def cam_frame_def split: if_splits)
  then show "arm_inv d'" using cam_frame_inv[OF inv] cam_frame_trans[OF cam_frame_units[OF u]] by blast
qed

lemma arm_inv_same: "arm_inv d \<Longrightarrow> dm_qs d' = dm_qs d \<Longrightarrow> dm_os d' = dm_os d \<Longrightarrow> dm_arms d' = dm_arms d
    \<Longrightarrow> st_arms_down (dm_state d') = st_arms_down (dm_state d) \<Longrightarrow> arm_inv d'"
  by (rule arm_inv_kept) (auto intro: later_same)

text \<open>A start hands nothing to an arm that is down.\<close>

lemma plan_run_up: "plan_run w d c phase = Inr pl \<Longrightarrow> set (sp_sides pl) \<inter> set (down_sides d) = {}"
  by (auto simp: plan_run_def Let_def filter_empty_conv split: sum.splits prod.splits option.splits if_splits)

lemma put_enter_other: "s \<notin> set sides \<Longrightarrow> dget (fold (put_enter m) sides qs) s = dget qs s"
  by (induction sides arbitrary: qs) (auto simp: put_enter_def update_conv' split: option.splits)

lemma arm_inv_launch:
  assumes inv: "arm_inv d" and up: "set (sp_sides pl) \<inter> set (down_sides d) = {}"
  shows "arm_inv (launch_run w pl d)"
proof -
  let ?d = "launch_run w pl d"
  have d': "dm_os ?d = snd (os_spawn (dm_os d))" "dm_arms ?d = dm_arms d" "st_arms_down (dm_state ?d) = st_arms_down (dm_state d)"
      "dm_qs ?d = fold (put_enter \<lparr>ec_coeffs = sp_coeffs pl, ec_control = sp_control pl, ec_phase = sp_phase pl\<rparr>) (sp_sides pl) (dm_qs d)"
    by (simp_all add: launch_run_def Let_def os_spawn_def)
  have "arm_ok ?d u" if u: "u \<in> set (dm_arms d)" for u
  proof -
    have ok: "arm_ok d u" "au_reaped u \<Longrightarrow> au_name u \<in> set (st_arms_down (dm_state d))" using inv u by (auto simp: arm_inv_def)
    have "au_reaped u \<Longrightarrow> au_side u \<notin> set (sp_sides pl)" using ok(2) u up by (auto simp: down_sides_def)
    then have "au_reaped u \<Longrightarrow> idle_q ?d (au_side u)" using ok(1) by (simp add: idle_q_def d' put_enter_other arm_ok_def)
    then show ?thesis using ok(1) d'(1) by (auto simp: arm_ok_def os_spawn_def os_alive_def)
  qed
  moreover have "procs_ok ?d" using inv d'(1) by (auto simp: arm_inv_def procs_ok_def os_spawn_def less_Suc_eq)
  ultimately show ?thesis using inv d' by (auto simp: arm_inv_def)
qed

lemma arm_inv_start: "arm_inv d \<Longrightarrow> arm_inv (handle_start w c d)"
proof -
  assume inv: "arm_inv d"
  have "arm_inv (say m d)" "arm_inv (say m (set_pending c t d))" for m t using arm_inv_same[OF inv] by simp_all
  then show ?thesis using inv arm_inv_launch[OF inv plan_run_up] by (auto simp: handle_start_def split: option.splits sum.splits)
qed

lemma arm_inv_clear: "arm_inv d \<Longrightarrow> arm_inv (clear_pending d)"
  by (rule arm_inv_same) simp_all

lemma arm_inv_switch: "arm_inv d \<Longrightarrow> arm_inv (handle_switch w c d)"
  using arm_inv_start arm_inv_same[of d] by (auto simp: handle_switch_def split: option.splits)

lemma arm_inv_tend_pending: "arm_inv d \<Longrightarrow> tend_pending w d = (b, d') \<Longrightarrow> arm_inv d'"
proof -
  assume inv: "arm_inv d" and run: "tend_pending w d = (b, d')"
  have i1: "arm_inv (d\<lparr>dm_pending := p\<rparr>)" for p using arm_inv_same[OF inv] by simp
  show "arm_inv d'"
    using run inv i1 arm_inv_same[OF inv] arm_inv_start[OF arm_inv_clear[OF i1]]
    by (auto simp: tend_pending_def Let_def split: if_splits option.splits)
qed

lemma arm_inv_reconnect:
  assumes inv: "arm_inv d"
  shows "arm_inv (handle_reconnect_arm w c d)"
proof (cases "find_unit (\<lambda>u. cget c ''side'' = CStr (au_side u)) (dm_arms d)")
  case (Some q)
  obtain as u bs where q: "q = (as, u, bs)" by (cases q)
  have find: "find_unit P us = Some (as, u, bs) \<Longrightarrow> us = as @ u # bs" for P and us :: "arm_unit list" and as u bs
    by (induction us arbitrary: as) (auto split: if_splits)
  have arms: "dm_arms d = as @ u # bs" using find Some q by blast
  define d1 where "d1 = drain_session_q (au_side u) (sweep_node_streams (au_streams u) (stop_live (au_proc u) d))"
  obtain u' d2 where rs: "respawn_arm (ob_now w) u d1 = (u', d2)" by fastforce
  note st = respawn_arm_step[OF rs]
  have "later d (stop_live (au_proc u) d)" by (rule later_os) (simp_all add: stop_live_def kill_unit_def)
  moreover have "later (stop_live (au_proc u) d) (sweep_node_streams (au_streams u) (stop_live (au_proc u) d))"
    by (rule later_same) (simp_all add: sweep_node_streams_def)
  ultimately have "later d d1" unfolding d1_def using later_drain later_trans by blast
  then have l2: "later d d2" using st later_trans by (auto simp: beat_frame_def)
  have down: "st_arms_down (dm_state d2) = st_arms_down (dm_state d)"
    using st by (auto simp: beat_frame_def d1_def drain_session_q_def sweep_node_streams_def stop_live_def kill_unit_def split: option.splits)
  let ?d3 = "say MReconnecting (d2\<lparr>dm_arms := as @ u' # bs\<rparr>)"
  have ok3: "arm_ok ?d3 = arm_ok d2" "procs_ok ?d3 = procs_ok d2" by (auto simp: arm_ok_def[abs_def] idle_q_def procs_ok_def)
  have "\<forall>v \<in> set (as @ bs). arm_ok d2 v" using inv arm_ok_later[OF _ l2] by (auto simp: arm_inv_def arms)
  moreover have "arm_ok d2 u'" using st by (simp add: arm_ok_def)
  moreover have "procs_ok d2" using l2 inv by (auto simp: later_def arm_inv_def)
  ultimately have "arm_inv ?d3" using inv st down ok3 by (auto simp: arm_inv_def arms)
  moreover have "arm_inv (say m d)" for m using arm_inv_same[OF inv] by simp
  ultimately show ?thesis using Some q rs by (auto simp: handle_reconnect_arm_def d1_def[symmetric] Let_def)
qed (use arm_inv_same[OF inv] in \<open>auto simp: handle_reconnect_arm_def\<close>)

lemma cam_frame_handle: "cam_frame d (handle_respawn_camera w c d)"
proof -
  have "cam_frame d (d2\<lparr>dm_cameras := cs\<rparr>)" if "respawn_camera now u (stop_live p d) = (u', d2)" for now u p u' d2 cs
    using cam_frame_trans[OF cam_frame_kill(2) cam_frame_respawn[OF that]] by (simp add: cam_frame_def)
  then show ?thesis by (auto simp: handle_respawn_camera_def cam_frame_def split: option.splits prod.splits)
qed

lemma arm_inv_command:
  assumes inv: "arm_inv d" and run: "handle_command w c d = (q, d')"
  shows "arm_inv d'"
proof (rule handle_command_rule[OF run, where P = arm_inv])
  show "arm_inv (handle_respawn_camera w c d)" using cam_frame_inv[OF inv cam_frame_handle] .
  show "arm_inv (handle_start_factr w d)" "arm_inv (handle_stop_factr w d)" using arm_inv_kept[OF inv] later_factr_cmds by blast+
  show "arm_inv (handle_grav_comp w e d)" for e using arm_inv_same[OF inv] by (simp add: handle_grav_comp_def Let_def)
  show "arm_inv (handle_force_feedback w e d)" for e using arm_inv_same[OF inv] by (simp add: handle_force_feedback_def)
qed (use inv arm_inv_start arm_inv_switch arm_inv_reconnect arm_inv_same[OF inv] in simp_all)

lemma arm_inv_env: "arm_inv d \<Longrightarrow> env_step d d' \<Longrightarrow> arm_inv d'"
proof (erule env_step.cases)
  fix d1 qs ps w
  assume inv: "arm_inv d" and e: "d = d1" "d' = d1\<lparr>dm_qs := qs, dm_os := os_die ps (dm_os d1), dm_store := w\<rparr>" "consumed (dm_qs d1) qs"
  have "idle_q d' s" if "idle_q d s" for s
  proof (cases "dget (dm_qs d) s")
    case None
    then have "dget qs s = None" using e by (simp add: consumed_def map_of_eq_None_iff) (metis set_map)
    then show ?thesis using e by (simp add: idle_q_def)
  next
    case (Some q)
    then have "q = []" using that by (simp add: idle_q_def)
    then have "dget qs s = Some []" using e Some by (fastforce simp: consumed_def)
    then show ?thesis using e by (simp add: idle_q_def)
  qed
  then have "later d d'" using e by (auto simp: later_def procs_ok_def os_alive_def)
  then show "arm_inv d'" using arm_inv_kept[OF inv] e by simp
qed

lemma make_arm_units:
  assumes "make_units (make_arm_unit now) ns o1 = (us, o2)"
  shows "map au_name us = map hn_name ns \<and> map au_side us = map (\<lambda>n. case hn_side n of None \<Rightarrow> [] | Some s \<Rightarrow> s) ns
    \<and> (\<forall>u \<in> set us. \<not> au_reaped u \<and> au_proc u < os_next o2) \<and> os_later o1 o2"
  using assms
proof (induction ns arbitrary: o1 us)
  case (Cons n ns)
  obtain u o3 us1 where u: "make_arm_unit now n o1 = (u, o3)" "make_units (make_arm_unit now) ns o3 = (us1, o2)" "us = u # us1"
    using Cons.prems by (auto split: prod.splits)
  have "au_name u = hn_name n" "au_side u = (case hn_side n of None \<Rightarrow> [] | Some s \<Rightarrow> s)" "\<not> au_reaped u" "au_proc u < os_next o3" "os_later o1 o3"
    using u(1) os_later_spawn[of o1] by (auto simp: make_arm_unit_def os_spawn_def)
  moreover have "os_later o3 o2" "\<forall>v \<in> set us1. \<not> au_reaped v \<and> au_proc v < os_next o2" using Cons.IH[OF u(2)] by blast+
  moreover from this(1) have "os_next o3 \<le> os_next o2" by (simp add: os_later_def)
  moreover have "map au_name us1 = map hn_name ns" "map au_side us1 = map (\<lambda>n. case hn_side n of None \<Rightarrow> [] | Some s \<Rightarrow> s) ns"
    using Cons.IH[OF u(2)] by blast+
  ultimately show ?case unfolding u(3) using os_later_trans[of o1 o3 o2] by simp
qed simp

lemma make_camera_units: "make_units (make_camera_unit now) ns o1 = (us, o2) \<Longrightarrow> os_later o1 o2"
proof (induction ns arbitrary: o1 us)
  case (Cons n ns)
  obtain u o3 us1 where u: "make_camera_unit now n o1 = (u, o3)" "make_units (make_camera_unit now) ns o3 = (us1, o2)"
    using Cons.prems by (auto split: prod.splits)
  have "os_later o1 o3" using u(1) os_later_spawn[of o1] by (auto simp: make_camera_unit_def os_spawn_def)
  then show ?case using Cons.IH[OF u(2)] os_later_trans by blast
qed simp

lemma arm_inv_boot:
  assumes d: "distinct (map hn_name arms)" "distinct (map (\<lambda>n. case hn_side n of None \<Rightarrow> [] | Some s \<Rightarrow> s) arms)"
    and o1: "\<forall>p \<in> set (os_live o1). p < os_next o1"
  shows "arm_inv (start_hardware now arms cams factr (fresh_daemon cfg sides servers o1 w))"
proof -
  obtain aus o2 where a: "make_units (make_arm_unit now) arms o1 = (aus, o2)" by fastforce
  obtain cus o3 where c: "make_units (make_camera_unit now) cams o2 = (cus, o3)" by fastforce
  let ?d = "start_hardware now arms cams factr (fresh_daemon cfg sides servers o1 w)"
  have d': "dm_arms ?d = aus" "dm_os ?d = o3 \<or> dm_os ?d = snd (os_spawn o3)"
    using a c by (auto simp: start_hardware_def fresh_daemon_def os_spawn_def split: option.splits)
  have l: "os_later o2 (dm_os ?d)" using d'(2) os_later_trans[OF make_camera_units[OF c]] os_later_spawn by auto
  note m = make_arm_units[OF a]
  have "os_later o1 (dm_os ?d)" using os_later_trans[OF _ l] m by blast
  then have "procs_ok ?d" using o1 by (simp add: procs_ok_def os_later_def)
  moreover have "arm_ok ?d u \<and> \<not> au_reaped u" if "u \<in> set aus" for u
  proof -
    have "au_proc u < os_next o2" "\<not> au_reaped u" using m that by blast+
    moreover have "os_next o2 \<le> os_next (dm_os ?d)" using l by (simp add: os_later_def)
    ultimately show ?thesis by (simp add: arm_ok_def)
  qed
  ultimately show ?thesis using m d d'(1) unfolding arm_inv_def by simp
qed

lemma session_reach_arms: "session_reach d \<Longrightarrow> arm_inv d"
proof (induction rule: session_reach.induct)
  case (autostart d io now)
  then show ?case using arm_inv_kept later_auto_start by blast
next
  case (reap d w r d')
  then show ?case using arm_inv_same[of d]
    by (auto simp: reap_consumer_def Let_def split: option.splits if_splits sum.splits prod.splits)
next
  case (dropout d w)
  then show ?case using arm_inv_same[of d]
    by (auto simp: watch_arm_dropout_def split: option.splits prod.splits)
next
  case (servers d w r d')
  then show ?case using arm_inv_kept later_servers by blast
next
  case (factr d w)
  then show ?case using arm_inv_kept[OF _ later_tend_factr] by blast
next
  case (arms d w b d')
  then show ?case using tend_arms_step by blast
qed (blast intro: arm_inv_boot arm_inv_env arm_inv_command arm_inv_tend_pending arm_inv_tend_cameras)+

section \<open>Properties of the session\<close>

text \<open>
  C9. The published state always tells what the daemon is doing. In every reachable state: without a run the session is
  VIEWING with no phase and no task; with one, the state shows the run's phase and task, and SAVING exactly when the run
  has been told to stop, in which case its stop event is set; a start is queued only while no run is active or the active one is
  being stopped, it is shown exactly when it is queued, and it is a well-formed command.
\<close>

theorem session_consistent:
  assumes "session_reach d"
  shows "(dm_run d = None \<longrightarrow> st_mode (dm_state d) = VIEWING \<and> st_phase (dm_state d) = None \<and> st_task (dm_state d) = CNull)
    \<and> (\<forall>r. dm_run d = Some r \<longrightarrow> ar_phase r \<in> set PHASES \<and> st_phase (dm_state d) = Some (ar_phase r) \<and> st_task (dm_state d) = ar_task r
         \<and> st_mode (dm_state d) = (if ar_stopping r then SAVING else ar_phase r)
         \<and> (ar_stopping r \<longrightarrow> ar_proc r \<in> set (dm_stops d)) \<and> (dm_pending d \<noteq> None \<longrightarrow> ar_stopping r))
    \<and> (dm_pending d = None \<longleftrightarrow> st_pending (dm_state d) = None)
    \<and> (\<forall>p. dm_pending d = Some p \<longrightarrow> validate_start (pn_cmd p) = None)"
  using session_reach_mode[OF assms] by (auto simp: mode_inv_def split: option.splits)

text \<open>
  C7. A respawned arm comes back idle. When a supervision beat of a reachable session gives an arm a new process, the
  old one was dead, twenty seconds have passed since it was spawned, no run is active, and the arm's session queue is
  empty: no control session that was queued for the dead arm can start on the new one.
\<close>

theorem respawned_arm_idle:
  assumes reach: "session_reach d" and run: "tend_arms w d = (b, d')"
    and i: "i < length (dm_arms d)" and new: "au_proc (dm_arms d' ! i) \<noteq> au_proc (dm_arms d ! i)"
  shows "\<not> os_alive (dm_os d) (au_proc (dm_arms d ! i)) \<and> ARM_RESPAWN_S \<le> ob_now w - au_spawned (dm_arms d ! i)
    \<and> dm_run d' = None \<and> au_side (dm_arms d' ! i) = au_side (dm_arms d ! i)
    \<and> (dget (dm_qs d') (au_side (dm_arms d ! i)) = None \<or> dget (dm_qs d') (au_side (dm_arms d ! i)) = Some [])"
proof -
  have "arm_beat w d d' (dm_arms d ! i) (dm_arms d' ! i)"
    using tend_arms_step[OF session_reach_arms[OF reach] run] i by (auto simp: list_all2_conv_all_nth)
  then show ?thesis using new by (auto simp: arm_beat_def idle_q_def)
qed

lemma put_enter_all: "dget (fold (put_enter m) sides qs) s = map_option (\<lambda>q. q @ replicate (count_list sides s) m) (dget qs s)"
proof (induction sides arbitrary: qs)
  case Nil
  then show ?case by (cases "dget qs s") simp_all
next
  case (Cons a sides)
  show ?case using Cons.IH[of "put_enter m a qs"]
    by (cases "dget qs a"; cases "dget qs s") (auto simp: put_enter_def update_conv' replicate_app_Cons_same)
qed

lemma inhibit_none: "command_sides d (inhibit rc) = []"
  by (auto simp: command_sides_def inhibit_def filter_empty_conv)


text \<open>Supervision beats of a queued start, until one of them reports a change.\<close>

fun tend_until :: "obs list \<Rightarrow> daemon \<Rightarrow> daemon option" where
  "tend_until [] d = None"
| "tend_until (w # ws) d = (case tend_pending w d of (True, d') \<Rightarrow> Some d' | (False, d') \<Rightarrow> tend_until ws d')"

lemma handle_start_pending: "arms_still_in_control w d = [] \<Longrightarrow> dm_pending d = None \<Longrightarrow> dm_pending (handle_start w c d) = None"
  by (auto simp: handle_start_def launch_run_def Let_def os_spawn_def split: option.splits sum.splits)

definition pending_deadline :: "obs \<Rightarrow> pending_start \<Rightarrow> real" where
  "pending_deadline w p = (case pn_deadline p of None \<Rightarrow> ob_now w + PENDING_WINDDOWN_S | Some t \<Rightarrow> t)"

lemma tend_pending_cases:
  assumes p: "dm_pending d = Some p" "dm_run d = None" and run: "tend_pending w d = (b, d')"
  shows "(b \<longrightarrow> dm_pending d' = None)
    \<and> (\<not> b \<longrightarrow> ob_now w < pending_deadline w p \<and> arms_still_in_control w d \<noteq> []
         \<and> d' = d\<lparr>dm_pending := Some (p\<lparr>pn_deadline := Some (pending_deadline w p)\<rparr>)\<rparr>)"
proof -
  have same: "arms_still_in_control w (d\<lparr>dm_pending := q\<rparr>) = arms_still_in_control w d"
    "arms_still_in_control w (clear_pending (d\<lparr>dm_pending := q\<rparr>)) = arms_still_in_control w d" for q
    by (simp_all add: arms_still_in_control_def)
  show ?thesis using run p same handle_start_pending
    by (auto simp: tend_pending_def Let_def pending_deadline_def split: if_splits)
qed

text \<open>
  C29. A queued start never waits forever. With no run left, the beats of the supervise loop either fire the queued start or
  abandon it, at the latest at the first beat that is twenty seconds after the first beat without a run (or
  at the deadline the start already had); the queue is empty then.
\<close>

theorem queued_start_resolves:
  assumes p: "dm_pending d = Some p" "dm_run d = None"
    and late: "\<exists>v \<in> set (w # ws). pending_deadline w p \<le> ob_now v"
  shows "\<exists>d'. tend_until (w # ws) d = Some d' \<and> dm_pending d' = None"
proof -
  have rest: "dm_pending d1 = Some q \<Longrightarrow> dm_run d1 = None \<Longrightarrow> pn_deadline q = Some t \<Longrightarrow> \<exists>v \<in> set vs. t \<le> ob_now v
      \<Longrightarrow> \<exists>d'. tend_until vs d1 = Some d' \<and> dm_pending d' = None" for vs d1 q t
  proof (induction vs arbitrary: d1 q)
    case (Cons v vs)
    obtain b d2 where run: "tend_pending v d1 = (b, d2)" by fastforce
    note c = tend_pending_cases[OF Cons.prems(1,2) run]
    show ?case
    proof (cases b)
      case False
      then have "ob_now v < t" "dm_pending d2 = Some (q\<lparr>pn_deadline := Some t\<rparr>)" "dm_run d2 = None"
        using c Cons.prems by (auto simp: pending_deadline_def)
      then show ?thesis using Cons.IH[of d2] Cons.prems(4) run False by auto
    qed (use c run in auto)
  qed simp
  obtain b d1 where run: "tend_pending w d = (b, d1)" by fastforce
  note c = tend_pending_cases[OF p run]
  show ?thesis
  proof (cases b)
    case False
    then have "\<exists>v \<in> set ws. pending_deadline w p \<le> ob_now v" using c late by auto
    then show ?thesis using rest[of d1 _ "pending_deadline w p" ws] c False p(2) run by simp
  qed (use c run in auto)
qed

text \<open>
  The end of a run returns the session to VIEWING with its channels swept. When the consumer is seen dead and the
  control directory holds manifests of the registry's making, reaping it records the classified outcome, goes back to
  VIEWING, unlinks every control segment a manifest lists and leaves no such manifest, so that no arm can attach a dead channel;
  arms, queues, cameras and processes are untouched.
\<close>

theorem run_end_sweeps_control:
  assumes run: "dm_run d = Some r" and dead: "\<not> os_alive (dm_os d) (ar_proc r)"
    and dir: "dget (rs_subs (dm_store d)) ''control'' = Some dir" "list_all sweepable dir"
  shows "\<exists>d' o1. reap_consumer w d = (Inr True, d') \<and> dm_run d' = None \<and> st_mode (dm_state d') = VIEWING
    \<and> st_outcome (dm_state d') = Some o1 \<and> lo_seq o1 = st_seq (dm_state d)
    \<and> lo_outcome o1 = classify_outcome (ar_phase r) (ob_exit w (ar_proc r)) (ar_stopping r)
    \<and> (\<forall>n. dget (rs_shm (dm_store d')) n = (if Some n \<in> listed ` set dir then None else dget (rs_shm (dm_store d)) n))
    \<and> (\<forall>pf \<in> set (sub_dir (dm_store d') ''control''). listed pf = None)
    \<and> dm_arms d' = dm_arms d \<and> dm_qs d' = dm_qs d \<and> dm_cameras d' = dm_cameras d \<and> dm_os d' = dm_os d"
proof -
  obtain k m kept where sw: "sweep dir 0 (rs_shm (dm_store d)) [] = Inr (k, m, kept)"
      "\<forall>n. dget m n = (if Some n \<in> listed ` set dir then None else dget (rs_shm (dm_store d)) n)"
      "kept = filter (\<lambda>pf. listed pf = None) dir"
    using sweep_ok[OF dir(2), of 0 "rs_shm (dm_store d)" "[]"] by auto
  let ?w = "set_sub ''control'' kept ((dm_store d)\<lparr>rs_shm := m\<rparr>)"
  have cl: "cleanup_sub ''control'' (dm_store d) = Inr (k, ?w)" using sw(1) dir(1) by (simp add: cleanup_sub_def)
  have "rs_shm ?w = m" "sub_dir ?w ''control'' = kept" by (simp_all add: set_sub_def sub_dir_def)
  then show ?thesis using run dead cl sw(2,3) by (auto simp: reap_consumer_def Let_def)
qed

lemma sweep_streams_entry:
  assumes "dir_ok (sub_dir w ''streams'')"
  shows "dir_ok (sub_dir (fold (sweep_stream run_id) ns w) ''streams'')
    \<and> entry_of (sub_dir (fold (sweep_stream run_id) ns w) ''streams'') k
        = (if sanitize k \<in> sanitize ` set ns then None else entry_of (sub_dir w ''streams'') k)"
  using assms
proof (induction ns arbitrary: w)
  case (Cons n ns)
  let ?w = "sweep_stream run_id n w"
  have "dir_ok (sub_dir ?w ''streams'')" using Cons.prems by (simp add: sweep_stream_def dir_ok_remove)
  then show ?case using Cons.IH[of ?w] by (auto simp: sweep_stream_def entry_of_remove)
qed simp

text \<open>
  A dead arm cannot wedge the session. When a dead arm node is cleaned up its declared streams go with it, the status
  stream among them: the last status it published, which may still say that it is in control, is no longer
  read, so the arm does not count as busy and does not hold back later starts. An arm node that died in a run that needs it
  also stops that run.
\<close>

theorem dead_arm_forgotten:
  assumes run: "reap_dead_arm u d = (u', d')" and ok: "dir_ok (sub_dir (dm_store d) ''streams'')"
    and declared: "au_side u @ ''/status'' \<in> set (au_streams u)"
  shows "arm_status (au_side u) (dm_store d') = Inr None
    \<and> (\<forall>w now_ns. obs_of w now_ns d' \<longrightarrow> au_side u \<notin> set (arms_still_in_control w d'))
    \<and> (\<forall>r. dm_run d = Some r \<and> (au_side u \<in> set (ar_sides r) \<or> ar_phase r \<noteq> SKILL) \<longrightarrow> (\<exists>r'. dm_run d' = Some r' \<and> ar_stopping r'))"
proof -
  define d1 where "d1 = drain_session_q (au_side u) (sweep_node_streams (au_streams u) d)"
  have st: "d' = (case dm_run d1 of None \<Rightarrow> d1 | Some r \<Rightarrow> if ar_stopping r then d1
      else if au_side u \<in> set (ar_sides r) \<or> ar_phase r \<noteq> SKILL then handle_stop (say (MArmDied (au_side u)) d1) else d1)"
    using run by (simp add: reap_dead_arm_def d1_def[symmetric] Let_def)
  have d1: "dm_run d1 = dm_run d" "dm_store d1 = fold (sweep_stream (sc_run_id (dm_cfg d))) (au_streams u) (dm_store d)"
    by (auto simp: d1_def drain_session_q_def sweep_node_streams_def split: option.splits)
  have store: "dm_store d' = fold (sweep_stream (sc_run_id (dm_cfg d))) (au_streams u) (dm_store d)"
    unfolding st d1(2)[symmetric] by (auto split: option.splits)
  note sw = sweep_streams_entry[OF ok, of "sc_run_id (dm_cfg d)" "au_streams u"]
  have "sanitize (au_side u @ ''/status'') \<in> sanitize ` set (au_streams u)" using declared by (rule imageI)
  then have "get ''streams'' (au_side u @ ''/status'') (dm_store d') = Inr None"
    using get_entry_of[of "dm_store d'" "''streams''"] sw[of "au_side u @ ''/status''"] unfolding store by simp
  then have none: "arm_status (au_side u) (dm_store d') = Inr None" by (simp add: arm_status_def stream_newest_def)
  have "au_side u \<notin> set (arms_still_in_control w d')" if "obs_of w now_ns d'" for w now_ns
  proof -
    have "ob_status w (au_side u) = None" using that none by (simp add: obs_of_def)
    then show ?thesis by (simp add: arms_still_in_control_def in_control_def)
  qed
  then show ?thesis using none st d1(1) by (auto simp: handle_stop_run)
qed

lemma dropout_scan_act: "dropout_scan w armed act sides = (x, act') \<Longrightarrow> set act \<subseteq> set act'"
  by (induction w armed act sides rule: dropout_scan.induct) (auto split: if_splits)

lemma dropout_scan_Some: "dropout_scan w armed act sides = (Some s, act') \<Longrightarrow> armed \<and> s \<in> set sides \<and> \<not> in_control w s"
  by (induction w armed act sides rule: dropout_scan.induct) (auto split: if_splits)

lemma dropout_scan_None:
  "dropout_scan w armed act sides = (None, act') \<Longrightarrow> set act' = set act \<union> {s \<in> set sides. in_control w s}
     \<and> (armed \<longrightarrow> (\<forall>s \<in> set sides. s \<in> set act \<longrightarrow> in_control w s))"
proof (induction w armed act sides rule: dropout_scan.induct)
  case (2 w armed act s ss)
  show ?case
  proof (cases "in_control w s")
    case True
    then have "dropout_scan w armed (List.insert s act) ss = (None, act')" using 2(3) by simp
    from 2(1)[OF True this] True show ?thesis by auto
  next
    case False
    then have "\<not> (armed \<and> s \<in> set act)" "dropout_scan w armed act ss = (None, act')" using 2(3) by (auto split: if_splits)
    with 2(2)[OF False] False show ?thesis by auto
  qed
qed simp

text \<open>
  C28. The dropout watchdog stops a run exactly when an arm it commands falls out of control. For a run that is not being
  stopped: until every commanded side has been seen in control the watchdog only records sides and stops nothing; from then
  on the run is told to stop if and only if some commanded side that was in control is not any more.
\<close>

theorem dropout_watchdog:
  assumes run: "dm_run d = Some r" "\<not> ar_stopping r" and inv: "ar_armed r \<longrightarrow> set (ar_sides r) \<subseteq> set (ar_active r)"
  shows "\<exists>r'. dm_run (watch_arm_dropout w d) = Some r'
    \<and> (ar_stopping r' \<longleftrightarrow> ar_armed r \<and> (\<exists>s \<in> set (ar_sides r). \<not> in_control w s))
    \<and> (\<not> ar_stopping r' \<and> ar_sides r \<noteq> [] \<longrightarrow> (ar_armed r' \<longleftrightarrow> (\<forall>s \<in> set (ar_sides r). s \<in> set (ar_active r) \<or> in_control w s)))
    \<and> (ar_armed r' \<longrightarrow> set (ar_sides r') \<subseteq> set (ar_active r'))"
proof (cases "ar_sides r = []")
  case True
  then show ?thesis using run by (simp add: watch_arm_dropout_def)
next
  case False
  obtain x act where sc: "dropout_scan w (ar_armed r) (ar_active r) (ar_sides r) = (x, act)" by fastforce
  show ?thesis
  proof (cases x)
    case None
    note n = dropout_scan_None[OF sc[unfolded None]]
    let ?r = "r\<lparr>ar_active := act, ar_armed := ar_armed r \<or> set (ar_sides r) \<subseteq> set act\<rparr>"
    have "dm_run (watch_arm_dropout w d) = Some ?r" using run False sc None by (simp add: watch_arm_dropout_def)
    moreover have "\<not> (ar_armed r \<and> (\<exists>s \<in> set (ar_sides r). \<not> in_control w s))" using n inv by blast
    moreover have "set (ar_sides r) \<subseteq> set act \<longleftrightarrow> (\<forall>s \<in> set (ar_sides r). s \<in> set (ar_active r) \<or> in_control w s)" using n by auto
    ultimately show ?thesis using run(2) inv by auto
  next
    case (Some s)
    have h: "ar_armed r" "s \<in> set (ar_sides r)" "\<not> in_control w s" using dropout_scan_Some[OF sc[unfolded Some]] by auto
    have "dm_run (watch_arm_dropout w d) = Some (r\<lparr>ar_active := act, ar_stopping := True\<rparr>)"
      using run False sc Some by (simp add: watch_arm_dropout_def handle_stop_run)
    then show ?thesis using h inv dropout_scan_act[OF sc] by auto
  qed
qed

text \<open>
  Taking gravity compensation off the leaders always stops a recording. Whichever of the servers answered, after
  a disable command on a real rig with leaders an active recording has been told to stop, so its followers cannot
  track the sagging leaders; any other run goes on.
\<close>

theorem grav_comp_off_halts:
  assumes "\<not> sc_sim (dm_cfg d)" "sc_servers (dm_cfg d) \<noteq> []" "dm_run d = Some r" "\<not> ar_stopping r"
  shows "\<exists>r'. dm_run (handle_grav_comp w False d) = Some r' \<and> (ar_stopping r' \<longleftrightarrow> ar_phase r = COLLECTION)
    \<and> (ar_phase r = COLLECTION \<longrightarrow> ar_proc r \<in> set (dm_stops (handle_grav_comp w False d)))
    \<and> dm_run (handle_grav_comp w True d) = dm_run d"
  using assms by (auto simp: handle_grav_comp_def collecting_def Let_def handle_stop_def clear_pending_def)

section \<open>Pacing of the respawns\<close>

definition arm_unit_beat :: "real \<Rightarrow> arm_unit \<Rightarrow> arm_unit \<Rightarrow> bool" where
  "arm_unit_beat now u u' \<longleftrightarrow> (\<exists>w d down d'. ob_now w = now \<and> tend_arm w u d = (down, u', d'))"

definition camera_unit_beat :: "real \<Rightarrow> camera_unit \<Rightarrow> camera_unit \<Rightarrow> bool" where
  "camera_unit_beat now u u' \<longleftrightarrow> (\<exists>w d down d'. ob_now w = now \<and> tend_camera w u d = (down, u', d'))"

text \<open>A stall is dated after the spawn.\<close>

definition camera_dated :: "camera_unit \<Rightarrow> bool" where
  "camera_dated u \<longleftrightarrow> (case cu_stalled u of None \<Rightarrow> True | Some t \<Rightarrow> cu_spawned u \<le> t)"

interpretation arm_pace: paced_respawn arm_unit_beat au_spawned au_proc "\<lambda>u. True" ARM_RESPAWN_S
proof unfold_locales
  fix u now u'
  assume "arm_unit_beat now u u'"
  then obtain w d down d' where w: "ob_now w = now" "tend_arm w u d = (down, u', d')" by (auto simp: arm_unit_beat_def)
  show "True \<and> (au_proc u' = au_proc u \<and> au_spawned u' = au_spawned u \<or> au_spawned u' = now \<and> au_spawned u + ARM_RESPAWN_S \<le> now)"
  proof (cases "os_alive (dm_os d) (au_proc u)")
    case True
    then show ?thesis using w by (auto simp: tend_arm_def Let_def split: if_splits)
  next
    case dead: False
    obtain u1 d1 where r: "(if au_reaped u then (u, d) else reap_dead_arm (u\<lparr>au_announced := True\<rparr>) d) = (u1, d1)" by fastforce
    have b: "au_proc u1 = au_proc u" "au_spawned u1 = au_spawned u"
      using r reap_dead_arm_step[of "u\<lparr>au_announced := True\<rparr>" d u1 d1] by (auto split: if_splits)
    obtain u2 d2 where rs: "respawn_arm now u1 d1 = (u2, d2)" by fastforce
    have "u' = u1 \<or> u' = u2 \<and> \<not> now - au_spawned u1 < ARM_RESPAWN_S"
      using w dead r rs by (auto simp: tend_arm_def split: if_splits)
    then show ?thesis using b respawn_arm_step[OF rs] by auto
  qed
qed (simp add: ARM_RESPAWN_S_def)

interpretation camera_pace: paced_respawn camera_unit_beat cu_spawned cu_proc camera_dated CAMERA_RESPAWN_S
proof unfold_locales
  fix u now u'
  assume ok: "camera_dated u" "cu_spawned u \<le> now" and "camera_unit_beat now u u'"
  then obtain w d down d' where w: "ob_now w = now" "tend_camera w u d = (down, u', d')" by (auto simp: camera_unit_beat_def)
  show "camera_dated u' \<and> (cu_proc u' = cu_proc u \<and> cu_spawned u' = cu_spawned u \<or> cu_spawned u' = now \<and> cu_spawned u + CAMERA_RESPAWN_S \<le> now)"
    using w ok by (auto simp: tend_camera_def respawn_camera_def os_spawn_def Let_def camera_dated_def split: if_splits prod.splits option.splits)
qed (simp add: CAMERA_RESPAWN_S_def)

text \<open>
  Automatic respawns are paced. Over any run of supervision beats, the successive processes of an arm start at
  least twenty seconds apart and those of a camera thirty, counted from the unit's first process; a camera that is alive but
  stalled is replaced no sooner than one that died.
\<close>

theorem respawns_paced:
  assumes "arm_pace.beats au ss t au'" "camera_pace.beats cu ts t' cu'" "cu_stalled cu = None"
  shows "sorted_wrt (\<lambda>a b. a + ARM_RESPAWN_S \<le> b) (au_spawned au # ss) \<and> sorted_wrt (\<lambda>a b. a + CAMERA_RESPAWN_S \<le> b) (cu_spawned cu # ts)"
  using arm_pace.respawns_spaced[OF assms(1)] camera_pace.respawns_spaced[OF assms(2)] assms(3) by (simp add: camera_dated_def)

section \<open>A one-arm session\<close>

definition demo_run_cfg :: "string \<Rightarrow> run_cfg" where
  "demo_run_cfg phase = \<lparr>rc_arms = [(''left'', \<lparr>ra_enabled = True, ra_kind = ''qpos''\<rparr>)], rc_phase = phase,
     rc_collection_coeffs = demo_coeffs, rc_eval_coeffs = demo_coeffs, rc_skill_coeffs = demo_coeffs, rc_skill_name = ''wave'',
     rc_policy_kind = ''hold'', rc_policy_host = ''localhost'', rc_policy_port = 8000, rc_control = ''qpos''\<rparr>"

definition demo_node_left :: hw_node where
  "demo_node_left = \<lparr>hn_name = ''flexiv:left'', hn_side = Some ''left'', hn_view = None, hn_streams = [''left/status'']\<rparr>"

definition demo_session :: daemon where
  "demo_session = start_hardware 0 [demo_node_left] [] None (fresh_daemon
     \<lparr>sc_overrides = [''rig=left'', ''task=old''], sc_run_id = ''run'', sc_sim = False, sc_servers = [''left''], sc_max_age_s = 1\<rparr>
     [''left''] None demo_os \<lparr>rs_shm = [], rs_subs = []\<rparr>)"

text \<open>An observation at a time, with the left arm's status and the phase of the composed run.\<close>

definition demo_see :: "real \<Rightarrow> flt list option \<Rightarrow> string \<Rightarrow> obs" where
  "demo_see now status phase = \<lparr>ob_now = now, ob_wall = now, ob_exit = (\<lambda>p. 0), ob_status = (\<lambda>side. status), ob_arm_fresh = (\<lambda>side. True),
     ob_cam_fresh = (\<lambda>v. True), ob_leader_fresh = (\<lambda>s. True), ob_op_name = (\<lambda>i. if i = 1 then Some ''READY'' else Some ''FAULT''),
     ob_compose = (\<lambda>os. Inr (demo_run_cfg phase)), ob_skill = (\<lambda>n. Inr [''left'']), ob_tcp = (\<lambda>h p. True),
     ob_grav = (\<lambda>s. Some True), ob_post = (\<lambda>s. True), ob_spawn = (\<lambda>n. True)\<rparr>"

definition ready :: "flt list option" where "ready = Some [Fin 1, Fin 0, Fin 0]"
definition in_session :: "flt list option" where "in_session = Some [Fin 1, Fin 0, Fin 1]"

definition start_cmd :: "string \<Rightarrow> cmd" where
  "start_cmd phase = [(''cmd'', CStr ''start''), (''phase'', CStr phase), (''task'', CStr ''pick'')]"

definition demo_running :: "string \<Rightarrow> daemon" where
  "demo_running phase = snd (handle_command (demo_see 50 ready phase) (start_cmd phase) demo_session)"

lemma demo_session_reach: "session_reach demo_session"
  unfolding demo_session_def by (rule session_reach.boot) (simp_all add: demo_os_def)

lemma demo_running_reach: "session_reach (demo_running phase)"
  unfolding demo_running_def by (rule session_reach.command[OF demo_session_reach]) (rule prod.collapse[symmetric])

theorem session_consistent_witness:
  "st_mode (dm_state (demo_running EVAL)) = EVAL \<and> dm_run (demo_running EVAL) \<noteq> None
   \<and> st_mode (dm_state (handle_stop (demo_running EVAL))) = SAVING \<and> st_mode (dm_state demo_session) = VIEWING"
proof -
  have r: "map_option (\<lambda>r. (ar_phase r, ar_stopping r)) (dm_run (demo_running EVAL)) = Some (EVAL, False)" by code_simp
  then obtain r where run: "dm_run (demo_running EVAL) = Some r" "ar_phase r = EVAL" "\<not> ar_stopping r" by auto
  have st: "dm_run (handle_stop (demo_running EVAL)) = Some (r\<lparr>ar_stopping := True\<rparr>)" by (simp add: handle_stop_run run)
  have "session_reach (snd (handle_command (demo_see 60 ready EVAL) [(''cmd'', CStr ''stop'')] (demo_running EVAL)))"
    by (rule session_reach.command[OF demo_running_reach]) (rule prod.collapse[symmetric])
  then have reach: "session_reach (handle_stop (demo_running EVAL))" by (simp add: handle_command_def cget_def)
  have "dm_run demo_session = None" by code_simp
  then show ?thesis
    using session_consistent[OF demo_running_reach[of EVAL]] session_consistent[OF reach] session_consistent[OF demo_session_reach] run st
    by simp
qed

text \<open>The arm's process dies with a control session waiting in its queue.\<close>

definition demo_dead :: daemon where
  "demo_dead = (let d = snd (reap_consumer (demo_see 60 ready EVAL) ((demo_running EVAL)\<lparr>dm_os := os_die [40, 41] (dm_os (demo_running EVAL))\<rparr>)) in d)"

lemma demo_dead_reach: "session_reach demo_dead"
proof -
  let ?d = "demo_running EVAL"
  have "consumed (dm_qs ?d) (dm_qs ?d)" by (auto simp: consumed_def intro: exI[of _ 0])
  then have e: "env_step ?d (?d\<lparr>dm_qs := dm_qs ?d, dm_os := os_die [40, 41] (dm_os ?d), dm_store := dm_store ?d\<rparr>)" by (rule env_step.intros)
  have "session_reach (?d\<lparr>dm_os := os_die [40, 41] (dm_os ?d)\<rparr>)" using session_reach.env[OF demo_running_reach e] by simp
  then show ?thesis unfolding demo_dead_def Let_def by (rule session_reach.reap) (rule prod.collapse[symmetric])
qed

theorem respawned_arm_idle_witness:
  "\<exists>b d'. tend_arms (demo_see 70 None EVAL) demo_dead = (b, d') \<and> map au_proc (dm_arms d') = [42] \<and> map au_proc (dm_arms demo_dead) = [40]
     \<and> length (the (dget (dm_qs demo_dead) ''left'')) = 1 \<and> dget (dm_qs d') ''left'' = Some [] \<and> dm_run d' = None"
proof -
  have v: "map au_proc (dm_arms (snd (tend_arms (demo_see 70 None EVAL) demo_dead))) = [42]" "map au_proc (dm_arms demo_dead) = [40]"
    "map au_side (dm_arms demo_dead) = [''left'']" "length (the (dget (dm_qs demo_dead) ''left'')) = 1"
    "dget (dm_qs (snd (tend_arms (demo_see 70 None EVAL) demo_dead))) ''left'' \<noteq> None"
    by code_simp+
  obtain b d' where run: "tend_arms (demo_see 70 None EVAL) demo_dead = (b, d')" by fastforce
  obtain u where u: "dm_arms demo_dead = [u]" "au_proc u = 40" "au_side u = ''left''" using v(2,3) by auto
  obtain u' where u': "dm_arms d' = [u']" "au_proc u' = 42" using v(1) run by auto
  have "dm_run d' = None \<and> (dget (dm_qs d') ''left'' = None \<or> dget (dm_qs d') ''left'' = Some [])"
    using respawned_arm_idle[OF demo_dead_reach run, of 0] u u' by simp
  then show ?thesis using run u u' v(4,5) by auto
qed

theorem respawns_paced_witness:
  "\<exists>au au' cu. arm_pace.beats au [70] 70 au' \<and> au_spawned au = 0 \<and> camera_pace.beats cu [] 0 cu
     \<and> sorted_wrt (\<lambda>a b. a + ARM_RESPAWN_S \<le> b) [0, 70]"
proof -
  define cu where "cu = \<lparr>cu_name = ''zed'', cu_view = None, cu_streams = [], cu_proc = 1, cu_spawned = 0, cu_announced = False, cu_stalled = None\<rparr>"
  define au where "au = hd (dm_arms demo_session)"
  let ?w = "demo_see 70 None EVAL" and ?d = "demo_session\<lparr>dm_os := os_die [40] (dm_os demo_session)\<rparr>"
  obtain down au' d' where t: "tend_arm ?w au ?d = (down, au', d')" by (cases "tend_arm ?w au ?d")
  have v: "au_proc (fst (snd (tend_arm ?w au ?d))) = 41" "au_proc au = 40" "au_spawned au = 0" unfolding au_def by code_simp+
  have b0: "arm_pace.beats au [] 0 au" by (rule arm_pace.beats.start) (simp add: v(3))
  have b1: "arm_unit_beat 70 au au'" unfolding arm_unit_beat_def using t by (intro exI[of _ ?w] exI) (auto simp: demo_see_def)
  have b2: "au_proc au' \<noteq> au_proc au" using v t by simp
  have "(0::real) \<le> 70" by simp
  from arm_pace.beats.fresh[OF b0 this b1 b2] have a: "arm_pace.beats au ([] @ [70]) 70 au'" .
  have c: "camera_pace.beats cu [] 0 cu" by (rule camera_pace.beats.start) (simp add: cu_def)
  have "sorted_wrt (\<lambda>a b. a + ARM_RESPAWN_S \<le> b) (au_spawned au # [] @ [70])"
    using respawns_paced[OF a c] by (simp add: cu_def)
  then show ?thesis using a c v(3) by auto
qed


definition demo_queued :: daemon where
  "demo_queued = handle_switch (demo_see 50 in_session EVAL) (start_cmd EVAL) demo_session"

theorem queued_start_resolves_witness:
  "\<exists>d'. tend_until [demo_see 51 in_session EVAL, demo_see 70 in_session EVAL] demo_queued = Some d' \<and> dm_pending d' = None
     \<and> dm_pending demo_queued \<noteq> None"
proof -
  have v: "map_option (\<lambda>p. pn_deadline p) (dm_pending demo_queued) = Some (Some 70)" "dm_run demo_queued = None" by code_simp+
  then obtain p where p: "dm_pending demo_queued = Some p" "pn_deadline p = Some 70" by auto
  have "\<exists>v \<in> set [demo_see 51 in_session EVAL, demo_see 70 in_session EVAL]. pending_deadline (demo_see 51 in_session EVAL) p \<le> ob_now v"
    by (simp add: pending_deadline_def p(2) demo_see_def)
  then show ?thesis using queued_start_resolves[OF p(1) v(2)] p(1) by simp
qed

definition demo_leak :: daemon where
  "demo_leak = (demo_running EVAL)\<lparr>dm_os := os_die [41] (dm_os (demo_running EVAL)),
     dm_store := snd (writer_create NaN IoOk ''run'' ''control'' 41
       \<lparr>ss_name = ''cmd/left/setpoint'', ss_dim = 1, ss_capacity = 2, ss_dtype = ''float64'', ss_rate_hz = None\<rparr> \<lparr>rs_shm = [], rs_subs = []\<rparr>)\<rparr>"

theorem run_end_sweeps_control_witness:
  "length (rs_shm (dm_store demo_leak)) = 1
   \<and> (\<exists>d'. reap_consumer (demo_see 60 ready EVAL) demo_leak = (Inr True, d') \<and> st_mode (dm_state d') = VIEWING \<and> rs_shm (dm_store d') = [])"
proof -
  let ?n = "shm_name_for ''run'' ''cmd/left/setpoint''"
  have v: "map fst (rs_shm (dm_store demo_leak)) = [?n]" "map_option ar_proc (dm_run demo_leak) = Some 41" "os_live (dm_os demo_leak) = [40]"
    by code_simp+
  obtain r where r: "dm_run demo_leak = Some r" "ar_proc r = 41" using v(2) by auto
  have dead: "\<not> os_alive (dm_os demo_leak) (ar_proc r)" by (simp add: os_alive_def v(3) r(2))
  have "map_option (map listed) (dget (rs_subs (dm_store demo_leak)) ''control'') = Some [Some ?n]" by code_simp
  then obtain dir where dir0: "dget (rs_subs (dm_store demo_leak)) ''control'' = Some dir" "map listed dir = [Some ?n]" by auto
  have "sweepable pf" if "listed pf = Some n" for pf n
    using that by (auto simp: listed_def sweepable_def split: if_splits sum.splits json.splits)
  then have dir: "dget (rs_subs (dm_store demo_leak)) ''control'' = Some dir" "list_all sweepable dir" "map listed dir = [Some ?n]"
    using dir0 by (auto simp: map_eq_Cons_conv)
  obtain d' where h: "reap_consumer (demo_see 60 ready EVAL) demo_leak = (Inr True, d')" "st_mode (dm_state d') = VIEWING"
      "\<forall>n. dget (rs_shm (dm_store d')) n = (if Some n \<in> listed ` set dir then None else dget (rs_shm (dm_store demo_leak)) n)"
    using run_end_sweeps_control[OF r(1) dead dir(1,2), of "demo_see 60 ready EVAL"] by (elim exE conjE) (rule that)
  have ls: "listed ` set dir = {Some ?n}" using arg_cong[OF dir(3), of set] by simp
  have none: "dget (rs_shm (dm_store d')) n = None" for n
  proof (cases "n = ?n")
    case False
    then have "dget (rs_shm (dm_store demo_leak)) n = None" using v(1) by (auto simp: map_of_eq_None_iff map_eq_Cons_conv)
    then show ?thesis using h(3) by simp
  qed (use h(3) ls in simp)
  then have "rs_shm (dm_store d') = []" by (metis (no_types) ext map_of_eq_empty_iff)
  moreover have "length (rs_shm (dm_store demo_leak)) = 1" using arg_cong[OF v(1), of length] by simp
  ultimately show ?thesis using h(1,2) by blast
qed

theorem dead_arm_forgotten_witness:
  "\<exists>u d' u'. dm_arms demo_session = [u] \<and> reap_dead_arm u demo_session = (u', d') \<and> arm_status ''left'' (dm_store d') = Inr None"
proof -
  have v: "map (\<lambda>u. (au_side u, au_streams u)) (dm_arms demo_session) = [(''left'', [''left/status''])]"
    "sub_dir (dm_store demo_session) ''streams'' = []" by code_simp+
  obtain u where u: "dm_arms demo_session = [u]" "au_side u = ''left''" "au_streams u = [''left/status'']" using v(1) by auto
  obtain u' d' where run: "reap_dead_arm u demo_session = (u', d')" by fastforce
  have ok: "dir_ok (sub_dir (dm_store demo_session) ''streams'')" by (simp add: v(2))
  have decl: "au_side u @ ''/status'' \<in> set (au_streams u)" by (simp add: u)
  show ?thesis using dead_arm_forgotten[OF run ok decl] u run by auto
qed

definition demo_armed :: daemon where
  "demo_armed = watch_arm_dropout (demo_see 55 in_session EVAL) (demo_running EVAL)"

theorem dropout_watchdog_witness:
  "\<exists>r r'. dm_run demo_armed = Some r \<and> ar_armed r \<and> \<not> ar_stopping r
     \<and> dm_run (watch_arm_dropout (demo_see 56 ready EVAL) demo_armed) = Some r' \<and> ar_stopping r'"
proof -
  have "map_option (\<lambda>r. (ar_armed r, ar_stopping r, ar_sides r, ar_active r)) (dm_run demo_armed) = Some (True, False, [''left''], [''left''])"
    by code_simp
  then obtain r where r: "dm_run demo_armed = Some r" "ar_armed r" "\<not> ar_stopping r" "ar_sides r = [''left'']" "ar_active r = [''left'']" by auto
  have inv: "ar_armed r \<longrightarrow> set (ar_sides r) \<subseteq> set (ar_active r)" using r by simp
  have "\<not> in_control (demo_see 56 ready EVAL) ''left''" by (simp add: in_control_def demo_see_def ready_def)
  then show ?thesis using dropout_watchdog[OF r(1,3) inv, of "demo_see 56 ready EVAL"] r by auto
qed

theorem grav_comp_off_halts_witness:
  "\<exists>r'. dm_run (handle_grav_comp (demo_see 60 in_session COLLECTION) False (demo_running COLLECTION)) = Some r' \<and> ar_stopping r'"
proof -
  have v: "map_option (\<lambda>r. (ar_phase r, ar_stopping r)) (dm_run (demo_running COLLECTION)) = Some (COLLECTION, False)"
    "sc_servers (dm_cfg (demo_running COLLECTION)) = [''left'']" "sc_sim (dm_cfg (demo_running COLLECTION)) = False" by code_simp+
  then obtain r where r: "dm_run (demo_running COLLECTION) = Some r" "ar_phase r = COLLECTION" "\<not> ar_stopping r" by auto
  have "\<not> sc_sim (dm_cfg (demo_running COLLECTION))" "sc_servers (dm_cfg (demo_running COLLECTION)) \<noteq> []" using v(2,3) by simp_all
  then show ?thesis using grav_comp_off_halts[OF _ _ r(1,3), of "demo_see 60 in_session COLLECTION"] r(2) by auto
qed

end
