(* ===== verification/Skill_Store.thy ===== *)
theory Skill_Store
  imports Factr
begin

text \<open>
  The skill files (\<^verbatim>\<open>skills.py\<close>): a taught trajectory, its JSON document, saving, loading, listing, renaming and
  deleting skills, and teaching one from a recorded episode. Shown: what is saved is what is loaded, a failed save
  keeps the old skill, a name never leaves the skills directory, and which documents break the listing of all the
  others.
\<close>

section \<open>JSON documents and arrays\<close>

text \<open>A document as \<open>json.loads\<close> gives it (numbers are reals).\<close>

datatype jv = VNull | VBool bool | VNum real | VText string | VArr "jv list" | VObj "(string, jv) dict"

fun jtrue :: "jv \<Rightarrow> bool" where
  "jtrue VNull = False"
| "jtrue (VBool b) = b"
| "jtrue (VNum x) = (x \<noteq> 0)"
| "jtrue (VText s) = (s \<noteq> [])"
| "jtrue (VArr xs) = (xs \<noteq> [])"
| "jtrue (VObj d) = (d \<noteq> [])"

text \<open>\<open>v.get(k)\<close>: only an object has the method; a missing key gives \<open>None\<close>.\<close>

fun jget :: "jv \<Rightarrow> string \<Rightarrow> jv res" where
  "jget (VObj d) k = Inr (case dget d k of None \<Rightarrow> VNull | Some v \<Rightarrow> v)"
| "jget v k = Inl AttributeError"

definition jor :: "jv \<Rightarrow> jv \<Rightarrow> jv" where
  "jor v w = (if jtrue v then v else w)"

text \<open>
  The conversions Python and numpy make of a value that is no array: \<open>int\<close> and \<open>float\<close> of a text, \<open>str\<close> of a value that is
  no text, the float64 element numpy makes of a leaf that is no number, and \<open>dict\<close> of a list.
\<close>

record py_conv =
  pc_int :: "string \<Rightarrow> int res"
  pc_float :: "string \<Rightarrow> real res"
  pc_str :: "jv \<Rightarrow> string"
  pc_leaf :: "jv \<Rightarrow> real res"
  pc_dict :: "jv list \<Rightarrow> (string, jv) dict res"

fun to_int :: "py_conv \<Rightarrow> jv \<Rightarrow> int res" where
  "to_int pc (VNum x) = Inr (py_trunc x)"
| "to_int pc (VBool b) = Inr (if b then 1 else 0)"
| "to_int pc (VText s) = pc_int pc s"
| "to_int pc v = Inl TypeError"

fun to_float :: "py_conv \<Rightarrow> jv \<Rightarrow> real res" where
  "to_float pc (VNum x) = Inr x"
| "to_float pc (VBool b) = Inr (if b then 1 else 0)"
| "to_float pc (VText s) = pc_float pc s"
| "to_float pc v = Inl TypeError"

fun to_text :: "py_conv \<Rightarrow> jv \<Rightarrow> string" where
  "to_text pc (VText s) = s"
| "to_text pc v = pc_str pc v"

fun to_leaf :: "py_conv \<Rightarrow> jv \<Rightarrow> real res" where
  "to_leaf pc (VNum x) = Inr x"
| "to_leaf pc (VBool b) = Inr (if b then 1 else 0)"
| "to_leaf pc v = pc_leaf pc v"

text \<open>A float64 array: its shape and its elements in row-major order.\<close>

record nd =
  nd_shape :: "nat list"
  nd_data :: "real list"

lemma mapR_cong [fundef_cong]: "xs = ys \<Longrightarrow> (\<And>x. x \<in> set ys \<Longrightarrow> f x = g x) \<Longrightarrow> mapR f xs = mapR g ys"
  by (induction xs arbitrary: ys) auto

text \<open>\<open>numpy.asarray (v, dtype=float64)\<close>: nested lists of one shape, or \<open>ValueError\<close>.\<close>

definition nd_stack :: "nd list \<Rightarrow> nd res" where
  "nd_stack ys =
     (if ys = [] then Inr \<lparr>nd_shape = [0], nd_data = []\<rparr>
      else if \<forall>y \<in> set ys. nd_shape y = nd_shape (hd ys)
      then Inr \<lparr>nd_shape = length ys # nd_shape (hd ys), nd_data = concat (map nd_data ys)\<rparr>
      else Inl ValueError)"

fun asarray :: "py_conv \<Rightarrow> jv \<Rightarrow> nd res" where
  "asarray pc (VArr xs) = rbind (mapR (asarray pc) xs) nd_stack"
| "asarray pc v = rbind (to_leaf pc v) (\<lambda>x. Inr \<lparr>nd_shape = [], nd_data = [x]\<rparr>)"

text \<open>Row \<open>i\<close> of a matrix; \<open>tolist\<close> of a vector and of a matrix.\<close>

definition nd_row :: "nd \<Rightarrow> nat \<Rightarrow> real list" where
  "nd_row a i = (let m = nd_shape a ! 1 in slice (i * m) (i * m + m) (nd_data a))"

definition nums :: "real list \<Rightarrow> jv" where
  "nums xs = VArr (map VNum xs)"

definition tolist2 :: "nd \<Rightarrow> jv" where
  "tolist2 a = VArr (map (\<lambda>i. nums (nd_row a i)) [0..<nd_shape a ! 0])"

section \<open>Skills\<close>

record skill =
  sk_name :: string
  sk_fps :: real
  sk_q :: "(string, nd) dict"
  sk_gripper :: "(string, real list) dict"
  sk_source :: "(string, jv) dict"
  sk_created :: string

definition sk_sides :: "skill \<Rightarrow> string list" where
  "sk_sides sk = dkeys (sk_q sk)"

definition sk_frames :: "skill \<Rightarrow> nat" where
  "sk_frames sk = (if sk_q sk = [] then 0 else Min (set (map (\<lambda>(s, a). nd_shape a ! 0) (sk_q sk))))"

definition duration_s :: "skill \<Rightarrow> real" where
  "duration_s sk = (if 0 < sk_fps sk then real (sk_frames sk) / sk_fps sk else 0)"

text \<open>\<open>^[A-Za-z0-9][A-Za-z0-9._-]*$\<close> with \<open>match\<close>: the dollar also matches before one trailing newline.\<close>

definition ascii_alnum :: "char \<Rightarrow> bool" where
  "ascii_alnum c \<longleftrightarrow> CHR ''A'' \<le> c \<and> c \<le> CHR ''Z'' \<or> CHR ''a'' \<le> c \<and> c \<le> CHR ''z'' \<or> CHR ''0'' \<le> c \<and> c \<le> CHR ''9''"

definition stem_char :: "char \<Rightarrow> bool" where
  "stem_char c \<longleftrightarrow> ascii_alnum c \<or> c \<in> set ''._-''"

definition NAME_RE :: "string \<Rightarrow> bool" where
  "NAME_RE n =
     (case n of
        [] \<Rightarrow> False
      | c # cs \<Rightarrow> ascii_alnum c \<and> list_all stem_char (if cs \<noteq> [] \<and> last cs = CHR 0x0A then butlast cs else cs))"

fun traj_ok :: "nat list \<Rightarrow> bool" where
  "traj_ok [m, n] = (1 \<le> m \<and> 1 \<le> n)"
| "traj_ok sh = False"

definition skill_validate :: "skill \<Rightarrow> unit res" where
  "skill_validate sk =
     (if \<not> NAME_RE (sk_name sk) then Inl ValueError
      else if sk_q sk = [] then Inl ValueError
      else if sk_fps sk \<le> 0 then Inl ValueError
      else if \<not> list_all (\<lambda>(s, a). traj_ok (nd_shape a)) (sk_q sk) then Inl ValueError
      else Inr ())"

section \<open>The skills directory\<close>

text \<open>File names and contents; \<open>Bad\<close> is a file that cannot be read or is no JSON.\<close>

datatype skill_doc = Doc jv | Bad

type_synonym skill_dir = "(string, skill_doc) dict"

definition FORMAT_VERSION :: int where "FORMAT_VERSION = 1"

definition skill_file :: "string \<Rightarrow> string res" where
  "skill_file name = (if NAME_RE name then Inr (name @ ''.json'') else Inl ValueError)"

definition skill_payload :: "string \<Rightarrow> skill \<Rightarrow> jv" where
  "skill_payload now sk =
     VObj [(''version'', VNum (of_int FORMAT_VERSION)), (''name'', VText (sk_name sk)),
           (''created'', VText (if sk_created sk = [] then now else sk_created sk)), (''fps'', VNum (sk_fps sk)),
           (''sides'', VArr (map VText (sk_sides sk))), (''frames'', VNum (real (sk_frames sk))), (''source'', VObj (sk_source sk)),
           (''q'', VObj (map (\<lambda>(s, a). (s, tolist2 a)) (sk_q sk))),
           (''gripper'', VObj (map (\<lambda>(s, g). (s, nums g)) (sk_gripper sk)))]"

text \<open>
  The directory after \<open>write_text\<close> of the temporary file and after \<open>os.replace\<close>; either can fail, and a failed write may leave an
  unreadable temporary file.
\<close>

definition save_skill :: "string \<Rightarrow> bool \<Rightarrow> bool \<Rightarrow> skill \<Rightarrow> skill_dir \<Rightarrow> string res \<times> skill_dir" where
  "save_skill now wrote replaced sk d =
     (case rbind (skill_validate sk) (\<lambda>u. skill_file (sk_name sk)) of
        Inl e \<Rightarrow> (Inl e, d)
      | Inr path \<Rightarrow>
          (let tmp = path @ ''.tmp''; doc = Doc (skill_payload now sk) in
           if \<not> wrote then (Inl OSError, dput tmp Bad d)
           else if \<not> replaced then (Inl OSError, dput tmp doc d)
           else (Inr path, ddel tmp (dput path doc d))))"

fun jitems :: "jv \<Rightarrow> (string, jv) dict res" where
  "jitems (VObj d) = Inr d"
| "jitems v = Inl AttributeError"

text \<open>\<open>dict (v)\<close> of a value that counts as true.\<close>

fun jdict :: "py_conv \<Rightarrow> jv \<Rightarrow> (string, jv) dict res" where
  "jdict pc (VObj d) = Inr d"
| "jdict pc (VArr xs) = pc_dict pc xs"
| "jdict pc (VText s) = Inl ValueError"
| "jdict pc v = Inl TypeError"

definition skill_of_payload :: "py_conv \<Rightarrow> string \<Rightarrow> jv \<Rightarrow> skill res" where
  "skill_of_payload pc name p =
     rbind (jget p ''version'') (\<lambda>v. rbind (to_int pc (jor v (VNum 0))) (\<lambda>version.
     if version > FORMAT_VERSION then Inl ValueError
     else
       rbind (jget p ''name'') (\<lambda>nm. rbind (jget p ''fps'') (\<lambda>f. rbind (to_float pc (jor f (VNum 0))) (\<lambda>fps.
       rbind (jget p ''q'') (\<lambda>q. rbind (jitems (jor q (VObj []))) (\<lambda>qs.
       rbind (mapR (\<lambda>(s, a). rbind (asarray pc a) (\<lambda>b. Inr (s, b))) qs) (\<lambda>q'.
       rbind (jget p ''gripper'') (\<lambda>g. rbind (jitems (jor g (VObj []))) (\<lambda>gs.
       rbind (mapR (\<lambda>(s, a). rbind (asarray pc a) (\<lambda>b. Inr (s, nd_data b))) gs) (\<lambda>g'.
       rbind (jget p ''source'') (\<lambda>so. rbind (jdict pc (jor so (VObj []))) (\<lambda>source.
       rbind (jget p ''created'') (\<lambda>cr.
       Inr \<lparr>sk_name = to_text pc (jor nm (VText name)), sk_fps = fps, sk_q = q', sk_gripper = g', sk_source = source,
            sk_created = to_text pc (jor cr (VText []))\<rparr>))))))))))))))"

definition load_skill :: "py_conv \<Rightarrow> string \<Rightarrow> skill_dir \<Rightarrow> skill res" where
  "load_skill pc name d =
     (if name = [] then Inl ValueError
      else rbind (skill_file name) (\<lambda>path.
        case dget d path of
          None \<Rightarrow> Inl ValueError
        | Some Bad \<Rightarrow> Inl ValueError
        | Some (Doc p) \<Rightarrow> rbind (skill_of_payload pc name p) (\<lambda>sk. rbind (skill_validate sk) (\<lambda>u. Inr sk))))"

text \<open>
  Listing: the \<^verbatim>\<open>*.json\<close> files in order of their names; \<open>ValueError\<close> skips a file, any other exception leaves the
  function.
\<close>

record skill_info =
  si_name :: string
  si_path :: string
  si_sides :: "string list"
  si_frames :: nat
  si_fps :: real
  si_duration_s :: real
  si_created :: string
  si_source :: "(string, jv) dict"

definition skill_info_of :: "string \<Rightarrow> skill \<Rightarrow> skill_info" where
  "skill_info_of path sk =
     \<lparr>si_name = sk_name sk, si_path = path, si_sides = sk_sides sk, si_frames = sk_frames sk, si_fps = sk_fps sk,
      si_duration_s = duration_s sk, si_created = sk_created sk, si_source = sk_source sk\<rparr>"

definition path_stem :: "string \<Rightarrow> string" where
  "path_stem p = take (length p - 5) p"

fun discover_each :: "py_conv \<Rightarrow> skill_dir \<Rightarrow> string list \<Rightarrow> skill_info list res" where
  "discover_each pc d [] = Inr []"
| "discover_each pc d (p # ps) =
     (case load_skill pc (path_stem p) d of
        Inl e \<Rightarrow> if e = ValueError then discover_each pc d ps else Inl e
      | Inr sk \<Rightarrow> rbind (discover_each pc d ps) (\<lambda>out. Inr (skill_info_of p sk # out)))"

definition discover_skills :: "py_conv \<Rightarrow> skill_dir \<Rightarrow> skill_info list res" where
  "discover_skills pc d = discover_each pc d (sort (filter is_json (dkeys d)))"

definition delete_skill :: "string \<Rightarrow> skill_dir \<Rightarrow> unit res \<times> skill_dir" where
  "delete_skill name d = (case skill_file name of Inl e \<Rightarrow> (Inl e, d) | Inr path \<Rightarrow> (Inr (), ddel path d))"

definition rename_skill ::
    "py_conv \<Rightarrow> string \<Rightarrow> bool \<Rightarrow> bool \<Rightarrow> string \<Rightarrow> string \<Rightarrow> skill_dir \<Rightarrow> string res \<times> skill_dir" where
  "rename_skill pc now wrote replaced old new d =
     (case rbind (skill_file old) (\<lambda>src. rbind (skill_file new) (\<lambda>dst. rbind (load_skill pc old d) (\<lambda>sk. Inr (src, dst, sk)))) of
        Inl e \<Rightarrow> (Inl e, d)
      | Inr (src, dst, sk) \<Rightarrow>
          if dst = src then (Inr src, d)
          else if dget d dst \<noteq> None then (Inl ValueError, d)
          else (case save_skill now wrote replaced (sk\<lparr>sk_name := new\<rparr>) d of
                  (Inl e, d1) \<Rightarrow> (Inl e, d1)
                | (Inr path, d1) \<Rightarrow> (Inr path, ddel src d1)))"

section \<open>Teaching from an episode\<close>

text \<open>\<open>str.split\<close> at dots.\<close>

fun split_dots :: "string \<Rightarrow> string list" where
  "split_dots [] = [[]]"
| "split_dots (c # cs) =
     (if c = CHR ''.'' then [] # split_dots cs
      else case split_dots cs of [] \<Rightarrow> [[c]] | p # ps \<Rightarrow> (c # p) # ps)"

definition q_column :: "string \<Rightarrow> string option" where
  "q_column name = (let parts = split_dots name in if 3 \<le> length parts \<and> parts ! 1 = ''q'' then Some (parts ! 0) else None)"

definition state_q_index :: "string list \<Rightarrow> (string, nat list) dict" where
  "state_q_index names =
     fold (\<lambda>(i, name) out. case q_column name of
              None \<Rightarrow> out
            | Some side \<Rightarrow> dput side ((case dget out side of None \<Rightarrow> [] | Some js \<Rightarrow> js) @ [i]) out)
       (enumerate 0 names) []"

definition gripper_column :: "string \<Rightarrow> string option" where
  "gripper_column name = (let parts = split_dots name in if length parts = 2 \<and> parts ! 1 = ''gripper'' then Some (parts ! 0) else None)"

definition gripper_index :: "string list \<Rightarrow> (string, nat) dict" where
  "gripper_index names =
     fold (\<lambda>(i, name) out. case gripper_column name of None \<Rightarrow> out | Some side \<Rightarrow> dput side i out) (enumerate 0 names) []"

text \<open>One episode's columns, as the dataset library returns them: the matrices by rows, with their widths.\<close>

record episode =
  ep_state_names :: "string list"
  ep_action_names :: "string list"
  ep_states :: "real list list"
  ep_actions :: "real list list"
  ep_fps :: real
  ep_tasks :: "string list"

text \<open>\<open>a[:, idx]\<close> with a list of columns, and with one column.\<close>

definition columns :: "nat list \<Rightarrow> real list list \<Rightarrow> nd res" where
  "columns idx mat =
     (if \<exists>r \<in> set mat. \<exists>i \<in> set idx. length r \<le> i then Inl IndexError
      else Inr \<lparr>nd_shape = [length mat, length idx], nd_data = concat (map (\<lambda>r. map ((!) r) idx) mat)\<rparr>)"

definition skill_from_episode :: "string \<Rightarrow> string \<Rightarrow> int \<Rightarrow> string \<Rightarrow> episode \<Rightarrow> skill res" where
  "skill_from_episode now repo_id episode_index name ep =
     (let q_index = state_q_index (ep_state_names ep); width = (case ep_actions ep of [] \<Rightarrow> 0 | r # rs \<Rightarrow> length r) in
      if q_index = [] then Inl ValueError
      else rbind (mapR (\<lambda>(side, idx). rbind (columns idx (ep_states ep)) (\<lambda>a. Inr (side, a))) q_index) (\<lambda>q.
        let gripper = map (\<lambda>(side, i). (side, map (\<lambda>r. r ! i) (ep_actions ep)))
                        (filter (\<lambda>(side, i). side \<in> set (dkeys q) \<and> i < width) (gripper_index (ep_action_names ep)));
            sk = \<lparr>sk_name = name, sk_fps = ep_fps ep, sk_q = q, sk_gripper = gripper,
                  sk_source = [(''type'', VText ''episode''), (''repo_id'', VText repo_id),
                               (''episode_index'', VNum (of_int episode_index)),
                               (''task'', VText (case ep_tasks ep of [] \<Rightarrow> [] | t # ts \<Rightarrow> t))],
                  sk_created = now\<rparr> in
        rbind (skill_validate sk) (\<lambda>u. Inr sk)))"

section \<open>Arrays survive the document\<close>

definition nd_ok :: "nd \<Rightarrow> bool" where
  "nd_ok a \<longleftrightarrow> length (nd_data a) = prod_list (nd_shape a)"

lemma mapR_map: "(\<And>x. x \<in> set xs \<Longrightarrow> f (g x) = Inr (h x)) \<Longrightarrow> mapR f (map g xs) = Inr (map h xs)"
  by (induction xs) auto

lemma asarray_nums [simp]: "asarray pc (nums xs) = Inr \<lparr>nd_shape = [length xs], nd_data = xs\<rparr>"
proof -
  have "mapR (asarray pc) (map VNum xs) = Inr (map (\<lambda>x. \<lparr>nd_shape = [], nd_data = [x]\<rparr>) xs)" by (rule mapR_map) simp
  moreover have "concat (map (nd_data \<circ> (\<lambda>x. \<lparr>nd_shape = [], nd_data = [x]\<rparr>)) xs) = xs" by (induction xs) auto
  ultimately show ?thesis by (cases xs) (auto simp: nums_def nd_stack_def)
qed

lemma concat_rows: "length xs = m * n \<Longrightarrow> concat (map (\<lambda>i. slice (i * n) (i * n + n) xs) [0..<m]) = xs"
proof (induction m arbitrary: xs)
  case (Suc m)
  let ?ys = "take (m * n) xs"
  have "slice (i * n) (i * n + n) ?ys = slice (i * n) (i * n + n) xs" if "i < m" for i
  proof -
    have "i * n + n \<le> m * n" using that by (metis Suc_leI add.commute mult_Suc mult_le_mono1)
    then show ?thesis by (simp add: slice_def drop_take)
  qed
  then have m: "map (\<lambda>i. slice (i * n) (i * n + n) xs) [0..<m] = map (\<lambda>i. slice (i * n) (i * n + n) ?ys) [0..<m]" by simp
  have "concat (map (\<lambda>i. slice (i * n) (i * n + n) xs) [0..<m]) = ?ys"
    unfolding m by (rule Suc.IH) (use Suc.prems in simp)
  then show ?case using Suc.prems by (simp add: slice_def)
qed simp

lemma nd_row_length:
  assumes "nd_shape a = [m, n]" "nd_ok a" "i < m"
  shows "length (nd_row a i) = n"
proof -
  have "i * n + n \<le> m * n" using assms(3) by (metis Suc_leI add.commute mult_Suc mult_le_mono1)
  then show ?thesis using assms by (simp add: nd_row_def nd_ok_def Let_def)
qed

lemma asarray_tolist2:
  assumes "traj_ok (nd_shape a)" "nd_ok a"
  shows "asarray pc (tolist2 a) = Inr a"
proof -
  obtain m n where sh: "nd_shape a = [m, n]" "1 \<le> m" using assms(1) by (cases "nd_shape a" rule: traj_ok.cases) auto
  let ?row = "\<lambda>i. \<lparr>nd_shape = [n], nd_data = nd_row a i\<rparr>"
  have "mapR (asarray pc) (map (\<lambda>i. nums (nd_row a i)) [0..<m]) = Inr (map ?row [0..<m])"
    by (rule mapR_map) (simp add: nd_row_length[OF sh(1) assms(2)])
  moreover have "hd (map ?row [0..<m]) = ?row 0" using sh(2) by (cases m) (simp_all add: upt_rec)
  moreover have "concat (map (nd_row a) [0..<m]) = nd_data a"
    using concat_rows[of "nd_data a" m n] assms(2) sh(1) by (simp add: nd_row_def[abs_def] nd_ok_def Let_def)
  ultimately show ?thesis using sh by (simp add: tolist2_def nd_stack_def comp_def)
qed

section \<open>Saving and loading\<close>

lemma NAME_RE_nonempty: "NAME_RE n \<Longrightarrow> n \<noteq> []"
  by (auto simp: NAME_RE_def)

lemma skill_of_saved:
  assumes val: "skill_validate sk = Inr ()" and arr: "\<forall>(s, a) \<in> set (sk_q sk). nd_ok a"
  shows "skill_of_payload pc name (skill_payload now sk)
    = Inr (sk\<lparr>sk_created := if sk_created sk = [] then now else sk_created sk\<rparr>)"
proof -
  have q: "sk_q sk \<noteq> []" "NAME_RE (sk_name sk)" "0 < sk_fps sk" "\<forall>(s, a) \<in> set (sk_q sk). traj_ok (nd_shape a)"
    using val by (auto simp: skill_validate_def list_all_iff split: if_splits)
  have "mapR (\<lambda>(s, a). rbind (asarray pc a) (\<lambda>b. Inr (s, b))) (map (\<lambda>(s, a). (s, tolist2 a)) (sk_q sk)) = Inr (map (\<lambda>x. x) (sk_q sk))"
    by (rule mapR_map) (use q(4) arr in \<open>fastforce intro: asarray_tolist2\<close>)
  moreover have "mapR (\<lambda>(s, a). rbind (asarray pc a) (\<lambda>b. Inr (s, nd_data b))) (map (\<lambda>(s, g). (s, nums g)) (sk_gripper sk))
      = Inr (map (\<lambda>x. x) (sk_gripper sk))"
    by (rule mapR_map) auto
  ultimately show ?thesis
    using q NAME_RE_nonempty[OF q(2)] by (simp add: skill_of_payload_def skill_payload_def jor_def FORMAT_VERSION_def py_trunc_def)
qed

lemma skill_validate_created [simp]: "skill_validate (sk\<lparr>sk_created := c\<rparr>) = skill_validate sk"
  by (simp add: skill_validate_def)

lemma tmp_no_skill [simp]: "\<not> is_json (p @ ''.json.tmp'')"
  by (simp add: is_json_def)

lemma skill_file_json: "skill_file n = Inr path \<Longrightarrow> is_json path \<and> path = n @ ''.json''"
  by (auto simp: skill_file_def is_json_def split: if_splits)

text \<open>Loading and listing see only the \<^verbatim>\<open>*.json\<close> files.\<close>

lemma load_skill_cong: "dget d (name @ ''.json'') = dget d' (name @ ''.json'') \<Longrightarrow> load_skill pc name d = load_skill pc name d'"
  by (cases "skill_file name") (auto simp: load_skill_def dest!: skill_file_json)

lemma discover_cong:
  assumes "filter is_json (dkeys d) = filter is_json (dkeys d')" "\<forall>p. is_json p \<longrightarrow> dget d p = dget d' p"
  shows "discover_skills pc d = discover_skills pc d'"
proof -
  have "load_skill pc n d = load_skill pc n d'" for n
    by (rule load_skill_cong) (simp add: assms(2) is_json_def)
  then have "discover_each pc d ps = discover_each pc d' ps" for ps by (induction ps) (simp_all split: sum.splits)
  then show ?thesis by (simp add: discover_skills_def assms(1))
qed

lemma filter_json_tmp: "filter is_json (dkeys (dput (p @ ''.json.tmp'') v d)) = filter is_json (dkeys d)"
  by (induction d) auto

lemma save_skill_effects:
  assumes val: "skill_validate sk = Inr ()" and arr: "\<forall>(s, a) \<in> set (sk_q sk). nd_ok a"
    and save: "save_skill now wrote replaced sk d = (r, d')"
  shows "(\<forall>path. r = Inr path \<longrightarrow>
        load_skill pc (sk_name sk) d' = Inr (sk\<lparr>sk_created := if sk_created sk = [] then now else sk_created sk\<rparr>)
        \<and> (\<forall>n. n \<noteq> sk_name sk \<longrightarrow> load_skill pc n d' = load_skill pc n d))
    \<and> (\<forall>e. r = Inl e \<longrightarrow> (\<forall>n. load_skill pc n d' = load_skill pc n d) \<and> discover_skills pc d' = discover_skills pc d)
    \<and> ((\<exists>path. r = Inr path) \<longleftrightarrow> wrote \<and> replaced)"
proof -
  have re: "NAME_RE (sk_name sk)" using val by (simp add: skill_validate_def split: if_splits)
  let ?p = "sk_name sk @ ''.json''" let ?t = "sk_name sk @ ''.json.tmp''"
  have saved: "save_skill now wrote replaced sk d =
      (if \<not> wrote then (Inl OSError, dput ?t Bad d)
       else if \<not> replaced then (Inl OSError, dput ?t (Doc (skill_payload now sk)) d)
       else (Inr ?p, ddel ?t (dput ?p (Doc (skill_payload now sk)) d)))"
    using val re by (simp add: save_skill_def skill_file_def Let_def)
  have ne: "n @ ''.json'' \<noteq> ?t" for n
  proof
    assume "n @ ''.json'' = ?t"
    from arg_cong[OF this, of last] show False by simp
  qed
  have tmp: "load_skill pc n (dput ?t v d) = load_skill pc n d" for n v by (rule load_skill_cong) (simp add: ne)
  have "is_json q \<Longrightarrow> q \<noteq> ?t" for q using tmp_no_skill by blast
  then have listing: "discover_skills pc (dput ?t v d) = discover_skills pc d" for v
    by (intro discover_cong filter_json_tmp allI impI) simp
  have "load_skill pc (sk_name sk) (ddel ?t (dput ?p (Doc (skill_payload now sk)) d))
      = Inr (sk\<lparr>sk_created := if sk_created sk = [] then now else sk_created sk\<rparr>)"
    using re val ne skill_of_saved[OF val arr] by (simp add: load_skill_def skill_file_def NAME_RE_nonempty)
  moreover have "load_skill pc n (ddel ?t (dput ?p v d)) = load_skill pc n d" if "n \<noteq> sk_name sk" for n v
    by (rule load_skill_cong) (use that ne in auto)
  ultimately show ?thesis using save tmp listing saved by (auto split: if_splits)
qed

text \<open>
  C37. What is saved is what is loaded, and nothing else changes. Saving a valid skill and loading it by its name gives the
  same frames per second, trajectories, gripper commands, provenance and creation time (the time of the save where it had
  none), bit for bit, whatever was in the directory, and every other skill loads as before; a save that fails
  while writing or replacing leaves every skill and the listing as they were.
\<close>

theorem skill_save_load:
  assumes val: "skill_validate sk = Inr ()" and arr: "\<forall>(s, a) \<in> set (sk_q sk). nd_ok a"
    and save: "save_skill now wrote replaced sk d = (r, d')"
  shows "(\<forall>path. r = Inr path \<longrightarrow>
        load_skill pc (sk_name sk) d' = Inr (sk\<lparr>sk_created := if sk_created sk = [] then now else sk_created sk\<rparr>)
        \<and> (\<forall>n. n \<noteq> sk_name sk \<longrightarrow> load_skill pc n d' = load_skill pc n d))
    \<and> (\<forall>e. r = Inl e \<longrightarrow> (\<forall>n. load_skill pc n d' = load_skill pc n d) \<and> discover_skills pc d' = discover_skills pc d)
    \<and> ((\<exists>path. r = Inr path) \<longleftrightarrow> wrote \<and> replaced)"
  by (rule save_skill_effects[OF assms])

section \<open>Renaming and listing\<close>

lemma nd_stack_ok:
  assumes "nd_stack ys = Inr a" "\<forall>y \<in> set ys. nd_ok y"
  shows "nd_ok a"
proof (cases "ys = []")
  case False
  have len: "length (concat (map nd_data zs)) = length zs * n" if "\<forall>y \<in> set zs. length (nd_data y) = n" for zs n
    using that by (induction zs) auto
  define same where "same \<longleftrightarrow> (\<forall>y \<in> set ys. nd_shape y = nd_shape (hd ys))"
  have "nd_stack ys = (if same then Inr \<lparr>nd_shape = length ys # nd_shape (hd ys), nd_data = concat (map nd_data ys)\<rparr> else Inl ValueError)"
    using False by (simp only: nd_stack_def same_def if_False)
  then have a: "a = \<lparr>nd_shape = length ys # nd_shape (hd ys), nd_data = concat (map nd_data ys)\<rparr>" and same
    using assms(1) by (auto split: if_splits)
  then have "\<forall>y \<in> set ys. length (nd_data y) = prod_list (nd_shape (hd ys))" using assms(2) unfolding nd_ok_def same_def by metis
  from len[OF this] show ?thesis by (simp add: nd_ok_def a)
qed (use assms(1) in \<open>auto simp: nd_stack_def nd_ok_def\<close>)

lemma asarray_ok: "asarray pc v = Inr a \<Longrightarrow> nd_ok a"
proof (induction pc v arbitrary: a rule: asarray.induct)
  case (1 pc xs)
  then obtain ys where ys: "mapR (asarray pc) xs = Inr ys" "nd_stack ys = Inr a" by auto
  have "\<forall>y \<in> set ys. nd_ok y" using mapR_mem[OF ys(1)] "1.IH" by blast
  then show ?case by (rule nd_stack_ok[OF ys(2)])
qed (auto simp: nd_ok_def)

lemma load_skill_ok:
  assumes "load_skill pc n d = Inr sk"
  shows "skill_validate sk = Inr () \<and> (\<forall>(s, a) \<in> set (sk_q sk). nd_ok a) \<and> NAME_RE n"
proof -
  obtain p where p: "skill_of_payload pc n p = Inr sk" "skill_validate sk = Inr ()" "NAME_RE n"
    using assms by (auto simp: load_skill_def skill_file_def split: if_splits option.splits skill_doc.splits)
  obtain qs where qs: "mapR (\<lambda>(s, a). rbind (asarray pc a) (\<lambda>b. Inr (s, b))) qs = Inr (sk_q sk)"
    using p(1) by (auto simp: skill_of_payload_def split: if_splits)
  have "nd_ok a" if "(s, a) \<in> set (sk_q sk)" for s a
    using mapR_mem[OF qs that] by (auto dest: asarray_ok)
  then show ?thesis using p by blast
qed

lemma load_skill_missing: "dget d (n @ ''.json'') = None \<Longrightarrow> load_skill pc n d = Inl ValueError"
  by (cases "skill_file n") (auto simp: load_skill_def skill_file_def split: if_splits)

text \<open>
  Renaming moves a skill and never clobbers one. A rename to a name that exists is refused with the directory as it was;
  one that succeeds leaves the same trajectory under the new name, none under the old one, and every other
  skill as it was.
\<close>

theorem rename_moves:
  assumes ren: "rename_skill pc now wrote replaced old new d = (r, d')" and diff: "old \<noteq> new"
  shows "(\<forall>path. r = Inr path \<longrightarrow> (\<exists>sk. load_skill pc old d = Inr sk \<and> dget d (new @ ''.json'') = None
        \<and> load_skill pc new d' = Inr (sk\<lparr>sk_name := new, sk_created := if sk_created sk = [] then now else sk_created sk\<rparr>)
        \<and> load_skill pc old d' = Inl ValueError
        \<and> (\<forall>n. n \<noteq> old \<and> n \<noteq> new \<longrightarrow> load_skill pc n d' = load_skill pc n d)))
    \<and> (dget d (new @ ''.json'') \<noteq> None \<longrightarrow> (\<exists>e. r = Inl e) \<and> d' = d)"
proof (cases "\<exists>sk. skill_file old = Inr (old @ ''.json'') \<and> skill_file new = Inr (new @ ''.json'') \<and> load_skill pc old d = Inr sk")
  case False
  then have "rename_skill pc now wrote replaced old new d = (case r of Inl e \<Rightarrow> Inl e | Inr p \<Rightarrow> Inl ValueError, d)"
    using ren by (auto simp: rename_skill_def skill_file_def split: sum.splits if_splits)
  then show ?thesis using ren by (auto split: sum.splits)
next
  case True
  then obtain sk where sk: "skill_file old = Inr (old @ ''.json'')" "skill_file new = Inr (new @ ''.json'')" "load_skill pc old d = Inr sk"
    by blast
  let ?sk = "sk\<lparr>sk_name := new\<rparr>"
  show ?thesis
  proof (cases "dget d (new @ ''.json'')")
    case (Some doc)
    then show ?thesis using ren diff sk by (auto simp: rename_skill_def)
  next
    case None
    obtain q d1 where sv: "save_skill now wrote replaced ?sk d = (q, d1)" by fastforce
    then have eq: "(r, d') = (case q of Inl e \<Rightarrow> (Inl e, d1) | Inr path \<Rightarrow> (Inr path, ddel (old @ ''.json'') d1))"
      using ren diff sk None by (auto simp: rename_skill_def split: sum.splits)
    have val: "skill_validate ?sk = Inr ()" "\<forall>(s, a) \<in> set (sk_q ?sk). nd_ok a"
      using load_skill_ok[OF sk(3)] sk(2) by (auto simp: skill_validate_def skill_file_def split: if_splits)
    note kept = save_skill_effects[OF val sv, of pc]
    have other: "load_skill pc n (ddel (old @ ''.json'') d1) = load_skill pc n d1" if "n \<noteq> old" for n
      by (rule load_skill_cong) (use that in simp)
    show ?thesis using None kept eq sk(3) other diff load_skill_missing[of "ddel (old @ ''.json'') d1" old pc]
      by (auto split: sum.splits)
  qed
qed

text \<open>
  The listing shows exactly the readable skills, unless a document breaks it. If every file either loads or fails with
  \<^verbatim>\<open>ValueError\<close>, the listing is the loadable files in the order of their names and fails on none; but one file with
  a proper skill name whose JSON document is not an object (a list, a number, a string, null) makes the whole listing raise, whatever
  the other files hold.
\<close>

theorem discover_lists_or_breaks:
  "((\<forall>p \<in> set (dkeys d). \<forall>e. is_json p \<longrightarrow> load_skill pc (path_stem p) d = Inl e \<longrightarrow> e = ValueError) \<longrightarrow>
      discover_skills pc d = Inr (List.map_filter (\<lambda>p. case load_skill pc (path_stem p) d of Inl e \<Rightarrow> None | Inr sk \<Rightarrow> Some (skill_info_of p sk))
        (sort (filter is_json (dkeys d)))))
   \<and> (\<forall>n v. NAME_RE n \<longrightarrow> dget d (n @ ''.json'') = Some (Doc v) \<longrightarrow> (\<forall>fields. v \<noteq> VObj fields) \<longrightarrow>
      (\<exists>e. e \<noteq> ValueError \<and> discover_skills pc d = Inl e))"
proof -
  have good: "discover_each pc d ps
      = Inr (List.map_filter (\<lambda>p. case load_skill pc (path_stem p) d of Inl e \<Rightarrow> None | Inr sk \<Rightarrow> Some (skill_info_of p sk)) ps)"
    if "\<forall>p \<in> set ps. \<forall>e. load_skill pc (path_stem p) d = Inl e \<longrightarrow> e = ValueError" for ps
    using that by (induction ps) (auto simp: map_filter_simps split: sum.splits)
  have bad: "\<exists>e. e \<noteq> ValueError \<and> discover_each pc d ps = Inl e"
    if "\<exists>p \<in> set ps. load_skill pc (path_stem p) d = Inl AttributeError" for ps
    using that by (induction ps) (fastforce simp: rbind_eq_Inl split: sum.splits)+
  have "\<exists>e. e \<noteq> ValueError \<and> discover_skills pc d = Inl e"
    if h: "NAME_RE n" "dget d (n @ ''.json'') = Some (Doc v)" "\<forall>fields. v \<noteq> VObj fields" for n v
  proof -
    have "jget v ''version'' = Inl AttributeError" using h(3) by (cases v) auto
    then have "load_skill pc n d = Inl AttributeError"
      using h NAME_RE_nonempty by (auto simp: load_skill_def skill_file_def skill_of_payload_def)
    moreover have "n @ ''.json'' \<in> set (sort (filter is_json (dkeys d)))" "path_stem (n @ ''.json'') = n"
      using dget_mem[OF h(2)] by (force simp: is_json_def path_stem_def)+
    ultimately show ?thesis using bad unfolding discover_skills_def by metis
  qed
  then show ?thesis using good[of "sort (filter is_json (dkeys d))"] by (auto simp: discover_skills_def)
qed

text \<open>
  Skill names cannot leave the skills directory. A file of a skill has no path separator and is not hidden; deleting
  touches no other file, and saving and renaming touch only the files of the two names and the temporary file.
\<close>

theorem skill_paths_confined:
  "(\<forall>path. skill_file name = Inr path \<longrightarrow> CHR ''/'' \<notin> set path \<and> hd path \<noteq> CHR ''.'')
   \<and> (\<forall>p. p \<noteq> name @ ''.json'' \<longrightarrow> dget (snd (delete_skill name d)) p = dget d p)
   \<and> (\<forall>p. p \<noteq> sk_name sk @ ''.json'' \<and> p \<noteq> sk_name sk @ ''.json.tmp'' \<longrightarrow> dget (snd (save_skill now wrote replaced sk d)) p = dget d p)
   \<and> (\<forall>p. p \<notin> {old @ ''.json'', new @ ''.json'', new @ ''.json.tmp''} \<longrightarrow> dget (snd (rename_skill pc now wrote replaced old new d)) p = dget d p)"
proof -
  have save: "dget (snd (save_skill now wrote replaced s d)) p = dget d p"
    if "p \<noteq> sk_name s @ ''.json''" "p \<noteq> sk_name s @ ''.json.tmp''" for p s
    using that by (auto simp: save_skill_def skill_file_def Let_def split: sum.splits if_splits)
  have sl: "CHR ''/'' \<notin> set (n @ ''.json'') \<and> hd (n @ ''.json'') \<noteq> CHR ''.''" if "NAME_RE n" for n
  proof (cases n)
    case (Cons c cs)
    then have c: "ascii_alnum c" "list_all stem_char (if cs \<noteq> [] \<and> last cs = CHR 0x0A then butlast cs else cs)"
      using that by (auto simp: NAME_RE_def)
    have "x = CHR 0x0A \<or> stem_char x" if "x \<in> set cs" for x
      using c(2) that by (cases cs rule: rev_cases) (auto simp: list_all_iff split: if_splits)
    moreover have "\<not> stem_char CHR ''/''" by (simp add: stem_char_def ascii_alnum_def less_eq_char_def)
    ultimately have "CHR ''/'' \<notin> set cs" by force
    then show ?thesis using c(1) Cons by (auto simp: ascii_alnum_def less_eq_char_def)
  qed (use that NAME_RE_nonempty in blast)
  have "dget (snd (rename_skill pc now wrote replaced old new d)) p = dget d p"
    if "p \<notin> {old @ ''.json'', new @ ''.json'', new @ ''.json.tmp''}" for p
    using that save[of p "_\<lparr>sk_name := new\<rparr>"]
    by (auto simp: rename_skill_def skill_file_def split: sum.splits if_splits prod.splits) (metis snd_conv)+
  then show ?thesis using save sl by (auto simp: skill_file_def delete_skill_def split: if_splits)
qed

section \<open>Taught trajectories\<close>

lemma split_dots_plain: "CHR ''.'' \<notin> set a \<Longrightarrow> split_dots a = [a]"
  by (induction a) auto

lemma split_dots_join: "CHR ''.'' \<notin> set a \<Longrightarrow> split_dots (a @ CHR ''.'' # b) = a # split_dots b"
  by (induction a) auto

lemma nat_str_no_dot: "CHR ''.'' \<notin> set (nat_str n)"
proof (induction n rule: nat_str.induct)
  case (1 n)
  have "char_of (48 + k) \<noteq> CHR ''.''" if "k < 10" for k :: nat
  proof
    assume "char_of (48 + k) = CHR ''.''"
    then have "(of_char (char_of (48 + k)) :: nat) = of_char CHR ''.''" by (rule arg_cong)
    then show False using that by (simp del: of_char_eq_iff)
  qed
  from this[of n] this[of "n mod 10"] show ?case using 1 by (subst nat_str.simps) auto
qed

lemma q_column_indexed:
  assumes "CHR ''.'' \<notin> set side" "CHR ''.'' \<notin> set sig"
  shows "q_column (side @ ''.'' @ sig @ ''.'' @ nat_str i) = (if sig = ''q'' then Some side else None)"
proof -
  have "split_dots (side @ ''.'' @ sig @ ''.'' @ nat_str i) = [side, sig, nat_str i]"
    using split_dots_join[OF assms(1)] split_dots_join[OF assms(2)] split_dots_plain[OF nat_str_no_dot] by simp
  then show ?thesis by (simp add: q_column_def)
qed

text \<open>The columns of a side, in order.\<close>

definition q_cols :: "string \<Rightarrow> string list \<Rightarrow> nat list" where
  "q_cols side names = filter (\<lambda>i. q_column (names ! i) = Some side) [0..<length names]"

lemma state_q_index_get:
  "dget (state_q_index names) side = (if q_cols side names = [] then None else Some (q_cols side names))"
proof (induction names rule: rev_induct)
  case (snoc x xs)
  have cols: "q_cols s (xs @ [x]) = q_cols s xs @ (if q_column x = Some s then [length xs] else [])" for s
    by (auto simp: q_cols_def nth_append intro!: filter_cong)
  have step: "state_q_index (xs @ [x]) = (case q_column x of None \<Rightarrow> state_q_index xs
      | Some s \<Rightarrow> dput s ((case dget (state_q_index xs) s of None \<Rightarrow> [] | Some js \<Rightarrow> js) @ [length xs]) (state_q_index xs))"
    by (simp add: state_q_index_def enumerate_append_eq split: option.splits)
  show ?case
  proof (cases "q_column x")
    case (Some s)
    then show ?thesis using snoc cols[of side] step by (auto simp: update_conv')
  qed (use snoc cols[of side] step in simp)
qed (simp add: state_q_index_def q_cols_def)

lemma upt_shift: "map ((+) a) [0..<n] = [a..<a + n]"
  by (induction n) auto

lemma q_cols_append: "q_cols side (xs @ ys) = q_cols side xs @ map ((+) (length xs)) (q_cols side ys)"
proof -
  have a: "filter (\<lambda>i. q_column ((xs @ ys) ! i) = Some side) [0..<length xs] = q_cols side xs"
    unfolding q_cols_def by (rule filter_cong) (auto simp: nth_append)
  have "filter (\<lambda>i. q_column ((xs @ ys) ! i) = Some side) [length xs..<length xs + length ys] = map ((+) (length xs)) (q_cols side ys)"
    unfolding upt_shift[symmetric] by (simp add: filter_map q_cols_def comp_def)
  then show ?thesis using a upt_add_eq_append[of 0 "length xs" "length ys"] by (simp add: q_cols_def)
qed

lemma q_cols_indexed:
  assumes "CHR ''.'' \<notin> set s" "CHR ''.'' \<notin> set g"
  shows "q_cols side (indexed_names s g n) = (if s = side \<and> g = ''q'' then [0..<n] else [])"
proof -
  have "q_column (indexed_names s g n ! i) = (if g = ''q'' then Some s else None)" if "i < n" for i
    using that q_column_indexed[OF assms, of i] by (simp add: indexed_names_def)
  then show ?thesis unfolding q_cols_def by (auto simp: filter_empty_conv filter_id_conv)
qed

definition q_inv :: "dfc_layout \<Rightarrow> bool" where
  "q_inv ly \<longleftrightarrow> (\<forall>side. q_cols side (ly_state_names ly)
     = (case dget (ly_state ly) (side, ''q'') of None \<Rightarrow> [] | Some (a, b) \<Rightarrow> [a..<b]))"

lemma add_state_block_q:
  assumes "add_state_block arms (s, g) ly = Inr ly'" "q_inv ly" "state_ok ly keys" "(s, g) \<notin> set keys"
    "CHR ''.'' \<notin> set s" "CHR ''.'' \<notin> set g"
  shows "q_inv ly'"
proof -
  obtain arm sc where a: "ditem arms s = Inr arm" "dget (ar_streams arm) g = Some sc"
    using assms(1) by (auto simp: add_state_block_def split: option.splits)
  let ?n = "nat (sc_dim sc)"
  have l: "ly_state_names ly' = ly_state_names ly @ indexed_names s g ?n"
      "ly_state ly' = dput (s, g) (ly_state_dim ly, ly_state_dim ly + ?n) (ly_state ly)"
    using assms(1) by (auto simp: add_state_block_def a Let_def)
  have new: "dget (ly_state ly) (s, g) = None" "length (ly_state_names ly) = ly_state_dim ly"
    using assms(3,4) by (auto simp: state_ok_def dget_None_keys)
  show ?thesis using assms(2) new q_cols_indexed[OF assms(5,6)] by (auto simp: q_inv_def l q_cols_append upt_shift)
qed

lemma add_state_blocks_q:
  assumes "foldR (add_state_block arms) ps ly = Inr ly'" "q_inv ly" "state_ok ly keys" "distinct (keys @ ps)"
    "\<forall>(s, g) \<in> set ps. CHR ''.'' \<notin> set s \<and> CHR ''.'' \<notin> set g"
  shows "q_inv ly'"
  using assms
proof (induction ps arbitrary: ly keys)
  case (Cons p ps)
  obtain s g where p: "p = (s, g)" by (cases p)
  obtain l1 where l1: "add_state_block arms (s, g) ly = Inr l1" "foldR (add_state_block arms) ps l1 = Inr ly'"
    using Cons.prems(1) by (auto simp: p)
  have "(s, g) \<notin> set keys" using Cons.prems(4) by (simp add: p)
  then have "state_ok l1 (keys @ [(s, g)])" "q_inv l1"
    using add_state_block_ok[OF l1(1) Cons.prems(3)] add_state_block_q[OF l1(1) Cons.prems(2,3)] Cons.prems(5) by (auto simp: p)
  then show ?case using Cons.IH[OF l1(2)] Cons.prems(4,5) by (simp add: p)
qed simp

lemma mk_layout_q:
  assumes "mk_layout arms signals action_sides = Inr ly" "distinct (dkeys arms)" "distinct signals"
    "\<forall>n \<in> set (dkeys arms) \<union> set signals. CHR ''.'' \<notin> set n"
  shows "q_inv ly"
proof -
  let ?ss = "sorted_sides (dkeys arms)"
  let ?as = "filter (\<lambda>s. s \<in> set action_sides) ?ss"
  let ?e = "empty_layout signals ?ss ?as"
  obtain l1 where l1: "foldR (add_state_block arms) (List.product ?ss signals) ?e = Inr l1"
      "foldR (add_action_side arms) ?as l1 = Inr ly"
    using assms(1) by (auto simp: mk_layout_def Let_def split: if_splits)
  have e: "state_ok ?e []" "q_inv ?e"
    by (simp_all add: state_ok_def empty_layout_def state_stream_names_def q_inv_def q_cols_def)
  have d: "distinct ([] @ List.product ?ss signals)" using assms(2,3) by (simp add: distinct_product)
  have "q_inv l1" using add_state_blocks_q[OF l1(1) e(2,1) d] assms(4) by auto
  moreover have "ly_state m' = ly_state m \<and> ly_state_names m' = ly_state_names m"
    if "foldR (add_action_side arms) ss m = Inr m'" for ss m m'
    using that by (induction ss arbitrary: m) (auto simp: add_action_side_def Let_def)
  ultimately show ?thesis using l1(2) by (simp add: q_inv_def)
qed

lemma slice_rows:
  assumes "\<forall>ys \<in> set yss. length ys = n" "f < length yss"
  shows "slice (f * n) (f * n + n) (concat yss) = yss ! f"
proof -
  have len: "length (concat zss) = length zss * n" if "\<forall>ys \<in> set zss. length ys = n" for zss :: "'a list list"
    using that by (induction zss) auto
  have split: "concat yss = concat (take f yss) @ yss ! f @ concat (drop (Suc f) yss)"
    using assms(2) by (metis concat.simps(2) concat_append id_take_nth_drop)
  have "\<forall>ys \<in> set (take f yss). length ys = n" "length (yss ! f) = n"
    using assms by (auto dest: in_set_takeD)
  then show ?thesis using len[of "take f yss"] assms(2) by (subst split, subst slice_middle) (auto simp: min_def)
qed

lemma map_nth_slice: "b \<le> length r \<Longrightarrow> map ((!) r) [a..<b] = slice a b r"
  by (rule nth_equalityI) (auto simp: slice_def)

text \<open>
  Teaching reads back what was recorded. For an episode stored with the columns of the recording layout (sides and
  signals named without dots), a taught skill drives exactly the sides whose joint positions were recorded, with as many frames as
  the episode, and every frame is the joint block of that side in the recorded state vector.
\<close>

theorem taught_is_recorded:
  assumes ly: "mk_layout arms signals action_sides = Inr ly" "distinct (dkeys arms)" "distinct signals"
      "\<forall>n \<in> set (dkeys arms) \<union> set signals. CHR ''.'' \<notin> set n"
    and names: "ep_state_names ep = ly_state_names ly" and width: "\<forall>r \<in> set (ep_states ep). length r = ly_state_dim ly"
    and taught: "skill_from_episode now repo_id k name ep = Inr sk"
  shows "(\<forall>side a b. dget (ly_state ly) (side, ''q'') = Some (a, b) \<and> a < b \<longrightarrow>
      (\<exists>arr. dget (sk_q sk) side = Some arr \<and> nd_shape arr = [length (ep_states ep), b - a]
        \<and> (\<forall>f < length (ep_states ep). nd_row arr f = slice a b (ep_states ep ! f))))
    \<and> (\<forall>side \<in> set (sk_sides sk). \<exists>a b. dget (ly_state ly) (side, ''q'') = Some (a, b) \<and> a < b)"
proof -
  let ?ix = "state_q_index (ep_state_names ep)"
  have q: "q_inv ly" "state_ok ly (List.product (sorted_sides (dkeys arms)) signals)" using mk_layout_q[OF ly] mk_layout_ok(1)[OF ly(1-3)] by auto
  have col: "mapR (\<lambda>(side, idx). rbind (columns idx (ep_states ep)) (\<lambda>a. Inr (side, a))) ?ix = Inr (sk_q sk)"
    using taught by (auto simp: skill_from_episode_def Let_def split: if_splits)
  have get: "dget ys side = (case dget xs side of None \<Rightarrow> None | Some idx \<Rightarrow> (case columns idx (ep_states ep) of Inl e \<Rightarrow> None | Inr a \<Rightarrow> Some a))"
    if "mapR (\<lambda>(side, idx). rbind (columns idx (ep_states ep)) (\<lambda>a. Inr (side, a))) xs = Inr ys" for xs ys and side :: string
    using that by (induction xs arbitrary: ys) auto
  have idx: "dget ?ix side = (case dget (ly_state ly) (side, ''q'') of None \<Rightarrow> None | Some (a, b) \<Rightarrow> if a < b then Some [a..<b] else None)" for side
    using q(1) by (auto simp: state_q_index_get names q_inv_def split: option.splits)
  have "\<exists>arr. dget (sk_q sk) side = Some arr \<and> nd_shape arr = [length (ep_states ep), b - a]
      \<and> (\<forall>f < length (ep_states ep). nd_row arr f = slice a b (ep_states ep ! f))"
    if h: "dget (ly_state ly) (side, ''q'') = Some (a, b)" "a < b" for side a b
  proof -
    have b: "b \<le> ly_state_dim ly" using q(2) tiles_bounds[of 0 "ly_state ly" "ly_state_dim ly" "(side, ''q'')" a b] dget_mem[OF h(1)]
      by (auto simp: state_ok_def)
    let ?arr = "\<lparr>nd_shape = [length (ep_states ep), b - a], nd_data = concat (map (\<lambda>r. map ((!) r) [a..<b]) (ep_states ep))\<rparr>"
    have "columns [a..<b] (ep_states ep) = Inr ?arr" using b width by (auto simp: columns_def)
    then have "dget (sk_q sk) side = Some ?arr" using get[OF col] idx h by simp
    moreover have "nd_row ?arr f = slice a b (ep_states ep ! f)" if "f < length (ep_states ep)" for f
      using that slice_rows[of "map (\<lambda>r. map ((!) r) [a..<b]) (ep_states ep)" "b - a" f] b width
      by (simp add: nd_row_def Let_def map_nth_slice)
    ultimately show ?thesis by auto
  qed
  moreover have "\<exists>a b. dget (ly_state ly) (side, ''q'') = Some (a, b) \<and> a < b" if "side \<in> set (sk_sides sk)" for side
    using that get[OF col, of side] idx[of side] dget_Some_keys[of "sk_q sk" side]
    by (auto simp: sk_sides_def split: option.splits if_splits)
  ultimately show ?thesis by blast
qed

section \<open>A stored skill\<close>

definition demo_conv :: py_conv where
  "demo_conv = \<lparr>pc_int = (\<lambda>t. Inl ValueError), pc_float = (\<lambda>t. Inl ValueError), pc_str = (\<lambda>v. []), pc_leaf = (\<lambda>v. Inl ValueError),
     pc_dict = (\<lambda>xs. Inl ValueError)\<rparr>"

definition demo_skill :: skill where
  "demo_skill = \<lparr>sk_name = ''pour'', sk_fps = 10, sk_q = [(''left'', \<lparr>nd_shape = [3, 1], nd_data = [0, 1 / 2, 1]\<rparr>)],
     sk_gripper = [(''left'', [0, 1, 1])], sk_source = [], sk_created = []\<rparr>"

definition demo_skills :: skill_dir where
  "demo_skills = snd (save_skill ''now'' True True demo_skill [])"

lemma demo_skill_ok: "skill_validate demo_skill = Inr ()" "\<forall>(s, a) \<in> set (sk_q demo_skill). nd_ok a"
  by code_simp (simp add: demo_skill_def nd_ok_def)

theorem skill_save_load_witness:
  "save_skill ''now'' True True demo_skill [] = (Inr ''pour.json'', demo_skills)
   \<and> load_skill demo_conv ''pour'' demo_skills = Inr (demo_skill\<lparr>sk_created := ''now''\<rparr>)"
proof -
  have sv: "save_skill ''now'' True True demo_skill [] = (Inr ''pour.json'', demo_skills)" by code_simp
  have "sk_name demo_skill = ''pour''" "sk_created demo_skill = []" by (simp_all add: demo_skill_def)
  then show ?thesis using skill_save_load[OF demo_skill_ok sv, of demo_conv] sv by simp
qed

theorem rename_moves_witness:
  "load_skill demo_conv ''wipe'' (snd (rename_skill demo_conv ''later'' True True ''pour'' ''wipe'' demo_skills))
     = Inr (demo_skill\<lparr>sk_name := ''wipe'', sk_created := ''now''\<rparr>)"
proof -
  obtain r d' where r: "rename_skill demo_conv ''later'' True True ''pour'' ''wipe'' demo_skills = (r, d')" by fastforce
  have "fst (rename_skill demo_conv ''later'' True True ''pour'' ''wipe'' demo_skills) = Inr ''wipe.json''" by code_simp
  then have "r = Inr ''wipe.json''" using r by simp
  moreover have "load_skill demo_conv ''pour'' demo_skills = Inr (demo_skill\<lparr>sk_created := ''now''\<rparr>)" by code_simp
  ultimately show ?thesis using rename_moves[OF r] r by simp
qed

theorem discover_lists_or_breaks_witness:
  "discover_skills demo_conv demo_skills = Inr [skill_info_of ''pour.json'' (demo_skill\<lparr>sk_created := ''now''\<rparr>)]
   \<and> (\<exists>e. e \<noteq> ValueError \<and> discover_skills demo_conv ((''zip.json'', Doc (VArr [])) # demo_skills) = Inl e)"
proof -
  have "NAME_RE ''zip''" by code_simp
  then have "\<exists>e. e \<noteq> ValueError \<and> discover_skills demo_conv ((''zip.json'', Doc (VArr [])) # demo_skills) = Inl e"
    using discover_lists_or_breaks[THEN conjunct2, rule_format, of "''zip''" "(''zip.json'', Doc (VArr [])) # demo_skills" "VArr []" demo_conv]
    by simp
  moreover have "discover_skills demo_conv demo_skills = Inr [skill_info_of ''pour.json'' (demo_skill\<lparr>sk_created := ''now''\<rparr>)]" by code_simp
  ultimately show ?thesis by blast
qed

theorem skill_paths_confined_witness:
  "skill_file ''pour'' = Inr ''pour.json'' \<and> hd ''pour.json'' \<noteq> CHR ''.''
   \<and> dget (snd (delete_skill ''wipe'' demo_skills)) ''pour.json'' = dget demo_skills ''pour.json''"
proof -
  have f: "skill_file ''pour'' = Inr ''pour.json''" by code_simp
  show ?thesis
    using f skill_paths_confined[of "''pour''", THEN conjunct1] skill_paths_confined[of "''wipe''" demo_skills, THEN conjunct2, THEN conjunct1]
    by simp
qed

theorem taught_is_recorded_witness:
  "\<exists>sk arr. skill_from_episode ''now'' ''repo'' 0 ''pour''
       \<lparr>ep_state_names = ly_state_names bimanual_qpos, ep_action_names = ly_action_names bimanual_qpos, ep_states = [map real [0..<14]],
        ep_actions = [map real [0..<16]], ep_fps = 10, ep_tasks = []\<rparr> = Inr sk
     \<and> dget (sk_q sk) ''right'' = Some arr \<and> nd_row arr 0 = map real [7..<14]"
proof -
  let ?ep = "\<lparr>ep_state_names = ly_state_names bimanual_qpos, ep_action_names = ly_action_names bimanual_qpos, ep_states = [map real [0..<14]],
        ep_actions = [map real [0..<16]], ep_fps = 10, ep_tasks = []\<rparr>"
  obtain sk where sk: "skill_from_episode ''now'' ''repo'' 0 ''pour'' ?ep = Inr sk"
  proof -
    have "case skill_from_episode ''now'' ''repo'' 0 ''pour'' ?ep of Inl e \<Rightarrow> False | Inr x \<Rightarrow> True" by code_simp
    then show ?thesis using that by (auto split: sum.splits)
  qed
  have l: "dget (ly_state bimanual_qpos) (''right'', ''q'') = Some (7, 14)" "ly_state_dim bimanual_qpos = 14" by code_simp+
  have all: "\<forall>side a b. dget (ly_state bimanual_qpos) (side, ''q'') = Some (a, b) \<and> a < b \<longrightarrow>
      (\<exists>arr. dget (sk_q sk) side = Some arr \<and> nd_row arr 0 = slice a b (map real [0..<14]))"
    using taught_is_recorded[OF mk_layout_two_arms _ _ _ _ _ sk] l(2) by fastforce
  have "\<exists>arr. dget (sk_q sk) ''right'' = Some arr \<and> nd_row arr 0 = slice 7 14 (map real [0..<14])"
    using all[rule_format, of "''right''" 7 14] l(1) by simp
  moreover have "slice 7 14 (map real [0..<14]) = map real [7..<14]" by code_simp
  ultimately show ?thesis using sk by auto
qed

end
