(* ===== verification/Skill_Replay.thy ===== *)
theory Skill_Replay
  imports Skill_Store
begin

text \<open>
  The skill-replay loop and its process node (\<^verbatim>\<open>SkillLoop\<close>, \<^verbatim>\<open>SkillNode\<close> of \<^verbatim>\<open>skills.py\<close>): the first frame is
  posted until every driven arm has reached it, then the frames follow the wall clock. Shown: what is posted and in which
  order, that nothing but the first frame is posted before the arms are there, that both loops end, and what the node
  leaves behind.
\<close>

section \<open>The loop\<close>

record skill_loop =
  lp_skill :: skill
  lp_arms :: "(string, teleop_arm) dict"
  lp_fps :: real
  lp_tolerance :: real
  lp_timeout_s :: real
  lp_settle_s :: real

definition mk_skill_loop :: "skill \<Rightarrow> (string, teleop_arm) dict \<Rightarrow> real option \<Rightarrow> real \<Rightarrow> real \<Rightarrow> real \<Rightarrow> skill_loop res" where
  "mk_skill_loop sk arms frequency_hz tolerance timeout_s settle_s =
     (let driven = filter (\<lambda>(s, a). s \<in> set (sk_sides sk)) arms;
          fps = (case frequency_hz of Some f \<Rightarrow> if f = 0 then sk_fps sk else f | None \<Rightarrow> sk_fps sk) in
      if driven = [] then Inl ValueError
      else if fps \<le> 0 then Inl ValueError
      else Inr \<lparr>lp_skill = sk, lp_arms = driven, lp_fps = fps, lp_tolerance = tolerance, lp_timeout_s = timeout_s,
                lp_settle_s = settle_s\<rparr>)"

text \<open>The loop's state: the brain it posts through, its frame counter, and what was posted (frame index, side, setpoint).\<close>

record replay_state =
  rp_brain :: brain_state
  rp_frames_posted :: int
  rp_posts :: "(int \<times> string \<times> real list) list"

text \<open>Row \<open>j\<close> of a trajectory, with Python's negative indices.\<close>

definition traj_row :: "nd \<Rightarrow> int \<Rightarrow> real list res" where
  "traj_row a j = rbind (py_index j [0..<nd_shape a ! 0]) (\<lambda>i. Inr (nd_row a i))"

definition frame_setpoint :: "skill_loop \<Rightarrow> int \<Rightarrow> string \<times> teleop_arm \<Rightarrow> real list res" where
  "frame_setpoint lp index p =
     rbind (ditem (sk_q (lp_skill lp)) (fst p)) (\<lambda>traj.
     rbind (traj_row traj (min index (int (nd_shape traj ! 0) - 1))) (\<lambda>q_d.
     pack_action (ta_control (snd p)) q_d None))"

definition post_side :: "skill_loop \<Rightarrow> int \<Rightarrow> int \<Rightarrow> string \<times> teleop_arm \<Rightarrow> replay_state \<Rightarrow> unit res \<times> replay_state" where
  "post_side lp index now_ns p st =
     (case frame_setpoint lp index p of
        Inl e \<Rightarrow> (Inl e, st)
      | Inr sp \<Rightarrow>
          (case command (fst p) sp now_ns (rp_brain st) of
             (Inl e, b) \<Rightarrow> (Inl e, st\<lparr>rp_brain := b\<rparr>)
           | (Inr u, b) \<Rightarrow> (Inr (), st\<lparr>rp_brain := b, rp_posts := rp_posts st @ [(index, fst p, sp)]\<rparr>)))"

definition post :: "skill_loop \<Rightarrow> int \<Rightarrow> int \<Rightarrow> replay_state \<Rightarrow> unit res \<times> replay_state" where
  "post lp index now_ns st = foldE (post_side lp index now_ns) (lp_arms lp) st"

text \<open>A driven side is far while its measured joints are missing or too far from the frame; \<open>latest\<close> is what the brain reads.\<close>

definition is_far :: "skill_loop \<Rightarrow> (string \<Rightarrow> real samples res) \<Rightarrow> int \<Rightarrow> string \<Rightarrow> bool res" where
  "is_far lp latest index side =
     rbind (ditem (sk_q (lp_skill lp)) side) (\<lambda>traj.
     rbind (traj_row traj index) (\<lambda>target.
     rbind (latest (side @ ''/q'')) (\<lambda>s.
     case sm_newest s of
       None \<Rightarrow> Inr True
     | Some q \<Rightarrow> rbind (np_sub (take (length target) q) target) (\<lambda>diff. rbind (linf diff) (\<lambda>worst. Inr (worst > lp_tolerance lp))))))"

definition far_sides :: "skill_loop \<Rightarrow> (string \<Rightarrow> real samples res) \<Rightarrow> int \<Rightarrow> string list res" where
  "far_sides lp latest index =
     foldR (\<lambda>side far. rbind (is_far lp latest index side) (\<lambda>b. Inr (if b then far @ [side] else far))) (dkeys (lp_arms lp)) []"

text \<open>
  One pass of the first loop: the stop event at its head, the time of the post, the readings, the clock; and the stop
  event read after the loop was left.
\<close>

record converge_tick =
  ck_stop :: bool
  ck_ns :: int
  ck_latest :: "string \<Rightarrow> real samples res"
  ck_now :: real
  ck_stop_after :: bool

fun converge :: "skill_loop \<Rightarrow> real \<Rightarrow> converge_tick list \<Rightarrow> replay_state \<Rightarrow> (bool res \<times> replay_state) option" where
  "converge lp deadline [] st = None"
| "converge lp deadline (k # ks) st =
     (if ck_stop k then Some (Inr False, st)
      else case post lp 0 (ck_ns k) st of
        (Inl e, st1) \<Rightarrow> Some (Inl e, st1)
      | (Inr u, st1) \<Rightarrow>
          (case far_sides lp (ck_latest k) 0 of
             Inl e \<Rightarrow> Some (Inl e, st1)
           | Inr [] \<Rightarrow> Some (Inr (\<not> ck_stop_after k), st1)
           | Inr (s # ss) \<Rightarrow> if ck_now k > deadline then Some (Inl RuntimeError, st1) else converge lp deadline ks st1))"

record replay_tick =
  rk_stop :: bool
  rk_now :: real
  rk_ns :: int

definition frame_index :: "skill_loop \<Rightarrow> real \<Rightarrow> int" where
  "frame_index lp elapsed = min (py_trunc (elapsed * lp_fps lp)) (int (sk_frames (lp_skill lp)) - 1)"

definition end_t :: "skill_loop \<Rightarrow> real" where
  "end_t lp = (real (sk_frames (lp_skill lp)) - 1) / lp_fps lp + lp_settle_s lp"

fun replay :: "skill_loop \<Rightarrow> real \<Rightarrow> replay_tick list \<Rightarrow> int \<Rightarrow> replay_state \<Rightarrow> (bool res \<times> replay_state) option" where
  "replay lp t0 [] last_index st = None"
| "replay lp t0 (k # ks) last_index st =
     (if rk_stop k then Some (Inr False, st)
      else let elapsed = rk_now k - t0; index = frame_index lp elapsed in
        case post lp index (rk_ns k) st of
          (Inl e, st1) \<Rightarrow> Some (Inl e, st1)
        | (Inr u, st1) \<Rightarrow>
            let st2 = st1\<lparr>rp_frames_posted := rp_frames_posted st1 + (index - last_index)\<rparr> in
            if elapsed \<ge> end_t lp then Some (Inr True, st2) else replay lp t0 ks index st2)"

definition skill_run ::
    "skill_loop \<Rightarrow> real \<Rightarrow> converge_tick list \<Rightarrow> real \<Rightarrow> replay_tick list \<Rightarrow> replay_state \<Rightarrow> (bool res \<times> replay_state) option" where
  "skill_run lp start cks t0 rks st =
     (case converge lp (start + lp_timeout_s lp) cks st of
        None \<Rightarrow> None
      | Some (Inr True, st1) \<Rightarrow> replay lp t0 rks (- 1) st1
      | Some (r, st1) \<Rightarrow> Some (r, st1))"

section \<open>The node\<close>

definition HORIZON_STREAM :: "string \<Rightarrow> string" where
  "HORIZON_STREAM side = ''eval/'' @ side @ ''/q_horizon''"

definition skill_drive_sides :: "skill \<Rightarrow> (string, teleop_arm) dict \<Rightarrow> string list" where
  "skill_drive_sides sk arms =
     filter (\<lambda>s. case dget arms s of None \<Rightarrow> False | Some a \<Rightarrow> ta_control_enabled a \<and> ct_kind (ta_control a) = ''qpos'')
       (sk_sides sk)"

text \<open>What the node meets on its way, and how its configuration is set.\<close>

record skill_world =
  wk_timeout :: real
  wk_attach_start :: real
  wk_attach :: "real poll list"
  wk_io :: "string \<Rightarrow> leaf \<Rightarrow> io_outcome"
  wk_horizon_io :: "string \<Rightarrow> io_outcome"
  wk_run_id :: string
  wk_pid :: int
  wk_horizon_ns :: int
  wk_frequency_hz :: "real option"
  wk_tolerance :: real
  wk_start_timeout :: real
  wk_settle_s :: real
  wk_start :: real
  wk_converge :: "converge_tick list"
  wk_t0 :: real
  wk_replay :: "replay_tick list"
  wk_close_fails :: "string \<Rightarrow> bool"
  wk_stop_ns :: int

text \<open>The destination ghost of one driven side: a stream with the skill's last row as its only sample.\<close>

type_synonym horizons = "(string \<times> stream_writer) list \<times> real run_store"

definition open_horizon :: "skill \<Rightarrow> skill_world \<Rightarrow> string \<Rightarrow> horizons \<Rightarrow> unit res \<times> horizons" where
  "open_horizon sk wk side hz =
     (case hz of (hs, w) \<Rightarrow>
      case rbind (ditem (sk_q sk) side) (\<lambda>traj.
             rbind (mk_stream_spec (HORIZON_STREAM side) (int (nd_shape traj ! 1)) 16 ''float64'' (Some 1)) (\<lambda>spec. Inr (traj, spec))) of
        Inl e \<Rightarrow> (Inl e, hz)
      | Inr (traj, spec) \<Rightarrow>
          (case writer_create 0 (wk_horizon_io wk side) (wk_run_id wk) STREAMS (wk_pid wk) spec w of
             (Inl e, w1) \<Rightarrow> (Inl e, (hs, w1))
           | (Inr wr, w1) \<Rightarrow>
               (case rbind (traj_row traj (- 1)) (\<lambda>v. writer_write wr v None (wk_horizon_ns wk) w1) of
                  Inl e \<Rightarrow> (Inl e, (hs, w1))
                | Inr (w2, i) \<Rightarrow> (Inr (), (hs @ [(HORIZON_STREAM side, wr)], w2)))))"

text \<open>The \<open>try\<close> with its \<open>finally\<close>: the horizon streams are released, the arms stopped, the brain closed.\<close>

definition skill_hand_back :: "skill_world \<Rightarrow> (string \<times> stream_writer) list \<Rightarrow> brain_state \<Rightarrow> brain_state" where
  "skill_hand_back wk hs bs =
     brain_close (stop_arms (wk_stop_ns wk) (fst bs, fold (release_stream (wk_close_fails wk)) hs (snd bs)))"

definition skill_drive :: "skill \<Rightarrow> (string, teleop_arm) dict \<Rightarrow> skill_world \<Rightarrow> (string \<times> stream_writer) list \<Rightarrow> brain_state
    \<Rightarrow> (unit res \<times> brain_state) option" where
  "skill_drive sk driven wk hs bs =
     (case mk_skill_loop sk driven (wk_frequency_hz wk) (wk_tolerance wk) (wk_start_timeout wk) (wk_settle_s wk) of
        Inl e \<Rightarrow> Some (Inl e, skill_hand_back wk hs bs)
      | Inr lp \<Rightarrow>
          map_option (\<lambda>(r, st). (map_sum id (\<lambda>b. ()) r, skill_hand_back wk hs (rp_brain st)))
            (skill_run lp (wk_start wk) (wk_converge wk) (wk_t0 wk) (wk_replay wk)
               \<lparr>rp_brain = bs, rp_frames_posted = 0, rp_posts = []\<rparr>))"

definition skill_node_run :: "skill \<Rightarrow> (string, teleop_arm) dict \<Rightarrow> skill_world \<Rightarrow> brain_state \<Rightarrow> (unit res \<times> brain_state) option" where
  "skill_node_run sk arms wk bs =
     (let drive = skill_drive_sides sk arms in
      if drive = [] then Some (Inl ValueError, bs)
      else case brain_attach (map (\<lambda>side. side @ ''/q'') drive) (wk_timeout wk) (wk_attach_start wk) (wk_attach wk) bs of
        None \<Rightarrow> None
      | Some (Inl e, b1) \<Rightarrow> if e = AttachAborted then Some (Inr (), brain_close b1) else Some (Inl e, b1)
      | Some (Inr u, b1) \<Rightarrow>
          (case mapR (\<lambda>side. rbind (ditem arms side) (\<lambda>a. rbind (control_specs side (ta_control a)) (\<lambda>sp. Inr (side, sp)))) drive of
             Inl e \<Rightarrow> Some (Inl e, b1)
           | Inr specs \<Rightarrow>
               (case open_control (wk_io wk) (wk_run_id wk) (wk_pid wk) specs b1 of
                  (Inl e, b2) \<Rightarrow> Some (Inl e, b2)
                | (Inr u, b2) \<Rightarrow>
                    (case foldE (open_horizon sk wk) drive ([], snd b2) of
                       (Inl e, (hs, w)) \<Rightarrow> Some (Inl e, (fst b2, w))
                     | (Inr u, (hs, w)) \<Rightarrow> skill_drive sk (List.map_filter (\<lambda>s. map_option (\<lambda>a. (s, a)) (dget arms s)) drive) wk hs (fst b2, w)))))"

section \<open>What a run posts\<close>

definition ok_post :: "skill_loop \<Rightarrow> int \<times> string \<times> real list \<Rightarrow> bool" where
  "ok_post lp x \<longleftrightarrow> (\<exists>arm. (fst (snd x), arm) \<in> set (lp_arms lp) \<and> frame_setpoint lp (fst x) (fst (snd x), arm) = Inr (snd (snd x)))"

definition posted_frame :: "skill_loop \<Rightarrow> int \<Rightarrow> (int \<times> string \<times> real list) list \<Rightarrow> bool" where
  "posted_frame lp i xs \<longleftrightarrow> (\<forall>x \<in> set xs. ok_post lp x \<and> fst x = i)"

lemma post_side_cases:
  assumes "post_side lp i ns p st = (r, st')" "p \<in> set (lp_arms lp)"
  shows "\<exists>l. rp_posts st' = rp_posts st @ l \<and> posted_frame lp i l \<and> rp_frames_posted st' = rp_frames_posted st
    \<and> (r = Inr () \<longrightarrow> fst p \<in> (fst \<circ> snd) ` set l)"
  using assms by (cases p) (auto simp: post_side_def posted_frame_def ok_post_def split: sum.splits prod.splits)

lemma post_sides:
  assumes "foldE (post_side lp i ns) ps st = (r, st')" "set ps \<subseteq> set (lp_arms lp)"
  shows "\<exists>l. rp_posts st' = rp_posts st @ l \<and> posted_frame lp i l \<and> rp_frames_posted st' = rp_frames_posted st
    \<and> (r = Inr () \<longrightarrow> set (dkeys ps) \<subseteq> (fst \<circ> snd) ` set l)"
  using assms
proof (induction ps arbitrary: st)
  case Nil
  then show ?case by (auto simp: posted_frame_def)
next
  case (Cons p ps)
  obtain q s1 where q: "post_side lp i ns p st = (q, s1)" by fastforce
  obtain l where l: "rp_posts s1 = rp_posts st @ l" "posted_frame lp i l" "rp_frames_posted s1 = rp_frames_posted st"
      "q = Inr () \<longrightarrow> fst p \<in> (fst \<circ> snd) ` set l"
    using post_side_cases[OF q] Cons.prems(2) by auto
  show ?case
  proof (cases q)
    case (Inl e)
    then show ?thesis using Cons.prems(1) q l by auto
  next
    case (Inr u)
    then obtain l2 where "rp_posts st' = rp_posts s1 @ l2" "posted_frame lp i l2" "rp_frames_posted st' = rp_frames_posted s1"
        "r = Inr () \<longrightarrow> set (dkeys ps) \<subseteq> (fst \<circ> snd) ` set l2"
      using Cons.IH[of s1] Cons.prems q by auto
    then show ?thesis using l Inr by (intro exI[of _ "l @ l2"]) (auto simp: posted_frame_def)
  qed
qed

lemma post_posts:
  assumes "post lp i ns st = (r, st')"
  shows "\<exists>l. rp_posts st' = rp_posts st @ l \<and> posted_frame lp i l \<and> rp_frames_posted st' = rp_frames_posted st
    \<and> (r = Inr () \<longrightarrow> set (dkeys (lp_arms lp)) \<subseteq> (fst \<circ> snd) ` set l)"
  using post_sides[of lp i ns "lp_arms lp" st r st'] assms by (simp add: post_def)

lemma converge_posts:
  assumes "converge lp deadline ks st = Some (r, st')"
  shows "\<exists>l. rp_posts st' = rp_posts st @ l \<and> posted_frame lp 0 l \<and> rp_frames_posted st' = rp_frames_posted st
    \<and> (r = Inr True \<longrightarrow> (\<exists>k \<in> set ks. far_sides lp (ck_latest k) 0 = Inr []))"
  using assms
proof (induction ks arbitrary: st)
  case (Cons k ks)
  show ?case
  proof (cases "ck_stop k")
    case True
    then show ?thesis using Cons.prems by (auto simp: posted_frame_def)
  next
    case False
    obtain q s1 where q: "post lp 0 (ck_ns k) st = (q, s1)" by fastforce
    obtain l where l: "rp_posts s1 = rp_posts st @ l" "posted_frame lp 0 l" "rp_frames_posted s1 = rp_frames_posted st"
      using post_posts[OF q] by blast
    have rest: ?thesis if h: "converge lp deadline ks s1 = Some (r, st')"
    proof -
      obtain l2 where "rp_posts st' = rp_posts s1 @ l2" "posted_frame lp 0 l2" "rp_frames_posted st' = rp_frames_posted s1"
          "r = Inr True \<longrightarrow> (\<exists>k \<in> set ks. far_sides lp (ck_latest k) 0 = Inr [])"
        using Cons.IH[OF h] by blast
      then show ?thesis using l by (intro exI[of _ "l @ l2"]) (auto simp: posted_frame_def)
    qed
    have here: ?thesis if "s1 = st'" "r = Inr True \<longrightarrow> far_sides lp (ck_latest k) 0 = Inr []"
      using that l by auto
    show ?thesis
    proof (cases q)
      case (Inl e)
      then have "s1 = st'" "r = Inl e" using Cons.prems False q by auto
      then show ?thesis by (intro here) simp_all
    next
      case (Inr u)
      then show ?thesis using Cons.prems False q here rest
        by (cases "far_sides lp (ck_latest k) 0") (auto split: list.splits if_splits)
    qed
  qed
qed simp

lemma py_trunc_mono: "0 \<le> x \<Longrightarrow> x \<le> y \<Longrightarrow> py_trunc x \<le> py_trunc y"
  by (auto simp: py_trunc_def floor_mono)

lemma frame_index_mono: "0 \<le> x \<Longrightarrow> x \<le> y \<Longrightarrow> 0 < lp_fps lp \<Longrightarrow> frame_index lp x \<le> frame_index lp y"
  using py_trunc_mono[of "x * lp_fps lp" "y * lp_fps lp"] by (auto simp: frame_index_def intro: min.mono mult_right_mono)

lemma frame_index_bounds:
  assumes "0 \<le> x" "0 < lp_fps lp" "1 \<le> sk_frames (lp_skill lp)"
  shows "0 \<le> frame_index lp x \<and> frame_index lp x < int (sk_frames (lp_skill lp))"
  using assms by (auto simp: frame_index_def py_trunc_def)

lemma frame_index_end:
  assumes "end_t lp \<le> x" "0 \<le> lp_settle_s lp" "0 < lp_fps lp" "1 \<le> sk_frames (lp_skill lp)"
  shows "frame_index lp x = int (sk_frames (lp_skill lp)) - 1"
proof -
  let ?n = "sk_frames (lp_skill lp)"
  have "(real ?n - 1) / lp_fps lp \<le> x" using assms(1,2) by (simp add: end_t_def)
  then have n: "real ?n - 1 \<le> x * lp_fps lp" using assms(3) by (simp add: pos_divide_le_eq)
  then have "0 \<le> x * lp_fps lp" using assms(4) by linarith
  then have "int ?n - 1 \<le> py_trunc (x * lp_fps lp)" using n by (simp add: py_trunc_def le_floor_iff)
  then show ?thesis by (simp add: frame_index_def)
qed

text \<open>What the second loop adds, from a clock reading \<open>now\<close> on and with the last index at most that reading's.\<close>

lemma replay_posts:
  assumes "replay lp t0 ks li st = Some (r, st')" "sorted (now # map rk_now ks)" "t0 \<le> now"
    "li \<le> frame_index lp (now - t0)" "0 < lp_fps lp" "0 \<le> lp_settle_s lp" "1 \<le> sk_frames (lp_skill lp)"
  shows "\<exists>l. rp_posts st' = rp_posts st @ l \<and> sorted (map fst l)
    \<and> (\<forall>x \<in> set l. ok_post lp x \<and> frame_index lp (now - t0) \<le> fst x \<and> fst x < int (sk_frames (lp_skill lp)))
    \<and> (r = Inr True \<longrightarrow> rp_frames_posted st' = rp_frames_posted st + (int (sk_frames (lp_skill lp)) - 1 - li)
        \<and> (\<forall>side \<in> set (dkeys (lp_arms lp)). \<exists>sp. (int (sk_frames (lp_skill lp)) - 1, side, sp) \<in> set l))"
  using assms
proof (induction ks arbitrary: li st now)
  case (Cons k ks)
  let ?el = "rk_now k - t0" and ?n = "int (sk_frames (lp_skill lp))"
  let ?i = "frame_index lp ?el"
  show ?case
  proof (cases "rk_stop k")
    case True
    then show ?thesis using Cons.prems by auto
  next
    case False
    obtain q s1 where q: "post lp ?i (rk_ns k) st = (q, s1)" by fastforce
    obtain l where l: "rp_posts s1 = rp_posts st @ l" "posted_frame lp ?i l" "rp_frames_posted s1 = rp_frames_posted st"
        "q = Inr () \<longrightarrow> set (dkeys (lp_arms lp)) \<subseteq> (fst \<circ> snd) ` set l"
      using post_posts[OF q] by blast
    have order: "now \<le> rk_now k" "sorted (rk_now k # map rk_now ks)" "t0 \<le> rk_now k" using Cons.prems(2,3) by auto
    have ix: "frame_index lp (now - t0) \<le> ?i" "0 \<le> ?i" "?i < ?n"
      using frame_index_mono[of "now - t0" ?el lp] frame_index_bounds[of ?el lp] order Cons.prems(3,5,7) by auto
    have here: "sorted (map fst l)" "\<forall>x \<in> set l. ok_post lp x \<and> fst x = ?i"
      using l(2) by (auto simp: posted_frame_def sorted_iff_nth_mono)
    let ?s2 = "s1\<lparr>rp_frames_posted := rp_frames_posted s1 + (?i - li)\<rparr>"
    consider (err) e where "q = Inl e" | (fin) "q = Inr ()" "end_t lp \<le> ?el" | (go) "q = Inr ()" "\<not> end_t lp \<le> ?el"
      by (cases q) auto
    then show ?thesis
    proof cases
      case err
      then have "st' = s1" "r = Inl e" using Cons.prems(1) False q by (auto simp: Let_def)
      then show ?thesis using l here ix by (intro exI[of _ l]) auto
    next
      case fin
      then have st: "st' = ?s2" "r = Inr True" using Cons.prems(1) False q by (auto simp: Let_def)
      have "?i = ?n - 1" by (rule frame_index_end[OF fin(2) Cons.prems(6,5,7)])
      moreover have "\<exists>sp. (?i, side, sp) \<in> set l" if hs: "side \<in> set (dkeys (lp_arms lp))" for side
      proof -
        have "side \<in> (fst \<circ> snd) ` set l" using l(4) fin(1) hs by blast
        then obtain x where x: "x \<in> set l" "side = fst (snd x)" by auto
        moreover have "fst x = ?i" using here(2) x(1) by blast
        ultimately have "x = (?i, side, snd (snd x))" by (simp add: prod_eq_iff)
        then show ?thesis using x(1) by metis
      qed
      ultimately show ?thesis using st l here ix by (intro exI[of _ l]) auto
    next
      case go
      then have "replay lp t0 ks ?i ?s2 = Some (r, st')" using Cons.prems(1) False q by (auto simp: Let_def)
      from Cons.IH[OF this order(2,3) order_refl Cons.prems(5-7)]
      obtain l2 where l2: "rp_posts st' = rp_posts s1 @ l2" "sorted (map fst l2)"
          "\<forall>x \<in> set l2. ok_post lp x \<and> ?i \<le> fst x \<and> fst x < ?n"
          "r = Inr True \<longrightarrow> rp_frames_posted st' = rp_frames_posted ?s2 + (?n - 1 - ?i)
            \<and> (\<forall>side \<in> set (dkeys (lp_arms lp)). \<exists>sp. (?n - 1, side, sp) \<in> set l2)"
        by auto
      have "sorted (map fst (l @ l2))" using here l2(2,3) by (auto simp: sorted_append)
      then show ?thesis using l l2 here(2) ix by (intro exI[of _ "l @ l2"]) fastforce
    qed
  qed
qed simp

text \<open>Every driven side is measured close to the first frame.\<close>

definition near :: "skill_loop \<Rightarrow> (string \<Rightarrow> real samples res) \<Rightarrow> string \<Rightarrow> bool" where
  "near lp latest side \<longleftrightarrow> (\<exists>traj target s q. dget (sk_q (lp_skill lp)) side = Some traj \<and> traj_row traj 0 = Inr target
     \<and> latest (side @ ''/q'') = Inr s \<and> sm_newest s = Some q
     \<and> (length target \<le> length q \<longrightarrow> (\<forall>j < length target. \<bar>q ! j - target ! j\<bar> \<le> lp_tolerance lp)))"

lemma is_far_False: "is_far lp latest 0 side = Inr False \<Longrightarrow> near lp latest side"
proof -
  assume f: "is_far lp latest 0 side = Inr False"
  then obtain traj target s q d w where h: "dget (sk_q (lp_skill lp)) side = Some traj" "traj_row traj 0 = Inr target"
      "latest (side @ ''/q'') = Inr s" "sm_newest s = Some q" "np_sub (take (length target) q) target = Inr d" "linf d = Inr w"
      "w \<le> lp_tolerance lp"
    by (auto simp: is_far_def ditem_Inr split: option.splits)
  have "\<bar>q ! j - target ! j\<bar> \<le> lp_tolerance lp" if j: "length target \<le> length q" "j < length target" for j
  proof -
    have d: "d = map2 (-) (take (length target) q) target" using h(5) np_sub_same_length[of "take (length target) q" target] j(1) by simp
    have len: "j < length d" "d ! j = q ! j - target ! j" using j by (simp_all add: d)
    show ?thesis using linf_le[OF h(6) nth_mem[OF len(1)]] h(7) len(2) by simp
  qed
  then show ?thesis using h unfolding near_def by blast
qed

lemma far_sides_Nil:
  assumes "far_sides lp latest 0 = Inr []" "side \<in> set (dkeys (lp_arms lp))"
  shows "near lp latest side"
proof -
  have "foldR (\<lambda>side far. rbind (is_far lp latest 0 side) (\<lambda>b. Inr (if b then far @ [side] else far))) ss acc = Inr [] \<Longrightarrow>
      acc = [] \<and> (\<forall>s \<in> set ss. is_far lp latest 0 s = Inr False)" for ss acc
  proof (induction ss arbitrary: acc)
    case (Cons s ss)
    then obtain b where b: "is_far lp latest 0 s = Inr b" by (cases "is_far lp latest 0 s") auto
    then show ?case using Cons.IH[of "if b then acc @ [s] else acc"] Cons.prems by (cases b) auto
  qed simp
  from this[of "dkeys (lp_arms lp)" "[]"] assms show ?thesis by (auto simp: far_sides_def intro: is_far_False)
qed


text \<open>
  A replay ends. If the clock passes the start timeout or a stop comes within the turns of the first loop, and the end of
  the trajectory (or a stop) within those of the second, the run returns.
\<close>

theorem skill_replay_ends:
  assumes "\<exists>k \<in> set cks. ck_stop k \<or> start + lp_timeout_s lp < ck_now k"
    and "\<exists>k \<in> set rks. rk_stop k \<or> t0 + end_t lp \<le> rk_now k"
  shows "\<exists>r st'. skill_run lp start cks t0 rks st = Some (r, st')"
proof -
  have c: "\<exists>r s'. converge lp dl ks s = Some (r, s')" if "\<exists>k \<in> set ks. ck_stop k \<or> dl < ck_now k" for dl ks s
    using that by (induction ks arbitrary: s) (fastforce split: prod.splits sum.splits list.splits)+
  have "\<exists>r s'. replay lp t0 ks li s = Some (r, s')" if "\<exists>k \<in> set ks. rk_stop k \<or> t0 + end_t lp \<le> rk_now k" for ks li s
    using that by (induction ks arbitrary: li s) (fastforce simp: Let_def split: prod.splits sum.splits)+
  then show ?thesis using c[OF assms(1), of st] assms(2) by (fastforce simp: skill_run_def split: sum.splits bool.splits)
qed

section \<open>A replayed skill\<close>

definition demo_loop :: skill_loop where
  "demo_loop = \<lparr>lp_skill = demo_skill, lp_arms = [(''left'', demo_teleop)], lp_fps = 10, lp_tolerance = 1 / 10, lp_timeout_s = 60, lp_settle_s = 1\<rparr>"

definition demo_replay_start :: replay_state where
  "demo_replay_start = \<lparr>rp_brain = snd (open_control (\<lambda>s l. IoOk) ''run'' 1 demo_specs (empty_brain, demo_store)),
     rp_frames_posted = 0, rp_posts = []\<rparr>"

definition demo_measured :: "real \<Rightarrow> string \<Rightarrow> real samples res" where
  "demo_measured x n = Inr \<lparr>sm_data = [[x]], sm_t_ns = [0], sm_seq = [0], sm_overrun = False\<rparr>"

definition demo_converge :: "converge_tick list" where
  "demo_converge = map (\<lambda>x. \<lparr>ck_stop = False, ck_ns = 1, ck_latest = demo_measured x, ck_now = 1, ck_stop_after = False\<rparr>) [1 / 2, 0]"

definition demo_replay :: "replay_tick list" where
  "demo_replay = map (\<lambda>t. \<lparr>rk_stop = False, rk_now = t, rk_ns = 2\<rparr>) [2, 2 + 3 / 20, 4]"

text \<open>The arm is away from the first frame at the first pass and on it at the second; then the clock runs past the end.\<close>

lemma demo_skill_run:
  "map_option (\<lambda>(r, st). (r, rp_frames_posted st, rp_posts st)) (skill_run demo_loop 0 demo_converge 2 demo_replay demo_replay_start)
   = Some (Inr True, 3, [(0, ''left'', [0]), (0, ''left'', [0]), (0, ''left'', [0]), (1, ''left'', [1 / 2]), (2, ''left'', [1])])"
  by code_simp


theorem skill_replay_ends_witness:
  "\<exists>r st. skill_run demo_loop 0 [\<lparr>ck_stop = False, ck_ns = 1, ck_latest = demo_measured 1, ck_now = 61, ck_stop_after = False\<rparr>] 61
     [\<lparr>rk_stop = True, rk_now = 62, rk_ns = 2\<rparr>] demo_replay_start = Some (r, st)"
  by (rule skill_replay_ends) (simp_all add: demo_loop_def)

end
