(* ===== verification/Policy_Adapter.thy ===== *)
theory Policy_Adapter
  imports Prelude
begin

text \<open>
  The endpoint adapters (\<^verbatim>\<open>policy/adapter.py\<close>): how a canonical state becomes the state vector of a policy
  server, and how the server's actions become canonical actions. Shown: a projection writes every element of its output exactly once,
  from the place its configuration names, or raises. Images and serialization are left out; what numpy makes of a reply
  is an argument.
\<close>

section \<open>Index projections\<close>

text \<open>An element of an index list: an integer, or something that is none (a boolean, a float, a text).\<close>

datatype pidx = PInt int | PBad

record index_copy =
  ic_source :: "pidx list"
  ic_target :: "pidx list"

record index_constant =
  ik_value :: real
  ik_target :: "pidx list"

fun index_of :: "nat \<Rightarrow> pidx \<Rightarrow> nat res" where
  "index_of sz PBad = Inl PolicyError"
| "index_of sz (PInt i) = (if i < 0 \<or> int sz \<le> i then Inl PolicyError else Inr (nat i))"

definition indices :: "pidx list \<Rightarrow> nat \<Rightarrow> nat list res" where
  "indices vs sz = rbind (mapR (index_of sz) vs) (\<lambda>is. if distinct is then Inr is else Inl PolicyError)"

definition pairs :: "index_copy \<Rightarrow> nat \<Rightarrow> nat \<Rightarrow> (nat list \<times> nat list) res" where
  "pairs item source_size target_size =
     rbind (indices (ic_source item) source_size) (\<lambda>src.
     rbind (indices (ic_target item) target_size) (\<lambda>tgt.
     if length src = length tgt then Inr (src, tgt) else Inl PolicyError))"

definition claim :: "nat list \<Rightarrow> nat list \<Rightarrow> nat list res" where
  "claim mapped tgt = (if set mapped \<inter> set tgt \<noteq> {} then Inl PolicyError else Inr (mapped @ tgt))"

text \<open>\<open>out[target] = values\<close>.\<close>

definition scatter :: "nat list \<Rightarrow> real list \<Rightarrow> real list \<Rightarrow> real list" where
  "scatter tgt vals out = fold (\<lambda>(t, v) o1. o1[t := v]) (zip tgt vals) out"

definition unmapped :: "nat \<Rightarrow> nat list \<Rightarrow> nat list" where
  "unmapped dm mapped = filter (\<lambda>i. i \<notin> set mapped) [0..<dm]"

section \<open>The OpenPI request\<close>

record vector_cfg =
  vc_dim :: int
  vc_slices :: "index_copy list"
  vc_constants :: "index_constant list"

definition copy_item :: "real list \<Rightarrow> nat \<Rightarrow> index_copy \<Rightarrow> nat list \<times> real list \<Rightarrow> (nat list \<times> real list) res" where
  "copy_item src dm item mo =
     (case mo of (mapped, out) \<Rightarrow>
      rbind (pairs item (length src) dm) (\<lambda>(s, t). rbind (claim mapped t) (\<lambda>m. Inr (m, scatter t (map ((!) src) s) out))))"

definition constant_item :: "nat \<Rightarrow> index_constant \<Rightarrow> nat list \<times> real list \<Rightarrow> (nat list \<times> real list) res" where
  "constant_item dm item mo =
     (case mo of (mapped, out) \<Rightarrow>
      rbind (indices (ik_target item) dm) (\<lambda>t. rbind (claim mapped t) (\<lambda>m. Inr (m, scatter t (replicate (length t) (ik_value item)) out))))"

definition project_state :: "vector_cfg \<Rightarrow> real list \<Rightarrow> real list res" where
  "project_state cfg dfc_state =
     (if vc_dim cfg < 0 then Inl PolicyError
      else if vc_dim cfg = 0 then Inr dfc_state
      else let dm = nat (vc_dim cfg) in
        rbind (foldR (copy_item dfc_state dm) (vc_slices cfg) ([], replicate dm 0)) (\<lambda>mo1.
        rbind (foldR (constant_item dm) (vc_constants cfg) mo1) (\<lambda>(mapped, out).
        if unmapped dm mapped = [] then Inr out else Inl PolicyError)))"

text \<open>
  The adapter remembers the last state it encoded. \<open>images\<close> is the outcome of the image mapping, which runs after the
  state was projected and before that state is remembered.
\<close>

type_synonym adapter = "real list option"

definition encode_request :: "vector_cfg \<Rightarrow> 'img res \<Rightarrow> real list option \<Rightarrow> adapter \<Rightarrow> (real list \<times> 'img) res \<times> adapter" where
  "encode_request cfg images state_opt ad =
     (case rbind (case state_opt of None \<Rightarrow> Inl PolicyError | Some st \<Rightarrow> Inr st) (\<lambda>st.
             rbind (project_state cfg st) (\<lambda>v. rbind images (\<lambda>im. Inr (st, v, im)))) of
        Inl e \<Rightarrow> (Inl e, ad)
      | Inr (st, v, im) \<Rightarrow> (Inr (v, im), Some st))"

section \<open>The OpenPI response\<close>

text \<open>A reply's action array by its number of dimensions; \<open>RBad\<close> is a value numpy cannot convert.\<close>

datatype reply = RNone | R1 "real list" | R2 "real list list" | R3 "real list list list" | ROther | RBad

record actions_cfg =
  ac_dim :: int
  ac_slices :: "index_copy list"
  ac_holds :: "index_copy list"
  ac_constants :: "index_constant list"

fun as_rows :: "reply \<Rightarrow> real list list res" where
  "as_rows RNone = Inl PolicyError"
| "as_rows RBad = Inl ValueError"
| "as_rows (R1 xs) = Inr [xs]"
| "as_rows (R2 rs) = (if rs = [] then Inl PolicyError else Inr rs)"
| "as_rows (R3 rss) = Inl PolicyError"
| "as_rows ROther = Inl PolicyError"

type_synonym mapped_rows = "nat list \<times> real list list"

definition copy_rows :: "real list list \<Rightarrow> nat \<Rightarrow> index_copy \<Rightarrow> mapped_rows \<Rightarrow> mapped_rows res" where
  "copy_rows raw dm item mo =
     (case mo of (mapped, out) \<Rightarrow>
      rbind (pairs item (length (hd raw)) dm) (\<lambda>(s, t). rbind (claim mapped t) (\<lambda>m.
      Inr (m, map2 (\<lambda>row o1. scatter t (map ((!) row) s) o1) raw out))))"

definition hold_rows :: "real list \<Rightarrow> nat \<Rightarrow> index_copy \<Rightarrow> mapped_rows \<Rightarrow> mapped_rows res" where
  "hold_rows st dm item mo =
     (case mo of (mapped, out) \<Rightarrow>
      rbind (pairs item (length st) dm) (\<lambda>(s, t). rbind (claim mapped t) (\<lambda>m. Inr (m, map (scatter t (map ((!) st) s)) out))))"

definition constant_rows :: "nat \<Rightarrow> index_constant \<Rightarrow> mapped_rows \<Rightarrow> mapped_rows res" where
  "constant_rows dm item mo =
     (case mo of (mapped, out) \<Rightarrow>
      rbind (indices (ik_target item) dm) (\<lambda>t. rbind (claim mapped t) (\<lambda>m.
      Inr (m, map (scatter t (replicate (length t) (ik_value item))) out))))"

definition hold_items :: "actions_cfg \<Rightarrow> adapter \<Rightarrow> mapped_rows \<Rightarrow> mapped_rows res" where
  "hold_items cfg ad mo =
     (if ac_holds cfg = [] then Inr mo
      else case ad of None \<Rightarrow> Inl PolicyError | Some st \<Rightarrow> foldR (hold_rows st (nat (ac_dim cfg))) (ac_holds cfg) mo)"

definition decode_actions :: "actions_cfg \<Rightarrow> adapter \<Rightarrow> reply \<Rightarrow> real list list res" where
  "decode_actions cfg ad r =
     rbind (as_rows r) (\<lambda>raw.
     if ac_dim cfg < 0 then Inl PolicyError
     else if ac_dim cfg = 0 then Inr raw
     else let dm = nat (ac_dim cfg) in
       rbind (foldR (copy_rows raw dm) (ac_slices cfg) ([], replicate (length raw) (replicate dm 0))) (\<lambda>mo1.
       rbind (hold_items cfg ad mo1) (\<lambda>mo2.
       rbind (foldR (constant_rows dm) (ac_constants cfg) mo2) (\<lambda>(mapped, out).
       if unmapped dm mapped = [] then Inr out else Inl PolicyError))))"

section \<open>The ACME endpoint\<close>

text \<open>\<open>xs[lo:hi]\<close> with Python's bounds.\<close>

definition clamp_bound :: "nat \<Rightarrow> int \<Rightarrow> nat" where
  "clamp_bound n i = nat (min (int n) (max 0 (if i < 0 then i + int n else i)))"

definition py_slice :: "int \<Rightarrow> int \<Rightarrow> 'a list \<Rightarrow> 'a list" where
  "py_slice lo hi xs = slice (clamp_bound (length xs) lo) (clamp_bound (length xs) hi) xs"

definition acme_qpos :: "int \<Rightarrow> int \<Rightarrow> real list \<Rightarrow> real list res" where
  "acme_qpos lo hi st =
     (let q = py_slice lo hi st in
      if int (length q) \<noteq> hi - lo \<or> hi > int (length st) then Inl PolicyError else Inr q)"

fun acme_decode :: "reply \<Rightarrow> real list list res" where
  "acme_decode (R3 rss) = (case rss of [rs] \<Rightarrow> if rs = [] then Inl PolicyError else Inr rs | _ \<Rightarrow> Inl PolicyError)"
| "acme_decode r = as_rows r"

section \<open>What a projection writes\<close>

text \<open>The writes of a configuration for one row: target and value, in order.\<close>

fun the_index :: "pidx \<Rightarrow> nat" where
  "the_index (PInt i) = nat i"
| "the_index PBad = 0"

definition copy_writes :: "real list \<Rightarrow> index_copy \<Rightarrow> (nat \<times> real) list" where
  "copy_writes src it = zip (map the_index (ic_target it)) (map (\<lambda>v. src ! the_index v) (ic_source it))"

definition constant_writes :: "index_constant \<Rightarrow> (nat \<times> real) list" where
  "constant_writes it = map (\<lambda>v. (the_index v, ik_value it)) (ik_target it)"

definition row_writes :: "actions_cfg \<Rightarrow> adapter \<Rightarrow> real list \<Rightarrow> (nat \<times> real) list" where
  "row_writes cfg ad row =
     concat (map (copy_writes row) (ac_slices cfg))
     @ (case ad of None \<Rightarrow> [] | Some st \<Rightarrow> concat (map (copy_writes st) (ac_holds cfg)))
     @ concat (map constant_writes (ac_constants cfg))"

text \<open>After the writes \<open>W\<close>: no target twice, all inside the row, every written element in its place.\<close>

definition row_inv :: "nat \<Rightarrow> (nat \<times> real) list \<Rightarrow> nat list \<Rightarrow> real list \<Rightarrow> bool" where
  "row_inv dm W mapped o1 \<longleftrightarrow> mapped = map fst W \<and> distinct mapped \<and> set mapped \<subseteq> {..<dm} \<and> length o1 = dm
     \<and> (\<forall>(j, v) \<in> set W. o1 ! j = v)"

lemma indices_Inr:
  assumes "indices vs n = Inr is"
  shows "is = map the_index vs \<and> distinct is \<and> set is \<subseteq> {..<n}"
proof -
  have m: "mapR (index_of n) vs = Inr is" "distinct is" using assms by (auto simp: indices_def split: if_splits)
  have "is = map the_index vs \<and> set is \<subseteq> {..<n}" using m(1)
  proof (induction vs arbitrary: "is")
    case (Cons v vs)
    obtain k js where k: "index_of n v = Inr k" "mapR (index_of n) vs = Inr js" "is = k # js" using Cons.prems by auto
    have "k = the_index v \<and> k < n" using k(1) by (cases v) (auto split: if_splits)
    moreover have "js = map the_index vs" "set js \<subseteq> {..<n}" using Cons.IH[OF k(2)] by blast+
    ultimately show ?case using k(3) by (metis insert_subset lessThan_iff list.simps(9) list.simps(15))
  qed simp
  then show ?thesis using m(2) by blast
qed

lemma scatter_length [simp]: "length (scatter t vs o1) = length o1"
proof -
  have "length (fold (\<lambda>(t, v) o1. o1[t := v]) ps o1) = length o1" for ps :: "(nat \<times> real) list" and o1
    by (induction ps arbitrary: o1) auto
  then show ?thesis by (simp add: scatter_def)
qed

lemma scatter_other: "j \<notin> set t \<Longrightarrow> scatter t vs o1 ! j = o1 ! j"
proof -
  have "j \<notin> fst ` set ps \<Longrightarrow> fold (\<lambda>(t, v) o1. o1[t := v]) ps o1 ! j = o1 ! j" for ps :: "(nat \<times> real) list" and o1
    by (induction ps arbitrary: o1) auto
  then show "j \<notin> set t \<Longrightarrow> scatter t vs o1 ! j = o1 ! j" unfolding scatter_def by (metis (no_types) in_set_zipE prod.collapse imageE)
qed

lemma scatter_at:
  assumes "(j, v) \<in> set (zip t vs)" "distinct t" "set t \<subseteq> {..<length o1}"
  shows "scatter t vs o1 ! j = v"
  using assms
proof (induction t vs arbitrary: o1 rule: list_induct2')
  case (4 x t y vs)
  have rest: "scatter (x # t) (y # vs) o1 = scatter t vs (o1[x := y])" by (simp add: scatter_def)
  show ?case
  proof (cases "(j, v) = (x, y)")
    case True
    then show ?thesis using 4 scatter_other[of x t vs] rest by auto
  next
    case False
    then show ?thesis using 4 rest by auto
  qed
qed auto

lemma row_invD:
  assumes "row_inv dm W m o1"
  shows "m = map fst W" and "distinct m" and "set m \<subseteq> {..<dm}" and "length o1 = dm" and "\<forall>(j, v) \<in> set W. o1 ! j = v"
  using assms unfolding row_inv_def by - (elim conjE, assumption)+

lemma row_inv_write:
  assumes "row_inv dm W m o1" "claim m t = Inr m'" "distinct t" "set t \<subseteq> {..<dm}" "length vs = length t"
  shows "row_inv dm (W @ zip t vs) m' (scatter t vs o1)"
proof -
  have m: "m' = m @ t" "set m \<inter> set t = {}" using assms(2) by (auto simp: claim_def split: if_splits)
  have a: "m = map fst W" "distinct m" "set m \<subseteq> {..<dm}" "length o1 = dm" "\<forall>(j, v) \<in> set W. o1 ! j = v"
    using row_invD[OF assms(1)] by blast+
  have "scatter t vs o1 ! j = v" if "(j, v) \<in> set W" for j v
  proof -
    have "j \<in> set m" using that a(1) by force
    then have "j \<notin> set t" using m(2) by blast
    then show ?thesis using scatter_other a(5) that by fastforce
  qed
  moreover have "scatter t vs o1 ! j = v" if "(j, v) \<in> set (zip t vs)" for j v
    using scatter_at[OF that assms(3)] assms(4) a(4) by simp
  moreover have "m' = map fst (W @ zip t vs)" "distinct m'" "set m' \<subseteq> {..<dm}" using m a(1-3) assms(3-5) by auto
  ultimately show ?thesis using a(4) unfolding row_inv_def by auto
qed

lemma rows_write:
  assumes inv: "\<forall>k < n. row_inv dm (W k) m (outs ! k)" and t: "claim m t = Inr m'" "indices vs dm = Inr t"
    and outs: "\<forall>k < n. outs' ! k = scatter t (vals k) (outs ! k) \<and> length (vals k) = length t \<and> zip t (vals k) = V k"
  shows "\<forall>k < n. row_inv dm (W k @ V k) m' (outs' ! k)"
proof (intro allI impI)
  fix k assume "k < n"
  then have o: "outs' ! k = scatter t (vals k) (outs ! k)" "length (vals k) = length t" "zip t (vals k) = V k" "row_inv dm (W k) m (outs ! k)"
    using outs inv by auto
  have "distinct t" "set t \<subseteq> {..<dm}" using indices_Inr[OF t(2)] by blast+
  from row_inv_write[OF o(4) t(1) this o(2)] show "row_inv dm (W k @ V k) m' (outs' ! k)" by (simp add: o(1,3))
qed

text \<open>
  A step of a projection on \<open>n\<close> rows: the item's writes are added to those of every row, or it raises. A loop of such steps adds the writes of
  all its items.
\<close>

locale projection_step =
  fixes step :: "'i \<Rightarrow> mapped_rows \<Rightarrow> mapped_rows res" and writes :: "nat \<Rightarrow> 'i \<Rightarrow> (nat \<times> real) list"
    and n :: nat and dm :: nat
  assumes step_writes: "step it (m, outs) = Inr (m', outs') \<Longrightarrow> length outs = n \<Longrightarrow> \<forall>k < n. row_inv dm (W k) m (outs ! k)
    \<Longrightarrow> length outs' = n \<and> (\<forall>k < n. row_inv dm (W k @ writes k it) m' (outs' ! k))"
begin

lemma steps_write:
  "foldR step items (m, outs) = Inr (m', outs') \<Longrightarrow> length outs = n \<Longrightarrow> \<forall>k < n. row_inv dm (W k) m (outs ! k)
    \<Longrightarrow> length outs' = n \<and> (\<forall>k < n. row_inv dm (W k @ concat (map (writes k) items)) m' (outs' ! k))"
proof (induction items arbitrary: m outs W)
  case (Cons it items)
  obtain m1 o1 where s: "step it (m, outs) = Inr (m1, o1)" "foldR step items (m1, o1) = Inr (m', outs')"
    using Cons.prems(1) by auto
  note one = step_writes[OF s(1) Cons.prems(2,3)]
  show ?case using Cons.IH[OF s(2), of "\<lambda>k. W k @ writes k it"] one by simp
qed simp

end

interpretation copies: projection_step "copy_rows raw dm" "\<lambda>k. copy_writes (raw ! k)" "length raw" dm for raw dm
proof
  fix it m outs m' outs' W
  assume s: "copy_rows raw dm it (m, outs) = Inr (m', outs')" and l: "length outs = length raw"
    and inv: "\<forall>k < length raw. row_inv dm (W k) m (outs ! k)"
  obtain src t where p: "pairs it (length (hd raw)) dm = Inr (src, t)" "claim m t = Inr m'"
      "outs' = map2 (\<lambda>row o1. scatter t (map ((!) row) src) o1) raw outs"
    using s by (auto simp: copy_rows_def)
  have ix: "indices (ic_source it) (length (hd raw)) = Inr src" "indices (ic_target it) dm = Inr t" "length src = length t"
    using p(1) by (auto simp: pairs_def split: if_splits)
  have "zip t (map ((!) (raw ! k)) src) = copy_writes (raw ! k) it" for k
    using indices_Inr[OF ix(1)] indices_Inr[OF ix(2)] by (simp add: copy_writes_def comp_def)
  moreover have "length outs' = length raw" "\<forall>k < length raw. outs' ! k = scatter t (map ((!) (raw ! k)) src) (outs ! k)"
    using l p(3) by auto
  ultimately show "length outs' = length raw \<and> (\<forall>k < length raw. row_inv dm (W k @ copy_writes (raw ! k) it) m' (outs' ! k))"
    using ix(3) by (intro conjI rows_write[OF inv p(2) ix(2), where vals = "\<lambda>k. map ((!) (raw ! k)) src"]) auto
qed

interpretation holds: projection_step "hold_rows st dm" "\<lambda>k. copy_writes st" n dm for st dm n
proof
  fix it m outs m' outs' W
  assume s: "hold_rows st dm it (m, outs) = Inr (m', outs')" and l: "length outs = n"
    and inv: "\<forall>k < n. row_inv dm (W k) m (outs ! k)"
  obtain src t where p: "pairs it (length st) dm = Inr (src, t)" "claim m t = Inr m'" "outs' = map (scatter t (map ((!) st) src)) outs"
    using s by (auto simp: hold_rows_def)
  have ix: "indices (ic_source it) (length st) = Inr src" "indices (ic_target it) dm = Inr t" "length src = length t"
    using p(1) by (auto simp: pairs_def split: if_splits)
  have "zip t (map ((!) st) src) = copy_writes st it"
    using indices_Inr[OF ix(1)] indices_Inr[OF ix(2)] by (simp add: copy_writes_def comp_def)
  then show "length outs' = n \<and> (\<forall>k < n. row_inv dm (W k @ copy_writes st it) m' (outs' ! k))"
    using ix(3) l p(3) by (intro conjI rows_write[OF inv p(2) ix(2), where vals = "\<lambda>k. map ((!) st) src"]) auto
qed

interpretation constants: projection_step "constant_rows dm" "\<lambda>k. constant_writes" n dm for dm n
proof
  fix it m outs m' outs' W
  assume s: "constant_rows dm it (m, outs) = Inr (m', outs')" and l: "length outs = n"
    and inv: "\<forall>k < n. row_inv dm (W k) m (outs ! k)"
  obtain t where p: "indices (ik_target it) dm = Inr t" "claim m t = Inr m'"
      "outs' = map (scatter t (replicate (length t) (ik_value it))) outs"
    using s by (auto simp: constant_rows_def)
  have "zip t (replicate (length t) (ik_value it)) = constant_writes it"
    using indices_Inr[OF p(1)] by (simp add: constant_writes_def zip_replicate2 comp_def)
  then show "length outs' = n \<and> (\<forall>k < n. row_inv dm (W k @ constant_writes it) m' (outs' ! k))"
    using l p(3) by (intro conjI rows_write[OF inv p(2,1), where vals = "\<lambda>k. replicate (length t) (ik_value it)"]) auto
qed

lemma row_inv_covers:
  assumes "row_inv dm W m o1" "unmapped dm m = []"
  shows "distinct (map fst W) \<and> set (map fst W) = {..<dm} \<and> o1 = map (\<lambda>j. the (map_of W j)) [0..<dm]"
proof -
  have a: "m = map fst W" "distinct m" "set m \<subseteq> {..<dm}" "length o1 = dm" "\<forall>(j, v) \<in> set W. o1 ! j = v"
    using row_invD[OF assms(1)] by blast+
  have cover: "set m = {..<dm}" using a(3) assms(2) by (auto simp: unmapped_def filter_empty_conv)
  have "o1 ! j = the (map_of W j)" if j: "j < dm" for j
  proof -
    have "j \<in> fst ` set W" using cover a(1) j by (metis lessThan_iff list.set_map)
    then obtain v where v: "map_of W j = Some v" by (metis map_of_eq_None_iff not_None_eq)
    then show ?thesis using a(5) map_of_SomeD[OF v] by auto
  qed
  then have "o1 = map (\<lambda>j. the (map_of W j)) [0..<dm]" using a(4) by (intro nth_equalityI) auto
  then show ?thesis using a(1,2) cover by blast
qed

lemma decode_writes:
  assumes dec: "decode_actions cfg ad r = Inr out" and raw: "as_rows r = Inr raw" and dm: "0 < ac_dim cfg"
  shows "length out = length raw \<and> (\<forall>k < length raw. let W = row_writes cfg ad (raw ! k) in
      distinct (map fst W) \<and> set (map fst W) = {..<nat (ac_dim cfg)}
      \<and> out ! k = map (\<lambda>j. the (map_of W j)) [0..<nat (ac_dim cfg)])"
proof -
  let ?d = "nat (ac_dim cfg)" let ?n = "length raw"
  obtain m1 o1 m2 o2 m3 where s: "foldR (copy_rows raw ?d) (ac_slices cfg) ([], replicate ?n (replicate ?d 0)) = Inr (m1, o1)"
      "hold_items cfg ad (m1, o1) = Inr (m2, o2)" "foldR (constant_rows ?d) (ac_constants cfg) (m2, o2) = Inr (m3, out)" "unmapped ?d m3 = []"
    using dec raw dm by (auto simp: decode_actions_def Let_def split: if_splits)
  have "\<forall>k < ?n. row_inv ?d [] [] (replicate ?n (replicate ?d 0) ! k)" by (simp add: row_inv_def)
  from copies.steps_write[OF s(1) _ this]
  have a: "length o1 = ?n" "\<forall>k < ?n. row_inv ?d (concat (map (copy_writes (raw ! k)) (ac_slices cfg))) m1 (o1 ! k)" by auto
  let ?h = "case ad of None \<Rightarrow> [] | Some st \<Rightarrow> concat (map (copy_writes st) (ac_holds cfg))"
  have b: "length o2 = ?n \<and> (\<forall>k < ?n. row_inv ?d (concat (map (copy_writes (raw ! k)) (ac_slices cfg)) @ ?h) m2 (o2 ! k))"
  proof (cases "ac_holds cfg = []")
    case True
    then show ?thesis using s(2) a by (auto simp: hold_items_def split: option.splits)
  next
    case False
    then obtain st where st: "ad = Some st" "foldR (hold_rows st ?d) (ac_holds cfg) (m1, o1) = Inr (m2, o2)"
      using s(2) by (auto simp: hold_items_def split: option.splits)
    show ?thesis using holds.steps_write[OF st(2) a] st(1) by simp
  qed
  have c: "length out = ?n \<and> (\<forall>k < ?n. row_inv ?d (row_writes cfg ad (raw ! k)) m3 (out ! k))"
    using constants.steps_write[OF s(3) b[THEN conjunct1] b[THEN conjunct2]] by (simp add: row_writes_def)
  then show ?thesis using row_inv_covers[OF _ s(4)] by (auto simp: Let_def simp del: set_map)
qed

lemma as_rows_nonempty: "as_rows r = Inr raw \<Longrightarrow> raw \<noteq> []"
  by (cases r) (auto split: if_splits)

lemma decode_rows_ok:
  assumes "decode_actions cfg ad r = Inr out"
  shows "out \<noteq> [] \<and> (0 < ac_dim cfg \<longrightarrow> (\<forall>row \<in> set out. length row = nat (ac_dim cfg)))"
proof -
  obtain raw where raw: "as_rows r = Inr raw" using assms by (auto simp: decode_actions_def)
  show ?thesis
  proof (cases "0 < ac_dim cfg")
    case True
    note w = decode_writes[OF assms raw True]
    have len: "length out = length raw" and rw: "\<And>k. k < length raw \<Longrightarrow> length (out ! k) = nat (ac_dim cfg)"
      using w by (auto simp: Let_def)
    then have "\<forall>row \<in> set out. length row = nat (ac_dim cfg)" by (metis in_set_conv_nth)
    then show ?thesis using len as_rows_nonempty[OF raw] by auto
  next
    case False
    then have "out = raw" using assms raw by (auto simp: decode_actions_def split: if_splits)
    then show ?thesis using as_rows_nonempty[OF raw] False by simp
  qed
qed


text \<open>The state projection is the action projection of a single row without holds.\<close>

lemma copy_item_rows: "copy_rows [src] dm it (m, [o1]) = rbind (copy_item src dm it (m, o1)) (\<lambda>(m', o2). Inr (m', [o2]))"
  by (cases "pairs it (length src) dm") (auto simp: copy_rows_def copy_item_def rbind_def split: sum.splits)

lemma constant_item_rows: "constant_rows dm it (m, [o1]) = rbind (constant_item dm it (m, o1)) (\<lambda>(m', o2). Inr (m', [o2]))"
  by (cases "indices (ik_target it) dm") (auto simp: constant_rows_def constant_item_def rbind_def split: sum.splits)

lemma foldR_lift:
  assumes "\<And>it m o1. f it (m, [o1]) = rbind (g it (m, o1)) (\<lambda>(m', o2). Inr (m', [o2]))"
  shows "foldR f items (m, [o1]) = rbind (foldR g items (m, o1)) (\<lambda>(m', o2). Inr (m', [o2]))"
proof (induction items arbitrary: m o1)
  case (Cons it items)
  then show ?case by (cases "g it (m, o1)") (auto simp: assms)
qed simp

text \<open>
  The state sent to the server is projected like the actions coming back: the request's state vector is the projection of the canonical
  state, taken as a reply of one row, under the same copies and constants and no holds, with the same refusals.
\<close>

theorem state_projection_is_action_projection:
  "rbind (project_state cfg st) (\<lambda>v. Inr [v])
     = decode_actions \<lparr>ac_dim = vc_dim cfg, ac_slices = vc_slices cfg, ac_holds = [], ac_constants = vc_constants cfg\<rparr> ad (R1 st)"
proof (cases "vc_dim cfg \<le> 0")
  case False
  let ?d = "nat (vc_dim cfg)"
  have c: "foldR (copy_rows [st] ?d) items (m, [o1]) = rbind (foldR (copy_item st ?d) items (m, o1)) (\<lambda>(m', o2). Inr (m', [o2]))" for items m o1
    by (rule foldR_lift) (rule copy_item_rows)
  have k: "foldR (constant_rows ?d) items (m, [o1]) = rbind (foldR (constant_item ?d) items (m, o1)) (\<lambda>(m', o2). Inr (m', [o2]))" for items m o1
    by (rule foldR_lift) (rule constant_item_rows)
  show ?thesis
  proof (cases "foldR (copy_item st ?d) (vc_slices cfg) ([], replicate ?d 0)")
    case (Inl e)
    then show ?thesis using False c[of "vc_slices cfg"] by (simp add: project_state_def decode_actions_def Let_def)
  next
    case (Inr mo)
    obtain m o1 where mo: "mo = (m, o1)" by (cases mo)
    show ?thesis using False Inr c[of "vc_slices cfg"] k[of "vc_constants cfg"]
      by (cases "foldR (constant_item ?d) (vc_constants cfg) mo") (auto simp: mo project_state_def decode_actions_def hold_items_def Let_def)
  qed
qed (auto simp: project_state_def decode_actions_def)

section \<open>Endpoints\<close>

text \<open>What the evaluation loop may rely on: a decoded reply has at least one action.\<close>

locale endpoint =
  fixes decode :: "'s \<Rightarrow> reply \<Rightarrow> real list list res"
  assumes decode_some: "decode s r = Inr out \<Longrightarrow> out \<noteq> []"

interpretation openpi: endpoint "decode_actions cfg" for cfg
  by unfold_locales (use decode_rows_ok in blast)

interpretation acme: endpoint "\<lambda>u::unit. acme_decode"
proof
  fix r out assume "acme_decode r = Inr out"
  then show "out \<noteq> []" by (cases r) (auto split: list.splits if_splits)
qed

definition demo_actions :: actions_cfg where
  "demo_actions = \<lparr>ac_dim = 3, ac_slices = [\<lparr>ic_source = [PInt 1], ic_target = [PInt 0]\<rparr>],
     ac_holds = [\<lparr>ic_source = [PInt 0], ic_target = [PInt 2]\<rparr>], ac_constants = [\<lparr>ik_value = 5, ik_target = [PInt 1]\<rparr>]\<rparr>"


end
