(* ===== verification/Policy_Loop.thy ===== *)
theory Policy_Loop
  imports Collection Policy_Adapter
begin

text \<open>
  The evaluation loop (\<^verbatim>\<open>policy/loop.py\<close>) over the observation builder (\<^verbatim>\<open>policy/observation.py\<close>): one policy
  timestep per tick, action chunks executed up to the replanning horizon, transient failures held. Shown: the executed actions are the
  trimmed chunks in order, what is posted, the error budget, that a dry run moves nothing. The horizon hooks
  only publish for display and swallow their exceptions; they are left out.
\<close>

section \<open>Observation\<close>

definition mk_observer ::
    "(string, arm_cfg) dict \<Rightarrow> (string, nat) dict \<Rightarrow> (string, camera_cfg) dict \<Rightarrow> string \<Rightarrow> string list \<Rightarrow> frame_builder res" where
  "mk_observer arms dofs cameras instruction state_signals = mk_frame_builder arms dofs [] cameras instruction state_signals True"

definition observe_frame :: "frame_builder \<Rightarrow> (string, real samples) dict \<Rightarrow> lr_frame option res" where
  "observe_frame fb snapshot =
     rbind (build fb snapshot [] []) (\<lambda>fr. Inr (map_option (ddel ''action'') fr))"

section \<open>The loop\<close>

definition HOLD_SIGNAL :: "(string, string) dict" where
  "HOLD_SIGNAL = [(''pose_d'', ''eef''), (''q_d'', ''q'')]"

definition hold_stream_names :: "string \<Rightarrow> control_cfg \<Rightarrow> string list res" where
  "hold_stream_names side cfg =
     rbind (action_hold_fields cfg) (mapR (\<lambda>f. rbind (ditem HOLD_SIGNAL f) (\<lambda>sig. Inr (side @ ''/'' @ sig))))"

record eval_loop =
  el_observer :: frame_builder
  el_layout :: dfc_layout
  el_arms :: "(string, teleop_arm) dict"
  el_num_timesteps :: int
  el_replan_steps :: int
  el_max_errors :: int
  el_hold :: "(string, string list) dict"

definition mk_eval_loop ::
    "frame_builder \<Rightarrow> dfc_layout \<Rightarrow> (string, teleop_arm) dict \<Rightarrow> int \<Rightarrow> int \<Rightarrow> int \<Rightarrow> eval_loop res" where
  "mk_eval_loop fb ly arms num_timesteps replan_steps max_consecutive_errors =
     rbind (mapR (\<lambda>(s, a). rbind (action_hold_fields (ta_control a)) (\<lambda>fs. Inr (s, fs))) arms) (\<lambda>hold.
     Inr \<lparr>el_observer = fb, el_layout = ly, el_arms = arms, el_num_timesteps = max 1 num_timesteps, el_replan_steps = replan_steps,
          el_max_errors = max 1 max_consecutive_errors, el_hold = hold\<rparr>)"

text \<open>
  The loop's state; \<open>ev_chunks\<close>, \<open>ev_executed\<close>, \<open>ev_posted\<close> and \<open>ev_replies\<close> record the validated chunks, the actions taken, the setpoints
  posted (with the action they come from) and whether each inference succeeded.
\<close>

record eval_state =
  ev_brain :: brain_state
  ev_pending :: "real list list"
  ev_done :: int
  ev_inferences :: nat
  ev_errors :: int
  ev_held :: "(string, (string, real list) dict) dict"
  ev_chunks :: "real list list list"
  ev_executed :: "real list list"
  ev_posted :: "(real list \<times> string \<times> real list) list"
  ev_replies :: "bool list"

definition fresh_eval :: "brain_state \<Rightarrow> eval_state" where
  "fresh_eval bs = \<lparr>ev_brain = bs, ev_pending = [], ev_done = 0, ev_inferences = 0, ev_errors = 0, ev_held = [], ev_chunks = [],
     ev_executed = [], ev_posted = [], ev_replies = []\<rparr>"

definition hold_field :: "(string, real samples) dict \<Rightarrow> string \<Rightarrow> string
    \<Rightarrow> (string, (string, real list) dict) dict \<Rightarrow> (string, (string, real list) dict) dict res" where
  "hold_field snapshot side f hs =
     rbind (ditem HOLD_SIGNAL f) (\<lambda>sig.
     Inr (case dget snapshot (side @ ''/'' @ sig) of
            None \<Rightarrow> hs
          | Some s \<Rightarrow> (case sm_newest s of
              None \<Rightarrow> hs
            | Some v \<Rightarrow> dput side (dput f v (case dget hs side of None \<Rightarrow> [] | Some h \<Rightarrow> h)) hs)))"

definition capture_holds :: "eval_loop \<Rightarrow> (string, real samples) dict
    \<Rightarrow> (string, (string, real list) dict) dict \<Rightarrow> (string, (string, real list) dict) dict res" where
  "capture_holds el snapshot hs = foldR (\<lambda>(side, fs) h. foldR (hold_field snapshot side) fs h) (el_hold el) hs"

definition validate_chunk :: "eval_loop \<Rightarrow> reply \<Rightarrow> real list list res" where
  "validate_chunk el r =
     (case r of
        R1 xs \<Rightarrow> if length xs = ly_action_dim (el_layout el) then Inr [xs] else Inl ValueError
      | R2 rs \<Rightarrow> if rs \<noteq> [] \<and> list_all (\<lambda>x. length x = ly_action_dim (el_layout el)) rs then Inr rs else Inl ValueError
      | _ \<Rightarrow> Inl ValueError)"

definition trim :: "eval_loop \<Rightarrow> real list list \<Rightarrow> real list list" where
  "trim el chunk = (if el_replan_steps el > 0 then take (nat (el_replan_steps el)) chunk else chunk)"

text \<open>One arm of \<open>_execute\<close>: an action that cannot be packed is skipped for this arm.\<close>

definition execute_side :: "eval_loop \<Rightarrow> real list \<Rightarrow> (string \<times> side_action) list \<Rightarrow> int \<Rightarrow> string \<times> teleop_arm
    \<Rightarrow> eval_state \<Rightarrow> unit res \<times> eval_state" where
  "execute_side el action targets now_ns p st =
     (case p of (side, arm) \<Rightarrow>
      case rbind (ditem targets side) (\<lambda>tg. rbind (ditem (ly_field (el_layout el)) side) (\<lambda>f. Inr (sa_value tg))) of
        Inl e \<Rightarrow> (Inl e, st)
      | Inr primary \<Rightarrow>
          (case pack_action (ta_control arm) primary (dget (ev_held st) side) of
             Inl e \<Rightarrow> if e = ValueError then (Inr (), st) else (Inl e, st)
           | Inr sp \<Rightarrow>
               (case command side sp now_ns (ev_brain st) of
                  (Inl e, b) \<Rightarrow> (Inl e, st\<lparr>ev_brain := b\<rparr>)
                | (Inr u, b) \<Rightarrow> (Inr (), st\<lparr>ev_brain := b, ev_posted := ev_posted st @ [(action, side, sp)]\<rparr>))))"

definition execute :: "eval_loop \<Rightarrow> real list \<Rightarrow> int \<Rightarrow> eval_state \<Rightarrow> unit res \<times> eval_state" where
  "execute el action now_ns st =
     (case layout_split (el_layout el) action of
        Inl e \<Rightarrow> (Inl e, st)
      | Inr targets \<Rightarrow> foldE (execute_side el action targets now_ns) (el_arms el) st)"

text \<open>What a tick meets: the stop event, the snapshot, the policy's answer, the time of the posts.\<close>

record eval_tick =
  et_stop :: bool
  et_snapshot :: "(string, real samples) dict res"
  et_reply :: "reply res"
  et_ns :: int

text \<open>The inference of a tick with no pending action: \<open>Inr False\<close> holds.\<close>

definition infer :: "eval_loop \<Rightarrow> eval_tick \<Rightarrow> eval_state \<Rightarrow> bool res \<times> eval_state" where
  "infer el t st =
     (case rbind (et_snapshot t) (\<lambda>snap. rbind (observe_frame (el_observer el) snap) (\<lambda>fr. Inr (snap, fr))) of
        Inl e \<Rightarrow> (Inl e, st)
      | Inr (snap, None) \<Rightarrow> (Inr False, st)
      | Inr (snap, Some fr) \<Rightarrow>
          (case capture_holds el snap (ev_held st) of
             Inl e \<Rightarrow> (Inl e, st)
           | Inr hs \<Rightarrow>
               let st1 = st\<lparr>ev_held := hs\<rparr> in
               (case et_reply t of
                  Inl e \<Rightarrow>
                    if e = PolicyError
                    then let st2 = st1\<lparr>ev_errors := ev_errors st1 + 1, ev_replies := ev_replies st1 @ [False]\<rparr> in
                      if ev_errors st2 \<ge> el_max_errors el then (Inl PolicyError, st2) else (Inr False, st2)
                    else (Inl e, st1)
                | Inr r \<Rightarrow>
                    let st2 = st1\<lparr>ev_errors := 0, ev_inferences := ev_inferences st1 + 1, ev_replies := ev_replies st1 @ [True]\<rparr> in
                    (case validate_chunk el r of
                       Inl e \<Rightarrow> (Inl e, st2)
                     | Inr chunk \<Rightarrow> (Inr True, st2\<lparr>ev_chunks := ev_chunks st2 @ [chunk], ev_pending := ev_pending st2 @ trim el chunk\<rparr>)))))"

definition act :: "eval_loop \<Rightarrow> eval_tick \<Rightarrow> eval_state \<Rightarrow> bool res \<times> eval_state" where
  "act el t st =
     (case ev_pending st of
        [] \<Rightarrow> (Inl IndexError, st)
      | a # rest \<Rightarrow>
          (case execute el a (et_ns t) (st\<lparr>ev_pending := rest, ev_executed := ev_executed st @ [a]\<rparr>) of
             (Inl e, st1) \<Rightarrow> (Inl e, st1)
           | (Inr u, st1) \<Rightarrow> (Inr True, st1)))"

definition eval_tick_step :: "eval_loop \<Rightarrow> eval_tick \<Rightarrow> eval_state \<Rightarrow> bool res \<times> eval_state" where
  "eval_tick_step el t st =
     (if ev_pending st \<noteq> [] then act el t st
      else case infer el t st of
        (Inr True, st1) \<Rightarrow> act el t st1
      | r \<Rightarrow> r)"

fun eval_run :: "eval_loop \<Rightarrow> eval_tick list \<Rightarrow> eval_state \<Rightarrow> (unit res \<times> eval_state) option" where
  "eval_run el [] st = None"
| "eval_run el (t # ts) st =
     (if et_stop t \<or> ev_done st \<ge> el_num_timesteps el then Some (Inr (), st)
      else case eval_tick_step el t st of
        (Inl e, st1) \<Rightarrow> Some (Inl e, st1)
      | (Inr b, st1) \<Rightarrow> eval_run el ts (if b then st1\<lparr>ev_done := ev_done st1 + 1\<rparr> else st1))"

section \<open>The node\<close>

definition horizon_stream_name :: "string \<Rightarrow> string" where
  "horizon_stream_name side = ''eval/'' @ side @ ''/q_horizon''"

definition eef_horizon_stream_name :: "string \<Rightarrow> string" where
  "eef_horizon_stream_name side = ''eval/'' @ side @ ''/eef_horizon''"

definition comm_stream_name :: string where
  "comm_stream_name = ''eval/policy_comm''"

text \<open>The streams the node owns for display: one per side whose control kind predicts motion, then the policy's events.\<close>

definition viz_spec :: "(string, teleop_arm) dict \<Rightarrow> real \<Rightarrow> string \<Rightarrow> stream_spec option res" where
  "viz_spec arms rate side =
     rbind (ditem arms side) (\<lambda>arm.
     case horizon_kind (ta_control arm) of
       None \<Rightarrow> Inr None
     | Some hk \<Rightarrow>
         rbind (if hk = ''q'' then mk_stream_spec (horizon_stream_name side) (int (ta_dof arm)) 4096 ''float64'' (Some rate)
                else mk_stream_spec (eef_horizon_stream_name side) 3 64 ''float64'' (Some rate)) (\<lambda>sp. Inr (Some sp)))"

record eval_world =
  wl_timeout :: real
  wl_attach_start :: real
  wl_attach :: "real poll list"
  wl_io :: "string \<Rightarrow> leaf \<Rightarrow> io_outcome"
  wl_viz_io :: "string \<Rightarrow> io_outcome"
  wl_run_id :: string
  wl_pid :: int
  wl_rate_hz :: real
  wl_policy :: "unit res"
  wl_num_timesteps :: int
  wl_replan_steps :: int
  wl_max_errors :: int
  wl_ticks :: "eval_tick list"
  wl_close_fails :: "string \<Rightarrow> bool"
  wl_stop_ns :: int

type_synonym viz_streams = "(string \<times> stream_writer) list \<times> real run_store"

definition add_viz :: "eval_world \<Rightarrow> stream_spec \<Rightarrow> viz_streams \<Rightarrow> unit res \<times> viz_streams" where
  "add_viz wl spec vz =
     (case writer_create 0 (wl_viz_io wl (ss_name spec)) (wl_run_id wl) STREAMS (wl_pid wl) spec (snd vz) of
        (Inl e, w) \<Rightarrow> (Inl e, (fst vz, w))
      | (Inr wr, w) \<Rightarrow> (Inr (), (fst vz @ [(ss_name spec, wr)], w)))"

definition open_viz_side :: "eval_world \<Rightarrow> (string, teleop_arm) dict \<Rightarrow> string \<Rightarrow> viz_streams \<Rightarrow> unit res \<times> viz_streams" where
  "open_viz_side wl arms side vz =
     (case viz_spec arms (wl_rate_hz wl) side of
        Inl e \<Rightarrow> (Inl e, vz)
      | Inr None \<Rightarrow> (Inr (), vz)
      | Inr (Some spec) \<Rightarrow> add_viz wl spec vz)"

definition open_comm :: "eval_world \<Rightarrow> viz_streams \<Rightarrow> unit res \<times> viz_streams" where
  "open_comm wl vz =
     (case mk_stream_spec comm_stream_name 3 512 ''float64'' (Some (wl_rate_hz wl)) of
        Inl e \<Rightarrow> (Inl e, vz)
      | Inr spec \<Rightarrow> add_viz wl spec vz)"

text \<open>The \<open>finally\<close>: the display streams go (the events first), the arms are stopped, the brain is closed.\<close>

definition eval_hand_back :: "eval_world \<Rightarrow> (string \<times> stream_writer) list \<Rightarrow> brain_state \<Rightarrow> brain_state" where
  "eval_hand_back wl vs bs =
     brain_close (stop_arms (wl_stop_ns wl)
       (fst bs, fold (release_stream (wl_close_fails wl)) (if vs = [] then [] else last vs # butlast vs) (snd bs)))"

definition eval_drive :: "frame_builder \<Rightarrow> dfc_layout \<Rightarrow> (string, teleop_arm) dict \<Rightarrow> eval_world \<Rightarrow> (string \<times> stream_writer) list
    \<Rightarrow> brain_state \<Rightarrow> (unit res \<times> brain_state) option" where
  "eval_drive fb ly arms wl vs bs =
     (case rbind (wl_policy wl) (\<lambda>u. mk_eval_loop fb ly arms (wl_num_timesteps wl) (wl_replan_steps wl) (wl_max_errors wl)) of
        Inl e \<Rightarrow> Some (Inl e, eval_hand_back wl vs bs)
      | Inr el \<Rightarrow> map_option (\<lambda>(r, st). (r, eval_hand_back wl vs (ev_brain st))) (eval_run el (wl_ticks wl) (fresh_eval bs)))"

definition eval_subscribe :: "frame_builder \<Rightarrow> dfc_layout \<Rightarrow> (string, teleop_arm) dict \<Rightarrow> string list res" where
  "eval_subscribe fb ly arms =
     rbind (mapR (\<lambda>(s, a). hold_stream_names s (ta_control a)) (filter (\<lambda>(s, a). ta_control_enabled a) arms)) (\<lambda>hs.
     rbind (mapR (\<lambda>s. rbind (ditem arms s) (\<lambda>a. Inr (map (\<lambda>g. s @ ''/'' @ g) (horizon_signals (ta_control a))))) (ly_sides ly)) (\<lambda>vs.
     Inr (rev (remdups (rev (fb_stream_names fb @ concat hs @ concat vs))))))"

definition eval_node_run ::
    "(string, arm_cfg) dict \<Rightarrow> (string, nat) dict \<Rightarrow> (string, camera_cfg) dict \<Rightarrow> string \<Rightarrow> string list \<Rightarrow> (string, teleop_arm) dict
     \<Rightarrow> eval_world \<Rightarrow> brain_state \<Rightarrow> (unit res \<times> brain_state) option" where
  "eval_node_run cfgs dofs cameras instruction signals arms wl bs =
     (let driven = filter (\<lambda>(s, a). ta_control_enabled a) arms;
          action_sides = (if driven = [] then dkeys arms else dkeys driven) in
      case rbind (mk_observer cfgs dofs cameras instruction signals) (\<lambda>fb.
             rbind (mk_layout cfgs signals action_sides) (\<lambda>ly.
             rbind (eval_subscribe fb ly arms) (\<lambda>names. Inr (fb, ly, names)))) of
        Inl e \<Rightarrow> Some (Inl e, bs)
      | Inr (fb, ly, names) \<Rightarrow>
          (case brain_attach names (wl_timeout wl) (wl_attach_start wl) (wl_attach wl) bs of
             None \<Rightarrow> None
           | Some (Inl e, b1) \<Rightarrow> if e = AttachAborted then Some (Inr (), brain_close b1) else Some (Inl e, b1)
           | Some (Inr u, b1) \<Rightarrow>
               (case mapR (\<lambda>(s, a). rbind (control_specs s (ta_control a)) (\<lambda>sp. Inr (s, sp))) driven of
                  Inl e \<Rightarrow> Some (Inl e, b1)
                | Inr specs \<Rightarrow>
                    (case open_control (wl_io wl) (wl_run_id wl) (wl_pid wl) specs b1 of
                       (Inl e, b2) \<Rightarrow> Some (Inl e, b2)
                     | (Inr u, b2) \<Rightarrow>
                         (case foldE (open_viz_side wl arms) (ly_sides ly) ([], snd b2) of
                            (Inl e, (vs, w)) \<Rightarrow> Some (Inl e, (fst b2, w))
                          | (Inr u, vz) \<Rightarrow>
                              (case open_comm wl vz of
                                 (Inl e, (vs, w)) \<Rightarrow> Some (Inl e, (fst b2, w))
                               | (Inr u, (vs, w)) \<Rightarrow> eval_drive fb ly driven wl vs (fst b2, w)))))))"

section \<open>Executing a plan\<close>

definition from_action :: "eval_loop \<Rightarrow> (string, (string, real list) dict) dict \<Rightarrow> real list \<Rightarrow> real list \<times> string \<times> real list \<Rightarrow> bool" where
  "from_action el hs a x \<longleftrightarrow> fst x = a \<and> (\<exists>arm targets tg. (fst (snd x), arm) \<in> set (el_arms el) \<and> layout_split (el_layout el) a = Inr targets
     \<and> dget targets (fst (snd x)) = Some tg \<and> pack_action (ta_control arm) (sa_value tg) (dget hs (fst (snd x))) = Inr (snd (snd x)))"

text \<open>Executing an action changes the channels and the record of posts only.\<close>

definition only_posts :: "eval_loop \<Rightarrow> real list \<Rightarrow> eval_state \<Rightarrow> eval_state \<Rightarrow> bool" where
  "only_posts el a st st' \<longleftrightarrow> st' = st\<lparr>ev_brain := ev_brain st', ev_posted := ev_posted st'\<rparr>
     \<and> (\<exists>l. ev_posted st' = ev_posted st @ l \<and> (\<forall>x \<in> set l. from_action el (ev_held st) a x))"

lemma only_posts_refl: "only_posts el a st st"
  by (auto simp: only_posts_def)

lemma only_posts_trans:
  assumes "only_posts el a s t" "only_posts el a t u"
  shows "only_posts el a s u"
proof -
  obtain l1 l2 where l: "ev_posted t = ev_posted s @ l1" "\<forall>x \<in> set l1. from_action el (ev_held s) a x"
      "ev_posted u = ev_posted t @ l2" "\<forall>x \<in> set l2. from_action el (ev_held t) a x"
    using assms unfolding only_posts_def by blast
  have t: "t = s\<lparr>ev_brain := ev_brain t, ev_posted := ev_posted t\<rparr>" and u: "u = t\<lparr>ev_brain := ev_brain u, ev_posted := ev_posted u\<rparr>"
    using assms unfolding only_posts_def by blast+
  have "ev_held t = ev_held s" by (subst t) simp
  moreover have "u = s\<lparr>ev_brain := ev_brain u, ev_posted := ev_posted u\<rparr>" by (subst u, subst t) simp
  ultimately show ?thesis using l unfolding only_posts_def by (intro conjI exI[of _ "l1 @ l2"]) auto
qed

lemma execute_side_posts:
  assumes "execute_side el a targets ns p st = (r, st')" "p \<in> set (el_arms el)" "layout_split (el_layout el) a = Inr targets"
  shows "only_posts el a st st'"
proof -
  obtain side arm where p: "p = (side, arm)" by (cases p)
  show ?thesis
  proof (cases "rbind (ditem targets side) (\<lambda>tg. rbind (ditem (ly_field (el_layout el)) side) (\<lambda>f. Inr (sa_value tg)))")
    case (Inl e)
    then show ?thesis using assms(1) by (simp add: execute_side_def p only_posts_refl)
  next
    case (Inr v)
    then obtain tg where tg: "dget targets side = Some tg" "v = sa_value tg" by (auto simp: ditem_Inr)
    show ?thesis
    proof (cases "pack_action (ta_control arm) v (dget (ev_held st) side)")
      case (Inl e)
      then show ?thesis using assms(1) Inr by (simp add: execute_side_def p only_posts_refl split: if_splits)
    next
      case (Inr sp)
      obtain q b where q: "command side sp ns (ev_brain st) = (q, b)" by (meson surj_pair)
      have f: "from_action el (ev_held st) a (a, side, sp)"
        using assms(2,3) tg Inr by (auto simp: from_action_def p)
      show ?thesis using assms(1) \<open>rbind _ _ = Inr v\<close> Inr q f
        by (cases q) (auto simp: execute_side_def p only_posts_def)
    qed
  qed
qed

lemma execute_posts: "execute el a ns st = (r, st') \<Longrightarrow> only_posts el a st st'"
proof (cases "layout_split (el_layout el) a")
  case (Inr targets)
  assume "execute el a ns st = (r, st')"
  then have f: "foldE (execute_side el a targets ns) (el_arms el) st = (r, st')" by (simp add: execute_def Inr)
  show ?thesis
  proof (rule foldE_invariant[OF f, of "only_posts el a st"])
    fix x s q t
    assume "x \<in> set (el_arms el)" "only_posts el a st s" "execute_side el a targets ns x s = (q, t)"
    then show "only_posts el a st t" using execute_side_posts[OF _ _ Inr] only_posts_trans by blast
  qed (rule only_posts_refl)
qed (simp add: execute_def only_posts_refl)

text \<open>The plan of a state: what was executed and what is pending are the trimmed chunks; every post comes from an executed action.\<close>

definition plan_inv :: "eval_loop \<Rightarrow> eval_state \<Rightarrow> bool" where
  "plan_inv el st \<longleftrightarrow> ev_executed st @ ev_pending st = concat (map (trim el) (ev_chunks st))
     \<and> (\<forall>x \<in> set (ev_posted st). fst x \<in> set (ev_executed st) \<and> (\<exists>hs. from_action el hs (fst x) x))
     \<and> (\<forall>c \<in> set (ev_chunks st). c \<noteq> [] \<and> (\<forall>a \<in> set c. length a = ly_action_dim (el_layout el)))"

definition failures :: "bool list \<Rightarrow> nat" where
  "failures rs = length (takeWhile Not (rev rs))"

definition budget_inv :: "eval_loop \<Rightarrow> eval_state \<Rightarrow> bool" where
  "budget_inv el st \<longleftrightarrow> ev_errors st = int (failures (ev_replies st)) \<and> ev_errors st < el_max_errors el"

lemma failures_snoc [simp]: "failures (rs @ [b]) = (if b then 0 else Suc (failures rs))"
  by (simp add: failures_def)

lemma validate_chunk_ok: "validate_chunk el r = Inr c \<Longrightarrow> c \<noteq> [] \<and> (\<forall>a \<in> set c. length a = ly_action_dim (el_layout el))"
  by (auto simp: validate_chunk_def list_all_iff split: reply.splits if_splits)

lemma trim_nonempty: "c \<noteq> [] \<Longrightarrow> trim el c \<noteq> []"
  by (auto simp: trim_def)

text \<open>The three ways an inference changes the state.\<close>

lemma infer_cases:
  assumes "infer el t st = (r, st')"
  obtains (quiet) hs where "st' = st\<lparr>ev_held := hs\<rparr>" "r \<noteq> Inr True"
  | (failed) hs where "st' = st\<lparr>ev_held := hs, ev_errors := ev_errors st + 1, ev_replies := ev_replies st @ [False]\<rparr>"
      "r = (if ev_errors st + 1 \<ge> el_max_errors el then Inl PolicyError else Inr False)"
  | (refused) hs e where "st' = st\<lparr>ev_held := hs, ev_errors := 0, ev_inferences := ev_inferences st + 1, ev_replies := ev_replies st @ [True]\<rparr>" "r = Inl e"
  | (planned) hs chunk rep where "st' = st\<lparr>ev_held := hs, ev_errors := 0, ev_inferences := ev_inferences st + 1, ev_replies := ev_replies st @ [True],
        ev_chunks := ev_chunks st @ [chunk], ev_pending := ev_pending st @ trim el chunk\<rparr>" "r = Inr True" "validate_chunk el rep = Inr chunk"
proof -
  show thesis
  proof (cases "rbind (et_snapshot t) (\<lambda>snap. rbind (observe_frame (el_observer el) snap) (\<lambda>fr. Inr (snap, fr)))")
    case (Inl e)
    then show thesis using assms quiet[of "ev_held st"] by (auto simp: infer_def)
  next
    case (Inr sf)
    obtain snap fro where sf: "sf = (snap, fro)" by (cases sf)
    show thesis
    proof (cases fro)
      case None
      then show thesis using assms Inr sf quiet[of "ev_held st"] by (auto simp: infer_def)
    next
      case (Some fr)
      show thesis
      proof (cases "capture_holds el snap (ev_held st)")
        case (Inl e)
        then show thesis using assms Inr sf Some quiet[of "ev_held st"] by (auto simp: infer_def)
      next
        case hs: (Inr hs)
        show thesis
        proof (cases "et_reply t")
          case (Inl e)
          then show thesis using assms Inr sf Some hs quiet[of hs] failed[of hs] by (auto simp: infer_def Let_def split: if_splits)
        next
          case rep: (Inr rep)
          show thesis
          proof (cases "validate_chunk el rep")
            case (Inl e)
            then show thesis by (intro refused[of hs e]) (use assms Inr sf Some hs rep \<open>rbind _ _ = Inr sf\<close> in \<open>auto simp: infer_def Let_def\<close>)
          next
            case vc: (Inr chunk)
            then show thesis by (intro planned[OF _ _ vc]) (use assms Inr sf Some hs rep in \<open>auto simp: infer_def Let_def\<close>)
          qed
        qed
      qed
    qed
  qed
qed

lemma infer_plan:
  assumes inf: "infer el t st = (r, st')" and inv: "plan_inv el st"
  shows "plan_inv el st' \<and> ev_executed st' = ev_executed st \<and> ev_done st' = ev_done st \<and> ev_brain st' = ev_brain st
    \<and> ev_posted st' = ev_posted st \<and> (r = Inr True \<longrightarrow> ev_pending st' \<noteq> [])"
  using inf
proof (cases rule: infer_cases)
  case (planned hs chunk rep)
  have "chunk \<noteq> []" "\<forall>a \<in> set chunk. length a = ly_action_dim (el_layout el)" using validate_chunk_ok[OF planned(3)] by auto
  then show ?thesis using inv trim_nonempty[of chunk el] by (simp add: planned(1) plan_inv_def append_assoc[symmetric] del: append_assoc)
qed (use inv in \<open>simp_all add: plan_inv_def\<close>)

lemma infer_budget:
  assumes inf: "infer el t st = (r, st')" and inv: "budget_inv el st" and pos: "0 < el_max_errors el"
  shows "ev_errors st' = int (failures (ev_replies st')) \<and> ev_errors st' \<le> el_max_errors el
    \<and> (ev_errors st' = el_max_errors el \<longrightarrow> r = Inl PolicyError)"
  using inf by (cases rule: infer_cases) (use inv pos in \<open>auto simp: budget_inv_def split: if_splits\<close>)

lemma act_plan:
  assumes act: "act el t st = (r, st')" and inv: "plan_inv el st" and p: "ev_pending st \<noteq> []"
  shows "plan_inv el st' \<and> ev_done st' = ev_done st \<and> length (ev_executed st') = Suc (length (ev_executed st))
    \<and> ev_errors st' = ev_errors st \<and> ev_replies st' = ev_replies st \<and> r \<noteq> Inr False"
proof -
  obtain a as where p: "ev_pending st = a # as" using p by (cases "ev_pending st") auto
  let ?s = "st\<lparr>ev_pending := as, ev_executed := ev_executed st @ [a]\<rparr>"
  obtain q u where q: "execute el a (et_ns t) ?s = (q, u)" by (meson surj_pair)
  have u: "u = ?s\<lparr>ev_brain := ev_brain u, ev_posted := ev_posted u\<rparr>" and "\<exists>l. ev_posted u = ev_posted ?s @ l \<and> (\<forall>x \<in> set l. from_action el (ev_held ?s) a x)"
    using execute_posts[OF q] unfolding only_posts_def by blast+
  then obtain l where l: "ev_posted u = ev_posted st @ l" "\<forall>x \<in> set l. from_action el (ev_held st) a x" by auto
  have fs: "ev_executed u = ev_executed st @ [a]" "ev_pending u = as" "ev_chunks u = ev_chunks st" "ev_done u = ev_done st"
      "ev_errors u = ev_errors st" "ev_replies u = ev_replies st"
    by (subst u, simp)+
  have "fst x \<in> set (ev_executed u) \<and> (\<exists>hs. from_action el hs (fst x) x)" if "x \<in> set (ev_posted u)" for x
  proof (cases "x \<in> set l")
    case True
    then have "from_action el (ev_held st) a x" "fst x = a" using l(2) by (auto simp: from_action_def)
    then show ?thesis using fs(1) by auto
  next
    case False
    then show ?thesis using that l(1) inv fs(1) by (auto simp: plan_inv_def)
  qed
  then have "plan_inv el u" using inv p fs unfolding plan_inv_def by simp
  moreover have "st' = u" "r \<noteq> Inr False" using act p q by (auto simp: act_def split: sum.splits)
  ultimately show ?thesis using fs by simp
qed

text \<open>One tick: what it keeps, what it counts, and that a held tick moves nothing.\<close>

lemma tick_plan:
  assumes tick: "eval_tick_step el t st = (r, st')" and inv: "plan_inv el st"
  shows "plan_inv el st' \<and> ev_done st' = ev_done st \<and> length (ev_executed st') \<le> Suc (length (ev_executed st))
    \<and> (r = Inr True \<longrightarrow> length (ev_executed st') = Suc (length (ev_executed st)))
    \<and> (r = Inr False \<longrightarrow> ev_executed st' = ev_executed st \<and> ev_brain st' = ev_brain st \<and> ev_posted st' = ev_posted st)"
proof (cases "ev_pending st = []")
  case False
  then have "act el t st = (r, st')" using tick by (simp add: eval_tick_step_def)
  from act_plan[OF this inv False] show ?thesis by auto
next
  case True
  obtain q u where q: "infer el t st = (q, u)" by (meson surj_pair)
  note i = infer_plan[OF q inv]
  show ?thesis
  proof (cases "q = Inr True")
    case go: True
    then have a: "act el t u = (r, st')" using tick q True by (simp add: eval_tick_step_def)
    have "ev_pending u \<noteq> []" "plan_inv el u" using i go by blast+
    from act_plan[OF a this(2,1)] i show ?thesis by auto
  next
    case False
    then have "st' = u" "r = q" using tick q True by (auto simp: eval_tick_step_def split: sum.splits bool.splits)
    then show ?thesis using i False by auto
  qed
qed

lemma tick_budget:
  assumes tick: "eval_tick_step el t st = (r, st')" and inv: "plan_inv el st" "budget_inv el st" and pos: "0 < el_max_errors el"
  shows "ev_errors st' = int (failures (ev_replies st')) \<and> ev_errors st' \<le> el_max_errors el
    \<and> (ev_errors st' = el_max_errors el \<longrightarrow> r = Inl PolicyError)"
proof (cases "ev_pending st = []")
  case False
  then have "act el t st = (r, st')" using tick by (simp add: eval_tick_step_def)
  from act_plan[OF this inv(1) False] show ?thesis using inv(2) by (auto simp: budget_inv_def)
next
  case True
  obtain q u where q: "infer el t st = (q, u)" by (meson surj_pair)
  note i = infer_plan[OF q inv(1)] and b = infer_budget[OF q inv(2) pos]
  show ?thesis
  proof (cases "q = Inr True")
    case go: True
    then have a: "act el t u = (r, st')" using tick q True by (simp add: eval_tick_step_def)
    have "ev_pending u \<noteq> []" "plan_inv el u" using i go by blast+
    from act_plan[OF a this(2,1)] b go show ?thesis by auto
  next
    case False
    then have "st' = u" "r = q" using tick q True by (auto simp: eval_tick_step_def split: sum.splits bool.splits)
    then show ?thesis using b by auto
  qed
qed

lemma plan_inv_done [simp]: "plan_inv el (st\<lparr>ev_done := k\<rparr>) = plan_inv el st"
  by (simp add: plan_inv_def)

lemma run_plan:
  assumes "eval_run el ts st = Some (r, st')" "plan_inv el st" "budget_inv el st" "0 < el_max_errors el"
    "int (length (ev_executed st)) = ev_done st" "ev_done st \<le> el_num_timesteps el"
  shows "plan_inv el st' \<and> int (length (ev_executed st')) \<le> el_num_timesteps el
    \<and> (r = Inr () \<longrightarrow> int (length (ev_executed st')) = ev_done st' \<and> ((\<exists>t \<in> set ts. et_stop t) \<or> ev_done st' = el_num_timesteps el))
    \<and> ev_errors st' = int (failures (ev_replies st')) \<and> ev_errors st' \<le> el_max_errors el
    \<and> (ev_errors st' = el_max_errors el \<longrightarrow> r = Inl PolicyError)"
  using assms
proof (induction ts arbitrary: st)
  case (Cons t ts)
  show ?case
  proof (cases "et_stop t \<or> ev_done st \<ge> el_num_timesteps el")
    case True
    then have "st' = st" "r = Inr ()" using Cons.prems(1) by auto
    then show ?thesis using True Cons.prems(2-6) by (auto simp: budget_inv_def)
  next
    case False
    obtain q u where q: "eval_tick_step el t st = (q, u)" by (meson surj_pair)
    note p = tick_plan[OF q Cons.prems(2)] and b = tick_budget[OF q Cons.prems(2-4)]
    show ?thesis
    proof (cases q)
      case (Inl e)
      then have "st' = u" "r = Inl e" using Cons.prems(1) False q by auto
      then show ?thesis using p b Inl Cons.prems(5) False by auto
    next
      case (Inr c)
      let ?v = "if c then u\<lparr>ev_done := ev_done u + 1\<rparr> else u"
      have run: "eval_run el ts ?v = Some (r, st')" using Cons.prems(1) False q Inr by simp
      have "plan_inv el ?v" using p by simp
      moreover have "budget_inv el ?v" using b Inr by (auto simp: budget_inv_def)
      moreover have "int (length (ev_executed ?v)) = ev_done ?v" "ev_done ?v \<le> el_num_timesteps el"
        using p Inr Cons.prems(5) False by (cases c; force)+
      ultimately show ?thesis using Cons.IH[OF run _ _ Cons.prems(4)] by auto
    qed
  qed
qed simp

lemma mk_eval_loop_fields:
  assumes "mk_eval_loop fb ly arms num replan maxe = Inr el"
  shows "el_arms el = arms" "el_layout el = ly" "el_num_timesteps el = max 1 num" "el_max_errors el = max 1 maxe"
  using assms by (auto simp: mk_eval_loop_def)

lemma fresh_eval_inv: "0 < el_max_errors el \<Longrightarrow> plan_inv el (fresh_eval bs) \<and> budget_inv el (fresh_eval bs)"
  by (simp add: plan_inv_def budget_inv_def fresh_eval_def failures_def)

text \<open>
  C19. A rollout executes the policy's plan and nothing else. The actions executed, followed by those still pending, are the
  validated chunks, each cut at the replanning horizon, in the order they were inferred; every setpoint posted to an arm is the
  packing of that arm's part of an executed action; there are never more actions than timesteps asked for, and a run that ends without an
  exception has executed exactly its count of timesteps, all of them unless it was stopped.
\<close>

theorem eval_executes_plan:
  assumes "mk_eval_loop fb ly arms num replan maxe = Inr el" "eval_run el ts (fresh_eval bs) = Some (r, st)"
  shows "ev_executed st @ ev_pending st = concat (map (trim el) (ev_chunks st))
    \<and> (\<forall>x \<in> set (ev_posted st). fst x \<in> set (ev_executed st) \<and> (\<exists>hs. from_action el hs (fst x) x))
    \<and> (\<forall>c \<in> set (ev_chunks st). \<forall>a \<in> set c. length a = ly_action_dim ly)
    \<and> int (length (ev_executed st)) \<le> max 1 num
    \<and> (r = Inr () \<longrightarrow> int (length (ev_executed st)) = ev_done st \<and> ((\<exists>t \<in> set ts. et_stop t) \<or> ev_done st = max 1 num))"
proof -
  note f = mk_eval_loop_fields[OF assms(1)]
  have z: "0 < el_max_errors el" "int (length (ev_executed (fresh_eval bs))) = ev_done (fresh_eval bs)" "ev_done (fresh_eval bs) \<le> el_num_timesteps el"
    using f by (auto simp: fresh_eval_def)
  note all = run_plan[OF assms(2) fresh_eval_inv[OF z(1), THEN conjunct1] fresh_eval_inv[OF z(1), THEN conjunct2] z]
  show ?thesis using all[unfolded plan_inv_def f(2,3)] by (elim conjE) (intro conjI; blast)
qed

text \<open>
  The error budget is exact. At any end of a rollout the error counter is the number of inference failures since the last success and never
  exceeds the budget (at least one); the budget is used up only in a rollout that aborts with the policy's error, so a
  shorter streak never ends it; and a tick whose inference fails posts nothing.
\<close>

theorem eval_error_budget:
  assumes "mk_eval_loop fb ly arms num replan maxe = Inr el" "eval_run el ts (fresh_eval bs) = Some (r, st)"
  shows "ev_errors st = int (failures (ev_replies st)) \<and> ev_errors st \<le> max 1 maxe
    \<and> (ev_errors st = max 1 maxe \<longrightarrow> r = Inl PolicyError)
    \<and> (\<forall>s t. ev_pending s = [] \<and> et_reply t = Inl PolicyError \<longrightarrow>
         ev_brain (snd (eval_tick_step el t s)) = ev_brain s \<and> ev_posted (snd (eval_tick_step el t s)) = ev_posted s)"
proof -
  note f = mk_eval_loop_fields[OF assms(1)]
  have z: "0 < el_max_errors el" "int (length (ev_executed (fresh_eval bs))) = ev_done (fresh_eval bs)" "ev_done (fresh_eval bs) \<le> el_num_timesteps el"
    using f by (auto simp: fresh_eval_def)
  have quiet: "ev_brain (snd (eval_tick_step el t s)) = ev_brain s \<and> ev_posted (snd (eval_tick_step el t s)) = ev_posted s"
    if h: "ev_pending s = []" "et_reply t = Inl PolicyError" for s t
  proof -
    obtain q u where q: "infer el t s = (q, u)" by (meson surj_pair)
    have "q \<noteq> Inr True" using q h(2) by (auto simp: infer_def Let_def split: sum.splits prod.splits option.splits if_splits)
    then have "eval_tick_step el t s = (q, u)" using q h(1) by (auto simp: eval_tick_step_def split: sum.splits bool.splits)
    moreover have "ev_brain u = ev_brain s \<and> ev_posted u = ev_posted s" using q by (cases rule: infer_cases) auto
    ultimately show ?thesis by simp
  qed
  note all = run_plan[OF assms(2) fresh_eval_inv[OF z(1), THEN conjunct1] fresh_eval_inv[OF z(1), THEN conjunct2] z]
  show ?thesis using all[unfolded f(4)] quiet by blast
qed

text \<open>
  A dry run moves nothing. With no arm under control, as the daemon configures an evaluation when a follower is blocked, the whole rollout posts no
  setpoint and leaves every channel as it was, whatever the policy answers.
\<close>

theorem dry_run_posts_nothing:
  assumes "mk_eval_loop fb ly [] num replan maxe = Inr el" "eval_run el ts (fresh_eval bs) = Some (r, st)"
  shows "ev_posted st = [] \<and> ev_brain st = bs"
proof -
  have ex: "ev_brain (snd (execute el a ns s)) = ev_brain s \<and> ev_posted (snd (execute el a ns s)) = ev_posted s" for a ns s
    using mk_eval_loop_fields(1)[OF assms(1)] by (simp add: execute_def split: sum.splits)
  have act: "ev_brain (snd (act el t s)) = ev_brain s \<and> ev_posted (snd (act el t s)) = ev_posted s" for t s
  proof (cases "ev_pending s")
    case (Cons a as)
    then show ?thesis using ex[of a "et_ns t" "s\<lparr>ev_pending := as, ev_executed := ev_executed s @ [a]\<rparr>"]
      by (auto simp: act_def split: prod.splits sum.splits)
  qed (simp add: act_def)
  have inf: "ev_brain (snd (infer el t s)) = ev_brain s \<and> ev_posted (snd (infer el t s)) = ev_posted s" for t s
  proof -
    obtain q u where q: "infer el t s = (q, u)" by (meson surj_pair)
    then show ?thesis by (cases rule: infer_cases) (simp_all add: q)
  qed
  have tick: "ev_brain (snd (eval_tick_step el t s)) = ev_brain s \<and> ev_posted (snd (eval_tick_step el t s)) = ev_posted s" for t s
    using act[of t s] act[of t "snd (infer el t s)"] inf[of t s]
    by (auto simp: eval_tick_step_def split: prod.splits sum.splits bool.splits)
  have "eval_run el ts s = Some (r, st) \<Longrightarrow> ev_posted st = ev_posted s \<and> ev_brain st = ev_brain s" for s
  proof (induction ts arbitrary: s)
    case (Cons t ts)
    then show ?case using tick[of t s] by (fastforce split: prod.splits sum.splits if_splits)
  qed simp
  from this[OF assms(2)] show ?thesis by (simp add: fresh_eval_def)
qed

section \<open>Adapters and the loop\<close>

context endpoint
begin

lemma accepted:
  assumes "decode s r = Inr out" "\<forall>row \<in> set out. length row = ly_action_dim (el_layout el)"
  shows "validate_chunk el (R2 out) = Inr out \<and> trim el out \<noteq> []"
  using assms decode_some[OF assms(1)] trim_nonempty by (auto simp: validate_chunk_def list_all_iff)

end

text \<open>
  What an adapter decodes the loop executes. If the configured action width is the layout's, every reply the adapter decodes is accepted by
  the loop as it is and gives it at least one action; for the ACME endpoint the same holds when every row of the reply has that width.
\<close>

theorem decoded_chunk_accepted:
  "(decode_actions cfg ad r = Inr out \<longrightarrow> 0 < ac_dim cfg \<longrightarrow> nat (ac_dim cfg) = ly_action_dim (el_layout el) \<longrightarrow>
      validate_chunk el (R2 out) = Inr out \<and> trim el out \<noteq> [])
   \<and> (acme_decode r = Inr out \<longrightarrow> (\<forall>row \<in> set out. length row = ly_action_dim (el_layout el)) \<longrightarrow>
      validate_chunk el (R2 out) = Inr out \<and> trim el out \<noteq> [])"
  using openpi.accepted[of cfg ad r out el] acme.accepted[of r out el] decode_rows_ok[of cfg ad r out] by auto

section \<open>A rollout\<close>

definition demo_eval_arm :: arm_cfg where
  "demo_eval_arm =
     \<lparr>ar_streams = [(''q'', \<lparr>sc_dim = 1, sc_dtype = ''float64'', sc_capacity = 8, sc_rate_hz = 50, sc_dummy = False\<rparr>)],
      ar_control = ta_control demo_teleop\<rparr>"

definition demo_layout :: dfc_layout where
  "demo_layout = (case mk_layout [(''left'', demo_eval_arm)] [''q''] [''left''] of Inr ly \<Rightarrow> ly | Inl e \<Rightarrow> empty_layout [] [] [])"

definition demo_observer :: frame_builder where
  "demo_observer = (case mk_observer [(''left'', demo_eval_arm)] [] [] ''pour'' [''q''] of Inr fb \<Rightarrow> fb
     | Inl e \<Rightarrow> \<lparr>fb_dof = [], fb_instruction = [], fb_state_signals = [], fb_video = True, fb_layout = empty_layout [] [] [], fb_images = []\<rparr>)"

definition demo_eval :: "(string, teleop_arm) dict \<Rightarrow> eval_loop" where
  "demo_eval arms = (case mk_eval_loop demo_observer demo_layout arms 3 2 2 of Inr el \<Rightarrow> el
     | Inl e \<Rightarrow> \<lparr>el_observer = demo_observer, el_layout = demo_layout, el_arms = [], el_num_timesteps = 0, el_replan_steps = 0, el_max_errors = 0, el_hold = []\<rparr>)"

definition demo_eval_tick :: "reply res \<Rightarrow> eval_tick" where
  "demo_eval_tick rep = \<lparr>et_stop = False,
     et_snapshot = Inr [(''left/q'', \<lparr>sm_data = [[0]], sm_t_ns = [0], sm_seq = [0], sm_overrun = False\<rparr>)], et_reply = rep, et_ns = 1\<rparr>"

definition demo_eval_brain :: brain_state where
  "demo_eval_brain = snd (open_control (\<lambda>s l. IoOk) ''run'' 1 demo_specs (empty_brain, demo_store))"

definition demo_ticks :: "eval_tick list" where
  "demo_ticks = map demo_eval_tick [Inl PolicyError, Inr (R2 [[1, 0], [2, 0], [3, 0]]), Inl PolicyError, Inr (R1 [4, 0]), Inr ROther]"

definition demo_failing :: "eval_tick list" where
  "demo_failing = map demo_eval_tick [Inl PolicyError, Inl PolicyError]"

lemma demo_eval_loop: "mk_eval_loop demo_observer demo_layout [(''left'', demo_teleop)] 3 2 2 = Inr (demo_eval [(''left'', demo_teleop)])"
  "mk_eval_loop demo_observer demo_layout [] 3 2 2 = Inr (demo_eval [])"
proof -
  have "case mk_eval_loop demo_observer demo_layout [(''left'', demo_teleop)] 3 2 2 of Inr el \<Rightarrow> True | Inl e \<Rightarrow> False" by code_simp
  then show "mk_eval_loop demo_observer demo_layout [(''left'', demo_teleop)] 3 2 2 = Inr (demo_eval [(''left'', demo_teleop)])"
    by (auto simp: demo_eval_def split: sum.splits)
  have "case mk_eval_loop demo_observer demo_layout [] 3 2 2 of Inr el \<Rightarrow> True | Inl e \<Rightarrow> False" by code_simp
  then show "mk_eval_loop demo_observer demo_layout [] 3 2 2 = Inr (demo_eval [])" by (auto simp: demo_eval_def split: sum.splits)
qed

text \<open>A failure is held, two of three actions are executed, then the policy is asked again.\<close>

lemma demo_rollout:
  "map_option (\<lambda>(r, st). (r, ev_executed st, map snd (ev_posted st), ev_replies st))
     (eval_run (demo_eval [(''left'', demo_teleop)]) demo_ticks (fresh_eval demo_eval_brain))
   = Some (Inr (), [[1, 0], [2, 0], [4, 0]], [(''left'', [1]), (''left'', [2]), (''left'', [4])], [False, True, True])"
  by code_simp

theorem eval_executes_plan_witness:
  "\<exists>st. eval_run (demo_eval [(''left'', demo_teleop)]) demo_ticks (fresh_eval demo_eval_brain) = Some (Inr (), st)
     \<and> ev_executed st = [[1, 0], [2, 0], [4, 0]] \<and> ev_done st = 3
     \<and> ev_executed st @ ev_pending st = concat (map (trim (demo_eval [(''left'', demo_teleop)])) (ev_chunks st))"
proof -
  obtain st where st: "eval_run (demo_eval [(''left'', demo_teleop)]) demo_ticks (fresh_eval demo_eval_brain) = Some (Inr (), st)"
      "ev_executed st = [[1, 0], [2, 0], [4, 0]]"
    using demo_rollout by (auto split: prod.splits)
  show ?thesis using eval_executes_plan[OF demo_eval_loop(1) st(1)] st by auto
qed

theorem eval_error_budget_witness:
  "\<exists>st. eval_run (demo_eval [(''left'', demo_teleop)]) demo_failing (fresh_eval demo_eval_brain)
       = Some (Inl PolicyError, st) \<and> ev_errors st = 2 \<and> failures (ev_replies st) = 2"
proof -
  have "map_option (\<lambda>(r, st). (r, ev_errors st))
      (eval_run (demo_eval [(''left'', demo_teleop)]) demo_failing (fresh_eval demo_eval_brain))
     = Some (Inl PolicyError, 2)" by code_simp
  then obtain st where st: "eval_run (demo_eval [(''left'', demo_teleop)]) demo_failing (fresh_eval demo_eval_brain)
       = Some (Inl PolicyError, st)" "ev_errors st = 2" by (auto split: prod.splits)
  show ?thesis using eval_error_budget[OF demo_eval_loop(1) st(1)] st by auto
qed

theorem dry_run_posts_nothing_witness:
  "\<exists>st. eval_run (demo_eval []) demo_ticks (fresh_eval demo_eval_brain) = Some (Inr (), st) \<and> length (ev_executed st) = 3
     \<and> ev_posted st = [] \<and> ev_brain st = demo_eval_brain"
proof -
  have "map_option (\<lambda>(r, st). (r, length (ev_executed st))) (eval_run (demo_eval []) demo_ticks (fresh_eval demo_eval_brain)) = Some (Inr (), 3)"
    by code_simp
  then obtain st where st: "eval_run (demo_eval []) demo_ticks (fresh_eval demo_eval_brain) = Some (Inr (), st)" "length (ev_executed st) = 3"
    by (auto split: prod.splits)
  show ?thesis using dry_run_posts_nothing[OF demo_eval_loop(2) st(1)] st by auto
qed

theorem decoded_chunk_accepted_witness:
  "validate_chunk (demo_eval []) (R2 [[2, 5], [4, 5]]) = Inr [[2, 5], [4, 5]]"
proof -
  have d: "decode_actions \<lparr>ac_dim = 2, ac_slices = [\<lparr>ic_source = [PInt 1], ic_target = [PInt 0]\<rparr>], ac_holds = [],
      ac_constants = [\<lparr>ik_value = 5, ik_target = [PInt 1]\<rparr>]\<rparr> None (R2 [[1, 2], [3, 4]]) = Inr [[2, 5], [4, 5]]" by code_simp
  have "ly_action_dim (el_layout (demo_eval [])) = 2" by code_simp
  then show ?thesis using decoded_chunk_accepted[THEN conjunct1, rule_format, OF d, of "demo_eval []"] by simp
qed

end
