(* ===== verification/Policy_Client.thy ===== *)
theory Policy_Client
  imports Policy_Loop
begin

text \<open>
  The policy behind the evaluation loop (\<^verbatim>\<open>policy/client.py\<close>): the WebSocket and HTTP transports as they see their connection, the remote
  policy that puts an adapter on a transport and reports its exchanges, the hold policy, and how one is built from the configuration. Shown:
  a reply is always the answer to its own request, every request reported as sent is reported as answered or failed, waiting for a
  server ends at the deadline, and the hold policy commands the measured joints.

  What the network does in a call is an argument. A failure the code handles (\<open>OSError\<close>, \<open>TimeoutError\<close>, the library's own exceptions) is
  \<open>Lost\<close>, any other exception is \<open>Raised\<close>.
\<close>

datatype 'a net = Got 'a | Lost | Raised py_error

section \<open>The WebSocket transport\<close>

text \<open>
  The connection, when there is one, is the list of requests sent on it that no reply was read for: the server answers them in order, one reply
  each.
\<close>

type_synonym conn = "nat list option"

record open_try =
  ot_connect :: "unit net"
  ot_metadata :: "unit net"

definition ws_open :: "open_try \<Rightarrow> conn \<Rightarrow> unit net \<times> conn" where
  "ws_open t ws = (case ot_connect t of Got u \<Rightarrow> (ot_metadata t, Some []) | r \<Rightarrow> (r, ws))"

definition ws_drop :: "conn \<Rightarrow> conn" where
  "ws_drop ws = None"

record connect_turn =
  ct_try :: open_try
  ct_stop :: bool
  ct_now :: real

fun ws_connect :: "real \<Rightarrow> connect_turn list \<Rightarrow> conn \<Rightarrow> (unit res \<times> conn) option" where
  "ws_connect deadline [] ws = None"
| "ws_connect deadline (t # ts) ws =
     (case ws_open (ct_try t) ws of
        (Got u, w) \<Rightarrow> Some (Inr (), w)
      | (Raised e, w) \<Rightarrow> Some (Inl e, w)
      | (Lost, w) \<Rightarrow>
          if ct_stop t then Some (Inl PolicyUnavailable, ws_drop w)
          else if ct_now t \<ge> deadline then Some (Inl PolicyUnavailable, ws_drop w)
          else ws_connect deadline ts (ws_drop w))"

text \<open>\<open>deps\<close>: whether the optional packages can be imported.\<close>

definition mk_websocket :: "bool \<Rightarrow> real \<Rightarrow> real \<Rightarrow> connect_turn list \<Rightarrow> (unit res \<times> conn) option" where
  "mk_websocket deps now connect_timeout_s ts =
     (if \<not> deps then Some (Inl PolicyUnavailable, None) else ws_connect (now + connect_timeout_s) ts None)"

datatype send_outcome = Sent | PackRaises py_error | SendLost | SendRaises py_error

text \<open>A received frame: text is the server's traceback, bytes are unpacked (which may raise).\<close>

datatype 'r frame = TextFrame | Packed "'r res"

record 'r exchange =
  ex_open :: open_try
  ex_send :: send_outcome
  ex_recv :: "'r frame net"

text \<open>The reply comes with the request the server answered by it.\<close>

definition ws_recv :: "'r frame net \<Rightarrow> nat list \<Rightarrow> (nat \<times> 'r) res \<times> conn" where
  "ws_recv r c =
     (case r of
        Lost \<Rightarrow> (Inl PolicyError, ws_drop (Some c))
      | Raised e \<Rightarrow> (Inl e, Some c)
      | Got TextFrame \<Rightarrow> (Inl PolicyError, ws_drop (Some (tl c)))
      | Got (Packed u) \<Rightarrow> (rbind u (\<lambda>x. Inr (hd c, x)), Some (tl c)))"

definition ws_infer :: "nat \<Rightarrow> 'r exchange \<Rightarrow> conn \<Rightarrow> (nat \<times> 'r) res \<times> conn" where
  "ws_infer q x ws =
     (case (case ws of None \<Rightarrow> ws_open (ex_open x) None | Some c \<Rightarrow> (Got (), ws)) of
        (Lost, w) \<Rightarrow> (Inl PolicyError, ws_drop w)
      | (Raised e, w) \<Rightarrow> (Inl e, w)
      | (Got u, w) \<Rightarrow>
          (case w of
             None \<Rightarrow> (Inl AttributeError, None)
           | Some c \<Rightarrow>
               (case ex_send x of
                  PackRaises e \<Rightarrow> (Inl e, w)
                | SendLost \<Rightarrow> (Inl PolicyError, ws_drop w)
                | SendRaises e \<Rightarrow> (Inl e, Some (c @ [q]))
                | Sent \<Rightarrow> ws_recv (ex_recv x) (c @ [q]))))"

section \<open>The HTTP transport\<close>

text \<open>One turn of the wait: \<open>Got ok\<close> is a response; \<open>rt_conventions\<close> is what is left of the conventions request after the exceptions it handles.\<close>

record ready_turn =
  rt_get :: "bool net"
  rt_conventions :: "unit res"
  rt_stop :: bool
  rt_now :: real

fun wait_ready :: "real \<Rightarrow> ready_turn list \<Rightarrow> unit res option" where
  "wait_ready deadline [] = None"
| "wait_ready deadline (t # ts) =
     (case rt_get t of
        Raised e \<Rightarrow> Some (Inl e)
      | Got True \<Rightarrow> Some (rt_conventions t)
      | _ \<Rightarrow>
          if rt_stop t then Some (Inl PolicyUnavailable)
          else if rt_now t \<ge> deadline then Some (Inl PolicyUnavailable)
          else wait_ready deadline ts)"

definition mk_http :: "bool \<Rightarrow> real \<Rightarrow> real \<Rightarrow> ready_turn list \<Rightarrow> unit res option" where
  "mk_http deps now connect_timeout_s ts =
     (if \<not> deps then Some (Inl PolicyUnavailable) else wait_ready (now + connect_timeout_s) ts)"

text \<open>The body of a response: no JSON, JSON that is no object, or an object with its \<open>success\<close> flag (true when absent).\<close>

datatype 'r body = NotJson | NotObject | Object bool 'r

record 'r http_call =
  hc_encode :: "unit res"
  hc_post :: "int net"
  hc_body :: "'r body"

definition http_infer :: "'r http_call \<Rightarrow> 'r res" where
  "http_infer h =
     rbind (hc_encode h) (\<lambda>u.
     case hc_post h of
       Lost \<Rightarrow> Inl PolicyError
     | Raised e \<Rightarrow> Inl e
     | Got status \<Rightarrow>
         if status \<noteq> 200 then Inl PolicyError
         else case hc_body h of
           NotJson \<Rightarrow> Inl PolicyError
         | NotObject \<Rightarrow> Inl AttributeError
         | Object success r \<Rightarrow> if success then Inr r else Inl PolicyError)"

section \<open>The remote policy\<close>

definition COMM_SENT :: real where "COMM_SENT = 0"
definition COMM_RECV :: real where "COMM_RECV = 1"
definition COMM_ERROR :: real where "COMM_ERROR = 2"

text \<open>\<open>rp_comm\<close> records the events handed to the hook; \<open>rp_transport\<close> is the transport's own state.\<close>

record 't remote =
  rp_adapter :: adapter
  rp_seq :: nat
  rp_transport :: 't
  rp_comm :: "(real \<times> nat \<times> real) list"

definition emit :: "real \<Rightarrow> nat \<Rightarrow> real \<Rightarrow> 't remote \<Rightarrow> 't remote" where
  "emit kind seq elapsed_s rp = rp\<lparr>rp_comm := rp_comm rp @ [(kind, seq, elapsed_s)]\<rparr>"

definition remote_infer ::
    "(real list option \<Rightarrow> adapter \<Rightarrow> 'p res \<times> adapter) \<Rightarrow> (adapter \<Rightarrow> 'r \<Rightarrow> real list list res)
     \<Rightarrow> (nat \<Rightarrow> 't \<Rightarrow> (nat \<times> 'r) res \<times> 't) \<Rightarrow> real \<Rightarrow> real list option \<Rightarrow> 't remote \<Rightarrow> real list list res \<times> 't remote" where
  "remote_infer enc dec transport elapsed_s obs rp =
     (case enc obs (rp_adapter rp) of
        (Inl e, ad) \<Rightarrow> (Inl e, rp\<lparr>rp_adapter := ad\<rparr>)
      | (Inr payload, ad) \<Rightarrow>
          (let seq = rp_seq rp + 1; rp1 = emit COMM_SENT seq 0 (rp\<lparr>rp_adapter := ad, rp_seq := seq\<rparr>) in
           case transport seq (rp_transport rp1) of
             (Inl e, t) \<Rightarrow> (Inl e, emit COMM_ERROR seq elapsed_s (rp1\<lparr>rp_transport := t\<rparr>))
           | (Inr (q, resp), t) \<Rightarrow> (dec ad resp, emit COMM_RECV seq elapsed_s (rp1\<lparr>rp_transport := t\<rparr>))))"

section \<open>The hold policy\<close>

text \<open>\<open>action[a:b] = x\<close> for numpy: a single value is repeated.\<close>

definition assign_slice :: "nat \<Rightarrow> nat \<Rightarrow> real list \<Rightarrow> real list \<Rightarrow> real list res" where
  "assign_slice a b x av =
     (if length x = b - a then Inr (put_slice a x av)
      else if length x = 1 then Inr (put_slice a (replicate (b - a) (hd x)) av)
      else Inl ValueError)"

definition hold_side :: "dfc_layout \<Rightarrow> (string, nat \<times> nat) dict \<Rightarrow> real list \<Rightarrow> string \<Rightarrow> real list \<Rightarrow> real list res" where
  "hold_side ly q_slices state side av =
     rbind (ditem (ly_field ly) side) (\<lambda>f.
     if f = ''q_d''
     then rbind (ditem (ly_primary ly) side) (\<lambda>(a, b).
          rbind (ditem q_slices side) (\<lambda>(c, d). assign_slice a b (slice c d state) av))
     else Inr av)"

definition hold_infer :: "dfc_layout \<Rightarrow> (string, nat \<times> nat) dict \<Rightarrow> int \<Rightarrow> real list \<Rightarrow> real list list res" where
  "hold_infer ly q_slices horizon state =
     rbind (foldR (hold_side ly q_slices state) (ly_sides ly) (replicate (ly_action_dim ly) 0))
       (\<lambda>action. Inr (replicate (nat (max 1 horizon)) action))"

section \<open>Building a policy\<close>

definition hold_q_slices :: "frame_builder \<Rightarrow> dfc_layout \<Rightarrow> (string, nat \<times> nat) dict res" where
  "hold_q_slices observer ly =
     (case mapR (\<lambda>side. rbind (state_slice (fb_layout observer) side ''q'') (\<lambda>s. Inr (side, s))) (ly_sides ly) of
        Inl e \<Rightarrow> if e = KeyError then Inl ValueError else Inl e
      | Inr qs \<Rightarrow> Inr qs)"

datatype endpoint_kind = OpenPI | Acme
datatype policy = Hold "(string, nat \<times> nat) dict" int | RemoteWs endpoint_kind conn | RemoteHttp endpoint_kind

definition build_adapter :: "string \<Rightarrow> endpoint_kind res" where
  "build_adapter nm = (if nm = ''openpi'' then Inr OpenPI else if nm = ''acme'' then Inr Acme else Inl ValueError)"

record policy_cfg =
  pc_kind :: string
  pc_adapter :: string
  pc_transport :: string
  pc_connect_timeout_s :: real

text \<open>What building meets: the packages, the clock, the turns of the two waits.\<close>

record build_world =
  bw_wire :: bool
  bw_http :: bool
  bw_now :: real
  bw_connect :: "connect_turn list"
  bw_ready :: "ready_turn list"

definition build_transport :: "policy_cfg \<Rightarrow> endpoint_kind \<Rightarrow> build_world \<Rightarrow> policy res option" where
  "build_transport cfg ad bw =
     (if pc_transport cfg = ''websocket''
      then map_option (\<lambda>(r, ws). rbind r (\<lambda>u. Inr (RemoteWs ad ws))) (mk_websocket (bw_wire bw) (bw_now bw) (pc_connect_timeout_s cfg) (bw_connect bw))
      else if pc_transport cfg = ''http''
      then map_option (\<lambda>r. rbind r (\<lambda>u. Inr (RemoteHttp ad))) (mk_http (bw_http bw) (bw_now bw) (pc_connect_timeout_s cfg) (bw_ready bw))
      else Some (Inl ValueError))"

definition build_policy :: "policy_cfg \<Rightarrow> dfc_layout \<Rightarrow> frame_builder \<Rightarrow> build_world \<Rightarrow> policy res option" where
  "build_policy cfg ly observer bw =
     (if pc_kind cfg = ''hold'' then Some (rbind (hold_q_slices observer ly) (\<lambda>qs. Inr (Hold qs 10)))
      else if pc_kind cfg = ''remote''
      then case build_adapter (pc_adapter cfg) of
             Inl e \<Rightarrow> Some (Inl e)
           | Inr ad \<Rightarrow> build_transport cfg ad bw
      else Some (Inl ValueError))"

section \<open>Standing still\<close>

definition hold_value :: "dfc_layout \<Rightarrow> (string, nat \<times> nat) dict \<Rightarrow> real list \<Rightarrow> string \<Rightarrow> real list" where
  "hold_value ly q_slices state s =
     (case (the (dget (ly_primary ly) s), the (dget q_slices s)) of ((a, b), (c, d)) \<Rightarrow>
      if dget (ly_field ly) s = Some ''q_d'' then slice c d state else replicate (b - a) 0)"

text \<open>Where each side's joints are measured, and that the measured vector fills the commanded one.\<close>

definition hold_fits :: "dfc_layout \<Rightarrow> (string, nat \<times> nat) dict \<Rightarrow> real list \<Rightarrow> string \<Rightarrow> bool" where
  "hold_fits ly q_slices state s \<longleftrightarrow> (\<exists>a b c d. dget (ly_primary ly) s = Some (a, b) \<and> dget q_slices s = Some (c, d)
     \<and> (dget (ly_field ly) s = Some ''q_d'' \<longrightarrow> d \<le> length state \<and> c \<le> d \<and> d - c = b - a))"

lemma hold_value_length:
  "hold_fits ly qs st s \<Longrightarrow> dget (ly_primary ly) s = Some (a, b) \<Longrightarrow> length (hold_value ly qs st s) = b - a"
  by (auto simp: hold_fits_def hold_value_def)

lemma put_zeros:
  assumes "\<forall>i. a \<le> i \<longrightarrow> i < length v \<longrightarrow> v ! i = 0" "a + n \<le> length v"
  shows "put_slice a (replicate n 0) v = v"
  using assms by (intro nth_equalityI) (auto simp: put_slice_nth)

lemma put_with_zero:
  assumes "\<forall>i. a \<le> i \<longrightarrow> i < length v \<longrightarrow> v ! i = 0" "a + length x < length v"
  shows "put_slice a (x @ [0]) v = put_slice a x v"
  using assms by (intro nth_equalityI) (auto simp: put_slice_nth nth_append)

lemma hold_side_write:
  assumes at: "dget (ly_field ly) s = Some f" "dget (ly_primary ly) s = Some (a, b)" "a \<le> b" "b < length v"
    and fits: "hold_fits ly qs st s" and zero: "\<forall>i. a \<le> i \<longrightarrow> i < length v \<longrightarrow> v ! i = 0"
  shows "hold_side ly qs st s v = Inr (put_slice a (hold_value ly qs st s @ [0]) v)"
proof -
  obtain c d where cd: "dget qs s = Some (c, d)" "f = ''q_d'' \<Longrightarrow> d \<le> length st \<and> c \<le> d \<and> d - c = b - a"
    using fits at by (auto simp: hold_fits_def)
  have x: "hold_value ly qs st s = (if f = ''q_d'' then slice c d st else replicate (b - a) 0)" using at cd by (simp add: hold_value_def)
  note len = hold_value_length[OF fits at(2)]
  have w: "put_slice a (hold_value ly qs st s @ [0]) v = put_slice a (hold_value ly qs st s) v"
    using put_with_zero[OF zero, of "hold_value ly qs st s"] len at(3,4) by simp
  show ?thesis
  proof (cases "f = ''q_d''")
    case True
    then show ?thesis using at cd x len w by (simp add: hold_side_def ditem_def assign_slice_def)
  next
    case False
    then show ?thesis using at x w put_zeros[OF zero, of "b - a"] by (simp add: hold_side_def ditem_def)
  qed
qed

lemma hold_steps:
  assumes ok: "action_ok ly (ly_sides ly)" and fits: "\<forall>s \<in> set (ly_sides ly). hold_fits ly qs st s"
    and ss: "set ss \<subseteq> set (ly_sides ly)" "tiles off (action_spans ly ss) (ly_action_dim ly)"
    and v: "length v = ly_action_dim ly" "\<forall>i. off \<le> i \<longrightarrow> i < length v \<longrightarrow> v ! i = 0"
  shows "foldR (hold_side ly qs st) ss v
    = Inr (foldl (\<lambda>v (k, a, b). put_slice a (hold_value ly qs st k @ [0]) v) v (action_spans ly ss))"
  using ss v
proof (induction ss arbitrary: off v)
  case (Cons s ss)
  have s: "s \<in> set (ly_sides ly)" using Cons.prems(1) by simp
  obtain f a b where at: "dget (ly_field ly) s = Some f" "dget (ly_primary ly) s = Some (a, b)" "dget (ly_gripper ly) s = Some b"
      "a \<le> b" "b < ly_action_dim ly" using action_ok_at[OF ok s] by metis
  let ?x = "hold_value ly qs st s @ [0]"
  have t: "a = off" "tiles (b + 1) (action_spans ly ss) (ly_action_dim ly)" using Cons.prems(2) at by (auto simp: action_spans_def)
  have len: "length ?x = b + 1 - a" using hold_value_length[of ly qs st s a b] fits s at by auto
  have w: "hold_side ly qs st s v = Inr (put_slice a ?x v)"
    using hold_side_write[OF at(1,2,4)] at(5) fits s Cons.prems(3,4) t(1) by simp
  have "\<forall>i. b + 1 \<le> i \<longrightarrow> i < length (put_slice a ?x v) \<longrightarrow> put_slice a ?x v ! i = 0"
    using Cons.prems(3,4) len t(1) at(4,5) by (auto simp: put_slice_nth)
  moreover have "length (put_slice a ?x v) = ly_action_dim ly" using Cons.prems(3) len at(4,5) by simp
  ultimately have "foldR (hold_side ly qs st) ss (put_slice a ?x v)
    = Inr (foldl (\<lambda>v (k, a, b). put_slice a (hold_value ly qs st k @ [0]) v) (put_slice a ?x v) (action_spans ly ss))"
    using Cons.IH[OF _ t(2)] Cons.prems(1) by simp
  then show ?case using w at by (simp add: action_spans_def)
qed (simp add: action_spans_def)

lemma hold_action:
  assumes ok: "action_ok ly (ly_sides ly)" and fits: "\<forall>s \<in> set (ly_sides ly). hold_fits ly qs st s"
  shows "\<exists>v. hold_infer ly qs horizon st = Inr (replicate (nat (max 1 horizon)) v) \<and> length v = ly_action_dim ly
    \<and> layout_split ly v = Inr (map (\<lambda>s. (s, \<lparr>sa_field = the (dget (ly_field ly) s), sa_value = hold_value ly qs st s, sa_gripper = 0\<rparr>)) (ly_sides ly))"
proof -
  let ?n = "ly_action_dim ly" let ?S = "action_spans ly (ly_sides ly)" let ?X = "\<lambda>s. hold_value ly qs st s @ [0]"
  let ?v = "foldl (\<lambda>v (k, a, b). put_slice a (?X k) v) (replicate ?n 0) ?S"
  have t: "tiles 0 ?S ?n" using ok by (simp add: action_ok_def)
  have w: "length (?X k) = b - a" if m: "(k, a, b) \<in> set ?S" for k a b
  proof -
    have k: "k \<in> set (ly_sides ly)" using m by (auto simp: action_spans_def)
    obtain a' b' where i: "dget (ly_primary ly) k = Some (a', b')" "dget (ly_gripper ly) k = Some b'" "a' \<le> b'"
      using action_ok_at[OF ok k] by metis
    then have "a = a'" "b = b' + 1" using m by (auto simp: action_spans_def)
    then show ?thesis using hold_value_length[OF _ i(1)] fits k i(3) by simp
  qed
  have p: "length ?v = ?n" "\<And>k a b. (k, a, b) \<in> set ?S \<Longrightarrow> slice a b ?v = ?X k"
    using pack_tiles[where x = ?X and vec = "replicate ?n 0", OF t _ w] by (simp_all, blast)
  have "foldR (hold_side ly qs st) (ly_sides ly) (replicate ?n 0) = Inr ?v"
    using hold_steps[OF ok fits subset_refl t, of "replicate ?n 0"] by simp
  moreover have "layout_split ly ?v = Inr (map (\<lambda>s. (s, \<lparr>sa_field = the (dget (ly_field ly) s), sa_value = hold_value ly qs st s, sa_gripper = 0\<rparr>)) (ly_sides ly))"
    using split_slices[OF ok p(1), where X = "hold_value ly qs st" and G = "\<lambda>s. 0"] p(2) by blast
  ultimately show ?thesis using p(1) by (intro exI[of _ ?v]) (simp add: hold_infer_def)
qed

lemma mapR_keyed:
  assumes "mapR (\<lambda>s. rbind (g s) (\<lambda>x. Inr (s, x))) ss = Inr ps" "s \<in> set ss"
  shows "\<exists>x. g s = Inr x \<and> dget ps s = Some x"
  using assms by (induction ss arbitrary: ps) auto

lemma hold_q_slices_at:
  assumes "hold_q_slices fb ly = Inr qs" "s \<in> set (ly_sides ly)"
  shows "\<exists>x. state_slice (fb_layout fb) s ''q'' = Inr x \<and> dget qs s = Some x"
  using assms by (intro mapR_keyed[of _ "ly_sides ly"]) (auto simp: hold_q_slices_def split: sum.splits if_splits)

text \<open>
  The hold policy stands still. Built for a layout of the configuration, and whenever the measured joints of a position-controlled
  side have the commanded width, it answers with ten equal actions that the loop accepts, each of which splits into: for a
  position-controlled side the joints as measured in the observation it was given, for any other side zero, and a closed
  gripper fraction of 0 everywhere.
\<close>

theorem hold_stands_still:
  assumes ly: "mk_layout arms signals action_sides = Inr ly" "distinct (dkeys arms)" "distinct signals"
    and built: "build_policy cfg ly fb bw = Some (Inr (Hold qs horizon))"
    and widths: "\<forall>s \<in> set (ly_sides ly). \<forall>a b c d. dget (ly_field ly) s = Some ''q_d'' \<longrightarrow> dget (ly_primary ly) s = Some (a, b)
      \<longrightarrow> state_slice (fb_layout fb) s ''q'' = Inr (c, d) \<longrightarrow> d \<le> length st \<and> c \<le> d \<and> d - c = b - a"
  shows "\<exists>v. hold_infer ly qs horizon st = Inr (replicate 10 v)
    \<and> (\<forall>el. el_layout el = ly \<longrightarrow> validate_chunk el (R2 (replicate 10 v)) = Inr (replicate 10 v))
    \<and> layout_split ly v = Inr (map (\<lambda>s. (s, \<lparr>sa_field = the (dget (ly_field ly) s), sa_value = hold_value ly qs st s, sa_gripper = 0\<rparr>)) (ly_sides ly))
    \<and> (\<forall>s \<in> set (ly_sides ly). \<forall>c d. dget (ly_field ly) s = Some ''q_d'' \<longrightarrow> state_slice (fb_layout fb) s ''q'' = Inr (c, d)
         \<longrightarrow> hold_value ly qs st s = slice c d st)"
proof -
  have ok: "action_ok ly (ly_sides ly)" by (rule mk_layout_ok[OF ly])
  have qs: "hold_q_slices fb ly = Inr qs" and h: "horizon = 10"
    using built by (auto simp: build_policy_def build_transport_def split: if_splits sum.splits prod.splits)
  have fits: "\<forall>s \<in> set (ly_sides ly). hold_fits ly qs st s"
  proof
    fix s assume s: "s \<in> set (ly_sides ly)"
    obtain a b where ab: "dget (ly_primary ly) s = Some (a, b)" using action_ok_at[OF ok s] by metis
    obtain c d where cd: "state_slice (fb_layout fb) s ''q'' = Inr (c, d)" "dget qs s = Some (c, d)"
      using hold_q_slices_at[OF qs s] by (metis surj_pair)
    then show "hold_fits ly qs st s" using widths s ab by (auto simp: hold_fits_def)
  qed
  obtain v where v: "hold_infer ly qs horizon st = Inr (replicate (nat (max 1 horizon)) v)" "length v = ly_action_dim ly"
      "layout_split ly v = Inr (map (\<lambda>s. (s, \<lparr>sa_field = the (dget (ly_field ly) s), sa_value = hold_value ly qs st s, sa_gripper = 0\<rparr>)) (ly_sides ly))"
    using hold_action[OF ok fits] by blast
  have "hold_value ly qs st s = slice c d st"
    if s: "s \<in> set (ly_sides ly)" "dget (ly_field ly) s = Some ''q_d''" "state_slice (fb_layout fb) s ''q'' = Inr (c, d)" for s c d
    using hold_q_slices_at[OF qs s(1)] s(2,3) by (auto simp: hold_value_def split: prod.splits)
  moreover have "validate_chunk el (R2 (replicate 10 v)) = Inr (replicate 10 v)" if "el_layout el = ly" for el
    using that v(2) by (simp add: validate_chunk_def list_all_iff)
  ultimately show ?thesis using v(1,3) h by (intro exI[of _ v]) simp
qed

section \<open>Replies answer their requests\<close>

text \<open>
  A rollout is a sequence of inferences on one remote policy; the evaluation loop goes on only after an answer or a
  \<open>PolicyError\<close>. \<open>PolicyError\<close> is the program's own class, so no library raises it. The log has every request that went to the transport with what came back.
\<close>

definition survivable :: "'a res \<Rightarrow> bool" where
  "survivable r \<longleftrightarrow> r = Inl PolicyError \<or> (\<exists>x. r = Inr x)"

definition foreign :: "'r exchange \<Rightarrow> bool" where
  "foreign x \<longleftrightarrow> ex_send x \<noteq> SendRaises PolicyError \<and> ex_recv x \<noteq> Raised PolicyError"

definition fresh_remote :: "conn \<Rightarrow> conn remote" where
  "fresh_remote ws = \<lparr>rp_adapter = None, rp_seq = 0, rp_transport = ws, rp_comm = []\<rparr>"

inductive rollout :: "(real list option \<Rightarrow> adapter \<Rightarrow> 'p res \<times> adapter) \<Rightarrow> (adapter \<Rightarrow> 'r \<Rightarrow> real list list res)
    \<Rightarrow> (nat \<times> (nat \<times> 'r) res) list \<Rightarrow> conn remote \<Rightarrow> bool" for enc dec where
  start: "mk_websocket deps now timeout ts = Some (Inr (), ws) \<Longrightarrow> rollout enc dec [] (fresh_remote ws)"
| refused: "rollout enc dec l rp \<Longrightarrow> enc obs (rp_adapter rp) = (Inl e, ad)
    \<Longrightarrow> remote_infer enc dec (\<lambda>q. ws_infer q x) elapsed obs rp = (r, rp') \<Longrightarrow> rollout enc dec l rp'"
| call: "rollout enc dec l rp \<Longrightarrow> list_all (survivable \<circ> snd) l \<Longrightarrow> foreign x \<Longrightarrow> enc obs (rp_adapter rp) = (Inr payload, ad)
    \<Longrightarrow> remote_infer enc dec (\<lambda>q. ws_infer q x) elapsed obs rp = (r, rp')
    \<Longrightarrow> rollout enc dec (l @ [(rp_seq rp', fst (ws_infer (rp_seq rp') x (rp_transport rp)))]) rp'"

definition comm_pair :: "nat \<times> 'a res \<Rightarrow> (real \<times> nat) list" where
  "comm_pair p = [(COMM_SENT, fst p), (case snd p of Inl e \<Rightarrow> COMM_ERROR | Inr x \<Rightarrow> COMM_RECV, fst p)]"

definition idle :: "conn \<Rightarrow> bool" where
  "idle ws \<longleftrightarrow> ws = None \<or> ws = Some []"

lemma ws_open_idle: "ws_open t None = (r, w) \<Longrightarrow> idle w \<and> (r = Got () \<longrightarrow> w = Some [])"
  by (auto simp: ws_open_def idle_def split: net.splits)

lemma ws_connect_idle: "ws_connect deadline ts ws = Some (Inr (), w) \<Longrightarrow> w = Some []"
proof (induction ts arbitrary: ws)
  case (Cons t ts)
  show ?case
  proof (cases "ws_open (ct_try t) ws")
    case (Pair r w1)
    then show ?thesis using Cons by (cases r) (auto simp: ws_open_def split: net.splits if_splits)
  qed
qed simp

lemma mk_websocket_idle: "mk_websocket deps now timeout ts = Some (Inr (), ws) \<Longrightarrow> ws = Some []"
  using ws_connect_idle by (auto simp: mk_websocket_def split: if_splits)

lemma ws_infer_matched:
  assumes run: "ws_infer q x ws = (r, ws')" and idle: "idle ws"
  shows "\<forall>p resp. r = Inr (p, resp) \<longrightarrow> p = q" and "foreign x \<Longrightarrow> survivable r \<Longrightarrow> idle ws'"
proof -
  define o1 where "o1 = (case ws of None \<Rightarrow> ws_open (ex_open x) None | Some c \<Rightarrow> (Got (), ws))"
  obtain g w where gw: "o1 = (g, w)" by (cases o1)
  have w: "idle w" "g = Got () \<Longrightarrow> w = Some []"
    using ws_open_idle[of "ex_open x" g w] idle gw by (auto simp: o1_def idle_def split: option.splits)
  have all: "(\<forall>p resp. r = Inr (p, resp) \<longrightarrow> p = q) \<and> (foreign x \<longrightarrow> survivable r \<longrightarrow> idle ws')"
  proof (cases g)
    case (Got u)
    then have "ws_infer q x ws = (case ex_send x of PackRaises e \<Rightarrow> (Inl e, Some []) | SendLost \<Rightarrow> (Inl PolicyError, None)
        | SendRaises e \<Rightarrow> (Inl e, Some [q]) | Sent \<Rightarrow> ws_recv (ex_recv x) [q])"
      using w gw by (simp add: ws_infer_def o1_def[symmetric] ws_drop_def split: send_outcome.splits)
    then show ?thesis using run
      by (auto simp: ws_recv_def ws_drop_def idle_def survivable_def foreign_def split: send_outcome.splits net.splits frame.splits)
  next
    case Lost
    then show ?thesis using run gw by (auto simp: ws_infer_def o1_def[symmetric] ws_drop_def idle_def)
  next
    case (Raised e)
    then show ?thesis using run gw w by (auto simp: ws_infer_def o1_def[symmetric])
  qed
  then show "\<forall>p resp. r = Inr (p, resp) \<longrightarrow> p = q" and "foreign x \<Longrightarrow> survivable r \<Longrightarrow> idle ws'" by blast+
qed

lemma remote_infer_call:
  assumes "remote_infer enc dec transport elapsed obs rp = (r, rp')" "enc obs (rp_adapter rp) = (Inr payload, ad)"
  shows "rp_seq rp' = rp_seq rp + 1 \<and> transport (rp_seq rp') (rp_transport rp) = (fst (transport (rp_seq rp') (rp_transport rp)), rp_transport rp')
    \<and> map (\<lambda>(k, q, t). (k, q)) (rp_comm rp') = map (\<lambda>(k, q, t). (k, q)) (rp_comm rp)
        @ comm_pair (rp_seq rp', fst (transport (rp_seq rp') (rp_transport rp)))"
proof -
  obtain o1 t where o: "transport (rp_seq rp + 1) (rp_transport rp) = (o1, t)" by (meson surj_pair)
  show ?thesis using assms o by (cases o1) (auto simp: remote_infer_def emit_def Let_def comm_pair_def)
qed

lemma remote_infer_refused:
  "remote_infer enc dec transport elapsed obs rp = (r, rp') \<Longrightarrow> enc obs (rp_adapter rp) = (Inl e, ad)
    \<Longrightarrow> rp_seq rp' = rp_seq rp \<and> rp_transport rp' = rp_transport rp \<and> rp_comm rp' = rp_comm rp"
  by (auto simp: remote_infer_def)

lemma rollout_inv:
  assumes "rollout enc dec l rp"
  shows "(list_all (survivable \<circ> snd) l \<longrightarrow> idle (rp_transport rp)) \<and> (\<forall>(q, out) \<in> set l. \<forall>p resp. out = Inr (p, resp) \<longrightarrow> p = q)
    \<and> map fst l = [1..<rp_seq rp + 1] \<and> map (\<lambda>(k, q, t). (k, q)) (rp_comm rp) = concat (map comm_pair l)"
  using assms
proof (induction rule: rollout.induct)
  case (start deps now timeout ts ws)
  then show ?case using mk_websocket_idle[of deps now timeout ts ws] by (simp add: fresh_remote_def idle_def)
next
  case (refused l rp obs e ad x elapsed r rp')
  then show ?case using remote_infer_refused[OF refused.hyps(3,2)] by simp
next
  case (call l rp x obs payload ad elapsed r rp')
  let ?q = "rp_seq rp'" let ?out = "fst (ws_infer ?q x (rp_transport rp))"
  note c = remote_infer_call[OF call.hyps(5,4)]
  have idle: "idle (rp_transport rp)" using call.IH call.hyps(2) by blast
  have w: "ws_infer ?q x (rp_transport rp) = (?out, rp_transport rp')" using c by blast
  have "\<forall>p resp. ?out = Inr (p, resp) \<longrightarrow> p = ?q" "survivable ?out \<Longrightarrow> idle (rp_transport rp')"
    using ws_infer_matched[OF w idle] call.hyps(3) by blast+
  moreover have "map fst (l @ [(?q, ?out)]) = [1..<?q + 1]" using call.IH c by simp
  moreover have "map (\<lambda>(k, q, t). (k, q)) (rp_comm rp') = concat (map comm_pair (l @ [(?q, ?out)]))" using call.IH c by simp
  ultimately show ?case using call.IH by auto
qed

text \<open>
  C21. A reply is the answer to its own request. In a rollout over a WebSocket, whatever the network does (connections lost before, while or after sending, time-outs,
  error frames, reconnections), every answer the policy decodes is the server's answer to the request just sent, never a late answer to an
  earlier one. The requests are numbered 1, 2, 3 and so on, and the events published for each are one \<open>sent\<close> followed by exactly one of \<open>received\<close>
  and \<open>failed\<close>, with its number.
\<close>

theorem replies_answer_requests:
  assumes "rollout enc dec l rp"
  shows "(\<forall>(q, out) \<in> set l. \<forall>p resp. out = Inr (p, resp) \<longrightarrow> p = q)
    \<and> map fst l = [1..<rp_seq rp + 1]
    \<and> map (\<lambda>(k, q, t). (k, q)) (rp_comm rp) = concat (map comm_pair l)"
  using rollout_inv[OF assms] by blast

lemma ws_connect_total:
  "\<exists>t \<in> set ts. ct_stop t \<or> deadline \<le> ct_now t \<Longrightarrow> idle ws \<Longrightarrow> \<exists>r w. ws_connect deadline ts ws = Some (r, w) \<and> idle w"
proof (induction ts arbitrary: ws)
  case (Cons t ts)
  obtain g w where g: "ws_open (ct_try t) ws = (g, w)" by (meson surj_pair)
  have w: "idle w" using g Cons.prems(2) by (auto simp: ws_open_def idle_def split: net.splits)
  show ?case
  proof (cases g)
    case Lost
    have n: "idle None" by (simp add: idle_def)
    show ?thesis
    proof (cases "ct_stop t \<or> deadline \<le> ct_now t")
      case True
      then show ?thesis using Lost g n by (auto simp: ws_drop_def)
    next
      case False
      then have "\<exists>t \<in> set ts. ct_stop t \<or> deadline \<le> ct_now t" using Cons.prems(1) by auto
      then show ?thesis using Cons.IH[OF _ n] False Lost g by (simp add: ws_drop_def)
    qed
  qed (use g w in simp_all)
qed simp

lemma wait_ready_total: "\<exists>t \<in> set hs. rt_stop t \<or> deadline \<le> rt_now t \<Longrightarrow> \<exists>r. wait_ready deadline hs = Some r"
proof (induction hs)
  case (Cons h hs)
  then show ?case by (cases "rt_get h") (auto split: bool.splits)
qed simp

text \<open>
  Waiting for a policy server ends. Once one turn of the wait finds the stop event set or the clock past the deadline, construction has returned,
  over the WebSocket with a fresh connection or no connection at all, over HTTP with a result or an exception.
\<close>

theorem connect_settles:
  assumes "\<exists>t \<in> set ts. ct_stop t \<or> now + timeout \<le> ct_now t" "\<exists>t \<in> set hs. rt_stop t \<or> now + timeout \<le> rt_now t"
  shows "(\<exists>r ws. mk_websocket deps now timeout ts = Some (r, ws) \<and> idle ws \<and> (r = Inr () \<longrightarrow> ws = Some []))
    \<and> (\<exists>r. mk_http deps now timeout hs = Some r)"
proof
  show "\<exists>r ws. mk_websocket deps now timeout ts = Some (r, ws) \<and> idle ws \<and> (r = Inr () \<longrightarrow> ws = Some [])"
  proof (cases deps)
    case True
    obtain r w where r: "ws_connect (now + timeout) ts None = Some (r, w)" "idle w" using ws_connect_total[OF assms(1)] by (metis idle_def)
    then have "r = Inr () \<longrightarrow> w = Some []" using ws_connect_idle by blast
    then show ?thesis using r True by (simp add: mk_websocket_def)
  qed (simp add: mk_websocket_def idle_def)
  show "\<exists>r. mk_http deps now timeout hs = Some r" using wait_ready_total[OF assms(2)] by (simp add: mk_http_def)
qed

section \<open>Concrete runs\<close>

definition demo_hold_cfg :: policy_cfg where
  "demo_hold_cfg = \<lparr>pc_kind = ''hold'', pc_adapter = ''openpi'', pc_transport = ''websocket'', pc_connect_timeout_s = 60\<rparr>"

definition demo_build :: build_world where
  "demo_build = \<lparr>bw_wire = True, bw_http = True, bw_now = 0, bw_connect = [], bw_ready = []\<rparr>"

theorem hold_stands_still_witness:
  "\<exists>v. hold_infer demo_layout [(''left'', (0, 1))] 10 [3] = Inr (replicate 10 v)
     \<and> layout_split demo_layout v = Inr [(''left'', \<lparr>sa_field = ''q_d'', sa_value = [3], sa_gripper = 0\<rparr>)]"
proof -
  have mk: "mk_layout [(''left'', demo_eval_arm)] [''q''] [''left''] = Inr demo_layout"
  proof -
    have "case mk_layout [(''left'', demo_eval_arm)] [''q''] [''left''] of Inr ly \<Rightarrow> True | Inl e \<Rightarrow> False" by code_simp
    then show ?thesis by (auto simp: demo_layout_def split: sum.splits)
  qed
  have b: "build_policy demo_hold_cfg demo_layout demo_observer demo_build = Some (Inr (Hold [(''left'', (0, 1))] 10))" by code_simp
  have f: "ly_sides demo_layout = [''left'']" "dget (ly_field demo_layout) ''left'' = Some ''q_d''" "dget (ly_primary demo_layout) ''left'' = Some (0, 1)"
      "state_slice (fb_layout demo_observer) ''left'' ''q'' = Inr (0, 1)" by code_simp+
  have v: "hold_value demo_layout [(''left'', (0, 1))] [3] ''left'' = [3]" by code_simp
  show ?thesis using hold_stands_still[OF mk _ _ b, of "[3]"] by (auto simp: f v slice_def)
qed

text \<open>The first request times out after it was sent; the second goes over a new connection and is answered.\<close>

definition demo_open :: open_try where
  "demo_open = \<lparr>ot_connect = Got (), ot_metadata = Got ()\<rparr>"

definition demo_exchange :: "reply frame net \<Rightarrow> reply exchange" where
  "demo_exchange r = \<lparr>ex_open = demo_open, ex_send = Sent, ex_recv = r\<rparr>"

definition demo_enc :: "real list option \<Rightarrow> adapter \<Rightarrow> (real list \<times> unit) res \<times> adapter" where
  "demo_enc = encode_request \<lparr>vc_dim = 0, vc_slices = [], vc_constants = []\<rparr> (Inr ())"

definition demo_dec :: "adapter \<Rightarrow> reply \<Rightarrow> real list list res" where
  "demo_dec = decode_actions \<lparr>ac_dim = 0, ac_slices = [], ac_holds = [], ac_constants = []\<rparr>"

definition demo_call :: "reply frame net \<Rightarrow> conn remote \<Rightarrow> real list list res \<times> conn remote" where
  "demo_call r rp = remote_infer demo_enc demo_dec (\<lambda>q. ws_infer q (demo_exchange r)) 1 (Some [7]) rp"

definition demo_remote1 :: "conn remote" where
  "demo_remote1 = snd (demo_call Lost (fresh_remote (Some [])))"

definition demo_remote2 :: "conn remote" where
  "demo_remote2 = snd (demo_call (Got (Packed (Inr (R1 [4])))) demo_remote1)"

definition demo_log :: "(nat \<times> (nat \<times> reply) res) list" where
  "demo_log = [(1, Inl PolicyError), (2, Inr (2, R1 [4]))]"

lemma demo_rollout_reached: "rollout demo_enc demo_dec demo_log demo_remote2"
proof -
  have enc: "demo_enc (Some [7]) ad = (Inr ([7], ()), Some [7])" for ad by (simp add: demo_enc_def encode_request_def project_state_def)
  have conn: "mk_websocket True 0 60 [\<lparr>ct_try = demo_open, ct_stop = False, ct_now = 0\<rparr>] = Some (Inr (), Some [])" by code_simp
  note s0 = rollout.start[OF conn, of demo_enc demo_dec]
  have for1: "foreign (demo_exchange r)" if "r \<noteq> Raised PolicyError" for r using that by (simp add: foreign_def demo_exchange_def)
  have c1: "remote_infer demo_enc demo_dec (\<lambda>q. ws_infer q (demo_exchange Lost)) 1 (Some [7]) (fresh_remote (Some []))
      = (fst (demo_call Lost (fresh_remote (Some []))), demo_remote1)" by (simp add: demo_remote1_def demo_call_def)
  have e1: "rp_seq demo_remote1 = 1" "fst (ws_infer 1 (demo_exchange Lost) (rp_transport (fresh_remote (Some [])))) = Inl PolicyError" by code_simp+
  have r1: "rollout demo_enc demo_dec [(1, Inl PolicyError)] demo_remote1"
    using rollout.call[OF s0 _ for1 enc c1] by (simp add: e1 del: One_nat_def)
  let ?x = "Got (Packed (Inr (R1 [4]))) :: reply frame net"
  have c2: "remote_infer demo_enc demo_dec (\<lambda>q. ws_infer q (demo_exchange ?x)) 1 (Some [7]) demo_remote1
      = (fst (demo_call ?x demo_remote1), demo_remote2)" by (simp add: demo_remote2_def demo_call_def)
  have e2: "rp_seq demo_remote2 = 2" "fst (ws_infer 2 (demo_exchange ?x) (rp_transport demo_remote1)) = Inr (2, R1 [4])" by code_simp+
  show ?thesis using rollout.call[OF r1 _ for1 enc c2] by (simp add: e2 survivable_def demo_log_def del: One_nat_def)
qed

theorem replies_answer_requests_witness:
  "rollout demo_enc demo_dec demo_log demo_remote2 \<and> map fst demo_log = [1..<rp_seq demo_remote2 + 1]
     \<and> map (\<lambda>(k, q, t). (k, q)) (rp_comm demo_remote2) = [(0, 1), (2, 1), (0, 2), (1, 2)]"
  using replies_answer_requests[OF demo_rollout_reached] demo_rollout_reached
  by (simp add: demo_log_def comm_pair_def COMM_SENT_def COMM_RECV_def COMM_ERROR_def)

theorem connect_settles_witness:
  "\<exists>r ws. mk_websocket True 0 60 [\<lparr>ct_try = \<lparr>ot_connect = Lost, ot_metadata = Lost\<rparr>, ct_stop = False, ct_now = 61\<rparr>] = Some (r, ws) \<and> idle ws"
proof -
  have "\<exists>t \<in> set [\<lparr>ct_try = \<lparr>ot_connect = Lost, ot_metadata = Lost\<rparr>, ct_stop = False, ct_now = (61::real)\<rparr>]. ct_stop t \<or> 0 + 60 \<le> ct_now t"
       "\<exists>t \<in> set [\<lparr>rt_get = Lost, rt_conventions = Inr (), rt_stop = True, rt_now = (0::real)\<rparr>]. rt_stop t \<or> 0 + 60 \<le> rt_now t" by simp_all
  from connect_settles[OF this, of True] show ?thesis by blast
qed

end
