(* ===== verification/Orphans.thy ===== *)
theory Orphans
  imports Registry
begin

text \<open>
  The orphan sweep (\<^verbatim>\<open>orphans.py\<close>): which processes of dead supervisors are found and signalled, and which shared-memory
  segments and run directories are reclaimed. Shown: nothing of a living supervisor is touched, whatever is listed; every orphan found
  is signalled and the wait ends; one name with an impossible process id stops the whole sweep.

  The listing of \<^verbatim>\<open>/proc\<close> and the files of each entry are arguments, the files already decoded, with text over the first 256 code
  points; \<open>os.kill\<close> is a function from process ids to outcomes, one per moment at which the code looks.
\<close>

section \<open>Names\<close>

definition ENV_TAG :: string where
  "ENV_TAG = ''DFC_SUPERVISOR_PID''"

definition TERM_GRACE :: real where
  "TERM_GRACE = 5"

text \<open>\<open>str.isdigit\<close>: the decimal digits, and the superscripts one, two and three, which \<open>int\<close> refuses.\<close>

definition isdigit_char :: "char \<Rightarrow> bool" where
  "isdigit_char c \<longleftrightarrow> digit c \<or> (of_char c :: nat) \<in> {178, 179, 185}"

definition isdigit :: "string \<Rightarrow> bool" where
  "isdigit s \<longleftrightarrow> s \<noteq> [] \<and> list_all isdigit_char s"

text \<open>\<open>int\<close> of a text, which refuses more than 4300 digits.\<close>

definition int_of_text :: "string \<Rightarrow> int res" where
  "int_of_text s = (if length (filter digit s) > 4300 then Inl ValueError else py_int_of_string s)"

definition hex_char :: "char \<Rightarrow> bool" where
  "hex_char c \<longleftrightarrow> digit c \<or> (let n = (of_char c :: nat) in 97 \<le> n \<and> n \<le> 102)"

text \<open>The common part of the three patterns, \<open>(\d+)_([0-9a-f]{8})\<close> at the start of a text, with what is left of it.\<close>

definition pid_hex :: "string \<Rightarrow> (string \<times> string \<times> string) option" where
  "pid_hex s =
     (let ds = takeWhile digit s; r = dropWhile digit s; h = take 8 (tl r) in
      if ds \<noteq> [] \<and> r \<noteq> [] \<and> hd r = CHR ''_'' \<and> length h = 8 \<and> list_all hex_char h then Some (ds, h, drop 8 (tl r)) else None)"

definition starts :: "string \<Rightarrow> string \<Rightarrow> bool" where
  "starts p s \<longleftrightarrow> take (length p) s = p"

definition SHM_RE :: "string \<Rightarrow> (string \<times> string) option" where
  "SHM_RE nm =
     (if starts ''dfc_'' nm
      then case pid_hex (drop 4 nm) of None \<Rightarrow> None | Some (d, h, r) \<Rightarrow> if starts ''_'' r then Some (d, h) else None
      else None)"

definition RUN_DIR_RE :: "string \<Rightarrow> (string \<times> string) option" where
  "RUN_DIR_RE nm =
     (case pid_hex nm of None \<Rightarrow> None | Some (d, h, r) \<Rightarrow> if r = [] \<or> r = [CHR 0x0A] then Some (d, h) else None)"

text \<open>
  \<open>findall\<close> of the pattern of mapped segments: the process ids, one per match. No match starts inside another, so every position is tried.
\<close>

definition MAPS_PREFIX :: string where
  "MAPS_PREFIX = ''/dev/shm/dfc_''"

fun maps_findall :: "string \<Rightarrow> string list" where
  "maps_findall [] = []"
| "maps_findall (c # cs) =
     (if starts MAPS_PREFIX (c # cs)
      then case pid_hex (drop (length MAPS_PREFIX) (c # cs)) of
             None \<Rightarrow> maps_findall cs
           | Some (d, h, r) \<Rightarrow> (if starts ''_'' r then [d] else []) @ maps_findall cs
      else maps_findall cs)"

fun contains :: "string \<Rightarrow> string \<Rightarrow> bool" where
  "contains p [] = (p = [])"
| "contains p (c # cs) = (starts p (c # cs) \<or> contains p cs)"

section \<open>Run ids\<close>

text \<open>\<open>uuid4 ().hex\<close> is an argument.\<close>

definition make_run_id :: "nat \<Rightarrow> string \<Rightarrow> string" where
  "make_run_id pid hex = nat_str pid @ ''_'' @ take 8 hex"

section \<open>Detection\<close>

datatype kill_outcome = KOk | KGone | KDenied

type_synonym probe = "int \<Rightarrow> kill_outcome"

definition PID_MAX :: int where
  "PID_MAX = 2 ^ 31 - 1"

definition pid_alive :: "probe \<Rightarrow> int \<Rightarrow> bool res" where
  "pid_alive kill0 pid =
     (if pid \<le> 0 then Inr False
      else if pid > PID_MAX then Inl OverflowError
      else Inr (case kill0 pid of KOk \<Rightarrow> True | KGone \<Rightarrow> False | KDenied \<Rightarrow> True))"

record proc_record =
  pr_pid :: int
  pr_tag :: "string option"
  pr_cmdline :: "string list"
  pr_creators :: "int list"

fun any_alive :: "probe \<Rightarrow> int list \<Rightarrow> bool res" where
  "any_alive kill0 [] = Inr False"
| "any_alive kill0 (p # ps) = rbind (pid_alive kill0 p) (\<lambda>a. if a then Inr True else any_alive kill0 ps)"

datatype reason = Tagged | Legacy

definition classify_orphan :: "proc_record \<Rightarrow> int \<Rightarrow> probe \<Rightarrow> reason option res" where
  "classify_orphan rec self_pid kill0 =
     (if pr_pid rec = self_pid then Inr None
      else case pr_tag rec of
        Some t \<Rightarrow>
          if \<not> isdigit t then Inr None
          else rbind (int_of_text t) (\<lambda>p. rbind (pid_alive kill0 p) (\<lambda>a. Inr (if a then None else Some Tagged)))
      | None \<Rightarrow>
          if \<not> list_ex (contains ''spawn_main'') (pr_cmdline rec) then Inr None
          else if pr_creators rec = [] then Inr None
          else rbind (any_alive kill0 (pr_creators rec)) (\<lambda>a. Inr (if a then None else Some Legacy)))"

text \<open>What \<^verbatim>\<open>/proc/<pid>\<close> shows: \<open>None\<close> when one of the files cannot be read.\<close>

record proc_files =
  pf_ours :: bool
  pf_environ :: string
  pf_cmdline :: string
  pf_maps :: string

definition nul :: char where
  "nul = char_of (0 :: nat)"

fun split_nul :: "string \<Rightarrow> string list" where
  "split_nul [] = [[]]"
| "split_nul (c # cs) =
     (if c = nul then [] # split_nul cs else case split_nul cs of [] \<Rightarrow> [[c]] | e # es \<Rightarrow> (c # e) # es)"

definition env_tag :: "string \<Rightarrow> string option" where
  "env_tag environ =
     map_option (drop (length ENV_TAG + 1)) (List.find (starts (ENV_TAG @ ''='')) (split_nul environ))"

definition read_proc_record :: "int \<Rightarrow> proc_files option \<Rightarrow> proc_record option res" where
  "read_proc_record pid pf =
     (case pf of
        None \<Rightarrow> Inr None
      | Some f \<Rightarrow>
          if \<not> pf_ours f then Inr None
          else rbind (mapR int_of_text (maps_findall (pf_maps f))) (\<lambda>ps.
            Inr (Some \<lparr>pr_pid = pid, pr_tag = env_tag (pf_environ f), pr_cmdline = filter (\<lambda>a. a \<noteq> []) (split_nul (pf_cmdline f)),
                       pr_creators = sort (remdups ps)\<rparr>)))"

type_synonym listing = "(string \<times> proc_files option) list"

fun find_orphans :: "int \<Rightarrow> probe \<Rightarrow> bool \<Rightarrow> listing \<Rightarrow> (proc_record \<times> reason) list res" where
  "find_orphans self_pid kill0 include_legacy [] = Inr []"
| "find_orphans self_pid kill0 include_legacy ((nm, pf) # es) =
     (if \<not> isdigit nm then find_orphans self_pid kill0 include_legacy es
      else rbind (rbind (int_of_text nm) (\<lambda>p. read_proc_record p pf)) (\<lambda>ro.
        case ro of
          None \<Rightarrow> find_orphans self_pid kill0 include_legacy es
        | Some rec \<Rightarrow>
            rbind (classify_orphan rec self_pid kill0) (\<lambda>why.
            rbind (find_orphans self_pid kill0 include_legacy es) (\<lambda>rest.
            Inr (case why of
                   None \<Rightarrow> rest
                 | Some Tagged \<Rightarrow> (rec, Tagged) # rest
                 | Some Legacy \<Rightarrow> if include_legacy then (rec, Legacy) # rest else rest)))))"

section \<open>Reaping\<close>

datatype sig = SIGTERM | SIGKILL

type_synonym signals = "(int \<times> sig) list"

text \<open>
  The first loop: a delivered \<open>SIGTERM\<close> is recorded and counted, a refused one is not; a process id outside the C range raises
  \<open>OverflowError\<close>, which is not caught.
\<close>

fun term_each :: "probe \<Rightarrow> int list \<Rightarrow> unit res \<times> int list" where
  "term_each term [] = (Inr (), [])"
| "term_each term (p # ps) =
     (if p > PID_MAX then (Inl OverflowError, [])
      else case term p of
        KOk \<Rightarrow> (case term_each term ps of (r, killed) \<Rightarrow> (r, p # killed))
      | _ \<Rightarrow> term_each term ps)"

fun filterR :: "('a \<Rightarrow> bool res) \<Rightarrow> 'a list \<Rightarrow> 'a list res" where
  "filterR f [] = Inr []"
| "filterR f (x # xs) = rbind (f x) (\<lambda>b. rbind (filterR f xs) (\<lambda>ys. Inr (if b then x # ys else ys)))"

fun grace :: "real \<Rightarrow> (real \<times> probe) list \<Rightarrow> int list \<Rightarrow> int list res option" where
  "grace deadline polls [] = Some (Inr [])"
| "grace deadline [] (p # ps) = None"
| "grace deadline ((now, kill0) # polls) (p # ps) =
     (if now < deadline
      then case filterR (pid_alive kill0) (p # ps) of
             Inl e \<Rightarrow> Some (Inl e)
           | Inr remaining \<Rightarrow> grace deadline polls remaining
      else Some (Inr (p # ps)))"

record kill_world =
  kw_term :: probe
  kw_start :: real
  kw_polls :: "(real \<times> probe) list"
  kw_kill :: probe

definition kill_orphans :: "int list \<Rightarrow> real \<Rightarrow> kill_world \<Rightarrow> (int list res \<times> signals) option" where
  "kill_orphans pids term_grace_s kw =
     (case term_each (kw_term kw) pids of
        (Inl e, killed) \<Rightarrow> Some (Inl e, map (\<lambda>p. (p, SIGTERM)) killed)
      | (Inr u, killed) \<Rightarrow>
          (case grace (kw_start kw + term_grace_s) (kw_polls kw) killed of
             None \<Rightarrow> None
           | Some (Inl e) \<Rightarrow> Some (Inl e, map (\<lambda>p. (p, SIGTERM)) killed)
           | Some (Inr remaining) \<Rightarrow>
               Some (Inr killed, map (\<lambda>p. (p, SIGTERM)) killed
                 @ map (\<lambda>p. (p, SIGKILL)) (filter (\<lambda>p. kw_kill kw p = KOk) remaining))))"

section \<open>Stale data\<close>

text \<open>The machine's shared memory and the entries of the runtime directory: \<open>None\<close> is an entry that is no directory.\<close>

record 'v machine =
  mc_shm :: "(string, 'v segment) dict"
  mc_runs :: "(string, (string, directory) dict option) dict"

fun sweep_shm_each :: "string list \<Rightarrow> probe \<Rightarrow> (string \<Rightarrow> bool) \<Rightarrow> string list \<Rightarrow> 'v machine \<Rightarrow> unit res \<times> 'v machine" where
  "sweep_shm_each keep kill0 unlink_ok [] mc = (Inr (), mc)"
| "sweep_shm_each keep kill0 unlink_ok (nm # nms) mc =
     (case SHM_RE nm of
        None \<Rightarrow> sweep_shm_each keep kill0 unlink_ok nms mc
      | Some (d, h) \<Rightarrow>
          if d @ ''_'' @ h \<in> set keep then sweep_shm_each keep kill0 unlink_ok nms mc
          else case rbind (int_of_text d) (pid_alive kill0) of
            Inl e \<Rightarrow> (Inl e, mc)
          | Inr True \<Rightarrow> sweep_shm_each keep kill0 unlink_ok nms mc
          | Inr False \<Rightarrow>
              sweep_shm_each keep kill0 unlink_ok nms (if unlink_ok nm then mc\<lparr>mc_shm := ddel nm (mc_shm mc)\<rparr> else mc))"

text \<open>\<open>listable\<close>: whether \<open>os.listdir\<close> succeeds.\<close>

definition sweep_stale_shm :: "string list \<Rightarrow> probe \<Rightarrow> bool \<Rightarrow> (string \<Rightarrow> bool) \<Rightarrow> 'v machine \<Rightarrow> unit res \<times> 'v machine" where
  "sweep_stale_shm keep kill0 listable unlink_ok mc =
     (if listable then sweep_shm_each keep kill0 unlink_ok (dkeys (mc_shm mc)) mc else (Inr (), mc))"

text \<open>The shared memory after the sweep over a run's manifests, also when one of them makes it raise.\<close>

fun swept_shm :: "directory \<Rightarrow> (string, 'v segment) dict \<Rightarrow> (string, 'v segment) dict" where
  "swept_shm [] m = m"
| "swept_shm ((p, f) # fs) m =
     (if \<not> is_json p then swept_shm fs m
      else case read_entry f of
        Inl e \<Rightarrow> if skipped e then swept_shm fs m else m
      | Inr en \<Rightarrow> (case unlink_shm (re_shm_name en) m of Inl e \<Rightarrow> m | Inr (u, m') \<Rightarrow> swept_shm fs m'))"

definition clean_entry :: "string \<Rightarrow> (string, directory) dict \<Rightarrow> 'v machine \<Rightarrow> unit res \<times> 'v machine" where
  "clean_entry nm subs mc =
     (case cleanup_run \<lparr>rs_shm = mc_shm mc, rs_subs = subs\<rparr> of
        Inl e \<Rightarrow> (Inl e, mc\<lparr>mc_shm := swept_shm (concat (map snd subs)) (mc_shm mc)\<rparr>)
      | Inr (k, w) \<Rightarrow> (Inr (), mc\<lparr>mc_shm := rs_shm w, mc_runs := ddel nm (mc_runs mc)\<rparr>))"

fun sweep_dirs_each :: "string list \<Rightarrow> probe \<Rightarrow> (string \<times> (string, directory) dict option) list \<Rightarrow> 'v machine \<Rightarrow> unit res \<times> 'v machine" where
  "sweep_dirs_each keep kill0 [] mc = (Inr (), mc)"
| "sweep_dirs_each keep kill0 ((nm, content) # es) mc =
     (case RUN_DIR_RE nm of
        None \<Rightarrow> sweep_dirs_each keep kill0 es mc
      | Some (d, h) \<Rightarrow>
          if nm \<in> set keep then sweep_dirs_each keep kill0 es mc
          else case rbind (int_of_text d) (pid_alive kill0) of
            Inl e \<Rightarrow> (Inl e, mc)
          | Inr True \<Rightarrow> sweep_dirs_each keep kill0 es mc
          | Inr False \<Rightarrow>
              (case content of
                 None \<Rightarrow> sweep_dirs_each keep kill0 es mc
               | Some subs \<Rightarrow>
                   (case clean_entry nm subs mc of
                      (Inl e, mc1) \<Rightarrow> (Inl e, mc1)
                    | (Inr u, mc1) \<Rightarrow> sweep_dirs_each keep kill0 es mc1)))"

definition sweep_stale_run_dirs :: "string list \<Rightarrow> probe \<Rightarrow> bool \<Rightarrow> 'v machine \<Rightarrow> unit res \<times> 'v machine" where
  "sweep_stale_run_dirs keep kill0 listable mc =
     (if listable then sweep_dirs_each keep kill0 (mc_runs mc) mc else (Inr (), mc))"

text \<open>One sweep meets the world at four moments; whatever is raised on the way is swallowed.\<close>

record sweep_world =
  sw_self :: int
  sw_proc :: "listing res"
  sw_find :: probe
  sw_kill :: kill_world
  sw_shm_probe :: probe
  sw_shm_listable :: bool
  sw_unlink_ok :: "string \<Rightarrow> bool"
  sw_dir_probe :: probe
  sw_dir_listable :: bool

definition reclaim :: "string list \<Rightarrow> sweep_world \<Rightarrow> 'v machine \<Rightarrow> unit res \<times> 'v machine" where
  "reclaim keep sw mc =
     (case sweep_stale_shm keep (sw_shm_probe sw) (sw_shm_listable sw) (sw_unlink_ok sw) mc of
        (Inl e, mc1) \<Rightarrow> (Inl e, mc1)
      | (Inr u, mc1) \<Rightarrow> sweep_stale_run_dirs keep (sw_dir_probe sw) (sw_dir_listable sw) mc1)"

definition orphan_sweep :: "string list \<Rightarrow> bool \<Rightarrow> sweep_world \<Rightarrow> 'v machine \<Rightarrow> (signals \<times> 'v machine) option" where
  "orphan_sweep keep include_legacy sw mc =
     (case rbind (sw_proc sw) (find_orphans (sw_self sw) (sw_find sw) include_legacy) of
        Inl e \<Rightarrow> Some ([], mc)
      | Inr orphans \<Rightarrow>
          if orphans = [] then Some ([], snd (reclaim keep sw mc))
          else case kill_orphans (map (pr_pid \<circ> fst) orphans) TERM_GRACE (sw_kill sw) of
            None \<Rightarrow> None
          | Some (Inl e, sent) \<Rightarrow> Some (sent, mc)
          | Some (Inr killed, sent) \<Rightarrow> Some (sent, snd (reclaim keep sw mc)))"

section \<open>Printing and matching run ids\<close>

definition digit_char :: "nat \<Rightarrow> char" where
  "digit_char n = char_of (48 + n mod 10)"

lemma nat_str_unfold: "nat_str n = (if n < 10 then [digit_char n] else nat_str (n div 10) @ [digit_char n])"
  by (subst nat_str.simps) (simp add: digit_char_def)

lemma of_digit_char [simp]: "(of_char (digit_char n) :: nat) = 48 + n mod 10" "(of_char (digit_char n) :: int) = 48 + int (n mod 10)"
proof -
  have lt: "48 + n mod 10 < 256" by presburger
  then show "(of_char (digit_char n) :: nat) = 48 + n mod 10" by (simp add: digit_char_def)
  then have "int (of_char (digit_char n)) = 48 + int (n mod 10)" by simp
  then show "(of_char (digit_char n) :: int) = 48 + int (n mod 10)" by (metis of_nat_of_char)
qed

lemma digit_digit_char [simp]: "digit (digit_char n)"
proof -
  have "n mod 10 < 10" by simp
  then show ?thesis by (simp add: digit_def Let_def)
qed

lemma nat_str_digits: "nat_str n \<noteq> [] \<and> list_all digit (nat_str n)"
proof (induction n rule: nat_str.induct)
  case (1 n)
  then show ?case by (subst (1 2) nat_str_unfold) simp
qed

lemma foldl_nat_str: "foldl (\<lambda>a c. a * 10 + (of_char c - 48)) (0 :: int) (nat_str n) = int n"
proof (induction n rule: nat_str.induct)
  case (1 n)
  show ?case
  proof (cases "n < 10")
    case True
    then show ?thesis by (subst nat_str_unfold) simp
  next
    case False
    then have "foldl (\<lambda>a c. a * 10 + (of_char c - 48)) (0 :: int) (nat_str n) = int (n div 10) * 10 + int (n mod 10)"
      using 1 by (subst nat_str_unfold) simp
    then show ?thesis by (metis of_nat_add of_nat_mult of_nat_numeral div_mult_mod_eq)
  qed
qed

lemma digit_not_special: "digit c \<Longrightarrow> c \<noteq> CHR ''-'' \<and> c \<noteq> CHR ''+'' \<and> c \<noteq> CHR '' '' \<and> c \<noteq> CHR 0x09 \<and> c \<noteq> CHR 0x0A \<and> c \<noteq> CHR 0x0D \<and> c \<noteq> CHR ''_''"
  by (auto simp: digit_def)

lemma py_int_digits:
  assumes "ds \<noteq> []" "list_all digit ds"
  shows "py_int_of_string ds = Inr (foldl (\<lambda>a c. a * 10 + (of_char c - 48)) 0 ds)"
proof -
  let ?blank = "\<lambda>c. c = CHR '' '' \<or> c = CHR 0x09 \<or> c = CHR 0x0A \<or> c = CHR 0x0D"
  have keep: "dropWhile ?blank xs = xs" if "xs \<noteq> []" "list_all digit xs" for xs
    using that digit_not_special[of "hd xs"] by (cases xs) auto
  have "dropWhile ?blank ds = ds" "dropWhile ?blank (rev ds) = rev ds" using keep[of ds] keep[of "rev ds"] assms by auto
  moreover have "hd ds \<noteq> CHR ''-''" "hd ds \<noteq> CHR ''+''" using assms digit_not_special[of "hd ds"] by (cases ds; auto)+
  ultimately show ?thesis using assms by (simp add: py_int_of_string_def Let_def)
qed

lemma int_of_nat_str: "length (nat_str n) \<le> 4300 \<Longrightarrow> int_of_text (nat_str n) = Inr (int n)"
  using nat_str_digits[of n] py_int_digits[of "nat_str n"] foldl_nat_str[of n] le_trans[OF length_filter_le[of digit "nat_str n"]]
  by (simp add: int_of_text_def not_less)

lemma length_nat_str: "n < 10 ^ k \<Longrightarrow> 0 < k \<Longrightarrow> length (nat_str n) \<le> k"
proof (induction k arbitrary: n)
  case (Suc k)
  show ?case
  proof (cases "n < 10")
    case True
    then show ?thesis by (subst nat_str_unfold) simp
  next
    case False
    then have "k \<noteq> 0" using Suc.prems by (cases k) auto
    moreover have "n div 10 < 10 ^ k" using Suc.prems(1) by (simp add: less_mult_imp_div_less mult.commute)
    ultimately have "length (nat_str (n div 10)) \<le> k" using Suc.IH by blast
    then show ?thesis using False by (subst nat_str_unfold) simp
  qed
qed simp

lemma int_of_pid: "int n \<le> PID_MAX \<Longrightarrow> int_of_text (nat_str n) = Inr (int n)"
proof -
  assume "int n \<le> PID_MAX"
  then have "n < 10 ^ 10" by (simp add: PID_MAX_def)
  then show ?thesis using length_nat_str[of n 10] int_of_nat_str by simp
qed

lemma pid_hex_of_run:
  assumes "list_all hex_char (take 8 hex)" "8 \<le> length hex"
  shows "pid_hex (nat_str p @ ''_'' @ take 8 hex @ r) = Some (nat_str p, take 8 hex, r)"
proof -
  have d: "\<And>c. c \<in> set (nat_str p) \<Longrightarrow> digit c" and ne: "nat_str p \<noteq> []" using nat_str_digits[of p] by (auto simp: list_all_iff)
  have us: "\<not> digit (CHR ''_'')" by (simp add: digit_def)
  have "takeWhile digit (nat_str p @ ''_'' @ take 8 hex @ r) = nat_str p"
       "dropWhile digit (nat_str p @ ''_'' @ take 8 hex @ r) = ''_'' @ take 8 hex @ r"
    using d us by (simp_all add: takeWhile_append2 dropWhile_append2)
  moreover have "take 8 (tl (''_'' @ take 8 hex @ r)) = take 8 hex" "drop 8 (tl (''_'' @ take 8 hex @ r)) = r" using assms(2) by simp_all
  ultimately show ?thesis using assms ne by (simp add: pid_hex_def Let_def)
qed

lemma run_dir_of_run:
  "list_all hex_char (take 8 hex) \<Longrightarrow> 8 \<le> length hex \<Longrightarrow> RUN_DIR_RE (make_run_id p hex) = Some (nat_str p, take 8 hex)"
  using pid_hex_of_run[of hex p "[]"] by (simp add: RUN_DIR_RE_def make_run_id_def)

lemma sanitize_run_id:
  assumes "list_all hex_char (take 8 hex)"
  shows "sanitize (make_run_id p hex) = make_run_id p hex"
proof (rule sanitize_id)
  have safe: "digit c \<Longrightarrow> safe_char c" "hex_char c \<Longrightarrow> safe_char c" for c
    by (auto simp: digit_def hex_char_def safe_char_def Let_def)
  fix c assume "c \<in> set (make_run_id p hex)"
  then have "c \<in> set (nat_str p) \<or> c = CHR ''_'' \<or> c \<in> set (take 8 hex)" by (auto simp: make_run_id_def)
  then show "safe_char c" using nat_str_digits[of p] assms safe by (auto simp: list_all_iff safe_char_def)
qed

lemma shm_of_run:
  assumes "list_all hex_char (take 8 hex)" "8 \<le> length hex"
  shows "SHM_RE (shm_name_for (make_run_id p hex) stream) = Some (nat_str p, take 8 hex)"
proof -
  have "drop 4 (shm_name_for (make_run_id p hex) stream) = nat_str p @ ''_'' @ take 8 hex @ ''_'' @ sanitize stream"
    by (simp add: shm_name_for_def sanitize_run_id[OF assms(1)], simp add: make_run_id_def)
  then show ?thesis
    using pid_hex_of_run[OF assms, of p "''_'' @ sanitize stream"] by (simp add: SHM_RE_def starts_def, simp add: shm_name_for_def)
qed

section \<open>Who is signalled\<close>

text \<open>
  What makes a process a provable orphan: it is not the sweeping process, and either its tag names a dead process, or (only
  where the older heuristic is admitted) it has no tag, is a spawned child and maps segments whose creators are all dead.
\<close>

definition provable_orphan :: "int \<Rightarrow> probe \<Rightarrow> bool \<Rightarrow> proc_record \<Rightarrow> bool" where
  "provable_orphan self_pid kill0 include_legacy rec \<longleftrightarrow> pr_pid rec \<noteq> self_pid
     \<and> (case pr_tag rec of
          Some t \<Rightarrow> \<exists>p. int_of_text t = Inr p \<and> pid_alive kill0 p = Inr False
        | None \<Rightarrow> include_legacy \<and> list_ex (contains ''spawn_main'') (pr_cmdline rec) \<and> pr_creators rec \<noteq> []
                  \<and> (\<forall>p \<in> set (pr_creators rec). pid_alive kill0 p = Inr False))"

lemma any_alive_False: "any_alive kill0 ps = Inr False \<Longrightarrow> p \<in> set ps \<Longrightarrow> pid_alive kill0 p = Inr False"
  by (induction ps) (auto split: if_splits)

lemma classify_provable:
  assumes "classify_orphan rec self_pid kill0 = Inr (Some why)" "why = Legacy \<Longrightarrow> include_legacy"
  shows "provable_orphan self_pid kill0 include_legacy rec"
proof (cases "pr_tag rec")
  case None
  then show ?thesis using assms any_alive_False[of kill0 "pr_creators rec"]
    by (auto simp: classify_orphan_def provable_orphan_def split: if_splits)
next
  case (Some t)
  then show ?thesis using assms(1) by (auto simp: classify_orphan_def provable_orphan_def split: if_splits)
qed

text \<open>A listed process of this user, with the record read from its files.\<close>

definition listed_as :: "listing \<Rightarrow> int \<Rightarrow> proc_files \<Rightarrow> proc_record \<Rightarrow> bool" where
  "listed_as es p pf rec \<longleftrightarrow> (\<exists>nm. (nm, Some pf) \<in> set es \<and> isdigit nm \<and> int_of_text nm = Inr p) \<and> pf_ours pf
     \<and> read_proc_record p (Some pf) = Inr (Some rec) \<and> pr_pid rec = p"

lemma read_proc_record_Some:
  "read_proc_record p pfo = Inr (Some rec) \<Longrightarrow> \<exists>pf. pfo = Some pf \<and> pf_ours pf \<and> pr_pid rec = p \<and> pr_tag rec = env_tag (pf_environ pf)"
  by (auto simp: read_proc_record_def split: option.splits if_splits)

lemma find_orphans_sound:
  assumes "find_orphans self_pid kill0 include_legacy es = Inr os" "(rec, why) \<in> set os"
  shows "provable_orphan self_pid kill0 include_legacy rec \<and> (\<exists>pf. listed_as es (pr_pid rec) pf rec)"
  using assms
proof (induction es arbitrary: os)
  case (Cons e es)
  obtain nm pfo where e: "e = (nm, pfo)" by (cases e)
  have more: "listed_as es p pf r \<Longrightarrow> listed_as (e # es) p pf r" for p pf r by (auto simp: listed_as_def)
  show ?case
  proof (cases "\<exists>p r. isdigit nm \<and> int_of_text nm = Inr p \<and> read_proc_record p pfo = Inr (Some r)")
    case False
    then have "find_orphans self_pid kill0 include_legacy es = Inr os"
      using Cons.prems(1) by (auto simp: e split: if_splits option.splits)
    then show ?thesis using Cons.IH Cons.prems(2) more by blast
  next
    case True
    then obtain p r where r: "isdigit nm" "int_of_text nm = Inr p" "read_proc_record p pfo = Inr (Some r)" by blast
    obtain w rest where w: "classify_orphan r self_pid kill0 = Inr w" "find_orphans self_pid kill0 include_legacy es = Inr rest"
        "os = (case w of None \<Rightarrow> rest | Some Tagged \<Rightarrow> (r, Tagged) # rest
          | Some Legacy \<Rightarrow> if include_legacy then (r, Legacy) # rest else rest)"
      using Cons.prems(1) r by (auto simp: e)
    show ?thesis
    proof (cases "(rec, why) \<in> set rest")
      case True
      then show ?thesis using Cons.IH[OF w(2)] more by blast
    next
      case False
      then have "rec = r" "w = Some why" "why = Legacy \<longrightarrow> include_legacy"
        using Cons.prems(2) w(3) by (auto split: option.splits reason.splits if_splits)
      moreover obtain pf where "pfo = Some pf" "pf_ours pf" "pr_pid r = p" using read_proc_record_Some[OF r(3)] by blast
      moreover then have "listed_as (e # es) (pr_pid r) pf r" using r by (auto simp: listed_as_def e)
      ultimately show ?thesis using classify_provable w(1) by blast
    qed
  qed
qed simp

lemma term_each_subset: "set (snd (term_each term ps)) \<subseteq> set ps"
  by (induction ps) (auto split: kill_outcome.splits prod.splits)

lemma filterR_subset: "filterR f xs = Inr ys \<Longrightarrow> set ys \<subseteq> set xs"
  by (induction xs arbitrary: ys) (fastforce split: if_splits)+

lemma filterR_rejected: "filterR f xs = Inr ys \<Longrightarrow> x \<in> set xs \<Longrightarrow> x \<notin> set ys \<Longrightarrow> f x = Inr False"
  by (induction xs arbitrary: ys) (auto split: if_splits)

lemma grace_remaining:
  assumes "grace deadline polls ps = Some (Inr remaining)"
  shows "set remaining \<subseteq> set ps \<and> (\<forall>p \<in> set ps - set remaining. \<exists>(now, kill0) \<in> set polls. pid_alive kill0 p = Inr False)"
  using assms
proof (induction deadline polls ps rule: grace.induct)
  case (3 deadline now kill0 polls p ps)
  show ?case
  proof (cases "now < deadline")
    case True
    then obtain rem where rem: "filterR (pid_alive kill0) (p # ps) = Inr rem" "grace deadline polls rem = Some (Inr remaining)"
      using "3.prems" by (auto split: sum.splits simp del: filterR.simps)
    have ih: "set remaining \<subseteq> set rem" "\<forall>q \<in> set rem - set remaining. \<exists>(now, kill0) \<in> set polls. pid_alive kill0 q = Inr False"
      using "3.IH"[OF True rem] by blast+
    have "\<exists>(now, kill0) \<in> set ((now, kill0) # polls). pid_alive kill0 q = Inr False" if q: "q \<in> set (p # ps) - set remaining" for q
    proof (cases "q \<in> set rem")
      case True
      then show ?thesis using ih(2) q by (metis DiffD2 DiffI list.set_intros(2))
    next
      case False
      then have "pid_alive kill0 q = Inr False" using filterR_rejected[OF rem(1)] q by blast
      then show ?thesis by (intro bexI[of _ "(now, kill0)"]) auto
    qed
    then show ?thesis using ih(1) filterR_subset[OF rem(1)] by blast
  next
    case False
    then show ?thesis using "3.prems" by simp
  qed
qed auto

lemma kill_orphans_signals:
  assumes "kill_orphans pids g kw = Some (r, sent)"
  shows "\<forall>(p, s) \<in> set sent. p \<in> set pids \<and> (p, SIGTERM) \<in> set sent"
proof -
  obtain q killed where q: "term_each (kw_term kw) pids = (q, killed)" by (meson surj_pair)
  have sub: "set killed \<subseteq> set pids" using term_each_subset[of "kw_term kw" pids] q by simp
  show ?thesis
  proof (cases "\<exists>u remaining. q = Inr u \<and> grace (kw_start kw + g) (kw_polls kw) killed = Some (Inr remaining)")
    case True
    then obtain remaining where rem: "grace (kw_start kw + g) (kw_polls kw) killed = Some (Inr remaining)"
        "sent = map (\<lambda>p. (p, SIGTERM)) killed @ map (\<lambda>p. (p, SIGKILL)) (filter (\<lambda>p. kw_kill kw p = KOk) remaining)"
      using assms q by (auto simp: kill_orphans_def)
    then have "set remaining \<subseteq> set killed" using grace_remaining by blast
    then show ?thesis using rem(2) sub by auto
  next
    case False
    then have "sent = map (\<lambda>p. (p, SIGTERM)) killed" using assms q
      by (cases q) (auto simp: kill_orphans_def split: option.splits sum.splits)
    then show ?thesis using sub by auto
  qed
qed

lemma sent_to_orphans:
  assumes "orphan_sweep keep include_legacy sw mc = Some (sent, mc')" "(p, s) \<in> set sent"
  shows "(\<exists>es pf rec. sw_proc sw = Inr es \<and> listed_as es p pf rec \<and> provable_orphan (sw_self sw) (sw_find sw) include_legacy rec)
    \<and> (p, SIGTERM) \<in> set sent"
proof (cases "rbind (sw_proc sw) (find_orphans (sw_self sw) (sw_find sw) include_legacy)")
  case (Inl e)
  then show ?thesis using assms by (simp add: orphan_sweep_def)
next
  case (Inr os)
  then obtain es where es: "sw_proc sw = Inr es" "find_orphans (sw_self sw) (sw_find sw) include_legacy es = Inr os" by auto
  obtain r where r: "kill_orphans (map (pr_pid \<circ> fst) os) TERM_GRACE (sw_kill sw) = Some (r, sent)"
    using assms Inr by (auto simp: orphan_sweep_def split: if_splits option.splits sum.splits)
  have "p \<in> set (map (pr_pid \<circ> fst) os)" "(p, SIGTERM) \<in> set sent" using kill_orphans_signals[OF r] assms(2) by blast+
  then obtain rec why where "(rec, why) \<in> set os" "pr_pid rec = p" by auto
  then show ?thesis using find_orphans_sound[OF es(2)] es(1) \<open>(p, SIGTERM) \<in> set sent\<close> by blast
qed

text \<open>
  The sweep signals provable orphans only. Whatever \<^verbatim>\<open>/proc\<close> lists and whatever the system calls return, a process that is sent
  a signal is a listed process of the same user, is not the sweeping process, and has a dead supervisor: its tag names a process id
  that was seen dead, or, in the sweep at start-up only, it has no tag, is a spawned child, and every creator of a segment it maps was seen dead. No
  process is killed that was not first asked to end.
\<close>

theorem sweep_signals_orphans:
  assumes "orphan_sweep keep include_legacy sw mc = Some (sent, mc')" "(p, s) \<in> set sent"
  shows "(\<exists>es pf rec. sw_proc sw = Inr es \<and> listed_as es p pf rec \<and> provable_orphan (sw_self sw) (sw_find sw) include_legacy rec)
    \<and> (p, SIGTERM) \<in> set sent"
  using sent_to_orphans[OF assms] .

section \<open>What is reclaimed\<close>

definition dead_creator :: "probe \<Rightarrow> (string \<times> string) option \<Rightarrow> bool" where
  "dead_creator kill0 m \<longleftrightarrow> (\<exists>d h. m = Some (d, h) \<and> rbind (int_of_text d) (pid_alive kill0) = Inr False)"

definition names_segment :: "(string, directory) dict \<Rightarrow> string \<Rightarrow> bool" where
  "names_segment subs seg \<longleftrightarrow> (\<exists>(p, f) \<in> set (concat (map snd subs)). \<exists>en. read_entry f = Inr en \<and> re_shm_name en = JStr seg)"

lemma shm_each_stale:
  assumes "sweep_shm_each keep kill0 ok nms mc = (r, mc')"
  shows "mc_runs mc' = mc_runs mc \<and> (dget (mc_shm mc') nm \<noteq> dget (mc_shm mc) nm
    \<longrightarrow> dead_creator kill0 (SHM_RE nm) \<and> (\<forall>d h. SHM_RE nm = Some (d, h) \<longrightarrow> d @ ''_'' @ h \<notin> set keep))"
  using assms
proof (induction nms arbitrary: mc)
  case (Cons n nms)
  show ?case
  proof (cases "SHM_RE n")
    case None
    then show ?thesis using Cons.IH[of mc] Cons.prems by simp
  next
    case (Some dh)
    obtain d h where dh: "dh = (d, h)" by (cases dh)
    define al where "al = rbind (int_of_text d) (pid_alive kill0)"
    note fold_al = al_def[symmetric]
    consider "d @ ''_'' @ h \<in> set keep \<or> al = Inr True" | e where "d @ ''_'' @ h \<notin> set keep" "al = Inl e"
      | "d @ ''_'' @ h \<notin> set keep" "al = Inr False" by (cases al) auto
    then show ?thesis
    proof cases
      case 1
      then have "sweep_shm_each keep kill0 ok nms mc = (r, mc')" using Cons.prems Some dh by (elim disjE) (simp_all add: fold_al split: if_splits)
      then show ?thesis by (rule Cons.IH)
    next
      case (2 e)
      then show ?thesis using Cons.prems Some dh by (simp add: fold_al)
    next
      case 3
      define mc1 where "mc1 = (if ok n then mc\<lparr>mc_shm := ddel n (mc_shm mc)\<rparr> else mc)"
      have "sweep_shm_each keep kill0 ok nms mc1 = (r, mc')" using Cons.prems Some dh 3 by (simp add: mc1_def fold_al)
      note ih = Cons.IH[OF this]
      have "mc_runs mc1 = mc_runs mc" "nm \<noteq> n \<longrightarrow> dget (mc_shm mc1) nm = dget (mc_shm mc) nm" by (auto simp: mc1_def dict_simps)
      moreover have "dead_creator kill0 (SHM_RE n)" using Some dh 3(2) by (auto simp: dead_creator_def al_def)
      ultimately show ?thesis using ih Some dh 3(1) by (cases "nm = n") auto
    qed
  qed
qed simp

lemma unlink_shm_other: "unlink_shm x m = Inr (u, m') \<Longrightarrow> x \<noteq> JStr seg \<Longrightarrow> dget m' seg = dget m seg"
  by (cases x) (auto simp: dict_simps split: option.splits)

lemma swept_shm_other:
  assumes "\<forall>(p, f) \<in> set fs. \<forall>en. read_entry f = Inr en \<longrightarrow> re_shm_name en \<noteq> JStr seg"
  shows "dget (swept_shm fs m) seg = dget m seg"
  using assms
proof (induction fs arbitrary: m)
  case (Cons x fs)
  obtain p f where x: "x = (p, f)" by (cases x)
  show ?case
  proof (cases "\<exists>en u m'. is_json p \<and> read_entry f = Inr en \<and> unlink_shm (re_shm_name en) m = Inr (u, m')")
    case True
    then obtain en u m' where en: "is_json p" "read_entry f = Inr en" "unlink_shm (re_shm_name en) m = Inr (u, m')" by blast
    have "re_shm_name en \<noteq> JStr seg" using Cons.prems en(2) by (auto simp: x)
    then show ?thesis using unlink_shm_other[OF en(3)] Cons.IH[of m'] Cons.prems en by (simp add: x)
  next
    case False
    then show ?thesis using Cons.IH[of m] Cons.prems by (auto simp: x split: sum.splits)
  qed
qed simp

lemma sweep_swept: "sweep fs k m kept = Inr (k', m', kept') \<Longrightarrow> m' = swept_shm fs m"
proof (induction fs arbitrary: k m kept)
  case (Cons x fs)
  obtain p f where x: "x = (p, f)" by (cases x)
  show ?case using Cons by (auto simp: x split: if_splits sum.splits)
qed simp

lemma clean_entry_effect:
  assumes "clean_entry nm subs mc = (r, mc')"
  shows "mc_shm mc' = swept_shm (concat (map snd subs)) (mc_shm mc)"
    and "mc_runs mc' = mc_runs mc \<or> mc_runs mc' = ddel nm (mc_runs mc)"
  using assms sweep_swept[of "concat (map snd subs)" 0 "mc_shm mc" "[]"]
  by (auto simp: clean_entry_def cleanup_run_def split: sum.splits)

lemma dirs_each_stale:
  assumes "sweep_dirs_each keep kill0 es mc = (r, mc')"
  shows "(dget (mc_runs mc') nm \<noteq> dget (mc_runs mc) nm \<longrightarrow> dead_creator kill0 (RUN_DIR_RE nm) \<and> nm \<notin> set keep)
    \<and> (dget (mc_shm mc') seg \<noteq> dget (mc_shm mc) seg
        \<longrightarrow> (\<exists>n subs. (n, Some subs) \<in> set es \<and> dead_creator kill0 (RUN_DIR_RE n) \<and> n \<notin> set keep \<and> names_segment subs seg))"
  using assms
proof (induction es arbitrary: mc)
  case (Cons x es)
  obtain n c where x: "x = (n, c)" by (cases x)
  have skip: "sweep_dirs_each keep kill0 es mc = (r, mc') \<Longrightarrow> ?case" using Cons.IH[of mc] by (auto 0 4)
  show ?case
  proof (cases "\<exists>d h subs. RUN_DIR_RE n = Some (d, h) \<and> n \<notin> set keep \<and> rbind (int_of_text d) (pid_alive kill0) = Inr False \<and> c = Some subs")
    case False
    then consider "sweep_dirs_each keep kill0 es mc = (r, mc')" | "mc' = mc"
      using Cons.prems by (auto simp: x split: option.splits if_splits sum.splits bool.splits)
    then show ?thesis using skip by cases auto
  next
    case True
    then obtain d h subs where d: "RUN_DIR_RE n = Some (d, h)" "n \<notin> set keep" "rbind (int_of_text d) (pid_alive kill0) = Inr False" "c = Some subs" by blast
    obtain q mc1 where q: "clean_entry n subs mc = (q, mc1)" by (meson surj_pair)
    have dead: "dead_creator kill0 (RUN_DIR_RE n)" using d by (auto simp: dead_creator_def)
    have runs: "nm \<noteq> n \<Longrightarrow> dget (mc_runs mc1) nm = dget (mc_runs mc) nm" using clean_entry_effect(2)[OF q] by (auto simp: dict_simps)
    have shm: "dget (mc_shm mc1) seg \<noteq> dget (mc_shm mc) seg \<Longrightarrow> names_segment subs seg"
      using swept_shm_other[of "concat (map snd subs)" seg "mc_shm mc"] clean_entry_effect(1)[OF q] unfolding names_segment_def by fastforce
    have "mc' = mc1 \<or> sweep_dirs_each keep kill0 es mc1 = (r, mc')" using Cons.prems d q by (cases q) (auto simp: x)
    then show ?thesis
    proof
      assume "mc' = mc1"
      then show ?thesis using dead d(2,4) runs shm by (metis list.set_intros(1) x)
    next
      assume "sweep_dirs_each keep kill0 es mc1 = (r, mc')"
      note ih = Cons.IH[OF this]
      have "dget (mc_runs mc') nm \<noteq> dget (mc_runs mc) nm \<longrightarrow> dead_creator kill0 (RUN_DIR_RE nm) \<and> nm \<notin> set keep"
        using ih dead d(2) runs by metis
      moreover have "dget (mc_shm mc') seg \<noteq> dget (mc_shm mc) seg
        \<longrightarrow> (\<exists>n subs. (n, Some subs) \<in> set (x # es) \<and> dead_creator kill0 (RUN_DIR_RE n) \<and> n \<notin> set keep \<and> names_segment subs seg)"
        using ih dead d(2,4) shm by (metis list.set_intros x)
      ultimately show ?thesis by blast
    qed
  qed
qed simp

lemma sweep_machine:
  assumes "orphan_sweep keep include_legacy sw mc = Some (sent, mc')"
  shows "mc' = mc \<or> mc' = snd (reclaim keep sw mc)"
  using assms by (auto simp: orphan_sweep_def split: if_splits option.splits sum.splits)

lemma reclaim_stale:
  assumes "mc' = snd (reclaim keep sw mc)"
  shows "dget (mc_runs mc') nm \<noteq> dget (mc_runs mc) nm \<longrightarrow> dead_creator (sw_dir_probe sw) (RUN_DIR_RE nm)"
    and "dget (mc_shm mc') seg \<noteq> dget (mc_shm mc) seg \<longrightarrow> dead_creator (sw_shm_probe sw) (SHM_RE seg)
      \<or> (\<exists>n subs. (n, Some subs) \<in> set (mc_runs mc) \<and> dead_creator (sw_dir_probe sw) (RUN_DIR_RE n) \<and> names_segment subs seg)"
proof -
  obtain r mc1 where a: "sweep_stale_shm keep (sw_shm_probe sw) (sw_shm_listable sw) (sw_unlink_ok sw) mc = (r, mc1)" by (meson surj_pair)
  have one: "mc_runs mc1 = mc_runs mc" "dget (mc_shm mc1) seg \<noteq> dget (mc_shm mc) seg \<longrightarrow> dead_creator (sw_shm_probe sw) (SHM_RE seg)"
    using shm_each_stale a by (fastforce simp: sweep_stale_shm_def split: if_splits)+
  obtain r2 mc2 where b: "sweep_stale_run_dirs keep (sw_dir_probe sw) (sw_dir_listable sw) mc1 = (r2, mc2)" by (meson surj_pair)
  note two = dirs_each_stale[of keep "sw_dir_probe sw" "mc_runs mc1" mc1 r2 mc2]
  have mc': "mc' = mc1 \<or> mc' = mc2" using assms a b by (cases r) (auto simp: reclaim_def)
  show "dget (mc_runs mc') nm \<noteq> dget (mc_runs mc) nm \<longrightarrow> dead_creator (sw_dir_probe sw) (RUN_DIR_RE nm)"
    using mc' one(1) two b by (auto simp: sweep_stale_run_dirs_def split: if_splits)
  have "dget (mc_shm mc2) seg \<noteq> dget (mc_shm mc1) seg \<longrightarrow>
      (\<exists>n subs. (n, Some subs) \<in> set (mc_runs mc) \<and> dead_creator (sw_dir_probe sw) (RUN_DIR_RE n) \<and> names_segment subs seg)"
  proof (cases "sw_dir_listable sw")
    case True
    then have "sweep_dirs_each keep (sw_dir_probe sw) (mc_runs mc1) mc1 = (r2, mc2)" using b by (simp add: sweep_stale_run_dirs_def)
    then show ?thesis using two[of _ seg] one(1) by fastforce
  next
    case False
    then show ?thesis using b by (simp add: sweep_stale_run_dirs_def)
  qed
  then show "dget (mc_shm mc') seg \<noteq> dget (mc_shm mc) seg \<longrightarrow> dead_creator (sw_shm_probe sw) (SHM_RE seg)
      \<or> (\<exists>n subs. (n, Some subs) \<in> set (mc_runs mc) \<and> dead_creator (sw_dir_probe sw) (RUN_DIR_RE n) \<and> names_segment subs seg)"
    using mc' one(2) by metis
qed

text \<open>
  C20. A living supervisor is safe from every sweep. Let a supervisor's process id be found alive at each look of the sweep (also when it belongs to
  another user). Then no process that carries its tag is signalled, its run directory stays as it is, and no segment of
  its run is unlinked, unless the directory of a dead run holds a manifest that names the segment. The run id and the segment names
  are those the program makes (\<open>make_run_id\<close>, \<open>shm_name_for\<close>).
\<close>

theorem live_supervisor_untouched:
  assumes sweep: "orphan_sweep keep include_legacy sw mc = Some (sent, mc')"
    and pid: "0 < pid" "int pid \<le> PID_MAX"
    and alive: "sw_find sw (int pid) \<noteq> KGone" "sw_shm_probe sw (int pid) \<noteq> KGone" "sw_dir_probe sw (int pid) \<noteq> KGone"
    and hex: "8 \<le> length hex" "list_all hex_char (take 8 hex)"
  shows "(\<forall>(p, s) \<in> set sent. \<exists>es pf rec. sw_proc sw = Inr es \<and> listed_as es p pf rec \<and> env_tag (pf_environ pf) \<noteq> Some (nat_str pid))
    \<and> dget (mc_runs mc') (make_run_id pid hex) = dget (mc_runs mc) (make_run_id pid hex)
    \<and> (dget (mc_shm mc') (shm_name_for (make_run_id pid hex) stream) = dget (mc_shm mc) (shm_name_for (make_run_id pid hex) stream)
        \<or> (\<exists>n subs. (n, Some subs) \<in> set (mc_runs mc) \<and> dead_creator (sw_dir_probe sw) (RUN_DIR_RE n)
             \<and> names_segment subs (shm_name_for (make_run_id pid hex) stream)))"
proof -
  let ?run = "make_run_id pid hex" let ?seg = "shm_name_for ?run stream"
  have live: "kill0 (int pid) \<noteq> KGone \<Longrightarrow> rbind (int_of_text (nat_str pid)) (pid_alive kill0) = Inr True" for kill0
    using pid int_of_pid[OF pid(2)] by (cases "kill0 (int pid)") (auto simp: pid_alive_def)
  have nd: "\<not> dead_creator kill0 (Some (nat_str pid, h))" if "kill0 (int pid) \<noteq> KGone" for kill0 h
    using live[of kill0] that by (auto simp: dead_creator_def)
  have "\<exists>es pf rec. sw_proc sw = Inr es \<and> listed_as es p pf rec \<and> env_tag (pf_environ pf) \<noteq> Some (nat_str pid)" if ps: "(p, s) \<in> set sent" for p s
  proof -
    obtain es pf rec where r: "sw_proc sw = Inr es" "listed_as es p pf rec" "provable_orphan (sw_self sw) (sw_find sw) include_legacy rec"
      using sent_to_orphans[OF sweep ps] by blast
    have "pr_tag rec = env_tag (pf_environ pf)" using r(2) read_proc_record_Some[of p "Some pf" rec] by (auto simp: listed_as_def)
    then have "env_tag (pf_environ pf) \<noteq> Some (nat_str pid)"
      using r(3) live[of "sw_find sw"] alive(1) by (auto simp: provable_orphan_def)
    then show ?thesis using r by blast
  qed
  moreover have "dget (mc_runs mc') ?run = dget (mc_runs mc) ?run"
    using sweep_machine[OF sweep] reclaim_stale(1) nd[of "sw_dir_probe sw"] alive(3) run_dir_of_run[OF hex(2,1)] by metis
  moreover have "dget (mc_shm mc') ?seg = dget (mc_shm mc) ?seg
        \<or> (\<exists>n subs. (n, Some subs) \<in> set (mc_runs mc) \<and> dead_creator (sw_dir_probe sw) (RUN_DIR_RE n) \<and> names_segment subs ?seg)"
    using sweep_machine[OF sweep] reclaim_stale(2)[of mc' keep sw mc ?seg] nd[of "sw_shm_probe sw"] alive(2) shm_of_run[OF hex(2,1)] by metis
  ultimately show ?thesis by blast
qed

section \<open>Every orphan is signalled\<close>

lemma filterR_total: "\<forall>x \<in> set xs. \<exists>b. f x = Inr b \<Longrightarrow> \<exists>ys. filterR f xs = Inr ys"
proof (induction xs)
  case (Cons x xs)
  then obtain b ys where "f x = Inr b" "filterR f xs = Inr ys" by auto
  then show ?case by simp
qed simp

lemma pid_alive_total: "p \<le> PID_MAX \<Longrightarrow> \<exists>b. pid_alive kill0 p = Inr b"
  by (auto simp: pid_alive_def)

lemma grace_total:
  assumes "\<forall>p \<in> set ps. p \<le> PID_MAX" "\<exists>(now, kill0) \<in> set polls. deadline \<le> now"
  shows "\<exists>remaining. grace deadline polls ps = Some (Inr remaining)"
  using assms
proof (induction deadline polls ps rule: grace.induct)
  case (3 deadline now kill0 polls p ps)
  show ?case
  proof (cases "now < deadline")
    case True
    obtain rem where rem: "filterR (pid_alive kill0) (p # ps) = Inr rem" using filterR_total "3.prems"(1) pid_alive_total by metis
    have "\<forall>q \<in> set rem. q \<le> PID_MAX" using filterR_subset[OF rem] "3.prems"(1) by blast
    moreover have "\<exists>(now, kill0) \<in> set polls. deadline \<le> now" using "3.prems"(2) True by auto
    ultimately show ?thesis using "3.IH"[OF True rem] True rem by (simp del: filterR.simps)
  qed simp
qed auto

lemma term_each_ok:
  assumes "\<forall>p \<in> set ps. p \<le> PID_MAX"
  shows "term_each term ps = (Inr (), filter (\<lambda>p. term p = KOk) ps)"
  using assms by (induction ps) (auto split: kill_outcome.splits)

text \<open>
  The sweep ends, and no orphan it found is forgotten: once the clock passes the grace period the sweep returns, every orphan that can be
  signalled has been asked to end, and each of those has either been seen dead while waiting or been sent the kill.
\<close>

theorem orphans_reaped:
  assumes proc: "sw_proc sw = Inr es" and found: "find_orphans (sw_self sw) (sw_find sw) include_legacy es = Inr os"
    and pids: "\<forall>(r, w) \<in> set os. pr_pid r \<le> PID_MAX"
    and clock: "\<exists>(now, kill0) \<in> set (kw_polls (sw_kill sw)). kw_start (sw_kill sw) + TERM_GRACE \<le> now"
  shows "\<exists>sent mc'. orphan_sweep keep include_legacy sw mc = Some (sent, mc')
    \<and> (\<forall>(r, w) \<in> set os. kw_term (sw_kill sw) (pr_pid r) = KOk \<longrightarrow> (pr_pid r, SIGTERM) \<in> set sent
         \<and> ((\<exists>(now, kill0) \<in> set (kw_polls (sw_kill sw)). pid_alive kill0 (pr_pid r) = Inr False)
            \<or> kw_kill (sw_kill sw) (pr_pid r) \<noteq> KOk \<or> (pr_pid r, SIGKILL) \<in> set sent))"
proof (cases "os = []")
  case True
  then show ?thesis using proc found by (simp add: orphan_sweep_def)
next
  case False
  let ?kw = "sw_kill sw" let ?ps = "map (pr_pid \<circ> fst) os" let ?killed = "filter (\<lambda>p. kw_term ?kw p = KOk) ?ps"
  have le: "\<forall>p \<in> set ?ps. p \<le> PID_MAX" using pids by auto
  note t = term_each_ok[OF le, of "kw_term ?kw"]
  obtain remaining where g: "grace (kw_start ?kw + TERM_GRACE) (kw_polls ?kw) ?killed = Some (Inr remaining)"
    using grace_total[OF _ clock, of ?killed] le by auto
  define sent where "sent = map (\<lambda>p. (p, SIGTERM)) ?killed @ map (\<lambda>p. (p, SIGKILL)) (filter (\<lambda>p. kw_kill ?kw p = KOk) remaining)"
  have k: "kill_orphans ?ps TERM_GRACE ?kw = Some (Inr ?killed, sent)" using t g by (simp add: kill_orphans_def sent_def del: map_map)
  have o: "orphan_sweep keep include_legacy sw mc = Some (sent, snd (reclaim keep sw mc))"
    using proc found False k by (simp add: orphan_sweep_def)
  have each: "(p, SIGTERM) \<in> set sent \<and> ((\<exists>(now, kill0) \<in> set (kw_polls ?kw). pid_alive kill0 p = Inr False)
      \<or> kw_kill ?kw p \<noteq> KOk \<or> (p, SIGKILL) \<in> set sent)" if p: "p \<in> set ?killed" for p
  proof -
    have "p \<in> set remaining \<or> (\<exists>(now, kill0) \<in> set (kw_polls ?kw). pid_alive kill0 p = Inr False)" using grace_remaining[OF g] p by blast
    then show ?thesis using p by (auto simp: sent_def)
  qed
  have "pr_pid r \<in> set ?killed" if "(r, w) \<in> set os" "kw_term ?kw (pr_pid r) = KOk" for r w using that by force
  then show ?thesis using o each by (intro exI[of _ sent] exI[of _ "snd (reclaim keep sw mc)"]) blast
qed

section \<open>A name that stops the sweep\<close>

lemma shm_each_raises:
  fixes mc :: "'v machine"
  assumes "nm \<in> set nms" "SHM_RE nm = Some (d, h)" "d @ ''_'' @ h \<notin> set keep" "int_of_text d = Inr p" "PID_MAX < p"
  shows "\<exists>e mc'. sweep_shm_each keep kill0 ok nms mc = (Inl e, mc')"
  using assms(1)
proof (induction nms arbitrary: mc)
  case (Cons n nms)
  have "pid_alive kill0 p = Inl OverflowError" using assms(5) by (simp add: pid_alive_def PID_MAX_def)
  then have hit: "n = nm \<Longrightarrow> ?case" using assms by simp
  show ?case
  proof (cases "n = nm")
    case False
    then have ih: "\<exists>e mc'. sweep_shm_each keep kill0 ok nms mc0 = (Inl e, mc')" for mc0 :: "'v machine" using Cons by simp
    show ?thesis by (simp add: ih split: option.splits sum.splits bool.splits prod.splits)
  qed (rule hit)
qed simp

text \<open>
  One segment name with an impossible process id stops the sweep for good. When the shared-memory directory holds a name whose
  process id does not fit the C type (and whose run is not kept), the probe raises \<open>OverflowError\<close>, which is not among the exceptions it
  handles: the sweep of the segments ends in an exception and no run directory is ever reclaimed, however many dead runs there are.
\<close>

theorem impossible_pid_stops_sweep:
  assumes "nm \<in> set (dkeys (mc_shm mc))" "SHM_RE nm = Some (d, h)" "d @ ''_'' @ h \<notin> set keep" "int_of_text d = Inr p" "PID_MAX < p"
    and "sw_shm_listable sw"
  shows "(\<exists>e. fst (sweep_stale_shm keep (sw_shm_probe sw) True (sw_unlink_ok sw) mc) = Inl e)
    \<and> (\<forall>sent mc'. orphan_sweep keep include_legacy sw mc = Some (sent, mc') \<longrightarrow> mc_runs mc' = mc_runs mc)"
proof -
  obtain e mc1 where s: "sweep_shm_each keep (sw_shm_probe sw) (sw_unlink_ok sw) (dkeys (mc_shm mc)) mc = (Inl e, mc1)"
    using shm_each_raises[OF assms(1-5)] by blast
  have "mc_runs mc1 = mc_runs mc" using shm_each_stale[OF s] by blast
  moreover have "snd (reclaim keep sw mc) = mc1" using s assms(6) by (simp add: reclaim_def sweep_stale_shm_def)
  ultimately show ?thesis using s sweep_machine by (fastforce simp: sweep_stale_shm_def)
qed

section \<open>A concrete sweep\<close>

text \<open>
  Process 40 carries the tag of the dead supervisor 99, process 41 that of the living supervisor 7. The segments and directories of a dead and of a living run
  are there.
\<close>

definition demo_probe :: probe where
  "demo_probe p = (if p = 99 then KGone else if p = 7 then KDenied else KOk)"

definition demo_files :: "string \<Rightarrow> proc_files" where
  "demo_files tag = \<lparr>pf_ours = True, pf_environ = ''A=1'' @ [nul] @ ''DFC_SUPERVISOR_PID='' @ tag, pf_cmdline = ''python'', pf_maps = []\<rparr>"

definition demo_sweep :: sweep_world where
  "demo_sweep = \<lparr>sw_self = 5, sw_proc = Inr [(''self'', None), (''40'', Some (demo_files ''99'')), (''41'', Some (demo_files ''7''))],
     sw_find = demo_probe,
     sw_kill = \<lparr>kw_term = (\<lambda>p. KOk), kw_start = 0, kw_polls = [(1, \<lambda>p. KOk), (6, \<lambda>p. KOk)], kw_kill = (\<lambda>p. KOk)\<rparr>,
     sw_shm_probe = demo_probe, sw_shm_listable = True, sw_unlink_ok = (\<lambda>nm. True), sw_dir_probe = demo_probe, sw_dir_listable = True\<rparr>"

definition demo_machine :: "string list \<Rightarrow> nat machine" where
  "demo_machine names = \<lparr>mc_shm = map (\<lambda>nm. (nm, undefined)) names,
     mc_runs = [(''99_0000beef'', Some [(''streams'', [])]), (''7_0000cafe'', Some [(''streams'', [])])]\<rparr>"

definition demo_names_swept :: "string list" where
  "demo_names_swept = [''dfc_99_0000beef_left_q'', ''dfc_7_0000cafe_left_q'', ''other'']"

lemma demo_swept:
  "map_option (\<lambda>(sent, mc'). (sent, dkeys (mc_shm mc'), dkeys (mc_runs mc'))) (orphan_sweep [] False demo_sweep (demo_machine demo_names_swept))
   = Some ([(40, SIGTERM), (40, SIGKILL)], [''dfc_7_0000cafe_left_q'', ''other''], [''7_0000cafe''])"
  by code_simp

lemma demo_swept_run:
  "\<exists>mc'. orphan_sweep [] False demo_sweep (demo_machine demo_names_swept) = Some ([(40, SIGTERM), (40, SIGKILL)], mc')
     \<and> dkeys (mc_runs mc') = [''7_0000cafe'']"
  using demo_swept by (auto split: prod.splits)

theorem sweep_signals_orphans_witness:
  "\<exists>es pf rec. sw_proc demo_sweep = Inr es \<and> listed_as es 40 pf rec \<and> provable_orphan 5 demo_probe False rec"
proof -
  obtain mc' where run: "orphan_sweep [] False demo_sweep (demo_machine demo_names_swept) = Some ([(40, SIGTERM), (40, SIGKILL)], mc')"
    using demo_swept_run by blast
  have w: "sw_self demo_sweep = 5" "sw_find demo_sweep = demo_probe" by (simp_all add: demo_sweep_def)
  show ?thesis using sweep_signals_orphans[OF run, of 40 SIGKILL] by (simp add: w)
qed

theorem live_supervisor_untouched_witness:
  "\<exists>sent mc'. orphan_sweep [] False demo_sweep (demo_machine demo_names_swept) = Some (sent, mc') \<and> (40, SIGKILL) \<in> set sent
     \<and> dget (mc_runs mc') (make_run_id 7 ''0000cafe'') = dget (mc_runs (demo_machine demo_names_swept)) (make_run_id 7 ''0000cafe'')
     \<and> (\<exists>es pf rec. sw_proc demo_sweep = Inr es \<and> listed_as es 40 pf rec \<and> env_tag (pf_environ pf) \<noteq> Some (nat_str 7))"
proof -
  obtain mc' where run: "orphan_sweep [] False demo_sweep (demo_machine demo_names_swept) = Some ([(40, SIGTERM), (40, SIGKILL)], mc')"
    using demo_swept_run by blast
  have w: "sw_find demo_sweep (int 7) \<noteq> KGone" "sw_shm_probe demo_sweep (int 7) \<noteq> KGone" "sw_dir_probe demo_sweep (int 7) \<noteq> KGone"
    by (simp_all add: demo_sweep_def demo_probe_def)
  have h: "(0::nat) < 7" "int 7 \<le> PID_MAX" "8 \<le> length ''0000cafe''" "list_all hex_char (take 8 ''0000cafe'')" by code_simp+
  note l = live_supervisor_untouched[OF run h(1,2) w h(3,4)]
  then show ?thesis using run by auto
qed

theorem orphans_reaped_witness:
  "\<exists>sent mc'. orphan_sweep [] False demo_sweep (demo_machine demo_names_swept) = Some (sent, mc') \<and> (40, SIGTERM) \<in> set sent"
proof -
  define os where "os = [(\<lparr>pr_pid = 40, pr_tag = Some ''99'', pr_cmdline = [''python''], pr_creators = []\<rparr>, Tagged)]"
  obtain es where es: "sw_proc demo_sweep = Inr es" by (simp add: demo_sweep_def)
  have "rbind (sw_proc demo_sweep) (find_orphans (sw_self demo_sweep) (sw_find demo_sweep) False)
     = Inr [(\<lparr>pr_pid = 40, pr_tag = Some ''99'', pr_cmdline = [''python''], pr_creators = []\<rparr>, Tagged)]" by code_simp
  then have found: "find_orphans (sw_self demo_sweep) (sw_find demo_sweep) False es = Inr os" using es by (simp add: os_def)
  have k: "\<forall>(r, w) \<in> set os. pr_pid r \<le> PID_MAX" "kw_term (sw_kill demo_sweep) 40 = KOk"
      "\<exists>(now, kill0) \<in> set (kw_polls (sw_kill demo_sweep)). kw_start (sw_kill demo_sweep) + TERM_GRACE \<le> now"
    by (simp_all add: os_def PID_MAX_def demo_sweep_def TERM_GRACE_def)
  show ?thesis using orphans_reaped[OF es found k(1,3), of "[]" "demo_machine demo_names_swept"] k(2) by (auto simp: os_def)
qed

theorem impossible_pid_stops_sweep_witness:
  "\<exists>sent mc'. orphan_sweep [] False demo_sweep (demo_machine [''dfc_99999999999_0000beef_x'', ''dfc_99_0000beef_left_q'']) = Some (sent, mc')
     \<and> mc_runs mc' = mc_runs (demo_machine [''dfc_99999999999_0000beef_x'', ''dfc_99_0000beef_left_q''])"
proof -
  let ?mc = "demo_machine [''dfc_99999999999_0000beef_x'', ''dfc_99_0000beef_left_q'']"
  have "map_option (\<lambda>r. True) (orphan_sweep [] False demo_sweep ?mc) = Some True" by code_simp
  then obtain sent mc' where run: "orphan_sweep [] False demo_sweep ?mc = Some (sent, mc')" by auto
  have h: "''dfc_99999999999_0000beef_x'' \<in> set (dkeys (mc_shm ?mc))" "SHM_RE ''dfc_99999999999_0000beef_x'' = Some (''99999999999'', ''0000beef'')"
      "''99999999999'' @ ''_'' @ ''0000beef'' \<notin> set []" "int_of_text ''99999999999'' = Inr 99999999999" "PID_MAX < 99999999999" by code_simp+
  have "sw_shm_listable demo_sweep" by (simp add: demo_sweep_def)
  then show ?thesis using impossible_pid_stops_sweep[OF h, of demo_sweep False] run by blast
qed

end
