(* ===== verification/Session_Client.thy ===== *)
theory Session_Client
  imports Session_Machine
begin

text \<open>
  The dashboard's side of the session daemon: the manager that spawns, restarts and stops it and reads its published state
  (\<^verbatim>\<open>dashboard/session.py\<close>), and the facade that launches runs and reports their outcomes (\<open>RunRegistry\<close> in \<^verbatim>\<open>dashboard/runner.py\<close>). Shown: attempts to
  bring up a crashing daemon are spaced and end, what a restart may interrupt, when a launch reaches the daemon, and which
  outcomes are reported.

  The state file is given as the document the daemon writes, or \<open>None\<close> when it is absent or torn. Clocks, \<open>poll\<close> results and the outcome of
  spawning are arguments.
\<close>

section \<open>The published state\<close>

definition HEARTBEAT_STALE_S :: real where "HEARTBEAT_STALE_S = 6"
definition SHUTDOWN_GRACE_S :: real where "SHUTDOWN_GRACE_S = 15"
definition RESPAWN_BACKOFF_S :: real where "RESPAWN_BACKOFF_S = 10"
definition EARLY_DEATH_S :: real where "EARLY_DEATH_S = 30"
definition MAX_EARLY_DEATHS :: nat where "MAX_EARLY_DEATHS = 3"

definition RUN_STATES :: "string list" where
  "RUN_STATES = [''collection'', ''eval'', ''skill'', ''saving'']"

text \<open>The document in the state file: what \<open>Session.session_state\<close> carries, with the daemon's identity and the time of writing.\<close>

record session_doc =
  sd_pid :: nat
  sd_run_id :: string
  sd_rig :: string
  sd_sim :: bool
  sd_heartbeat_ts :: real
  sd_state :: session_state

definition state_write :: "nat \<Rightarrow> string \<Rightarrow> real \<Rightarrow> daemon \<Rightarrow> session_doc" where
  "state_write pid rig now d = \<lparr>sd_pid = pid, sd_run_id = sc_run_id (dm_cfg d), sd_rig = rig, sd_sim = sc_sim (dm_cfg d), sd_heartbeat_ts = now,
     sd_state = dm_state d\<rparr>"

datatype message = Published smsg | NoMessage | GaveUp nat "int option" | ExitedWith int

record session_view =
  vw_state :: string
  vw_rig :: "string option"
  vw_sim :: "bool option"
  vw_run_id :: "string option"
  vw_task :: cval
  vw_phase :: "string option"
  vw_run_seq :: nat
  vw_run_started :: "real option"
  vw_message :: message
  vw_last_outcome :: "last_outcome option"
  vw_cameras_down :: "string list"
  vw_arms_down :: "string list"

definition run_active :: "session_view \<Rightarrow> bool" where
  "run_active v \<longleftrightarrow> vw_state v \<in> set RUN_STATES"

section \<open>The manager\<close>

text \<open>\<open>mg_spawns\<close> counts the daemons ever started and \<open>mg_calls\<close> records what was done to daemon processes.\<close>

datatype dcall = SpawnD nat | ShutdownCmd nat | CloseStdin nat | TerminateD nat | KillD nat | CommandD nat cmd

record manager =
  mg_proc :: "nat option"
  mg_rig :: "string option"
  mg_sim :: "bool option"
  mg_spawned_at :: real
  mg_early_deaths :: nat
  mg_last_exit :: "int option"
  mg_gave_up :: bool
  mg_spawns :: nat
  mg_calls :: "dcall list"

definition mk_manager :: manager where
  "mk_manager = \<lparr>mg_proc = None, mg_rig = None, mg_sim = None, mg_spawned_at = 0, mg_early_deaths = 0, mg_last_exit = None, mg_gave_up = False,
     mg_spawns = 0, mg_calls = []\<rparr>"

type_synonym polls = "nat \<Rightarrow> int option"

definition mg_alive :: "polls \<Rightarrow> manager \<Rightarrow> bool" where
  "mg_alive poll m = (case mg_proc m of None \<Rightarrow> False | Some p \<Rightarrow> poll p = None)"

definition blank_view :: session_view where
  "blank_view = \<lparr>vw_state = [], vw_rig = None, vw_sim = None, vw_run_id = None, vw_task = CNull, vw_phase = None, vw_run_seq = 0,
     vw_run_started = None, vw_message = NoMessage, vw_last_outcome = None, vw_cameras_down = [], vw_arms_down = []\<rparr>"

definition doc_view :: "real \<Rightarrow> session_doc \<Rightarrow> session_view" where
  "doc_view now d =
     (let st = sd_state d in
      \<lparr>vw_state = (if now - sd_heartbeat_ts d < HEARTBEAT_STALE_S then st_mode st else ''starting''), vw_rig = Some (sd_rig d),
       vw_sim = Some (sd_sim d), vw_run_id = Some (sd_run_id d), vw_task = st_task st, vw_phase = st_phase st, vw_run_seq = st_seq st,
       vw_run_started = st_started st, vw_message = Published (st_message st), vw_last_outcome = st_outcome st,
       vw_cameras_down = st_cameras_down st, vw_arms_down = st_arms_down st\<rparr>)"

definition local_view :: "polls \<Rightarrow> manager \<Rightarrow> session_view" where
  "local_view poll m =
     (if mg_alive poll m then blank_view\<lparr>vw_state := ''starting'', vw_rig := mg_rig m, vw_sim := mg_sim m\<rparr>
      else blank_view\<lparr>vw_state := ''down'', vw_message := (if mg_gave_up m then GaveUp (mg_early_deaths m) (mg_last_exit m)
             else case mg_last_exit m of None \<Rightarrow> NoMessage | Some c \<Rightarrow> ExitedWith c)\<rparr>)"

definition view :: "polls \<Rightarrow> session_doc option \<Rightarrow> real \<Rightarrow> manager \<Rightarrow> session_view" where
  "view poll doc now m =
     (case doc of
        Some d \<Rightarrow> if mg_alive poll m \<and> Some (sd_pid d) = mg_proc m then doc_view now d else local_view poll m
      | None \<Rightarrow> local_view poll m)"

definition harvest_exit :: "polls \<Rightarrow> real \<Rightarrow> manager \<Rightarrow> manager" where
  "harvest_exit poll now m =
     (case mg_proc m of
        None \<Rightarrow> m
      | Some p \<Rightarrow>
          let deaths = (if now - mg_spawned_at m < EARLY_DEATH_S then mg_early_deaths m + 1 else 1) in
          m\<lparr>mg_proc := None, mg_last_exit := poll p, mg_early_deaths := deaths,
            mg_gave_up := (if deaths \<ge> MAX_EARLY_DEATHS then True else mg_gave_up m)\<rparr>)"

definition rearm :: "manager \<Rightarrow> manager" where
  "rearm m = m\<lparr>mg_early_deaths := 0, mg_last_exit := None, mg_gave_up := False\<rparr>"

text \<open>A log file or a process that cannot be created raises; nothing but the log's path has changed then.\<close>

datatype spawn_outcome = Spawned nat real | SpawnFails py_error

definition spawn_daemon :: "string option \<Rightarrow> bool \<Rightarrow> spawn_outcome \<Rightarrow> manager \<Rightarrow> unit res \<times> manager" where
  "spawn_daemon rig sim oc m =
     (case oc of
        SpawnFails e \<Rightarrow> (Inl e, m)
      | Spawned p now \<Rightarrow>
          (Inr (), m\<lparr>mg_proc := Some p, mg_rig := rig, mg_sim := Some sim, mg_spawned_at := now, mg_spawns := mg_spawns m + 1,
                     mg_calls := mg_calls m @ [SpawnD p]\<rparr>))"

text \<open>What stopping meets: whether the daemon is already gone, exits within the grace, exits after \<open>SIGTERM\<close>.\<close>

record stop_obs =
  so_gone :: bool
  so_exits :: bool
  so_terminated :: bool

definition shutdown_locked :: "stop_obs \<Rightarrow> manager \<Rightarrow> manager" where
  "shutdown_locked ob m =
     (case mg_proc m of
        None \<Rightarrow> m
      | Some p \<Rightarrow>
          m\<lparr>mg_proc := None, mg_calls := mg_calls m @
             (if so_gone ob then [] else [ShutdownCmd p, CloseStdin p]
                @ (if so_exits ob then [] else [TerminateD p] @ (if so_terminated ob then [] else [KillD p])))\<rparr>)"

definition shutdown_manager :: "stop_obs \<Rightarrow> manager \<Rightarrow> manager" where
  "shutdown_manager ob m = rearm (shutdown_locked ob m)"

record ensure_world =
  ew_poll :: polls
  ew_doc :: "session_doc option"
  ew_wall :: real
  ew_harvest :: real
  ew_now :: real
  ew_stop :: stop_obs
  ew_spawn :: spawn_outcome

definition finish_ensure :: "string option \<Rightarrow> bool \<Rightarrow> ensure_world \<Rightarrow> manager \<Rightarrow> bool res \<times> manager" where
  "finish_ensure rig sim ew m =
     (case spawn_daemon rig sim (ew_spawn ew) m of (Inl e, m1) \<Rightarrow> (Inl e, m1) | (Inr u, m1) \<Rightarrow> (Inr True, m1))"

definition ensure :: "string option \<Rightarrow> bool \<Rightarrow> ensure_world \<Rightarrow> manager \<Rightarrow> bool res \<times> manager" where
  "ensure rig sim ew m =
     (if mg_alive (ew_poll ew) m then
        if (rig, Some sim) = (mg_rig m, mg_sim m) then (Inr False, m)
        else if run_active (view (ew_poll ew) (ew_doc ew) (ew_wall ew) m) then (Inr False, m)
        else finish_ensure rig sim ew (rearm (shutdown_locked (ew_stop ew) m))
      else
        let m1 = harvest_exit (ew_poll ew) (ew_harvest ew) m in
        if (rig, Some sim) \<noteq> (mg_rig m1, mg_sim m1) then finish_ensure rig sim ew (rearm m1)
        else if mg_gave_up m1 then (Inr False, m1)
        else if ew_now ew - mg_spawned_at m1 < RESPAWN_BACKOFF_S then (Inr False, m1)
        else finish_ensure rig sim ew m1)"

text \<open>A command line to the daemon; \<open>written\<close> is whether the pipe takes it.\<close>

definition send :: "polls \<Rightarrow> bool \<Rightarrow> cmd \<Rightarrow> manager \<Rightarrow> bool \<times> manager" where
  "send poll written c m =
     (case mg_proc m of
        None \<Rightarrow> (False, m)
      | Some p \<Rightarrow> if poll p \<noteq> None then (False, m)
                  else if written then (True, m\<lparr>mg_calls := mg_calls m @ [CommandD p c]\<rparr>) else (False, m))"

section \<open>The run facade\<close>

definition opt_field :: "string \<Rightarrow> cval option \<Rightarrow> cmd" where
  "opt_field k v = (case v of None \<Rightarrow> [] | Some x \<Rightarrow> [(k, x)])"

definition run_cmd :: "string \<Rightarrow> string \<Rightarrow> string \<Rightarrow> string option \<Rightarrow> string option \<Rightarrow> int option \<Rightarrow> string option \<Rightarrow> cmd" where
  "run_cmd kind phase task policy host port skill =
     [(''cmd'', CStr kind), (''phase'', CStr phase), (''task'', CStr task)]
     @ opt_field ''policy'' (map_option CStr policy) @ opt_field ''host'' (map_option CStr host)
     @ opt_field ''port'' (map_option CInt port) @ opt_field ''skill'' (map_option CStr skill)"

definition OK_OUTCOMES :: "outcome list" where
  "OK_OUTCOMES = [Saved, Finished, StoppedOk]"

definition check_launchable :: "session_view \<Rightarrow> string \<Rightarrow> bool \<Rightarrow> unit res" where
  "check_launchable v rig switching =
     (if run_active v \<and> \<not> switching then Inl RuntimeError
      else if vw_state v = ''down'' then Inl RuntimeError
      else if vw_state v = ''starting'' then Inl RuntimeError
      else case vw_rig v of
        None \<Rightarrow> Inr ()
      | Some r \<Rightarrow> if r \<noteq> [] \<and> rig \<noteq> [] \<and> r \<noteq> rig then Inl RuntimeError else Inr ())"

text \<open>What a launch meets: the view, then the state of the pipe when the command is sent.\<close>

record launch_world =
  lw_poll :: polls
  lw_doc :: "session_doc option"
  lw_wall :: real
  lw_send_poll :: polls
  lw_written :: bool

definition request_run :: "string \<Rightarrow> bool \<Rightarrow> cmd \<Rightarrow> launch_world \<Rightarrow> manager \<Rightarrow> unit res \<times> manager" where
  "request_run rig switching c lw m =
     (case check_launchable (view (lw_poll lw) (lw_doc lw) (lw_wall lw) m) rig switching of
        Inl e \<Rightarrow> (Inl e, m)
      | Inr u \<Rightarrow>
          (case send (lw_send_poll lw) (lw_written lw) c m of
             (False, m1) \<Rightarrow> (Inl RuntimeError, m1)
           | (True, m1) \<Rightarrow> (Inr (), m1)))"

definition launch :: "string \<Rightarrow> string \<Rightarrow> string \<Rightarrow> string option \<Rightarrow> string option \<Rightarrow> int option \<Rightarrow> bool \<Rightarrow> launch_world
    \<Rightarrow> manager \<Rightarrow> unit res \<times> manager" where
  "launch task phase rig policy host port switch lw m =
     (if phase \<notin> set PHASES then (Inl ValueError, m)
      else request_run rig switch (run_cmd (if switch then ''switch'' else ''start'') phase task policy host port None) lw m)"

definition launch_skill :: "string \<Rightarrow> string \<Rightarrow> launch_world \<Rightarrow> manager \<Rightarrow> unit res \<times> manager" where
  "launch_skill skill rig lw m = request_run rig False (run_cmd ''start'' ''skill'' ''default'' None None None (Some skill)) lw m"

record run_registry =
  rr_seen_seq :: nat
  rr_history :: "last_outcome list"

definition mk_registry :: run_registry where
  "mk_registry = \<lparr>rr_seen_seq = 0, rr_history = []\<rparr>"

record alert =
  al_ok :: bool
  al_outcome :: last_outcome

definition take_alert :: "session_view \<Rightarrow> run_registry \<Rightarrow> alert option \<times> run_registry" where
  "take_alert v rr =
     (case vw_last_outcome v of
        None \<Rightarrow> (None, rr)
      | Some oc \<Rightarrow>
          if lo_seq oc \<le> rr_seen_seq rr then (None, rr)
          else (Some \<lparr>al_ok = (lo_outcome oc \<in> set OK_OUTCOMES), al_outcome = oc\<rparr>,
                rr\<lparr>rr_seen_seq := lo_seq oc, rr_history := rr_history rr @ [oc]\<rparr>))"

definition reset_registry :: "session_view \<Rightarrow> polls \<Rightarrow> bool \<Rightarrow> run_registry \<times> manager \<Rightarrow> run_registry \<times> manager" where
  "reset_registry v poll written p =
     (case p of (rr, m) \<Rightarrow>
      (rr\<lparr>rr_history := []\<rparr>, if run_active v then snd (send poll written [(''cmd'', CStr ''stop'')] m) else m))"

section \<open>What a restart interrupts\<close>

lemma not_run_state [simp]: "''starting'' \<notin> set RUN_STATES" "''down'' \<notin> set RUN_STATES" "VIEWING \<notin> set RUN_STATES"
  by (simp_all add: RUN_STATES_def VIEWING_def)

lemma run_state_iff:
  assumes "session_reach d"
  shows "st_mode (dm_state d) \<in> set RUN_STATES \<longleftrightarrow> dm_run d \<noteq> None"
proof (cases "dm_run d")
  case None
  then show ?thesis using session_reach_mode[OF assms] by (simp add: mode_inv_def)
next
  case (Some r)
  then have "ar_phase r \<in> set PHASES" "st_mode (dm_state d) = (if ar_stopping r then SAVING else ar_phase r)"
    using session_reach_mode[OF assms] by (auto simp: mode_inv_def)
  then show ?thesis using Some by (auto simp: RUN_STATES_def PHASES_def SAVING_def COLLECTION_def EVAL_def SKILL_def)
qed

text \<open>The daemon the manager holds is alive and \<open>d\<close> is what it last wrote, at time \<open>hb\<close>.\<close>

definition holds_daemon :: "polls \<Rightarrow> session_doc option \<Rightarrow> string \<Rightarrow> real \<Rightarrow> daemon \<Rightarrow> manager \<Rightarrow> bool" where
  "holds_daemon poll doc rig hb d m \<longleftrightarrow> session_reach d \<and> (\<exists>p. mg_proc m = Some p \<and> poll p = None \<and> doc = Some (state_write p rig hb d))"

lemma view_of_daemon:
  assumes "holds_daemon poll doc rig hb d m"
  shows "vw_state (view poll doc now m) = (if now - hb < HEARTBEAT_STALE_S then st_mode (dm_state d) else ''starting'')"
    and "vw_rig (view poll doc now m) = Some rig"
  using assms by (auto simp: holds_daemon_def view_def mg_alive_def doc_view_def state_write_def Let_def)

lemma run_active_daemon:
  assumes "holds_daemon poll doc rig hb d m"
  shows "run_active (view poll doc now m) \<longleftrightarrow> now - hb < HEARTBEAT_STALE_S \<and> dm_run d \<noteq> None"
  using view_of_daemon(1)[OF assms] run_state_iff[of d] assms by (auto simp: run_active_def holds_daemon_def)

text \<open>
  C22. A restart spares a run, as long as the daemon is heard from. When the daemon that is up last wrote its state less than six seconds ago
  and had a run then, asking for another rig or another simulation mode changes nothing: no daemon process is touched. In every other case
  the request stops the daemon that is up, also when it has a run: a heartbeat that is only six seconds late makes the view say
  \<open>starting\<close>, and the run in flight is stopped.
\<close>

theorem restart_spares_runs:
  assumes d: "holds_daemon (ew_poll ew) (ew_doc ew) rig0 hb d m" "mg_proc m = Some p"
    and other: "(rig, Some sim) \<noteq> (mg_rig m, mg_sim m)"
  shows "(dm_run d \<noteq> None \<and> ew_wall ew - hb < HEARTBEAT_STALE_S \<longrightarrow> ensure rig sim ew m = (Inr False, m))
    \<and> (\<not> (dm_run d \<noteq> None \<and> ew_wall ew - hb < HEARTBEAT_STALE_S) \<and> \<not> so_gone (ew_stop ew)
         \<longrightarrow> ShutdownCmd p \<in> set (mg_calls (snd (ensure rig sim ew m))) \<and> CloseStdin p \<in> set (mg_calls (snd (ensure rig sim ew m))))"
proof -
  have alive: "mg_alive (ew_poll ew) m" using d by (auto simp: holds_daemon_def mg_alive_def)
  note ra = run_active_daemon[OF d(1), of "ew_wall ew"]
  have "set (mg_calls m1) \<subseteq> set (mg_calls (snd (finish_ensure rig sim ew m1)))" for m1
    by (auto simp: finish_ensure_def spawn_daemon_def split: spawn_outcome.splits)
  moreover have "\<not> so_gone (ew_stop ew) \<Longrightarrow> {ShutdownCmd p, CloseStdin p} \<subseteq> set (mg_calls (rearm (shutdown_locked (ew_stop ew) m)))"
    using d(2) by (simp add: rearm_def shutdown_locked_def)
  ultimately have stop: "\<not> so_gone (ew_stop ew) \<Longrightarrow>
      {ShutdownCmd p, CloseStdin p} \<subseteq> set (mg_calls (snd (finish_ensure rig sim ew (rearm (shutdown_locked (ew_stop ew) m)))))"
    by (meson subset_trans)
  show ?thesis using alive other ra stop by (auto simp: ensure_def simp del: prod.inject)
qed

text \<open>
  A launch reaches an idle session only. If a launch (no switch) is accepted while the daemon \<open>d\<close> is what was last written, the state
  was written less than six seconds before, no run was active in it, the session's rig is the selected one, and exactly the start command has been
  handed to this daemon and to no other.
\<close>

theorem launch_reaches_idle_session:
  assumes d: "holds_daemon (lw_poll lw) (lw_doc lw) rig0 hb d m" "mg_proc m = Some p"
    and l: "launch task phase rig policy host port False lw m = (Inr (), m')"
  shows "lw_wall lw - hb < HEARTBEAT_STALE_S \<and> dm_run d = None \<and> phase \<in> set PHASES \<and> (rig0 = rig \<or> rig0 = [] \<or> rig = [])
    \<and> m' = m\<lparr>mg_calls := mg_calls m @ [CommandD p (run_cmd ''start'' phase task policy host port None)]\<rparr>"
proof -
  let ?v = "view (lw_poll lw) (lw_doc lw) (lw_wall lw) m"
  have ph: "phase \<in> set PHASES" and c: "check_launchable ?v rig False = Inr ()"
    and m': "m' = m\<lparr>mg_calls := mg_calls m @ [CommandD p (run_cmd ''start'' phase task policy host port None)]\<rparr>"
    using l d(2) by (auto simp: launch_def request_run_def send_def split: if_splits sum.splits)
  have v: "\<not> run_active ?v" "vw_state ?v \<noteq> ''starting''" "rig0 = rig \<or> rig0 = [] \<or> rig = []"
    using c view_of_daemon(2)[OF d(1), of "lw_wall lw"] by (auto simp: check_launchable_def split: if_splits)
  have "lw_wall lw - hb < HEARTBEAT_STALE_S" using v(2) view_of_daemon(1)[OF d(1), of "lw_wall lw"] by (auto split: if_splits)
  then show ?thesis using ph m' v run_active_daemon[OF d(1), of "lw_wall lw"] by blast
qed

section \<open>Crash loops\<close>

lemma finish_ensure_cases:
  "finish_ensure rig sim ew m = (case ew_spawn ew of SpawnFails e \<Rightarrow> (Inl e, m)
     | Spawned p now \<Rightarrow> (Inr True, m\<lparr>mg_proc := Some p, mg_rig := rig, mg_sim := Some sim, mg_spawned_at := now, mg_spawns := mg_spawns m + 1,
         mg_calls := mg_calls m @ [SpawnD p]\<rparr>))"
  by (simp add: finish_ensure_def spawn_daemon_def split: spawn_outcome.splits)

definition on_target :: "string option \<Rightarrow> bool \<Rightarrow> manager \<Rightarrow> bool" where
  "on_target rig sim m \<longleftrightarrow> mg_rig m = rig \<and> mg_sim m = Some sim"

text \<open>A request for the target the manager is on: nothing to do, a dead daemon noted, or a new one.\<close>

lemma ensure_same_target:
  assumes "on_target rig sim m" "ensure rig sim ew m = (r, m')"
  obtains "mg_alive (ew_poll ew) m" "m' = m"
  | "\<not> mg_alive (ew_poll ew) m" "m' = harvest_exit (ew_poll ew) (ew_harvest ew) m"
  | p t where "\<not> mg_alive (ew_poll ew) m" "\<not> mg_gave_up (harvest_exit (ew_poll ew) (ew_harvest ew) m)"
      "RESPAWN_BACKOFF_S \<le> ew_now ew - mg_spawned_at m" "ew_spawn ew = Spawned p t"
      "m' = (harvest_exit (ew_poll ew) (ew_harvest ew) m)\<lparr>mg_proc := Some p, mg_rig := rig, mg_sim := Some sim, mg_spawned_at := t,
         mg_spawns := mg_spawns m + 1, mg_calls := mg_calls m @ [SpawnD p]\<rparr>"
proof -
  let ?h = "harvest_exit (ew_poll ew) (ew_harvest ew) m"
  have h: "mg_rig ?h = rig" "mg_sim ?h = Some sim" "mg_spawned_at ?h = mg_spawned_at m" "mg_spawns ?h = mg_spawns m" "mg_calls ?h = mg_calls m"
    using assms(1) by (auto simp: harvest_exit_def on_target_def Let_def split: option.splits)
  show ?thesis
  proof (cases "mg_alive (ew_poll ew) m")
    case True
    have t: "mg_rig m = rig" "mg_sim m = Some sim" using assms(1) by (simp_all add: on_target_def)
    have "ensure rig sim ew m = (Inr False, m)" unfolding ensure_def by (simp add: True t)
    then have "m' = m" using assms(2) by simp
    then show ?thesis by (rule that(1)[OF True])
  next
    case False
    show ?thesis
    proof (cases "mg_gave_up ?h \<or> ew_now ew - mg_spawned_at m < RESPAWN_BACKOFF_S")
      case True
      have "ensure rig sim ew m = (Inr False, ?h)" unfolding ensure_def using True by (auto simp: False h Let_def)
      then have "m' = ?h" using assms(2) by simp
      then show ?thesis by (rule that(2)[OF False])
    next
      case go: False
      have "ensure rig sim ew m = finish_ensure rig sim ew ?h" unfolding ensure_def using go by (simp add: False h Let_def)
      then have f: "finish_ensure rig sim ew ?h = (r, m')" using assms(2) by simp
      show ?thesis
      proof (cases "ew_spawn ew")
        case (Spawned p t)
        have g: "\<not> mg_gave_up ?h" "RESPAWN_BACKOFF_S \<le> ew_now ew - mg_spawned_at m" using go by auto
        have "m' = ?h\<lparr>mg_proc := Some p, mg_rig := rig, mg_sim := Some sim, mg_spawned_at := t,
            mg_spawns := mg_spawns m + 1, mg_calls := mg_calls m @ [SpawnD p]\<rparr>" using f Spawned h by (simp add: finish_ensure_cases)
        then show ?thesis by (rule that(3)[OF False g Spawned])
      next
        case (SpawnFails e)
        then have "m' = ?h" using f by (simp add: finish_ensure_cases)
        then show ?thesis by (rule that(2)[OF False])
      qed
    qed
  qed
qed

text \<open>Daemons of one target are started at least ten seconds apart.\<close>

definition ensure_beat :: "string option \<Rightarrow> bool \<Rightarrow> real \<Rightarrow> manager \<Rightarrow> manager \<Rightarrow> bool" where
  "ensure_beat rig sim now m m' \<longleftrightarrow> (\<exists>ew r. ensure rig sim ew m = (r, m') \<and> ew_now ew \<le> now
     \<and> (case ew_spawn ew of Spawned p t \<Rightarrow> t = now | SpawnFails e \<Rightarrow> True))"

interpretation daemon_pace: paced_respawn "ensure_beat rig sim" mg_spawned_at mg_spawns "on_target rig sim" RESPAWN_BACKOFF_S for rig sim
proof
  show "0 \<le> RESPAWN_BACKOFF_S" by (simp add: RESPAWN_BACKOFF_S_def)
next
  fix u now u'
  assume u: "on_target rig sim u" "mg_spawned_at u \<le> now" "ensure_beat rig sim now u u'"
  obtain ew r where ew: "ensure rig sim ew u = (r, u')" "ew_now ew \<le> now" "case ew_spawn ew of Spawned p t \<Rightarrow> t = now | SpawnFails e \<Rightarrow> True"
    using u(3) by (auto simp: ensure_beat_def)
  show "on_target rig sim u' \<and> (mg_spawns u' = mg_spawns u \<and> mg_spawned_at u' = mg_spawned_at u
      \<or> mg_spawned_at u' = now \<and> mg_spawned_at u + RESPAWN_BACKOFF_S \<le> now)"
  proof (cases rule: ensure_same_target[OF u(1) ew(1)])
    case 2
    then show ?thesis using u(1) by (cases "mg_proc u") (simp_all add: harvest_exit_def on_target_def Let_def)
  next
    case (3 p t)
    then show ?thesis using ew(2,3) by (simp add: on_target_def)
  qed (use u(1) in simp)
qed

text \<open>Requests for one target, each of which finds a dead daemon within thirty seconds of its start if it finds one dead.\<close>

inductive crash_loop :: "string option \<Rightarrow> bool \<Rightarrow> manager \<Rightarrow> manager \<Rightarrow> bool" for rig sim m0 where
  first: "crash_loop rig sim m0 m0"
| again: "crash_loop rig sim m0 m \<Longrightarrow> ensure rig sim ew m = (r, m') \<Longrightarrow> ew_harvest ew - mg_spawned_at m < EARLY_DEATH_S
    \<Longrightarrow> crash_loop rig sim m0 m'"

definition loop_inv :: "string option \<Rightarrow> bool \<Rightarrow> nat \<Rightarrow> manager \<Rightarrow> bool" where
  "loop_inv rig sim n m \<longleftrightarrow> on_target rig sim m \<and> (mg_gave_up m \<longleftrightarrow> mg_early_deaths m = MAX_EARLY_DEATHS) \<and> mg_early_deaths m \<le> MAX_EARLY_DEATHS
     \<and> (if mg_proc m = None then mg_spawns m + 1 = n + mg_early_deaths m
        else mg_spawns m = n + mg_early_deaths m \<and> mg_early_deaths m < MAX_EARLY_DEATHS)"

lemma loop_inv_step:
  assumes inv: "loop_inv rig sim n m" and e: "ensure rig sim ew m = (r, m')" and early: "ew_harvest ew - mg_spawned_at m < EARLY_DEATH_S"
  shows "loop_inv rig sim n m'"
proof -
  have on: "on_target rig sim m" using inv by (simp add: loop_inv_def)
  let ?h = "harvest_exit (ew_poll ew) (ew_harvest ew) m"
  have h: "loop_inv rig sim n ?h \<and> mg_proc ?h = None" if "\<not> mg_alive (ew_poll ew) m"
    using inv early that by (cases "mg_proc m") (auto simp: loop_inv_def harvest_exit_def on_target_def MAX_EARLY_DEATHS_def)
  show ?thesis using on e
  proof (cases rule: ensure_same_target)
    case (3 p t)
    then show ?thesis using h by (auto simp: loop_inv_def on_target_def harvest_exit_def Let_def split: option.splits)
  qed (use inv h in auto)
qed

text \<open>
  A daemon that keeps crashing at start-up is tried three times. Starting from a daemon that was brought up deliberately (no earlier
  death counted), however often the dashboard asks for the same rig and mode, and as long as every death is found within thirty seconds of the start, at
  most two more daemons are started; once the manager has given up, a further request starts none, until the target changes
  or the services are reset.
\<close>

theorem crash_loop_stops:
  assumes loop: "crash_loop rig sim m0 m" and fresh: "on_target rig sim m0" "mg_proc m0 \<noteq> None" "mg_early_deaths m0 = 0" "\<not> mg_gave_up m0"
  shows "mg_spawns m \<le> mg_spawns m0 + 2
    \<and> (mg_gave_up m \<longrightarrow> (\<forall>ew r m'. ensure rig sim ew m = (r, m') \<longrightarrow> mg_spawns m' = mg_spawns m \<and> r = Inr False))"
proof -
  have inv: "loop_inv rig sim (mg_spawns m0) m" using loop
  proof (induction rule: crash_loop.induct)
    case first
    then show ?case using fresh by (simp add: loop_inv_def MAX_EARLY_DEATHS_def)
  next
    case (again m ew r m')
    then show ?case using loop_inv_step by blast
  qed
  have "mg_spawns m' = mg_spawns m \<and> r = Inr False" if up: "mg_gave_up m" and e: "ensure rig sim ew m = (r, m')" for ew r m'
  proof -
    have "mg_proc m = None" "on_target rig sim m" using inv up by (auto simp: loop_inv_def split: if_splits)
    then show ?thesis using e up by (simp add: ensure_def mg_alive_def harvest_exit_def on_target_def)
  qed
  then show ?thesis using inv by (auto simp: loop_inv_def MAX_EARLY_DEATHS_def split: if_splits)
qed

section \<open>Alerts\<close>

fun take_alerts :: "session_view list \<Rightarrow> run_registry \<Rightarrow> alert list \<times> run_registry" where
  "take_alerts [] rr = ([], rr)"
| "take_alerts (v # vs) rr =
     (case take_alert v rr of (a, rr1) \<Rightarrow>
      case take_alerts vs rr1 of (as, rr2) \<Rightarrow> ((case a of None \<Rightarrow> [] | Some x \<Rightarrow> [x]) @ as, rr2))"

lemma take_alert_cases:
  "take_alert v rr = (a, rr1) \<Longrightarrow> (a = None \<and> rr1 = rr) \<or> (\<exists>oc. vw_last_outcome v = Some oc \<and> rr_seen_seq rr < lo_seq oc
     \<and> a = Some \<lparr>al_ok = (lo_outcome oc \<in> set OK_OUTCOMES), al_outcome = oc\<rparr> \<and> rr_seen_seq rr1 = lo_seq oc \<and> rr_history rr1 = rr_history rr @ [oc])"
  by (auto simp: take_alert_def split: option.splits if_splits)

lemma take_alerts_increasing:
  assumes "take_alerts vs rr = (as, rr')"
  shows "sorted_wrt (<) (rr_seen_seq rr # map (lo_seq \<circ> al_outcome) as) \<and> rr_seen_seq rr' = last (rr_seen_seq rr # map (lo_seq \<circ> al_outcome) as)
    \<and> rr_history rr' = rr_history rr @ map al_outcome as"
  using assms
proof (induction vs arbitrary: rr as)
  case (Cons v vs)
  obtain a rr1 where a: "take_alert v rr = (a, rr1)" by (meson surj_pair)
  obtain as1 where as1: "take_alerts vs rr1 = (as1, rr')" "as = (case a of None \<Rightarrow> [] | Some x \<Rightarrow> [x]) @ as1"
    using Cons.prems a by (auto split: prod.splits)
  show ?case using take_alert_cases[OF a] Cons.IH[OF as1(1)] as1(2) by auto
qed simp

text \<open>
  An outcome is reported once, but not after a restart. Over any sequence of views the reported outcomes have strictly increasing
  run numbers, and the history holds exactly the reported outcomes. An outcome whose number is not above the last reported one is never
  reported again, also when it comes from another daemon: a restarted daemon counts its runs from 1, so its first outcomes are dropped
  until it has run as often as the one before.
\<close>

theorem alerts_once_per_registry:
  assumes "take_alerts vs mk_registry = (as, rr)"
  shows "sorted_wrt (<) (map (lo_seq \<circ> al_outcome) as) \<and> rr_history rr = map al_outcome as
    \<and> (\<forall>v oc. vw_last_outcome v = Some oc \<longrightarrow>
         (fst (take_alert v rr) = None \<longleftrightarrow> lo_seq oc = 0 \<or> (\<exists>a \<in> set as. lo_seq oc \<le> lo_seq (al_outcome a))))"
proof -
  let ?s = "map (lo_seq \<circ> al_outcome) as"
  have i: "sorted_wrt (<) (0 # ?s)" "rr_seen_seq rr = last (0 # ?s)" "rr_history rr = map al_outcome as"
    using take_alerts_increasing[OF assms] by (simp_all add: mk_registry_def)
  have top: "\<forall>x \<in> set ?s. x \<le> last (0 # ?s)" using i(1) by (cases ?s rule: rev_cases) (auto simp: sorted_wrt_append)
  have "n \<le> rr_seen_seq rr \<longleftrightarrow> n = 0 \<or> (\<exists>a \<in> set as. n \<le> lo_seq (al_outcome a))" for n
  proof (cases "as = []")
    case False
    then have "last (0 # ?s) \<in> set ?s" using last_in_set[of ?s] by simp
    then show ?thesis using top i(2) by (auto intro: le_trans)
  qed (simp add: i(2))
  then have "fst (take_alert v rr) = None \<longleftrightarrow> lo_seq oc = 0 \<or> (\<exists>a \<in> set as. lo_seq oc \<le> lo_seq (al_outcome a))"
    if "vw_last_outcome v = Some oc" for v oc using that by (simp add: take_alert_def)
  then show ?thesis using i by simp
qed

section \<open>Concrete sessions\<close>

definition demo_manager :: manager where
  "demo_manager = mk_manager\<lparr>mg_proc := Some 77, mg_rig := Some ''bimanual'', mg_sim := Some False, mg_spawned_at := 1, mg_spawns := 1\<rparr>"

definition demo_stop :: stop_obs where
  "demo_stop = \<lparr>so_gone = False, so_exits = True, so_terminated = True\<rparr>"

definition demo_ensure :: "daemon \<Rightarrow> real \<Rightarrow> ensure_world" where
  "demo_ensure d wall = \<lparr>ew_poll = (\<lambda>p. None), ew_doc = Some (state_write 77 ''bimanual'' 100 d), ew_wall = wall, ew_harvest = 50, ew_now = 50,
     ew_stop = demo_stop, ew_spawn = Spawned 78 51\<rparr>"

lemma demo_holds: "session_reach d \<Longrightarrow> holds_daemon (\<lambda>p. None) (Some (state_write 77 ''bimanual'' 100 d)) ''bimanual'' 100 d demo_manager"
  by (simp add: holds_daemon_def demo_manager_def)

lemma demo_running_busy: "dm_run (demo_running EVAL) \<noteq> None"
proof -
  have "map_option (\<lambda>r. ar_phase r) (dm_run (demo_running EVAL)) = Some EVAL" by code_simp
  then show ?thesis by auto
qed

text \<open>With a fresh heartbeat the run goes on; seven seconds after it the same request stops the daemon.\<close>

theorem restart_spares_runs_witness:
  "ensure (Some ''left'') False (demo_ensure (demo_running EVAL) 101) demo_manager = (Inr False, demo_manager)
   \<and> ShutdownCmd 77 \<in> set (mg_calls (snd (ensure (Some ''left'') False (demo_ensure (demo_running EVAL) 107) demo_manager)))"
proof -
  note h = demo_holds[OF demo_running_reach[of EVAL]]
  have w: "holds_daemon (ew_poll (demo_ensure (demo_running EVAL) t)) (ew_doc (demo_ensure (demo_running EVAL) t)) ''bimanual'' 100 (demo_running EVAL) demo_manager" for t
    using h by (simp add: demo_ensure_def)
  have p: "mg_proc demo_manager = Some 77" "(Some ''left'', Some False) \<noteq> (mg_rig demo_manager, mg_sim demo_manager)" by (simp_all add: demo_manager_def)
  have t: "ew_wall (demo_ensure d t) = t" "\<not> so_gone (ew_stop (demo_ensure d t))" for d t by (simp_all add: demo_ensure_def demo_stop_def)
  show ?thesis
    using restart_spares_runs[OF w p, of 101] restart_spares_runs[OF w p, of 107] demo_running_busy by (simp add: t HEARTBEAT_STALE_S_def)
qed

definition demo_launch :: launch_world where
  "demo_launch = \<lparr>lw_poll = (\<lambda>p. None), lw_doc = Some (state_write 77 ''bimanual'' 100 demo_session), lw_wall = 101, lw_send_poll = (\<lambda>p. None), lw_written = True\<rparr>"

theorem launch_reaches_idle_session_witness:
  "\<exists>m'. launch ''pick'' EVAL ''bimanual'' None None None False demo_launch demo_manager = (Inr (), m')
     \<and> mg_calls m' = [CommandD 77 (run_cmd ''start'' EVAL ''pick'' None None None None)] \<and> dm_run demo_session = None"
proof -
  obtain m' where l: "launch ''pick'' EVAL ''bimanual'' None None None False demo_launch demo_manager = (Inr (), m')"
  proof -
    have "fst (launch ''pick'' EVAL ''bimanual'' None None None False demo_launch demo_manager) = Inr ()" by code_simp
    then show ?thesis using that by (metis prod.collapse)
  qed
  have h: "holds_daemon (lw_poll demo_launch) (lw_doc demo_launch) ''bimanual'' 100 demo_session demo_manager"
    using demo_holds[OF demo_session_reach] by (simp add: demo_launch_def)
  have p: "mg_proc demo_manager = Some 77" "mg_calls demo_manager = []" by (simp_all add: demo_manager_def mk_manager_def)
  show ?thesis using launch_reaches_idle_session[OF h p(1) l] l p(2) by simp
qed

text \<open>Three daemons die within seconds of their start; the fourth request starts none.\<close>

definition demo_crash :: "real \<Rightarrow> nat \<Rightarrow> ensure_world" where
  "demo_crash t p = (demo_ensure demo_session 200)\<lparr>ew_poll := (\<lambda>q. Some 1), ew_harvest := t, ew_now := t, ew_spawn := Spawned p t\<rparr>"

definition demo_crashed :: manager where
  "demo_crashed = snd (ensure (Some ''bimanual'') False (demo_crash 36 80)
     (snd (ensure (Some ''bimanual'') False (demo_crash 24 79) (snd (ensure (Some ''bimanual'') False (demo_crash 12 78) demo_manager)))))"

theorem crash_loop_stops_witness:
  "mg_gave_up demo_crashed \<and> mg_spawns demo_crashed \<le> 3
   \<and> mg_spawns (snd (ensure (Some ''bimanual'') False (demo_crash 60 81) demo_crashed)) = mg_spawns demo_crashed"
proof -
  let ?e = "\<lambda>t p m. snd (ensure (Some ''bimanual'') False (demo_crash t p) m)"
  let ?m1 = "?e 12 78 demo_manager" let ?m2 = "?e 24 79 ?m1"
  have early: "12 - mg_spawned_at demo_manager < EARLY_DEATH_S" "24 - mg_spawned_at ?m1 < EARLY_DEATH_S" "36 - mg_spawned_at ?m2 < EARLY_DEATH_S"
    by code_simp+
  have step: "crash_loop (Some ''bimanual'') False demo_manager (?e t p m)"
    if "crash_loop (Some ''bimanual'') False demo_manager m" "t - mg_spawned_at m < EARLY_DEATH_S" for t p m
    using crash_loop.again[OF that(1) prod.collapse[symmetric]] that(2) by (simp add: demo_crash_def)
  have loop: "crash_loop (Some ''bimanual'') False demo_manager demo_crashed"
    unfolding demo_crashed_def by (rule step[OF step[OF step[OF crash_loop.first early(1)] early(2)] early(3)])
  have f: "on_target (Some ''bimanual'') False demo_manager" "mg_proc demo_manager \<noteq> None" "mg_early_deaths demo_manager = 0" "\<not> mg_gave_up demo_manager"
      "mg_spawns demo_manager = 1"
    by (simp_all add: demo_manager_def mk_manager_def on_target_def)
  have g: "mg_gave_up demo_crashed" by code_simp
  note c = crash_loop_stops[OF loop f(1-4)]
  obtain r m' where e: "ensure (Some ''bimanual'') False (demo_crash 60 81) demo_crashed = (r, m')" by (meson surj_pair)
  show ?thesis using c f(5) g e by auto
qed

text \<open>The first outcome of a restarted daemon is dropped: run 1 was reported before, by the daemon before it.\<close>

definition demo_view :: "nat \<Rightarrow> outcome \<Rightarrow> session_view" where
  "demo_view n oc = blank_view\<lparr>vw_state := VIEWING,
     vw_last_outcome := Some \<lparr>lo_seq = n, lo_phase = COLLECTION, lo_task = CStr ''pick'', lo_outcome = oc, lo_exit = 0\<rparr>\<rparr>"

theorem alerts_once_per_registry_witness:
  "\<exists>as rr. take_alerts [demo_view 1 Saved, demo_view 1 Saved, demo_view 2 Finished] mk_registry = (as, rr) \<and> length as = 2
     \<and> fst (take_alert (demo_view 1 Crashed) rr) = None"
proof -
  obtain as rr where t: "take_alerts [demo_view 1 Saved, demo_view 1 Saved, demo_view 2 Finished] mk_registry = (as, rr)" by (meson surj_pair)
  have "map (lo_seq \<circ> al_outcome) (fst (take_alerts [demo_view 1 Saved, demo_view 1 Saved, demo_view 2 Finished] mk_registry)) = [1, 2]" by code_simp
  then have as: "map (lo_seq \<circ> al_outcome) as = [1, 2]" using t by simp
  then have "length as = 2" "\<exists>a \<in> set as. 1 \<le> lo_seq (al_outcome a)" by (auto simp: map_eq_Cons_conv)
  then show ?thesis using alerts_once_per_registry[OF t] t
    by (intro exI[of _ as] exI[of _ rr]) (simp add: demo_view_def)
qed

end
