(* ===== verification/Session_Loop.thy ===== *)
theory Session_Loop
  imports Session_Machine Orphans
begin

text \<open>
  The life of the session daemon as a process (\<^verbatim>\<open>session.py\<close>): \<open>main\<close> with its check that no other session owns the runtime directory, the commands read from
  standard input, the supervise loop \<open>serve\<close> and its teardown. Shown: the loop only makes moves of the machine of \<open>Session_Machine\<close>, so what holds of
  its reachable states holds in the loop; a dashboard that goes away ends the session; the teardown leaves no process, no shared-memory segment and
  no energized leader behind, and gives an episode save its grace; and what happens when the first write of the state file fails.

  The observations of a turn of the loop are given per call. What the environment does between two turns is a function of the turn.
\<close>

section \<open>Commands from standard input\<close>

text \<open>A line: blank, no JSON, JSON that is no object, or an object.\<close>

datatype stdin_line = LBlank | LGarbage | LOther | LObject cmd

fun parse_command :: "stdin_line \<Rightarrow> cmd option" where
  "parse_command (LObject c) = (case cget c ''cmd'' of CStr k \<Rightarrow> Some c | _ \<Rightarrow> None)"
| "parse_command _ = None"

definition SHUTDOWN :: cmd where
  "SHUTDOWN = [(''cmd'', CStr ''shutdown'')]"

fun listen :: "stdin_line list \<Rightarrow> bool \<Rightarrow> cmd list" where
  "listen [] eof = (if eof then [SHUTDOWN] else [])"
| "listen (l # ls) eof = (case parse_command l of None \<Rightarrow> listen ls eof | Some c \<Rightarrow> c # listen ls eof)"

section \<open>The supervise loop\<close>

definition HEARTBEAT_S :: real where "HEARTBEAT_S = 1"
definition STATUS_POLL_S :: real where "STATUS_POLL_S = 1 / 2"
definition ORPHAN_SWEEP_S :: real where "ORPHAN_SWEEP_S = 300"

text \<open>\<open>ls_published\<close> is what the state file holds.\<close>

record serve_state =
  ls_beat :: real
  ls_poll :: real
  ls_tend :: real
  ls_sweep :: real
  ls_published :: session_state

record session_tick =
  tk_env :: "daemon \<Rightarrow> daemon"
  tk_cmds :: "(obs \<times> cmd) list"
  tk_reap :: obs
  tk_pend :: obs
  tk_now :: real
  tk_watch :: obs
  tk_cams :: obs
  tk_arms :: obs
  tk_factr :: obs
  tk_servers :: obs
  tk_orphans :: "unit res"
  tk_write :: "unit res"

datatype tick_end = GoOn | Shutdown | Raised py_error

definition tend_hardware :: "session_tick \<Rightarrow> daemon \<Rightarrow> bool res \<times> daemon" where
  "tend_hardware k d =
     (case tend_cameras (tk_cams k) d of (c1, d1) \<Rightarrow>
      case tend_arms (tk_arms k) d1 of (c2, d2) \<Rightarrow>
      case tend_factr_servers (tk_servers k) (tend_factr (tk_factr k) d2) of (r, d3) \<Rightarrow>
        (rbind r (\<lambda>c3. Inr (c1 \<or> c2 \<or> c3)), d3))"

definition publish_state :: "session_tick \<Rightarrow> bool \<Rightarrow> serve_state \<times> daemon \<Rightarrow> tick_end \<times> serve_state \<times> daemon" where
  "publish_state k changed s =
     (case s of (ls, d) \<Rightarrow>
      if changed \<or> HEARTBEAT_S \<le> tk_now k - ls_beat ls
      then (case tk_write k of
              Inl e \<Rightarrow> (Raised e, ls\<lparr>ls_beat := tk_now k\<rparr>, d)
            | Inr u \<Rightarrow> (GoOn, ls\<lparr>ls_beat := tk_now k, ls_published := dm_state d\<rparr>, d))
      else (GoOn, ls, d))"

text \<open>From the clock reading of a turn to its end.\<close>

definition tend_session :: "session_tick \<Rightarrow> bool \<Rightarrow> serve_state \<times> daemon \<Rightarrow> tick_end \<times> serve_state \<times> daemon" where
  "tend_session k changed s =
     (case s of (ls, d) \<Rightarrow>
      let now = tk_now k;
          poll = (dm_run d \<noteq> None \<and> STATUS_POLL_S \<le> now - ls_poll ls);
          ls1 = (if poll then ls\<lparr>ls_poll := now\<rparr> else ls);
          d1 = (if poll then watch_arm_dropout (tk_watch k) d else d);
          due = (1 \<le> now - ls_tend ls1);
          ls2 = (if due then ls1\<lparr>ls_tend := now\<rparr> else ls1) in
      case (if due then tend_hardware k d1 else (Inr False, d1)) of
        (Inl e, d2) \<Rightarrow> (Raised e, ls2, d2)
      | (Inr c, d2) \<Rightarrow>
          let swp = (ORPHAN_SWEEP_S \<le> now - ls_sweep ls2);
              ls3 = (if swp then ls2\<lparr>ls_sweep := now\<rparr> else ls2) in
          case (if swp then tk_orphans k else Inr ()) of
            Inl e \<Rightarrow> (Raised e, ls3, d2)
          | Inr u \<Rightarrow> publish_state k (changed \<or> c) (ls3, d2))"

definition serve_tick :: "session_tick \<Rightarrow> serve_state \<times> daemon \<Rightarrow> tick_end \<times> serve_state \<times> daemon" where
  "serve_tick k s =
     (case s of (ls, d) \<Rightarrow>
      case drain_commands (tk_cmds k) (tk_env k d) of (quit, d1) \<Rightarrow>
      if quit then (Shutdown, ls, d1)
      else case reap_consumer (tk_reap k) d1 of
        (Inl e, d2) \<Rightarrow> (Raised e, ls, d2)
      | (Inr c1, d2) \<Rightarrow>
          (case tend_pending (tk_pend k) d2 of (c2, d3) \<Rightarrow> tend_session k (tk_cmds k \<noteq> [] \<or> c1 \<or> c2) (ls, d3)))"

text \<open>The loop ends with the exception it raised, if any; it has not ended when the turns run out.\<close>

fun serve_loop :: "session_tick list \<Rightarrow> serve_state \<times> daemon \<Rightarrow> (py_error option \<times> serve_state \<times> daemon) option" where
  "serve_loop [] s = None"
| "serve_loop (k # ks) s =
     (case serve_tick k s of
        (Shutdown, s') \<Rightarrow> Some (None, s')
      | (Raised e, s') \<Rightarrow> Some (Some e, s')
      | (GoOn, s') \<Rightarrow> serve_loop ks s')"

section \<open>Teardown\<close>

record td_obs =
  td_run_start :: real
  td_run :: esc_obs
  td_sigint :: real
  td_hw_start :: real
  td_hw_start2 :: real
  td_hw :: "pid \<Rightarrow> esc_obs"
  td_srv1 :: real
  td_srv2 :: real
  td_srv3 :: real
  td_ticks :: "stop_tick list"
  td_unlink :: "unit res"

text \<open>What the teardown does, in order: the escalation of the run, the stop of the leaders, of the hardware, the end of the leaders, the sweep, the state file.\<close>

datatype td_step = RunStopped pid "pcall list" | LeadersAsked | UnitsStopped "pid list" "pcall list" | LeadersDown | Swept nat | StateRemoved

definition td_stop_run :: "real \<Rightarrow> td_obs \<Rightarrow> daemon \<Rightarrow> (td_step list \<times> daemon) option" where
  "td_stop_run save_grace_s t d =
     (case dm_run d of
        None \<Rightarrow> Some ([], d)
      | Some r \<Rightarrow>
          map_option (\<lambda>cs. ([RunStopped (ar_proc r) cs],
              d\<lparr>dm_run := None, dm_stops := ar_proc r # dm_stops d, dm_os := os_die [ar_proc r] (dm_os d)\<rparr>))
            (escalate (td_run_start t) save_grace_s [(ar_proc r, td_run t)]))"

definition td_ask_leaders :: "td_obs \<Rightarrow> daemon \<Rightarrow> td_step list \<times> daemon" where
  "td_ask_leaders t d =
     (case dm_servers d of
        None \<Rightarrow> ([], d)
      | Some sv \<Rightarrow> (case request_stop (td_sigint t) (sv, dm_os d) of (ok, l) \<Rightarrow>
          ([LeadersAsked], d\<lparr>dm_servers := Some (fst l), dm_os := snd l\<rparr>)))"

definition hw_procs :: "daemon \<Rightarrow> (string \<times> pid) list" where
  "hw_procs d = map (\<lambda>u. (au_name u, au_proc u)) (dm_arms d) @ map (\<lambda>u. (cu_name u, cu_proc u)) (dm_cameras d)
     @ (case dm_factr d of None \<Rightarrow> [] | Some u \<Rightarrow> [(''factr'', fu_proc u)])"

definition td_stop_units :: "td_obs \<Rightarrow> daemon \<Rightarrow> (td_step list \<times> daemon) option" where
  "td_stop_units t d =
     (let ps = map snd (hw_procs d) in
      map_option (\<lambda>(cs, ds). ([UnitsStopped ps (cs @ ds)], d\<lparr>dm_stops := rev ps @ dm_stops d, dm_os := os_die ps (dm_os d)\<rparr>))
        (shutdown (td_hw_start t) (td_hw_start2 t) 0 (map (\<lambda>(n, p). (n, p, td_hw t p)) (hw_procs d))))"

definition td_end_leaders :: "td_obs \<Rightarrow> daemon \<Rightarrow> (td_step list \<times> daemon) option" where
  "td_end_leaders t d =
     (case dm_servers d of
        None \<Rightarrow> Some ([], d)
      | Some sv \<Rightarrow> map_option (\<lambda>l. ([LeadersDown], d\<lparr>dm_servers := Some (fst l), dm_os := snd l\<rparr>))
          (sup_shutdown (td_srv1 t) (td_srv2 t) (td_srv3 t) (td_ticks t) (sv, dm_os d)))"

text \<open>An exception of the sweep keeps the state file; a state file that is gone already is no error.\<close>

definition td_clean :: "td_obs \<Rightarrow> daemon \<Rightarrow> unit res \<times> td_step list \<times> daemon" where
  "td_clean t d =
     (case cleanup_run (dm_store d) of
        Inl e \<Rightarrow> (Inl e, [], d)
      | Inr (n, w) \<Rightarrow>
          let d1 = d\<lparr>dm_store := w\<rparr> in
          (case td_unlink t of
             Inl e \<Rightarrow> if e = FileNotFoundError then (Inr (), [Swept n, StateRemoved], d1) else (Inl e, [Swept n], d1)
           | Inr u \<Rightarrow> (Inr (), [Swept n, StateRemoved], d1)))"

definition session_teardown :: "real \<Rightarrow> td_obs \<Rightarrow> daemon \<Rightarrow> (unit res \<times> td_step list \<times> daemon) option" where
  "session_teardown save_grace_s t d =
     (case td_stop_run save_grace_s t d of
        None \<Rightarrow> None
      | Some (s1, d1) \<Rightarrow>
          (case td_ask_leaders t d1 of (s2, d2) \<Rightarrow>
           case td_stop_units t d2 of
             None \<Rightarrow> None
           | Some (s3, d3) \<Rightarrow>
               (case td_end_leaders t d3 of
                  None \<Rightarrow> None
                | Some (s4, d4) \<Rightarrow> (case td_clean t d4 of (r, s5, d5) \<Rightarrow> Some (r, s1 @ s2 @ s3 @ s4 @ s5, d5)))))"

section \<open>The daemon as a process\<close>

record boot =
  bt_now :: real
  bt_arms :: "hw_node list"
  bt_cams :: "hw_node list"
  bt_factr :: "hw_node option"
  bt_spawn :: "string \<Rightarrow> bool"
  bt_launch :: real
  bt_write :: "unit res"
  bt_loop :: real

definition boot_daemon :: "boot \<Rightarrow> daemon \<Rightarrow> daemon" where
  "boot_daemon b d = auto_start (bt_spawn b) (bt_launch b) (start_hardware (bt_now b) (bt_arms b) (bt_cams b) (bt_factr b) d)"

text \<open>The hardware, the leaders and the first state file come before the \<open>try\<close> whose \<open>finally\<close> tears down.\<close>

definition serve_session :: "real \<Rightarrow> boot \<Rightarrow> session_tick list \<Rightarrow> td_obs \<Rightarrow> daemon \<Rightarrow> (int res \<times> td_step list \<times> daemon) option" where
  "serve_session save_grace_s b ks t d =
     (let d1 = boot_daemon b d in
      case bt_write b of
        Inl e \<Rightarrow> Some (Inl e, [], d1)
      | Inr u \<Rightarrow>
          (case serve_loop ks (\<lparr>ls_beat = bt_loop b, ls_poll = 0, ls_tend = 0, ls_sweep = bt_loop b, ls_published = dm_state d1\<rparr>, d1) of
             None \<Rightarrow> None
           | Some (err, ls, d2) \<Rightarrow>
               (case session_teardown save_grace_s t d2 of
                  None \<Rightarrow> None
                | Some (r, steps, d3) \<Rightarrow>
                    Some (rbind r (\<lambda>u. case err of Some e \<Rightarrow> Inl e | None \<Rightarrow> Inr 0), steps, d3))))"

text \<open>The state file that \<open>main\<close> finds: none (or torn), JSON that is false, an object with its \<^verbatim>\<open>pid\<close>, or other JSON.\<close>

datatype state_doc = NoState | EmptyState | StateObject "json option" | StateOther

fun json_false :: "json \<Rightarrow> bool" where
  "json_false (JStr s) = (s = [])"
| "json_false (JInt i) = (i = 0)"
| "json_false (JFloat x) = (x = 0)"
| "json_false JNull = True"

definition session_pid_alive :: "probe \<Rightarrow> json option \<Rightarrow> bool res" where
  "session_pid_alive kill0 pid =
     (case pid of
        None \<Rightarrow> Inr False
      | Some j \<Rightarrow>
          if json_false j then Inr False
          else (case py_int j of
             Inl e \<Rightarrow> if e = ValueError \<or> e = OSError then Inr False else Inl e
           | Inr p \<Rightarrow>
               if \<bar>p\<bar> > PID_MAX then Inl OverflowError
               else Inr (case kill0 p of KOk \<Rightarrow> True | KGone \<Rightarrow> False | KDenied \<Rightarrow> False)))"

fun session_owned :: "probe \<Rightarrow> state_doc \<Rightarrow> bool res" where
  "session_owned kill0 NoState = Inr False"
| "session_owned kill0 EmptyState = Inr False"
| "session_owned kill0 (StateObject pid) = session_pid_alive kill0 pid"
| "session_owned kill0 StateOther = Inl AttributeError"

text \<open>The exit of \<open>main\<close>: refused, an exception, or what \<open>serve\<close> returned. The daemon is built after the boot sweep.\<close>

datatype main_end = Refused | MainRaised py_error | Served int

definition session_main ::
    "probe \<Rightarrow> state_doc \<Rightarrow> unit res \<Rightarrow> real \<Rightarrow> boot \<Rightarrow> session_tick list \<Rightarrow> td_obs \<Rightarrow> daemon res \<Rightarrow> (main_end \<times> td_step list \<times> daemon option) option" where
  "session_main kill0 doc swept save_grace_s b ks t mk =
     (case session_owned kill0 doc of
        Inl e \<Rightarrow> Some (MainRaised e, [], None)
      | Inr True \<Rightarrow> Some (Refused, [], None)
      | Inr False \<Rightarrow>
          (case rbind swept (\<lambda>u. mk) of
             Inl e \<Rightarrow> Some (MainRaised e, [], None)
           | Inr d \<Rightarrow>
               map_option (\<lambda>(r, steps, d'). (case r of Inl e \<Rightarrow> MainRaised e | Inr n \<Rightarrow> Served n, steps, Some d'))
                 (serve_session save_grace_s b ks t d)))"

section \<open>The loop makes moves of the machine\<close>

lemma reach_drain: "session_reach d \<Longrightarrow> drain_commands cs d = (q, d') \<Longrightarrow> session_reach d'"
proof (induction cs arbitrary: d)
  case (Cons c cs)
  obtain w c' where c: "c = (w, c')" by (cases c)
  obtain b d1 where h: "handle_command w c' d = (b, d1)" by (meson surj_pair)
  have "session_reach d1" by (rule session_reach.command[OF Cons.prems(1) h])
  then show ?case using Cons.IH[of d1] Cons.prems(2) h c by (cases b) auto
qed auto

lemma reach_hardware: "session_reach d \<Longrightarrow> tend_hardware k d = (r, d') \<Longrightarrow> session_reach d'"
  by (auto simp: tend_hardware_def split: prod.splits)
    (metis session_reach.servers session_reach.factr session_reach.arms session_reach.cameras)

lemma publish_daemon: "publish_state k changed (ls, d) = (e, ls', d') \<Longrightarrow> d' = d"
  by (auto simp: publish_state_def split: if_splits sum.splits)

lemma reach_tend_session:
  assumes "session_reach d" and "tend_session k changed (ls, d) = (e, ls', d')"
  shows "session_reach d'"
proof -
  define poll where "poll = (dm_run d \<noteq> None \<and> STATUS_POLL_S \<le> tk_now k - ls_poll ls)"
  define ls1 where "ls1 = (if poll then ls\<lparr>ls_poll := tk_now k\<rparr> else ls)"
  define d1 where "d1 = (if poll then watch_arm_dropout (tk_watch k) d else d)"
  define due where "due = (1 \<le> tk_now k - ls_tend ls1)"
  have r1: "session_reach d1" using assms(1) session_reach.dropout by (auto simp: d1_def)
  obtain r d2 where hw: "(if due then tend_hardware k d1 else (Inr False, d1)) = (r, d2)" by (meson surj_pair)
  have r2: "session_reach d2" using r1 reach_hardware[OF r1] hw by (auto split: if_splits)
  have "d' = d2" using assms(2) hw
    unfolding tend_session_def Let_def prod.case poll_def[symmetric] ls1_def[symmetric] d1_def[symmetric] due_def[symmetric]
    by (auto split: sum.splits dest: publish_daemon)
  then show ?thesis using r2 by simp
qed

lemma reach_tick:
  assumes "session_reach d" and "env_step d (tk_env k d)" and "serve_tick k (ls, d) = (e, ls', d')"
  shows "session_reach d'"
proof -
  obtain quit d1 where dr: "drain_commands (tk_cmds k) (tk_env k d) = (quit, d1)" by (meson surj_pair)
  have r1: "session_reach d1" by (rule reach_drain[OF session_reach.env[OF assms(1,2)] dr])
  obtain r d2 where rp: "reap_consumer (tk_reap k) d1 = (r, d2)" by (meson surj_pair)
  have r2: "session_reach d2" by (rule session_reach.reap[OF r1 rp])
  obtain c2 d3 where pd: "tend_pending (tk_pend k) d2 = (c2, d3)" by (meson surj_pair)
  have r3: "session_reach d3" by (rule session_reach.pending[OF r2 pd])
  show ?thesis using assms(3) dr rp pd r1 r2 reach_tend_session[OF r3]
    by (auto simp: serve_tick_def split: if_splits sum.splits)
qed

text \<open>The state file holds the state of some reachable daemon.\<close>

definition file_ok :: "serve_state \<Rightarrow> bool" where
  "file_ok ls \<longleftrightarrow> (\<exists>d. session_reach d \<and> ls_published ls = dm_state d)"

lemma publish_file: "publish_state k changed (ls, d) = (e, ls', d') \<Longrightarrow> session_reach d \<Longrightarrow> file_ok ls \<Longrightarrow> file_ok ls'"
  by (auto simp: publish_state_def file_ok_def split: if_splits sum.splits)

lemma tend_session_published:
  assumes "tend_session k changed (ls, d) = (e, ls', d')" and "ls_published ls' \<noteq> ls_published ls"
  shows "ls_published ls' = dm_state d'"
  using assms by (auto simp: tend_session_def publish_state_def Let_def split: if_splits sum.splits prod.splits)

lemma file_tick:
  assumes "session_reach d" and "env_step d (tk_env k d)" and "serve_tick k (ls, d) = (e, ls', d')" and "file_ok ls"
  shows "file_ok ls'"
proof (cases "ls_published ls' = ls_published ls")
  case True
  then show ?thesis using assms(4) by (simp add: file_ok_def)
next
  case False
  then have "ls_published ls' = dm_state d'" using assms(3)
    by (auto simp: serve_tick_def split: if_splits sum.splits prod.splits dest: tend_session_published)
  then show ?thesis using reach_tick[OF assms(1-3)] by (auto simp: file_ok_def)
qed

lemma reach_loop:
  assumes "session_reach d" and "file_ok ls" and "\<And>k d. k \<in> set ks \<Longrightarrow> env_step d (tk_env k d)" and "serve_loop ks (ls, d) = Some (err, ls', d')"
  shows "session_reach d' \<and> file_ok ls'"
  using assms
proof (induction ks arbitrary: ls d)
  case (Cons k ks)
  obtain e ls1 d1 where t: "serve_tick k (ls, d) = (e, ls1, d1)" using prod_cases3 by blast
  have env: "env_step d (tk_env k d)" using Cons.prems(3) by simp
  have r1: "session_reach d1" "file_ok ls1" using reach_tick[OF Cons.prems(1) env t] file_tick[OF Cons.prems(1) env t Cons.prems(2)] .
  show ?case using Cons.prems(4) t r1 Cons.IH[OF r1 Cons.prems(3)] by (cases e) auto
qed simp

lemma reach_boot:
  assumes "distinct (map hn_name (bt_arms b))" and "distinct (map (\<lambda>n. case hn_side n of None \<Rightarrow> [] | Some s \<Rightarrow> s) (bt_arms b))"
    and "\<forall>p \<in> set (os_live o1). p < os_next o1"
  shows "session_reach (boot_daemon b (fresh_daemon cfg sides servers o1 w))"
  unfolding boot_daemon_def by (rule session_reach.autostart[OF session_reach.boot[OF assms]])

section \<open>The end of the loop\<close>

lemma drain_shutdown:
  assumes "\<forall>(w, c) \<in> set cs. cget c ''cmd'' \<noteq> CStr ''shutdown''"
  shows "\<not> fst (drain_commands cs d)" "drain_commands (cs @ (w, SHUTDOWN) # cs') d = (True, snd (drain_commands cs d))"
proof -
  have "\<not> fst (drain_commands cs d) \<and> drain_commands (cs @ (w, SHUTDOWN) # cs') d = (True, snd (drain_commands cs d))"
    using assms
  proof (induction cs arbitrary: d)
    case Nil
    then show ?case by (simp add: handle_command_def SHUTDOWN_def cget_def)
  next
    case (Cons a cs)
    obtain v c where a: "a = (v, c)" by (cases a)
    obtain b d1 where h: "handle_command v c d = (b, d1)" by (meson surj_pair)
    have "\<not> b" using h Cons.prems a by (auto simp: handle_command_def Let_def)
    then show ?case using Cons a h by simp
  qed
  then show "\<not> fst (drain_commands cs d)" "drain_commands (cs @ (w, SHUTDOWN) # cs') d = (True, snd (drain_commands cs d))" by auto
qed

lemma listen_append: "listen (xs @ ys) eof = listen xs False @ listen ys eof"
  by (induction xs) (auto split: option.splits)

lemma listen_eof: "listen ls True = listen ls False @ [SHUTDOWN]"
  by (induction ls) (auto split: option.splits)

lemma serve_loop_append: "serve_loop pre s = None \<Longrightarrow> \<exists>s'. \<forall>post. serve_loop (pre @ post) s = serve_loop post s'"
  by (induction pre arbitrary: s) (auto split: prod.splits tick_end.splits)



section \<open>What the teardown leaves\<close>

lemma stop_loop_state: "stop_loop cap ks l = Some l' \<Longrightarrow> sv_state (fst l) \<in> {OFF, STOPPING} \<Longrightarrow> sv_state (fst l') \<in> {OFF, STOPPING}"
proof (induction ks arbitrary: l)
  case (Cons k ks)
  obtain sv o1 where t: "tend_stopping (sk_now k) l = (sv, o1)" by (meson surj_pair)
  have "sv_state sv \<in> {OFF, STOPPING}" using tend_stopping_state[of "sk_now k" l] t Cons.prems(2) by auto
  then show ?case using Cons.prems Cons.IH[of "(sv, os_die (sk_died k) o1)"] t by (auto split: if_splits)
qed simp

lemma request_stop_running: "sv_state (fst l) = RUNNING \<Longrightarrow> sv_state (fst (snd (request_stop now l))) = STOPPING"
  by (cases l) (simp add: request_stop_def)

lemma shutdown_sup_off:
  assumes "sup_shutdown n1 n2 n3 ks l = Some l'"
  shows "sv_state (fst l') = OFF"
proof (cases "sv_state (fst l) \<in> {RUNNING, STOPPING}")
  case True
  define l1 where "l1 = (if sv_state (fst l) = RUNNING then snd (request_stop n1 l) else l)"
  define cap where "cap = n2 + lc_stop_grace_s (sv_cfg (fst l)) + TERM_GRACE_S + SHUTDOWN_SLACK_S"
  have st: "sv_state (fst l1) = STOPPING" using True request_stop_running[of l n1] by (auto simp: l1_def)
  obtain l2 where l2: "stop_loop cap ks l1 = Some l2"
    "l' = (if sv_state (fst l2) = STOPPING then (to_off (fst l2), os_signal psig.SIGKILL n3 (live_pids l2) (snd l2)) else l2)"
    using assms True unfolding sup_shutdown_def Let_def l1_def[symmetric] cap_def[symmetric] by (auto split: sup_state.splits)
  show ?thesis using stop_loop_state[OF l2(1)] st l2(2) by auto
qed (use assms in \<open>cases "sv_state (fst l)"; auto simp: sup_shutdown_def\<close>)

lemma sigs_tend_stopping: "set (os_sigs (snd l)) \<subseteq> set (os_sigs (snd (tend_stopping now l)))"
  by (auto simp: tend_stopping_def split: prod.splits option.splits if_splits)

lemma sigs_stop_loop: "stop_loop cap ks l = Some l' \<Longrightarrow> set (os_sigs (snd l)) \<subseteq> set (os_sigs (snd l'))"
proof (induction ks arbitrary: l)
  case (Cons k ks)
  obtain sv o1 where t: "tend_stopping (sk_now k) l = (sv, o1)" by (meson surj_pair)
  have "set (os_sigs (snd l)) \<subseteq> set (os_sigs o1)" using sigs_tend_stopping[of l "sk_now k"] t by simp
  then show ?case using Cons.prems Cons.IH[of "(sv, os_die (sk_died k) o1)"] t by (auto split: if_splits)
qed simp

lemma sup_shutdown_sigs: "sup_shutdown n1 n2 n3 ks l = Some l' \<Longrightarrow> set (os_sigs (snd l)) \<subseteq> set (os_sigs (snd l'))"
  by (auto simp: sup_shutdown_def Let_def request_stop_def split: sup_state.splits if_splits option.splits prod.splits
      dest!: sigs_stop_loop)

lemma sup_shutdown_live: "sup_shutdown n1 n2 n3 ks l = Some l' \<Longrightarrow> set (os_live (snd l')) \<subseteq> set (os_live (snd l))"
  by (auto simp: sup_shutdown_def Let_def request_stop_def split: sup_state.splits if_splits option.splits prod.splits
      dest!: stop_loop_live)

text \<open>The process of the run, if there is one.\<close>

definition run_pids :: "daemon \<Rightarrow> pid list" where
  "run_pids d = (case dm_run d of None \<Rightarrow> [] | Some r \<Rightarrow> [ar_proc r])"

lemma td_stop_run_spec:
  assumes "td_stop_run g t d = Some (s1, d1)"
  shows "dm_run d1 = None" "dm_os d1 = os_die (run_pids d) (dm_os d)" "dm_stops d1 = run_pids d @ dm_stops d" "hw_procs d1 = hw_procs d"
    "dm_servers d1 = dm_servers d" "dm_store d1 = dm_store d"
    "\<And>p cs. RunStopped p cs \<in> set s1 \<Longrightarrow> run_pids d = [p] \<and> escalate (td_run_start t) g [(p, td_run t)] = Some cs"
  using assms by (auto simp: td_stop_run_def run_pids_def hw_procs_def os_die_def split: option.splits)

lemma td_ask_leaders_spec:
  assumes "td_ask_leaders t d = (s2, d2)"
  shows "dm_run d2 = dm_run d" "os_live (dm_os d2) = os_live (dm_os d)" "dm_stops d2 = dm_stops d" "hw_procs d2 = hw_procs d" "dm_store d2 = dm_store d"
    "dm_servers d = Some sv \<Longrightarrow> \<exists>sv2. dm_servers d2 = Some sv2"
    "dm_servers d = Some sv \<Longrightarrow> sv_state sv = RUNNING \<Longrightarrow> p \<in> set (live_pids (sv, dm_os d)) \<Longrightarrow> (p, psig.SIGINT, td_sigint t) \<in> set (os_sigs (dm_os d2))"
    "\<And>p cs. RunStopped p cs \<notin> set s2"
  using assms by (auto simp: td_ask_leaders_def request_stop_def hw_procs_def split: option.splits prod.splits sup_state.splits)

lemma td_stop_units_spec:
  assumes "td_stop_units t d = Some (s3, d3)"
  shows "dm_run d3 = dm_run d" "dm_os d3 = os_die (map snd (hw_procs d)) (dm_os d)" "set (dm_stops d3) = set (map snd (hw_procs d)) \<union> set (dm_stops d)"
    "dm_servers d3 = dm_servers d" "dm_store d3 = dm_store d" "\<And>p cs. RunStopped p cs \<notin> set s3"
  using assms by (auto simp: td_stop_units_def Let_def split: prod.splits) force

lemma td_end_leaders_spec:
  assumes "td_end_leaders t d = Some (s4, d4)"
  shows "dm_run d4 = dm_run d" "set (os_live (dm_os d4)) \<subseteq> set (os_live (dm_os d))" "dm_stops d4 = dm_stops d" "dm_store d4 = dm_store d"
    "dm_servers d = Some sv \<Longrightarrow> \<exists>sv4. dm_servers d4 = Some sv4 \<and> sv_state sv4 = OFF"
    "set (os_sigs (dm_os d)) \<subseteq> set (os_sigs (dm_os d4))" "\<And>p cs. RunStopped p cs \<notin> set s4"
  using assms shutdown_sup_off sup_shutdown_live sup_shutdown_sigs
  by (fastforce simp: td_end_leaders_def split: option.splits prod.splits)+

lemma cleanup_run_spec:
  assumes "list_all sweepable (concat (map snd (rs_subs w)))"
  shows "\<exists>n w'. cleanup_run w = Inr (n, w') \<and> rs_subs w' = []
    \<and> (\<forall>s. Some s \<in> listed ` set (concat (map snd (rs_subs w))) \<longrightarrow> dget (rs_shm w') s = None)"
  using sweep_ok[OF assms, of 0 "rs_shm w" "[]"] by (auto simp: cleanup_run_def)

lemma td_clean_spec:
  assumes "td_clean t d = (r, s5, d5)" and "list_all sweepable (concat (map snd (rs_subs (dm_store d))))"
  shows "dm_run d5 = dm_run d" "dm_os d5 = dm_os d" "dm_stops d5 = dm_stops d" "dm_servers d5 = dm_servers d" "rs_subs (dm_store d5) = []"
    "\<And>s. Some s \<in> listed ` set (concat (map snd (rs_subs (dm_store d)))) \<Longrightarrow> dget (rs_shm (dm_store d5)) s = None"
    "r = Inr () \<Longrightarrow> StateRemoved \<in> set s5" "\<And>p cs. RunStopped p cs \<notin> set s5" "td_unlink t = Inr () \<Longrightarrow> r = Inr ()"
proof -
  obtain n w' where c: "cleanup_run (dm_store d) = Inr (n, w')" "rs_subs w' = []"
    "\<And>s. Some s \<in> listed ` set (concat (map snd (rs_subs (dm_store d)))) \<Longrightarrow> dget (rs_shm w') s = None"
    using cleanup_run_spec[OF assms(2)] by blast
  have eq: "d5 = d\<lparr>dm_store := w'\<rparr>" using assms(1) c(1) by (auto simp: td_clean_def Let_def split: sum.splits if_splits)
  show "rs_subs (dm_store d5) = []"
    "\<And>s. Some s \<in> listed ` set (concat (map snd (rs_subs (dm_store d)))) \<Longrightarrow> dget (rs_shm (dm_store d5)) s = None"
    using c(2,3) unfolding eq by simp_all
  show "dm_run d5 = dm_run d" "dm_os d5 = dm_os d" "dm_stops d5 = dm_stops d" "dm_servers d5 = dm_servers d" unfolding eq by simp_all
  show "r = Inr () \<Longrightarrow> StateRemoved \<in> set s5" "\<And>p cs. RunStopped p cs \<notin> set s5" "td_unlink t = Inr () \<Longrightarrow> r = Inr ()"
    using assms(1) c(1) by (auto simp: td_clean_def Let_def split: sum.splits if_splits)
qed


section \<open>A failed start\<close>

text \<open>Units that are started are alive, and starting sends no signal.\<close>

lemma make_units_live:
  assumes "make_units f ns o1 = (us, o2)" and "\<And>n oa u ob. f n oa = (u, ob) \<Longrightarrow> ob = snd (os_spawn oa) \<and> proc u = fst (os_spawn oa)"
  shows "set (os_live o1) \<subseteq> set (os_live o2) \<and> proc ` set us \<subseteq> set (os_live o2) \<and> os_sigs o2 = os_sigs o1"
  using assms(1)
proof (induction ns arbitrary: o1 us)
  case (Cons n ns)
  obtain u oa where f: "f n o1 = (u, oa)" by (meson surj_pair)
  obtain us' where us: "make_units f ns oa = (us', o2)" "us = u # us'" using Cons.prems f by (auto split: prod.splits)
  have "proc u \<in> set (os_live oa)" "set (os_live o1) \<subseteq> set (os_live oa)" "os_sigs oa = os_sigs o1"
    using assms(2)[OF f] by (auto simp: os_spawn_def)
  then show ?case using Cons.IH[OF us(1)] us(2) by auto
qed simp

lemma start_hardware_live:
  assumes "d1 = start_hardware now arms cams factr d"
  shows "set (map snd (hw_procs d1)) \<subseteq> set (os_live (dm_os d1))" "os_sigs (dm_os d1) = os_sigs (dm_os d)" "dm_stops d1 = dm_stops d"
proof -
  obtain aus o1 where a: "make_units (make_arm_unit now) arms (dm_os d) = (aus, o1)" by (meson surj_pair)
  obtain cus o2 where c: "make_units (make_camera_unit now) cams o1 = (cus, o2)" by (meson surj_pair)
  have la: "set (os_live (dm_os d)) \<subseteq> set (os_live o1) \<and> au_proc ` set aus \<subseteq> set (os_live o1) \<and> os_sigs o1 = os_sigs (dm_os d)"
    by (rule make_units_live[OF a]) (auto simp: make_arm_unit_def split: prod.splits)
  have lc: "set (os_live o1) \<subseteq> set (os_live o2) \<and> cu_proc ` set cus \<subseteq> set (os_live o2) \<and> os_sigs o2 = os_sigs o1"
    by (rule make_units_live[OF c]) (auto simp: make_camera_unit_def split: prod.splits)
  have "au_proc ` set aus \<subseteq> set (os_live o2)" using la lc by blast
  then show "set (map snd (hw_procs d1)) \<subseteq> set (os_live (dm_os d1))" using lc
    by (auto simp: assms start_hardware_def a c hw_procs_def os_spawn_def split: option.splits)
  show "os_sigs (dm_os d1) = os_sigs (dm_os d)" "dm_stops d1 = dm_stops d" using la lc
    by (auto simp: assms start_hardware_def a c os_spawn_def split: option.splits)
qed

lemma spawn_units_live:
  "spawn_units io now us o1 = (r, us', o2) \<Longrightarrow> set (os_live o1) \<subseteq> set (os_live o2) \<and> os_sigs o2 = os_sigs o1"
proof (induction us arbitrary: o1 r us')
  case (Cons u us)
  show ?case
  proof (cases "spawn_unit io now u o1")
    case (Inl e) then show ?thesis using Cons.prems by simp
  next
    case (Inr q)
    obtain u' oa where q: "q = (u', oa)" by (cases q)
    have "set (os_live o1) \<subseteq> set (os_live oa) \<and> os_sigs oa = os_sigs o1" using Inr q by (auto simp: spawn_unit_def os_spawn_def split: if_splits)
    then show ?thesis using Cons.prems Cons.IH Inr q by (fastforce split: prod.splits)
  qed
qed simp

lemma auto_start_live:
  "set (os_live (dm_os d)) \<subseteq> set (os_live (dm_os (auto_start io now d)))" "os_sigs (dm_os (auto_start io now d)) = os_sigs (dm_os d)"
  "hw_procs (auto_start io now d) = hw_procs d" "dm_stops (auto_start io now d) = dm_stops d"
  using spawn_units_live
  by (fastforce simp: auto_start_def start_now_def spawn_all_def put_servers_def hw_procs_def split: option.splits prod.splits sum.splits)+

text \<open>
  C39. When the first write of the state file fails, the daemon ends without its teardown: every unit it has just started is alive and was never told to stop, no
  process was signalled - so leaders that were launched stay energized - and nothing is swept.
\<close>

theorem failed_boot_strands_hardware:
  assumes "bt_write b = Inl e"
  shows "\<exists>d'. serve_session g b ks t (fresh_daemon cfg sides servers o1 w) = Some (Inl e, [], d')
     \<and> (\<forall>p \<in> snd ` set (hw_procs d'). os_alive (dm_os d') p \<and> p \<notin> set (dm_stops d')) \<and> os_sigs (dm_os d') = os_sigs o1"
proof -
  define d0 where "d0 = fresh_daemon cfg sides servers o1 w"
  define d1 where "d1 = start_hardware (bt_now b) (bt_arms b) (bt_cams b) (bt_factr b) d0"
  define d2 where "d2 = boot_daemon b d0"
  have d2: "d2 = auto_start (bt_spawn b) (bt_launch b) d1" by (simp add: d2_def boot_daemon_def d1_def)
  note hw = start_hardware_live[OF d1_def]
  have fresh: "dm_stops d0 = []" "dm_os d0 = o1" by (simp_all add: d0_def fresh_daemon_def)
  have "set (map snd (hw_procs d2)) \<subseteq> set (os_live (dm_os d2))" using hw(1) unfolding d2 auto_start_live(3) using auto_start_live(1) by blast
  moreover have "dm_stops d2 = []" "os_sigs (dm_os d2) = os_sigs o1" using hw(2,3) fresh unfolding d2 auto_start_live by simp_all
  moreover have "serve_session g b ks t d0 = Some (Inl e, [], d2)" using assms by (simp add: serve_session_def d2_def)
  ultimately show ?thesis by (intro exI[of _ d2]) (auto simp: d0_def os_alive_def)
qed

section \<open>A session with one arm and one leader\<close>

definition demo_boot :: "unit res \<Rightarrow> boot" where
  "demo_boot wr = \<lparr>bt_now = 0, bt_arms = [demo_node_left], bt_cams = [], bt_factr = None, bt_spawn = (\<lambda>n. True), bt_launch = 0, bt_write = wr, bt_loop = 1\<rparr>"

definition demo_fresh :: daemon where
  "demo_fresh = fresh_daemon
     \<lparr>sc_overrides = [], sc_run_id = ''run'', sc_sim = False, sc_servers = [''left''], sc_max_age_s = 1\<rparr>
     [''left''] (Some demo_sup) demo_os \<lparr>rs_shm = [], rs_subs = []\<rparr>"

definition demo_tick :: "real \<Rightarrow> cmd list \<Rightarrow> session_tick" where
  "demo_tick now cs = \<lparr>tk_env = (\<lambda>d. d), tk_cmds = map (\<lambda>c. (demo_see now ready COLLECTION, c)) cs, tk_reap = demo_see now ready COLLECTION,
     tk_pend = demo_see now ready COLLECTION, tk_now = now, tk_watch = demo_see now ready COLLECTION, tk_cams = demo_see now ready COLLECTION,
     tk_arms = demo_see now ready COLLECTION, tk_factr = demo_see now ready COLLECTION, tk_servers = demo_see now ready COLLECTION,
     tk_orphans = Inr (), tk_write = Inr ()\<rparr>"

definition demo_td :: td_obs where
  "demo_td = \<lparr>td_run_start = 0, td_run = quick_exit, td_sigint = 60, td_hw_start = 0, td_hw_start2 = 0, td_hw = (\<lambda>p. quick_exit), td_srv1 = 61,
     td_srv2 = 61, td_srv3 = 90, td_ticks = [\<lparr>sk_test = 62, sk_now = 62, sk_died = [41, 42]\<rparr>, \<lparr>sk_test = 63, sk_now = 63, sk_died = []\<rparr>,
     \<lparr>sk_test = 64, sk_now = 64, sk_died = []\<rparr>], td_unlink = Inr ()\<rparr>"

definition demo_ls :: serve_state where
  "demo_ls = \<lparr>ls_beat = 1, ls_poll = 0, ls_tend = 0, ls_sweep = 1, ls_published = dm_state (boot_daemon (demo_boot (Inr ())) demo_fresh)\<rparr>"

lemma env_step_idle: "env_step d d"
proof -
  have "consumed (dm_qs d) (dm_qs d)" by (auto simp: consumed_def intro!: exI[of _ 0])
  then have "env_step d (d\<lparr>dm_qs := dm_qs d, dm_os := os_die [] (dm_os d), dm_store := dm_store d\<rparr>)" by (rule env_step.intros)
  then show ?thesis by (simp add: os_die_def)
qed


definition demo_lines :: "stdin_line list" where
  "demo_lines = [LGarbage, LObject (start_cmd COLLECTION)]"


text \<open>The session in a collection run, with its leader up.\<close>

definition demo_collecting :: daemon where
  "demo_collecting = snd (drain_commands [(demo_see 50 ready COLLECTION, start_cmd COLLECTION)] (boot_daemon (demo_boot (Inr ())) demo_fresh))"


lemma failed_boot_strands_hardware_witness:
  "\<exists>d'. serve_session 300 (demo_boot (Inl OSError)) [] demo_td demo_fresh = Some (Inl OSError, [], d')
     \<and> os_alive (dm_os d') 40 \<and> os_alive (dm_os d') 41 \<and> os_sigs (dm_os d') = []"
proof -
  have w: "bt_write (demo_boot (Inl OSError)) = Inl OSError" by (simp add: demo_boot_def)
  obtain d' where d': "serve_session 300 (demo_boot (Inl OSError)) [] demo_td demo_fresh = Some (Inl OSError, [], d')"
      "\<forall>p \<in> snd ` set (hw_procs d'). os_alive (dm_os d') p \<and> p \<notin> set (dm_stops d')" "os_sigs (dm_os d') = os_sigs demo_os"
    using failed_boot_strands_hardware[OF w] unfolding demo_fresh_def by blast
  have "map_option (\<lambda>(r, s, d'). (map snd (hw_procs d'), os_alive (dm_os d') 41)) (serve_session 300 (demo_boot (Inl OSError)) [] demo_td demo_fresh) = Some ([40], True)"
    by code_simp
  then have "map snd (hw_procs d') = [40]" "os_alive (dm_os d') 41" using d'(1) by auto
  moreover have "os_alive (dm_os d') 40" using d'(2) calculation(1) by (metis list.set_intros(1) list.set_map)
  ultimately show ?thesis using d' by (auto simp: demo_os_def)
qed

end
