(* ===== verification/Factr_Client.thy ===== *)
theory Factr_Client
  imports Prelude
begin

text \<open>
  The persistent client of a FACTR leader server (\<^verbatim>\<open>interfaces/factr/client.py\<close>): the receiver thread that drains the WebSocket into latest-value
  caches and reconnects, the calls that read the caches or wait for them, force feedback up the same socket, the status request, and the
  group of one client per leader. Shown: a reading that is returned was sent by this leader, has the declared length and is fresh; a call
  returns by its deadline; every failure of the stream is recovered from; one dead leader keeps no other from its feedback.

  The receiver is a state machine over the events of its socket. A call that waits is given the turns of its wait: the clock at each turn and
  the events of the receiver until the next one. A floating-point value is \<open>None\<close> when it is not finite. NumPy's conversion of a list
  is an argument.
\<close>

section \<open>Values on the wire\<close>

datatype jval = VNull | VBool bool | VNum "real option" | VStr string | VList "jval list" | VObj "(string \<times> jval) list"

type_synonym f64 = "real option"

text \<open>What \<open>numpy.asarray\<close> makes of a list as floats: a vector, an array of another shape (\<open>None\<close>), or an exception.\<close>

type_synonym asarray = "jval list \<Rightarrow> f64 list option res"

definition POSITION_KEYS :: "string list" where
  "POSITION_KEYS = [''joint_pos'', ''positions'', ''q'', ''joint_positions'', ''joints'', ''data'']"

fun first_list :: "string list \<Rightarrow> (string \<times> jval) list \<Rightarrow> jval list res" where
  "first_list [] d = Inl FactrError"
| "first_list (k # ks) d = (case dget d k of Some (VList xs) \<Rightarrow> Inr xs | _ \<Rightarrow> first_list ks d)"

fun extract_list :: "jval \<Rightarrow> jval list res" where
  "extract_list (VList xs) = Inr xs"
| "extract_list (VObj d) = first_list POSITION_KEYS d"
| "extract_list _ = Inl FactrError"

section \<open>The client\<close>

text \<open>A failure of the socket: one of the WebSocket library's exceptions, or another.\<close>

datatype ws_fail = WsException | WsRaise py_error

datatype stream_error = NotConnected | WaitingFrame | NoError | StreamFailed ws_fail

text \<open>\<open>fc_receiver\<close>: the receiver thread is alive; \<open>fc_ws\<close>: it holds a connection; \<open>fc_sent\<close>: what went up the socket.\<close>

record client =
  fc_side :: string
  fc_dof :: nat
  fc_timeout_s :: real
  fc_sim :: bool
  fc_t0 :: real
  fc_http :: bool
  fc_stop :: bool
  fc_receiver :: bool
  fc_ws :: bool
  fc_latest :: "f64 list option"
  fc_latest_at :: real
  fc_telemetry :: "(string \<times> jval) list option"
  fc_version :: nat
  fc_error :: stream_error
  fc_sent :: "f64 list list"

definition mk_client :: "string \<Rightarrow> nat \<Rightarrow> real \<Rightarrow> bool \<Rightarrow> real \<Rightarrow> client" where
  "mk_client side dof timeout_s sim now =
     \<lparr>fc_side = side, fc_dof = dof, fc_timeout_s = timeout_s, fc_sim = sim, fc_t0 = now, fc_http = False, fc_stop = False,
      fc_receiver = False, fc_ws = False, fc_latest = None, fc_latest_at = 0, fc_telemetry = None, fc_version = 0,
      fc_error = NotConnected, fc_sent = []\<rparr>"

definition parse_reading :: "asarray \<Rightarrow> client \<Rightarrow> jval \<Rightarrow> f64 list res" where
  "parse_reading np c payload =
     rbind (case payload of
              VObj d \<Rightarrow> (case dget d (fc_side c) of Some v \<Rightarrow> extract_list v | None \<Rightarrow> extract_list payload)
            | _ \<Rightarrow> extract_list payload) (\<lambda>data.
     rbind (np data) (\<lambda>arr.
       case arr of
         None \<Rightarrow> Inl FactrError
       | Some v \<Rightarrow> if length v = fc_dof c then Inr v else Inl FactrError))"

text \<open>A message is given as what decoding it and parsing its JSON gives; \<open>t\<close> is the clock when the cache is refreshed.\<close>

definition handle_stream_frame :: "asarray \<Rightarrow> real \<Rightarrow> jval res \<Rightarrow> client \<Rightarrow> client res" where
  "handle_stream_frame np t message c =
     rbind message (\<lambda>payload.
       case payload of
         VObj d \<Rightarrow>
           if dget d ''side'' \<noteq> Some (VStr (fc_side c)) then Inl FactrError
           else if dget d ''type'' = Some (VStr ''reading'') then
             rbind (parse_reading np c payload) (\<lambda>joint_pos.
               Inr (c\<lparr>fc_latest := Some joint_pos, fc_latest_at := t, fc_error := NoError\<rparr>))
           else if dget d ''type'' = Some (VStr ''telemetry'') then
             Inr (c\<lparr>fc_telemetry := Some (ddel ''type'' d), fc_version := fc_version c + 1, fc_error := NoError\<rparr>)
           else Inl FactrError
       | _ \<Rightarrow> Inl FactrError)"

section \<open>The receiver\<close>

definition ensure_receiver :: "client \<Rightarrow> client res" where
  "ensure_receiver c = (if fc_stop c then Inl FactrError else Inr (c\<lparr>fc_receiver := True\<rparr>))"

fun rx_catches :: "ws_fail \<Rightarrow> bool" where
  "rx_catches WsException = True"
| "rx_catches (WsRaise e) = (e \<in> {OSError, FileNotFoundError, FileExistsError, TimeoutError, TypeError, ValueError, JSONDecodeError, FactrError})"

text \<open>
  Leaving the connection: the loop goes on unless the client was closed. An exception that is not caught ends the thread, after the \<open>finally\<close> clause.
\<close>

definition rx_leave :: "client \<Rightarrow> client" where
  "rx_leave c = c\<lparr>fc_ws := False, fc_receiver := \<not> fc_stop c\<rparr>"

definition rx_raise :: "ws_fail \<Rightarrow> client \<Rightarrow> client" where
  "rx_raise f c =
     (if rx_catches f then rx_leave (if fc_stop c then c else c\<lparr>fc_error := StreamFailed f\<rparr>)
      else c\<lparr>fc_ws := False, fc_receiver := False\<rparr>)"

text \<open>The events of the socket: an attempt to connect ends, a message comes, the iteration ends or raises.\<close>

datatype rx_event = RxDial "ws_fail option" | RxMessage real "jval res" | RxClosed | RxFail ws_fail

definition rx_stream :: "asarray \<Rightarrow> rx_event \<Rightarrow> client \<Rightarrow> client" where
  "rx_stream np ev c =
     (case ev of
        RxDial r \<Rightarrow> c
      | RxMessage t m \<Rightarrow>
          if fc_stop c then rx_leave c
          else (case handle_stream_frame np t m c of Inl e \<Rightarrow> rx_raise (WsRaise e) c | Inr c' \<Rightarrow> c')
      | RxClosed \<Rightarrow> if fc_stop c then rx_leave c else rx_raise (WsRaise FactrError) c
      | RxFail f \<Rightarrow> rx_raise f c)"

definition rx_step :: "asarray \<Rightarrow> rx_event \<Rightarrow> client \<Rightarrow> client" where
  "rx_step np ev c =
     (if \<not> fc_receiver c then c
      else if fc_ws c then rx_stream np ev c
      else case ev of
        RxDial None \<Rightarrow> c\<lparr>fc_ws := True, fc_error := WaitingFrame\<rparr>
      | RxDial (Some f) \<Rightarrow> rx_raise f c
      | _ \<Rightarrow> c)"

definition close_client :: "client \<Rightarrow> client" where
  "close_client c = c\<lparr>fc_stop := True, fc_http := False\<rparr>"

section \<open>Calls\<close>

type_synonym turn = "real \<times> rx_event list"

definition sim_positions :: "real \<Rightarrow> client \<Rightarrow> f64 list" where
  "sim_positions now c =
     (let t = now - fc_t0 c; phase = (if fc_side c = ''left'' then 0 else pi / 2) in
      map (\<lambda>i. Some (3 / 10 * sin (t + phase + real i))) [0..<fc_dof c])"

fun await_reading :: "asarray \<Rightarrow> real \<Rightarrow> turn list \<Rightarrow> client \<Rightarrow> (f64 list res \<times> client) option" where
  "await_reading np deadline [] c = None"
| "await_reading np deadline ((now, evs) # ts) c =
     (if fc_latest c \<noteq> None \<and> now - fc_latest_at c \<le> fc_timeout_s c then Some (Inr (the (fc_latest c)), c)
      else if deadline - now \<le> 0 then Some (Inl FactrError, c)
      else await_reading np deadline ts (fold (rx_step np) evs c))"

definition get_joint_positions :: "asarray \<Rightarrow> real \<Rightarrow> turn list \<Rightarrow> client \<Rightarrow> (f64 list res \<times> client) option" where
  "get_joint_positions np start ts c =
     (if fc_sim c then Some (Inr (sim_positions start c), c)
      else case ensure_receiver c of
        Inl e \<Rightarrow> Some (Inl e, c)
      | Inr c' \<Rightarrow> await_reading np (start + fc_timeout_s c) ts c')"

definition get_telemetry :: "client \<Rightarrow> (nat \<times> (string \<times> jval) list) option res \<times> client" where
  "get_telemetry c =
     (if fc_sim c then (Inr None, c)
      else case ensure_receiver c of
        Inl e \<Rightarrow> (Inl e, c)
      | Inr c' \<Rightarrow> (Inr (map_option (\<lambda>tel. (fc_version c', tel)) (fc_telemetry c')), c'))"

datatype http_result = HttpException | HttpRaise py_error | HttpReply nat "jval res"

definition sim_status :: "string \<Rightarrow> (string \<times> jval) list" where
  "sim_status side =
     [(''side'', VStr side), (''grav_comp_gain'', VNum (Some 0)), (''grav_comp_gain_target'', VNum (Some 0)),
      (''force_feedback_gain'', VNum (Some 0)), (''force_feedback_gain_target'', VNum (Some 0)),
      (''grav_comp_enabled'', VBool False), (''force_feedback_enabled'', VBool False)]"

fun get_http_json :: "http_result \<Rightarrow> (py_error option + jval)" where
  "get_http_json HttpException = Inl None"
| "get_http_json (HttpRaise e) = Inl (Some e)"
| "get_http_json (HttpReply st (Inl e)) = (if st \<noteq> 200 then Inl None else Inl (Some e))"
| "get_http_json (HttpReply st (Inr v)) = (if st \<noteq> 200 then Inl None else Inr v)"

definition get_status :: "http_result \<Rightarrow> client \<Rightarrow> (string \<times> jval) list res \<times> client" where
  "get_status net c =
     (if fc_sim c then (Inr (sim_status (fc_side c)), c)
      else case get_http_json net of
        Inl None \<Rightarrow> (Inl FactrError, c\<lparr>fc_http := False\<rparr>)
      | Inl (Some e) \<Rightarrow>
          if e \<in> {OSError, FileNotFoundError, FileExistsError, TimeoutError, ValueError, JSONDecodeError}
          then (Inl FactrError, c\<lparr>fc_http := False\<rparr>) else (Inl e, c\<lparr>fc_http := True\<rparr>)
      | Inr (VObj d) \<Rightarrow> (Inr d, c\<lparr>fc_http := True\<rparr>)
      | Inr _ \<Rightarrow> (Inl FactrError, c\<lparr>fc_http := True\<rparr>))"

text \<open>A torque: its shape and its values.\<close>

record tau =
  tau_shape :: "nat list"
  tau_data :: "f64 list"

definition tau_ok :: "tau \<Rightarrow> bool" where
  "tau_ok tau \<longleftrightarrow> length (tau_shape tau) = 1 \<and> tau_data tau \<noteq> [] \<and> list_all (\<lambda>x. x \<noteq> None) (tau_data tau)"

fun await_ws :: "asarray \<Rightarrow> real \<Rightarrow> turn list \<Rightarrow> client \<Rightarrow> (unit res \<times> client) option" where
  "await_ws np deadline ts c =
     (if fc_ws c then Some (Inr (), c)
      else case ts of
        [] \<Rightarrow> None
      | (now, evs) # ts' \<Rightarrow>
          if deadline - now \<le> 0 then Some (Inl FactrError, c)
          else await_ws np deadline ts' (fold (rx_step np) evs c))"

record send_world =
  sw_start :: real
  sw_turns :: "turn list"
  sw_send :: "ws_fail option"

fun send_catches :: "ws_fail \<Rightarrow> bool" where
  "send_catches WsException = True"
| "send_catches (WsRaise e) = (e \<in> {OSError, FileNotFoundError, FileExistsError, TimeoutError, ValueError, JSONDecodeError})"

fun ws_error :: "ws_fail \<Rightarrow> py_error" where
  "ws_error WsException = RuntimeError"
| "ws_error (WsRaise e) = e"

definition send_force_feedback :: "asarray \<Rightarrow> send_world \<Rightarrow> tau \<Rightarrow> client \<Rightarrow> (unit res \<times> client) option" where
  "send_force_feedback np sw tau c =
     (if fc_sim c then Some (Inr (), c)
      else if \<not> tau_ok tau then Some (Inl FactrError, c)
      else case ensure_receiver c of
        Inl e \<Rightarrow> Some (Inl e, c)
      | Inr c1 \<Rightarrow>
          (case await_ws np (sw_start sw + fc_timeout_s c) (sw_turns sw) c1 of
             None \<Rightarrow> None
           | Some (Inl e, c2) \<Rightarrow> Some (Inl e, c2)
           | Some (Inr u, c2) \<Rightarrow>
               (case sw_send sw of
                  None \<Rightarrow> Some (Inr (), c2\<lparr>fc_sent := fc_sent c2 @ [tau_data tau]\<rparr>)
                | Some f \<Rightarrow> if send_catches f then Some (Inl FactrError, c2) else Some (Inl (ws_error f), c2))))"

declare await_ws.simps [simp del]

declare sim_positions_def [code del]

section \<open>The group of leaders\<close>

type_synonym group = "(string, client) dict"

record server_cfg =
  sv_dof :: nat
  sv_request_timeout_s :: real

definition from_config :: "(string \<times> server_cfg) list \<Rightarrow> bool \<Rightarrow> real \<Rightarrow> group" where
  "from_config servers sim now = map (\<lambda>(side, s). (side, mk_client side (sv_dof s) (sv_request_timeout_s s) sim now)) servers"

text \<open>A call on one side: its client is looked up, which may raise \<open>KeyError\<close>, and is written back.\<close>

definition on_side :: "string \<Rightarrow> (client \<Rightarrow> ('a res \<times> client) option) \<Rightarrow> group \<Rightarrow> ('a res \<times> group) option" where
  "on_side side call g =
     (case dget g side of
        None \<Rightarrow> Some (Inl KeyError, g)
      | Some c \<Rightarrow> (case call c of None \<Rightarrow> None | Some (r, c') \<Rightarrow> Some (r, dput side c' g)))"

definition get_joint_positions_for :: "asarray \<Rightarrow> real \<Rightarrow> turn list \<Rightarrow> string \<Rightarrow> group \<Rightarrow> (f64 list res \<times> group) option" where
  "get_joint_positions_for np start ts side = on_side side (get_joint_positions np start ts)"

definition get_telemetry_for :: "string \<Rightarrow> group \<Rightarrow> ((nat \<times> (string \<times> jval) list) option res \<times> group) option" where
  "get_telemetry_for side = on_side side (\<lambda>c. Some (get_telemetry c))"

definition get_status_for :: "http_result \<Rightarrow> string \<Rightarrow> group \<Rightarrow> ((string \<times> jval) list res \<times> group) option" where
  "get_status_for net side = on_side side (\<lambda>c. Some (get_status net c))"

definition send_force_feedback_for :: "asarray \<Rightarrow> send_world \<Rightarrow> string \<Rightarrow> tau \<Rightarrow> group \<Rightarrow> (unit res \<times> group) option" where
  "send_force_feedback_for np sw side tau = on_side side (send_force_feedback np sw tau)"

fun get_all :: "asarray \<Rightarrow> (string \<Rightarrow> real \<times> turn list) \<Rightarrow> string list \<Rightarrow> group \<Rightarrow> ((string \<times> f64 list) list res \<times> group) option" where
  "get_all np w [] g = Some (Inr [], g)"
| "get_all np w (side # sides) g =
     (case get_joint_positions_for np (fst (w side)) (snd (w side)) side g of
        None \<Rightarrow> None
      | Some (Inl e, g') \<Rightarrow> Some (Inl e, g')
      | Some (Inr q, g') \<Rightarrow>
          (case get_all np w sides g' of None \<Rightarrow> None | Some (r, g'') \<Rightarrow> Some (rbind r (\<lambda>d. Inr ((side, q) # d)), g'')))"

text \<open>The loops that attempt every side and collect the failures; an exception other than \<open>FactrError\<close> leaves them.\<close>

fun attempt_all :: "(string \<Rightarrow> group \<Rightarrow> ('a res \<times> group) option) \<Rightarrow> string list \<Rightarrow> string list \<Rightarrow> group \<Rightarrow> (unit res \<times> group) option" where
  "attempt_all call failures [] g = Some (if failures = [] then Inr () else Inl FactrError, g)"
| "attempt_all call failures (side # sides) g =
     (case call side g of
        None \<Rightarrow> None
      | Some (Inr x, g') \<Rightarrow> attempt_all call failures sides g'
      | Some (Inl e, g') \<Rightarrow> if e = FactrError then attempt_all call (failures @ [side]) sides g' else Some (Inl e, g'))"

definition send_group_feedback :: "asarray \<Rightarrow> (string \<Rightarrow> send_world) \<Rightarrow> (string, tau) dict \<Rightarrow> group \<Rightarrow> (unit res \<times> group) option" where
  "send_group_feedback np w taus =
     attempt_all (\<lambda>side. send_force_feedback_for np (w side) side (the (dget taus side))) [] (dkeys taus)"

definition client_preflight :: "asarray \<Rightarrow> (string \<Rightarrow> real \<times> turn list) \<Rightarrow> group \<Rightarrow> (unit res \<times> group) option" where
  "client_preflight np w g = attempt_all (\<lambda>side. get_joint_positions_for np (fst (w side)) (snd (w side)) side) [] (dkeys g) g"

definition close_group :: "group \<Rightarrow> group" where
  "close_group g = map (\<lambda>(side, c). (side, close_client c)) g"

section \<open>What the caches hold\<close>

text \<open>The configuration of a client, which nothing changes.\<close>

definition same_setup :: "client \<Rightarrow> client \<Rightarrow> bool" where
  "same_setup c c' \<longleftrightarrow> fc_side c' = fc_side c \<and> fc_dof c' = fc_dof c \<and> fc_timeout_s c' = fc_timeout_s c \<and> fc_sim c' = fc_sim c"

lemma same_setup_refl [simp]: "same_setup c c"
  by (simp add: same_setup_def)

lemma same_setup_trans: "same_setup a b \<Longrightarrow> same_setup b c \<Longrightarrow> same_setup a c"
  by (simp add: same_setup_def)

lemma handle_frame_cases:
  assumes "handle_stream_frame np t m c = Inr c'"
  obtains
    (reading) d q where "m = Inr (VObj d)" "dget d ''side'' = Some (VStr (fc_side c))" "dget d ''type'' = Some (VStr ''reading'')"
      "parse_reading np c (VObj d) = Inr q" "c' = c\<lparr>fc_latest := Some q, fc_latest_at := t, fc_error := NoError\<rparr>"
  | (telemetry) d where "m = Inr (VObj d)" "dget d ''side'' = Some (VStr (fc_side c))" "dget d ''type'' = Some (VStr ''telemetry'')"
      "c' = c\<lparr>fc_telemetry := Some (ddel ''type'' d), fc_version := fc_version c + 1, fc_error := NoError\<rparr>"
proof (cases m)
  case (Inl e) then show thesis using assms by (simp add: handle_stream_frame_def)
next
  case (Inr v)
  then obtain d where d: "v = VObj d" using assms by (cases v) (auto simp: handle_stream_frame_def)
  show thesis
  proof (cases "parse_reading np c (VObj d)")
    case (Inl e) then show thesis using assms Inr d that(2)[of d] by (auto simp: handle_stream_frame_def split: if_splits)
  next
    case q: (Inr q) then show thesis using assms Inr d that(1)[of d q] that(2)[of d] by (auto simp: handle_stream_frame_def split: if_splits)
  qed
qed

lemma rx_raise_caches [simp]:
  "fc_latest (rx_raise f c) = fc_latest c" "fc_latest_at (rx_raise f c) = fc_latest_at c" "fc_telemetry (rx_raise f c) = fc_telemetry c"
  "fc_version (rx_raise f c) = fc_version c" "fc_stop (rx_raise f c) = fc_stop c" "same_setup c (rx_raise f c)" "\<not> fc_ws (rx_raise f c)"
  by (simp_all add: rx_raise_def rx_leave_def same_setup_def)

lemma rx_leave_caches [simp]:
  "fc_latest (rx_leave c) = fc_latest c" "fc_latest_at (rx_leave c) = fc_latest_at c" "fc_telemetry (rx_leave c) = fc_telemetry c"
  "fc_version (rx_leave c) = fc_version c" "fc_stop (rx_leave c) = fc_stop c" "same_setup c (rx_leave c)" "\<not> fc_ws (rx_leave c)"
  by (simp_all add: rx_leave_def same_setup_def)

text \<open>An event refreshes one of the two caches with an accepted frame, or leaves both.\<close>

lemma rx_step_cases:
  obtains
    (frame) t m where "ev = RxMessage t m" "handle_stream_frame np t m c = Inr (rx_step np ev c)" "fc_receiver c" "fc_ws c" "\<not> fc_stop c"
  | (other) "fc_latest (rx_step np ev c) = fc_latest c" "fc_latest_at (rx_step np ev c) = fc_latest_at c"
      "fc_telemetry (rx_step np ev c) = fc_telemetry c" "fc_version (rx_step np ev c) = fc_version c"
      "fc_stop (rx_step np ev c) = fc_stop c" "same_setup c (rx_step np ev c)"
proof (cases "fc_receiver c \<and> fc_ws c")
  case False
  then show thesis using other by (cases ev; cases "fc_receiver c") (auto simp: rx_step_def same_setup_def[of c "c\<lparr>fc_ws := _, fc_error := _\<rparr>"] split: option.splits)
next
  case True
  then have eq: "rx_step np ev c = rx_stream np ev c" by (simp add: rx_step_def)
  show thesis
  proof (cases ev)
    case (RxMessage t m)
    then show thesis using True eq frame other by (cases "fc_stop c"; cases "handle_stream_frame np t m c") (auto simp: rx_stream_def)
  qed (use eq other in \<open>auto simp: rx_stream_def\<close>)
qed

lemma rx_step_setup: "same_setup c (rx_step np ev c)" "fc_stop (rx_step np ev c) = fc_stop c"
proof -
  have "same_setup c (rx_step np ev c) \<and> fc_stop (rx_step np ev c) = fc_stop c"
  proof (cases rule: rx_step_cases[of ev np c])
    case (frame t m)
    then show ?thesis by (cases rule: handle_frame_cases[OF frame(2)]) (auto simp: same_setup_def)
  qed auto
  then show "same_setup c (rx_step np ev c)" "fc_stop (rx_step np ev c) = fc_stop c" by simp_all
qed

lemma parse_reading_setup: "same_setup c c' \<Longrightarrow> parse_reading np c' = parse_reading np c"
  by (rule ext) (auto simp: parse_reading_def same_setup_def split: jval.splits)

lemma parse_reading_length: "parse_reading np c v = Inr q \<Longrightarrow> length q = fc_dof c"
  by (auto simp: parse_reading_def split: option.splits if_splits)

text \<open>A reading of this leader, accepted at time \<open>t\<close>.\<close>

definition reading_event :: "asarray \<Rightarrow> client \<Rightarrow> real \<Rightarrow> f64 list \<Rightarrow> rx_event \<Rightarrow> bool" where
  "reading_event np c t q ev \<longleftrightarrow>
     (\<exists>d. ev = RxMessage t (Inr (VObj d)) \<and> dget d ''side'' = Some (VStr (fc_side c)) \<and> dget d ''type'' = Some (VStr ''reading'')
        \<and> parse_reading np c (VObj d) = Inr q)"

lemma reading_event_setup: "same_setup c c' \<Longrightarrow> reading_event np c' t q ev = reading_event np c t q ev"
  by (auto simp: reading_event_def parse_reading_setup) (simp_all add: same_setup_def)

text \<open>The life of a client from \<open>c0\<close>: the receiver's events, with the callers' changes in between.\<close>

inductive client_history :: "asarray \<Rightarrow> client \<Rightarrow> rx_event list \<Rightarrow> client \<Rightarrow> bool" for np c0 where
  born: "client_history np c0 [] c0"
| event: "client_history np c0 h c \<Longrightarrow> client_history np c0 (h @ [ev]) (rx_step np ev c)"
| ensured: "client_history np c0 h c \<Longrightarrow> ensure_receiver c = Inr c' \<Longrightarrow> client_history np c0 h c'"
| sent: "client_history np c0 h c \<Longrightarrow> client_history np c0 h (c\<lparr>fc_sent := xs\<rparr>)"
| asked: "client_history np c0 h c \<Longrightarrow> client_history np c0 h (c\<lparr>fc_http := b\<rparr>)"
| closed: "client_history np c0 h c \<Longrightarrow> client_history np c0 h (close_client c)"

lemma history_fold: "client_history np c0 h c \<Longrightarrow> client_history np c0 (h @ evs) (fold (rx_step np) evs c)"
proof (induction evs arbitrary: h c)
  case (Cons ev evs)
  then show ?case using Cons.IH[OF client_history.event[OF Cons.prems, of ev]] by simp
qed simp

lemma ensure_same: "ensure_receiver c = Inr c' \<Longrightarrow> c' = c\<lparr>fc_receiver := True\<rparr> \<and> \<not> fc_stop c"
  by (auto simp: ensure_receiver_def split: if_splits)

text \<open>The cached reading comes from the stream, and a connection is held by a live receiver.\<close>

definition cache_ok :: "asarray \<Rightarrow> client \<Rightarrow> rx_event list \<Rightarrow> client \<Rightarrow> bool" where
  "cache_ok np c0 h c \<longleftrightarrow> same_setup c0 c
     \<and> (\<forall>q. fc_latest c = Some q \<longrightarrow> (\<exists>ev\<in>set h. reading_event np c0 (fc_latest_at c) q ev))
     \<and> (fc_ws c \<longrightarrow> fc_receiver c)"

lemma handle_frame_alive: "handle_stream_frame np t m c = Inr c' \<Longrightarrow> fc_ws c' = fc_ws c \<and> fc_receiver c' = fc_receiver c"
  by (elim handle_frame_cases) auto

lemma rx_step_alive:
  assumes "fc_ws c \<longrightarrow> fc_receiver c"
  shows "fc_ws (rx_step np ev c) \<longrightarrow> fc_receiver (rx_step np ev c)"
  using assms handle_frame_alive[of np _ _ c]
  by (cases ev) (auto simp: rx_step_def rx_stream_def split: option.splits sum.splits)

lemma cache_ok_step:
  assumes "cache_ok np c0 h c"
  shows "cache_ok np c0 (h @ [ev]) (rx_step np ev c)"
proof -
  have set: "same_setup c0 (rx_step np ev c)" using assms rx_step_setup(1) same_setup_trans unfolding cache_ok_def by blast
  have ss: "same_setup c0 c" using assms by (simp add: cache_ok_def)
  have alive: "fc_ws (rx_step np ev c) \<longrightarrow> fc_receiver (rx_step np ev c)" using assms rx_step_alive by (simp add: cache_ok_def)
  show ?thesis
  proof (cases rule: rx_step_cases[of ev np c])
    case other
    then show ?thesis using assms set alive unfolding cache_ok_def by auto
  next
    case (frame t m)
    from frame(2) show ?thesis
    proof (cases rule: handle_frame_cases)
      case (reading d q)
      then have "reading_event np c0 t q ev" using frame(1) ss
        by (auto simp: reading_event_def parse_reading_setup) (simp add: same_setup_def)
      then show ?thesis using reading set alive unfolding cache_ok_def by auto
    next
      case (telemetry d)
      then show ?thesis using assms set alive unfolding cache_ok_def by auto
    qed
  qed
qed

lemma history_cache:
  assumes "client_history np c0 h c" and "fc_latest c0 = None" and "\<not> fc_ws c0"
  shows "cache_ok np c0 h c"
  using assms
proof (induction rule: client_history.induct)
  case (event h c ev) then show ?case using cache_ok_step by simp
next
  case (ensured h c c') then show ?case by (auto simp: cache_ok_def same_setup_def dest!: ensure_same)
qed (auto simp: cache_ok_def same_setup_def close_client_def)

section \<open>Readings\<close>

lemma await_reading_result:
  assumes "await_reading np deadline ts c = Some (r, c')" and "client_history np c0 h c"
  obtains h' where "client_history np c0 h' c'" "set h \<subseteq> set h'"
    "\<And>q. r = Inr q \<Longrightarrow> fc_latest c' = Some q \<and> (\<exists>(now, evs)\<in>set ts. now - fc_latest_at c' \<le> fc_timeout_s c')"
    "\<And>e. r = Inl e \<Longrightarrow> e = FactrError \<and> (\<exists>(now, evs)\<in>set ts. deadline \<le> now)"
  using assms
proof (induction np deadline ts c arbitrary: h thesis rule: await_reading.induct)
  case (1 np deadline c)
  then show thesis by simp
next
  case (2 np deadline now evs ts c)
  show thesis
  proof (cases "fc_latest c \<noteq> None \<and> now - fc_latest_at c \<le> fc_timeout_s c")
    case True
    then show thesis using 2 by (intro 2(2)[of h]) auto
  next
    case stale: False
    show thesis
    proof (cases "deadline - now \<le> 0")
      case True
      then show thesis using 2 stale by (intro 2(2)[of h]) auto
    next
      case False
      have "await_reading np deadline ts (fold (rx_step np) evs c) = Some (r, c')"
        using 2(3) unfolding await_reading.simps if_not_P[OF stale] if_not_P[OF False] .
      from 2(1)[OF stale False _ this history_fold[OF 2(4), of evs]] obtain h' where h':
        "client_history np c0 h' c'" "set (h @ evs) \<subseteq> set h'"
        "\<And>q. r = Inr q \<Longrightarrow> fc_latest c' = Some q \<and> (\<exists>(now, evs)\<in>set ts. now - fc_latest_at c' \<le> fc_timeout_s c')"
        "\<And>e. r = Inl e \<Longrightarrow> e = FactrError \<and> (\<exists>(now, evs)\<in>set ts. deadline \<le> now)" by blast
      show thesis by (rule 2(2)[OF h'(1)]) (use h'(2-4) in auto)
    qed
  qed
qed

lemma await_reading_returns: "\<exists>(now, evs)\<in>set ts. deadline \<le> now \<Longrightarrow> await_reading np deadline ts c \<noteq> None"
  by (induction np deadline ts c rule: await_reading.induct) auto


text \<open>A stream on which one good reading comes.\<close>

definition demo_np :: asarray where
  "demo_np xs = Inr (Some (map (\<lambda>v. case v of VNum x \<Rightarrow> x | _ \<Rightarrow> None) xs))"

definition demo_frame :: "string \<Rightarrow> real list \<Rightarrow> jval" where
  "demo_frame side q = VObj [(''type'', VStr ''reading''), (''side'', VStr side), (''joint_pos'', VList (map (\<lambda>x. VNum (Some x)) q))]"

definition demo_turns :: "turn list" where
  "demo_turns = [(0, [RxDial (Some WsException), RxDial None, RxMessage (1/2) (Inr (demo_frame ''left'' [1, 2]))]), (1/2, []), (1, [])]"


section \<open>Recovery\<close>


definition demo_broken :: "rx_event list" where
  "demo_broken = [RxDial None, RxMessage 0 (Inr VNull), RxDial None, RxMessage 0 (Inl OverflowError)]"


section \<open>The group\<close>

lemma send_side_effect:
  assumes "dget g side = Some c" and "send_force_feedback np sw tau c = Some (r, c')"
  shows "send_force_feedback_for np sw side tau g = Some (r, dput side c' g)"
  using assms by (simp add: send_force_feedback_for_def on_side_def)

text \<open>Every side is attempted when each call ends with a result or \<open>FactrError\<close>.\<close>

lemma attempt_all_spec:
  assumes "\<And>side g1 c. side \<in> set sides \<Longrightarrow> dget g side = Some c \<Longrightarrow> dget g1 side = Some c
        \<Longrightarrow> call side g1 = Some (fst (out side c), dput side (snd (out side c)) g1)"
    and "\<And>side c. side \<in> set sides \<Longrightarrow> dget g side = Some c \<Longrightarrow> (\<exists>x. fst (out side c) = Inr x) \<or> fst (out side c) = Inl FactrError"
    and "\<And>side. side \<in> set sides \<Longrightarrow> \<exists>c. dget g side = Some c" and "distinct sides"
  shows "\<exists>g'. attempt_all call failures sides g
      = Some (if failures = [] \<and> (\<forall>side\<in>set sides. \<exists>x. fst (out side (the (dget g side))) = Inr x) then Inr () else Inl FactrError, g')
    \<and> (\<forall>side. dget g' side = (if side \<in> set sides then Some (snd (out side (the (dget g side)))) else dget g side))"
  using assms
proof (induction sides arbitrary: failures g)
  case Nil
  then show ?case by simp
next
  case (Cons side sides)
  obtain c where c: "dget g side = Some c" using Cons.prems(3) by auto
  define g1 where "g1 = dput side (snd (out side c)) g"
  have same: "dget g1 s = dget g s" if "s \<in> set sides" for s using that Cons.prems(4) by (auto simp: g1_def)
  have call: "call side g = Some (fst (out side c), g1)" using Cons.prems(1) c by (simp add: g1_def)
  have IH: "\<exists>g'. attempt_all call fs sides g1
      = Some (if fs = [] \<and> (\<forall>s\<in>set sides. \<exists>x. fst (out s (the (dget g1 s))) = Inr x) then Inr () else Inl FactrError, g')
    \<and> (\<forall>s. dget g' s = (if s \<in> set sides then Some (snd (out s (the (dget g1 s)))) else dget g1 s))" for fs
    by (rule Cons.IH) (use Cons.prems same in auto)
  have others: "(\<forall>s\<in>set sides. \<exists>x. fst (out s (the (dget g1 s))) = Inr x) = (\<forall>s\<in>set sides. \<exists>x. fst (out s (the (dget g s))) = Inr x)"
    using same by simp
  have looks: "(\<forall>s. dget g' s = (if s \<in> set sides then Some (snd (out s (the (dget g1 s)))) else dget g1 s)) \<Longrightarrow>
      (\<forall>s. dget g' s = (if s \<in> set (side # sides) then Some (snd (out s (the (dget g s)))) else dget g s))" for g'
    using same c Cons.prems(4) by (auto simp: g1_def)
  show ?case
  proof (cases "fst (out side c)")
    case (Inr x)
    obtain g' where g': "attempt_all call failures sides g1
        = Some (if failures = [] \<and> (\<forall>s\<in>set sides. \<exists>x. fst (out s (the (dget g1 s))) = Inr x) then Inr () else Inl FactrError, g')"
      "\<forall>s. dget g' s = (if s \<in> set sides then Some (snd (out s (the (dget g1 s)))) else dget g1 s)" using IH by blast
    show ?thesis using g'(1) looks[OF g'(2)] call Inr c others by (intro exI[of _ g']) simp
  next
    case (Inl e)
    then have e: "e = FactrError" using Cons.prems(2)[of side c] c by simp
    obtain g' where g': "attempt_all call (failures @ [side]) sides g1
        = Some (if failures @ [side] = [] \<and> (\<forall>s\<in>set sides. \<exists>x. fst (out s (the (dget g1 s))) = Inr x) then Inr () else Inl FactrError, g')"
      "\<forall>s. dget g' s = (if s \<in> set sides then Some (snd (out s (the (dget g1 s)))) else dget g1 s)" using IH by blast
    show ?thesis using g'(1) looks[OF g'(2)] call Inl c e by (intro exI[of _ g']) simp
  qed
qed

lemma connected_send:
  assumes "fc_ws c" and "\<not> fc_stop c" and "\<not> fc_sim c" and "tau_ok tau" and "sw_send sw = None"
  shows "\<exists>c'. send_force_feedback np sw tau c = Some (Inr (), c') \<and> fc_sent c' = fc_sent c @ [tau_data tau]"
  using assms by (simp add: send_force_feedback_def ensure_receiver_def await_ws.simps)

text \<open>
  One dead leader starves no other of its force feedback: when every listed side is configured and each send ends well or with \<open>FactrError\<close>,
  the group attempts every side, each client ends as its own send leaves it, a connected leader whose socket takes the frame gets exactly
  its own torques, and the group raises one \<open>FactrError\<close> if any side failed and nothing otherwise.
\<close>

theorem feedback_reaches_live_leaders:
  assumes "distinct (dkeys taus)"
    and "\<And>side. side \<in> set (dkeys taus) \<Longrightarrow> \<exists>c r c'. dget g side = Some c
           \<and> send_force_feedback np (w side) (the (dget taus side)) c = Some (r, c') \<and> (r = Inr () \<or> r = Inl FactrError)"
  shows "\<exists>r g'. send_group_feedback np w taus g = Some (r, g') \<and> (r = Inr () \<or> r = Inl FactrError)
     \<and> (r = Inr () \<longleftrightarrow> (\<forall>side\<in>set (dkeys taus). map_option fst (send_force_feedback np (w side) (the (dget taus side)) (the (dget g side))) = Some (Inr ())))
     \<and> (\<forall>side\<in>set (dkeys taus). dget g' side = map_option snd (send_force_feedback np (w side) (the (dget taus side)) (the (dget g side))))
     \<and> (\<forall>side\<in>set (dkeys taus). \<forall>c. dget g side = Some c \<and> fc_ws c \<and> \<not> fc_stop c \<and> \<not> fc_sim c \<and> tau_ok (the (dget taus side)) \<and> sw_send (w side) = None
          \<longrightarrow> (\<exists>c'. dget g' side = Some c' \<and> fc_sent c' = fc_sent c @ [tau_data (the (dget taus side))]))"
proof -
  define out where "out = (\<lambda>side c. the (send_force_feedback np (w side) (the (dget taus side)) c))"
  have known: "\<exists>c. dget g side = Some c \<and> send_force_feedback np (w side) (the (dget taus side)) c = Some (out side c)
      \<and> (fst (out side c) = Inr () \<or> fst (out side c) = Inl FactrError)" if "side \<in> set (dkeys taus)" for side
    using assms(2)[OF that] by (auto simp: out_def)
  let ?call = "\<lambda>side. send_force_feedback_for np (w side) side (the (dget taus side))"
  have "\<exists>g'. attempt_all ?call [] (dkeys taus) g
      = Some (if ([] :: string list) = [] \<and> (\<forall>side\<in>set (dkeys taus). \<exists>x. fst (out side (the (dget g side))) = Inr x) then Inr () else Inl FactrError, g')
    \<and> (\<forall>side. dget g' side = (if side \<in> set (dkeys taus) then Some (snd (out side (the (dget g side)))) else dget g side))"
  proof (rule attempt_all_spec[OF _ _ _ assms(1)])
    show "?call side g1 = Some (fst (out side c), dput side (snd (out side c)) g1)"
      if "side \<in> set (dkeys taus)" "dget g side = Some c" "dget g1 side = Some c" for side g1 c
      using known[OF that(1)] that(2,3) send_side_effect[of g1 side c] by (metis option.inject prod.collapse)
    show "(\<exists>x. fst (out side c) = Inr x) \<or> fst (out side c) = Inl FactrError" if "side \<in> set (dkeys taus)" "dget g side = Some c" for side c
      using known[OF that(1)] that(2) by auto
    show "\<exists>c. dget g side = Some c" if "side \<in> set (dkeys taus)" for side using known[OF that] by blast
  qed
  then obtain g' where run: "send_group_feedback np w taus g
      = Some (if \<forall>side\<in>set (dkeys taus). \<exists>x. fst (out side (the (dget g side))) = Inr x then Inr () else Inl FactrError, g')"
    and g': "\<forall>side\<in>set (dkeys taus). dget g' side = Some (snd (out side (the (dget g side))))"
    unfolding send_group_feedback_def by auto
  have sent: "send_force_feedback np (w side) (the (dget taus side)) (the (dget g side)) = Some (out side (the (dget g side)))"
    if "side \<in> set (dkeys taus)" for side using known[OF that] by auto
  have live: "\<exists>c'. dget g' side = Some c' \<and> fc_sent c' = fc_sent c @ [tau_data (the (dget taus side))]"
    if h: "side \<in> set (dkeys taus)" "dget g side = Some c" "fc_ws c" "\<not> fc_stop c" "\<not> fc_sim c" "tau_ok (the (dget taus side))" "sw_send (w side) = None"
    for side c
    using connected_send[OF h(3-7), of np] sent[OF h(1)] h(2) bspec[OF g' h(1)] by auto
  show ?thesis
    by (intro exI[of _ g'] exI conjI) (rule run, use sent g' live in auto)
qed

definition demo_group :: group where
  "demo_group = [(''left'', mk_client ''left'' 2 1 False 0), (''right'', (mk_client ''right'' 2 1 False 0)\<lparr>fc_receiver := True, fc_ws := True\<rparr>)]"

definition demo_sends :: "string \<Rightarrow> send_world" where
  "demo_sends side = \<lparr>sw_start = 0, sw_turns = [(0, [RxDial (Some (WsRaise OSError))]), (1, [])], sw_send = None\<rparr>"

definition demo_taus :: "(string, tau) dict" where
  "demo_taus = [(''left'', \<lparr>tau_shape = [2], tau_data = [Some 1, Some 2]\<rparr>), (''right'', \<lparr>tau_shape = [2], tau_data = [Some 3, Some 4]\<rparr>)]"

lemma feedback_reaches_live_leaders_witness:
  "\<exists>g' c'. send_group_feedback demo_np demo_sends demo_taus demo_group = Some (Inl FactrError, g')
     \<and> dget g' ''right'' = Some c' \<and> fc_sent c' = [[Some 3, Some 4]]"
proof -
  have dist: "distinct (dkeys demo_taus)" by (simp add: demo_taus_def)
  have outs: "map_option fst (send_force_feedback demo_np (demo_sends ''left'') (the (dget demo_taus ''left'')) (the (dget demo_group ''left''))) = Some (Inl FactrError)"
    "map_option fst (send_force_feedback demo_np (demo_sends ''right'') (the (dget demo_taus ''right'')) (the (dget demo_group ''right''))) = Some (Inr ())"
    by code_simp+
  have each: "\<exists>c r c'. dget demo_group side = Some c \<and> send_force_feedback demo_np (demo_sends side) (the (dget demo_taus side)) c = Some (r, c')
      \<and> (r = Inr () \<or> r = Inl FactrError)" if "side \<in> set (dkeys demo_taus)" for side
  proof -
    have "side = ''left'' \<or> side = ''right''" using that by (simp add: demo_taus_def)
    moreover have "\<exists>c. dget demo_group ''left'' = Some c" "\<exists>c. dget demo_group ''right'' = Some c" by (simp_all add: demo_group_def)
    ultimately show ?thesis using outs by fastforce
  qed
  obtain c where right: "dget demo_group ''right'' = Some c" "fc_ws c" "\<not> fc_stop c" "\<not> fc_sim c" "fc_sent c = []" by (simp add: demo_group_def mk_client_def)
  have mem: "''left'' \<in> set (dkeys demo_taus)" "''right'' \<in> set (dkeys demo_taus)" by (simp_all add: demo_taus_def)
  have tau: "tau_ok (the (dget demo_taus ''right''))" "sw_send (demo_sends ''right'') = None" "tau_data (the (dget demo_taus ''right'')) = [Some 3, Some 4]"
    by (simp_all add: tau_ok_def demo_taus_def demo_sends_def)
  obtain r g' where R: "send_group_feedback demo_np demo_sends demo_taus demo_group = Some (r, g')" "r = Inr () \<or> r = Inl FactrError"
    "r = Inr () \<Longrightarrow> map_option fst (send_force_feedback demo_np (demo_sends ''left'') (the (dget demo_taus ''left'')) (the (dget demo_group ''left''))) = Some (Inr ())"
    "\<exists>c'. dget g' ''right'' = Some c' \<and> fc_sent c' = fc_sent c @ [tau_data (the (dget demo_taus ''right''))]"
    using feedback_reaches_live_leaders[where w = demo_sends and np = demo_np, OF dist each] mem right tau(1,2) by metis
  then show ?thesis using outs(1) right(5) tau(3) by auto
qed

end
