(* ===== verification/Storage.thy ===== *)
theory Storage
  imports Registry "HOL-Library.List_Lexorder" "HOL-Library.Char_ord"
begin

text \<open>
  The dashboard's storage of recorded episodes (\<^verbatim>\<open>dashboard/storage.py\<close>) and its download server (\<^verbatim>\<open>dashboard/downloads.py\<close>): finding
  datasets, listing their episodes, deleting episodes by rebuilding and swapping, publishing files under tokens. Shown: what a deletion leaves
  on disk on every path through it, the failing ones included; that one corrupt dataset does not hide the others; that only published
  files are served, under names that are safe in a header.

  A directory tree is what of a dataset matters here: its \<^verbatim>\<open>meta/info.json\<close>, its episodes, and the sizes of its files. The folders stand side by
  side: what lies inside a dataset's folder belongs to its tree. Removing a tree with errors ignored may leave any part of it.
  LeRobot's rebuild and metadata are arguments.
\<close>

section \<open>Datasets on disk\<close>

text \<open>The fields of \<open>info.json\<close> that are read; a field may be absent. A feature is given by its key and its dtype.\<close>

record info_doc =
  id_total_episodes :: "json option"
  id_total_frames :: "json option"
  id_fps :: "json option"
  id_video_keys :: "string list"
  id_features :: "(string \<times> string) list"

text \<open>
  \<open>None\<close> as the information: the file is missing; \<open>Some (Inl e)\<close>: it cannot be read or parsed. A file's size is \<open>None\<close> when asking for it raises
  \<open>OSError\<close>.
\<close>

record 'e tree =
  tr_info :: "info_doc res option"
  tr_episodes :: "'e list"
  tr_files :: "nat option list"

type_synonym 'e disk = "(string, 'e tree) dict"

record dataset_info =
  dt_repo_id :: string
  dt_path :: string
  dt_num_episodes :: int
  dt_num_frames :: int
  dt_fps :: real
  dt_video_keys :: "string list"
  dt_size_bytes :: nat

fun or_zero :: "json option \<Rightarrow> json" where
  "or_zero None = JInt 0"
| "or_zero (Some j) = j"

text \<open>\<open>float (x or 0)\<close>, with the conversion of a text as an argument.\<close>

fun py_float :: "(string \<Rightarrow> real res) \<Rightarrow> json \<Rightarrow> real res" where
  "py_float of_text (JInt i) = Inr (real_of_int i)"
| "py_float of_text (JFloat x) = Inr x"
| "py_float of_text (JStr s) = (if s = [] then Inr 0 else of_text s)"
| "py_float of_text JNull = Inr 0"

definition video_keys_of :: "info_doc \<Rightarrow> string list" where
  "video_keys_of info =
     (if id_video_keys info \<noteq> [] then id_video_keys info
      else map fst (filter (\<lambda>(k, dtype). dtype = ''video'') (id_features info)))"

definition dir_size :: "nat option list \<Rightarrow> nat" where
  "dir_size sizes = fold (\<lambda>s acc. case s of None \<Rightarrow> acc | Some n \<Rightarrow> acc + n) sizes 0"

definition read_dataset :: "(string \<Rightarrow> real res) \<Rightarrow> string \<Rightarrow> string \<Rightarrow> info_doc res \<Rightarrow> nat option list \<Rightarrow> dataset_info res" where
  "read_dataset of_text repo_id path doc sizes =
     rbind doc (\<lambda>info.
     rbind (py_int (or_zero (id_total_episodes info))) (\<lambda>n.
     rbind (py_int (or_zero (id_total_frames info))) (\<lambda>f.
     rbind (py_float of_text (or_zero (id_fps info))) (\<lambda>fps.
     Inr \<lparr>dt_repo_id = repo_id, dt_path = path, dt_num_episodes = n, dt_num_frames = f, dt_fps = fps, dt_video_keys = video_keys_of info,
            dt_size_bytes = dir_size sizes\<rparr>))))"

text \<open>The disk is listed by repository id; a dataset that raises is skipped.\<close>

fun read_each :: "(string \<Rightarrow> real res) \<Rightarrow> 'e disk \<Rightarrow> dataset_info list" where
  "read_each of_text [] = []"
| "read_each of_text ((p, t) # ts) =
     (case tr_info t of
        None \<Rightarrow> read_each of_text ts
      | Some doc \<Rightarrow>
          (case read_dataset of_text p p doc (tr_files t) of
             Inl e \<Rightarrow> read_each of_text ts
           | Inr ds \<Rightarrow> ds # read_each of_text ts))"

definition discover_datasets :: "(string \<Rightarrow> real res) \<Rightarrow> bool \<Rightarrow> 'e disk \<Rightarrow> dataset_info list" where
  "discover_datasets of_text root_is_dir fs = (if \<not> root_is_dir then [] else sort_key dt_repo_id (read_each of_text fs))"

section \<open>Episodes and their videos\<close>

record episode_row =
  er_index :: int
  er_length :: int
  er_tasks :: "string list"

record episode_video =
  vd_key :: string
  vd_label :: string
  vd_path :: string
  vd_filename :: string
  vd_size :: nat

record episode_info =
  ep_index :: int
  ep_length :: int
  ep_duration_s :: real
  ep_tasks :: "string list"
  ep_videos :: "episode_video list"

definition safe_name_char :: "char \<Rightarrow> bool" where
  "safe_name_char c \<longleftrightarrow> safe_char c \<or> c = CHR ''.'' \<or> c = CHR ''-''"

function sub_unsafe :: "string \<Rightarrow> string" where
  "sub_unsafe [] = []"
| "sub_unsafe (c # cs) =
     (if safe_name_char c then c # sub_unsafe cs
      else CHR ''-'' # sub_unsafe (dropWhile (\<lambda>d. \<not> safe_name_char d) cs))"
  by pat_completeness auto
termination
  by (relation "measure length") (auto simp: less_Suc_eq_le length_dropWhile_le)

definition strip_ends :: "string \<Rightarrow> string" where
  "strip_ends s = (let p = (\<lambda>c. c = CHR ''.'' \<or> c = CHR ''-'') in rev (dropWhile p (rev (dropWhile p s))))"

definition pad4 :: "nat \<Rightarrow> string" where
  "pad4 n = replicate (4 - length (nat_str n)) (CHR ''0'') @ nat_str n"

definition or_else :: "string \<Rightarrow> string \<Rightarrow> string" where
  "or_else s d = (if s = [] then d else s)"

definition video_filename :: "string \<Rightarrow> nat \<Rightarrow> string \<Rightarrow> string" where
  "video_filename repo_id i label =
     or_else (strip_ends (sub_unsafe repo_id)) ''dataset'' @ ''-episode-'' @ pad4 i @ ''-''
       @ or_else (strip_ends (sub_unsafe label)) ''camera'' @ ''.mp4''"

definition IMAGES_PREFIX :: string where
  "IMAGES_PREFIX = ''observation.images.''"

definition remove_prefix :: "string \<Rightarrow> string \<Rightarrow> string" where
  "remove_prefix p s = (if take (length p) s = p then drop (length p) s else s)"

text \<open>What resolving a video's path gives: its path, whether its suffix is \<open>.mp4\<close>, its size; or an exception, which skips it.\<close>

definition episode_videos :: "(string \<Rightarrow> (string \<times> bool \<times> nat) res) \<Rightarrow> dataset_info \<Rightarrow> nat \<Rightarrow> episode_video list" where
  "episode_videos resolve ds i =
     concat (map (\<lambda>key. case resolve key of
        Inl e \<Rightarrow> []
      | Inr (path, mp4, sz) \<Rightarrow>
          if \<not> mp4 then []
          else let label = remove_prefix IMAGES_PREFIX key in
            [\<lparr>vd_key = key, vd_label = label, vd_path = path, vd_filename = video_filename (dt_repo_id ds) i label, vd_size = sz\<rparr>])
       (dt_video_keys ds))"

text \<open>\<open>meta\<close>: the metadata LeRobot loads, or an exception.\<close>

definition list_episodes :: "(int \<Rightarrow> string \<Rightarrow> (string \<times> bool \<times> nat) res) \<Rightarrow> (real \<times> episode_row list) res \<Rightarrow> dataset_info \<Rightarrow> episode_info list res" where
  "list_episodes resolve meta ds =
     (if dt_num_episodes ds \<le> 0 then Inr []
      else case meta of
        Inl e \<Rightarrow> Inl ValueError
      | Inr (fps0, rws) \<Rightarrow>
          let fps = (if fps0 = 0 then 1 else fps0) in
          Inr (sort_key ep_index (map (\<lambda>r. \<lparr>ep_index = er_index r, ep_length = er_length r, ep_duration_s = real_of_int (er_length r) / fps,
                 ep_tasks = er_tasks r, ep_videos = episode_videos (resolve (er_index r)) ds (nat (er_index r))\<rparr>) rws)))"

section \<open>Deletion\<close>

text \<open>
  \<open>rmtree\<close> with errors ignored: \<open>rm p t\<close> is what is left of the tree \<open>t\<close> at \<open>p\<close>. \<open>os.replace\<close> of directories needs the target
  to be absent or empty, and may fail for any other reason.
\<close>

type_synonym 'e rm = "string \<Rightarrow> 'e tree \<Rightarrow> 'e tree option"

definition rmtree :: "'e rm \<Rightarrow> string \<Rightarrow> 'e disk \<Rightarrow> 'e disk" where
  "rmtree rm p fs =
     (case dget fs p of
        None \<Rightarrow> fs
      | Some t \<Rightarrow> (case rm p t of None \<Rightarrow> ddel p fs | Some t' \<Rightarrow> dput p t' fs))"

definition empty_tree :: "'e tree" where
  "empty_tree = \<lparr>tr_info = None, tr_episodes = [], tr_files = []\<rparr>"

definition os_replace :: "py_error option \<Rightarrow> string \<Rightarrow> string \<Rightarrow> 'e disk \<Rightarrow> unit res \<times> 'e disk" where
  "os_replace fails src dst fs =
     (case (fails, dget fs src) of
        (Some e, _) \<Rightarrow> (Inl e, fs)
      | (None, None) \<Rightarrow> (Inl FileNotFoundError, fs)
      | (None, Some t) \<Rightarrow>
          if dget fs dst = None \<or> dget fs dst = Some empty_tree then (Inr (), dput dst t (ddel src fs)) else (Inl OSError, fs))"

definition delete_dataset :: "'e rm \<Rightarrow> dataset_info \<Rightarrow> 'e disk \<Rightarrow> 'e disk" where
  "delete_dataset rm ds fs = rmtree rm (dt_path ds) fs"

datatype delete_result = DatasetRemoved | Reindexed

text \<open>
  What a deletion meets. \<open>rebuild\<close> loads the dataset and runs LeRobot's \<open>delete_episodes\<close> on it, given what is in the output directory: the rebuilt
  tree there, or an exception and what is then in the output directory.
\<close>

record 'e delete_world =
  dw_rm_before :: "'e rm"
  dw_rebuild :: "'e tree option \<Rightarrow> int list \<Rightarrow> 'e tree option \<Rightarrow> (py_error \<times> 'e tree option) + 'e tree"
  dw_first :: "py_error option"
  dw_second :: "py_error option"
  dw_rm_after :: "'e rm"

definition editing_path :: "dataset_info \<Rightarrow> string" where
  "editing_path ds = dt_path ds @ ''.__editing__''"

definition backup_path :: "dataset_info \<Rightarrow> string" where
  "backup_path ds = dt_path ds @ ''.__old__''"

definition rebuild_into :: "'e delete_world \<Rightarrow> dataset_info \<Rightarrow> int list \<Rightarrow> 'e disk \<Rightarrow> unit res \<times> 'e disk" where
  "rebuild_into dw ds idx fs =
     (case dw_rebuild dw (dget fs (dt_path ds)) idx (dget fs (editing_path ds)) of
        Inl (e, None) \<Rightarrow> (Inl e, ddel (editing_path ds) fs)
      | Inl (e, Some part) \<Rightarrow> (Inl e, dput (editing_path ds) part fs)
      | Inr t' \<Rightarrow> (Inr (), dput (editing_path ds) t' fs))"

definition swap_in :: "'e delete_world \<Rightarrow> dataset_info \<Rightarrow> int list \<Rightarrow> 'e disk \<Rightarrow> unit res \<times> 'e disk" where
  "swap_in dw ds idx fs =
     (case rebuild_into dw ds idx fs of
        (Inl e, fs1) \<Rightarrow> (Inl e, fs1)
      | (Inr u, fs1) \<Rightarrow>
          (case os_replace (dw_first dw) (dt_path ds) (backup_path ds) fs1 of
             (Inl e, fs2) \<Rightarrow> (Inl e, fs2)
           | (Inr u, fs2) \<Rightarrow> os_replace (dw_second dw) (editing_path ds) (dt_path ds) fs2))"

text \<open>The part of a deletion that rebuilds, with its cleanup.\<close>

definition partial_delete :: "'e delete_world \<Rightarrow> dataset_info \<Rightarrow> int list \<Rightarrow> 'e disk \<Rightarrow> delete_result res \<times> 'e disk" where
  "partial_delete dw ds idx fs =
     (let fs0 = rmtree (dw_rm_before dw) (backup_path ds) (rmtree (dw_rm_before dw) (editing_path ds) fs) in
      case swap_in dw ds idx fs0 of (r, fs1) \<Rightarrow>
        (rbind r (\<lambda>u. Inr Reindexed),
         rmtree (dw_rm_after dw) (backup_path ds) (rmtree (dw_rm_after dw) (editing_path ds) fs1)))"

definition delete_episodes :: "'e delete_world \<Rightarrow> dataset_info \<Rightarrow> int list \<Rightarrow> 'e disk \<Rightarrow> delete_result res \<times> 'e disk" where
  "delete_episodes dw ds sel fs =
     (let idx = sort (remdups sel); n = dt_num_episodes ds in
      if idx = [] then (Inl ValueError, fs)
      else if \<not> list_all (\<lambda>i. 0 \<le> i \<and> i < n) idx then (Inl ValueError, fs)
      else if int (length idx) \<ge> n then (Inr DatasetRemoved, rmtree (dw_rm_before dw) (dt_path ds) fs)
      else partial_delete dw ds idx fs)"

section \<open>Downloads\<close>

record published_file =
  pb_path :: string
  pb_filename :: string
  pb_type :: string

record download_server =
  dl_by_token :: "(string, published_file) dict"
  dl_token_by_file :: "(string \<times> string, string) dict"

fun split_slash :: "string \<Rightarrow> string list" where
  "split_slash [] = [[]]"
| "split_slash (c # cs) =
     (if c = CHR ''/'' then [] # split_slash cs else case split_slash cs of [] \<Rightarrow> [[c]] | e # es \<Rightarrow> (c # e) # es)"

definition path_name :: "string \<Rightarrow> string" where
  "path_name s = (case rev (filter (\<lambda>p. p \<noteq> [] \<and> p \<noteq> ''.'') (split_slash s)) of [] \<Rightarrow> [] | p # ps \<Rightarrow> p)"

text \<open>\<open>re.sub (r"-+\.", ".", name)\<close>: a run of dashes goes when a dot follows it.\<close>

fun drop_dashes :: "string \<Rightarrow> string" where
  "drop_dashes [] = []"
| "drop_dashes (c # cs) =
     (if c = CHR ''-'' \<and> (case dropWhile (\<lambda>d. d = CHR ''-'') cs of [] \<Rightarrow> False | d # ds \<Rightarrow> d = CHR ''.'')
      then drop_dashes cs else c # drop_dashes cs)"

definition safe_filename :: "string \<Rightarrow> string" where
  "safe_filename nm = or_else (drop_dashes (strip_ends (sub_unsafe (path_name nm)))) ''download''"

fun the_default :: "'a \<Rightarrow> 'a option \<Rightarrow> 'a" where
  "the_default d None = d"
| "the_default d (Some x) = x"

text \<open>\<open>resolved\<close>: the resolved path of an existing file, or an exception; \<open>fresh\<close>: the token drawn if one is needed; \<open>guess\<close>: the type guessed for a name.\<close>

definition register :: "string res \<Rightarrow> bool \<Rightarrow> string \<Rightarrow> string option \<Rightarrow> (string \<Rightarrow> string option) \<Rightarrow> string \<Rightarrow> download_server
    \<Rightarrow> (string \<times> string) res \<times> download_server" where
  "register resolved is_file nm content_type guess fresh sv =
     (case resolved of
        Inl e \<Rightarrow> (Inl e, sv)
      | Inr path \<Rightarrow>
          if \<not> is_file then (Inl ValueError, sv)
          else let safe = safe_filename nm in
            case dget (dl_token_by_file sv) (path, safe) of
              Some token \<Rightarrow> (Inr (token, safe), sv)
            | None \<Rightarrow>
                let ty = or_else (or_else (the_default [] content_type) (the_default [] (guess safe))) ''application/octet-stream'' in
                (Inr (fresh, safe), \<lparr>dl_by_token = dput fresh \<lparr>pb_path = path, pb_filename = safe, pb_type = ty\<rparr> (dl_by_token sv),
                   dl_token_by_file = dput (path, safe) fresh (dl_token_by_file sv)\<rparr>))"

definition strip_slashes :: "string \<Rightarrow> string" where
  "strip_slashes s = (let p = (\<lambda>c. c = CHR ''/'') in rev (dropWhile p (rev (dropWhile p s))))"

definition request_token :: "string \<Rightarrow> string" where
  "request_token url_path =
     (case split_slash (strip_slashes url_path) of a # b # rest \<Rightarrow> if a = ''download'' then b else [] | _ \<Rightarrow> [])"

text \<open>The path of the URL that is handed out; quoting leaves a safe name as it is.\<close>

definition download_url :: "string \<Rightarrow> string \<Rightarrow> string" where
  "download_url token safe = ''/download/'' @ token @ ''/'' @ safe"

text \<open>A request's answer: the file and its headers, or 404. \<open>readable\<close>: whether the file can still be opened.\<close>

datatype answer = NotFound | Serve published_file

definition serve :: "(string \<Rightarrow> bool) \<Rightarrow> string \<Rightarrow> download_server \<Rightarrow> answer" where
  "serve readable url_path sv =
     (case dget (dl_by_token sv) (request_token url_path) of
        None \<Rightarrow> NotFound
      | Some item \<Rightarrow> if readable (pb_path item) then Serve item else NotFound)"

section \<open>What deletion leaves\<close>

text \<open>The episodes that are kept: those whose index was not selected, in order.\<close>

definition kept :: "int list \<Rightarrow> 'e list \<Rightarrow> 'e list" where
  "kept idx es = map snd (filter (\<lambda>(i, e). int i \<notin> set idx) (enumerate 0 es))"

definition rebuild_ok :: "'e delete_world \<Rightarrow> bool" where
  "rebuild_ok dw \<longleftrightarrow> (\<forall>t idx out t'. dw_rebuild dw (Some t) idx out = Inr t' \<longrightarrow> tr_episodes t' = kept idx (tr_episodes t))"

lemma paths_distinct [simp]:
  "editing_path ds \<noteq> dt_path ds" "dt_path ds \<noteq> editing_path ds" "backup_path ds \<noteq> dt_path ds" "dt_path ds \<noteq> backup_path ds"
  "editing_path ds \<noteq> backup_path ds" "backup_path ds \<noteq> editing_path ds"
  by (simp_all add: editing_path_def backup_path_def)

lemma rmtree_other [simp]: "p \<noteq> q \<Longrightarrow> dget (rmtree rm q fs) p = dget fs p"
  by (auto simp: rmtree_def split: option.splits)

lemma rmtree_same: "dget (rmtree rm p fs) p = Option.bind (dget fs p) (rm p)"
  by (auto simp: rmtree_def split: option.splits)

lemma os_replace_other: "os_replace f a b fs = (r, fs') \<Longrightarrow> p \<noteq> a \<Longrightarrow> p \<noteq> b \<Longrightarrow> dget fs' p = dget fs p"
  by (auto simp: os_replace_def split: option.splits if_splits)

lemma os_replace_failed: "os_replace f a b fs = (Inl e, fs') \<Longrightarrow> fs' = fs"
  by (auto simp: os_replace_def split: option.splits if_splits)

lemma os_replace_moved:
  "os_replace f a b fs = (Inr u, fs') \<Longrightarrow> a \<noteq> b \<Longrightarrow> f = None \<and> dget fs' b = dget fs a \<and> dget fs a \<noteq> None \<and> dget fs' a = None"
  by (auto simp: os_replace_def split: option.splits if_splits)

lemma os_replace_free: "f = None \<Longrightarrow> dget fs a = Some t \<Longrightarrow> dget fs b = None \<Longrightarrow> os_replace f a b fs = (Inr (), dput b t (ddel a fs))"
  by (simp add: os_replace_def)

lemma rebuild_into_other: "rebuild_into dw ds idx fs = (r, fs') \<Longrightarrow> p \<noteq> editing_path ds \<Longrightarrow> dget fs' p = dget fs p"
  by (auto simp: rebuild_into_def split: sum.splits option.splits)

lemma rebuild_into_ok:
  "rebuild_into dw ds idx fs = (Inr u, fs') \<Longrightarrow>
     \<exists>t'. dw_rebuild dw (dget fs (dt_path ds)) idx (dget fs (editing_path ds)) = Inr t' \<and> dget fs' (editing_path ds) = Some t'"
  by (auto simp: rebuild_into_def split: sum.splits option.splits)

lemma swap_in_other:
  assumes "swap_in dw ds idx fs = (r, fs')" and "p \<noteq> dt_path ds" and "p \<noteq> editing_path ds" and "p \<noteq> backup_path ds"
  shows "dget fs' p = dget fs p"
proof -
  obtain r1 fs1 where 1: "rebuild_into dw ds idx fs = (r1, fs1)" by (meson surj_pair)
  have o1: "dget fs1 p = dget fs p" using rebuild_into_other[OF 1] assms(3) by simp
  obtain r2 fs2 where 2: "os_replace (dw_first dw) (dt_path ds) (backup_path ds) fs1 = (r2, fs2)" by (meson surj_pair)
  have o2: "dget fs2 p = dget fs1 p" using os_replace_other[OF 2] assms by simp
  have o3: "dget fs3 p = dget fs2 p" if "os_replace (dw_second dw) (editing_path ds) (dt_path ds) fs2 = (r3, fs3)" for r3 fs3
    using os_replace_other[OF that] assms by simp
  show ?thesis using assms(1) 1 2 o1 o2 o3 by (auto simp: swap_in_def split: sum.splits)
qed

text \<open>The three ways out of the rebuild and the two replaces.\<close>

lemma swap_in_cases:
  assumes "swap_in dw ds idx fs = (r, fs')" and path: "dget fs (dt_path ds) = Some t"
  obtains
    (kept) e where "r = Inl e" "dget fs' (dt_path ds) = Some t"
  | (swapped) t' where "r = Inr ()" "dw_rebuild dw (Some t) idx (dget fs (editing_path ds)) = Inr t'" "dget fs' (dt_path ds) = Some t'"
  | (stranded) e where "r = Inl e" "dw_first dw = None" "dw_second dw = Some e" "dget fs' (dt_path ds) = None" "dget fs' (backup_path ds) = Some t"
proof -
  obtain r1 fs1 where 1: "rebuild_into dw ds idx fs = (r1, fs1)" by (meson surj_pair)
  have p1: "dget fs1 (dt_path ds) = Some t" using rebuild_into_other[OF 1] path by simp
  obtain r2 fs2 where 2: "os_replace (dw_first dw) (dt_path ds) (backup_path ds) fs1 = (r2, fs2)" by (meson surj_pair)
  obtain r3 fs3 where 3: "os_replace (dw_second dw) (editing_path ds) (dt_path ds) fs2 = (r3, fs3)" by (meson surj_pair)
  show thesis
  proof (cases r1)
    case (Inl e)
    then show thesis using assms(1) 1 p1 that(1) by (auto simp: swap_in_def)
  next
    case r1: (Inr u)
    obtain t' where t': "dw_rebuild dw (Some t) idx (dget fs (editing_path ds)) = Inr t'" "dget fs1 (editing_path ds) = Some t'"
      using rebuild_into_ok[of dw ds idx fs u fs1] 1 r1 path by auto
    show thesis
    proof (cases r2)
      case (Inl e)
      then have "fs2 = fs1" using os_replace_failed 2 by blast
      then show thesis using assms(1) 1 2 r1 p1 Inl that(1) by (auto simp: swap_in_def)
    next
      case r2: (Inr u2)
      have m: "dw_first dw = None" "dget fs2 (backup_path ds) = Some t" "dget fs2 (dt_path ds) = None"
        using os_replace_moved[of _ _ _ _ u2 fs2] 2 r2 p1 by auto
      have e2: "dget fs2 (editing_path ds) = Some t'" using os_replace_other[OF 2] t'(2) by simp
      have res: "r = r3" "fs' = fs3" using assms(1) 1 2 3 r1 r2 by (auto simp: swap_in_def)
      show thesis
      proof (cases "dw_second dw")
        case None
        then show thesis using os_replace_free[OF None e2 m(3)] 3 res t'(1) that(2) by auto
      next
        case (Some e)
        then have "r3 = Inl e" "fs3 = fs2" using 3 by (auto simp: os_replace_def)
        then show thesis using that(3) res m Some by simp
      qed
    qed
  qed
qed

lemma partial_delete_other:
  assumes "partial_delete dw ds idx fs = (r, fs')" and "p \<noteq> dt_path ds" and "p \<noteq> editing_path ds" and "p \<noteq> backup_path ds"
  shows "dget fs' p = dget fs p"
proof -
  define fs0 where "fs0 = rmtree (dw_rm_before dw) (backup_path ds) (rmtree (dw_rm_before dw) (editing_path ds) fs)"
  obtain q fs1 where sw: "swap_in dw ds idx fs0 = (q, fs1)" by (meson surj_pair)
  have "dget fs1 p = dget fs0 p" by (rule swap_in_other[OF sw assms(2-4)])
  moreover have "fs' = rmtree (dw_rm_after dw) (backup_path ds) (rmtree (dw_rm_after dw) (editing_path ds) fs1)"
    using assms(1) sw by (simp add: partial_delete_def Let_def fs0_def)
  ultimately show ?thesis using assms(3,4) by (simp add: fs0_def)
qed

lemma partial_delete_cases:
  assumes "partial_delete dw ds idx fs = (r, fs')" and path: "dget fs (dt_path ds) = Some t"
  obtains
    (kept) e where "r = Inl e" "dget fs' (dt_path ds) = Some t"
  | (swapped) t' out where "r = Inr Reindexed" "dw_rebuild dw (Some t) idx out = Inr t'" "dget fs' (dt_path ds) = Some t'"
  | (stranded) e where "r = Inl e" "dw_first dw = None" "dw_second dw = Some e" "dget fs' (dt_path ds) = None"
      "dget fs' (backup_path ds) = dw_rm_after dw (backup_path ds) t"
proof -
  define fs0 where "fs0 = rmtree (dw_rm_before dw) (backup_path ds) (rmtree (dw_rm_before dw) (editing_path ds) fs)"
  have p0: "dget fs0 (dt_path ds) = Some t" using path by (simp add: fs0_def)
  obtain q fs1 where sw: "swap_in dw ds idx fs0 = (q, fs1)" by (meson surj_pair)
  have res: "r = rbind q (\<lambda>u. Inr Reindexed)" "fs' = rmtree (dw_rm_after dw) (backup_path ds) (rmtree (dw_rm_after dw) (editing_path ds) fs1)"
    using assms(1) sw by (simp_all add: partial_delete_def Let_def fs0_def)
  have same: "dget fs' (dt_path ds) = dget fs1 (dt_path ds)" by (simp add: res(2))
  show thesis
  proof (cases rule: swap_in_cases[OF sw p0])
    case (1 e) then show thesis using that(1) res same by simp
  next
    case (2 t') then show thesis using that(2) res same by simp
  next
    case (3 e) then show thesis using that(3)[of e] res same by (simp add: rmtree_same)
  qed
qed

lemma all_selected:
  assumes "list_all (\<lambda>i. 0 \<le> i \<and> i < n) (sort (remdups sel))" and "int (length (sort (remdups sel))) \<ge> n"
  shows "set sel = {0..<n::int}"
proof (rule card_subset_eq)
  show "set sel \<subseteq> {0..<n}" using assms(1) by (auto simp: list_all_iff)
  then have "card (set sel) \<le> nat n" using card_mono[of "{0..<n}" "set sel"] by simp
  moreover have "nat n \<le> card (set sel)" using assms(2) by (simp add: length_remdups_card_conv)
  ultimately show "card (set sel) = card {0..<n}" by simp
qed simp

lemma delete_episodes_cases:
  assumes "delete_episodes dw ds sel fs = (r, fs')"
  obtains
    (refused) "r = Inl ValueError" "fs' = fs" "sel = [] \<or> (\<exists>i\<in>set sel. i < 0 \<or> dt_num_episodes ds \<le> i)"
  | (everything) "r = Inr DatasetRemoved" "fs' = rmtree (dw_rm_before dw) (dt_path ds) fs" "sel \<noteq> []" "set sel = {0..<dt_num_episodes ds}"
  | (some) "partial_delete dw ds (sort (remdups sel)) fs = (r, fs')" "sel \<noteq> []" "set sel \<subset> {0..<dt_num_episodes ds}"
proof (cases "sel = [] \<or> (\<exists>i\<in>set sel. i < 0 \<or> dt_num_episodes ds \<le> i)")
  case True
  then have "\<not> list_all (\<lambda>i. 0 \<le> i \<and> i < dt_num_episodes ds) (sort (remdups sel)) \<or> sort (remdups sel) = []"
    by (auto simp: list_all_iff not_le not_less)
  then show thesis using assms True refused by (auto simp: delete_episodes_def Let_def split: if_splits)
next
  case False
  then have rng: "list_all (\<lambda>i. 0 \<le> i \<and> i < dt_num_episodes ds) (sort (remdups sel))"
    by (auto simp: list_all_iff not_le not_less)
  have ne: "sel \<noteq> []" "sort (remdups sel) \<noteq> []" using False by (auto simp flip: set_empty)
  have sub: "set sel \<subseteq> {0..<dt_num_episodes ds}" using False by (auto simp: not_le not_less)
  show thesis
  proof (cases "int (length (sort (remdups sel))) \<ge> dt_num_episodes ds")
    case True
    then show thesis using assms rng ne all_selected[OF rng True] everything by (simp add: delete_episodes_def Let_def)
  next
    case few: False
    have "length (sort (remdups sel)) = nat (dt_num_episodes ds)" if "set sel = {0..<dt_num_episodes ds}"
      using that by (simp add: length_remdups_card_conv)
    then have "set sel \<noteq> {0..<dt_num_episodes ds}" using few by linarith
    then show thesis using assms rng ne few sub some by (simp add: delete_episodes_def Let_def psubset_eq)
  qed
qed

text \<open>
  C16. What deleting episodes leaves, when LeRobot's rebuild keeps exactly the episodes not selected: no folder but the dataset's own and its two siblings
  changes; a selection that is empty or out of range changes nothing; the folder goes only when every episode of the listing was selected; a
  deletion that reports success left the other episodes, in order; and one that raises left the dataset as it was, unless the second
  rename failed after the first.
\<close>

theorem delete_keeps_the_rest:
  assumes "dget fs (dt_path ds) = Some t" and "rebuild_ok dw" and "delete_episodes dw ds sel fs = (r, fs')"
  shows "(\<forall>p. p \<notin> {dt_path ds, editing_path ds, backup_path ds} \<longrightarrow> dget fs' p = dget fs p)
     \<and> (case r of
          Inr DatasetRemoved \<Rightarrow> set sel = {0..<dt_num_episodes ds} \<and> dget fs' (dt_path ds) = dw_rm_before dw (dt_path ds) t
        | Inr Reindexed \<Rightarrow> (\<exists>t'. dget fs' (dt_path ds) = Some t' \<and> tr_episodes t' = kept sel (tr_episodes t))
        | Inl e \<Rightarrow> dget fs' (dt_path ds) = Some t \<or> dw_first dw = None \<and> dw_second dw = Some e \<and> dget fs' (dt_path ds) = None)
     \<and> (sel = [] \<or> (\<exists>i\<in>set sel. i < 0 \<or> dt_num_episodes ds \<le> i) \<longrightarrow> r = Inl ValueError \<and> fs' = fs)"
proof (cases rule: delete_episodes_cases[OF assms(3)])
  case 1
  then show ?thesis using assms(1) by simp
next
  case 2
  then show ?thesis using assms(1) by (auto simp: rmtree_same)
next
  case 3
  have other: "\<forall>p. p \<notin> {dt_path ds, editing_path ds, backup_path ds} \<longrightarrow> dget fs' p = dget fs p"
    using partial_delete_other[OF 3(1)] by simp
  have valid: "\<not> (sel = [] \<or> (\<exists>i\<in>set sel. i < 0 \<or> dt_num_episodes ds \<le> i))" using 3(2,3) by fastforce
  show ?thesis
  proof (cases rule: partial_delete_cases[OF 3(1) assms(1)])
    case (1 e) then show ?thesis using other valid by simp
  next
    case (2 t' out)
    have "tr_episodes t' = kept sel (tr_episodes t)" using assms(2) 2(2) by (simp add: rebuild_ok_def kept_def)
    then show ?thesis using other valid 2 by simp
  next
    case (3 e) then show ?thesis using other valid by simp
  qed
qed

definition demo_ds :: dataset_info where
  "demo_ds = \<lparr>dt_repo_id = ''dfc/pick'', dt_path = ''dfc/pick'', dt_num_episodes = 3, dt_num_frames = 30, dt_fps = 10, dt_video_keys = [],
     dt_size_bytes = 0\<rparr>"

definition demo_tree :: "nat list \<Rightarrow> nat tree" where
  "demo_tree es = \<lparr>tr_info = None, tr_episodes = es, tr_files = []\<rparr>"

definition demo_disk :: "nat disk" where
  "demo_disk = [(''dfc/pick'', demo_tree [10, 11, 12]), (''dfc/place'', demo_tree [20])]"

definition demo_dw :: "py_error option \<Rightarrow> nat delete_world" where
  "demo_dw second = \<lparr>dw_rm_before = (\<lambda>p t. None),
     dw_rebuild = (\<lambda>t idx out. case t of None \<Rightarrow> Inl (FileNotFoundError, None) | Some t \<Rightarrow> Inr (t\<lparr>tr_episodes := kept idx (tr_episodes t)\<rparr>)),
     dw_first = None, dw_second = second, dw_rm_after = (\<lambda>p t. None)\<rparr>"

lemma demo_dw_ok: "rebuild_ok (demo_dw second)"
  by (auto simp: rebuild_ok_def demo_dw_def)

lemma delete_keeps_the_rest_witness:
  "dget (snd (delete_episodes (demo_dw None) demo_ds [1] demo_disk)) ''dfc/pick'' = Some (demo_tree [10, 12])
     \<and> dget (snd (delete_episodes (demo_dw None) demo_ds [1] demo_disk)) ''dfc/place'' = dget demo_disk ''dfc/place''"
proof -
  have path: "dget demo_disk (dt_path demo_ds) = Some (demo_tree [10, 11, 12])" by (simp add: demo_disk_def demo_ds_def)
  have run: "delete_episodes (demo_dw None) demo_ds [1] demo_disk = (Inr Reindexed, [(''dfc/place'', demo_tree [20]), (''dfc/pick'', demo_tree [10, 12])])"
    by code_simp
  note R = delete_keeps_the_rest[OF path demo_dw_ok run]
  have "dget [(''dfc/place'', demo_tree [20]), (''dfc/pick'', demo_tree [10, 12])] ''dfc/place'' = dget demo_disk ''dfc/place''"
    using spec[OF conjunct1[OF R], of "''dfc/place''"] by (simp add: demo_ds_def editing_path_def backup_path_def)
  then show ?thesis by (simp add: run)
qed

text \<open>
  C40. A failed swap loses the dataset: when the rebuild succeeds, the first rename moves the dataset aside and the second one fails, the cleanup removes the
  rebuilt copy and the one that was moved aside, and nothing of the dataset is left under any of the three names.
\<close>

theorem failed_swap_loses_dataset:
  assumes "dget fs (dt_path ds) = Some t" and "sel \<noteq> []" and "set sel \<subset> {0..<dt_num_episodes ds}"
    and "dw_rebuild dw (Some t) (sort (remdups sel)) None = Inr t'" and "dw_first dw = None" and "dw_second dw = Some e"
    and "\<And>p u. dw_rm_before dw p u = None" and "\<And>p u. dw_rm_after dw p u = None"
    and "delete_episodes dw ds sel fs = (r, fs')"
  shows "r = Inl e \<and> dget fs' (dt_path ds) = None \<and> dget fs' (backup_path ds) = None \<and> dget fs' (editing_path ds) = None"
proof -
  have "partial_delete dw ds (sort (remdups sel)) fs = (r, fs')"
    using assms(2,3) by (cases rule: delete_episodes_cases[OF assms(9)]) (auto simp: subset_iff)
  moreover have "Option.bind o1 (dw_rm_before dw p) = None" "Option.bind o1 (dw_rm_after dw p) = None" for o1 p
    using assms(7,8) by (cases o1; simp)+
  ultimately show ?thesis using assms(1,4-6)
    by (auto simp: partial_delete_def swap_in_def rebuild_into_def rmtree_same os_replace_def Let_def)
qed

lemma failed_swap_loses_dataset_witness:
  "dget demo_disk ''dfc/pick'' \<noteq> None
     \<and> dget (snd (delete_episodes (demo_dw (Some OSError)) demo_ds [1] demo_disk)) ''dfc/pick'' = None
     \<and> dget (snd (delete_episodes (demo_dw (Some OSError)) demo_ds [1] demo_disk)) ''dfc/pick.__old__'' = None"
proof -
  have path: "dget demo_disk (dt_path demo_ds) = Some (demo_tree [10, 11, 12])" by (simp add: demo_disk_def demo_ds_def)
  obtain r fs' where run: "delete_episodes (demo_dw (Some OSError)) demo_ds [1] demo_disk = (r, fs')" by (meson surj_pair)
  have sub: "set [1] \<subset> {0..<dt_num_episodes demo_ds}" by (auto simp: demo_ds_def psubset_eq set_eq_iff intro!: exI[of _ 0])
  have "r = Inl OSError \<and> dget fs' (dt_path demo_ds) = None \<and> dget fs' (backup_path demo_ds) = None \<and> dget fs' (editing_path demo_ds) = None"
    by (rule failed_swap_loses_dataset[OF path _ sub _ _ _ _ _ run, where t' = "demo_tree [10, 12]"]) (simp_all add: demo_dw_def demo_tree_def kept_def)
  then show ?thesis using path run by (simp add: demo_ds_def backup_path_def)
qed

section \<open>Discovery\<close>

lemma read_each_set:
  "set (read_each of_text fs) = {ds. \<exists>p t doc. (p, t) \<in> set fs \<and> tr_info t = Some doc \<and> read_dataset of_text p p doc (tr_files t) = Inr ds}"
proof -
  have "ds \<in> set (read_each of_text fs) \<longleftrightarrow>
      (\<exists>x\<in>set fs. case tr_info (snd x) of None \<Rightarrow> False | Some doc \<Rightarrow> read_dataset of_text (fst x) (fst x) doc (tr_files (snd x)) = Inr ds)" for ds
    by (induction fs) (auto split: option.splits sum.splits)
  then show ?thesis by (fastforce split: option.splits)
qed

lemma read_each_append: "read_each of_text (xs @ ys) = read_each of_text xs @ read_each of_text ys"
  by (induction xs) (auto split: option.splits sum.splits)

text \<open>Discovery lists exactly the datasets whose information can be read, in the order of their repository ids, and a folder that is broken or is no
  dataset hides none of the others.\<close>

theorem discovery_complete:
  "set (discover_datasets of_text True fs)
       = {ds. \<exists>p t doc. (p, t) \<in> set fs \<and> tr_info t = Some doc \<and> read_dataset of_text p p doc (tr_files t) = Inr ds}
     \<and> sorted (map dt_repo_id (discover_datasets of_text True fs))
     \<and> discover_datasets of_text True (fs1 @ (p, t\<lparr>tr_info := Some (Inl e)\<rparr>) # fs2) = discover_datasets of_text True (fs1 @ fs2)"
  by (simp add: discover_datasets_def read_each_set read_each_append read_dataset_def)

section \<open>What the download server serves\<close>

lemma sub_unsafe_safe: "list_all safe_name_char (sub_unsafe s)"
  by (induction s rule: sub_unsafe.induct) (auto simp: safe_name_char_def)

lemma strip_ends_set: "set (strip_ends s) \<subseteq> set s"
  by (auto simp: strip_ends_def Let_def dest!: set_dropWhileD)

lemma drop_dashes_set: "set (drop_dashes s) \<subseteq> set s"
  by (induction s) auto

lemma safe_filename_safe: "list_all safe_name_char (safe_filename nm)" "safe_filename nm \<noteq> []"
proof -
  have "list_all safe_name_char (drop_dashes (strip_ends (sub_unsafe (path_name nm))))"
    using sub_unsafe_safe drop_dashes_set strip_ends_set by (fastforce simp: list_all_iff)
  moreover have "list_all safe_name_char ''download''" by code_simp
  ultimately show "list_all safe_name_char (safe_filename nm)" by (simp add: safe_filename_def or_else_def)
  show "safe_filename nm \<noteq> []" by (simp add: safe_filename_def or_else_def)
qed

lemma split_slash_plain: "CHR ''/'' \<notin> set s \<Longrightarrow> split_slash s = [s]"
  by (induction s) auto

lemma split_slash_cons: "CHR ''/'' \<notin> set s \<Longrightarrow> split_slash (s @ CHR ''/'' # t) = s # split_slash t"
  by (induction s) auto

lemma strip_slashes_url:
  assumes "CHR ''/'' \<notin> set safe" and "safe \<noteq> []"
  shows "strip_slashes (download_url token safe) = ''download/'' @ token @ ''/'' @ safe"
proof -
  obtain c cs where rev: "rev safe = c # cs" using assms(2) by (cases "rev safe") auto
  then have "c \<noteq> CHR ''/''" using assms(1) by (metis list.set_intros(1) set_rev)
  then show ?thesis using rev by (simp add: strip_slashes_def download_url_def Let_def)
qed

lemma request_token_url:
  assumes "CHR ''/'' \<notin> set token" and "CHR ''/'' \<notin> set safe" and "safe \<noteq> []"
  shows "request_token (download_url token safe) = token"
proof -
  have "split_slash (''download/'' @ token @ ''/'' @ safe) = [''download'', token, safe]"
    using split_slash_cons[of "''download''"] split_slash_cons[OF assms(1)] split_slash_plain[OF assms(2)] by simp
  then show ?thesis by (simp add: request_token_def strip_slashes_url[OF assms(2,3)])
qed

text \<open>The two dictionaries agree, and the tokens can stand in a URL.\<close>

definition dl_ok :: "download_server \<Rightarrow> bool" where
  "dl_ok sv \<longleftrightarrow>
     (\<forall>path safe token. dget (dl_token_by_file sv) (path, safe) = Some token \<longrightarrow>
        CHR ''/'' \<notin> set token \<and> (\<exists>item. dget (dl_by_token sv) token = Some item \<and> pb_path item = path \<and> pb_filename item = safe))
   \<and> (\<forall>token item. dget (dl_by_token sv) token = Some item \<longrightarrow> list_all safe_name_char (pb_filename item) \<and> pb_filename item \<noteq> [])"

lemma register_ok:
  assumes "dl_ok sv" and "CHR ''/'' \<notin> set fresh" and "dget (dl_by_token sv) fresh = None"
    and "register (Inr path) True nm ct guess fresh sv = (Inr (token, safe), sv')"
  shows "dl_ok sv'" "safe = safe_filename nm" "dget (dl_token_by_file sv') (path, safe) = Some token"
    "token = fresh \<or> sv' = sv"
    "\<And>u item. dget (dl_by_token sv) u = Some item \<Longrightarrow> dget (dl_by_token sv') u = Some item"
    "\<And>u item. dget (dl_by_token sv') u = Some item \<Longrightarrow> dget (dl_by_token sv) u = Some item \<or> u = token \<and> pb_path item = path \<and> pb_filename item = safe"
proof -
  show safe: "safe = safe_filename nm" using assms(4) by (auto simp: register_def Let_def split: option.splits)
  consider (old) "dget (dl_token_by_file sv) (path, safe) = Some token" "sv' = sv"
    | (new) item where "token = fresh" "pb_path item = path" "pb_filename item = safe"
        "dl_by_token sv' = dput fresh item (dl_by_token sv)" "dl_token_by_file sv' = dput (path, safe) fresh (dl_token_by_file sv)"
  proof (cases "dget (dl_token_by_file sv) (path, safe)")
    case None
    define item where "item = \<lparr>pb_path = path, pb_filename = safe, pb_type =
      or_else (or_else (the_default [] ct) (the_default [] (guess safe))) ''application/octet-stream''\<rparr>"
    show thesis by (rule new[of item]) (use assms(4) safe None in \<open>auto simp: register_def Let_def item_def\<close>)
  next
    case (Some tok)
    then show thesis using old assms(4) safe by (simp add: register_def Let_def)
  qed
  note C = this
  show "dget (dl_token_by_file sv') (path, safe) = Some token" using C by cases auto
  show "token = fresh \<or> sv' = sv" using C by cases auto
  show "dget (dl_by_token sv') u = Some item" if "dget (dl_by_token sv) u = Some item" for u item
    using C that assms(3) by cases auto
  show "dget (dl_by_token sv) u = Some item \<or> u = token \<and> pb_path item = path \<and> pb_filename item = safe"
    if "dget (dl_by_token sv') u = Some item" for u item using C that by cases (auto split: if_splits)
  show "dl_ok sv'" using C
  proof cases
    case old then show ?thesis using assms(1) by simp
  next
    case (new item)
    have "dget (dl_by_token sv') u = Some i" if "dget (dl_by_token sv) u = Some i" for u i
      using new(4) that assms(3) by auto
    then show ?thesis using assms(1,2) new safe_filename_safe[of nm] safe unfolding dl_ok_def
      by (auto split: if_splits) (metis option.distinct(1) assms(3))+
  qed
qed

lemma no_slash_safe: "list_all safe_name_char s \<Longrightarrow> CHR ''/'' \<notin> set s"
  by (auto simp: list_all_iff safe_name_char_def safe_char_def)

text \<open>Publishing a file makes the URL that is returned serve exactly that file, as long as it can be opened, under a non-empty name of safe characters;
  it takes nothing away from what was served, and makes nothing else reachable under any URL.\<close>

theorem published_is_served:
  assumes "dl_ok sv" and "CHR ''/'' \<notin> set fresh" and "dget (dl_by_token sv) fresh = None"
    and "register (Inr path) True nm ct guess fresh sv = (Inr (token, safe), sv')"
  shows "dl_ok sv' \<and> safe \<noteq> [] \<and> list_all safe_name_char safe
     \<and> (\<exists>item. pb_path item = path \<and> pb_filename item = safe
          \<and> serve readable (download_url token safe) sv' = (if readable path then Serve item else NotFound))
     \<and> (\<forall>u item. serve readable u sv = Serve item \<longrightarrow> serve readable u sv' = Serve item)
     \<and> (\<forall>u item. serve readable u sv' = Serve item \<longrightarrow> serve readable u sv = Serve item \<or> pb_path item = path \<and> pb_filename item = safe)"
proof (intro conjI)
  note reg = register_ok[OF assms]
  show ok: "dl_ok sv'" by (rule reg(1))
  show safe: "safe \<noteq> []" "list_all safe_name_char safe" using reg(2) safe_filename_safe[of nm] by simp_all
  obtain item where item: "CHR ''/'' \<notin> set token" "dget (dl_by_token sv') token = Some item" "pb_path item = path" "pb_filename item = safe"
    using ok reg(3) unfolding dl_ok_def by blast
  have "request_token (download_url token safe) = token"
    by (rule request_token_url[OF item(1) no_slash_safe[OF safe(2)] safe(1)])
  then show "\<exists>item. pb_path item = path \<and> pb_filename item = safe
      \<and> serve readable (download_url token safe) sv' = (if readable path then Serve item else NotFound)"
    using item by (auto simp: serve_def)
  show "\<forall>u item. serve readable u sv = Serve item \<longrightarrow> serve readable u sv' = Serve item"
    using reg(5) by (auto simp: serve_def split: option.splits if_splits)
  show "\<forall>u item. serve readable u sv' = Serve item \<longrightarrow> serve readable u sv = Serve item \<or> pb_path item = path \<and> pb_filename item = safe"
    using reg(6) by (auto simp: serve_def split: option.splits if_splits) (metis option.distinct(1) option.inject)+
qed

definition demo_served :: download_server where
  "demo_served = snd (register (Inr ''/data/a.mp4'') True ''../pick 1--.mp4'' None (\<lambda>nm. Some ''video/mp4'') ''tok'' \<lparr>dl_by_token = [], dl_token_by_file = []\<rparr>)"

lemma published_is_served_witness:
  "\<exists>item. pb_path item = ''/data/a.mp4'' \<and> pb_filename item = ''pick-1.mp4''
     \<and> serve (\<lambda>p. True) ''/download/tok/pick-1.mp4'' demo_served = Serve item"
proof -
  have ok: "dl_ok \<lparr>dl_by_token = [], dl_token_by_file = []\<rparr>" by (simp add: dl_ok_def)
  have run: "register (Inr ''/data/a.mp4'') True ''../pick 1--.mp4'' None (\<lambda>nm. Some ''video/mp4'') ''tok'' \<lparr>dl_by_token = [], dl_token_by_file = []\<rparr>
      = (Inr (''tok'', ''pick-1.mp4''), demo_served)" by code_simp
  have "\<exists>item. pb_path item = ''/data/a.mp4'' \<and> pb_filename item = ''pick-1.mp4''
      \<and> serve (\<lambda>p. True) (download_url ''tok'' ''pick-1.mp4'') demo_served = (if True then Serve item else NotFound)"
    using published_is_served[OF ok _ _ run, of "\<lambda>p. True"] by simp
  then show ?thesis by (simp add: download_url_def)
qed

end
