(* ===== verification/Calibration.thy ===== *)
theory Calibration
  imports Convention
begin

text \<open>
  Calibration of a leader arm (\<^verbatim>\<open>dashboard/calibration.py\<close>): sizing of offsets and poses, reading a leader, the per-joint capture, the solve of a whole
  convention from samples at the reference poses, the model home, and the write-back into the configuration. Shown: samples at the six reference poses
  determine the convention, so that the solved one converts every leader pose as the true one does; the model home is what the conversion gives;
  and the write-back changes one leader of the file or nothing.

  Angles are real numbers; \<open>arctan2\<close> is the argument of a complex number. What the client reads, rounding and the YAML library are arguments.
\<close>

section \<open>Sizes and reads\<close>

definition follower_dof :: "int option \<Rightarrow> joint_convention \<Rightarrow> nat" where
  "follower_dof server conv = nat (max 1 ((case server of None \<Rightarrow> 8 | Some dof \<Rightarrow> dof) - jc_drop_trailing conv))"

definition fit_length :: "nat \<Rightarrow> real list \<Rightarrow> real list" where
  "fit_length dof xs = take dof (xs @ replicate dof 0)"

definition initial_offsets :: "int option \<Rightarrow> joint_convention \<Rightarrow> real list" where
  "initial_offsets server conv = fit_length (follower_dof server conv) (jc_offsets_deg conv)"

definition median :: "real list \<Rightarrow> real" where
  "median xs =
     (let ys = sort xs; n = length xs in
      if odd n then ys ! (n div 2) else (ys ! (n div 2 - 1) + ys ! (n div 2)) / 2)"

text \<open>\<open>sides\<close> are those of the client, if one could be built; the reads are those of the calls, which end at the first that raises.\<close>

definition read_leader :: "string list option \<Rightarrow> real list res list \<Rightarrow> string \<Rightarrow> real list res" where
  "read_leader sides reads side =
     (case sides of
        None \<Rightarrow> Inl RuntimeError
      | Some ss \<Rightarrow>
          if side \<notin> set ss then Inl RuntimeError
          else rbind (mapR (\<lambda>r. r) reads) (\<lambda>rws.
            case rws of
              [] \<Rightarrow> Inl ValueError
            | q # qs \<Rightarrow>
                if \<not> list_all (\<lambda>p. length p = length q) qs then Inl ValueError
                else Inr (map (\<lambda>j. median (map (\<lambda>p. p ! j) rws)) [0..<length q])))"

definition arm_joints_deg :: "joint_convention \<Rightarrow> real list \<Rightarrow> real list" where
  "arm_joints_deg conv q = map degrees (drop_gripper conv q)"

definition read_leader_arm_deg :: "real list res \<Rightarrow> joint_convention \<Rightarrow> real list res" where
  "read_leader_arm_deg q conv = rbind q (\<lambda>q. Inr (arm_joints_deg conv q))"

definition read_gripper :: "real list res \<Rightarrow> real res" where
  "read_gripper q = rbind q (\<lambda>q. case rev q of [] \<Rightarrow> Inl IndexError | x # xs \<Rightarrow> Inr x)"

definition gripper_preview :: "joint_convention \<Rightarrow> real option \<Rightarrow> real option \<Rightarrow> (string \<times> real \<times> real) list option" where
  "gripper_preview dflt open_v closed_v =
     (case (open_v, closed_v) of
        (Some lo, Some hi) \<Rightarrow>
          if lo = hi then None
          else let conv = dflt\<lparr>jc_gripper_open := Some lo, jc_gripper_closed := Some hi\<rparr> in
            Some (map (\<lambda>(lab, raw). (lab, raw, normalize_gripper conv raw)) [(''open'', lo), (''mid'', (lo + hi) / 2), (''closed'', hi)])
      | _ \<Rightarrow> None)"

record joint_capture =
  cp_joint :: int
  cp_captured_deg :: real
  cp_offset_deg :: real

definition capture_joint :: "joint_convention \<Rightarrow> real list res \<Rightarrow> int \<Rightarrow> joint_capture res" where
  "capture_joint conv q joint =
     rbind q (\<lambda>q_leader.
       let offsets = offsets_from_straight_pose conv q_leader in
       if \<not> (0 \<le> joint \<and> joint < int (length offsets)) then Inl RuntimeError
       else Inr \<lparr>cp_joint = joint, cp_captured_deg = arm_joints_deg conv q_leader ! nat joint, cp_offset_deg = offsets ! nat joint\<rparr>)"

definition commanded_follower_q :: "joint_convention \<Rightarrow> real list res \<Rightarrow> real list \<Rightarrow> int list \<Rightarrow> real list res" where
  "commanded_follower_q conv q offsets_deg sign_flip_joints =
     rbind q (\<lambda>q. convert_factr_to_rizon (conv\<lparr>jc_offsets_deg := offsets_deg, jc_sign_flip_joints := sign_flip_joints\<rparr>) q)"

section \<open>The reference poses\<close>

definition REFERENCE_POSES :: "(string \<times> real list) list" where
  "REFERENCE_POSES =
     [(''Straight up'', [0, 0, 0, 0, 0, 0, 0]),
      (''Elbow bend'', [0, -90, 0, 90, 0, 90, 0]),
      (''Base roll'', [90, -90, 0, 90, 0, 90, 0]),
      (''Upper-arm roll'', [0, -90, 90, 90, 0, 90, 0]),
      (''Forearm roll'', [0, -90, 0, 90, 90, 90, 0]),
      (''Flange roll'', [0, -90, 0, 90, 0, 90, 90])]"

definition reference_poses :: "nat \<Rightarrow> (string \<times> real list) list" where
  "reference_poses dof = map (\<lambda>(name, q). (name, fit_length dof q)) REFERENCE_POSES"

section \<open>The solve\<close>

definition SIGN_TIE_EPS_DEG :: real where
  "SIGN_TIE_EPS_DEG = 1 / 10 ^ 6"

definition mean :: "real list \<Rightarrow> real" where
  "mean xs = sum_list xs / real (length xs)"

definition arctan2 :: "real \<Rightarrow> real \<Rightarrow> real" where
  "arctan2 y x = Arg (Complex x y)"

definition circular_mean_deg :: "real list \<Rightarrow> real" where
  "circular_mean_deg vals = degrees (arctan2 (mean (map (\<lambda>v. sin (radians v)) vals)) (mean (map (\<lambda>v. cos (radians v)) vals)))"

text \<open>The offsets the samples of one joint ask for under a sign, their circular mean, and the root mean square of the deviations.\<close>

definition estimates :: "real \<Rightarrow> (real \<times> real) list \<Rightarrow> real list" where
  "estimates sign xs = map (\<lambda>(leader, ref). wrap_deg (sign * ref - leader)) xs"

definition rms_deg :: "real list \<Rightarrow> real \<Rightarrow> real" where
  "rms_deg est off = sqrt (mean (map (\<lambda>e. (wrap_deg (e - off))\<^sup>2) est))"

definition fit_sign :: "real \<Rightarrow> (real \<times> real) list \<Rightarrow> real \<times> real" where
  "fit_sign sign xs = (let est = estimates sign xs; off = circular_mean_deg est in (off, rms_deg est off))"

record joint_fit =
  jf_sign :: real
  jf_offset :: real
  jf_residual :: real
  jf_ambiguous :: bool

definition solve_joint :: "bool \<Rightarrow> (real \<times> real) list \<Rightarrow> joint_fit" where
  "solve_joint fallback xs =
     (let plus = fit_sign 1 xs; minus = fit_sign (-1) xs;
          tie = \<bar>snd plus - snd minus\<bar> \<le> SIGN_TIE_EPS_DEG;
          sign = (if tie then (if fallback then -1 else 1) else if snd minus < snd plus then -1 else 1);
          fit = (if sign < 0 then minus else plus) in
      \<lparr>jf_sign = sign, jf_offset = fst fit, jf_residual = snd fit, jf_ambiguous = tie\<rparr>)"

record pose_fit =
  pf_offsets_deg :: "real list"
  pf_sign_flip_joints :: "nat list"
  pf_residuals_deg :: "real list"
  pf_ambiguous_joints :: "nat list"
  pf_n_samples :: nat

definition rectangular :: "real list list \<Rightarrow> bool" where
  "rectangular rws \<longleftrightarrow> list_all (\<lambda>r. length r = length (hd rws)) rws"

definition column :: "nat \<Rightarrow> (real list \<times> real list) list \<Rightarrow> (real \<times> real) list" where
  "column j pairs = map (\<lambda>(l, r). (l ! j, r ! j)) pairs"

definition solve_from_samples :: "(real list \<times> real list) list \<Rightarrow> int list \<Rightarrow> pose_fit res" where
  "solve_from_samples pairs fallback_flips =
     (if pairs = [] then Inl RuntimeError
      else if \<not> rectangular (map fst pairs) \<or> \<not> rectangular (map snd pairs) then Inl ValueError
      else if length (fst (hd pairs)) \<noteq> length (snd (hd pairs)) then Inl RuntimeError
      else let n = length (fst (hd pairs));
               fits = map (\<lambda>j. solve_joint (int j \<in> set fallback_flips) (column j pairs)) [0..<n] in
        Inr \<lparr>pf_offsets_deg = map jf_offset fits,
             pf_sign_flip_joints = filter (\<lambda>j. jf_sign (fits ! j) < 0) [0..<n],
             pf_residuals_deg = map jf_residual fits,
             pf_ambiguous_joints = filter (\<lambda>j. jf_ambiguous (fits ! j)) [0..<n],
             pf_n_samples = length pairs\<rparr>)"

text \<open>The captured samples by pose name; stale names and lengths are ignored.\<close>

fun pair_samples :: "(string, real list) dict \<Rightarrow> (string, real list) dict \<Rightarrow> (real list \<times> real list) list" where
  "pair_samples poses [] = []"
| "pair_samples poses ((name, q) # ss) =
     (case dget poses name of
        Some ref \<Rightarrow> if length q = length ref then (q, ref) # pair_samples poses ss else pair_samples poses ss
      | None \<Rightarrow> pair_samples poses ss)"

definition solve_pose_samples :: "nat \<Rightarrow> joint_convention \<Rightarrow> (string, real list) dict \<Rightarrow> pose_fit res" where
  "solve_pose_samples dof conv samples =
     (let pairs = pair_samples (reference_poses dof) samples in
      if pairs = [] then Inl RuntimeError else solve_from_samples pairs (jc_sign_flip_joints conv))"

section \<open>The model home\<close>

record model_home_fit =
  mh_home_q_rad :: "real list"
  mh_signs :: "real list"
  mh_target_q_rad :: "real list"

definition derived_offset_rad :: "model_home_fit \<Rightarrow> real list" where
  "derived_offset_rad m = map2 (-) (mh_target_q_rad m) (map2 (*) (mh_signs m) (mh_home_q_rad m))"

definition solve_model_home :: "real list \<Rightarrow> real list \<Rightarrow> int list \<Rightarrow> real list \<Rightarrow> real list \<Rightarrow> model_home_fit res" where
  "solve_model_home raw offsets sign_flip_joints signs target =
     (if \<not> (length raw = length offsets \<and> length offsets = length signs \<and> length signs = length target) then Inl RuntimeError
      else if \<not> list_all (\<lambda>s. s = -1 \<or> s = 1) signs then Inl RuntimeError
      else if \<not> list_all (\<lambda>j. 0 \<le> j \<and> j < int (length raw)) sign_flip_joints then Inl RuntimeError
      else Inr \<lparr>mh_home_q_rad = map (\<lambda>j. radians (wrap_deg ((if int j \<in> set sign_flip_joints then -1 else 1) * (raw ! j + offsets ! j)))) [0..<length raw],
                mh_signs = signs, mh_target_q_rad = target\<rparr>)"

definition current_model_signs :: "nat \<Rightarrow> real list option \<Rightarrow> real list res" where
  "current_model_signs dof signs =
     (let ss = (case signs of None \<Rightarrow> [] | Some s \<Rightarrow> s) in
      if length ss \<noteq> dof \<or> \<not> list_all (\<lambda>v. v = -1 \<or> v = 1) ss then Inl RuntimeError else Inr ss)"

definition capture_model_home ::
    "real list res \<Rightarrow> joint_convention \<Rightarrow> real list \<Rightarrow> int list \<Rightarrow> real list res \<Rightarrow> real list res \<Rightarrow> (real list \<times> model_home_fit) res" where
  "capture_model_home q conv offsets_deg sign_flip_joints signs target =
     rbind (read_leader_arm_deg q conv) (\<lambda>raw.
     rbind signs (\<lambda>s. rbind target (\<lambda>t.
     rbind (solve_model_home raw offsets_deg sign_flip_joints s t) (\<lambda>fit. Inr (raw, fit)))))"

section \<open>Write-back\<close>

text \<open>A YAML document; mappings keep their order.\<close>

datatype yv = YNull | YBool bool | YInt int | YNum real | YStr string | YList "yv list" | YMap "(string \<times> yv) list"

definition setdefault :: "string \<Rightarrow> yv \<Rightarrow> (string \<times> yv) list \<Rightarrow> (string \<times> yv) list" where
  "setdefault k v d = (case dget d k of None \<Rightarrow> dput k v d | Some x \<Rightarrow> d)"

definition put_opt :: "string \<Rightarrow> real option \<Rightarrow> (string \<times> yv) list \<Rightarrow> (string \<times> yv) list" where
  "put_opt k x d = (case x of None \<Rightarrow> d | Some v \<Rightarrow> dput k (YNum v) d)"

definition child_map :: "string \<Rightarrow> (string \<times> yv) list \<Rightarrow> (string \<times> yv) list res" where
  "child_map k d = (case dget d k of Some (YMap m) \<Rightarrow> Inr m | _ \<Rightarrow> Inl RuntimeError)"

text \<open>\<open>rnd k x\<close> is \<open>round (x, k)\<close>.\<close>

definition new_convention :: "(nat \<Rightarrow> real \<Rightarrow> real) \<Rightarrow> real list \<Rightarrow> int list \<Rightarrow> real option \<Rightarrow> real option \<Rightarrow> (string \<times> yv) list \<Rightarrow> (string \<times> yv) list" where
  "new_convention rnd offsets fl g_open g_closed conv =
     (let c1 = dput ''offsets_deg'' (YList (map (\<lambda>x. YNum (rnd 2 x)) offsets)) conv;
          c2 = dput ''sign_flip_joints'' (YList (map YInt (sort (remdups fl)))) c1;
          c3 = setdefault ''drop_trailing'' (YInt 1) (ddel ''wrap_deg'' c2) in
      put_opt ''gripper_closed'' (map_option (rnd 4) g_closed) (put_opt ''gripper_open'' (map_option (rnd 4) g_open) c3))"

definition put_home :: "(nat \<Rightarrow> real \<Rightarrow> real) \<Rightarrow> nat \<Rightarrow> model_home_fit option \<Rightarrow> (string \<times> yv) list \<Rightarrow> (string \<times> yv) list res" where
  "put_home rnd dof home leader =
     (case home of
        None \<Rightarrow> Inr leader
      | Some m \<Rightarrow>
          if \<not> (length (mh_home_q_rad m) = length (mh_signs m) \<and> length (mh_signs m) = dof) then Inl RuntimeError
          else let l1 = setdefault ''dfc_to_factr'' (YMap []) (dput ''home_q_rad'' (YList (map (\<lambda>v. YNum (rnd 10 v)) (mh_home_q_rad m))) leader) in
            rbind (child_map ''dfc_to_factr'' l1) (\<lambda>t. Inr (dput ''dfc_to_factr'' (YMap (dput ''signs'' (YList (map (\<lambda>v. YInt (if 0 \<le> v then \<lfloor>v\<rfloor> else \<lceil>v\<rceil>)) (mh_signs m))) t)) l1)))"

definition drop_offset :: "(string \<times> yv) list \<Rightarrow> (string \<times> yv) list" where
  "drop_offset leader = (case dget leader ''dfc_to_factr'' of Some (YMap t) \<Rightarrow> dput ''dfc_to_factr'' (YMap (ddel ''offset_rad'' t)) leader | _ \<Rightarrow> leader)"

definition new_leader ::
    "(nat \<Rightarrow> real \<Rightarrow> real) \<Rightarrow> real list \<Rightarrow> int list \<Rightarrow> real option \<Rightarrow> real option \<Rightarrow> model_home_fit option \<Rightarrow> (string \<times> yv) list \<Rightarrow> (string \<times> yv) list res" where
  "new_leader rnd offsets fl g_open g_closed home leader =
     rbind (child_map ''raw_to_dfc'' leader) (\<lambda>conv.
     rbind (put_home rnd (length offsets) home (dput ''raw_to_dfc'' (YMap (new_convention rnd offsets fl g_open g_closed conv)) leader)) (\<lambda>l.
     Inr (drop_offset l)))"

text \<open>An empty document counts as an empty mapping; \<open>.get\<close> of anything else that is no mapping raises.\<close>

fun top_map :: "yv \<Rightarrow> (string \<times> yv) list res" where
  "top_map (YMap d) = Inr d"
| "top_map YNull = Inr []"
| "top_map v = Inl AttributeError"

definition new_document ::
    "(nat \<Rightarrow> real \<Rightarrow> real) \<Rightarrow> string \<Rightarrow> real list \<Rightarrow> int list \<Rightarrow> real option \<Rightarrow> real option \<Rightarrow> model_home_fit option \<Rightarrow> yv
     \<Rightarrow> ((string \<times> yv) list \<times> yv) res" where
  "new_document rnd side offsets fl g_open g_closed home doc =
     rbind (top_map doc) (\<lambda>d.
     rbind (child_map ''leaders'' d) (\<lambda>leaders.
     rbind (child_map side leaders) (\<lambda>leader.
     rbind (new_leader rnd offsets fl g_open g_closed home leader) (\<lambda>l.
     Inr (l, YMap (dput ''leaders'' (YMap (dput side (YMap l) leaders)) d))))))"

text \<open>The check of what the dumped text reads back as.\<close>

definition reads_back :: "string \<Rightarrow> bool \<Rightarrow> (string \<times> yv) list \<Rightarrow> yv \<Rightarrow> bool" where
  "reads_back side with_home l got =
     (case rbind (top_map got) (\<lambda>d. rbind (child_map ''leaders'' d) (child_map side)) of
        Inl e \<Rightarrow> False
      | Inr gl \<Rightarrow> dget gl ''raw_to_dfc'' = dget l ''raw_to_dfc''
          \<and> (with_home \<longrightarrow> dget gl ''home_q_rad'' = dget l ''home_q_rad'' \<and> dget gl ''dfc_to_factr'' = dget l ''dfc_to_factr''))"

text \<open>
  \<open>reload\<close>: what the dump of a document reads back as. \<open>written\<close>: writing the temporary file; \<open>replaced\<close>: the rename over the configuration. The
  result has the document the configuration holds, read back.
\<close>

definition apply_to_leader ::
    "(nat \<Rightarrow> real \<Rightarrow> real) \<Rightarrow> (yv \<Rightarrow> yv) \<Rightarrow> unit res \<Rightarrow> unit res \<Rightarrow> string \<Rightarrow> real list \<Rightarrow> int list \<Rightarrow> real option \<Rightarrow> real option \<Rightarrow> model_home_fit option \<Rightarrow> yv
     \<Rightarrow> unit res \<times> yv" where
  "apply_to_leader rnd reload written replaced side offsets fl g_open g_closed home doc =
     (case new_document rnd side offsets fl g_open g_closed home doc of
        Inl e \<Rightarrow> (Inl e, doc)
      | Inr (l, doc') \<Rightarrow>
          if \<not> reads_back side (home \<noteq> None) l (reload doc') then (Inl RuntimeError, doc)
          else (case rbind written (\<lambda>u. replaced) of Inl e \<Rightarrow> (Inl e, doc) | Inr u \<Rightarrow> (Inr (), reload doc')))"

section \<open>Angles modulo a turn\<close>

lemma wrap_deg_shift [simp]: "wrap_deg (d + 360 * of_int k) = wrap_deg d"
proof -
  obtain m :: int where m: "wrap_deg d = d - 360 * of_int m" using wrap_deg_turns by blast
  show ?thesis by (rule wrap_deg_unique[of _ _ "m + k"]) (use wrap_deg_bounds[of d] m in \<open>auto simp: algebra_simps\<close>)
qed

lemma wrap_deg_eq_iff: "wrap_deg a = wrap_deg b \<longleftrightarrow> (\<exists>k :: int. a = b + 360 * of_int k)"
proof
  assume eq: "wrap_deg a = wrap_deg b"
  obtain m n :: int where "wrap_deg a = a - 360 * of_int m" "wrap_deg b = b - 360 * of_int n" using wrap_deg_turns by metis
  then have "a = b + 360 * of_int (m - n)" using eq by (simp add: algebra_simps)
  then show "\<exists>k :: int. a = b + 360 * of_int k" by blast
qed auto

lemma wrap_deg_id: "-180 \<le> x \<Longrightarrow> x < 180 \<Longrightarrow> wrap_deg x = x"
  by (rule wrap_deg_unique[of _ _ 0]) simp_all

lemma wrap_deg_zero: "wrap_deg d = 0 \<longleftrightarrow> (\<exists>k :: int. d = 360 * of_int k)"
  using wrap_deg_eq_iff[of d 0] by (simp add: wrap_deg_id)

lemma mean_replicate: "0 < n \<Longrightarrow> mean (replicate n x) = x"
  by (simp add: mean_def sum_list_replicate)

text \<open>The circular mean of equal angles is that angle up to a turn.\<close>

lemma circular_mean_same:
  assumes "0 < n"
  shows "\<exists>k :: int. circular_mean_deg (replicate n a) = a + 360 * of_int k"
proof -
  let ?z = "Complex (cos (radians a)) (sin (radians a))"
  have z: "?z = cis (radians a)" by (simp add: cis.ctr)
  have "?z \<noteq> 0" using z by simp
  then have "cis (Arg ?z) = cis (radians a)" using cis_Arg[of ?z] z by (simp add: sgn_eq)
  then have "sin (Arg ?z) = sin (radians a) \<and> cos (Arg ?z) = cos (radians a)" by (simp add: complex_eq_iff)
  then obtain k :: int where k: "Arg ?z = radians a + 2 * pi * of_int k" using sin_cos_eq_iff[THEN iffD1] by blast
  have "circular_mean_deg (replicate n a) = degrees (Arg ?z)"
    using assms by (simp add: circular_mean_deg_def arctan2_def map_replicate mean_replicate)
  also have "\<dots> = a + 360 * of_int k" unfolding k by (simp add: degrees_def radians_def field_simps)
  finally show ?thesis by blast
qed

lemma fit_sign_exact:
  assumes "xs \<noteq> []" and "\<And>x. x \<in> set xs \<Longrightarrow> \<exists>m :: int. sign * snd x - fst x = off + 360 * of_int m"
  shows "snd (fit_sign sign xs) = 0" "\<exists>k :: int. fst (fit_sign sign xs) = off + 360 * of_int k"
proof -
  have "estimates sign xs = map (\<lambda>x. wrap_deg off) xs"
    unfolding estimates_def using assms(2) by (intro map_cong) (auto simp: wrap_deg_eq_iff split: prod.splits)
  then have est: "estimates sign xs = replicate (length xs) (wrap_deg off)" by (simp add: map_replicate_const)
  obtain k :: int where k: "circular_mean_deg (replicate (length xs) (wrap_deg off)) = wrap_deg off + 360 * of_int k"
    using circular_mean_same assms(1) by blast
  obtain m :: int where m: "wrap_deg off = off - 360 * of_int m" using wrap_deg_turns by blast
  have "wrap_deg (wrap_deg off - (wrap_deg off + 360 * of_int k)) = 0"
    unfolding wrap_deg_zero by (rule exI[of _ "- k"]) simp
  then show "snd (fit_sign sign xs) = 0"
    using assms(1) by (simp add: fit_sign_def Let_def est k rms_deg_def map_replicate mean_replicate)
  have "fst (fit_sign sign xs) = wrap_deg off + 360 * of_int k" by (simp add: fit_sign_def Let_def est k)
  then have "fst (fit_sign sign xs) = off + 360 * of_int (k - m)" unfolding m by (simp add: algebra_simps)
  then show "\<exists>k :: int. fst (fit_sign sign xs) = off + 360 * of_int k" by blast
qed

text \<open>Two estimates half a turn apart: no offset fits both.\<close>

lemma half_turn: "\<bar>wrap_deg (x + 180)\<bar> = 180 - \<bar>wrap_deg x\<bar>"
proof -
  obtain m :: int where m: "wrap_deg x = x - 360 * of_int m" using wrap_deg_turns by blast
  note b = wrap_deg_bounds[of x]
  show ?thesis
  proof (cases "wrap_deg x < 0")
    case True
    have "wrap_deg (x + 180) = wrap_deg x + 180" by (rule wrap_deg_unique[of _ _ m]) (use True b m in auto)
    then show ?thesis using True b by simp
  next
    case False
    have "wrap_deg (x + 180) = wrap_deg x - 180" by (rule wrap_deg_unique[of _ _ "m + 1"]) (use False b m in \<open>auto simp: algebra_simps\<close>)
    then show ?thesis using False b by simp
  qed
qed

lemma le_sum_list: "(x :: real) \<in> set xs \<Longrightarrow> (\<And>y. y \<in> set xs \<Longrightarrow> 0 \<le> y) \<Longrightarrow> x \<le> sum_list xs"
  by (induction xs) (auto intro: add_increasing add_increasing2 sum_list_nonneg)

lemma rms_wrong_sign:
  assumes "e1 \<in> set est" and "e2 \<in> set est" and "e2 = e1 + 180 + 360 * of_int k" and "length est \<le> 8100"
  shows "1 \<le> rms_deg est off"
proof -
  define sq where "sq = map (\<lambda>e. (wrap_deg (e - off))\<^sup>2) est"
  have "\<bar>wrap_deg (e2 - off)\<bar> = 180 - \<bar>wrap_deg (e1 - off)\<bar>"
    using half_turn[of "e1 - off"] wrap_deg_shift[of "e1 - off + 180" k] assms(3) by (simp add: algebra_simps)
  then have "90 \<le> \<bar>wrap_deg (e1 - off)\<bar> \<or> 90 \<le> \<bar>wrap_deg (e2 - off)\<bar>" by linarith
  then obtain e where e: "e \<in> set est" "90 \<le> \<bar>wrap_deg (e - off)\<bar>" using assms(1,2) by blast
  have "90\<^sup>2 \<le> (wrap_deg (e - off))\<^sup>2" using e(2) by (metis abs_numeral power2_le_iff_abs_le abs_ge_zero power2_abs power_mono)
  also have "\<dots> \<le> sum_list sq" by (rule le_sum_list) (use e(1) in \<open>auto simp: sq_def\<close>)
  finally have s: "8100 \<le> sum_list sq" by simp
  have len: "0 < length est" "length sq = length est" using assms(1) by (auto simp: sq_def)
  have "1 \<le> mean sq" using s len assms(4) by (simp add: mean_def field_simps)
  then show ?thesis by (simp add: rms_deg_def sq_def)
qed

section \<open>One joint\<close>

text \<open>Samples of one joint that a sign and an offset explain.\<close>

definition explains :: "real \<Rightarrow> real \<Rightarrow> (real \<times> real) list \<Rightarrow> bool" where
  "explains sign off xs \<longleftrightarrow> (\<forall>x \<in> set xs. wrap_deg (sign * (fst x + off)) = snd x)"

lemma explained_leader:
  assumes "explains sign off xs" and "x \<in> set xs" and "sign = 1 \<or> sign = -1"
  shows "\<exists>m :: int. fst x = sign * snd x - off + 360 * of_int m"
proof -
  obtain m :: int where "wrap_deg (sign * (fst x + off)) = sign * (fst x + off) - 360 * of_int m" using wrap_deg_turns by blast
  then have "snd x = sign * (fst x + off) - 360 * of_int m" using assms(1,2) by (simp add: explains_def)
  then have "fst x = sign * snd x - off + 360 * of_int (if sign = 1 then m else - m)" using assms(3) by (auto simp: algebra_simps)
  then show ?thesis by blast
qed

lemma fit_true_sign:
  assumes "explains sign off xs" and "xs \<noteq> []" and "sign = 1 \<or> sign = -1"
  shows "snd (fit_sign sign xs) = 0" "\<exists>k :: int. fst (fit_sign sign xs) = off + 360 * of_int k"
proof -
  have "\<exists>m :: int. sign * snd x - fst x = off + 360 * of_int m" if h: "x \<in> set xs" for x
  proof -
    obtain m :: int where "fst x = sign * snd x - off + 360 * of_int m" using explained_leader[OF assms(1) h assms(3)] by blast
    then have "sign * snd x - fst x = off + 360 * of_int (- m)" by simp
    then show ?thesis by blast
  qed
  from fit_sign_exact[OF assms(2) this]
  show "snd (fit_sign sign xs) = 0" "\<exists>k :: int. fst (fit_sign sign xs) = off + 360 * of_int k" by blast+
qed

lemma fit_other_sign:
  assumes "explains sign off xs" and "sign = 1 \<or> sign = -1" and "(l1, 0) \<in> set xs" and "(l2, r) \<in> set xs" and "\<bar>r\<bar> = 90" and "length xs \<le> 8100"
  shows "1 \<le> snd (fit_sign (- sign) xs)"
proof -
  obtain m1 m2 :: int where l: "l1 = - off + 360 * of_int m1" "l2 = sign * r - off + 360 * of_int m2"
    using explained_leader[OF assms(1) assms(3) assms(2)] explained_leader[OF assms(1) assms(4) assms(2)] by auto
  define e1 where "e1 = wrap_deg (- sign * 0 - l1)"
  define e2 where "e2 = wrap_deg (- sign * r - l2)"
  have mem: "e1 \<in> set (estimates (- sign) xs)" "e2 \<in> set (estimates (- sign) xs)"
    using assms(3,4) unfolding estimates_def e1_def e2_def set_map by (metis (mono_tags, lifting) case_prod_conv image_eqI)+
  obtain k1 k2 :: int where k: "e1 = - l1 - 360 * of_int k1" "e2 = - sign * r - l2 - 360 * of_int k2"
    using wrap_deg_turns[of "- sign * 0 - l1"] wrap_deg_turns[of "- sign * r - l2"] by (auto simp: e1_def e2_def)
  have d: "e2 - e1 = - 2 * sign * r + 360 * of_int (m1 - m2 + k1 - k2)" by (simp add: k l algebra_simps)
  have "r = 90 \<or> r = -90" using assms(5) by linarith
  then have "\<exists>j :: int. - 2 * sign * r = 180 + 360 * of_int j"
    using assms(2) by (auto intro: exI[of _ "0 :: int"] exI[of _ "- 1 :: int"])
  then obtain j :: int where "- 2 * sign * r = 180 + 360 * of_int j" by blast
  then have "e2 = e1 + 180 + 360 * of_int (j + m1 - m2 + k1 - k2)" using d by (simp add: algebra_simps)
  from rms_wrong_sign[OF mem this] show ?thesis using assms(6) by (simp add: fit_sign_def Let_def estimates_def)
qed

lemma solve_joint_decided:
  assumes "explains sign off xs" and "sign = 1 \<or> sign = -1" and "(l1, 0) \<in> set xs" and "(l2, r) \<in> set xs" and "\<bar>r\<bar> = 90" and "length xs \<le> 8100"
  shows "jf_sign (solve_joint fb xs) = sign \<and> \<not> jf_ambiguous (solve_joint fb xs) \<and> jf_residual (solve_joint fb xs) = 0
    \<and> (\<exists>k :: int. jf_offset (solve_joint fb xs) = off + 360 * of_int k)"
proof -
  have ne: "xs \<noteq> []" using assms(3) by auto
  note t = fit_true_sign[OF assms(1) ne assms(2)] and w = fit_other_sign[OF assms]
  have eps: "SIGN_TIE_EPS_DEG < 1" by (simp add: SIGN_TIE_EPS_DEG_def)
  show ?thesis
  proof (cases "sign = 1")
    case True
    then show ?thesis using t w eps by (simp add: solve_joint_def Let_def)
  next
    case False
    then have "sign = -1" using assms(2) by simp
    then show ?thesis using t w eps by (simp add: solve_joint_def Let_def)
  qed
qed

section \<open>The whole convention\<close>

definition flip_sign :: "int list \<Rightarrow> nat \<Rightarrow> real" where
  "flip_sign fl j = (if int j \<in> set fl then -1 else 1)"

lemma flip_sign_cases: "flip_sign fl j = 1 \<or> flip_sign fl j = -1"
  by (simp add: flip_sign_def)

lemma flip_count:
  assumes "distinct ks" and "\<forall>k \<in> set ks. 0 \<le> k \<and> k < int n" and "j < n"
  shows "(-1 :: real) ^ length (filter (\<lambda>k. k = int j \<or> int n + k = int j) ks) = flip_sign ks j"
proof -
  have "filter (\<lambda>k. k = int j \<or> int n + k = int j) ks = filter (\<lambda>k. k = int j) ks"
    using assms(2,3) by (intro filter_cong) auto
  moreover have "length (filter (\<lambda>k. k = int j) ks) = (if int j \<in> set ks then 1 else 0)"
    using assms(1) by (induction ks) auto
  ultimately show ?thesis by (simp add: flip_sign_def)
qed

text \<open>What a convention with distinct flips converts a pose to.\<close>

lemma convert_closed:
  assumes "length (drop_gripper conv q) = n" and "length (jc_offsets_deg conv) = n" and "distinct (jc_sign_flip_joints conv)"
    and "\<forall>k \<in> set (jc_sign_flip_joints conv). 0 \<le> k \<and> k < int n"
  shows "convert_factr_to_rizon conv q
     = Inr (map (\<lambda>j. radians (wrap_deg (flip_sign (jc_sign_flip_joints conv) j * (degrees (drop_gripper conv q ! j) + jc_offsets_deg conv ! j)))) [0..<n])"
proof -
  let ?q = "drop_gripper conv q" and ?ks = "jc_sign_flip_joints conv"
  let ?deg = "map2 (+) (map degrees ?q) (jc_offsets_deg conv)"
  have ld: "length ?deg = n" using assms(1,2) by simp
  have idx: "\<forall>k \<in> set ?ks. - int (length ?deg) \<le> k \<and> k < int (length ?deg)" using assms(4) ld by force
  obtain deg' where f: "foldR flip_joint ?ks ?deg = Inr deg'" using flips_ok[OF idx] by blast
  have deg': "length deg' = n" "\<And>j. j < n \<Longrightarrow> deg' ! j = flip_sign ?ks j * ?deg ! j"
    using fold_flips[OF f] flip_count[OF assms(3,4)] unfolding ld by auto
  have "np_add (map degrees ?q) (take (length ?q) (jc_offsets_deg conv)) = Inr ?deg" using assms(1,2) by (simp add: np_add_def)
  moreover have "map (\<lambda>d. radians (wrap_deg d)) deg'
      = map (\<lambda>j. radians (wrap_deg (flip_sign ?ks j * (degrees (?q ! j) + jc_offsets_deg conv ! j)))) [0..<n]"
    using deg' assms(1,2) by (intro nth_equalityI) auto
  ultimately show ?thesis using f by (simp add: convert_factr_to_rizon_def)
qed

lemma pair_samples_set:
  "(q, ref) \<in> set (pair_samples poses ss) \<longleftrightarrow> (\<exists>name. (name, q) \<in> set ss \<and> dget poses name = Some ref \<and> length q = length ref)"
  by (induction poses ss rule: pair_samples.induct) (auto split: option.splits)

lemma pair_samples_length: "distinct (dkeys ss) \<Longrightarrow> length (pair_samples poses ss) \<le> card (set (dkeys ss) \<inter> set (dkeys poses))"
proof (induction poses ss rule: pair_samples.induct)
  case (2 poses name q ss)
  have "card (set (dkeys ss) \<inter> set (dkeys poses)) \<le> card (set (dkeys ((name, q) # ss)) \<inter> set (dkeys poses))" by (intro card_mono) auto
  moreover have "Suc (card (set (dkeys ss) \<inter> set (dkeys poses))) = card (set (dkeys ((name, q) # ss)) \<inter> set (dkeys poses))"
    if "dget poses name = Some ref" for ref
  proof -
    have "name \<in> set (dkeys poses)" using that dget_Some_keys by fastforce
    then have "set (dkeys ((name, q) # ss)) \<inter> set (dkeys poses) = insert name (set (dkeys ss) \<inter> set (dkeys poses))" by auto
    then show ?thesis using "2.prems" by simp
  qed
  ultimately show ?case using 2 by (auto split: option.splits)
qed simp

lemma reference_poses_7: "reference_poses 7 = REFERENCE_POSES"
  by (simp add: reference_poses_def REFERENCE_POSES_def fit_length_def numeral_eq_Suc)

lemma reference_lengths: "dget REFERENCE_POSES name = Some ref \<Longrightarrow> length ref = 7"
  by (auto simp: REFERENCE_POSES_def split: if_splits)

lemma straight_up: "dget REFERENCE_POSES ''Straight up'' = Some (replicate 7 0)"
  by (simp add: REFERENCE_POSES_def numeral_eq_Suc)

text \<open>Some pose turns each joint by a quarter.\<close>

lemma quarter_turn: "j < 7 \<Longrightarrow> \<exists>name ref. (name, ref) \<in> set REFERENCE_POSES \<and> dget REFERENCE_POSES name = Some ref \<and> \<bar>ref ! j\<bar> = 90"
proof -
  assume "j < 7"
  then have "j \<in> {0, 1, 2, 3, 4, 5, 6}" by auto
  moreover have "\<exists>i < 6. \<bar>snd (REFERENCE_POSES ! i) ! j\<bar> = 90" if "j \<in> {0, 1, 2, 3, 4, 5, 6}"
    using that by (auto simp: REFERENCE_POSES_def intro: exI[of _ 1] exI[of _ 2] exI[of _ 3] exI[of _ 4] exI[of _ 5])
  moreover have "length REFERENCE_POSES = 6" "distinct (dkeys REFERENCE_POSES)" by (simp_all add: REFERENCE_POSES_def)
  ultimately obtain i where i: "i < length REFERENCE_POSES" "\<bar>snd (REFERENCE_POSES ! i) ! j\<bar> = 90" by auto
  have "dget REFERENCE_POSES (fst (REFERENCE_POSES ! i)) = Some (snd (REFERENCE_POSES ! i))"
    using i(1) \<open>distinct (dkeys REFERENCE_POSES)\<close> by (intro map_of_is_SomeI) auto
  then show ?thesis using i by (metis nth_mem prod.collapse)
qed

lemma solve_rectangular:
  assumes "pairs \<noteq> []" and "\<And>p. p \<in> set pairs \<Longrightarrow> length (fst p) = n \<and> length (snd p) = n"
  shows "solve_from_samples pairs fb =
     (let fits = map (\<lambda>j. solve_joint (int j \<in> set fb) (column j pairs)) [0..<n] in
      Inr \<lparr>pf_offsets_deg = map jf_offset fits, pf_sign_flip_joints = filter (\<lambda>j. jf_sign (fits ! j) < 0) [0..<n],
           pf_residuals_deg = map jf_residual fits, pf_ambiguous_joints = filter (\<lambda>j. jf_ambiguous (fits ! j)) [0..<n],
           pf_n_samples = length pairs\<rparr>)"
proof -
  have "length (fst (hd pairs)) = n" "length (snd (hd pairs)) = n" using assms hd_in_set by blast+
  moreover have "rectangular (map fst pairs)" "rectangular (map snd pairs)"
    using assms calculation by (auto simp: rectangular_def list_all_iff hd_map)
  ultimately show ?thesis using assms(1) by (simp add: solve_from_samples_def)
qed

text \<open>
  C17. The pose-set calibration recovers the convention: when the leader was captured at all six reference poses, each matched under the true convention, the solve
  finds every sign without ambiguity and with no residual, whatever was configured before; and the solved convention converts every leader pose exactly as
  the true one does, although its offsets may differ from the true ones by whole turns.
\<close>

theorem calibration_recovers_convention:
  assumes "length (jc_offsets_deg conv) = 7" and "distinct (jc_sign_flip_joints conv)" and "\<forall>k \<in> set (jc_sign_flip_joints conv). 0 \<le> k \<and> k < 7"
    and "distinct (dkeys samples)" and "\<And>name ref. (name, ref) \<in> set REFERENCE_POSES \<Longrightarrow> \<exists>q. dget samples name = Some q \<and> length q = 7"
    and "\<And>name ref q j. dget REFERENCE_POSES name = Some ref \<Longrightarrow> dget samples name = Some q \<Longrightarrow> j < 7
           \<Longrightarrow> wrap_deg (flip_sign (jc_sign_flip_joints conv) j * (q ! j + jc_offsets_deg conv ! j)) = ref ! j"
  shows "\<exists>fit. solve_pose_samples 7 configured samples = Inr fit \<and> pf_ambiguous_joints fit = [] \<and> pf_residuals_deg fit = replicate 7 0
     \<and> (\<forall>q. length (drop_gripper conv q) = 7 \<longrightarrow>
          convert_factr_to_rizon (conv\<lparr>jc_offsets_deg := pf_offsets_deg fit, jc_sign_flip_joints := map int (pf_sign_flip_joints fit)\<rparr>) q
          = convert_factr_to_rizon conv q)"
proof -
  let ?fl = "jc_sign_flip_joints conv" and ?off = "jc_offsets_deg conv"
  define pairs where "pairs = pair_samples REFERENCE_POSES samples"
  define fits where "fits = map (\<lambda>j. solve_joint (int j \<in> set (jc_sign_flip_joints configured)) (column j pairs)) [0..<7]"
  have named: "\<exists>name. dget samples name = Some (fst p) \<and> dget REFERENCE_POSES name = Some (snd p) \<and> length (fst p) = 7 \<and> length (snd p) = 7"
    if "p \<in> set pairs" for p
    using that pair_samples_set[of "fst p" "snd p"] reference_lengths assms(4) unfolding pairs_def
    by (metis map_of_is_SomeI prod.collapse)
  have captured: "\<exists>q. (q, ref) \<in> set pairs" if "(name, ref) \<in> set REFERENCE_POSES" "dget REFERENCE_POSES name = Some ref" for name ref
    using assms(5)[OF that(1)] that(2) reference_lengths[OF that(2)] pair_samples_set unfolding pairs_def by (metis map_of_SomeD)
  obtain q0 where straight: "(q0, replicate 7 0) \<in> set pairs" using captured[OF _ straight_up] straight_up map_of_SomeD by fast
  have len: "length pairs \<le> 8100"
  proof -
    have "card (set (dkeys samples) \<inter> set (dkeys REFERENCE_POSES)) \<le> card (set (dkeys REFERENCE_POSES))" by (intro card_mono) auto
    also have "\<dots> \<le> 6" using card_length[of "dkeys REFERENCE_POSES"] by (simp add: REFERENCE_POSES_def)
    finally show ?thesis using pair_samples_length[OF assms(4), of REFERENCE_POSES] unfolding pairs_def by linarith
  qed
  have joint: "jf_sign (fits ! j) = flip_sign ?fl j \<and> \<not> jf_ambiguous (fits ! j) \<and> jf_residual (fits ! j) = 0
      \<and> (\<exists>k :: int. jf_offset (fits ! j) = ?off ! j + 360 * of_int k)" if j: "j < 7" for j
  proof -
    have "explains (flip_sign ?fl j) (?off ! j) (column j pairs)"
      using named assms(6) j by (fastforce simp: explains_def column_def)
    moreover have "(q0 ! j, 0) \<in> set (column j pairs)" using straight j by (force simp: column_def image_iff)
    moreover obtain q r where "(q ! j, r) \<in> set (column j pairs)" "\<bar>r\<bar> = 90"
    proof -
      obtain name ref where ref: "(name, ref) \<in> set REFERENCE_POSES" "dget REFERENCE_POSES name = Some ref" "\<bar>ref ! j\<bar> = 90"
        using quarter_turn[OF j] by blast
      obtain q where "(q, ref) \<in> set pairs" using captured[OF ref(1,2)] by blast
      then have "(q ! j, ref ! j) \<in> set (column j pairs)" by (force simp: column_def image_iff)
      then show thesis using that ref(3) by blast
    qed
    moreover have "length (column j pairs) \<le> 8100" using len by (simp add: column_def)
    ultimately show ?thesis using solve_joint_decided[OF _ flip_sign_cases] j by (simp add: fits_def)
  qed
  have sol: "solve_pose_samples 7 configured samples = Inr \<lparr>pf_offsets_deg = map jf_offset fits,
      pf_sign_flip_joints = filter (\<lambda>j. jf_sign (fits ! j) < 0) [0..<7], pf_residuals_deg = map jf_residual fits,
      pf_ambiguous_joints = filter (\<lambda>j. jf_ambiguous (fits ! j)) [0..<7], pf_n_samples = length pairs\<rparr>"
    using solve_rectangular[of pairs 7 "jc_sign_flip_joints configured"] straight named
    unfolding solve_pose_samples_def reference_poses_7 pairs_def[symmetric] fits_def[symmetric] Let_def by fastforce
  have lf: "length fits = 7" by (simp add: fits_def)
  have res: "map jf_residual fits = replicate 7 0" "filter (\<lambda>j. jf_ambiguous (fits ! j)) [0..<7] = []"
    using joint lf by (auto intro!: nth_equalityI simp: filter_empty_conv)
  have "convert_factr_to_rizon (conv\<lparr>jc_offsets_deg := map jf_offset fits, jc_sign_flip_joints := map int (filter (\<lambda>j. jf_sign (fits ! j) < 0) [0..<7])\<rparr>) q
      = convert_factr_to_rizon conv q" (is "convert_factr_to_rizon ?c' q = _") if q: "length (drop_gripper conv q) = 7" for q
  proof -
    have dg: "drop_gripper ?c' q = drop_gripper conv q" by (simp add: drop_gripper_def)
    have sgn: "flip_sign (jc_sign_flip_joints ?c') j = flip_sign ?fl j" if "j < 7" for j
      using joint[OF that] that by (auto simp: flip_sign_def split: if_splits)
    have "wrap_deg (flip_sign ?fl j * (x + jf_offset (fits ! j))) = wrap_deg (flip_sign ?fl j * (x + ?off ! j))" if "j < 7" for j x
    proof -
      obtain k :: int where "jf_offset (fits ! j) = ?off ! j + 360 * of_int k" using joint[OF \<open>j < 7\<close>] by blast
      then have "flip_sign ?fl j * (x + jf_offset (fits ! j)) = flip_sign ?fl j * (x + ?off ! j) + 360 * of_int (if flip_sign ?fl j = 1 then k else - k)"
        using flip_sign_cases[of ?fl j] by (auto simp: algebra_simps)
      then show ?thesis by (simp only: wrap_deg_shift)
    qed
    then show ?thesis using q assms(1-3) lf sgn
      by (subst (1 2) convert_closed[where n = 7]) (auto simp: dg inj_on_def distinct_map)
  qed
  then show ?thesis using sol res by auto
qed

definition demo_true :: joint_convention where
  "demo_true = \<lparr>jc_offsets_deg = [30, 200, 0, -75, 0, 10, 400], jc_sign_flip_joints = [1, 3, 6], jc_drop_trailing = 1, jc_gripper_open = None, jc_gripper_closed = None\<rparr>"

text \<open>The leader at the reference poses.\<close>

definition demo_samples :: "(string, real list) dict" where
  "demo_samples = map (\<lambda>(name, ref). (name, map (\<lambda>j. flip_sign (jc_sign_flip_joints demo_true) j * ref ! j - jc_offsets_deg demo_true ! j) [0..<7])) REFERENCE_POSES"

lemma demo_samples_get: "dget demo_samples name = map_option (\<lambda>ref. map (\<lambda>j. flip_sign (jc_sign_flip_joints demo_true) j * ref ! j - jc_offsets_deg demo_true ! j) [0..<7])
    (dget REFERENCE_POSES name)"
  by (simp add: demo_samples_def map_of_map)

lemma reference_range: "dget REFERENCE_POSES name = Some ref \<Longrightarrow> j < 7 \<Longrightarrow> ref ! j \<in> {0, 90, -90}"
proof -
  assume h: "dget REFERENCE_POSES name = Some ref" "j < 7"
  have "\<forall>p \<in> set REFERENCE_POSES. set (snd p) \<subseteq> {0, 90, -90}" by (simp add: REFERENCE_POSES_def)
  then have "set ref \<subseteq> {0, 90, -90}" using map_of_SomeD[OF h(1)] by fastforce
  moreover have "ref ! j \<in> set ref" using h(2) reference_lengths[OF h(1)] by simp
  ultimately show ?thesis by blast
qed

lemma calibration_recovers_convention_witness:
  "\<exists>fit. solve_pose_samples 7 (demo_true\<lparr>jc_sign_flip_joints := []\<rparr>) demo_samples = Inr fit \<and> pf_ambiguous_joints fit = []
     \<and> convert_factr_to_rizon (demo_true\<lparr>jc_offsets_deg := pf_offsets_deg fit, jc_sign_flip_joints := map int (pf_sign_flip_joints fit)\<rparr>) [1, 2, 3, 4, 5, 6, 7, 8]
         = convert_factr_to_rizon demo_true [1, 2, 3, 4, 5, 6, 7, 8]"
proof -
  have 1: "length (jc_offsets_deg demo_true) = 7" "distinct (jc_sign_flip_joints demo_true)" "\<forall>k \<in> set (jc_sign_flip_joints demo_true). 0 \<le> k \<and> k < 7"
    by (simp_all add: demo_true_def)
  have 2: "distinct (dkeys demo_samples)" by (simp add: demo_samples_def REFERENCE_POSES_def)
  have 3: "\<exists>q. dget demo_samples name = Some q \<and> length q = 7" if "(name, ref) \<in> set REFERENCE_POSES" for name ref
  proof -
    have "distinct (dkeys REFERENCE_POSES)" by (simp add: REFERENCE_POSES_def)
    then have "dget REFERENCE_POSES name = Some ref" using map_of_is_SomeI that by fast
    then show ?thesis by (simp add: demo_samples_get)
  qed
  have 4: "wrap_deg (flip_sign (jc_sign_flip_joints demo_true) j * (q ! j + jc_offsets_deg demo_true ! j)) = ref ! j"
    if "dget REFERENCE_POSES name = Some ref" "dget demo_samples name = Some q" "j < 7" for name ref q j
  proof -
    have "q ! j + jc_offsets_deg demo_true ! j = flip_sign (jc_sign_flip_joints demo_true) j * ref ! j"
      using that by (auto simp: demo_samples_get)
    then have "flip_sign (jc_sign_flip_joints demo_true) j * (q ! j + jc_offsets_deg demo_true ! j) = ref ! j" by (simp add: flip_sign_def)
    moreover have "wrap_deg (ref ! j) = ref ! j" using reference_range[OF that(1,3)] by (intro wrap_deg_id) auto
    ultimately show ?thesis by simp
  qed
  have "\<exists>fit. solve_pose_samples 7 (demo_true\<lparr>jc_sign_flip_joints := []\<rparr>) demo_samples = Inr fit \<and> pf_ambiguous_joints fit = [] \<and> pf_residuals_deg fit = replicate 7 0
      \<and> (\<forall>q. length (drop_gripper demo_true q) = 7 \<longrightarrow>
           convert_factr_to_rizon (demo_true\<lparr>jc_offsets_deg := pf_offsets_deg fit, jc_sign_flip_joints := map int (pf_sign_flip_joints fit)\<rparr>) q
           = convert_factr_to_rizon demo_true q)"
    by (rule calibration_recovers_convention[OF 1 2]) (use 3 4 in \<open>blast+\<close>)
  moreover have "length (drop_gripper demo_true [1, 2, 3, 4, 5, 6, 7, 8]) = 7" by (simp add: demo_true_def drop_gripper_def py_take_def)
  ultimately show ?thesis by blast
qed

section \<open>The model home and the write-back\<close>

lemma map2_minus_plus: "length a = length b \<Longrightarrow> map2 (+) b (map2 (-) a b) = (a :: real list)"
  by (induction a b rule: list_induct2) auto

text \<open>
  The model home is what the conversion gives: solving the home from a captured pose yields the joints to which that pose is converted under the convention being
  calibrated, when no joint is listed twice; and with the derived offset the signs map that home onto the target.
\<close>

theorem model_home_is_conversion:
  assumes "solve_model_home (arm_joints_deg conv q) offsets fl signs target = Inr fit" and "distinct fl"
  shows "convert_factr_to_rizon (conv\<lparr>jc_offsets_deg := offsets, jc_sign_flip_joints := fl\<rparr>) q = Inr (mh_home_q_rad fit)
     \<and> map2 (+) (map2 (*) (mh_signs fit) (mh_home_q_rad fit)) (derived_offset_rad fit) = target"
proof -
  let ?c = "conv\<lparr>jc_offsets_deg := offsets, jc_sign_flip_joints := fl\<rparr>" and ?n = "length (arm_joints_deg conv q)"
  have ok: "length offsets = ?n" "length signs = ?n" "length target = ?n" "\<forall>k \<in> set fl. 0 \<le> k \<and> k < int ?n"
    "fit = \<lparr>mh_home_q_rad = map (\<lambda>j. radians (wrap_deg ((if int j \<in> set fl then -1 else 1) * (arm_joints_deg conv q ! j + offsets ! j)))) [0..<?n],
       mh_signs = signs, mh_target_q_rad = target\<rparr>"
    using assms(1) by (auto simp: solve_model_home_def list_all_iff split: if_splits)
  have dg: "drop_gripper ?c q = drop_gripper conv q" by (simp add: drop_gripper_def)
  have "convert_factr_to_rizon ?c q = Inr (mh_home_q_rad fit)"
    using ok assms(2) by (subst convert_closed[where n = ?n]) (auto simp: dg arm_joints_deg_def flip_sign_def)
  moreover have "map2 (+) (map2 (*) (mh_signs fit) (mh_home_q_rad fit)) (derived_offset_rad fit) = target"
    unfolding derived_offset_rad_def using map2_minus_plus[of "mh_target_q_rad fit" "map2 (*) (mh_signs fit) (mh_home_q_rad fit)"] ok by simp
  ultimately show ?thesis by simp
qed

lemma model_home_is_conversion_witness:
  "\<exists>fit. solve_model_home (arm_joints_deg demo_true [0, 0]) [90] [0] [1] [0] = Inr fit
     \<and> convert_factr_to_rizon (demo_true\<lparr>jc_offsets_deg := [90], jc_sign_flip_joints := [0]\<rparr>) [0, 0] = Inr (mh_home_q_rad fit)"
proof -
  have "length (arm_joints_deg demo_true [0, 0]) = 1" by (simp add: arm_joints_deg_def demo_true_def drop_gripper_def py_take_def)
  then obtain fit where fit: "solve_model_home (arm_joints_deg demo_true [0, 0]) [90] [0] [1] [0] = Inr fit" by (simp add: solve_model_home_def)
  show ?thesis using model_home_is_conversion[OF fit] fit by simp
qed

lemma dget_put_opt [simp]: "k \<noteq> k' \<Longrightarrow> dget (put_opt k' x d) k = dget d k"
  by (simp add: put_opt_def split: option.splits)

lemma dget_setdefault [simp]: "k \<noteq> k' \<Longrightarrow> dget (setdefault k' x d) k = dget d k"
  by (simp add: setdefault_def split: option.splits)

lemma new_convention_keys:
  "dget (new_convention rnd offsets fl a b conv) ''offsets_deg'' = Some (YList (map (\<lambda>x. YNum (rnd 2 x)) offsets))"
  "dget (new_convention rnd offsets fl a b conv) ''sign_flip_joints'' = Some (YList (map YInt (sort (remdups fl))))"
  "dget (new_convention rnd offsets fl a b conv) ''wrap_deg'' = None"
  by (simp_all add: new_convention_def Let_def)

lemma drop_offset_other: "k \<noteq> ''dfc_to_factr'' \<Longrightarrow> dget (drop_offset l) k = dget l k"
  by (auto simp: drop_offset_def split: option.splits yv.splits)

lemma put_home_other: "put_home rnd n home l = Inr l' \<Longrightarrow> k \<noteq> ''home_q_rad'' \<Longrightarrow> k \<noteq> ''dfc_to_factr'' \<Longrightarrow> dget l' k = dget l k"
  by (auto simp: put_home_def Let_def split: option.splits if_splits)

lemma new_leader_keys:
  assumes "new_leader rnd offsets fl a b home leader = Inr l"
  shows "\<exists>conv. dget leader ''raw_to_dfc'' = Some (YMap conv) \<and> dget l ''raw_to_dfc'' = Some (YMap (new_convention rnd offsets fl a b conv))"
    "\<And>k. k \<notin> {''raw_to_dfc'', ''home_q_rad'', ''dfc_to_factr''} \<Longrightarrow> dget l k = dget leader k"
proof -
  obtain conv l1 where c: "child_map ''raw_to_dfc'' leader = Inr conv"
      "put_home rnd (length offsets) home (dput ''raw_to_dfc'' (YMap (new_convention rnd offsets fl a b conv)) leader) = Inr l1" "l = drop_offset l1"
    using assms by (auto simp: new_leader_def)
  have "dget leader ''raw_to_dfc'' = Some (YMap conv)" using c(1) by (auto simp: child_map_def split: option.splits yv.splits)
  then show "\<exists>conv. dget leader ''raw_to_dfc'' = Some (YMap conv) \<and> dget l ''raw_to_dfc'' = Some (YMap (new_convention rnd offsets fl a b conv))"
    using put_home_other[OF c(2), of "''raw_to_dfc''"] drop_offset_other[of "''raw_to_dfc''" l1] c(3) by auto
  show "\<And>k. k \<notin> {''raw_to_dfc'', ''home_q_rad'', ''dfc_to_factr''} \<Longrightarrow> dget l k = dget leader k"
    using put_home_other[OF c(2)] drop_offset_other c(3) by auto
qed

text \<open>Saving a calibration changes one leader or nothing: when it raises, at whatever step, the configuration is what it was; when it returns, and the YAML library reads
  back what it wrote, the file has the rounded offsets and the sorted flips for this leader, and every other leader, every other key of this leader
  but its model transform, and every other part of the document is as before.\<close>

theorem calibration_saves_one_leader:
  assumes "\<And>v. reload v = v" and "apply_to_leader rnd reload written replaced side offsets fl a b home doc = (r, doc')"
  shows "case r of
      Inl e \<Rightarrow> doc' = doc
    | Inr u \<Rightarrow> (\<exists>d leaders leader leaders' l conv. doc = YMap d \<and> dget d ''leaders'' = Some (YMap leaders) \<and> dget leaders side = Some (YMap leader)
        \<and> doc' = YMap (dput ''leaders'' (YMap leaders') d) \<and> dget leaders' side = Some (YMap l) \<and> dget l ''raw_to_dfc'' = Some (YMap conv)
        \<and> dget conv ''offsets_deg'' = Some (YList (map (\<lambda>x. YNum (rnd 2 x)) offsets))
        \<and> dget conv ''sign_flip_joints'' = Some (YList (map YInt (sort (remdups fl))))
        \<and> (\<forall>s. s \<noteq> side \<longrightarrow> dget leaders' s = dget leaders s)
        \<and> (\<forall>k. k \<notin> {''raw_to_dfc'', ''home_q_rad'', ''dfc_to_factr''} \<longrightarrow> dget l k = dget leader k))"
proof (cases r)
  case (Inl e)
  then show ?thesis using assms(2) by (auto simp: apply_to_leader_def split: sum.splits if_splits)
next
  case (Inr u)
  obtain l doc1 where nd: "new_document rnd side offsets fl a b home doc = Inr (l, doc1)" "doc' = doc1"
    using assms Inr by (auto simp: apply_to_leader_def split: sum.splits if_splits prod.splits)
  obtain d leaders leader where p: "top_map doc = Inr d" "child_map ''leaders'' d = Inr leaders" "child_map side leaders = Inr leader"
    "new_leader rnd offsets fl a b home leader = Inr l" "doc1 = YMap (dput ''leaders'' (YMap (dput side (YMap l) leaders)) d)"
    using nd(1) by (auto simp: new_document_def)
  have m: "dget d ''leaders'' = Some (YMap leaders)" "dget leaders side = Some (YMap leader)"
    using p(2,3) by (auto simp: child_map_def split: option.splits yv.splits)
  have "doc = YMap d" using p(1) m(1) by (cases doc) auto
  moreover obtain conv where "dget l ''raw_to_dfc'' = Some (YMap (new_convention rnd offsets fl a b conv))"
    using new_leader_keys(1)[OF p(4)] by blast
  ultimately show ?thesis unfolding Inr sum.case
    by (intro exI[of _ d] exI[of _ leaders] exI[of _ leader] exI[of _ "dput side (YMap l) leaders"] exI[of _ l]
        exI[of _ "new_convention rnd offsets fl a b conv"] conjI allI impI)
      (simp_all only: m nd(2) p(5) new_convention_keys new_leader_keys(2)[OF p(4)] dget_dput if_True if_False simp_thms)
qed

definition demo_leader_doc :: "real list \<Rightarrow> yv" where
  "demo_leader_doc off = YMap [(''servers'', YNull), (''leaders'', YMap [(''left'', YMap [(''raw_to_dfc'', YMap [(''offsets_deg'', YList (map YNum off))])]),
     (''right'', YMap [(''raw_to_dfc'', YMap [(''offsets_deg'', YList [])])])])]"

lemma calibration_saves_one_leader_witness:
  "\<exists>u doc' leaders'. apply_to_leader (\<lambda>k x. x) (\<lambda>v. v) (Inr ()) (Inr ()) ''left'' [1] [] None None None (demo_leader_doc [5]) = (Inr u, doc')
     \<and> doc' = YMap (dput ''leaders'' (YMap leaders') [(''servers'', YNull), (''leaders'', YMap [(''left'', YMap [(''raw_to_dfc'', YMap [(''offsets_deg'', YList [YNum 5])])]),
     (''right'', YMap [(''raw_to_dfc'', YMap [(''offsets_deg'', YList [])])])])])
     \<and> dget leaders' ''right'' = Some (YMap [(''raw_to_dfc'', YMap [(''offsets_deg'', YList [])])])"
proof -
  let ?run = "apply_to_leader (\<lambda>k x. x) (\<lambda>v. v) (Inr ()) (Inr ()) ''left'' [1] [] None None None (demo_leader_doc [5])"
  obtain doc' where run: "?run = (Inr (), doc')"
    by (simp add: apply_to_leader_def new_document_def demo_leader_doc_def child_map_def new_leader_def put_home_def reads_back_def drop_offset_def
        new_convention_def setdefault_def put_opt_def Let_def)
  show ?thesis using calibration_saves_one_leader[OF _ run] run by (auto simp: demo_leader_doc_def)
qed

end
