(* ===== verification/Native_Rt.thy ===== *)
theory Native_Rt
  imports Arm_Session
begin

text \<open>
  The launcher of the native real-time controller, \<^verbatim>\<open>interfaces/flexiv/native_rt.py\<close>, and the hand-over of
  the robot around it (\<^verbatim>\<open>FlexivInterface._run_native_rt\<close>).

  \<^item> \<open>find_controller\<close> and \<open>controller_args\<close> choose the executable and build its command line. The
    file system is an argument; so is the text \<open>fstr\<close> of a float.
  \<^item> \<open>run_controller\<close> supervises the child process. The child is a function \<open>ch\<close>: from the signals sent
    to it so far (each with the moment it was sent) and a moment to the exit status it has by then, or
    \<open>None\<close> while it runs. Moments are milliseconds; a sleep of 0.01 s takes ten of them, and a wait
    looks at the child at every moment up to its timeout. The polling loop ends only when the child
    exits or the stop event is set, so it takes fuel, one unit per poll.
  \<^item> \<open>run_native_rt\<close> closes the Python client, runs the controller and opens the client again. It is
    shown to be the native phase of \<open>Arm_Session\<close>.
\<close>

section \<open>The executable\<close>

definition EXECUTABLE :: string where
  "EXECUTABLE = ''dfc-flexiv-rt-controller''"

text \<open>The candidates in the order they are tried: the override, the installed program, the build tree.\<close>

definition controller_candidates ::
    "(string \<Rightarrow> string res) \<Rightarrow> string option \<Rightarrow> string option \<Rightarrow> string \<Rightarrow> string list res" where
  "controller_candidates expanduser override installed repo =
     rbind (case override of
              None \<Rightarrow> Inr []
            | Some p \<Rightarrow> if p = '''' then Inr [] else rbind (expanduser p) (\<lambda>q. Inr [q])) (\<lambda>own.
     Inr (own @ (case installed of None \<Rightarrow> [] | Some p \<Rightarrow> if p = '''' then [] else [p])
            @ [repo @ ''/build/native-flexiv-rt/'' @ EXECUTABLE]))"

text \<open>\<open>runs p\<close>: \<open>p\<close> is a regular file this process may execute; looking may itself raise.\<close>

fun first_runnable :: "(string \<Rightarrow> bool res) \<Rightarrow> string list \<Rightarrow> string res" where
  "first_runnable runs [] = Inl FileNotFoundError"
| "first_runnable runs (p # ps) = rbind (runs p) (\<lambda>ok. if ok then Inr p else first_runnable runs ps)"

definition find_controller ::
    "(string \<Rightarrow> string res) \<Rightarrow> (string \<Rightarrow> bool res) \<Rightarrow> string option \<Rightarrow> string option \<Rightarrow> string \<Rightarrow> string res" where
  "find_controller expanduser runs override installed repo =
     rbind (controller_candidates expanduser override installed repo) (first_runnable runs)"

section \<open>The command line\<close>

text \<open>What the command line takes from \<^verbatim>\<open>ArmCfg\<close> beyond the fields of \<open>arm_node_cfg\<close>.\<close>

record rt_arm_cfg = arm_node_cfg +
  rt_serial :: string
  rt_dof :: nat
  rt_verbose :: bool
  rt_priority :: int

text \<open>\<open>str\<close> of an integer.\<close>

fun show_nat :: "nat \<Rightarrow> string" where
  "show_nat n = (if n < 10 then [char_of (48 + n)] else show_nat (n div 10) @ [char_of (48 + n mod 10)])"

declare show_nat.simps [simp del]

definition show_int :: "int \<Rightarrow> string" where
  "show_int i = (if i < 0 then CHR ''-'' # show_nat (nat (- i)) else show_nat (nat i))"

definition show_flag :: "bool \<Rightarrow> string" where
  "show_flag b = (if b then ''1'' else ''0'')"

definition add_arg :: "string \<Rightarrow> string \<Rightarrow> string list \<Rightarrow> string list" where
  "add_arg key v args = args @ [key, v]"

definition TELEMETRY_FLAGS :: "(string \<times> string) list" where
  "TELEMETRY_FLAGS =
     [(''q'', ''--q-shm''), (''dq'', ''--dq-shm''), (''tau'', ''--tau-shm''), (''tau_ext'', ''--tau-ext-shm''),
      (''wrench'', ''--wrench-shm''), (''eef'', ''--eef-shm''), (''eef_vel'', ''--eef-vel-shm''),
      (''status'', ''--status-shm'')]"

definition telemetry_args :: "(string, string) dict \<Rightarrow> string list \<Rightarrow> string list res" where
  "telemetry_args shm args =
     foldR (\<lambda>(sig, flag) as. rbind (ditem shm sig) (\<lambda>name. Inr (add_arg flag name as))) TELEMETRY_FLAGS args"

definition opt_arg :: "string \<Rightarrow> (real \<Rightarrow> string) \<Rightarrow> real option \<Rightarrow> string list \<Rightarrow> string list" where
  "opt_arg key fstr v args = (case v of None \<Rightarrow> args | Some x \<Rightarrow> add_arg key (fstr x) args)"

definition gripper_args :: "(real \<Rightarrow> string) \<Rightarrow> gripper_cfg \<Rightarrow> string option \<Rightarrow> string list \<Rightarrow> string list" where
  "gripper_args fstr g gripper_shm args =
     (case gripper_shm of
        None \<Rightarrow> args
      | Some name \<Rightarrow>
          if \<not> gc_enabled g \<or> gc_name g = '''' then args
          else opt_arg ''--gripper-closed-width'' fstr (gc_closed_width g)
            (opt_arg ''--gripper-open-width'' fstr (gc_open_width g)
            (add_arg ''--gripper-init'' (show_flag (gc_init_on_start g))
            (add_arg ''--gripper-deadband'' (fstr (gc_deadband g))
            (add_arg ''--gripper-rate'' (fstr (gc_move_rate_hz g))
            (add_arg ''--gripper-force'' (fstr (gc_force g))
            (add_arg ''--gripper-velocity'' (fstr (gc_velocity g))
            (add_arg ''--gripper-name'' (gc_name g)
            (add_arg ''--gripper-shm'' name args)))))))))"

definition limit_args :: "(real \<Rightarrow> string) \<Rightarrow> rt_arm_cfg \<Rightarrow> control_cfg \<Rightarrow> coeffs_cfg \<Rightarrow> string list \<Rightarrow> string list" where
  "limit_args fstr arm control co args =
     add_arg ''--max-joint-acc'' (fstr (co_max_joint_acc co))
     (add_arg ''--max-joint-vel'' (fstr (co_max_joint_vel co))
     (add_arg ''--rt-priority'' (show_int (rt_priority arm))
     (add_arg ''--verbose'' (show_flag (rt_verbose arm))
     (add_arg ''--tolerance'' (fstr (ac_tolerance arm))
     (add_arg ''--safety-check'' (show_flag (ac_safety_check arm))
     (add_arg ''--deadman-hard-ms'' (fstr (cc_deadman_hard_ms (ct_channel control)))
     (add_arg ''--deadman-ms'' (fstr (cc_deadman_ms (ct_channel control)))
     (add_arg ''--wrench-frame'' (ac_wrench_frame arm) args))))))))"

definition controller_args ::
    "(real \<Rightarrow> string) \<Rightarrow> string \<Rightarrow> rt_arm_cfg \<Rightarrow> control_cfg \<Rightarrow> coeffs_cfg \<Rightarrow> string \<Rightarrow> string
     \<Rightarrow> (string, string) dict \<Rightarrow> string option \<Rightarrow> string list res" where
  "controller_args fstr executable arm control co setpoint_shm command_shm telemetry_shm gripper_shm =
     rbind (telemetry_args telemetry_shm
        (add_arg ''--command-shm'' command_shm
        (add_arg ''--setpoint-shm'' setpoint_shm
        (add_arg ''--dof'' (show_nat (rt_dof arm))
        (add_arg ''--serial'' (rt_serial arm) [executable]))))) (\<lambda>args.
     Inr (gripper_args fstr (ac_gripper arm) gripper_shm (limit_args fstr arm control co args)))"

section \<open>The child process\<close>

datatype rt_signal = Terminate | Kill

type_synonym rt_child = "(nat \<times> rt_signal) list \<Rightarrow> nat \<Rightarrow> int option"

record rt_proc =
  pc_now :: nat
  pc_sent :: "(nat \<times> rt_signal) list"

definition poll_child :: "rt_child \<Rightarrow> rt_proc \<Rightarrow> int option" where
  "poll_child ch p = ch (pc_sent p) (pc_now p)"

text \<open>\<^verbatim>\<open>Popen.send_signal\<close> polls first: a child that has exited is sent nothing.\<close>

definition send_child :: "rt_child \<Rightarrow> rt_signal \<Rightarrow> rt_proc \<Rightarrow> rt_proc" where
  "send_child ch sig p =
     (if poll_child ch p = None then p\<lparr>pc_sent := pc_sent p @ [(pc_now p, sig)]\<rparr> else p)"

text \<open>\<^verbatim>\<open>Popen.wait\<close> with a timeout; \<open>None\<close> is \<^verbatim>\<open>TimeoutExpired\<close>.\<close>

fun wait_child :: "rt_child \<Rightarrow> nat \<Rightarrow> rt_proc \<Rightarrow> int option \<times> rt_proc" where
  "wait_child ch 0 p = (poll_child ch p, p)"
| "wait_child ch (Suc ms) p =
     (case poll_child ch p of
        Some rc \<Rightarrow> (Some rc, p)
      | None \<Rightarrow> wait_child ch ms (p\<lparr>pc_now := pc_now p + 1\<rparr>))"

fun watch_child :: "rt_child \<Rightarrow> (nat \<Rightarrow> bool) \<Rightarrow> nat \<Rightarrow> rt_proc \<Rightarrow> rt_proc option" where
  "watch_child ch stop 0 p = None"
| "watch_child ch stop (Suc k) p =
     (if poll_child ch p \<noteq> None then Some p
      else if stop (pc_now p) then Some (send_child ch Terminate p)
      else watch_child ch stop k (p\<lparr>pc_now := pc_now p + 10\<rparr>))"

definition await_exit :: "rt_child \<Rightarrow> rt_proc \<Rightarrow> int option \<times> rt_proc" where
  "await_exit ch p =
     (case wait_child ch 5000 p of
        (Some rc, p1) \<Rightarrow> (Some rc, p1)
      | (None, p1) \<Rightarrow> wait_child ch 2000 (send_child ch Kill p1))"

text \<open>The \<open>finally\<close> clause; \<open>False\<close> is a \<^verbatim>\<open>TimeoutExpired\<close> it raises itself.\<close>

definition reap_child :: "rt_child \<Rightarrow> rt_proc \<Rightarrow> bool \<times> rt_proc" where
  "reap_child ch p =
     (if poll_child ch p \<noteq> None then (True, p)
      else case wait_child ch 2000 (send_child ch Terminate p) of
        (Some rc, p1) \<Rightarrow> (True, p1)
      | (None, p1) \<Rightarrow> (case wait_child ch 2000 (send_child ch Kill p1) of (w, p2) \<Rightarrow> (w \<noteq> None, p2)))"

definition run_controller :: "rt_child \<Rightarrow> (nat \<Rightarrow> bool) \<Rightarrow> nat \<Rightarrow> rt_proc \<Rightarrow> (unit res \<times> rt_proc) option" where
  "run_controller ch stop fuel p =
     map_option (\<lambda>p1.
       case await_exit ch p1 of (w, p2) \<Rightarrow>
       case reap_child ch p2 of (ok, p3) \<Rightarrow>
         (case w of
            None \<Rightarrow> Inl TimeoutExpired
          | Some rc \<Rightarrow> if \<not> ok then Inl TimeoutExpired else if rc \<noteq> 0 then Inl RuntimeError else Inr (), p3))
       (watch_child ch stop fuel p)"

section \<open>The hand-over\<close>

text \<open>The segment of each telemetry stream, from the writers of the arm process.\<close>

definition telemetry_shm :: "(string, string) dict \<Rightarrow> rt_arm_cfg \<Rightarrow> (string, string) dict res" where
  "telemetry_shm writers arm =
     foldR (\<lambda>sig d. rbind (ditem writers (ac_side arm @ ''/'' @ sig)) (\<lambda>name. Inr (dput sig name d)))
       (dkeys (ac_streams arm) @ [STATUS_SIGNAL]) []"

text \<open>What the outside supplies to one hand-over.\<close>

record rt_world =
  rw_find :: "string res"
  rw_fstr :: "real \<Rightarrow> string"
  rw_writers :: "(string, string) dict"
  rw_setpoint_shm :: string
  rw_command_shm :: string
  rw_gripper_shm :: "string option"
  rw_spawn :: "nat res"
  rw_child :: "string list \<Rightarrow> rt_child"
  rw_stop :: "nat \<Rightarrow> bool"
  rw_fuel :: nat
  rw_reopen :: "unit res \<times> arm_source"

definition hand_over_args :: "rt_arm_cfg \<Rightarrow> control_cfg \<Rightarrow> coeffs_cfg \<Rightarrow> rt_world \<Rightarrow> string list res" where
  "hand_over_args arm control co w =
     rbind (rw_find w) (\<lambda>exe.
     rbind (telemetry_shm (rw_writers w) arm) (\<lambda>shm.
     controller_args (rw_fstr w) exe arm control co (rw_setpoint_shm w) (rw_command_shm w) shm (rw_gripper_shm w)))"

text \<open>
  The run of the controller: its \<open>Popen\<close> may raise. The second component is the child at the moment
  the \<open>finally\<close> clause opens the Python client again, \<open>None\<close> when no child was started.
\<close>

definition controller_phase :: "rt_world \<Rightarrow> string list \<Rightarrow> (unit res \<times> rt_proc option) option" where
  "controller_phase w argv =
     (case rw_spawn w of
        Inl e \<Rightarrow> Some (Inl e, None)
      | Inr t \<Rightarrow> map_option (\<lambda>(r, p). (r, Some p))
          (run_controller (rw_child w argv) (rw_stop w) (rw_fuel w) \<lparr>pc_now = t, pc_sent = []\<rparr>))"

text \<open>
  The whole hand-over: the result, the source the arm process holds afterwards, and the child as the
  \<open>finally\<close> clause finds it. Nothing is closed before the command line is complete. The handle that is
  closed is dropped; the source opened afterwards is a new client. An exception of \<open>open_source\<close> replaces
  the controller's and leaves the source it had got to.
\<close>

definition run_native_rt ::
    "rt_arm_cfg \<Rightarrow> control_cfg \<Rightarrow> coeffs_cfg \<Rightarrow> rt_world \<Rightarrow> arm_source \<Rightarrow> (unit res \<times> arm_source \<times> rt_proc option) option" where
  "run_native_rt arm control co w src =
     (case hand_over_args arm control co w of
        Inl e \<Rightarrow> Some (Inl e, src, None)
      | Inr argv \<Rightarrow>
          map_option (\<lambda>(r, child).
             (case fst (rw_reopen w) of Inl e \<Rightarrow> Inl e | Inr u \<Rightarrow> r, snd (rw_reopen w), child))
             (controller_phase w argv))"

section \<open>Choosing the executable\<close>

lemma first_runnable_first:
  "first_runnable runs ps = Inr p \<Longrightarrow>
     \<exists>i < length ps. p = ps ! i \<and> runs p = Inr True \<and> (\<forall>j < i. runs (ps ! j) = Inr False)"
proof (induction ps)
  case (Cons q ps)
  show ?case
  proof (cases "runs q = Inr True")
    case True
    then show ?thesis using Cons.prems by (intro exI[of _ 0]) auto
  next
    case False
    then have f: "runs q = Inr False" "first_runnable runs ps = Inr p" using Cons.prems by (auto split: if_splits)
    then obtain i where i: "i < length ps" "p = ps ! i" "runs p = Inr True" "\<forall>j < i. runs (ps ! j) = Inr False"
      using Cons.IH by blast
    have "runs ((q # ps) ! j) = Inr False" if h: "j < Suc i" for j
      using h i(4) f(1) by (cases j) auto
    then show ?thesis using i by (intro exI[of _ "Suc i"]) auto
  qed
qed simp

section \<open>What is assumed of a child process\<close>

text \<open>An exit status stays, and a process that was sent SIGKILL is gone two seconds later.\<close>

definition stays :: "rt_child \<Rightarrow> bool" where
  "stays ch \<longleftrightarrow> (\<forall>h t t' rc. ch h t = Some rc \<longrightarrow> t \<le> t' \<longrightarrow> ch h t' = Some rc)"

definition killable :: "rt_child \<Rightarrow> bool" where
  "killable ch \<longleftrightarrow> (\<forall>h t0 t. (t0, Kill) \<in> set h \<longrightarrow> t0 + 2000 \<le> t \<longrightarrow> ch h t \<noteq> None)"

section \<open>Supervision\<close>

lemma send_child_now [simp]: "pc_now (send_child ch sig p) = pc_now p"
  by (simp add: send_child_def)

lemma wait_child_result:
  "wait_child ch ms p = (w, p') \<Longrightarrow>
     w = poll_child ch p' \<and> pc_sent p' = pc_sent p \<and> pc_now p \<le> pc_now p' \<and> pc_now p' \<le> pc_now p + ms
     \<and> (w = None \<longrightarrow> pc_now p' = pc_now p + ms)"
proof (induction ch ms p rule: wait_child.induct)
  case (2 ch ms p)
  show ?case
  proof (cases "poll_child ch p")
    case None
    then show ?thesis using 2 by (fastforce simp: poll_child_def)
  next
    case (Some rc)
    then have "w = Some rc" "p' = p" using 2(2) by simp_all
    then show ?thesis using Some by simp
  qed
qed auto

text \<open>Waiting after SIGKILL always finds the child gone.\<close>

lemma kill_ends:
  assumes k: "killable ch" and s: "stays ch" and w: "wait_child ch 2000 (send_child ch Kill p) = (w, p')"
  shows "w \<noteq> None"
proof (cases "poll_child ch p = None")
  case True
  show ?thesis
  proof
    assume "w = None"
    then have "pc_now p' = pc_now p + 2000" "pc_sent p' = pc_sent p @ [(pc_now p, Kill)]" "poll_child ch p' = None"
      using wait_child_result[OF w] True by (simp_all add: send_child_def)
    then have "ch (pc_sent p') (pc_now p') = None" "(pc_now p, Kill) \<in> set (pc_sent p')" "pc_now p + 2000 \<le> pc_now p'"
      by (simp_all add: poll_child_def)
    then show False using k unfolding killable_def by blast
  qed
next
  case False
  then have c: "send_child ch Kill p = p" by (simp add: send_child_def)
  obtain rc where "ch (pc_sent p) (pc_now p) = Some rc" using False by (auto simp: poll_child_def)
  moreover have e: "w = poll_child ch p'" "pc_sent p' = pc_sent p" "pc_now p \<le> pc_now p'"
    using wait_child_result[OF w] unfolding c by blast+
  ultimately have "ch (pc_sent p') (pc_now p') = Some rc" using s unfolding stays_def by metis
  then show ?thesis unfolding e(1) poll_child_def by simp
qed

lemma await_exit_ends:
  assumes k: "killable ch" and s: "stays ch" and a: "await_exit ch p = (w, p')"
  shows "w \<noteq> None" "w = poll_child ch p'" "pc_now p' \<le> pc_now p + 7000"
proof -
  obtain v p1 where v: "wait_child ch 5000 p = (v, p1)" by fastforce
  have "w \<noteq> None \<and> w = poll_child ch p' \<and> pc_now p' \<le> pc_now p + 7000"
  proof (cases v)
    case None
    then have w: "wait_child ch 2000 (send_child ch Kill p1) = (w, p')" using a v by (simp add: await_exit_def)
    show ?thesis using kill_ends[OF k s w] wait_child_result[OF w] wait_child_result[OF v] by simp
  next
    case (Some rc)
    then have w: "w = Some rc" "p' = p1" using a v by (auto simp: await_exit_def)
    have "poll_child ch p1 = Some rc" "pc_now p1 \<le> pc_now p + 5000" using wait_child_result[OF v] Some by simp_all
    then show ?thesis using w by simp
  qed
  then show "w \<noteq> None" "w = poll_child ch p'" "pc_now p' \<le> pc_now p + 7000" by blast+
qed

lemma run_controller_ends:
  assumes k: "killable ch" and s: "stays ch" and r: "run_controller ch stop fuel p = Some (r, p')"
  obtains p1 rc where "watch_child ch stop fuel p = Some p1" "poll_child ch p' = Some rc"
    "pc_now p' \<le> pc_now p1 + 7000" "r = (if rc = 0 then Inr () else Inl RuntimeError)"
proof -
  obtain p1 where w: "watch_child ch stop fuel p = Some p1"
    using r by (auto simp: run_controller_def)
  obtain v p2 where a: "await_exit ch p1 = (v, p2)" by fastforce
  obtain rc where rc: "v = Some rc" "poll_child ch p2 = Some rc"
    using await_exit_ends(1,2)[OF k s a] by (cases v) auto
  have "reap_child ch p2 = (True, p2)" using rc by (simp add: reap_child_def)
  then have "r = (if rc = 0 then Inr () else Inl RuntimeError)" "p' = p2"
    using r w a rc by (auto simp: run_controller_def)
  then show thesis using that w rc await_exit_ends(3)[OF k s a] by blast
qed

text \<open>The polling loop ends by the first poll after the stop event.\<close>

lemma watch_child_ends:
  assumes "\<forall>t \<ge> T. stop t" "pc_now p \<le> T + 10" "(T + 10 - pc_now p) div 10 < k"
  shows "\<exists>p1. watch_child ch stop k p = Some p1 \<and> pc_now p1 \<le> T + 10"
  using assms
proof (induction ch stop k p rule: watch_child.induct)
  case (2 ch stop k p)
  show ?case
  proof (cases "poll_child ch p \<noteq> None \<or> stop (pc_now p)")
    case True
    then show ?thesis using 2(3) by auto
  next
    case False
    then have "pc_now p < T" using 2(2) by (meson not_le)
    then have "(T + 10 - (pc_now p + 10)) div 10 < k" using 2(4) by linarith
    moreover have "pc_now p + 10 \<le> T + 10" using \<open>pc_now p < T\<close> by simp
    ultimately show ?thesis using 2(1)[OF _ _ 2(2)] False by simp
  qed
qed simp

section \<open>The robot has one owner\<close>


text \<open>
  C23. The controller is always given up: once the stop event is set for good at the moment \<open>T\<close>, the run returns,
  with enough fuel for the polls up to then, at most 7.01 seconds later, whatever the controller does about
  SIGTERM. Hypotheses: an exit status stays, and SIGKILL ends a process within two seconds.
\<close>

theorem controller_stops_in_time:
  assumes "stays ch" "killable ch" "\<forall>t \<ge> T. stop t" "pc_now p \<le> T" "T + 20 \<le> fuel * 10 + pc_now p"
  shows "\<exists>r p'. run_controller ch stop fuel p = Some (r, p') \<and> r \<noteq> Inl TimeoutExpired
    \<and> poll_child ch p' \<noteq> None \<and> pc_now p' \<le> T + 7010"
proof -
  obtain p1 where p1: "watch_child ch stop fuel p = Some p1" "pc_now p1 \<le> T + 10"
    using watch_child_ends[OF assms(3), of p fuel ch] assms(4,5) by force
  obtain r p' where r: "run_controller ch stop fuel p = Some (r, p')"
    using p1(1) by (cases "run_controller ch stop fuel p") (auto simp: run_controller_def)
  obtain rc where "poll_child ch p' = Some rc" "pc_now p' \<le> pc_now p1 + 7000"
      "r = (if rc = 0 then Inr () else Inl RuntimeError)"
    using run_controller_ends[OF assms(2,1) r] p1(1) by (metis option.inject)
  then show ?thesis using r p1(2) by (intro exI[of _ r] exI[of _ p']) (auto split: if_splits)
qed

section \<open>The native phase of a control session\<close>

text \<open>The outcome of a hand-over, as the control session of \<open>Arm_Session\<close> takes it.\<close>

definition native_world ::
    "rt_arm_cfg \<Rightarrow> control_cfg \<Rightarrow> coeffs_cfg \<Rightarrow> rt_world \<Rightarrow> session_world \<Rightarrow> session_world" where
  "native_world arm control co w sw =
     (let run = rbind (hand_over_args arm control co w) (\<lambda>argv. Inr (controller_phase w argv)) in
      sw\<lparr>sw_native_find := rbind (hand_over_args arm control co w) (\<lambda>argv. Inr ()),
         sw_native := (case run of Inr (Some (r, child)) \<Rightarrow> r | _ \<Rightarrow> Inr ()),
         sw_native_reopen := (case run of Inr (Some rc) \<Rightarrow> Some (rw_reopen w) | _ \<Rightarrow> None)\<rparr>)"

text \<open>
  The native phase of a control session is implemented by the hand-over: on the outcome of the executable
  search, the command line, the supervised child and the reopening, the phase of the arm process gives the result of
  the hand-over and leaves the source it leaves, and does not return exactly when the hand-over does not.
\<close>

theorem native_phase_implemented:
  "native_phase (native_world arm control co w sw) n =
     map_option (\<lambda>(r, src, child). (r, n\<lparr>an_source := src\<rparr>)) (run_native_rt arm control co w (an_source n))"
proof (cases "hand_over_args arm control co w")
  case (Inl e)
  then show ?thesis by (simp add: native_phase_def native_world_def run_native_rt_def)
next
  case (Inr argv)
  show ?thesis
  proof (cases "controller_phase w argv")
    case None
    then show ?thesis using Inr by (simp add: native_phase_def native_world_def run_native_rt_def)
  next
    case (Some x)
    obtain r child where x: "x = (r, child)" by (cases x)
    obtain q s where q: "rw_reopen w = (q, s)" by (cases "rw_reopen w")
    show ?thesis using Inr Some x q
      by (cases q) (simp_all add: native_phase_def native_world_def run_native_rt_def)
  qed
qed

section \<open>Witnesses\<close>

text \<open>A controller that runs until a signal and is gone 20 ms after it.\<close>

definition demo_child :: rt_child where
  "demo_child h t = (if list_ex (\<lambda>x. fst x + 20 \<le> t) h then Some 0 else None)"

lemma demo_child_ok: "stays demo_child" "killable demo_child"
  unfolding stays_def killable_def demo_child_def list_ex_iff by (force split: if_splits)+

lemma wait_child_numeral:
  "wait_child ch (numeral k) p =
     (case poll_child ch p of
        Some rc \<Rightarrow> (Some rc, p)
      | None \<Rightarrow> wait_child ch (pred_numeral k) (p\<lparr>pc_now := pc_now p + 1\<rparr>))"
  by (simp add: numeral_eq_Suc)

lemma demo_child_run:
  "run_controller demo_child (\<lambda>t. 10 \<le> t) 3 \<lparr>pc_now = 0, pc_sent = []\<rparr> = Some (Inr (), \<lparr>pc_now = 30, pc_sent = [(10, Terminate)]\<rparr>)"
  by (simp add: run_controller_def await_exit_def reap_child_def poll_child_def send_child_def demo_child_def
      wait_child_numeral numeral_3_eq_3)

theorem controller_stops_in_time_witness:
  "\<exists>r p'. run_controller demo_child (\<lambda>t. 10 \<le> t) 3 \<lparr>pc_now = 0, pc_sent = []\<rparr> = Some (r, p')
     \<and> r \<noteq> Inl TimeoutExpired \<and> poll_child demo_child p' \<noteq> None \<and> pc_now p' \<le> 7020"
  using controller_stops_in_time[OF demo_child_ok, of 10 "\<lambda>t. 10 \<le> t" "\<lparr>pc_now = 0, pc_sent = []\<rparr>" 3] by simp

definition demo_rt_arm :: rt_arm_cfg where
  "demo_rt_arm = arm_node_cfg.extend
     (demo_node_cfg\<lparr>ac_streams := map (\<lambda>s. (s, \<lparr>sc_dim = 1, sc_dtype = ''float64'', sc_capacity = 8, sc_rate_hz = 100, sc_dummy = False\<rparr>))
        [''q'', ''dq'', ''tau'', ''tau_ext'', ''wrench'', ''eef'', ''eef_vel'']\<rparr>)
     \<lparr>rt_serial = ''Rizon4-1'', rt_dof = 1, rt_verbose = False, rt_priority = 0\<rparr>"

definition demo_writers :: "(string, string) dict" where
  "demo_writers = map (\<lambda>(s, f). (''left/'' @ s, ''dfc_'' @ s)) TELEMETRY_FLAGS"

definition demo_rt_world :: "(string, string) dict \<Rightarrow> rt_world" where
  "demo_rt_world writers = \<lparr>rw_find = Inr ''rt'', rw_fstr = (\<lambda>x. ''1.0''), rw_writers = writers, rw_setpoint_shm = ''sp'',
     rw_command_shm = ''cmd'', rw_gripper_shm = None, rw_spawn = Inr 0, rw_child = (\<lambda>argv. demo_child),
     rw_stop = (\<lambda>t. 10 \<le> t), rw_fuel = 3, rw_reopen = (Inr (), Real (demo_source [0]))\<rparr>"

lemmas demo_rt_defs = demo_rt_world_def demo_rt_arm_def demo_writers_def TELEMETRY_FLAGS_def arm_node_cfg.defs demo_node_cfg_def

text \<open>With every segment published the robot comes back from the child; with one missing it is never given away.\<close>

lemma demo_hand_over:
  "\<exists>argv. hand_over_args demo_rt_arm (ac_control demo_rt_arm) demo_coeffs (demo_rt_world demo_writers) = Inr argv"
  "hand_over_args demo_rt_arm (ac_control demo_rt_arm) demo_coeffs (demo_rt_world []) = Inl KeyError"
  by (simp_all add: hand_over_args_def demo_rt_defs telemetry_shm_def STATUS_SIGNAL_def ditem_def
      controller_args_def telemetry_args_def)


end
