(* ===== verification/Rt_Controller.thy ===== *)
theory Rt_Controller
  imports Native_Rt
begin

text \<open>
  The native real-time controller itself, \<^verbatim>\<open>native/flexiv_rt_controller/main.cpp\<close>: the program the arm
  process hands the robot to. Modelled are its reading of the command line, the reads of the setpoint and
  command rings, the trajectory generator, the servo loop with its deadman and joint gate, the start of a session, and the gripper worker.

  A thrown \<^verbatim>\<open>invalid_argument\<close>, \<^verbatim>\<open>runtime_error\<close> or \<^verbatim>\<open>out_of_range\<close> is \<open>ValueError\<close>,
  \<open>RuntimeError\<close> or \<open>IndexError\<close>; all of them end the program with status 1. Doubles are reals.
  \<open>stod\<close> and \<open>stoul\<close> are arguments. What the robot and the rings answer is an observation: of one
  pass of a loop, or of one attempt to read a slot. Exceptions of the RDK itself are not modelled.
\<close>

section \<open>The command line\<close>

definition dashes :: "string \<Rightarrow> bool" where
  "dashes s \<longleftrightarrow> take 2 s = ''--''"

fun parse_args :: "string list \<Rightarrow> (string, string) dict \<Rightarrow> (string, string) dict res" where
  "parse_args [] m = Inr m"
| "parse_args [k] m = (if dashes k then Inr (dput k ''1'' m) else Inl ValueError)"
| "parse_args (k # v # rest) m =
     (if \<not> dashes k then Inl ValueError
      else if dashes v then parse_args (v # rest) (dput k ''1'' m)
      else parse_args rest (dput k v m))"

definition args_get :: "(string, string) dict \<Rightarrow> string \<Rightarrow> string res" where
  "args_get m key = (case dget m key of None \<Rightarrow> Inl ValueError | Some v \<Rightarrow> Inr v)"

definition args_get_or :: "(string, string) dict \<Rightarrow> string \<Rightarrow> string \<Rightarrow> string" where
  "args_get_or m key fallback = (case dget m key of None \<Rightarrow> fallback | Some v \<Rightarrow> v)"

definition args_number :: "(string \<Rightarrow> real res) \<Rightarrow> (string, string) dict \<Rightarrow> string \<Rightarrow> real \<Rightarrow> real res" where
  "args_number stod m key fallback = (case dget m key of None \<Rightarrow> Inr fallback | Some v \<Rightarrow> stod v)"

definition args_boolean :: "(string, string) dict \<Rightarrow> string \<Rightarrow> bool \<Rightarrow> bool" where
  "args_boolean m key fallback =
     (case dget m key of None \<Rightarrow> fallback | Some v \<Rightarrow> v = ''1'' \<or> v = ''true'' \<or> v = ''yes'')"

text \<open>What the constructor of \<^verbatim>\<open>Telemetry\<close> takes: the eight rings and the frame of the wrench.\<close>

definition telemetry_rings :: "(string, string) dict \<Rightarrow> (string list \<times> bool) res" where
  "telemetry_rings m =
     rbind (mapR (args_get m)
        [''--q-shm'', ''--dq-shm'', ''--tau-shm'', ''--tau-ext-shm'', ''--wrench-shm'', ''--eef-shm'', ''--eef-vel-shm'',
         ''--status-shm'']) (\<lambda>rings.
     Inr (rings, args_get_or m ''--wrench-frame'' ''local'' = ''world''))"

record rt_target =
  tg_setpoint :: string
  tg_command :: string
  tg_dof :: nat
  tg_serial :: string
  tg_verbose :: bool

definition run_target :: "(string \<Rightarrow> nat res) \<Rightarrow> (string, string) dict \<Rightarrow> rt_target res" where
  "run_target stoul m =
     rbind (args_get m ''--setpoint-shm'') (\<lambda>sp.
     rbind (args_get m ''--command-shm'') (\<lambda>cmd.
     rbind (stoul (args_get_or m ''--dof'' ''7'')) (\<lambda>dof.
     rbind (args_get m ''--serial'') (\<lambda>serial.
     Inr \<lparr>tg_setpoint = sp, tg_command = cmd, tg_dof = dof, tg_serial = serial,
          tg_verbose = args_boolean m ''--verbose'' False\<rparr>))))"

record rt_limits =
  li_soft_ns :: int
  li_hard_ns :: int
  li_safety :: bool
  li_tolerance :: real
  li_vel :: real
  li_acc :: real
  li_priority :: int

definition c_trunc :: "real \<Rightarrow> int" where
  "c_trunc x = (if 0 \<le> x then \<lfloor>x\<rfloor> else \<lceil>x\<rceil>)"

definition run_limits :: "(string \<Rightarrow> real res) \<Rightarrow> (string, string) dict \<Rightarrow> rt_limits res" where
  "run_limits stod m =
     rbind (args_number stod m ''--deadman-ms'' 100) (\<lambda>soft.
     rbind (args_number stod m ''--deadman-hard-ms'' 500) (\<lambda>hard.
     rbind (args_number stod m ''--tolerance'' (1 / 2)) (\<lambda>tol.
     rbind (args_number stod m ''--max-joint-vel'' 2) (\<lambda>vel.
     rbind (args_number stod m ''--max-joint-acc'' 3) (\<lambda>acc.
     if vel \<le> 0 \<or> acc \<le> 0 then Inl ValueError
     else rbind (args_number stod m ''--rt-priority'' 0) (\<lambda>prio.
     Inr \<lparr>li_soft_ns = c_trunc (soft * 10 ^ 6), li_hard_ns = c_trunc (hard * 10 ^ 6),
          li_safety = args_boolean m ''--safety-check'' True, li_tolerance = tol, li_vel = vel, li_acc = acc,
          li_priority = c_trunc prio\<rparr>))))))"

section \<open>Reading the rings\<close>

text \<open>
  One attempt of \<^verbatim>\<open>Ring::ReadAt\<close> at a slot: its sequence number is not the one expected; it changed while
  the payload was copied; or the payload is whole. A changed slot leaves the copied payload in the output vector.
\<close>

datatype slot_read = NoCount | WrongSlot | TornSlot "real list" | WholeSlot "real list" int

text \<open>\<^verbatim>\<open>Ring::Latest\<close> on its attempts (at most four): success, output vector, timestamp.\<close>

fun ring_latest_try :: "nat \<Rightarrow> slot_read list \<Rightarrow> real list \<Rightarrow> bool \<times> real list \<times> int" where
  "ring_latest_try 0 rs out = (False, out, 0)"
| "ring_latest_try (Suc k) [] out = (False, out, 0)"
| "ring_latest_try (Suc k) (NoCount # rs) out = (False, out, 0)"
| "ring_latest_try (Suc k) (WrongSlot # rs) out = ring_latest_try k rs out"
| "ring_latest_try (Suc k) (TornSlot x # rs) out = ring_latest_try k rs x"
| "ring_latest_try (Suc k) (WholeSlot x t # rs) out = (True, x, t)"

definition cpp_latest :: "slot_read list \<Rightarrow> bool \<times> real list \<times> int" where
  "cpp_latest rs = ring_latest_try 4 rs []"

definition llround :: "real \<Rightarrow> int" where
  "llround x = (if 0 \<le> x then \<lfloor>x + 1 / 2\<rfloor> else \<lceil>x - 1 / 2\<rceil>)"

fun stop_scan :: "(int \<Rightarrow> real list option) \<Rightarrow> nat \<Rightarrow> int \<Rightarrow> bool \<times> int" where
  "stop_scan read_at 0 cursor = (False, cursor)"
| "stop_scan read_at (Suc k) cursor =
     (case read_at cursor of
        None \<Rightarrow> (False, cursor)
      | Some row \<Rightarrow>
          if row \<noteq> [] \<and> llround (hd row) = 2 then (True, cursor + 1) else stop_scan read_at k (cursor + 1))"

definition stop_command_pending :: "int \<Rightarrow> int \<Rightarrow> (int \<Rightarrow> real list option) \<Rightarrow> int \<Rightarrow> bool \<times> int" where
  "stop_command_pending capacity count read_at cursor =
     (let c = (if count - cursor > capacity then count - capacity else cursor) in stop_scan read_at (nat (count - c)) c)"

section \<open>The trajectory generator\<close>

definition RT_DT :: real where
  "RT_DT = 1 / 1000"

definition cpp_clamp :: "real \<Rightarrow> real \<Rightarrow> real \<Rightarrow> real" where
  "cpp_clamp x lo hi = (if x < lo then lo else if hi < x then hi else x)"

definition copysign :: "real \<Rightarrow> real \<Rightarrow> real" where
  "copysign x s = (if s < 0 then - \<bar>x\<bar> else \<bar>x\<bar>)"

text \<open>One joint: the next position, velocity and acceleration of the target.\<close>

definition advance_joint :: "real \<Rightarrow> real \<Rightarrow> real \<Rightarrow> real \<Rightarrow> real \<Rightarrow> real \<times> real \<times> real" where
  "advance_joint vel acc desired q dq =
     (let delta = desired - q in
      if \<bar>delta\<bar> < 1 / 10 ^ 7 \<and> \<bar>dq\<bar> \<le> acc * RT_DT then (desired, 0, - dq / RT_DT)
      else
        let braking = sqrt (2 * acc * \<bar>delta\<bar>);
            speed = min vel braking;
            dv = cpp_clamp (copysign speed delta - dq) (- acc * RT_DT) (acc * RT_DT)
        in (q + (dq + dv) * RT_DT, dq + dv, dv / RT_DT))"

record rt_traj =
  tj_q :: "real list"
  tj_dq :: "real list"
  tj_ddq :: "real list"

definition advance_trajectory :: "real \<Rightarrow> real \<Rightarrow> real list \<Rightarrow> rt_traj \<Rightarrow> rt_traj" where
  "advance_trajectory vel acc desired tj =
     (let js = map2 (\<lambda>d (q, dq). advance_joint vel acc d q dq) desired (zip (tj_q tj) (tj_dq tj)) in
      \<lparr>tj_q = map fst js, tj_dq = map (fst \<circ> snd) js, tj_ddq = map (snd \<circ> snd) js\<rparr>)"

section \<open>The servo loop\<close>

record rt_obs =
  ro_stop :: bool
  ro_now :: int
  ro_q :: "real list"
  ro_publish :: "unit res"
  ro_fault :: bool
  ro_count :: int
  ro_read :: "int \<Rightarrow> real list option"
  ro_latest :: "slot_read list"

datatype rt_call =
    RtEnable
  | RtSwitchMode string
  | RtMoveJ "real list"
  | RtStream "real list" "real list" "real list"
  | RtGripperStop
  | RtStop

record rt_servo =
  sv_desired :: "real list"
  sv_traj :: rt_traj
  sv_last_time :: int
  sv_cursor :: int
  sv_calls :: "rt_call list"

datatype rt_verdict = RtNext | RtLeave | RtThrow py_error

text \<open>The largest joint error; \<^verbatim>\<open>at\<close> throws when the robot reports fewer joints.\<close>

definition worst_error :: "nat \<Rightarrow> real list \<Rightarrow> real list \<Rightarrow> real res" where
  "worst_error dof target q =
     (if length q < dof then Inl IndexError else Inr (foldl max 0 (map2 (\<lambda>a b. \<bar>a - b\<bar>) (take dof target) (take dof q))))"

definition rt_gate :: "rt_limits \<Rightarrow> nat \<Rightarrow> real list \<Rightarrow> real list \<Rightarrow> rt_verdict" where
  "rt_gate li dof target q =
     (if \<not> li_safety li then RtNext
      else case worst_error dof target q of
        Inl e \<Rightarrow> RtThrow e
      | Inr worst \<Rightarrow> if worst > li_tolerance li then RtLeave else RtNext)"

text \<open>The setpoint part of a pass: the vector that was filled counts when it is long enough and fresh.\<close>

definition take_setpoint :: "rt_limits \<Rightarrow> nat \<Rightarrow> rt_obs \<Rightarrow> rt_servo \<Rightarrow> rt_verdict \<times> rt_servo" where
  "take_setpoint li dof ob s =
     (case cpp_latest (ro_latest ob) of (ok, newest, t) \<Rightarrow>
      let s1 = (if ok then s\<lparr>sv_last_time := t\<rparr> else s);
          age = ro_now ob - sv_last_time s1
      in if age > li_hard_ns li then (RtLeave, s1)
         else (RtNext, if newest \<noteq> [] \<and> age \<le> li_soft_ns li \<and> dof \<le> length newest
                       then s1\<lparr>sv_desired := take dof newest\<rparr> else s1))"

definition rt_tick :: "rt_limits \<Rightarrow> nat \<Rightarrow> int \<Rightarrow> rt_obs \<Rightarrow> rt_servo \<Rightarrow> rt_verdict \<times> rt_servo" where
  "rt_tick li dof capacity ob s =
     (case ro_publish ob of
        Inl e \<Rightarrow> (RtThrow e, s)
      | Inr u \<Rightarrow>
      if ro_fault ob then (RtLeave, s)
      else case stop_command_pending capacity (ro_count ob) (ro_read ob) (sv_cursor s) of (stopped, cursor) \<Rightarrow>
      let s1 = s\<lparr>sv_cursor := cursor\<rparr> in
      if stopped then (RtLeave, s1)
      else case take_setpoint li dof ob s1 of
        (RtNext, s2) \<Rightarrow>
          (let tj = advance_trajectory (li_vel li) (li_acc li) (sv_desired s2) (sv_traj s2); s3 = s2\<lparr>sv_traj := tj\<rparr> in
           case rt_gate li dof (tj_q tj) (ro_q ob) of
             RtNext \<Rightarrow> (RtNext, s3\<lparr>sv_calls := sv_calls s3 @ [RtStream (tj_q tj) (tj_dq tj) (tj_ddq tj)]\<rparr>)
           | v \<Rightarrow> (v, s3))
      | (v, s2) \<Rightarrow> (v, s2))"

text \<open>
  Every way out of the loop, a thrown exception included, stops the gripper worker and then the robot: after
  the loop by hand, on an exception by the destructors of the worker and of the stop guard.
\<close>

definition rt_finish :: "bool \<Rightarrow> rt_servo \<Rightarrow> rt_call list" where
  "rt_finish gripper s = sv_calls s @ (if gripper then [RtGripperStop] else []) @ [RtStop]"

fun rt_loop :: "rt_limits \<Rightarrow> nat \<Rightarrow> int \<Rightarrow> bool \<Rightarrow> rt_obs list \<Rightarrow> rt_servo \<Rightarrow> (int \<times> rt_call list) option" where
  "rt_loop li dof capacity gripper [] s = None"
| "rt_loop li dof capacity gripper (ob # obs) s =
     (if ro_stop ob then Some (0, rt_finish gripper s)
      else case rt_tick li dof capacity ob s of
        (RtNext, s') \<Rightarrow> rt_loop li dof capacity gripper obs s'
      | (RtLeave, s') \<Rightarrow> Some (0, rt_finish gripper s')
      | (RtThrow e, s') \<Rightarrow> Some (1, rt_finish gripper s'))"

section \<open>A session of the controller\<close>

record rt_move =
  mv_reached :: bool
  mv_publish :: "unit res"
  mv_stop :: bool
  mv_count :: int
  mv_read :: "int \<Rightarrow> real list option"

record rt_boot =
  bo_setpoint_dim :: nat
  bo_capacity :: int
  bo_robot :: "unit res"
  bo_dof :: nat
  bo_fault :: bool
  bo_cleared :: bool
  bo_oper :: "(bool \<times> bool \<times> bool) list"
  bo_latest :: "slot_read list"
  bo_q :: "real list"
  bo_moves :: "rt_move list"
  bo_gripper :: bool
  bo_obs :: "rt_obs list"

text \<open>Waiting for the servos: operational, asked to stop, 30 seconds over.\<close>

fun await_operational :: "(bool \<times> bool \<times> bool) list \<Rightarrow> bool res option" where
  "await_operational [] = None"
| "await_operational ((operational, stop, late) # obs) =
     (if operational then Some (Inr True)
      else if stop then Some (Inr False)
      else if late then Some (Inl RuntimeError)
      else await_operational obs)"

text \<open>Waiting for the blocking move to the first setpoint; \<open>False\<close> is a stop.\<close>

fun await_move :: "int \<Rightarrow> rt_move list \<Rightarrow> int \<Rightarrow> (bool res \<times> int) option" where
  "await_move capacity [] cursor = None"
| "await_move capacity (m # ms) cursor =
     (if mv_reached m then Some (Inr True, cursor)
      else case mv_publish m of
        Inl e \<Rightarrow> Some (Inl e, cursor)
      | Inr u \<Rightarrow>
          if mv_stop m then Some (Inr False, cursor)
          else case stop_command_pending capacity (mv_count m) (mv_read m) cursor of (stopped, cursor') \<Rightarrow>
            if stopped then Some (Inr False, cursor') else await_move capacity ms cursor')"

text \<open>The gate before any motion.\<close>

definition rt_preflight :: "(string \<Rightarrow> real res) \<Rightarrow> (string, string) dict \<Rightarrow> nat \<Rightarrow> real list \<Rightarrow> real list \<Rightarrow> unit res" where
  "rt_preflight stod m dof setpoint q =
     (if \<not> args_boolean m ''--safety-check'' True then Inr ()
      else rbind (worst_error dof setpoint q) (\<lambda>worst.
           rbind (args_number stod m ''--tolerance'' (1 / 2)) (\<lambda>tol.
           if worst > tol then Inl RuntimeError else Inr ())))"

text \<open>The seven-joint target of the move, in degrees.\<close>

definition target_deg :: "nat \<Rightarrow> real list \<Rightarrow> real list" where
  "target_deg dof setpoint = take 7 (map (\<lambda>x. x * 180 / pi) (take (min dof 7) setpoint) @ replicate 7 0)"

definition rt_serve ::
    "(string \<Rightarrow> real res) \<Rightarrow> (string, string) dict \<Rightarrow> nat \<Rightarrow> rt_boot \<Rightarrow> real list \<Rightarrow> int \<Rightarrow> int \<Rightarrow> rt_call list
     \<Rightarrow> (int \<times> rt_call list) option" where
  "rt_serve stod m dof b setpoint t cursor calls =
     (let calls' = calls @ [RtSwitchMode ''RT_JOINT_POSITION''];
          s = \<lparr>sv_desired = setpoint, sv_traj = \<lparr>tj_q = setpoint, tj_dq = replicate dof 0, tj_ddq = replicate dof 0\<rparr>,
               sv_last_time = t, sv_cursor = cursor, sv_calls = calls'\<rparr>
      in case run_limits stod m of
        Inl e \<Rightarrow> Some (1, rt_finish (bo_gripper b) s)
      | Inr li \<Rightarrow> rt_loop li dof (bo_capacity b) (bo_gripper b) (bo_obs b) s)"

text \<open>\<^verbatim>\<open>vector::resize\<close>: cut, or filled up with zeros.\<close>

definition resize :: "nat \<Rightarrow> real list \<Rightarrow> real list" where
  "resize n xs = take n (xs @ replicate n 0)"

definition rt_move_first ::
    "(string \<Rightarrow> real res) \<Rightarrow> (string, string) dict \<Rightarrow> nat \<Rightarrow> rt_boot \<Rightarrow> (int \<times> rt_call list) option" where
  "rt_move_first stod m dof b =
     (case cpp_latest (bo_latest b) of (ok, out, t) \<Rightarrow>
      if \<not> ok then Some (1, [RtEnable, RtStop])
      else let setpoint = resize dof out in
        case rt_preflight stod m dof setpoint (bo_q b) of
          Inl e \<Rightarrow> Some (1, [RtEnable, RtStop])
        | Inr u \<Rightarrow>
            (let calls = [RtEnable, RtSwitchMode ''NRT_PRIMITIVE_EXECUTION'', RtMoveJ (target_deg dof setpoint)] in
             case await_move (bo_capacity b) (bo_moves b) 0 of
               None \<Rightarrow> None
             | Some (Inl e, c) \<Rightarrow> Some (1, calls @ [RtStop])
             | Some (Inr False, c) \<Rightarrow> Some (0, calls @ [RtStop])
             | Some (Inr True, c) \<Rightarrow> rt_serve stod m dof b setpoint t c calls))"

text \<open>\<^verbatim>\<open>Run\<close>: the exit status and the calls sent to the robot. From the connection on, the stop guard is armed.\<close>

definition rt_run ::
    "(string \<Rightarrow> real res) \<Rightarrow> (string \<Rightarrow> nat res) \<Rightarrow> (string, string) dict \<Rightarrow> rt_boot \<Rightarrow> (int \<times> rt_call list) option" where
  "rt_run stod stoul m b =
     (case rbind (run_target stoul m) (\<lambda>tg. rbind (telemetry_rings m) (\<lambda>rings. Inr tg)) of
        Inl e \<Rightarrow> Some (1, [])
      | Inr tg \<Rightarrow>
      if bo_setpoint_dim b < tg_dof tg \<or> bo_robot b \<noteq> Inr () then Some (1, [])
      else if bo_dof b \<noteq> tg_dof tg \<or> (bo_fault b \<and> \<not> bo_cleared b) then Some (1, [RtStop])
      else case await_operational (bo_oper b) of
        None \<Rightarrow> None
      | Some (Inl e) \<Rightarrow> Some (1, [RtEnable, RtStop])
      | Some (Inr False) \<Rightarrow> Some (0, [RtEnable, RtStop])
      | Some (Inr True) \<Rightarrow> rt_move_first stod m (tg_dof tg) b)"

section \<open>The gripper worker\<close>

definition worker_setup ::
    "(string \<Rightarrow> real res) \<Rightarrow> (string, string) dict \<Rightarrow> gripper_params \<Rightarrow> (bool \<times> gripper_state) option res" where
  "worker_setup stod m p =
     (if dget m ''--gripper-shm'' = None \<or> args_get_or m ''--gripper-name'' [] = [] then Inr None
      else
       rbind (args_number stod m ''--gripper-open-width'' (gp_max_width p)) (\<lambda>open_w.
       rbind (args_number stod m ''--gripper-closed-width'' (gp_min_width p)) (\<lambda>closed_w.
       rbind (args_number stod m ''--gripper-velocity'' (1 / 10)) (\<lambda>vel.
       rbind (args_number stod m ''--gripper-force'' 20) (\<lambda>force.
       rbind (args_number stod m ''--gripper-deadband'' (2 / 100)) (\<lambda>band.
       rbind (args_number stod m ''--gripper-rate'' 15) (\<lambda>rate.
       Inr (Some (args_boolean m ''--gripper-init'' True,
         \<lparr>gr_open_w = open_w, gr_closed_w = closed_w, gr_vel = cpp_clamp vel (gp_min_vel p) (gp_max_vel p),
          gr_force = cpp_clamp force (gp_min_force p) (gp_max_force p),
          gr_min_period_ns = c_trunc (10 ^ 9 / max (1 / 1000) rate), gr_deadband = band,
          gr_last_val = None, gr_last_send_ns = 0\<rparr>)))))))))"

record worker_obs =
  wk_stop :: bool
  wk_now :: int
  wk_latest :: "slot_read list"
  wk_raises :: bool

text \<open>The value a pass sends, if any.\<close>

definition worker_due :: "worker_obs \<Rightarrow> gripper_state \<Rightarrow> real option" where
  "worker_due ob g =
     (case cpp_latest (wk_latest ob) of (ok, sample, t) \<Rightarrow>
      if ok \<and> sample \<noteq> [] \<and> wk_now ob - gr_last_send_ns g \<ge> gr_min_period_ns g then
        (let v = cpp_clamp (hd sample) 0 1 in
         case gr_last_val g of
           None \<Rightarrow> Some v
         | Some lv \<Rightarrow> if \<bar>v - lv\<bar> \<ge> gr_deadband g then Some v else None)
      else None)"

definition gripper_move :: "gripper_state \<Rightarrow> real \<Rightarrow> rdk_call" where
  "gripper_move g v = GripperMove (gr_open_w g + v * (gr_closed_w g - gr_open_w g)) (gr_vel g) (gr_force g)"

fun worker_run :: "worker_obs list \<Rightarrow> gripper_state \<Rightarrow> rdk_call list" where
  "worker_run [] g = []"
| "worker_run (ob # obs) g =
     (if wk_stop ob then []
      else case worker_due ob g of
        None \<Rightarrow> worker_run obs g
      | Some v \<Rightarrow>
          gripper_move g v # (if wk_raises ob then [] else worker_run obs (g\<lparr>gr_last_val := Some v, gr_last_send_ns := wk_now ob\<rparr>)))"

section \<open>The trajectory generator keeps its limits\<close>

lemma clamp_bounds: "lo \<le> hi \<Longrightarrow> lo \<le> cpp_clamp x lo hi" "lo \<le> hi \<Longrightarrow> cpp_clamp x lo hi \<le> hi"
  by (auto simp: cpp_clamp_def)

text \<open>A clamped step towards a target stays between where it starts and the target.\<close>

lemma clamp_towards:
  assumes "\<bar>v\<bar> \<le> M" "\<bar>w\<bar> \<le> M" "0 \<le> (d :: real)"
  shows "\<bar>v + cpp_clamp (w - v) (- d) d\<bar> \<le> M"
  using assms by (auto simp: cpp_clamp_def abs_le_iff)

lemma abs_divide_le: "0 < (d :: real) \<Longrightarrow> \<bar>x\<bar> \<le> a * d \<Longrightarrow> \<bar>x / d\<bar> \<le> a"
  by (simp add: abs_divide pos_divide_le_eq)

lemma advance_joint_limits:
  assumes "0 < vel" "0 < acc" "\<bar>dq\<bar> \<le> vel" "advance_joint vel acc desired q dq = (q', dq', ddq')"
  shows "\<bar>dq'\<bar> \<le> vel" "\<bar>ddq'\<bar> \<le> acc" "\<bar>q' - q\<bar> \<le> max (vel * RT_DT) (1 / 10 ^ 7)"
proof -
  let ?near = "\<bar>desired - q\<bar> < 1 / 10 ^ 7 \<and> \<bar>dq\<bar> \<le> acc * RT_DT"
  let ?w = "copysign (min vel (sqrt (2 * acc * \<bar>desired - q\<bar>))) (desired - q)"
  let ?dv = "cpp_clamp (?w - dq) (- (acc * RT_DT)) (acc * RT_DT)"
  have dt: "0 < RT_DT" "0 \<le> acc * RT_DT" using assms(2) by (auto simp: RT_DT_def)
  have "\<bar>dq'\<bar> \<le> vel \<and> \<bar>ddq'\<bar> \<le> acc \<and> \<bar>q' - q\<bar> \<le> max (vel * RT_DT) (1 / 10 ^ 7)"
  proof (cases ?near)
    case True
    then have "advance_joint vel acc desired q dq = (desired, 0, - dq / RT_DT)"
      unfolding advance_joint_def Let_def by (rule if_P)
    then have "q' = desired" "dq' = 0" "ddq' = - dq / RT_DT" using assms(4) by simp_all
    moreover have "\<bar>- dq / RT_DT\<bar> \<le> acc" using abs_divide_le[OF dt(1), of "- dq" acc] True by simp
    moreover have "\<bar>desired - q\<bar> \<le> max (vel * RT_DT) (1 / 10 ^ 7)" using True by linarith
    ultimately show ?thesis using assms(1) by simp
  next
    case False
    then have "advance_joint vel acc desired q dq = (q + (dq + ?dv) * RT_DT, dq + ?dv, ?dv / RT_DT)"
      unfolding advance_joint_def Let_def minus_mult_left[symmetric] by (rule if_not_P)
    then have e: "q' = q + (dq + ?dv) * RT_DT" "dq' = dq + ?dv" "ddq' = ?dv / RT_DT" using assms(4) by simp_all
    have "0 \<le> sqrt (2 * acc * \<bar>desired - q\<bar>)" using assms(2) by simp
    then have "\<bar>?w\<bar> \<le> vel" using assms(1) by (auto simp: copysign_def)
    then have v: "\<bar>dq'\<bar> \<le> vel" using clamp_towards[OF assms(3) _ dt(2)] e(2) by simp
    have "\<bar>?dv\<bar> \<le> acc * RT_DT" using clamp_bounds[of "- (acc * RT_DT)" "acc * RT_DT" "?w - dq"] dt(2) by auto
    then have a: "\<bar>ddq'\<bar> \<le> acc" unfolding e(3) by (rule abs_divide_le[OF dt(1)])
    have "\<bar>q' - q\<bar> = \<bar>dq'\<bar> * RT_DT" using e dt(1) by (simp add: abs_mult)
    also have "\<dots> \<le> vel * RT_DT" using v dt(1) by simp
    finally show ?thesis using v a by simp
  qed
  then show "\<bar>dq'\<bar> \<le> vel" "\<bar>ddq'\<bar> \<le> acc" "\<bar>q' - q\<bar> \<le> max (vel * RT_DT) (1 / 10 ^ 7)" by blast+
qed

definition all_within :: "real \<Rightarrow> real list \<Rightarrow> bool" where
  "all_within M xs \<longleftrightarrow> (\<forall>x \<in> set xs. \<bar>x\<bar> \<le> M)"

lemma advance_trajectory_limits:
  assumes "0 < vel" "0 < acc" "all_within vel (tj_dq tj)" "length desired = n" "length (tj_q tj) = n" "length (tj_dq tj) = n"
    and t: "advance_trajectory vel acc desired tj = tj'"
  shows "all_within vel (tj_dq tj')" "all_within acc (tj_ddq tj')" "length (tj_q tj') = n" "length (tj_dq tj') = n"
    "length (tj_ddq tj') = n" "\<forall>j < n. \<bar>tj_q tj' ! j - tj_q tj ! j\<bar> \<le> max (vel * RT_DT) (1 / 10 ^ 7)"
proof -
  let ?f = "\<lambda>j. advance_joint vel acc (desired ! j) (tj_q tj ! j) (tj_dq tj ! j)"
  have js: "map2 (\<lambda>d (q, dq). advance_joint vel acc d q dq) desired (zip (tj_q tj) (tj_dq tj)) = map ?f [0..<n]"
    using assms(4-6) by (intro nth_equalityI) auto
  have tj': "tj_q tj' = map (\<lambda>j. fst (?f j)) [0..<n]" "tj_dq tj' = map (\<lambda>j. fst (snd (?f j))) [0..<n]"
      "tj_ddq tj' = map (\<lambda>j. snd (snd (?f j))) [0..<n]"
    unfolding t[symmetric] advance_trajectory_def js Let_def by (simp_all add: comp_def)
  have one: "\<bar>fst (snd (?f j))\<bar> \<le> vel" "\<bar>snd (snd (?f j))\<bar> \<le> acc"
      "\<bar>fst (?f j) - tj_q tj ! j\<bar> \<le> max (vel * RT_DT) (1 / 10 ^ 7)" if h: "j < n" for j
  proof -
    have v: "\<bar>tj_dq tj ! j\<bar> \<le> vel" using assms(3,6) h by (simp add: all_within_def)
    have e: "?f j = (fst (?f j), fst (snd (?f j)), snd (snd (?f j)))" by simp
    show "\<bar>fst (snd (?f j))\<bar> \<le> vel" "\<bar>snd (snd (?f j))\<bar> \<le> acc"
      "\<bar>fst (?f j) - tj_q tj ! j\<bar> \<le> max (vel * RT_DT) (1 / 10 ^ 7)"
      using advance_joint_limits[OF assms(1,2) v e] by blast+
  qed
  show "all_within vel (tj_dq tj')" "all_within acc (tj_ddq tj')" "length (tj_q tj') = n" "length (tj_dq tj') = n"
    "length (tj_ddq tj') = n" "\<forall>j < n. \<bar>tj_q tj' ! j - tj_q tj ! j\<bar> \<le> max (vel * RT_DT) (1 / 10 ^ 7)"
    using one by (simp_all add: tj' all_within_def)
qed

section \<open>The servo loop\<close>

lemma foldl_max_bound:
  "(x :: real) \<le> foldl max x es" "e \<in> set es \<Longrightarrow> e \<le> foldl max x es"
proof (induction es arbitrary: x)
  case (Cons y es)
  {
    case 1
    show ?case using Cons.IH(1)[of "max x y"] by simp
  next
    case 2
    then show ?case using Cons.IH[of "max x y"] by auto
  }
qed auto

lemma worst_error_bound:
  assumes "worst_error dof target q = Inr worst" "j < dof" "dof \<le> length target"
  shows "\<bar>target ! j - q ! j\<bar> \<le> worst"
proof -
  let ?es = "map2 (\<lambda>a b. \<bar>a - b\<bar>) (take dof target) (take dof q)"
  have l: "dof \<le> length q" "worst = foldl max 0 ?es" using assms(1) by (auto simp: worst_error_def split: if_splits)
  have "?es ! j = \<bar>target ! j - q ! j\<bar>" "j < length ?es" using l(1) assms(2,3) by simp_all
  then show ?thesis using foldl_max_bound(2)[of _ ?es 0] l(2) nth_mem by metis
qed

text \<open>A point the loop may stream at a pass: it was allowed to move, the point is near the measured joints.\<close>

definition pass_open :: "rt_obs \<Rightarrow> bool" where
  "pass_open ob \<longleftrightarrow> \<not> ro_stop ob \<and> ro_publish ob = Inr () \<and> \<not> ro_fault ob"

definition near_measured :: "rt_limits \<Rightarrow> nat \<Rightarrow> rt_obs \<Rightarrow> real list \<Rightarrow> bool" where
  "near_measured li dof ob q \<longleftrightarrow>
     (li_safety li \<longrightarrow> dof \<le> length (ro_q ob) \<and> (\<forall>j < dof. \<bar>q ! j - ro_q ob ! j\<bar> \<le> li_tolerance li))"

text \<open>The timestamps of the whole setpoints among some reads.\<close>

fun read_times :: "slot_read list \<Rightarrow> int list" where
  "read_times [] = []"
| "read_times (WholeSlot x t # rs) = t # read_times rs"
| "read_times (r # rs) = read_times rs"

definition stream_ok :: "rt_limits \<Rightarrow> nat \<Rightarrow> int set \<Rightarrow> rt_obs set \<Rightarrow> rt_call \<Rightarrow> bool" where
  "stream_ok li dof tms obs c \<longleftrightarrow>
     (\<forall>q dq ddq. c = RtStream q dq ddq \<longrightarrow>
        length q = dof \<and> all_within (li_vel li) dq \<and> all_within (li_acc li) ddq
        \<and> (\<exists>ob \<in> obs. pass_open ob \<and> near_measured li dof ob q \<and> (\<exists>t \<in> tms. ro_now ob - t \<le> li_hard_ns li)))"

lemma stream_ok_others [simp]:
  "stream_ok li dof T S RtStop" "stream_ok li dof T S RtGripperStop" "stream_ok li dof T S RtEnable"
  "stream_ok li dof T S (RtSwitchMode m)" "stream_ok li dof T S (RtMoveJ p)"
  by (simp_all add: stream_ok_def)

lemma latest_time: "ring_latest_try k rs out = (True, x, t) \<Longrightarrow> t \<in> set (read_times rs)"
  by (induction k rs out rule: ring_latest_try.induct) auto

definition servo_inv :: "rt_limits \<Rightarrow> nat \<Rightarrow> int set \<Rightarrow> rt_obs set \<Rightarrow> rt_servo \<Rightarrow> bool" where
  "servo_inv li dof T S s \<longleftrightarrow>
     length (sv_desired s) = dof \<and> length (tj_q (sv_traj s)) = dof \<and> length (tj_dq (sv_traj s)) = dof
     \<and> all_within (li_vel li) (tj_dq (sv_traj s)) \<and> sv_last_time s \<in> T \<and> (\<forall>c \<in> set (sv_calls s). stream_ok li dof T S c)"

lemma take_setpoint_inv:
  assumes "take_setpoint li dof ob s = (v, s')" "servo_inv li dof T S s" "set (read_times (ro_latest ob)) \<subseteq> T"
  shows "servo_inv li dof T S s'" "v = RtNext \<Longrightarrow> ro_now ob - sv_last_time s' \<le> li_hard_ns li"
proof -
  obtain ok newest t where l: "cpp_latest (ro_latest ob) = (ok, newest, t)" using prod_cases3 by blast
  have t: "ok \<Longrightarrow> t \<in> T" using l assms(3) latest_time[of 4 "ro_latest ob" "[]" newest t] unfolding cpp_latest_def by auto
  show "servo_inv li dof T S s'" using assms(1,2) t
    by (auto simp: take_setpoint_def l Let_def servo_inv_def split: if_splits)
  show "v = RtNext \<Longrightarrow> ro_now ob - sv_last_time s' \<le> li_hard_ns li"
    using assms(1) by (auto simp: take_setpoint_def l Let_def split: if_splits)
qed

lemma rt_gate_near:
  assumes "rt_gate li dof q (ro_q ob) = RtNext" "dof \<le> length q"
  shows "near_measured li dof ob q"
proof (cases "li_safety li")
  case True
  then obtain worst where w: "worst_error dof q (ro_q ob) = Inr worst" "worst \<le> li_tolerance li"
    using assms(1) by (auto simp: rt_gate_def split: sum.splits if_splits)
  have "dof \<le> length (ro_q ob)" using w(1) by (auto simp: worst_error_def split: if_splits)
  moreover have "\<bar>q ! j - ro_q ob ! j\<bar> \<le> li_tolerance li" if h: "j < dof" for j
    using worst_error_bound[OF w(1) h assms(2)] w(2) by simp
  ultimately show ?thesis by (simp add: near_measured_def)
qed (simp add: near_measured_def)

lemma rt_tick_inv:
  assumes lim: "0 < li_vel li" "0 < li_acc li" and r: "rt_tick li dof cap ob s = (v, s')"
    and i: "servo_inv li dof T S s" and ob: "ob \<in> S" "\<not> ro_stop ob" "set (read_times (ro_latest ob)) \<subseteq> T"
  shows "servo_inv li dof T S s'"
proof (cases "ro_publish ob = Inr () \<and> \<not> ro_fault ob")
  case False
  then show ?thesis using r i by (auto simp: rt_tick_def split: sum.splits if_splits)
next
  case True
  obtain stopped c where c: "stop_command_pending cap (ro_count ob) (ro_read ob) (sv_cursor s) = (stopped, c)" by fastforce
  let ?s1 = "s\<lparr>sv_cursor := c\<rparr>"
  have i1: "servo_inv li dof T S ?s1" using i by (simp add: servo_inv_def)
  obtain u s2 where u: "take_setpoint li dof ob ?s1 = (u, s2)" by fastforce
  note i2 = take_setpoint_inv[OF u i1 ob(3)]
  show ?thesis
  proof (cases "stopped \<or> u \<noteq> RtNext")
    case True
    then show ?thesis using r i1 i2(1) c u \<open>ro_publish ob = Inr () \<and> \<not> ro_fault ob\<close>
      by (auto simp: rt_tick_def Let_def split: rt_verdict.splits if_splits)
  next
    case False
    define tj where "tj = advance_trajectory (li_vel li) (li_acc li) (sv_desired s2) (sv_traj s2)"
    have inv: "length (sv_desired s2) = dof" "length (tj_q (sv_traj s2)) = dof" "length (tj_dq (sv_traj s2)) = dof"
        "all_within (li_vel li) (tj_dq (sv_traj s2))" using i2(1) by (simp_all add: servo_inv_def)
    note adv = advance_trajectory_limits[OF lim inv(4,1,2,3) tj_def[symmetric]]
    have s': "s' = s2\<lparr>sv_traj := tj\<rparr> \<or> rt_gate li dof (tj_q tj) (ro_q ob) = RtNext
        \<and> s' = s2\<lparr>sv_traj := tj, sv_calls := sv_calls s2 @ [RtStream (tj_q tj) (tj_dq tj) (tj_ddq tj)]\<rparr>"
      using r c u False True by (auto simp: rt_tick_def Let_def tj_def split: rt_verdict.splits)
    have "stream_ok li dof T S (RtStream (tj_q tj) (tj_dq tj) (tj_ddq tj))" if g: "rt_gate li dof (tj_q tj) (ro_q ob) = RtNext"
    proof -
      have "near_measured li dof ob (tj_q tj)" using rt_gate_near[OF g] adv(3) by simp
      moreover have "sv_last_time s2 \<in> T" "ro_now ob - sv_last_time s2 \<le> li_hard_ns li"
        using i2 False by (auto simp: servo_inv_def)
      ultimately show ?thesis using adv True ob(1,2) unfolding stream_ok_def pass_open_def by blast
    qed
    then show ?thesis using s' i2(1) adv by (auto simp: servo_inv_def)
  qed
qed

lemma rt_loop_inv:
  assumes "0 < li_vel li" "0 < li_acc li" "rt_loop li dof cap g obs s = Some (rc, calls)" "servo_inv li dof T S s"
    "set obs \<subseteq> S" "\<forall>ob \<in> S. set (read_times (ro_latest ob)) \<subseteq> T"
  shows "calls \<noteq> [] \<and> last calls = RtStop \<and> (\<forall>c \<in> set calls. stream_ok li dof T S c)"
  using assms
proof (induction li dof cap g obs s rule: rt_loop.induct)
  case (2 li dof cap g ob obs s)
  have fin: "rt_finish g u \<noteq> [] \<and> last (rt_finish g u) = RtStop \<and> (\<forall>c \<in> set (rt_finish g u). stream_ok li dof T S c)"
    if h: "servo_inv li dof T S u" for u using h by (auto simp: rt_finish_def servo_inv_def)
  show ?case
  proof (cases "ro_stop ob")
    case True
    then show ?thesis using 2(4,5) fin by auto
  next
    case False
    obtain v s' where v: "rt_tick li dof cap ob s = (v, s')" by fastforce
    have i: "servo_inv li dof T S s'"
      using rt_tick_inv[OF 2(2,3) v 2(5) _ False] 2(6,7) by auto
    show ?thesis
    proof (cases v)
      case RtNext
      then show ?thesis using 2(1)[OF False v[symmetric] RtNext 2(2,3) _ i _ 2(7)] 2(4,6) False v by simp
    qed (use 2(4) False v fin[OF i] in auto)
  qed
qed simp

lemma rt_loop_from_start:
  assumes li: "run_limits stod m = Inr li" and r: "rt_serve stod m dof b sp t cursor calls0 = Some (rc, calls)"
    and sp: "length sp = dof" "t \<in> T" and T: "\<forall>ob \<in> set (bo_obs b). set (read_times (ro_latest ob)) \<subseteq> T"
    and c0: "\<forall>c \<in> set calls0. stream_ok li dof T (set (bo_obs b)) c"
  shows "calls \<noteq> [] \<and> last calls = RtStop \<and> (\<forall>c \<in> set calls. stream_ok li dof T (set (bo_obs b)) c)"
proof -
  let ?s = "\<lparr>sv_desired = sp, sv_traj = \<lparr>tj_q = sp, tj_dq = replicate dof 0, tj_ddq = replicate dof 0\<rparr>,
     sv_last_time = t, sv_cursor = cursor, sv_calls = calls0 @ [RtSwitchMode ''RT_JOINT_POSITION'']\<rparr>"
  have lim: "0 < li_vel li" "0 < li_acc li" using li by (auto simp: run_limits_def split: if_splits)
  have "servo_inv li dof T (set (bo_obs b)) ?s"
    using sp c0 lim(1) by (auto simp: servo_inv_def all_within_def)
  moreover have "rt_loop li dof (bo_capacity b) (bo_gripper b) (bo_obs b) ?s = Some (rc, calls)"
    using r li by (simp add: rt_serve_def Let_def)
  ultimately show ?thesis using rt_loop_inv[OF lim _ _ subset_refl T] by blast
qed

text \<open>The moments of all whole setpoints a session reads.\<close>

definition run_times :: "rt_boot \<Rightarrow> int set" where
  "run_times b = set (read_times (bo_latest b)) \<union> (\<Union>ob \<in> set (bo_obs b). set (read_times (ro_latest ob)))"

lemma rt_move_first_safe:
  assumes "rt_move_first stod m dof b = Some (rc, calls)"
  shows "calls \<noteq> [] \<and> last calls = RtStop
    \<and> (\<forall>q dq ddq. RtStream q dq ddq \<in> set calls \<longrightarrow>
         (\<exists>li. run_limits stod m = Inr li \<and> stream_ok li dof (run_times b) (set (bo_obs b)) (RtStream q dq ddq)))"
proof -
  obtain ok out t where l: "cpp_latest (bo_latest b) = (ok, out, t)" using prod_cases3 by blast
  let ?sp = "resize dof out" and ?c = "[RtEnable, RtSwitchMode ''NRT_PRIMITIVE_EXECUTION'', RtMoveJ (target_deg dof (resize dof out))]"
  have serve: "?thesis" if h: "ok" "rt_serve stod m dof b ?sp t c ?c = Some (rc, calls)" for c
  proof (cases "run_limits stod m")
    case (Inl e)
    then show ?thesis using h by (auto simp: rt_serve_def Let_def rt_finish_def)
  next
    case (Inr li)
    have "t \<in> run_times b" using latest_time[of 4 "bo_latest b" "[]" out t] l h(1) by (simp add: cpp_latest_def run_times_def)
    moreover have "length ?sp = dof" by (simp add: resize_def min_def)
    moreover have "\<forall>ob \<in> set (bo_obs b). set (read_times (ro_latest ob)) \<subseteq> run_times b" by (auto simp: run_times_def)
    ultimately have "calls \<noteq> [] \<and> last calls = RtStop \<and> (\<forall>c \<in> set calls. stream_ok li dof (run_times b) (set (bo_obs b)) c)"
      using rt_loop_from_start[OF Inr h(2)] by simp
    then show ?thesis using Inr by blast
  qed
  show ?thesis
  proof (cases "\<exists>c. ok \<and> rt_serve stod m dof b ?sp t c ?c = Some (rc, calls)")
    case True
    then show ?thesis using serve by blast
  next
    case False
    then show ?thesis using assms l
      by (auto simp: rt_move_first_def Let_def split: if_splits sum.splits option.splits bool.splits prod.splits)
  qed
qed


section \<open>The stop command\<close>

text \<open>A STOP among the unread rows of the command ring is found, when no row is being rewritten.\<close>

lemma stop_scan_sees:
  "\<forall>i < k. read_at (c + int i) \<noteq> None \<Longrightarrow> \<exists>i < k. \<exists>row. read_at (c + int i) = Some row \<and> row \<noteq> [] \<and> llround (hd row) = 2
     \<Longrightarrow> fst (stop_scan read_at k c)"
proof (induction read_at k c rule: stop_scan.induct)
  case (2 read_at k c)
  obtain row where row: "read_at c = Some row" using 2(2) by (metis add.right_neutral not_None_eq of_nat_0 zero_less_Suc)
  show ?case
  proof (cases "row \<noteq> [] \<and> llround (hd row) = 2")
    case False
    have all: "\<forall>i < k. read_at (c + 1 + int i) \<noteq> None" using 2(2) by (force simp: add.assoc)
    obtain i r where i: "i < Suc k" "read_at (c + int i) = Some r" "r \<noteq> []" "llround (hd r) = 2" using 2(3) by blast
    then obtain j where "i = Suc j" using False row by (cases i) auto
    then have "\<exists>i < k. \<exists>row. read_at (c + 1 + int i) = Some row \<and> row \<noteq> [] \<and> llround (hd row) = 2"
      using i by (intro exI[of _ j]) (simp add: add.assoc)
    then show ?thesis using 2(1)[OF row False all] row False by simp
  qed (simp add: row)
qed simp

text \<open>So a STOP of the brain that the ring still holds ends the native loop as it ends the Python one.\<close>

theorem native_stop_seen:
  assumes "encode \<lparr>cmd_kind = STOP, cmd_args = []\<rparr> dm = Inr row" "read_at i = Some row"
    and "cursor \<le> i" "count - capacity \<le> i" "i < count" "\<forall>j < count. cursor \<le> j \<longrightarrow> count - capacity \<le> j \<longrightarrow> read_at j \<noteq> None"
  shows "fst (stop_command_pending capacity count read_at cursor)"
proof -
  have row: "row \<noteq> []" "hd row = 2"
    using assms(1) by (cases dm; auto simp: encode_def kind_code.simps split: if_splits)+
  define c where "c = (if count - cursor > capacity then count - capacity else cursor)"
  have c: "c \<le> i" "cursor \<le> c" "count - capacity \<le> c" using assms(3,4) by (auto simp: c_def)
  have "read_at (c + int j) \<noteq> None" if h: "j < nat (count - c)" for j
  proof -
    have "c + int j < count" "cursor \<le> c + int j" "count - capacity \<le> c + int j" using h c by linarith+
    then show ?thesis using assms(6) by blast
  qed
  moreover have "\<exists>j < nat (count - c). \<exists>row. read_at (c + int j) = Some row \<and> row \<noteq> [] \<and> llround (hd row) = 2"
    using c assms(2,5) row by (intro exI[of _ "nat (i - c)"]) (simp add: llround_def)
  ultimately have "fst (stop_scan read_at (nat (count - c)) c)" by (intro stop_scan_sees) blast+
  then show ?thesis by (simp add: stop_command_pending_def c_def Let_def)
qed

section \<open>A torn setpoint\<close>

text \<open>
  C38. A torn read can become the target. When all four attempts to read the newest setpoint find the slot
  being rewritten, \<^verbatim>\<open>Latest\<close> reports failure but leaves the copied, torn values in the caller's vector, and the
  loop, which only asks whether the vector is empty, takes them as the desired joints as long as the last whole setpoint is fresh.
\<close>

theorem torn_setpoint_followed:
  assumes "ro_latest ob = [TornSlot a, TornSlot b, TornSlot c, TornSlot x]" "0 < dof" "dof \<le> length x"
    and "ro_now ob - sv_last_time s \<le> li_soft_ns li" "li_soft_ns li \<le> li_hard_ns li"
  shows "fst (cpp_latest (ro_latest ob)) = False
    \<and> take_setpoint li dof ob s = (RtNext, s\<lparr>sv_desired := take dof x\<rparr>)"
proof -
  have l: "cpp_latest (ro_latest ob) = (False, x, 0)"
    by (simp add: cpp_latest_def assms(1) numeral_eq_Suc)
  have "x \<noteq> []" using assms(2,3) by auto
  then show ?thesis using assms(3-5) by (simp add: take_setpoint_def l)
qed

section \<open>The command line, written and read\<close>

definition flat :: "(string \<times> string) list \<Rightarrow> string list" where
  "flat kvs = concat (map (\<lambda>(k, v). [k, v]) kvs)"

lemma add_arg_flat: "add_arg k v (exe # flat kvs) = exe # flat (kvs @ [(k, v)])"
  by (simp add: add_arg_def flat_def)

lemma parse_flat:
  "\<forall>(k, v) \<in> set kvs. dashes k \<and> \<not> dashes v \<Longrightarrow> parse_args (flat kvs) m = Inr (fold (\<lambda>(k, v). dput k v) kvs m)"
proof (induction kvs arbitrary: m)
  case (Cons p kvs)
  obtain k v where p: "p = (k, v)" by (cases p)
  then have "dashes k" "\<not> dashes v" using Cons.prems by auto
  then show ?case using Cons.IH[of "dput k v m"] Cons.prems p by (simp add: flat_def)
qed (simp add: flat_def)

lemma dget_fold_dput:
  "dget (fold (\<lambda>(k, v). dput k v) kvs m) x = (case map_of (rev kvs) x of None \<Rightarrow> dget m x | Some v \<Rightarrow> Some v)"
proof (induction kvs arbitrary: m)
  case (Cons p kvs)
  then show ?case by (cases p) (auto simp: map_add_def split: option.splits)
qed simp

lemma show_nat_digits: "set (show_nat n) \<subseteq> (\<lambda>i. char_of (48 + i)) ` {i. i < (10 :: nat)}" "show_nat n \<noteq> []"
proof (induction n rule: show_nat.induct)
  case (1 n)
  {
    case 1
    show ?case
    proof (cases "n < 10")
      case False
      have "n mod 10 < 10" by simp
      then show ?thesis using \<open>\<not> n < 10 \<Longrightarrow> set (show_nat (n div 10)) \<subseteq> _\<close>[OF False] False
        by (subst show_nat.simps) auto
    next
      case True
      then show ?thesis by (subst show_nat.simps) auto
    qed
  next
    case 2
    show ?case by (subst show_nat.simps) simp
  }
qed

lemma minus_no_digit: "CHR ''-'' \<notin> set (show_nat n)"
proof
  assume "CHR ''-'' \<in> set (show_nat n)"
  then obtain i where "i < (10 :: nat)" "CHR ''-'' = char_of (48 + i)" using show_nat_digits(1)[of n] by blast
  then have "of_char (CHR ''-'') = ((48 + i) mod 256 :: nat)" by simp
  then show False using \<open>i < 10\<close> by simp
qed

lemma show_no_dashes: "\<not> dashes (show_nat n)" "\<not> dashes (show_int i)" "\<not> dashes (show_flag b)"
proof -
  show n: "\<not> dashes (show_nat n)" for n
  proof
    assume d: "dashes (show_nat n)"
    then have "CHR ''-'' \<in> set (take 2 (show_nat n))" by (simp add: dashes_def)
    then show False using minus_no_digit[of n] in_set_takeD by fastforce
  qed
  show "\<not> dashes (show_int i)"
  proof (cases "i < 0")
    case True
    obtain c cs where c: "show_nat (nat (- i)) = c # cs" using show_nat_digits(2) by (cases "show_nat (nat (- i))") auto
    then have "c \<noteq> CHR ''-''" using minus_no_digit[of "nat (- i)"] by auto
    then show ?thesis using True c by (simp add: show_int_def dashes_def)
  qed (simp add: show_int_def n)
  show "\<not> dashes (show_flag b)" by (simp add: show_flag_def dashes_def)
qed

lemma show_flag_read [simp]: "show_flag b = ''1'' \<or> show_flag b = ''true'' \<or> show_flag b = ''yes'' \<longleftrightarrow> b"
  by (simp add: show_flag_def)

text \<open>The options of a command line, in order.\<close>

definition limit_kvs :: "(real \<Rightarrow> string) \<Rightarrow> rt_arm_cfg \<Rightarrow> control_cfg \<Rightarrow> coeffs_cfg \<Rightarrow> (string \<times> string) list" where
  "limit_kvs fstr arm control co =
     [(''--wrench-frame'', ac_wrench_frame arm), (''--deadman-ms'', fstr (cc_deadman_ms (ct_channel control))),
      (''--deadman-hard-ms'', fstr (cc_deadman_hard_ms (ct_channel control))), (''--safety-check'', show_flag (ac_safety_check arm)),
      (''--tolerance'', fstr (ac_tolerance arm)), (''--verbose'', show_flag (rt_verbose arm)),
      (''--rt-priority'', show_int (rt_priority arm)), (''--max-joint-vel'', fstr (co_max_joint_vel co)),
      (''--max-joint-acc'', fstr (co_max_joint_acc co))]"

definition opt_kv :: "string \<Rightarrow> (real \<Rightarrow> string) \<Rightarrow> real option \<Rightarrow> (string \<times> string) list" where
  "opt_kv key fstr x = (case x of None \<Rightarrow> [] | Some r \<Rightarrow> [(key, fstr r)])"

definition gripper_kvs :: "(real \<Rightarrow> string) \<Rightarrow> gripper_cfg \<Rightarrow> string option \<Rightarrow> (string \<times> string) list" where
  "gripper_kvs fstr g gripper_shm =
     (case gripper_shm of
        None \<Rightarrow> []
      | Some name \<Rightarrow>
          if \<not> gc_enabled g \<or> gc_name g = '''' then []
          else [(''--gripper-shm'', name), (''--gripper-name'', gc_name g), (''--gripper-velocity'', fstr (gc_velocity g)),
                (''--gripper-force'', fstr (gc_force g)), (''--gripper-rate'', fstr (gc_move_rate_hz g)),
                (''--gripper-deadband'', fstr (gc_deadband g)), (''--gripper-init'', show_flag (gc_init_on_start g))]
               @ opt_kv ''--gripper-open-width'' fstr (gc_open_width g)
               @ opt_kv ''--gripper-closed-width'' fstr (gc_closed_width g))"

definition head_kvs :: "rt_arm_cfg \<Rightarrow> string \<Rightarrow> string \<Rightarrow> (string, string) dict \<Rightarrow> (string \<times> string) list" where
  "head_kvs arm sp cmd shm =
     [(''--serial'', rt_serial arm), (''--dof'', show_nat (rt_dof arm)), (''--setpoint-shm'', sp), (''--command-shm'', cmd)]
     @ map (\<lambda>(sig, flag). (flag, the (dget shm sig))) TELEMETRY_FLAGS"

lemma controller_args_flat:
  assumes "controller_args fstr exe arm control co sp cmd shm grip = Inr argv"
  shows "argv = exe # flat (head_kvs arm sp cmd shm @ limit_kvs fstr arm control co @ gripper_kvs fstr (ac_gripper arm) grip)"
    and "\<forall>(sig, flag) \<in> set TELEMETRY_FLAGS. \<exists>v. dget shm sig = Some v"
proof -
  have nil: "[exe] = exe # flat []" by (simp add: flat_def)
  obtain args where a: "telemetry_args shm (exe # flat [(''--serial'', rt_serial arm), (''--dof'', show_nat (rt_dof arm)),
        (''--setpoint-shm'', sp), (''--command-shm'', cmd)]) = Inr args"
      "argv = gripper_args fstr (ac_gripper arm) grip (limit_args fstr arm control co args)"
    using assms unfolding controller_args_def nil add_arg_flat by auto
  have tel: "args = exe # flat (head_kvs arm sp cmd shm)" "\<forall>(sig, flag) \<in> set TELEMETRY_FLAGS. \<exists>v. dget shm sig = Some v"
    using a(1) by (auto simp: telemetry_args_def TELEMETRY_FLAGS_def head_kvs_def ditem_Inr add_arg_flat)
  have "limit_args fstr arm control co args = exe # flat (head_kvs arm sp cmd shm @ limit_kvs fstr arm control co)"
    unfolding limit_args_def tel(1) add_arg_flat limit_kvs_def by simp
  then have "argv = exe # flat ((head_kvs arm sp cmd shm @ limit_kvs fstr arm control co) @ gripper_kvs fstr (ac_gripper arm) grip)"
    unfolding a(2) gripper_args_def gripper_kvs_def opt_arg_def opt_kv_def
    by (auto simp: add_arg_flat split: option.splits)
  then show "argv = exe # flat (head_kvs arm sp cmd shm @ limit_kvs fstr arm control co @ gripper_kvs fstr (ac_gripper arm) grip)"
    by simp
  show "\<forall>(sig, flag) \<in> set TELEMETRY_FLAGS. \<exists>v. dget shm sig = Some v" by (rule tel(2))
qed

text \<open>
  What the command line relies on: no value begins with two dashes, and the text of each number that is
  passed is read back as the number.
\<close>

definition arg_texts :: "rt_arm_cfg \<Rightarrow> string \<Rightarrow> string \<Rightarrow> (string, string) dict \<Rightarrow> string option \<Rightarrow> string list" where
  "arg_texts arm sp cmd shm grip =
     [rt_serial arm, sp, cmd, ac_wrench_frame arm, gc_name (ac_gripper arm)] @ map snd shm @ (case grip of None \<Rightarrow> [] | Some s \<Rightarrow> [s])"

definition arg_floats :: "rt_arm_cfg \<Rightarrow> control_cfg \<Rightarrow> coeffs_cfg \<Rightarrow> real list" where
  "arg_floats arm control co =
     (let g = ac_gripper arm in
      [cc_deadman_ms (ct_channel control), cc_deadman_hard_ms (ct_channel control), ac_tolerance arm, co_max_joint_vel co,
       co_max_joint_acc co, gc_velocity g, gc_force g, gc_move_rate_hz g, gc_deadband g]
      @ (case gc_open_width g of None \<Rightarrow> [] | Some x \<Rightarrow> [x]) @ (case gc_closed_width g of None \<Rightarrow> [] | Some x \<Rightarrow> [x]))"

definition args_readable ::
    "(real \<Rightarrow> string) \<Rightarrow> (string \<Rightarrow> real res) \<Rightarrow> (string \<Rightarrow> nat res) \<Rightarrow> rt_arm_cfg \<Rightarrow> control_cfg \<Rightarrow> coeffs_cfg
     \<Rightarrow> string list \<Rightarrow> bool" where
  "args_readable fstr stod stoul arm control co texts \<longleftrightarrow>
     list_all (\<lambda>s. \<not> dashes s) texts
     \<and> list_all (\<lambda>x. \<not> dashes (fstr x) \<and> stod (fstr x) = Inr x) (arg_floats arm control co)
     \<and> stod (show_int (rt_priority arm)) = Inr (of_int (rt_priority arm)) \<and> stoul (show_nat (rt_dof arm)) = Inr (rt_dof arm)"

lemma map_of_rev_distinct: "distinct (map fst xs) \<Longrightarrow> map_of (rev xs) = map_of xs"
proof (induction xs)
  case (Cons p xs)
  then have "map_of xs (fst p) = None" by (simp add: map_of_eq_None_iff)
  then show ?case using Cons by (cases p) (auto simp: map_add_def fun_eq_iff split: option.splits)
qed simp

lemma opt_kv_lookup: "map_of (rev (opt_kv key fstr x)) k = (if k = key then map_option fstr x else None)"
  by (simp add: opt_kv_def split: option.splits)

lemma gripper_kvs_keys:
  "map_of (rev (gripper_kvs fstr g grip)) k \<noteq> None \<Longrightarrow> take 10 k = ''--gripper-''"
  by (auto simp: gripper_kvs_def opt_kv_def split: option.splits if_splits)

text \<open>The options read are the options written.\<close>

lemma args_read:
  assumes a: "controller_args fstr exe arm control co sp cmd shm grip = Inr argv"
    and r: "args_readable fstr stod stoul arm control co (arg_texts arm sp cmd shm grip)"
  obtains m where "parse_args (tl argv) [] = Inr m"
    "\<And>k. take 10 k \<noteq> ''--gripper-'' \<Longrightarrow> dget m k = map_of (head_kvs arm sp cmd shm @ limit_kvs fstr arm control co) k"
    "\<And>k. take 10 k = ''--gripper-'' \<Longrightarrow> dget m k = map_of (rev (gripper_kvs fstr (ac_gripper arm) grip)) k"
proof -
  let ?F = "head_kvs arm sp cmd shm @ limit_kvs fstr arm control co" and ?G = "gripper_kvs fstr (ac_gripper arm) grip"
  note flat = controller_args_flat[OF a]
  have t: "list_all (\<lambda>s. \<not> dashes s) (arg_texts arm sp cmd shm grip)"
      "list_all (\<lambda>x. \<not> dashes (fstr x)) (arg_floats arm control co)"
    using r by (auto simp: args_readable_def list_all_iff)
  have shm: "\<not> dashes (the (dget shm sig))" if h: "(sig, flag) \<in> set TELEMETRY_FLAGS" for sig flag
  proof -
    obtain v where v: "dget shm sig = Some v" using flat(2) h by blast
    then have "v \<in> snd ` set shm" by (metis dget_mem image_eqI snd_conv)
    then show ?thesis using t(1) v by (auto simp: arg_texts_def list_all_iff)
  qed
  have flags: "dashes flag" if h: "(sig, flag) \<in> set TELEMETRY_FLAGS" for sig flag
    using h by (auto simp: TELEMETRY_FLAGS_def dashes_def)
  have lead: "dashes ''--serial''" "dashes ''--dof''" "dashes ''--setpoint-shm''" "dashes ''--command-shm''"
    by (simp_all add: dashes_def)
  have head: "\<forall>(k, v) \<in> set (head_kvs arm sp cmd shm). dashes k \<and> \<not> dashes v"
    using t(1) flags shm lead by (auto simp: head_kvs_def show_no_dashes arg_texts_def)
  have lim: "\<forall>(k, v) \<in> set (limit_kvs fstr arm control co). dashes k \<and> \<not> dashes v"
    using t by (auto simp: limit_kvs_def show_no_dashes arg_texts_def arg_floats_def Let_def) (simp_all add: dashes_def)
  have grip: "\<forall>(k, v) \<in> set ?G. dashes k \<and> \<not> dashes v"
    using t by (auto simp: gripper_kvs_def opt_kv_def show_no_dashes arg_texts_def arg_floats_def Let_def split: option.splits)
      (simp_all add: dashes_def)
  let ?m = "fold (\<lambda>(k, v). dput k v) ((head_kvs arm sp cmd shm @ limit_kvs fstr arm control co) @ ?G) []"
  have p: "parse_args (tl argv) [] = Inr ?m"
    unfolding flat(1) list.sel append_assoc by (rule parse_flat) (unfold set_append ball_Un, intro conjI, fact+)
  have g: "dget ?m k = (case map_of (rev ?G) k of None \<Rightarrow> map_of (rev ?F) k | Some v \<Rightarrow> Some v)" for k
    unfolding dget_fold_dput rev_append map_of_append by (simp add: map_add_def split: option.splits)
  have dist: "distinct (map fst ?F)" by (simp add: head_kvs_def limit_kvs_def TELEMETRY_FLAGS_def)
  then have F: "map_of (rev ?F) = map_of ?F" by (rule map_of_rev_distinct)
  have keys: "list_all (\<lambda>x. take 10 x \<noteq> ''--gripper-'') (map fst ?F)"
    by (simp add: head_kvs_def limit_kvs_def TELEMETRY_FLAGS_def)
  have nF: "map_of (rev ?F) k = None" if h: "take 10 k = ''--gripper-''" for k
    unfolding F map_of_eq_None_iff using h keys unfolding list_all_iff by force
  show thesis
  proof (rule that[OF p])
    show "dget ?m k = map_of ?F k" if h: "take 10 k \<noteq> ''--gripper-''" for k
      using g[of k] F gripper_kvs_keys[of fstr "ac_gripper arm" grip k] h by (auto split: option.splits)
    show "dget ?m k = map_of (rev ?G) k" if h: "take 10 k = ''--gripper-''" for k
      using g[of k] nF[OF h] by (auto split: option.splits)
  qed
qed

text \<open>
  C24. The controller works from the configuration of the arm process. The command line the launcher builds is
  accepted by the controller, which reads from it the same robot, rings, wrench frame, deadmen, tolerance,
  limits and priority, and refuses limits that are not positive. Hypotheses: no value begins with two
  dashes, and the text of each number passed is read back as that number.
\<close>

theorem controller_reads_configuration:
  assumes "controller_args fstr exe arm control co sp cmd shm grip = Inr argv"
    and "args_readable fstr stod stoul arm control co (arg_texts arm sp cmd shm grip)"
  shows "\<exists>m. parse_args (tl argv) [] = Inr m
    \<and> run_target stoul m = Inr \<lparr>tg_setpoint = sp, tg_command = cmd, tg_dof = rt_dof arm, tg_serial = rt_serial arm,
        tg_verbose = rt_verbose arm\<rparr>
    \<and> telemetry_rings m = Inr (map (\<lambda>(sig, flag). the (dget shm sig)) TELEMETRY_FLAGS, ac_wrench_frame arm = ''world'')
    \<and> run_limits stod m =
        (if co_max_joint_vel co \<le> 0 \<or> co_max_joint_acc co \<le> 0 then Inl ValueError
         else Inr \<lparr>li_soft_ns = c_trunc (cc_deadman_ms (ct_channel control) * 10 ^ 6),
                   li_hard_ns = c_trunc (cc_deadman_hard_ms (ct_channel control) * 10 ^ 6),
                   li_safety = ac_safety_check arm, li_tolerance = ac_tolerance arm, li_vel = co_max_joint_vel co,
                   li_acc = co_max_joint_acc co, li_priority = rt_priority arm\<rparr>)"
proof -
  obtain m where p: "parse_args (tl argv) [] = Inr m"
    and k: "\<And>k. take 10 k \<noteq> ''--gripper-'' \<Longrightarrow> dget m k = map_of (head_kvs arm sp cmd shm @ limit_kvs fstr arm control co) k"
    using args_read[OF assms] by metis
  have n: "stod (fstr x) = Inr x" if h: "x \<in> set (arg_floats arm control co)" for x
    using assms(2) h by (auto simp: args_readable_def list_all_iff)
  have nums: "stod (fstr (cc_deadman_ms (ct_channel control))) = Inr (cc_deadman_ms (ct_channel control))"
    "stod (fstr (cc_deadman_hard_ms (ct_channel control))) = Inr (cc_deadman_hard_ms (ct_channel control))"
    "stod (fstr (ac_tolerance arm)) = Inr (ac_tolerance arm)" "stod (fstr (co_max_joint_vel co)) = Inr (co_max_joint_vel co)"
    "stod (fstr (co_max_joint_acc co)) = Inr (co_max_joint_acc co)"
    by (rule n, simp add: arg_floats_def Let_def)+
  have ints: "stod (show_int (rt_priority arm)) = Inr (of_int (rt_priority arm))" "stoul (show_nat (rt_dof arm)) = Inr (rt_dof arm)"
    using assms(2) by (simp_all add: args_readable_def)
  have tr: "c_trunc (of_int (rt_priority arm)) = rt_priority arm" by (simp add: c_trunc_def)
  have "run_target stoul m = Inr \<lparr>tg_setpoint = sp, tg_command = cmd, tg_dof = rt_dof arm, tg_serial = rt_serial arm,
        tg_verbose = rt_verbose arm\<rparr>"
    by (simp add: run_target_def args_get_def args_get_or_def args_boolean_def k head_kvs_def limit_kvs_def TELEMETRY_FLAGS_def ints)
  moreover have "telemetry_rings m = Inr (map (\<lambda>(sig, flag). the (dget shm sig)) TELEMETRY_FLAGS, ac_wrench_frame arm = ''world'')"
    by (simp add: telemetry_rings_def args_get_def args_get_or_def k head_kvs_def limit_kvs_def TELEMETRY_FLAGS_def)
  moreover have "run_limits stod m =
        (if co_max_joint_vel co \<le> 0 \<or> co_max_joint_acc co \<le> 0 then Inl ValueError
         else Inr \<lparr>li_soft_ns = c_trunc (cc_deadman_ms (ct_channel control) * 10 ^ 6),
                   li_hard_ns = c_trunc (cc_deadman_hard_ms (ct_channel control) * 10 ^ 6),
                   li_safety = ac_safety_check arm, li_tolerance = ac_tolerance arm, li_vel = co_max_joint_vel co,
                   li_acc = co_max_joint_acc co, li_priority = rt_priority arm\<rparr>)"
    by (simp add: run_limits_def args_number_def args_boolean_def k head_kvs_def limit_kvs_def TELEMETRY_FLAGS_def nums ints tr)
  ultimately show ?thesis using p by blast
qed

section \<open>The gripper, native and in Python\<close>

lemma clamp_clip: "lo \<le> hi \<Longrightarrow> cpp_clamp x lo hi = clip x lo hi"
  by (auto simp: cpp_clamp_def clip_def)

text \<open>A pass of the worker that finds the value \<open>x\<close> at the time \<open>t\<close>.\<close>

definition sampled :: "int \<times> real \<Rightarrow> worker_obs" where
  "sampled p = \<lparr>wk_stop = False, wk_now = fst p, wk_latest = [WholeSlot [snd p] (fst p)], wk_raises = False\<rparr>"

lemma worker_due_sampled:
  "worker_due (sampled (t, x)) g =
     (if t - gr_last_send_ns g \<ge> gr_min_period_ns g \<and> (\<forall>lv. gr_last_val g = Some lv \<longrightarrow> \<bar>clip x 0 1 - lv\<bar> \<ge> gr_deadband g)
      then Some (clip x 0 1) else None)"
  by (simp add: worker_due_def sampled_def cpp_latest_def numeral_eq_Suc clamp_clip Let_def split: option.splits)

lemma worker_run_agrees:
  assumes "src_gripper s = Some g" "gr_last_val g = None \<Longrightarrow> \<forall>(t, x) \<in> set ts. gr_last_send_ns g + gr_min_period_ns g \<le> t"
  shows "src_calls (fold (\<lambda>(t, x). send_gripper x t) ts s) = src_calls s @ worker_run (map sampled ts) g"
  using assms
proof (induction ts arbitrary: s g)
  case (Cons p ts)
  obtain t x where p: "p = (t, x)" by (cases p)
  let ?v = "clip x 0 1"
  have stop: "\<not> wk_stop (sampled (t, x))" "\<not> wk_raises (sampled (t, x))" "wk_now (sampled (t, x)) = t" by (simp_all add: sampled_def)
  have due: "worker_due (sampled (t, x)) g = (if gripper_due g ?v t then Some ?v else None)"
    using Cons.prems(2) p by (cases "gr_last_val g") (auto simp: worker_due_sampled gripper_due_def)
  show ?case
  proof (cases "gripper_due g ?v t")
    case False
    then have "send_gripper x t s = s" using Cons.prems(1) by (simp add: send_gripper_def Let_def)
    then show ?thesis using False due stop p Cons.IH[OF Cons.prems(1)] Cons.prems(2) by simp
  next
    case True
    let ?g = "g\<lparr>gr_last_val := Some ?v, gr_last_send_ns := t\<rparr>"
    have s': "src_gripper (send_gripper x t s) = Some ?g"
        "src_calls (send_gripper x t s) = src_calls s @ [gripper_move g ?v]"
      using True Cons.prems(1) by (simp_all add: send_gripper_def Let_def gripper_move_def emit_def)
    show ?thesis using Cons.IH[OF s'(1)] s'(2) True due stop p by simp
  qed
qed simp

lemma worker_setup_agrees:
  assumes a: "controller_args fstr exe arm control co sp cmd shm (Some name) = Inr argv"
    and r: "args_readable fstr stod stoul arm control co (arg_texts arm sp cmd shm (Some name))"
    and s: "setup_gripper (ac_gripper arm) (Some p) s = (True, s')" "src_gripper s = None"
    and p: "gp_min_vel p \<le> gp_max_vel p" "gp_min_force p \<le> gp_max_force p"
  obtains m g where "parse_args (tl argv) [] = Inr m" "src_gripper s' = Some g"
    "worker_setup stod m p = Inr (Some (gc_init_on_start (ac_gripper arm), g))" "gr_last_val g = None" "gr_last_send_ns g = 0"
    "gr_min_period_ns g = \<lfloor>10 ^ 9 / max (1 / 10 ^ 3) (gc_move_rate_hz (ac_gripper arm))\<rfloor>"
proof -
  let ?c = "ac_gripper arm"
  have on: "gc_enabled ?c" "gc_name ?c \<noteq> ''''" using s by (auto simp: setup_gripper_def split: if_splits)
  obtain m where m: "parse_args (tl argv) [] = Inr m"
    and k: "\<And>k. take 10 k = ''--gripper-'' \<Longrightarrow> dget m k = map_of (rev (gripper_kvs fstr ?c (Some name))) k"
    using args_read[OF a r] by metis
  have n: "stod (fstr x) = Inr x" if h: "x \<in> set (arg_floats arm control co)" for x
    using r h by (auto simp: args_readable_def list_all_iff)
  have nums: "stod (fstr (gc_velocity ?c)) = Inr (gc_velocity ?c)" "stod (fstr (gc_force ?c)) = Inr (gc_force ?c)"
      "stod (fstr (gc_move_rate_hz ?c)) = Inr (gc_move_rate_hz ?c)" "stod (fstr (gc_deadband ?c)) = Inr (gc_deadband ?c)"
    by (rule n, simp add: arg_floats_def Let_def)+
  have widths: "gc_open_width ?c = Some x \<Longrightarrow> stod (fstr x) = Inr x" "gc_closed_width ?c = Some x \<Longrightarrow> stod (fstr x) = Inr x" for x
    by (rule n, simp add: arg_floats_def Let_def)+
  have per: "c_trunc (10 ^ 9 / max (1 / 1000) (gc_move_rate_hz ?c)) = \<lfloor>10 ^ 9 / max (1 / 10 ^ 3) (gc_move_rate_hz ?c)\<rfloor>"
    by (simp add: c_trunc_def max_def)
  define g where "g = \<lparr>gr_open_w = (case gc_open_width ?c of Some w \<Rightarrow> w | None \<Rightarrow> gp_max_width p),
     gr_closed_w = (case gc_closed_width ?c of Some w \<Rightarrow> w | None \<Rightarrow> gp_min_width p),
     gr_vel = clip (gc_velocity ?c) (gp_min_vel p) (gp_max_vel p), gr_force = clip (gc_force ?c) (gp_min_force p) (gp_max_force p),
     gr_min_period_ns = \<lfloor>10 ^ 9 / max (1 / 10 ^ 3) (gc_move_rate_hz ?c)\<rfloor>, gr_deadband = gc_deadband ?c,
     gr_last_val = None, gr_last_send_ns = 0\<rparr>"
  have s': "src_gripper s' = Some g" using s by (auto simp: setup_gripper_def Let_def g_def split: if_splits)
  have look: "dget m ''--gripper-shm'' = Some name" "dget m ''--gripper-name'' = Some (gc_name ?c)"
      "dget m ''--gripper-velocity'' = Some (fstr (gc_velocity ?c))" "dget m ''--gripper-force'' = Some (fstr (gc_force ?c))"
      "dget m ''--gripper-rate'' = Some (fstr (gc_move_rate_hz ?c))" "dget m ''--gripper-deadband'' = Some (fstr (gc_deadband ?c))"
      "dget m ''--gripper-init'' = Some (show_flag (gc_init_on_start ?c))"
      "dget m ''--gripper-open-width'' = map_option fstr (gc_open_width ?c)"
      "dget m ''--gripper-closed-width'' = map_option fstr (gc_closed_width ?c)"
    using on by (simp_all add: k gripper_kvs_def opt_kv_lookup map_add_def split: option.split)
  have op: "args_number stod m ''--gripper-open-width'' (gp_max_width p) = Inr (gr_open_w g)"
    using widths(1) by (simp add: args_number_def look g_def split: option.splits)
  have cl: "args_number stod m ''--gripper-closed-width'' (gp_min_width p) = Inr (gr_closed_w g)"
    using widths(2) by (simp add: args_number_def look g_def split: option.splits)
  have "worker_setup stod m p = Inr (Some (gc_init_on_start ?c, g))"
    unfolding worker_setup_def op cl using on(2)
    by (simp add: args_number_def args_get_or_def args_boolean_def look nums clamp_clip p) (use per in \<open>simp add: g_def\<close>)
  then show thesis using that[OF m s'] by (simp add: g_def)
qed

text \<open>
  C25. The native gripper worker drives the gripper as the Python arm process would. Started from the launcher's
  command line with the parameters the gripper reports, the worker sends, over any sequence of
  targets and times, exactly the moves, with the same widths, velocity and force, that the Python source sends
  after its own set-up, provided the clock has run for one period of the gripper. Hypotheses: the command line reads back, the reported
  ranges are not empty, and the values arrive whole.
\<close>

theorem native_gripper_agrees:
  assumes a: "controller_args fstr exe arm control co sp cmd shm (Some name) = Inr argv"
    and r: "args_readable fstr stod stoul arm control co (arg_texts arm sp cmd shm (Some name))"
    and s: "setup_gripper (ac_gripper arm) (Some p) s = (True, s')" "src_gripper s = None"
    and p: "gp_min_vel p \<le> gp_max_vel p" "gp_min_force p \<le> gp_max_force p"
    and ts: "\<forall>(t, x) \<in> set ts. \<lfloor>10 ^ 9 / max (1 / 10 ^ 3) (gc_move_rate_hz (ac_gripper arm))\<rfloor> \<le> t"
  shows "\<exists>m g. parse_args (tl argv) [] = Inr m \<and> worker_setup stod m p = Inr (Some (gc_init_on_start (ac_gripper arm), g))
    \<and> src_calls (fold (\<lambda>(t, x). send_gripper x t) ts s') = src_calls s' @ worker_run (map sampled ts) g"
proof -
  obtain m g where m: "parse_args (tl argv) [] = Inr m" "src_gripper s' = Some g"
      "worker_setup stod m p = Inr (Some (gc_init_on_start (ac_gripper arm), g))" "gr_last_send_ns g = 0"
      "gr_min_period_ns g = \<lfloor>10 ^ 9 / max (1 / 10 ^ 3) (gc_move_rate_hz (ac_gripper arm))\<rfloor>"
    using worker_setup_agrees[OF a r s p] by metis
  have "\<forall>(t, x) \<in> set ts. gr_last_send_ns g + gr_min_period_ns g \<le> t" using ts m(4,5) by simp
  then show ?thesis using worker_run_agrees[OF m(2), of ts] m(1,3) by blast
qed

section \<open>Witnesses\<close>

definition demo_numbers :: "(real \<times> string) list" where
  "demo_numbers = [(1 / 2, ''0.5''), (2, ''2.0''), (3, ''3.0''), (1, ''1.0''), (20, ''20.0''), (10, ''10.0''), (1 / 50, ''0.02''),
     (100, ''100.0''), (500, ''500.0'')]"

definition demo_fstr :: "real \<Rightarrow> string" where
  "demo_fstr x = (case map_of demo_numbers x of Some s \<Rightarrow> s | None \<Rightarrow> ''nan'')"

definition demo_stod :: "string \<Rightarrow> real res" where
  "demo_stod s = (if s = ''0'' then Inr 0 else case map_of (map (\<lambda>(x, t). (t, x)) demo_numbers) s of Some x \<Rightarrow> Inr x | None \<Rightarrow> Inl ValueError)"

definition demo_stoul :: "string \<Rightarrow> nat res" where
  "demo_stoul s = (if s = ''1'' then Inr 1 else Inl ValueError)"

definition demo_grip_arm :: rt_arm_cfg where
  "demo_grip_arm = demo_rt_arm\<lparr>ac_gripper := \<lparr>gc_enabled = True, gc_name = ''grav'', gc_velocity = 1, gc_force = 20, gc_move_rate_hz = 10,
     gc_deadband = 1 / 50, gc_init_on_start = True, gc_open_width = None, gc_closed_width = Some (1 / 2)\<rparr>\<rparr>"

definition demo_shm :: "(string, string) dict" where
  "demo_shm = map (\<lambda>(s, f). (s, ''dfc_'' @ s)) TELEMETRY_FLAGS"

definition demo_rt_control :: control_cfg where
  "demo_rt_control = (ac_control demo_node_cfg)\<lparr>ct_channel := demo_channel\<lparr>cc_deadman_ms := 100, cc_deadman_hard_ms := 500\<rparr>\<rparr>"

lemma demo_args_readable:
  "args_readable demo_fstr demo_stod demo_stoul demo_grip_arm demo_rt_control demo_coeffs
     (arg_texts demo_grip_arm ''sp'' ''cmd'' demo_shm (Some ''grip''))"
proof -
  have i: "show_int 0 = ''0''" "show_nat 1 = ''1''" by code_simp+
  show ?thesis
    by (simp add: args_readable_def arg_texts_def arg_floats_def demo_grip_arm_def demo_rt_arm_def arm_node_cfg.defs demo_node_cfg_def
        demo_shm_def TELEMETRY_FLAGS_def dashes_def demo_rt_control_def demo_coeffs_def demo_fstr_def demo_stod_def demo_numbers_def
        demo_stoul_def i[unfolded One_nat_def] i)
qed

lemma demo_args: "\<exists>argv. controller_args demo_fstr ''rt'' demo_grip_arm demo_rt_control demo_coeffs ''sp'' ''cmd'' demo_shm (Some ''grip'') = Inr argv"
  by (simp add: controller_args_def telemetry_args_def TELEMETRY_FLAGS_def demo_shm_def ditem_def)

theorem controller_reads_configuration_witness:
  "\<exists>argv m. controller_args demo_fstr ''rt'' demo_grip_arm demo_rt_control demo_coeffs ''sp'' ''cmd'' demo_shm (Some ''grip'') = Inr argv
     \<and> parse_args (tl argv) [] = Inr m
     \<and> map_option li_vel (case run_limits demo_stod m of Inr li \<Rightarrow> Some li | Inl e \<Rightarrow> None) = Some 2"
proof -
  obtain argv where a: "controller_args demo_fstr ''rt'' demo_grip_arm demo_rt_control demo_coeffs ''sp'' ''cmd'' demo_shm (Some ''grip'') = Inr argv"
    using demo_args by blast
  show ?thesis using controller_reads_configuration[OF a demo_args_readable] a by (auto simp: demo_coeffs_def)
qed

definition demo_params :: gripper_params where
  "demo_params = \<lparr>gp_min_width = 0, gp_max_width = 1, gp_min_vel = 0, gp_max_vel = 1, gp_min_force = 0, gp_max_force = 40\<rparr>"

theorem native_gripper_agrees_witness:
  "\<exists>argv s' m g. controller_args demo_fstr ''rt'' demo_grip_arm demo_rt_control demo_coeffs ''sp'' ''cmd'' demo_shm (Some ''grip'') = Inr argv
     \<and> setup_gripper (ac_gripper demo_grip_arm) (Some demo_params) (demo_source [0]) = (True, s')
     \<and> parse_args (tl argv) [] = Inr m \<and> worker_setup demo_stod m demo_params = Inr (Some (True, g))
     \<and> src_calls (fold (\<lambda>(t, x). send_gripper x t) [(100000000, 1), (100000001, 0), (300000000, 0)] s')
         = src_calls s' @ worker_run (map sampled [(100000000, 1), (100000001, 0), (300000000, 0)]) g"
proof -
  obtain argv where a: "controller_args demo_fstr ''rt'' demo_grip_arm demo_rt_control demo_coeffs ''sp'' ''cmd'' demo_shm (Some ''grip'') = Inr argv"
    using demo_args by blast
  have n: "src_gripper (demo_source [0]) = None" by (simp add: demo_source_def)
  have gr: "ac_gripper demo_grip_arm = \<lparr>gc_enabled = True, gc_name = ''grav'', gc_velocity = 1, gc_force = 20, gc_move_rate_hz = 10,
     gc_deadband = 1 / 50, gc_init_on_start = True, gc_open_width = None, gc_closed_width = Some (1 / 2)\<rparr>"
    by (simp add: demo_grip_arm_def)
  obtain s' where s': "setup_gripper (ac_gripper demo_grip_arm) (Some demo_params) (demo_source [0]) = (True, s')"
    using n by (simp add: setup_gripper_def Let_def gr)
  have p: "gp_min_vel demo_params \<le> gp_max_vel demo_params" "gp_min_force demo_params \<le> gp_max_force demo_params"
    by (simp_all add: demo_params_def)
  have ts: "\<forall>(t, x) \<in> set [(100000000, 1), (100000001, 0), (300000000, 0 :: real)].
      \<lfloor>10 ^ 9 / max (1 / 10 ^ 3) (gc_move_rate_hz (ac_gripper demo_grip_arm))\<rfloor> \<le> t" by (simp add: gr)
  show ?thesis using native_gripper_agrees[OF a demo_args_readable s' n p ts] a s' by (simp only: gr gripper_cfg.simps) blast
qed

definition demo_boot_obs :: "bool \<Rightarrow> rt_obs" where
  "demo_boot_obs stop = \<lparr>ro_stop = stop, ro_now = 20, ro_q = [0], ro_publish = Inr (), ro_fault = False, ro_count = 0, ro_read = (\<lambda>i. None),
     ro_latest = [WholeSlot [0] 10]\<rparr>"

definition demo_rt_boot :: rt_boot where
  "demo_rt_boot = \<lparr>bo_setpoint_dim = 1, bo_capacity = 8, bo_robot = Inr (), bo_dof = 1, bo_fault = False, bo_cleared = True,
     bo_oper = [(True, False, False)], bo_latest = [WholeSlot [0] 5], bo_q = [0],
     bo_moves = [\<lparr>mv_reached = True, mv_publish = Inr (), mv_stop = False, mv_count = 0, mv_read = (\<lambda>i. None)\<rparr>], bo_gripper = False,
     bo_obs = [demo_boot_obs False, demo_boot_obs True]\<rparr>"

definition demo_rt_args :: "(string, string) dict" where
  "demo_rt_args = [(''--setpoint-shm'', ''sp''), (''--command-shm'', ''cmd''), (''--dof'', ''1''), (''--serial'', ''r'')]
     @ map (\<lambda>(s, f). (f, s)) TELEMETRY_FLAGS"

lemma demo_rt_run:
  "\<exists>rc calls. rt_run demo_stod demo_stoul demo_rt_args demo_rt_boot = Some (rc, calls) \<and> RtStream [0] [0] [0] \<in> set calls"
proof -
  have t: "run_target demo_stoul demo_rt_args = Inr \<lparr>tg_setpoint = ''sp'', tg_command = ''cmd'', tg_dof = 1, tg_serial = ''r'', tg_verbose = False\<rparr>"
    by (simp add: run_target_def args_get_def args_get_or_def args_boolean_def demo_rt_args_def TELEMETRY_FLAGS_def demo_stoul_def)
  have r: "\<exists>rings. telemetry_rings demo_rt_args = Inr rings"
    by (simp add: telemetry_rings_def args_get_def demo_rt_args_def TELEMETRY_FLAGS_def)
  have l: "run_limits demo_stod demo_rt_args = Inr \<lparr>li_soft_ns = 100000000, li_hard_ns = 500000000, li_safety = True, li_tolerance = 1 / 2,
      li_vel = 2, li_acc = 3, li_priority = 0\<rparr>"
    by (simp add: run_limits_def args_number_def args_boolean_def demo_rt_args_def TELEMETRY_FLAGS_def c_trunc_def)
  have f: "rt_preflight demo_stod demo_rt_args (Suc 0) [0] [0] = Inr ()"
    by (simp add: rt_preflight_def args_number_def args_boolean_def demo_rt_args_def TELEMETRY_FLAGS_def worst_error_def)
  show ?thesis using t r
    by (auto simp: rt_run_def demo_rt_boot_def rt_move_first_def cpp_latest_def numeral_eq_Suc resize_def f rt_serve_def Let_def l
        demo_boot_obs_def rt_tick_def stop_command_pending_def take_setpoint_def advance_trajectory_def advance_joint_def RT_DT_def
        rt_gate_def worst_error_def rt_finish_def)
qed


theorem torn_setpoint_followed_witness:
  "sv_desired (snd (take_setpoint \<lparr>li_soft_ns = 100, li_hard_ns = 500, li_safety = True, li_tolerance = 1, li_vel = 1, li_acc = 1, li_priority = 0\<rparr> 1
     ((demo_boot_obs False)\<lparr>ro_latest := [TornSlot [1], TornSlot [2], TornSlot [3], TornSlot [9]]\<rparr>)
     \<lparr>sv_desired = [0], sv_traj = \<lparr>tj_q = [0], tj_dq = [0], tj_ddq = [0]\<rparr>, sv_last_time = 10, sv_cursor = 0, sv_calls = []\<rparr>)) = [9]"
  using torn_setpoint_followed[of "(demo_boot_obs False)\<lparr>ro_latest := [TornSlot [1], TornSlot [2], TornSlot [3], TornSlot [9]]\<rparr>"
      "[1]" "[2]" "[3]" "[9]" 1
      "\<lparr>sv_desired = [0], sv_traj = \<lparr>tj_q = [0], tj_dq = [0], tj_ddq = [0]\<rparr>, sv_last_time = 10, sv_cursor = 0, sv_calls = []\<rparr>"
      "\<lparr>li_soft_ns = 100, li_hard_ns = 500, li_safety = True, li_tolerance = 1, li_vel = 1, li_acc = 1, li_priority = 0\<rparr>"]
  by (simp add: demo_boot_obs_def)

end
