(* ===== verification/Spec2Isabelle.thy ===== *)
theory Spec2Isabelle
  imports Seqlock Collection Session_Machine Skill_Replay Policy_Client Orphans Session_Client Session_Loop Factr_Client Storage Calibration Rt_Controller
begin

text \<open>
  Verification of dual-flexiv-control: the software that drives one or two Flexiv Rizon arms from FACTR leader arms, from a
  policy server or from taught skills, and records the demonstrations. Paths below are under
  \<^verbatim>\<open>src/dual_flexiv_control\<close> of the repository.

  \<^bold>\<open>The program.\<close> Every piece of hardware has a process of its own (\<^verbatim>\<open>process.py\<close>). Processes exchange samples
  through shared-memory rings with one writer and any number of readers (\<^verbatim>\<open>streams/\<close>), found through manifest files. An arm process
  (\<^verbatim>\<open>interfaces/flexiv\<close>) publishes telemetry and, when told to enter control, reads setpoints and commands from a control
  channel (\<^verbatim>\<open>control/\<close>) that the consumer of a run owns through a brain (\<^verbatim>\<open>brain/brain.py\<close>). The consumers are data collection
  (\<^verbatim>\<open>collection/\<close>), policy evaluation (\<^verbatim>\<open>policy/\<close>) and skill replay (\<^verbatim>\<open>skills.py\<close>). A one-shot run is
  supervised by \<^verbatim>\<open>system.py\<close>; the long-lived daemon \<^verbatim>\<open>session.py\<close> keeps the hardware up, starts and stops
  runs, and launches the leader servers (\<^verbatim>\<open>interfaces/factr/launch.py\<close>).

  \<^bold>\<open>Conventions.\<close> A function that may raise returns a value of \<open>py_error + 'a\<close> (\<open>Inl\<close> the exception); one that changes
  state when it raises returns the state as well. Dictionaries are association lists, because their order matters. A loop that
  waits for the world runs over a list of observations, one per turn (what the clock, the stop event, a stream or a process showed
  in that turn), and is \<open>None\<close> if the list ends before the loop does; that a loop ends is proved from what the
  observations contain, e.g. a clock reading past the deadline. Doubles are reals, except in the status stream of an arm, where
  infinities and NaN matter; ring counters and time stamps are integers. The RDK, numpy's leaf conversions, LeRobot, HTTP and the
  operating system appear as arguments of the definitions.

  \<^bold>\<open>Theories.\<close>

  \<^item> \<open>Prelude\<close>: exceptions, dictionaries, slices, folds that may raise; the collections \<open>res_simps\<close>, \<open>dict_simps\<close>, \<open>slice_simps\<close>.

  \<^item> \<open>Ring_Buffer\<close> (\<^verbatim>\<open>streams/ring.py\<close>, \<^verbatim>\<open>streams/spec.py\<close>): the segment, \<open>ring_create\<close>, \<open>ring_attach\<close>,
    \<open>ring_append\<close>, \<open>ring_last\<close>. \<open>Seqlock\<close>: the same two operations as single loads and stores of concurrent
    writers and readers; no torn read is returned, a reader needs a bounded number of steps, a writer alone is \<open>ring_append\<close>.

  \<^item> \<open>Registry\<close> (\<^verbatim>\<open>streams/registry.py\<close>, \<^verbatim>\<open>streams/stream.py\<close>): manifests in a directory, publication with every
    failure point, discovery, waiting, sweeping, writers and readers on a run's store.

  \<^item> \<open>Control_Channel\<close> (\<^verbatim>\<open>control/channel.py\<close>, \<^verbatim>\<open>control/message.py\<close>): commands, setpoint layout, the command
    cursor; no command is delivered twice, and which are lost. \<open>Convention\<close> (\<^verbatim>\<open>control/convention.py\<close>): leader to follower joints.

  \<^item> \<open>State_Layout\<close> (\<^verbatim>\<open>layout.py\<close>, \<^verbatim>\<open>proprio.py\<close>, \<^verbatim>\<open>cameras.py\<close>): state and action vectors; blocks tile them, splitting undoes packing.

  \<^item> \<open>Arm_Source\<close> (\<^verbatim>\<open>interfaces/flexiv/source.py\<close>): the hardware handle and its simulated twin, the safety gate.
    \<open>Arm_Session\<close> (\<^verbatim>\<open>interfaces/flexiv/interface.py\<close>): the session loop, a control session with its clean-up, the control tick with the deadman;
    an arm is always parked when it leaves control, and nothing is actuated outside the guards.

  \<^item> \<open>Brain\<close> (\<^verbatim>\<open>brain/brain.py\<close>), \<open>Producer\<close> (\<^verbatim>\<open>process.py\<close>), \<open>Factr\<close> (\<^verbatim>\<open>interfaces/factr/interface.py\<close>) and
    \<open>Factr_Client\<close> (\<^verbatim>\<open>interfaces/factr/client.py\<close>): the leader's streams, and the client under them whose readings are fresh, whole and this leader's own.

  \<^item> \<open>Collection\<close> (\<^verbatim>\<open>collection/\<close>): frames, the teleoperation loop, episodes, the recorder's decision about an existing dataset.

  \<^item> \<open>Processes\<close> (\<^verbatim>\<open>system.py\<close>): stop escalation and the supervise loop; the locale \<open>paced_respawn\<close> states what a supervisor that
    replaces dead processes owes (no replacement before its pause is over) and gives its consequence for whole runs; it is interpreted for the leader
    relay in \<open>Leader_Launch\<close> (\<^verbatim>\<open>interfaces/factr/launch.py\<close>), for arms and cameras in \<open>Session_Machine\<close> and for the daemon itself in \<open>Session_Client\<close>.

  \<^item> \<open>Session\<close> (\<^verbatim>\<open>session.py\<close>): every command handler and every tender of the daemon on one record, with the process table
    of \<open>Leader_Launch\<close> and the store of \<open>Registry\<close>. \<open>Session_Machine\<close>: the daemon as a transition system (\<open>session_reach\<close>:
    commands, tenders, processes dying, arms taking their messages), its invariants by rule induction, and what starts, stops,
    dropouts, dead arms and queued starts do. \<open>Session_Loop\<close>: the daemon as a process, with its loop (which refines that transition system), its
    boot, teardown and \<^verbatim>\<open>main\<close>; the teardown leaves no process, segment or energized leader.

  \<^item> \<open>Skill_Store\<close> and \<open>Skill_Replay\<close> (\<^verbatim>\<open>skills.py\<close>): skill files, teaching from an episode, the replay loop and its node.

  \<^item> \<open>Policy_Adapter\<close> (\<^verbatim>\<open>policy/adapter.py\<close>) and \<open>Policy_Loop\<close> (\<^verbatim>\<open>policy/loop.py\<close>, \<^verbatim>\<open>policy/observation.py\<close>): index
    projections between canonical vectors and a server's; the evaluation loop with its receding horizon and error budget.
    \<open>Policy_Client\<close> (\<^verbatim>\<open>policy/client.py\<close>): transports, the remote policy and the hold policy; a reply answers its own request.

  \<^item> \<open>Session_Client\<close> (\<^verbatim>\<open>dashboard/session.py\<close>, \<open>RunRegistry\<close> of \<^verbatim>\<open>dashboard/runner.py\<close>): the dashboard's hold on the daemon; what a restart
    interrupts, crash loops, launches and alerts, over the state the daemon of \<open>Session\<close> publishes.

  \<^item> \<open>Storage\<close> (\<^verbatim>\<open>dashboard/storage.py\<close>, \<^verbatim>\<open>dashboard/downloads.py\<close>): recorded datasets, what deleting episodes leaves on every path, and the
    download server.

  \<^item> \<open>Calibration\<close> (\<^verbatim>\<open>dashboard/calibration.py\<close>): the solve of a leader's convention from captured poses, which recovers it, and its write-back.

  \<^item> \<open>Native_Rt\<close> (\<^verbatim>\<open>interfaces/flexiv/native_rt.py\<close>, \<open>_run_native_rt\<close> of the interface): the search for the native controller, its command line, the
    supervision of its process and the hand-over of the robot, which implements the native phase of \<open>Arm_Session\<close>. The polling of the child takes fuel, one unit per 10 ms.
    \<open>Rt_Controller\<close> (\<^verbatim>\<open>native/flexiv_rt_controller/main.cpp\<close>): the controller itself, from its command line to the servo loop and the gripper worker; the limits and
    gates of what it streams, and its agreement with the launcher and with the Python gripper.

  \<^item> \<open>Orphans\<close> (\<^verbatim>\<open>orphans.py\<close>): which left-over processes, segments and run directories a sweep takes, and that a living
    supervisor is safe from it.

  \<^bold>\<open>Locales.\<close> Interfaces are locales interpreted on the definitions of the component that provides them: \<open>sample_log\<close>
  (a ring as the log of its samples, used by the command cursor), \<open>stoppable_source\<close> (what the session loop needs of an arm source: its
  operations keep it connected, and stopping a connected source parks it), \<open>velocity_plant\<close> (a target that integrates commanded velocities; the real and the
  simulated source), \<open>paced_respawn\<close>, \<open>projection_step\<close> (an item of a projection adds its writes to every row; copies, holds and constants), \<open>endpoint\<close> (a decoder of
  replies; both adapters).

  \<^bold>\<open>What the properties say.\<close> Each is numbered in the text before it. The first ones are about motion: an arm is parked
  whenever control is left, actuation happens only behind the deadman and the gate, torn samples are never read, a start either passes
  every gate or touches nothing, teleoperation and replay post only real targets, a respawned arm is idle, leaders are
  de-energized before they are cut off. Then come delivery of commands, termination of loops, consistency of the published
  session state, the watchdogs, shutdown, the integrity of recordings and skills, and the layout and round-trip facts the rest relies
  on. Some state a defect as it is: a torn setpoint the native loop follows, a boot that fails without its teardown, a failed swap that loses a dataset.

  \<^bold>\<open>Not modelled.\<close> The rest of the dashboard, the viewers and the Rerun, Viser and Plotly services only display streams and send the commands
  modelled in \<open>Session\<close>. Camera sources are calls into vendor libraries, as is the RDK under the native controller; what sockets, servers, LeRobot and the
  operating system answer are arguments here. Hydra composition is a parameter (\<open>ob_compose\<close>).
\<close>

end
